(* ===== verification/Markiro_Prelude.thy ===== *)
theory Markiro_Prelude
  imports Main "HOL-Library.List_Lexorder"
begin

text \<open>
  Shared vocabulary of the development: JavaScript strings, the few string and number
  operations of the language that the sources use, the error values, and the lemmas about
  them that the component theories rely on.

  A JavaScript string is a finite sequence of UTF-16 code units, so \<open>jstring\<close> is a list of
  natural numbers (below 65536 in every real string); \<open>length\<close> is then JavaScript's
  \<open>length\<close>, and the order of \<open>HOL-Library.List_Lexorder\<close> on it is JavaScript's \<open><\<close> on
  strings. A JavaScript number that reaches a \<open>Number.isInteger\<close> check is a \<open>jnum\<close>: an
  integer, or one of the values the check refuses (a fraction, an infinity, NaN).
\<close>

named_theorems js_simps \<open>evaluation of the string and number operations\<close>
named_theorems err_simps \<open>error values\<close>

section \<open>Strings\<close>

type_synonym jstring = "nat list"

text \<open>A string literal of the source, character by character.\<close>

definition lit :: "string \<Rightarrow> jstring" where
  "lit s = map of_char s"

lemma length_lit [simp]: "length (lit s) = length s"
  by (simp add: lit_def)

lemma lit_inj: "lit s = lit t \<longleftrightarrow> s = t"
  by (auto simp: lit_def inj_map_eq_map [OF inj_of_char])

lemma lit_empty: "lit s = [] \<longleftrightarrow> s = []"
  by (simp add: lit_def)

lemma lit_append: "lit (s @ t) = lit s @ lit t"
  by (simp add: lit_def)

definition is_digit :: "nat \<Rightarrow> bool" where
  "is_digit c \<longleftrightarrow> 48 \<le> c \<and> c \<le> 57"

definition is_hex :: "nat \<Rightarrow> bool" where
  "is_hex c \<longleftrightarrow> is_digit c \<or> 97 \<le> c \<and> c \<le> 102"

text \<open>The regular expressions \<open>^\d+$\<close> and \<open>^\d{n}$\<close>.\<close>

definition all_digits :: "jstring \<Rightarrow> bool" where
  "all_digits s \<longleftrightarrow> s \<noteq> [] \<and> list_all is_digit s"

definition digits_n :: "nat \<Rightarrow> jstring \<Rightarrow> bool" where
  "digits_n n s \<longleftrightarrow> length s = n \<and> list_all is_digit s"

definition starts_with :: "jstring \<Rightarrow> jstring \<Rightarrow> bool" where
  "starts_with s p \<longleftrightarrow> take (length p) s = p"

text \<open>
  A regular expression that is a sequence of character classes, and the one for a lower-case
  UUID: \<open>[0-9a-f]{8}-[0-9a-f]{4}-[1-8][0-9a-f]{3}-[89ab][0-9a-f]{3}-[0-9a-f]{12}\<close>.
\<close>

definition matches :: "(nat \<Rightarrow> bool) list \<Rightarrow> jstring \<Rightarrow> bool" where
  "matches classes s = list_all2 (\<lambda>p c. p c) classes s"

definition is_hyphen :: "nat \<Rightarrow> bool" where
  "is_hyphen c \<longleftrightarrow> c = 45"

definition uuid_classes :: "(nat \<Rightarrow> bool) list" where
  "uuid_classes =
     replicate 8 is_hex @ [is_hyphen] @ replicate 4 is_hex @ [is_hyphen]
     @ [\<lambda>c. 49 \<le> c \<and> c \<le> 56] @ replicate 3 is_hex @ [is_hyphen]
     @ [\<lambda>c. c = 56 \<or> c = 57 \<or> c = 97 \<or> c = 98] @ replicate 3 is_hex @ [is_hyphen]
     @ replicate 12 is_hex"

text \<open>\<open>s.slice(a, b)\<close> for \<open>0 \<le> a\<close>, and \<open>s.slice(a)\<close>.\<close>

definition slice :: "nat \<Rightarrow> nat \<Rightarrow> jstring \<Rightarrow> jstring" where
  "slice a b s = take (b - a) (drop a s)"

text \<open>\<open>s.indexOf(c)\<close> for a one-unit string \<open>c\<close>; \<open>-1\<close> is \<open>None\<close>.\<close>

fun index_of :: "nat \<Rightarrow> jstring \<Rightarrow> nat option" where
  "index_of c [] = None"
| "index_of c (x # xs) = (if x = c then Some 0 else map_option Suc (index_of c xs))"

definition pad_start :: "nat \<Rightarrow> nat \<Rightarrow> jstring \<Rightarrow> jstring" where
  "pad_start n c s = replicate (n - length s) c @ s"

text \<open>The white space and line terminators \<open>String.prototype.trim\<close> removes.\<close>

definition js_ws :: "nat \<Rightarrow> bool" where
  "js_ws c \<longleftrightarrow> 9 \<le> c \<and> c \<le> 13 \<or> c = 32 \<or> c = 160 \<or> c = 5760 \<or> 8192 \<le> c \<and> c \<le> 8202
     \<or> c = 8232 \<or> c = 8233 \<or> c = 8239 \<or> c = 8287 \<or> c = 12288 \<or> c = 65279"

definition strip :: "(nat \<Rightarrow> bool) \<Rightarrow> jstring \<Rightarrow> jstring" where
  "strip p s = rev (dropWhile p (rev (dropWhile p s)))"

definition js_trim :: "jstring \<Rightarrow> jstring" where
  "js_trim s = strip js_ws s"

text \<open>
  \<open>toLowerCase\<close> on ASCII, which is all the identifiers it is applied to can contain: no
  character outside ASCII becomes a hexadecimal digit or a hyphen.
\<close>

definition to_lower :: "jstring \<Rightarrow> jstring" where
  "to_lower s = map (\<lambda>c. if 65 \<le> c \<and> c \<le> 90 then c + 32 else c) s"

lemma to_lower_idem [simp]: "to_lower (to_lower s) = to_lower s"
  by (induction s) (auto simp: to_lower_def)

text \<open>The regular expression \<open>^[0-9a-f]{64}$\<close> of a SHA-256 digest.\<close>

definition digestSchema :: "jstring \<Rightarrow> bool" where
  "digestSchema s \<longleftrightarrow> length s = 64 \<and> list_all is_hex s"

text \<open>\<open>String(n)\<close> for a natural number, and \<open>Number(s)\<close> for a string of digits.\<close>

fun dec :: "nat \<Rightarrow> jstring" where
  "dec n = (if n < 10 then [48 + n] else dec (n div 10) @ [48 + n mod 10])"

declare dec.simps [simp del]

definition num :: "jstring \<Rightarrow> nat" where
  "num s = foldl (\<lambda>a c. 10 * a + (c - 48)) 0 s"

fun join :: "jstring \<Rightarrow> jstring list \<Rightarrow> jstring" where
  "join sep [] = []"
| "join sep [x] = x"
| "join sep (x # y # xs) = x @ sep @ join sep (y # xs)"

text \<open>
  \<open>TextEncoder.encode\<close>: the UTF-8 bytes of the code points of a string. A surrogate without
  its partner is encoded as the replacement character.
\<close>

definition utf8_point :: "nat \<Rightarrow> nat list" where
  "utf8_point c =
     (if c < 128 then [c]
      else if c < 2048 then [192 + c div 64, 128 + c mod 64]
      else if c < 65536 then [224 + c div 4096, 128 + c div 64 mod 64, 128 + c mod 64]
      else [240 + c div 262144, 128 + c div 4096 mod 64, 128 + c div 64 mod 64, 128 + c mod 64])"

definition high_surrogate :: "nat \<Rightarrow> bool" where
  "high_surrogate c \<longleftrightarrow> 55296 \<le> c \<and> c \<le> 56319"

definition low_surrogate :: "nat \<Rightarrow> bool" where
  "low_surrogate c \<longleftrightarrow> 56320 \<le> c \<and> c \<le> 57343"

fun code_points :: "jstring \<Rightarrow> nat list" where
  "code_points [] = []"
| "code_points [c] = [c]"
| "code_points (c # d # s) =
     (if high_surrogate c \<and> low_surrogate d
      then (65536 + (c - 55296) * 1024 + (d - 56320)) # code_points s
      else c # code_points (d # s))"

definition utf8 :: "jstring \<Rightarrow> nat list" where
  "utf8 s = concat (map (\<lambda>c. utf8_point (if high_surrogate c \<or> low_surrogate c then 65533 else c))
     (code_points s))"

section \<open>Numbers and errors\<close>

datatype jnum = JInt int | JNonInt

fun jint :: "jnum \<Rightarrow> int" where
  "jint (JInt i) = i"
| "jint JNonInt = 0"

fun is_integer :: "jnum \<Rightarrow> bool" where
  "is_integer (JInt i) = True"
| "is_integer JNonInt = False"

definition max_safe :: int where
  "max_safe = 9007199254740991"

fun is_safe_integer :: "jnum \<Rightarrow> bool" where
  "is_safe_integer (JInt i) = (- max_safe \<le> i \<and> i \<le> max_safe)"
| "is_safe_integer JNonInt = False"

text \<open>\<open>z.number().int().positive().max(Number.MAX_SAFE_INTEGER)\<close>.\<close>

definition positiveIntegerSchema :: "jnum \<Rightarrow> bool" where
  "positiveIntegerSchema v \<longleftrightarrow> is_integer v \<and> 0 < jint v \<and> jint v \<le> max_safe"

text \<open>
  The errors the sources throw. A \<open>DomainError\<close> is told apart by its code; its message is
  not modelled. A \<open>ZodError\<close> is a value refused by a schema.
\<close>

datatype error_code =
    GTIN_INVALID | SSCC_PREFIX | SSCC_RANGE | SSCC_FORMAT
  | KM_EMPTY | KM_NO_GTIN | KM_BAD_GTIN | KM_NO_SERIAL | KM_EMPTY_AI | KM_BAD_AI
  | KM_DUPLICATE_AI | KM_BAD_ENCODING | KM_BAD_CONTROL | KM_TOO_LONG | KM_REPRINT_INCOMPLETE
  | PRODUCT_LABEL_TRANSITION_INVALID | WAREHOUSE_REPRINT_TRANSITION
  | SHIFT_DATE_FORMAT | LABEL_TEXT_OVERFLOW

datatype js_error = DomainError error_code | RangeError | TypeError | ZodError | PlainError

type_synonym 'a result = "js_error + 'a"

fun is_ok :: "'a result \<Rightarrow> bool" where
  "is_ok (Inr _) = True"
| "is_ok (Inl _) = False"

lemma is_ok_iff [err_simps]: "is_ok r \<longleftrightarrow> (\<exists>x. r = Inr x)"
  by (cases r) auto

section \<open>Lemmas on strings\<close>

lemma all_digits_digits_n: "all_digits s \<longleftrightarrow> s \<noteq> [] \<and> digits_n (length s) s"
  by (simp add: all_digits_def digits_n_def)

lemma digits_n_append:
  "digits_n (m + n) (s @ t) \<longleftrightarrow> digits_n m s \<and> digits_n n t" if "length s = m"
  using that by (auto simp: digits_n_def)

lemma starts_with_append [simp]: "starts_with (p @ s) p"
  by (simp add: starts_with_def)

lemma starts_with_iff: "starts_with s p \<longleftrightarrow> (\<exists>t. s = p @ t)"
  by (metis append_eq_conv_conj append_take_drop_id starts_with_def)

lemma index_of_None: "index_of c s = None \<longleftrightarrow> c \<notin> set s"
  by (induction s) auto

lemma index_of_append:
  "index_of c (s @ c # t) = Some (length s)" if "c \<notin> set s"
  using that by (induction s) auto

lemma index_of_SomeD:
  "index_of c s = Some i \<Longrightarrow> c \<notin> set (take i s) \<and> i < length s \<and> s ! i = c"
proof (induction s arbitrary: i)
  case Nil
  then show ?case by simp
next
  case (Cons x xs)
  then show ?case by (cases i) (auto split: if_splits)
qed

lemma index_of_split:
  assumes "index_of c s = Some i"
  shows "s = take i s @ c # drop (Suc i) s"
  using index_of_SomeD [OF assms] by (metis id_take_nth_drop)

lemma matches_length: "matches cs s \<Longrightarrow> length s = length cs"
  by (simp add: matches_def list_all2_lengthD)

lemma matches_all:
  assumes "matches cs s" "\<And>p c. p \<in> set cs \<Longrightarrow> p c \<Longrightarrow> Q c"
  shows "list_all Q s"
  using assms unfolding matches_def by (induction cs s rule: list_all2_induct) auto

lemma length_pad_start [simp]: "length (pad_start n c s) = max n (length s)"
  by (simp add: pad_start_def)

lemma list_all_pad_start: "P c \<Longrightarrow> list_all P s \<Longrightarrow> list_all P (pad_start n c s)"
  by (auto simp: pad_start_def list_all_iff)

section \<open>Lemmas on decimal numbers\<close>

lemma num_Nil [simp]: "num [] = 0"
  by (simp add: num_def)

lemma num_snoc [simp]: "num (s @ [c]) = 10 * num s + (c - 48)"
  by (simp add: num_def)

lemma num_replicate0 [simp]: "num (replicate n 48 @ s) = num s"
  by (induction n) (simp_all add: num_def)

lemma num_pad_start [simp]: "num (pad_start n 48 s) = num s"
  by (simp add: pad_start_def)

lemma num_dec [simp]: "num (dec n) = n"
proof (induction n rule: dec.induct)
  case (1 n)
  then show ?case by (cases "n < 10") (simp_all add: dec.simps [of n] num_def)
qed

lemma dec_inj: "dec m = dec n \<longleftrightarrow> m = n"
  by (metis num_dec)

lemma dec_digits: "list_all is_digit (dec n)"
proof (induction n rule: dec.induct)
  case (1 n)
  then show ?case
    by (cases "n < 10") (auto simp: dec.simps [of n] is_digit_def)
qed

lemma dec_nonempty [simp]: "dec n \<noteq> []"
  by (simp add: dec.simps [of n])

lemma all_digits_dec [simp]: "all_digits (dec n)"
  by (simp add: all_digits_def dec_digits)

lemma length_dec_le: "n < 10 ^ k \<Longrightarrow> 0 < k \<Longrightarrow> length (dec n) \<le> k"
proof (induction k arbitrary: n)
  case 0
  then show ?case by simp
next
  case (Suc k)
  show ?case
  proof (cases "n < 10")
    case True
    then show ?thesis by (simp add: dec.simps [of n])
  next
    case False
    then have "0 < k" using Suc.prems by (cases k) auto
    moreover have "n div 10 < 10 ^ k" using Suc.prems(1) by (simp add: less_mult_imp_div_less mult.commute)
    ultimately have "length (dec (n div 10)) \<le> k" using Suc.IH by blast
    then show ?thesis using False by (simp add: dec.simps [of n])
  qed
qed

lemma num_bound: "list_all is_digit s \<Longrightarrow> num s < 10 ^ length s"
  by (induction s rule: rev_induct) (auto simp: is_digit_def)

lemma pad_dec_num:
  assumes "list_all is_digit s" "s \<noteq> []"
  shows "pad_start (length s) 48 (dec (num s)) = s"
  using assms
proof (induction s rule: rev_induct)
  case Nil
  then show ?case by simp
next
  case (snoc c s)
  have c: "48 \<le> c" "c \<le> 57" using snoc.prems by (auto simp: is_digit_def)
  show ?case
  proof (cases "s = []")
    case True
    then show ?thesis using c by (simp add: dec.simps [of "c - 48"] pad_start_def num_def)
  next
    case False
    then have IH: "pad_start (length s) 48 (dec (num s)) = s" using snoc by simp
    show ?thesis
    proof (cases "num s = 0")
      case True
      then have "s = replicate (length s) 48"
        using IH False by (cases s) (auto simp: dec.simps [of 0] pad_start_def replicate_append_same)
      moreover have "c - 48 < 10" using c by simp
      ultimately show ?thesis using c True
        by (simp add: dec.simps [of "c - 48"] pad_start_def)
    next
      case nz: False
      define d where "d = c - 48"
      have d: "c = 48 + d" "d < 10" using c by (simp_all add: d_def)
      have "dec (10 * num s + d) = dec (num s) @ [48 + d]"
        using nz d by (subst dec.simps) auto
      then show ?thesis using IH d by (simp add: pad_start_def)
    qed
  qed
qed

lemma starts_with_digit:
  assumes "list_all is_digit s" "p \<noteq> []" "\<not> is_digit (hd p)"
  shows "\<not> starts_with s p"
  using assms by (cases p) (auto simp: starts_with_iff)

section \<open>Interface: printed and scanned identifiers\<close>

text \<open>
  Several components print an identifier into a barcode and read it back from a scanner.
  What a client relies on is one contract: every valid value is printable, reading the
  print gives the value back, and reading anything gives nothing or a valid value.
\<close>

locale scan_codec =
  fixes valid :: "'v \<Rightarrow> bool"
    and render :: "'v \<Rightarrow> jstring result"
    and parse :: "jstring \<Rightarrow> 'v option"
  assumes parse_render: "valid v \<Longrightarrow> \<exists>s. render v = Inr s \<and> parse s = Some v"
    and parse_valid: "parse s = Some v \<Longrightarrow> valid v"
begin

lemma render_total: "valid v \<Longrightarrow> is_ok (render v)"
  using parse_render by (auto simp: err_simps)

lemma render_parse: "valid v \<Longrightarrow> render v = Inr s \<Longrightarrow> parse s = Some v"
  using parse_render by fastforce

lemma render_inj:
  assumes "valid v" "valid w" "render v = render w"
  shows "v = w"
  using assms render_parse parse_render by (metis option.inject)

lemma parse_reprint:
  assumes "parse s = Some v"
  shows "\<exists>t. render v = Inr t \<and> parse t = Some v"
  using assms parse_valid parse_render by blast

end

end
