(* ===== verification/Offline_Grants.thy ===== *)
theory Offline_Grants
  imports Markiro_Prelude "HOL-Library.AList"
begin

text \<open>
  Offline grants (\<open>packages/domain/src/offline-grants/\<close>): a device that has lost its
  connection may go on working inside a signed grant. This theory models the vocabulary of the
  grants (\<open>types.ts\<close>), the wire contracts that decide which grants are well formed
  (\<open>contracts.ts\<close>), the event budgets (\<open>budgets.ts\<close>), the clock that survives restarts
  (\<open>clock.ts\<close>) and the local decisions (\<open>decision.ts\<close>); and the durable owner that applies
  them in the kiosk (\<open>apps/kiosk/src/grants/clock.ts\<close>, \<open>completion.ts\<close>): the counters,
  the clock marks and the accepted draft that one committed pickup changes together.

  A JavaScript record of numbers is an association list (\<open>Object.entries\<close>); the timestamps of
  a grant are integers, as its contract fixes; every number a decision checks with
  \<open>Number.isSafeInteger\<close> is a \<open>jnum\<close>. The signature of a grant is not modelled.
\<close>

section \<open>Vocabulary\<close>

datatype device_kind = Station | Handheld | Kiosk

datatype task_kind = ShiftTask | InventoryTask | PickupTask

datatype grant_capability = ShiftStart | InventoryStart | PickupStart

datatype grant_event_type =
    ShiftScan | ShiftBoxClose | ShiftPalletClose | ShiftLabelPrepare | ShiftClose
  | InventoryScan | InventoryRepack | InventoryBoxClose | InventoryClose | PickupComplete

fun task_kind_name :: "task_kind \<Rightarrow> jstring" where
  "task_kind_name ShiftTask = lit ''shift''"
| "task_kind_name InventoryTask = lit ''inventory''"
| "task_kind_name PickupTask = lit ''pickup''"

fun capability_name :: "grant_capability \<Rightarrow> jstring" where
  "capability_name ShiftStart = lit ''shift.start.v1''"
| "capability_name InventoryStart = lit ''inventory.start.v1''"
| "capability_name PickupStart = lit ''pickup.start.v1''"

fun event_name :: "grant_event_type \<Rightarrow> jstring" where
  "event_name ShiftScan = lit ''shift.scan.v1''"
| "event_name ShiftBoxClose = lit ''shift.box.close.v1''"
| "event_name ShiftPalletClose = lit ''shift.pallet.close.v1''"
| "event_name ShiftLabelPrepare = lit ''shift.label.prepare.v1''"
| "event_name ShiftClose = lit ''shift.close.v1''"
| "event_name InventoryScan = lit ''inventory.scan.v1''"
| "event_name InventoryRepack = lit ''inventory.repack.v1''"
| "event_name InventoryBoxClose = lit ''inventory.box.close.v1''"
| "event_name InventoryClose = lit ''inventory.close.v1''"
| "event_name PickupComplete = lit ''pickup.complete.v1''"

record grant_owner =
  ow_tenantId :: jstring
  ow_deviceId :: jstring
  ow_kind :: device_kind
  ow_credentialEpoch :: int

record grant_base =
  g_tenantId :: jstring
  g_deviceId :: jstring
  g_kind :: device_kind
  g_credentialEpoch :: int
  g_version :: int
  g_issuer :: jstring
  g_grantId :: jstring
  g_entitlementRevision :: jstring
  g_policyRevision :: jstring
  g_issuedAt :: int
  g_notBefore :: int

record device_grant = grant_base +
  g_startNotAfter :: int
  g_capabilities :: "grant_capability list"

datatype budget_unit = UnitEvent | UnitUnit | UnitContainer

record budget_line =
  bl_id :: jstring
  bl_unit :: budget_unit
  bl_maximum :: jnum

record task_grant = grant_base +
  g_taskKind :: task_kind
  g_taskId :: jstring
  g_snapshotDigest :: jstring
  g_completeNotAfter :: int
  g_eventTypes :: "grant_event_type list"
  g_budget :: "budget_line list"

type_synonym counters = "(jstring \<times> jnum) list"

section \<open>Contracts\<close>

definition milliseconds :: "int \<Rightarrow> bool" where
  "milliseconds t \<longleftrightarrow> 0 \<le> t \<and> t \<le> max_safe"

definition grantBaseSchema :: "'a grant_base_scheme \<Rightarrow> bool" where
  "grantBaseSchema g \<longleftrightarrow>
     g_tenantId g \<noteq> [] \<and> g_deviceId g \<noteq> []
     \<and> 0 < g_credentialEpoch g \<and> g_credentialEpoch g \<le> max_safe
     \<and> g_version g = 1 \<and> g_issuer g \<noteq> [] \<and> g_grantId g \<noteq> []
     \<and> g_entitlementRevision g \<noteq> [] \<and> g_policyRevision g \<noteq> []
     \<and> milliseconds (g_issuedAt g) \<and> milliseconds (g_notBefore g)"

definition safe :: "jnum \<Rightarrow> bool" where
  "safe v \<longleftrightarrow> is_safe_integer v \<and> 0 \<le> jint v"

definition budgetLineSchema :: "budget_line \<Rightarrow> bool" where
  "budgetLineSchema l \<longleftrightarrow>
     bl_id l \<noteq> [] \<and> is_integer (bl_maximum l) \<and> 0 \<le> jint (bl_maximum l)
     \<and> jint (bl_maximum l) \<le> max_safe"

definition deviceGrantSchema :: "device_grant \<Rightarrow> bool" where
  "deviceGrantSchema g \<longleftrightarrow>
     grantBaseSchema g \<and> milliseconds (g_startNotAfter g) \<and> g_capabilities g \<noteq> []
     \<and> g_issuedAt g \<le> g_notBefore g \<and> g_notBefore g < g_startNotAfter g
     \<and> card (set (g_capabilities g)) = length (g_capabilities g)
     \<and> list_all (\<lambda>c. if g_kind g = Kiosk then c = PickupStart else c \<noteq> PickupStart) (g_capabilities g)"

definition taskGrantSchema :: "task_grant \<Rightarrow> bool" where
  "taskGrantSchema g \<longleftrightarrow>
     grantBaseSchema g \<and> g_taskId g \<noteq> [] \<and> g_snapshotDigest g \<noteq> []
     \<and> milliseconds (g_completeNotAfter g) \<and> g_eventTypes g \<noteq> []
     \<and> g_budget g \<noteq> [] \<and> list_all budgetLineSchema (g_budget g)
     \<and> g_issuedAt g \<le> g_notBefore g \<and> g_notBefore g < g_completeNotAfter g
     \<and> card (set (map bl_id (g_budget g))) = length (g_budget g)
     \<and> card (set (g_eventTypes g)) = length (g_eventTypes g)
     \<and> (if g_kind g = Kiosk then g_taskKind g = PickupTask else g_taskKind g \<noteq> PickupTask)
     \<and> list_all (\<lambda>e. starts_with (event_name e) (task_kind_name (g_taskKind g) @ lit ''.'')) (g_eventTypes g)"

section \<open>Budgets\<close>

datatype dimension = Events | Units | Containers

fun dimension_name :: "dimension \<Rightarrow> jstring" where
  "dimension_name Events = lit ''events''"
| "dimension_name Units = lit ''units''"
| "dimension_name Containers = lit ''containers''"

fun GRANT_EVENT_DIMENSIONS :: "grant_event_type \<Rightarrow> dimension list" where
  "GRANT_EVENT_DIMENSIONS ShiftScan = [Events, Units]"
| "GRANT_EVENT_DIMENSIONS ShiftBoxClose = [Events, Containers]"
| "GRANT_EVENT_DIMENSIONS ShiftPalletClose = [Events, Containers]"
| "GRANT_EVENT_DIMENSIONS ShiftLabelPrepare = [Events, Units]"
| "GRANT_EVENT_DIMENSIONS ShiftClose = [Events]"
| "GRANT_EVENT_DIMENSIONS InventoryScan = [Events, Units]"
| "GRANT_EVENT_DIMENSIONS InventoryRepack = [Events, Units]"
| "GRANT_EVENT_DIMENSIONS InventoryBoxClose = [Events, Containers]"
| "GRANT_EVENT_DIMENSIONS InventoryClose = [Events]"
| "GRANT_EVENT_DIMENSIONS PickupComplete = [Events, Units, Containers]"

record grant_event_bounds =
  maxEvents :: jnum
  maxUnits :: "jnum option"
  maxContainers :: "jnum option"

fun valid_number :: "jnum option \<Rightarrow> bool" where
  "valid_number None = False"
| "valid_number (Some v) = safe v"

definition line_id :: "grant_event_type \<Rightarrow> dimension \<Rightarrow> jstring" where
  "line_id event d = event_name event @ lit '':'' @ dimension_name d"

fun dimension_unit :: "dimension \<Rightarrow> budget_unit" where
  "dimension_unit Events = UnitEvent"
| "dimension_unit Units = UnitUnit"
| "dimension_unit Containers = UnitContainer"

fun bound_of :: "grant_event_bounds \<Rightarrow> dimension \<Rightarrow> jnum option" where
  "bound_of b Events = Some (maxEvents b)"
| "bound_of b Units = maxUnits b"
| "bound_of b Containers = maxContainers b"

text \<open>The loop of both functions: one entry per dimension, or nothing at the first invalid number.\<close>

fun collect_lines :: "(dimension \<Rightarrow> jnum option) \<Rightarrow> (dimension \<Rightarrow> jnum \<Rightarrow> 'a) \<Rightarrow> dimension list \<Rightarrow> 'a list option" where
  "collect_lines val mk [] = Some []"
| "collect_lines val mk (d # ds) =
     (case val d of
        None \<Rightarrow> None
      | Some v \<Rightarrow>
          if \<not> valid_number (Some v) then None
          else map_option (\<lambda>r. mk d v # r) (collect_lines val mk ds))"

definition grantEventBudget :: "grant_event_type \<Rightarrow> grant_event_bounds \<Rightarrow> budget_line list option" where
  "grantEventBudget event bounds =
     collect_lines (bound_of bounds)
       (\<lambda>d v. \<lparr>bl_id = line_id event d, bl_unit = dimension_unit d, bl_maximum = v\<rparr>)
       (GRANT_EVENT_DIMENSIONS event)"

record event_facts =
  f_units :: "jnum option"
  f_containers :: "jnum option"

fun cost_of :: "event_facts \<Rightarrow> dimension \<Rightarrow> jnum option" where
  "cost_of f Events = Some (JInt 1)"
| "cost_of f Units = f_units f"
| "cost_of f Containers = f_containers f"

definition grantEventCost :: "grant_event_type \<Rightarrow> event_facts \<Rightarrow> counters option" where
  "grantEventCost event facts =
     collect_lines (cost_of facts) (\<lambda>d v. (line_id event d, v)) (GRANT_EVENT_DIMENSIONS event)"

section \<open>Clock\<close>

record trusted_clock =
  serverMs :: jnum
  monotonicMs :: jnum
  bootId :: jstring
  highWaterMs :: jnum
  wallHighWaterMs :: jnum

record clock_sample =
  s_monotonicMs :: jnum
  s_bootId :: jstring
  s_wallMs :: jnum

text \<open>\<open>Some now\<close> is a trusted reading, \<open>None\<close> is \<open>clock_untrusted\<close>.\<close>

definition assessClock :: "trusted_clock \<Rightarrow> clock_sample \<Rightarrow> int option" where
  "assessClock anchor sample =
     (if \<not> list_all (\<lambda>v. is_safe_integer v \<and> 0 \<le> jint v)
            [serverMs anchor, monotonicMs anchor, highWaterMs anchor, wallHighWaterMs anchor,
             s_monotonicMs sample, s_wallMs sample]
         \<or> bootId anchor = []
         \<or> s_bootId sample \<noteq> bootId anchor
         \<or> jint (highWaterMs anchor) < jint (serverMs anchor)
         \<or> jint (s_monotonicMs sample) < jint (monotonicMs anchor)
         \<or> jint (s_wallMs sample) < jint (wallHighWaterMs anchor)
      then None
      else let elapsed = jint (s_monotonicMs sample) - jint (monotonicMs anchor)
           in if elapsed > max_safe - jint (serverMs anchor) then None
              else let now = jint (serverMs anchor) + elapsed
                   in if now < jint (highWaterMs anchor) then None else Some now)"

section \<open>Decisions\<close>

record grant_intent =
  i_owner :: grant_owner
  i_capability :: grant_capability
  i_taskId :: jstring
  i_snapshotDigest :: jstring
  i_eventId :: jstring
  i_eventType :: grant_event_type
  i_cost :: counters

datatype denial =
    Missing_grant | Wrong_owner | Not_yet_valid | Expired | Wrong_task
  | Event_forbidden | Budget_exhausted | Clock_untrusted

datatype local_decision = Allow | Deny denial

definition assessBase :: "'a grant_base_scheme option \<Rightarrow> ('a grant_base_scheme \<Rightarrow> int) \<Rightarrow> grant_intent \<Rightarrow> jnum option \<Rightarrow> local_decision" where
  "assessBase grant deadline intent now =
     (case grant of
        None \<Rightarrow> Deny Missing_grant
      | Some g \<Rightarrow>
          if g_tenantId g \<noteq> ow_tenantId (i_owner intent)
             \<or> g_deviceId g \<noteq> ow_deviceId (i_owner intent)
             \<or> g_kind g \<noteq> ow_kind (i_owner intent)
             \<or> g_credentialEpoch g \<noteq> ow_credentialEpoch (i_owner intent)
          then Deny Wrong_owner
          else (case now of
                  None \<Rightarrow> Deny Clock_untrusted
                | Some t \<Rightarrow>
                    if \<not> safe t then Deny Clock_untrusted
                    else if jint t < g_notBefore g then Deny Not_yet_valid
                    else if jint t \<ge> deadline g then Deny Expired
                    else Allow))"

definition assessNewWork :: "device_grant option \<Rightarrow> grant_intent \<Rightarrow> jnum option \<Rightarrow> local_decision" where
  "assessNewWork grant intent now =
     (case assessBase grant g_startNotAfter intent now of
        Deny r \<Rightarrow> Deny r
      | Allow \<Rightarrow>
          (case grant of
             None \<Rightarrow> Allow
           | Some g \<Rightarrow> if i_capability intent \<in> set (g_capabilities g) then Allow
                       else Deny Event_forbidden))"

text \<open>\<open>new Map(grant.budget.map(...))\<close>: of two lines with one id the later one counts.\<close>

definition maximums :: "task_grant \<Rightarrow> jstring \<Rightarrow> jnum option" where
  "maximums g = map_of (rev (map (\<lambda>l. (bl_id l, bl_maximum l)) (g_budget g)))"

definition consumed_ok :: "(jstring \<Rightarrow> jnum option) \<Rightarrow> jstring \<times> jnum \<Rightarrow> bool" where
  "consumed_ok mx = (\<lambda>(i, used).
     case mx i of
       None \<Rightarrow> False
     | Some maximum \<Rightarrow> safe maximum \<and> safe used \<and> jint used \<le> jint maximum)"

definition cost_ok :: "(jstring \<Rightarrow> jnum option) \<Rightarrow> counters \<Rightarrow> jstring \<times> jnum \<Rightarrow> bool" where
  "cost_ok mx consumed = (\<lambda>(i, cost).
     let used = (case map_of consumed i of None \<Rightarrow> JInt 0 | Some u \<Rightarrow> u)
     in case mx i of
          None \<Rightarrow> False
        | Some maximum \<Rightarrow>
            safe maximum \<and> safe cost \<and> safe used \<and> jint used \<le> jint maximum
            \<and> jint cost \<le> jint maximum - jint used)"

definition assessCompletion :: "task_grant option \<Rightarrow> grant_intent \<Rightarrow> jnum option \<Rightarrow> counters \<Rightarrow> local_decision" where
  "assessCompletion grant intent now consumed =
     (case assessBase grant g_completeNotAfter intent now of
        Deny r \<Rightarrow> Deny r
      | Allow \<Rightarrow>
          (case grant of
             None \<Rightarrow> Allow
           | Some g \<Rightarrow>
               if g_taskId g \<noteq> i_taskId intent
                  \<or> g_snapshotDigest g \<noteq> i_snapshotDigest intent
                  \<or> capability_name (i_capability intent) \<noteq> task_kind_name (g_taskKind g) @ lit ''.start.v1''
               then Deny Wrong_task
               else if i_eventType intent \<notin> set (g_eventTypes g) then Deny Event_forbidden
               else if \<not> list_all (consumed_ok (maximums g)) consumed then Deny Budget_exhausted
               else if \<not> list_all (cost_ok (maximums g) consumed) (i_cost intent) then Deny Budget_exhausted
               else Allow))"

section \<open>The durable owner in the kiosk\<close>

fun jadd :: "jnum \<Rightarrow> jnum \<Rightarrow> jnum" where
  "jadd (JInt a) (JInt b) = JInt (a + b)"
| "jadd _ _ = JNonInt"

definition trustedNow :: "trusted_clock option \<Rightarrow> clock_sample \<Rightarrow> jnum option" where
  "trustedNow clock sample =
     (case clock of None \<Rightarrow> None | Some c \<Rightarrow> map_option JInt (assessClock c sample))"

text \<open>\<open>next[id] = (next[id] ?? 0) + amount\<close> for every entry of the cost.\<close>

fun charge :: "counters \<Rightarrow> counters \<Rightarrow> counters" where
  "charge consumed [] = consumed"
| "charge consumed ((i, amount) # cost) =
     charge (AList.update i
       (jadd (case map_of consumed i of None \<Rightarrow> JInt 0 | Some u \<Rightarrow> u) amount) consumed) cost"

text \<open>
  What one committed pickup reads and writes: the grant state of the installation (tenant,
  device, credential epoch, clock and whether it is still trusted), the counters stored for the
  task, and whether the draft is accepted.
\<close>

record kiosk_state =
  ks_tenantId :: jstring
  ks_kioskId :: jstring
  ks_epoch :: int
  ks_clock :: "trusted_clock option"
  ks_clockTrusted :: bool
  ks_consumed :: counters
  ks_accepted :: bool

definition kiosk_intent :: "task_grant \<Rightarrow> kiosk_state \<Rightarrow> counters \<Rightarrow> grant_intent" where
  "kiosk_intent grant st cost =
     \<lparr>i_owner = \<lparr>ow_tenantId = ks_tenantId st, ow_deviceId = ks_kioskId st, ow_kind = Kiosk,
                 ow_credentialEpoch = ks_epoch st\<rparr>,
      i_capability = PickupStart, i_taskId = g_taskId grant,
      i_snapshotDigest = g_snapshotDigest grant, i_eventId = lit ''pickup:'' @ g_taskId grant,
      i_eventType = PickupComplete, i_cost = cost\<rparr>"

text \<open>The transaction of \<open>commitPickupCompletion\<close> once the task grant has been read.\<close>

definition commit_pickup :: "task_grant \<Rightarrow> clock_sample \<Rightarrow> counters \<Rightarrow> kiosk_state \<Rightarrow> denial + kiosk_state" where
  "commit_pickup grant sample cost st =
     (let now = (if \<not> ks_clockTrusted st then None else trustedNow (ks_clock st) sample)
      in case assessCompletion (Some grant) (kiosk_intent grant st cost) now (ks_consumed st) of
           Deny r \<Rightarrow> Inl r
         | Allow \<Rightarrow>
             Inr (st\<lparr>ks_consumed := charge (ks_consumed st) cost,
                     ks_accepted := True,
                     ks_clock := (case (ks_clock st, now) of
                                    (Some c, Some t) \<Rightarrow>
                                      Some (c\<lparr>highWaterMs := t, wallHighWaterMs := s_wallMs sample\<rparr>)
                                  | _ \<Rightarrow> ks_clock st)\<rparr>))"

text \<open>A sequence of pickups on one task: what was committed, with its time, and the final state.\<close>

fun kiosk_run :: "task_grant \<Rightarrow> (clock_sample \<times> counters) list \<Rightarrow> kiosk_state \<Rightarrow> (jnum \<times> counters) list \<times> kiosk_state" where
  "kiosk_run grant [] st = ([], st)"
| "kiosk_run grant ((sample, cost) # rest) st =
     (case commit_pickup grant sample cost st of
        Inl _ \<Rightarrow> kiosk_run grant rest st
      | Inr st' \<Rightarrow>
          (case trustedNow (ks_clock st) sample of
             None \<Rightarrow> kiosk_run grant rest st'
           | Some now \<Rightarrow> let (done', fin) = kiosk_run grant rest st' in ((now, cost) # done', fin)))"

section \<open>Lemmas\<close>

subsection \<open>Decisions\<close>

definition same_owner :: "'a grant_base_scheme \<Rightarrow> grant_owner \<Rightarrow> bool" where
  "same_owner g ow \<longleftrightarrow>
     ow = \<lparr>ow_tenantId = g_tenantId g, ow_deviceId = g_deviceId g, ow_kind = g_kind g,
           ow_credentialEpoch = g_credentialEpoch g\<rparr>"

lemma assessBase_allow:
  "assessBase grant deadline intent now = Allow \<longleftrightarrow>
     (\<exists>g t. grant = Some g \<and> same_owner g (i_owner intent) \<and> now = Some (JInt t)
        \<and> 0 \<le> t \<and> t \<le> max_safe \<and> g_notBefore g \<le> t \<and> t < deadline g)"
proof (cases "i_owner intent")
  case (fields a b c d)
  have j: "safe v \<longleftrightarrow> (\<exists>t. v = JInt t \<and> 0 \<le> t \<and> t \<le> max_safe)" for v
    by (cases v) (auto simp: safe_def max_safe_def)
  show ?thesis
    by (auto simp: assessBase_def same_owner_def fields j split: option.splits if_splits)
qed

lemma safe_iff: "safe v \<longleftrightarrow> (\<exists>t. v = JInt t \<and> 0 \<le> t \<and> t \<le> max_safe)"
  by (cases v) (auto simp: safe_def max_safe_def)

lemma capability_of_kind:
  "capability_name c = task_kind_name k @ lit ''.start.v1'' \<longleftrightarrow>
     (c, k) \<in> {(ShiftStart, ShiftTask), (InventoryStart, InventoryTask), (PickupStart, PickupTask)}"
  by (cases c; cases k) (simp_all add: lit_def)

definition spent :: "counters \<Rightarrow> jstring \<Rightarrow> int" where
  "spent cs i = (case map_of cs i of None \<Rightarrow> 0 | Some v \<Rightarrow> jint v)"

lemma assessCompletion_allow:
  "assessCompletion (Some g) intent now consumed = Allow \<longleftrightarrow>
     assessBase (Some g) g_completeNotAfter intent now = Allow
     \<and> g_taskId g = i_taskId intent \<and> g_snapshotDigest g = i_snapshotDigest intent
     \<and> capability_name (i_capability intent) = task_kind_name (g_taskKind g) @ lit ''.start.v1''
     \<and> i_eventType intent \<in> set (g_eventTypes g)
     \<and> list_all (consumed_ok (maximums g)) consumed
     \<and> list_all (cost_ok (maximums g) consumed) (i_cost intent)"
  by (auto simp: assessCompletion_def split: local_decision.splits)

lemma event_kind:
  "starts_with (event_name e) (task_kind_name k @ lit ''.'') \<Longrightarrow> e = PickupComplete \<longleftrightarrow> k = PickupTask"
  by (cases e; cases k) (simp_all add: starts_with_def lit_def)

subsection \<open>Counters\<close>

lemma charge_keys: "distinct (map fst c) \<Longrightarrow> distinct (map fst (charge c cost))"
  by (induction c cost rule: charge.induct) (auto simp: distinct_update)

lemma charge_lookup:
  "distinct (map fst cost) \<Longrightarrow>
     map_of (charge c cost) i =
       (case map_of cost i of
          None \<Rightarrow> map_of c i
        | Some a \<Rightarrow> Some (jadd (case map_of c i of None \<Rightarrow> JInt 0 | Some u \<Rightarrow> u) a))"
proof (induction c cost rule: charge.induct)
  case (2 c j a cost)
  have "map_of cost j = None" using 2 by (simp add: map_of_eq_None_iff)
  then show ?case using 2 by (auto simp: update_conv split: option.splits)
qed auto

definition within_budget :: "task_grant \<Rightarrow> counters \<Rightarrow> bool" where
  "within_budget g c \<longleftrightarrow> distinct (map fst c) \<and> list_all (consumed_ok (maximums g)) c"

lemma cost_ok_iff:
  "cost_ok mx c (i, a) \<longleftrightarrow>
     (\<exists>m x u. mx i = Some (JInt m) \<and> m \<le> max_safe \<and> a = JInt x \<and> 0 \<le> x \<and> 0 \<le> u \<and> u + x \<le> m
        \<and> (case map_of c i of None \<Rightarrow> u = 0 | Some v \<Rightarrow> v = JInt u))"
  by (auto simp: cost_ok_def safe_iff Let_def split: option.splits)

lemma consumed_ok_iff:
  "consumed_ok mx (i, v) \<longleftrightarrow>
     (\<exists>m u. mx i = Some (JInt m) \<and> m \<le> max_safe \<and> v = JInt u \<and> 0 \<le> u \<and> u \<le> m)"
  by (auto simp: consumed_ok_def safe_iff split: option.splits)

lemma charge_within:
  assumes "within_budget g c" "distinct (map fst cost)" "list_all (cost_ok (maximums g) c) cost"
  shows "within_budget g (charge c cost)"
proof -
  have d: "distinct (map fst (charge c cost))" using assms(1) charge_keys by (auto simp: within_budget_def)
  have "consumed_ok (maximums g) (i, v)" if "(i, v) \<in> set (charge c cost)" for i v
  proof -
    have l: "map_of (charge c cost) i = Some v" using d that by (simp add: map_of_is_SomeI)
    show ?thesis
    proof (cases "map_of cost i")
      case None
      then have "(i, v) \<in> set c" using l charge_lookup [OF assms(2)] map_of_SomeD by fastforce
      then show ?thesis using assms(1) by (auto simp: within_budget_def list_all_iff)
    next
      case (Some a)
      then have "cost_ok (maximums g) c (i, a)" using assms(3) map_of_SomeD by (fastforce simp: list_all_iff)
      then show ?thesis using Some l charge_lookup [OF assms(2), of c i]
        by (auto simp: cost_ok_iff consumed_ok_iff split: option.splits)
    qed
  qed
  then show ?thesis using d by (auto simp: within_budget_def list_all_iff)
qed

lemma charge_spent:
  assumes "distinct (map fst cost)" "list_all (cost_ok (maximums g) c) cost"
  shows "spent (charge c cost) i = spent c i + spent cost i"
proof (cases "map_of cost i")
  case None
  then show ?thesis by (simp add: spent_def charge_lookup [OF assms(1)])
next
  case (Some a)
  then have "cost_ok (maximums g) c (i, a)" using assms(2) map_of_SomeD by (fastforce simp: list_all_iff)
  then show ?thesis using Some by (auto simp: spent_def charge_lookup [OF assms(1)] cost_ok_iff split: option.splits)
qed

lemma within_budget_spent:
  assumes "within_budget g c"
  shows "0 \<le> spent c i \<and> (spent c i \<noteq> 0 \<longrightarrow> (\<exists>m. maximums g i = Some (JInt m) \<and> spent c i \<le> m))"
proof (cases "map_of c i")
  case None
  then show ?thesis by (simp add: spent_def)
next
  case (Some v)
  then have "consumed_ok (maximums g) (i, v)"
    using assms map_of_SomeD by (fastforce simp: within_budget_def list_all_iff)
  then show ?thesis using Some by (auto simp: spent_def consumed_ok_iff)
qed

subsection \<open>Clock and committed pickups\<close>

lemma assessClock_Some:
  assumes "assessClock c s = Some t"
  shows "s_bootId s = bootId c \<and> bootId c \<noteq> []
    \<and> t = jint (serverMs c) + (jint (s_monotonicMs s) - jint (monotonicMs c))
    \<and> jint (highWaterMs c) \<le> t \<and> 0 \<le> t \<and> t \<le> max_safe \<and> jint (wallHighWaterMs c) \<le> jint (s_wallMs s)
    \<and> safe (s_wallMs s)"
  using assms by (auto simp: assessClock_def Let_def safe_def split: if_splits)

lemma commit_pickup_Inr:
  assumes "commit_pickup g s cost st = Inr st'"
  obtains c t where "ks_clockTrusted st" "ks_clock st = Some c" "assessClock c s = Some t"
    "g_notBefore g \<le> t" "t < g_completeNotAfter g"
    "same_owner g \<lparr>ow_tenantId = ks_tenantId st, ow_deviceId = ks_kioskId st, ow_kind = Kiosk,
       ow_credentialEpoch = ks_epoch st\<rparr>"
    "list_all (cost_ok (maximums g) (ks_consumed st)) cost"
    "st' = st\<lparr>ks_consumed := charge (ks_consumed st) cost, ks_accepted := True,
       ks_clock := Some (c\<lparr>highWaterMs := JInt t, wallHighWaterMs := s_wallMs s\<rparr>)\<rparr>"
proof -
  let ?now = "if \<not> ks_clockTrusted st then None else trustedNow (ks_clock st) s"
  have a: "assessCompletion (Some g) (kiosk_intent g st cost) ?now (ks_consumed st) = Allow"
    using assms by (auto simp: commit_pickup_def Let_def split: local_decision.splits)
  then obtain t where t: "?now = Some (JInt t)" "g_notBefore g \<le> t" "t < g_completeNotAfter g"
      "same_owner g (i_owner (kiosk_intent g st cost))"
      "list_all (cost_ok (maximums g) (ks_consumed st)) cost"
    by (auto simp: assessCompletion_allow assessBase_allow kiosk_intent_def)
  then have tr: "ks_clockTrusted st" by (simp split: if_splits)
  then obtain c where c: "ks_clock st = Some c" "assessClock c s = Some t"
    using t(1) by (auto simp: trustedNow_def split: option.splits)
  moreover have "st' = st\<lparr>ks_consumed := charge (ks_consumed st) cost, ks_accepted := True,
       ks_clock := Some (c\<lparr>highWaterMs := JInt t, wallHighWaterMs := s_wallMs s\<rparr>)\<rparr>"
    using assms a t(1) tr c(1) by (auto simp: commit_pickup_def Let_def)
  ultimately show thesis using that t tr by (simp add: kiosk_intent_def)
qed

text \<open>What a run keeps: the counters stay inside the budget and count exactly what was committed.\<close>

definition run_ok :: "task_grant \<Rightarrow> kiosk_state \<Rightarrow> (jnum \<times> counters) list \<times> kiosk_state \<Rightarrow> bool" where
  "run_ok g st = (\<lambda>(committed, fin).
     within_budget g (ks_consumed fin)
     \<and> (\<forall>i. spent (ks_consumed fin) i
           = spent (ks_consumed st) i + sum_list (map (\<lambda>(t, cost). spent cost i) committed)))"

definition high_water :: "kiosk_state \<Rightarrow> int" where
  "high_water st = (case ks_clock st of None \<Rightarrow> 0 | Some c \<Rightarrow> jint (highWaterMs c))"

definition times_ok :: "task_grant \<Rightarrow> kiosk_state \<Rightarrow> (jnum \<times> counters) list \<times> kiosk_state \<Rightarrow> bool" where
  "times_ok g st = (\<lambda>(committed, fin).
     let times = map (jint \<circ> fst) committed
     in sorted times \<and> list_all (\<lambda>t. high_water st \<le> t \<and> g_notBefore g \<le> t \<and> t < g_completeNotAfter g) times
        \<and> high_water st \<le> high_water fin)"

lemma kiosk_run_budget:
  "within_budget g (ks_consumed st) \<Longrightarrow> list_all (\<lambda>(s, cost). distinct (map fst cost)) evs \<Longrightarrow>
     run_ok g st (kiosk_run g evs st)"
proof (induction g evs st rule: kiosk_run.induct)
  case (1 g st)
  then show ?case by (simp add: run_ok_def)
next
  case (2 g s cost rest st)
  show ?case
  proof (cases "commit_pickup g s cost st")
    case (Inl r)
    then show ?thesis using 2 by (simp add: list_all_iff)
  next
    case (Inr st')
    then obtain c t where h: "ks_clock st = Some c" "assessClock c s = Some t"
        "list_all (cost_ok (maximums g) (ks_consumed st)) cost"
        "st' = st\<lparr>ks_consumed := charge (ks_consumed st) cost, ks_accepted := True,
           ks_clock := Some (c\<lparr>highWaterMs := JInt t, wallHighWaterMs := s_wallMs s\<rparr>)\<rparr>"
      by (rule commit_pickup_Inr)
    have d: "distinct (map fst cost)" using 2(5) by simp
    have w: "within_budget g (ks_consumed st')" using charge_within [OF 2(4) d h(3)] h(4) by simp
    have n: "trustedNow (ks_clock st) s = Some (JInt t)" using h by (simp add: trustedNow_def)
    have "run_ok g st' (kiosk_run g rest st')" using 2 Inr n w by (simp add: list_all_iff)
    then show ?thesis using Inr n charge_spent [OF d h(3)] h(4)
      by (auto simp: run_ok_def split: prod.splits)
  qed
qed

lemma kiosk_run_times: "times_ok g st (kiosk_run g evs st)"
proof (induction g evs st rule: kiosk_run.induct)
  case (1 g st)
  then show ?case by (simp add: times_ok_def)
next
  case (2 g s cost rest st)
  show ?case
  proof (cases "commit_pickup g s cost st")
    case (Inl r)
    then show ?thesis using 2 by simp
  next
    case (Inr st')
    then obtain c t where h: "ks_clock st = Some c" "assessClock c s = Some t"
        "g_notBefore g \<le> t" "t < g_completeNotAfter g"
        "st' = st\<lparr>ks_consumed := charge (ks_consumed st) cost, ks_accepted := True,
           ks_clock := Some (c\<lparr>highWaterMs := JInt t, wallHighWaterMs := s_wallMs s\<rparr>)\<rparr>"
      by (rule commit_pickup_Inr)
    have n: "trustedNow (ks_clock st) s = Some (JInt t)" using h by (simp add: trustedNow_def)
    have k: "times_ok g st' (kiosk_run g rest st')" using 2 Inr n by simp
    have hw: "high_water st \<le> t" "high_water st' = t"
      using assessClock_Some [OF h(2)] h by (simp_all add: high_water_def)
    show ?thesis using Inr n k hw h(3,4)
      by (auto simp: times_ok_def Let_def list_all_iff split: prod.splits)
  qed
qed

subsection \<open>Budget lines and event costs\<close>

lemma collect_lines_Some:
  "collect_lines val mk ds = Some r \<longleftrightarrow>
     list_all (\<lambda>d. valid_number (val d)) ds \<and> r = map (\<lambda>d. mk d (the (val d))) ds"
  by (induction ds arbitrary: r) (auto split: option.splits)

lemma line_id_inj [simp]: "line_id e d = line_id e d' \<longleftrightarrow> d = d'"
  by (cases d; cases d') (simp_all add: line_id_def lit_def)

lemma distinct_card_eq: "card (set xs) = length xs \<longleftrightarrow> distinct xs"
  by (simp add: card_distinct distinct_card iffI)

lemma maximums_line:
  assumes "taskGrantSchema g" "l \<in> set (g_budget g)"
  shows "maximums g (bl_id l) = Some (bl_maximum l)"
proof -
  let ?ps = "map (\<lambda>l. (bl_id l, bl_maximum l)) (g_budget g)"
  have "distinct (map bl_id (g_budget g))"
    using assms(1) distinct_card_eq [of "map bl_id (g_budget g)"] by (simp add: taskGrantSchema_def)
  then have "distinct (map fst (rev ?ps))" by (simp add: rev_map [symmetric] comp_def)
  moreover have "(bl_id l, bl_maximum l) \<in> set (rev ?ps)" using assms(2) by auto
  ultimately show ?thesis unfolding maximums_def by (rule map_of_is_SomeI)
qed

lemma dimensions_distinct: "distinct (GRANT_EVENT_DIMENSIONS e)"
  by (cases e) simp_all

lemma grantEventCost_entry:
  assumes "grantEventCost e f = Some cost" "d \<in> set (GRANT_EVENT_DIMENSIONS e)"
  shows "map_of cost (line_id e d) = cost_of f d \<and> valid_number (cost_of f d)"
proof -
  have c: "list_all (\<lambda>d. valid_number (cost_of f d)) (GRANT_EVENT_DIMENSIONS e)"
      "cost = map (\<lambda>d. (line_id e d, the (cost_of f d))) (GRANT_EVENT_DIMENSIONS e)"
    using assms(1) by (simp_all add: grantEventCost_def collect_lines_Some)
  have v: "valid_number (cost_of f d)" using c(1) assms(2) by (simp add: list_all_iff)
  have "distinct (map fst cost)"
    using dimensions_distinct [of e] by (simp add: c(2) comp_def distinct_map inj_on_def)
  moreover have "(line_id e d, the (cost_of f d)) \<in> set cost" using assms(2) by (auto simp: c(2))
  ultimately have "map_of cost (line_id e d) = Some (the (cost_of f d))" by simp
  then show ?thesis using v by (cases "cost_of f d") auto
qed

lemma grantEventCost_keys:
  assumes "grantEventCost e f = Some cost"
  shows "distinct (map fst cost)" "fst ` set cost = line_id e ` set (GRANT_EVENT_DIMENSIONS e)"
proof -
  have c: "cost = map (\<lambda>d. (line_id e d, the (cost_of f d))) (GRANT_EVENT_DIMENSIONS e)"
    using assms by (simp add: grantEventCost_def collect_lines_Some)
  show "distinct (map fst cost)"
    using dimensions_distinct [of e] by (simp add: c comp_def distinct_map inj_on_def)
  show "fst ` set cost = line_id e ` set (GRANT_EVENT_DIMENSIONS e)"
    by (auto simp: c image_image)
qed

lemma grantEventBudget_entry:
  assumes "grantEventBudget e b = Some ls" "d \<in> set (GRANT_EVENT_DIMENSIONS e)"
  shows "\<exists>l\<in>set ls. bl_id l = line_id e d \<and> bound_of b d = Some (bl_maximum l) \<and> safe (bl_maximum l)"
proof -
  have c: "list_all (\<lambda>d. valid_number (bound_of b d)) (GRANT_EVENT_DIMENSIONS e)"
      "ls = map (\<lambda>d. \<lparr>bl_id = line_id e d, bl_unit = dimension_unit d, bl_maximum = the (bound_of b d)\<rparr>)
         (GRANT_EVENT_DIMENSIONS e)"
    using assms(1) by (simp_all add: grantEventBudget_def collect_lines_Some)
  have "valid_number (bound_of b d)" using c(1) assms(2) by (simp add: list_all_iff)
  then show ?thesis using assms(2) by (cases "bound_of b d") (auto simp: c(2))
qed

lemma cost_ok_event:
  assumes "taskGrantSchema g" "grantEventBudget e b = Some ls" "set ls \<subseteq> set (g_budget g)"
    "grantEventCost e f = Some cost" "within_budget g c" "d \<in> set (GRANT_EVENT_DIMENSIONS e)"
  shows "cost_ok (maximums g) c (line_id e d, the (cost_of f d)) \<longleftrightarrow>
     spent c (line_id e d) + jint (the (cost_of f d)) \<le> jint (the (bound_of b d))"
proof -
  obtain l where l: "l \<in> set ls" "bl_id l = line_id e d" "bound_of b d = Some (bl_maximum l)" "safe (bl_maximum l)"
    using grantEventBudget_entry [OF assms(2,6)] by blast
  then have mx: "maximums g (line_id e d) = Some (bl_maximum l)"
    using maximums_line [OF assms(1)] assms(3) by (metis subsetD)
  have v: "safe (the (cost_of f d))"
    using grantEventCost_entry [OF assms(4,6)] by (cases "cost_of f d") auto
  have u: "consumed_ok (maximums g) (line_id e d, x)" if "map_of c (line_id e d) = Some x" for x
    using assms(5) map_of_SomeD [OF that] by (auto simp: within_budget_def list_all_iff)
  show ?thesis
  proof (cases "map_of c (line_id e d)")
    case None
    then show ?thesis using mx v l by (auto simp: cost_ok_iff spent_def safe_iff)
  next
    case (Some x)
    then show ?thesis using mx v l u [OF Some] by (auto simp: cost_ok_iff consumed_ok_iff spent_def safe_iff)
  qed
qed

section \<open>Properties\<close>

definition sample_grant :: task_grant where
  "sample_grant =
     \<lparr>g_tenantId = lit ''t1'', g_deviceId = lit ''k1'', g_kind = Kiosk, g_credentialEpoch = 1,
      g_version = 1, g_issuer = lit ''markiro'', g_grantId = lit ''g1'',
      g_entitlementRevision = lit ''e1'', g_policyRevision = lit ''p1'',
      g_issuedAt = 1000, g_notBefore = 1000, g_taskKind = PickupTask, g_taskId = lit ''task'',
      g_snapshotDigest = lit ''digest'', g_completeNotAfter = 5000, g_eventTypes = [PickupComplete],
      g_budget =
        [\<lparr>bl_id = line_id PickupComplete Events, bl_unit = UnitEvent, bl_maximum = JInt 2\<rparr>,
         \<lparr>bl_id = line_id PickupComplete Units, bl_unit = UnitUnit, bl_maximum = JInt 10\<rparr>,
         \<lparr>bl_id = line_id PickupComplete Containers, bl_unit = UnitContainer, bl_maximum = JInt 3\<rparr>]\<rparr>"

definition sample_kiosk :: kiosk_state where
  "sample_kiosk =
     \<lparr>ks_tenantId = lit ''t1'', ks_kioskId = lit ''k1'', ks_epoch = 1,
      ks_clock = Some \<lparr>serverMs = JInt 2000, monotonicMs = JInt 10, bootId = lit ''boot'',
        highWaterMs = JInt 2000, wallHighWaterMs = JInt 7000\<rparr>,
      ks_clockTrusted = True, ks_consumed = [], ks_accepted = False\<rparr>"

definition sample_cost :: counters where
  "sample_cost = [(line_id PickupComplete Events, JInt 1), (line_id PickupComplete Units, JInt 6),
     (line_id PickupComplete Containers, JInt 1)]"

lemmas grant_sample_simps = sample_grant_def sample_kiosk_def sample_cost_def

text \<open>C2: Whatever sequence of pickups is attempted on one task, the committed ones together never
  exceed any line of the grant's budget, the stored counters are exactly the sum of the committed
  costs, and no line outside the budget is ever charged.\<close>

theorem pickup_budget_never_exceeded:
  assumes "list_all (\<lambda>(s, cost). distinct (map fst cost)) events" "ks_consumed st = []"
    "kiosk_run g events st = (committed, fin)"
  shows "spent (ks_consumed fin) i = sum_list (map (\<lambda>(t, cost). spent cost i) committed)
    \<and> (spent (ks_consumed fin) i \<noteq> 0 \<longrightarrow>
         (\<exists>m. maximums g i = Some (JInt m) \<and> spent (ks_consumed fin) i \<le> m))"
proof -
  have w: "within_budget g (ks_consumed st)" using assms(2) by (simp add: within_budget_def)
  have r: "run_ok g st (committed, fin)" using kiosk_run_budget [OF w assms(1)] assms(3) by simp
  have "spent (ks_consumed st) i = 0" using assms(2) by (simp add: spent_def)
  moreover have "spent (ks_consumed fin) i
      = spent (ks_consumed st) i + sum_list (map (\<lambda>(t, cost). spent cost i) committed)"
    using r by (simp add: run_ok_def)
  moreover have "within_budget g (ks_consumed fin)" using r by (simp add: run_ok_def)
  ultimately show ?thesis using within_budget_spent [of g "ks_consumed fin" i] by (metis add_0)
qed

theorem pickup_budget_never_exceeded_witness:
  "\<exists>committed fin.
     kiosk_run sample_grant
       [(\<lparr>s_monotonicMs = JInt 20, s_bootId = lit ''boot'', s_wallMs = JInt 7001\<rparr>, sample_cost),
        (\<lparr>s_monotonicMs = JInt 30, s_bootId = lit ''boot'', s_wallMs = JInt 7002\<rparr>, sample_cost)]
       sample_kiosk = (committed, fin)
     \<and> spent (ks_consumed fin) (line_id PickupComplete Units) = 6 \<and> length committed = 1"
proof -
  let ?e = "[(\<lparr>s_monotonicMs = JInt 20, s_bootId = lit ''boot'', s_wallMs = JInt 7001\<rparr>, sample_cost),
        (\<lparr>s_monotonicMs = JInt 30, s_bootId = lit ''boot'', s_wallMs = JInt 7002\<rparr>, sample_cost)]"
  obtain committed fin where r: "kiosk_run sample_grant ?e sample_kiosk = (committed, fin)" by force
  have c: "committed = [(JInt 2010, sample_cost)]"
    using r by (simp add: grant_sample_simps commit_pickup_def assessCompletion_def assessBase_def
        kiosk_intent_def trustedNow_def assessClock_def max_safe_def safe_def maximums_def
        consumed_ok_def cost_ok_def lit_def)
  have "spent (ks_consumed fin) (line_id PickupComplete Units)
      = sum_list (map (\<lambda>(t, cost). spent cost (line_id PickupComplete Units)) committed)"
    using pickup_budget_never_exceeded [OF _ _ r] by (simp add: grant_sample_simps)
  then show ?thesis using r c by (simp add: spent_def sample_cost_def)
qed

text \<open>C28: Time never runs backwards and never outlives the grant: the committed pickups carry
  non-decreasing times inside the grant's window, starting at the stored high-water mark, and a
  commit leaves a clock that refuses every later sample from another boot, with an earlier wall
  clock or an earlier monotonic reading.\<close>

theorem grant_time_monotone:
  "(\<forall>committed fin. kiosk_run g events st = (committed, fin) \<longrightarrow>
      sorted (map (jint \<circ> fst) committed)
      \<and> list_all (\<lambda>(t, _). high_water st \<le> jint t \<and> g_notBefore g \<le> jint t
           \<and> jint t < g_completeNotAfter g) committed)
   \<and> (\<forall>st' c. commit_pickup g sample cost st = Inr st' \<longrightarrow> ks_clock st' = Some c \<longrightarrow>
        (s_bootId later \<noteq> s_bootId sample \<or> jint (s_wallMs later) < jint (s_wallMs sample)
           \<or> jint (s_monotonicMs later) < jint (s_monotonicMs sample))
        \<longrightarrow> assessClock c later = None)"
proof (intro conjI allI impI)
  fix committed fin assume "kiosk_run g events st = (committed, fin)"
  then have "times_ok g st (committed, fin)" using kiosk_run_times [of g st events] by simp
  then show "sorted (map (jint \<circ> fst) committed)"
    "list_all (\<lambda>(t, _). high_water st \<le> jint t \<and> g_notBefore g \<le> jint t
       \<and> jint t < g_completeNotAfter g) committed"
    by (auto simp: times_ok_def Let_def list_all_iff)
next
  fix st' c assume a: "commit_pickup g sample cost st = Inr st'" "ks_clock st' = Some c"
    "s_bootId later \<noteq> s_bootId sample \<or> jint (s_wallMs later) < jint (s_wallMs sample)
       \<or> jint (s_monotonicMs later) < jint (s_monotonicMs sample)"
  obtain c0 t where h: "assessClock c0 sample = Some t"
      "c = c0\<lparr>highWaterMs := JInt t, wallHighWaterMs := s_wallMs sample\<rparr>"
    using a(2) by (auto intro: commit_pickup_Inr [OF a(1)])
  show "assessClock c later = None"
  proof (rule ccontr)
    assume "assessClock c later \<noteq> None"
    then obtain u where "assessClock c later = Some u" by blast
    from assessClock_Some [OF this] assessClock_Some [OF h(1)] show False using a(3) h(2) by auto
  qed
qed

theorem grant_time_monotone_witness:
  "assessClock \<lparr>serverMs = JInt 2000, monotonicMs = JInt 10, bootId = lit ''boot'',
       highWaterMs = JInt 2010, wallHighWaterMs = JInt 7001\<rparr>
     \<lparr>s_monotonicMs = JInt 40, s_bootId = lit ''boot'', s_wallMs = JInt 6000\<rparr> = None"
proof -
  let ?s = "\<lparr>s_monotonicMs = JInt 20, s_bootId = lit ''boot'', s_wallMs = JInt 7001\<rparr>"
  obtain st' where st: "commit_pickup sample_grant ?s sample_cost sample_kiosk = Inr st'"
      "ks_clock st' = Some \<lparr>serverMs = JInt 2000, monotonicMs = JInt 10, bootId = lit ''boot'',
         highWaterMs = JInt 2010, wallHighWaterMs = JInt 7001\<rparr>"
    by (simp add: grant_sample_simps commit_pickup_def assessCompletion_def assessBase_def
        kiosk_intent_def trustedNow_def assessClock_def max_safe_def safe_def maximums_def
        consumed_ok_def cost_ok_def lit_def)
  show ?thesis
    using grant_time_monotone [of sample_grant "[]" sample_kiosk ?s sample_cost
        "\<lparr>s_monotonicMs = JInt 40, s_bootId = lit ''boot'', s_wallMs = JInt 6000\<rparr>"] st
    by simp
qed

text \<open>The budget lines an issuer writes for an event and the costs a device charges for it fit
  together: for a well-formed grant that carries the lines of an event, an otherwise admissible
  completion is allowed exactly when, in every dimension of that event, the counter plus the cost
  stays within the bound the lines were made from.\<close>

theorem event_budget_exact:
  assumes "taskGrantSchema g" "grantEventBudget e b = Some lines" "set lines \<subseteq> set (g_budget g)"
    and "grantEventCost e f = Some cost" "within_budget g consumed"
    and "i_eventType intent = e" "e \<in> set (g_eventTypes g)" "i_cost intent = cost"
    and "g_taskId g = i_taskId intent" "g_snapshotDigest g = i_snapshotDigest intent"
    and "capability_name (i_capability intent) = task_kind_name (g_taskKind g) @ lit ''.start.v1''"
    and "same_owner g (i_owner intent)" "0 \<le> t" "t \<le> max_safe"
    and "g_notBefore g \<le> t" "t < g_completeNotAfter g"
  shows "assessCompletion (Some g) intent (Some (JInt t)) consumed = Allow \<longleftrightarrow>
    (\<forall>d \<in> set (GRANT_EVENT_DIMENSIONS e).
       spent consumed (line_id e d) + jint (the (cost_of f d)) \<le> jint (the (bound_of b d)))"
proof -
  have cost: "cost = map (\<lambda>d. (line_id e d, the (cost_of f d))) (GRANT_EVENT_DIMENSIONS e)"
    using assms(4) by (simp add: grantEventCost_def collect_lines_Some)
  have "assessCompletion (Some g) intent (Some (JInt t)) consumed = Allow \<longleftrightarrow>
      list_all (cost_ok (maximums g) consumed) cost"
    using assms by (auto simp: assessCompletion_allow assessBase_allow within_budget_def)
  then show ?thesis using cost_ok_event [OF assms(1-5)] by (auto simp: cost list_all_iff)
qed

theorem event_budget_exact_witness:
  "assessCompletion (Some sample_grant) (kiosk_intent sample_grant sample_kiosk sample_cost)
     (Some (JInt 2010)) sample_cost \<noteq> Allow"
proof -
  let ?b = "\<lparr>maxEvents = JInt 2, maxUnits = Some (JInt 10), maxContainers = Some (JInt 3)\<rparr>"
  let ?f = "\<lparr>f_units = Some (JInt 6), f_containers = Some (JInt 1)\<rparr>"
  have s: "taskGrantSchema sample_grant"
    by (simp add: taskGrantSchema_def sample_grant_def grantBaseSchema_def milliseconds_def
        max_safe_def budgetLineSchema_def starts_with_def lit_def line_id_def)
  have b: "grantEventBudget PickupComplete ?b = Some (g_budget sample_grant)"
    by (simp add: grantEventBudget_def sample_grant_def safe_def max_safe_def)
  have f: "grantEventCost PickupComplete ?f = Some sample_cost"
    by (simp add: grantEventCost_def sample_cost_def safe_def max_safe_def)
  have w: "within_budget sample_grant sample_cost"
    by (simp add: within_budget_def grant_sample_simps consumed_ok_def maximums_def safe_def max_safe_def)
  show ?thesis
    using event_budget_exact [OF s b subset_refl f w, of "kiosk_intent sample_grant sample_kiosk sample_cost" 2010]
    by (simp add: grant_sample_simps kiosk_intent_def same_owner_def max_safe_def spent_def lit_def)
qed

text \<open>Grants of the two device families do not mix: a well-formed task grant that allows a
  completion belongs to the requesting tenant, device, kind and credential, it is inside its time
  window, and it is for the pickup event exactly when the device is a kiosk; a well-formed device
  grant allows a kiosk to start pickups only, and no other device to start one.\<close>

theorem grant_separation:
  "(taskGrantSchema g \<and> assessCompletion (Some g) intent now consumed = Allow \<longrightarrow>
      same_owner g (i_owner intent)
      \<and> (\<exists>t. now = Some (JInt t) \<and> g_notBefore g \<le> t \<and> t < g_completeNotAfter g)
      \<and> (ow_kind (i_owner intent) = Kiosk \<longleftrightarrow> i_eventType intent = PickupComplete)
      \<and> (ow_kind (i_owner intent) = Kiosk \<longleftrightarrow> i_capability intent = PickupStart))
   \<and> (deviceGrantSchema dg \<and> assessNewWork (Some dg) intent now = Allow \<longrightarrow>
      same_owner dg (i_owner intent)
      \<and> (\<exists>t. now = Some (JInt t) \<and> g_notBefore dg \<le> t \<and> t < g_startNotAfter dg)
      \<and> (ow_kind (i_owner intent) = Kiosk \<longleftrightarrow> i_capability intent = PickupStart))"
proof (rule conjI; rule impI; elim conjE)
  assume a: "taskGrantSchema g" "assessCompletion (Some g) intent now consumed = Allow"
  have "starts_with (event_name (i_eventType intent)) (task_kind_name (g_taskKind g) @ lit ''.'')"
    using a by (auto simp: taskGrantSchema_def assessCompletion_allow list_all_iff)
  from event_kind [OF this]
  have "i_eventType intent = PickupComplete \<longleftrightarrow> g_taskKind g = PickupTask" .
  moreover have "i_capability intent = PickupStart \<longleftrightarrow> g_taskKind g = PickupTask"
    using a(2) by (auto simp: assessCompletion_allow capability_of_kind)
  moreover have "g_kind g = Kiosk \<longleftrightarrow> g_taskKind g = PickupTask"
    using a(1) by (auto simp: taskGrantSchema_def split: if_splits)
  ultimately show "same_owner g (i_owner intent)
      \<and> (\<exists>t. now = Some (JInt t) \<and> g_notBefore g \<le> t \<and> t < g_completeNotAfter g)
      \<and> (ow_kind (i_owner intent) = Kiosk \<longleftrightarrow> i_eventType intent = PickupComplete)
      \<and> (ow_kind (i_owner intent) = Kiosk \<longleftrightarrow> i_capability intent = PickupStart)"
    using a(2) by (auto simp: assessCompletion_allow assessBase_allow same_owner_def)
next
  assume a: "deviceGrantSchema dg" "assessNewWork (Some dg) intent now = Allow"
  then have b: "assessBase (Some dg) g_startNotAfter intent now = Allow"
      "i_capability intent \<in> set (g_capabilities dg)"
    by (auto simp: assessNewWork_def split: local_decision.splits if_splits)
  then have "g_kind dg = Kiosk \<longleftrightarrow> i_capability intent = PickupStart"
    using a(1) by (auto simp: deviceGrantSchema_def list_all_iff split: if_splits)
  then show "same_owner dg (i_owner intent)
      \<and> (\<exists>t. now = Some (JInt t) \<and> g_notBefore dg \<le> t \<and> t < g_startNotAfter dg)
      \<and> (ow_kind (i_owner intent) = Kiosk \<longleftrightarrow> i_capability intent = PickupStart)"
    using b(1) by (auto simp: assessBase_allow same_owner_def)
qed

theorem grant_separation_witness:
  "\<exists>t. (Some (JInt 2010) :: jnum option) = Some (JInt t) \<and> g_notBefore sample_grant \<le> t \<and> t < g_completeNotAfter sample_grant"
proof -
  have "taskGrantSchema sample_grant"
    by (simp add: taskGrantSchema_def sample_grant_def grantBaseSchema_def milliseconds_def
        max_safe_def budgetLineSchema_def starts_with_def lit_def line_id_def)
  moreover have "assessCompletion (Some sample_grant) (kiosk_intent sample_grant sample_kiosk sample_cost)
      (Some (JInt 2010)) [] = Allow"
    by (simp add: grant_sample_simps assessCompletion_def assessBase_def kiosk_intent_def max_safe_def
        safe_def maximums_def cost_ok_def lit_def)
  ultimately show ?thesis using grant_separation by blast
qed

end
