(* ===== verification/Event_Projection.thy ===== *)
theory Event_Projection
  imports Markiro_Prelude
begin

text \<open>
  Interface of the print projections. A print job is a stream of numbered events; storage keeps
  only its projection, and every event goes through a function that accepts or refuses it.
  Product labels and warehouse reprints both work this way and rely on the same contract: the
  first event starts the projection, each accepted event carries the next number, and the
  projection's invariant is kept. The lemmas of the contract are about whole streams.
\<close>

section \<open>Shared print vocabulary\<close>

datatype printer_language = Zpl | Tspl
datatype dpi = Dpi203 | Dpi300
datatype reprint_reason = Not_printed | Damaged | Lost

text \<open>\<open>{ language }\<close> or \<open>{ printFormat: "mono-raster-v1" }\<close>.\<close>

datatype print_identity = Language printer_language | Mono_raster

section \<open>Streams\<close>

text \<open>Applying a stream event by event; the first refusal stops it.\<close>

fun replay :: "('s option \<Rightarrow> 'e \<Rightarrow> 's result) \<Rightarrow> 's option \<Rightarrow> 'e list \<Rightarrow> 's option result" where
  "replay app cur [] = Inr cur"
| "replay app cur (e # es) =
     (case app cur e of Inl err \<Rightarrow> Inl err | Inr s \<Rightarrow> replay app (Some s) es)"

lemma replay_append:
  "replay app cur (xs @ ys) = (case replay app cur xs of Inl err \<Rightarrow> Inl err | Inr c \<Rightarrow> replay app c ys)"
  by (induction xs arbitrary: cur) (auto split: sum.splits)

lemma replay_snoc:
  "replay app cur (xs @ [e]) = Inr r \<longleftrightarrow> (\<exists>c s. replay app cur xs = Inr c \<and> app c e = Inr s \<and> r = Some s)"
  by (auto simp: replay_append split: sum.splits)

lemma replay_ConsD:
  "replay app cur (e # es) = Inr r \<Longrightarrow> \<exists>s. app cur e = Inr s \<and> replay app (Some s) es = Inr r"
  by (auto split: sum.splits)

lemma replay_Nil_iff: "replay app None es = Inr None \<longleftrightarrow> es = []"
  by (cases es rule: rev_cases) (auto simp: replay_snoc)

locale event_projection =
  fixes apply_event :: "'s option \<Rightarrow> 'e \<Rightarrow> 's result"
    and latest :: "'s \<Rightarrow> int"
    and number :: "'e \<Rightarrow> int"
    and inv :: "'e list \<Rightarrow> 's \<Rightarrow> bool"
  assumes first_event: "apply_event None e = Inr s \<Longrightarrow> number e = 1 \<and> latest s = 1 \<and> inv [e] s"
    and next_event: "inv es s \<Longrightarrow> apply_event (Some s) e = Inr s' \<Longrightarrow>
      number e = latest s + 1 \<and> latest s' = latest s + 1 \<and> inv (es @ [e]) s'"
begin

lemma stream_inv:
  "replay apply_event None es = Inr (Some s) \<Longrightarrow>
     inv es s \<and> latest s = int (length es) \<and> map number es = map int [1..<Suc (length es)]"
proof (induction es arbitrary: s rule: rev_induct)
  case Nil
  then show ?case by simp
next
  case (snoc e es)
  then obtain c where c: "replay apply_event None es = Inr c" "apply_event c e = Inr s"
    by (auto simp: replay_snoc)
  show ?case
  proof (cases c)
    case None
    then have "es = []" using c(1) replay_Nil_iff by metis
    then show ?thesis using first_event c(2) None by simp
  next
    case (Some p)
    then have ih: "inv es p" "latest p = int (length es)" "map number es = map int [1..<Suc (length es)]"
      using snoc.IH c(1) by auto
    have "number e = latest p + 1" "latest s = latest p + 1" "inv (es @ [e]) s"
      using next_event [OF ih(1)] c(2) Some by auto
    then show ?thesis using ih by simp
  qed
qed

lemma no_gap:
  assumes "replay apply_event None es = Inr (Some s)" "number e \<noteq> latest s + 1"
  shows "\<exists>err. apply_event (Some s) e = Inl err"
proof (cases "apply_event (Some s) e")
  case (Inr s')
  then show ?thesis using stream_inv [OF assms(1)] next_event assms(2) by blast
qed simp

lemma prefix_inv:
  assumes "replay apply_event None (xs @ ys) = Inr (Some s)" "xs \<noteq> []"
  shows "\<exists>p. replay apply_event None xs = Inr (Some p) \<and> inv xs p"
proof -
  obtain c where c: "replay apply_event None xs = Inr c"
    using assms(1) by (auto simp: replay_append split: sum.splits)
  then obtain p where "c = Some p" using assms(2) replay_Nil_iff by (cases c) fastforce+
  then show ?thesis using stream_inv c by blast
qed

lemma distinct_numbers:
  "replay apply_event None es = Inr r \<Longrightarrow> distinct (map number es)"
  using stream_inv by (cases r) (auto simp: replay_Nil_iff distinct_map inj_on_def)

end

end
