(* ===== verification/Product_Labels.thy ===== *)
theory Product_Labels
  imports Event_Projection
begin

text \<open>
  Duplicate product labels (\<open>packages/domain/src/product-labels/contracts.ts\<close> and
  \<open>state.ts\<close>): the wire contract of the print events and of the server's receipt, and the
  projection that storage keeps of a job. A job prepares an attempt, sends it to the printer,
  may have the printed code verified or the verification skipped, and may be reprinted; the
  projection accepts exactly the next event of that life cycle.

  The event schemas are functions from an event to the normalised event (identifiers in lower
  case) or nothing. The formats behind \<open>z.uuid()\<close> and \<open>z.iso.datetime()\<close> belong to the schema
  library and are the parameters \<open>uuid\<close> and \<open>datetime\<close>.
\<close>

section \<open>Contracts\<close>

datatype verification_policy = VerifyNone | VerifyRequired

datatype attempt_state = Prepared | Sending | Sent | Failed_before_send | Delivery_unknown
datatype job_status = St_prepared | St_sending | St_awaiting_verification | St_completed | St_attention
datatype verification_outcome = Not_required | Pending | Verified | Skipped

definition productLabelPrintIdentity :: "print_identity \<Rightarrow> print_identity" where
  "productLabelPrintIdentity value = (case value of Mono_raster \<Rightarrow> Mono_raster | Language l \<Rightarrow> Language l)"

datatype print_format = Format_zpl | Format_tspl | Format_mono_raster

fun productLabelPrintFormat :: "print_identity \<Rightarrow> print_format" where
  "productLabelPrintFormat Mono_raster = Format_mono_raster"
| "productLabelPrintFormat (Language Zpl) = Format_zpl"
| "productLabelPrintFormat (Language Tspl) = Format_tspl"

datatype failed_code = Printer_unconfigured | Printer_changed
datatype unknown_code = Transport_failed | Persistence_failed | Interrupted
datatype rejection_reason = Rejected_invalid | Rejected_mismatch

datatype product_label_kind =
    K_prepared jnum "reprint_reason option" print_identity dpi jstring
      \<comment> \<open>attemptNo, reason, language or printFormat, dpi, bytesDigest\<close>
  | K_sending | K_sent
  | K_failed_before_send failed_code
  | K_delivery_unknown unknown_code
  | K_verification_skipped
  | K_verified jstring \<comment> \<open>scannedPayloadDigest\<close>
  | K_verification_rejected rejection_reason

record product_label_event =
  eventId :: jstring
  e_jobId :: jstring
  e_attemptId :: jstring
  e_sequence :: jnum
  e_shiftId :: jstring
  e_codeHash :: jstring
  e_acceptedAt :: jstring
  e_policyRevision :: jstring
  e_templateDigest :: jstring
  e_payloadDigest :: jstring
  e_operatorId :: jstring
  e_occurredAt :: jstring
  e_kind :: product_label_kind

definition MAX_PRODUCT_LABEL_EVENTS :: nat where
  "MAX_PRODUCT_LABEL_EVENTS = 100"

definition preparedReason :: "jnum \<Rightarrow> reprint_reason option \<Rightarrow> bool" where
  "preparedReason attemptNo reason \<longleftrightarrow> (attemptNo = JInt 1) = (reason = None)"

fun kindSchema :: "product_label_kind \<Rightarrow> bool" where
  "kindSchema (K_prepared no reason ident d bytes) =
     (positiveIntegerSchema no \<and> digestSchema bytes \<and> preparedReason no reason)"
| "kindSchema (K_verified scanned) = digestSchema scanned"
| "kindSchema _ = True"

definition productLabelEventSchema ::
    "(jstring \<Rightarrow> bool) \<Rightarrow> (jstring \<Rightarrow> bool) \<Rightarrow> product_label_event \<Rightarrow> product_label_event option" where
  "productLabelEventSchema uuid datetime e =
     (if list_all uuid [eventId e, e_jobId e, e_attemptId e, e_shiftId e, e_policyRevision e, e_operatorId e]
         \<and> positiveIntegerSchema (e_sequence e)
         \<and> list_all digestSchema [e_codeHash e, e_templateDigest e, e_payloadDigest e]
         \<and> list_all datetime [e_acceptedAt e, e_occurredAt e]
         \<and> kindSchema (e_kind e)
      then Some (e\<lparr>eventId := to_lower (eventId e), e_jobId := to_lower (e_jobId e),
                    e_attemptId := to_lower (e_attemptId e), e_shiftId := to_lower (e_shiftId e),
                    e_policyRevision := to_lower (e_policyRevision e),
                    e_operatorId := to_lower (e_operatorId e)\<rparr>)
      else None)"

datatype rejection_code =
    Parent_missing | Policy_mismatch | Ownership_conflict | Invalid_transition | Sequence_gap
  | Subscription_read_only

record product_label_receipt =
  acceptedEventIds :: "jstring list"
  quarantined :: "(jstring \<times> rejection_code) list"

definition productLabelReceiptSchema ::
    "(jstring \<Rightarrow> bool) \<Rightarrow> product_label_receipt \<Rightarrow> product_label_receipt option" where
  "productLabelReceiptSchema uuid r =
     (if list_all uuid (acceptedEventIds r) \<and> length (acceptedEventIds r) \<le> MAX_PRODUCT_LABEL_EVENTS
         \<and> list_all (uuid \<circ> fst) (quarantined r) \<and> length (quarantined r) \<le> MAX_PRODUCT_LABEL_EVENTS
      then let out = r\<lparr>acceptedEventIds := map to_lower (acceptedEventIds r),
                       quarantined := map (\<lambda>(i, c). (to_lower i, c)) (quarantined r)\<rparr>;
               ids = acceptedEventIds out @ map fst (quarantined out)
           in if length ids \<le> MAX_PRODUCT_LABEL_EVENTS \<and> card (set ids) = length ids
              then Some out else None
      else None)"

section \<open>Projection\<close>

record projection =
  jobId :: jstring
  shiftId :: jstring
  codeHash :: jstring
  acceptedAt :: jstring
  policyRevision :: jstring
  templateDigest :: jstring
  payloadDigest :: jstring
  identity :: print_identity
  latestSequence :: int
  attemptId :: jstring
  attemptNo :: jnum
  attemptState :: attempt_state
  verification :: verification_policy
  verificationOutcome :: verification_outcome
  status :: job_status
  bytesDigest :: jstring
  p_dpi :: dpi

definition invalidTransition :: "'a result" where
  "invalidTransition = Inl (DomainError PRODUCT_LABEL_TRANSITION_INVALID)"

definition productLabelStatus :: "attempt_state \<Rightarrow> verification_policy \<Rightarrow> bool \<Rightarrow> bool \<Rightarrow> job_status result" where
  "productLabelStatus attempt verif verified skipped =
     (if skipped then
        if verified \<or> attempt \<noteq> Sent \<or> verif \<noteq> VerifyRequired then invalidTransition
        else Inr St_completed
      else if verified then
        if attempt \<noteq> Sent \<and> attempt \<noteq> Delivery_unknown then invalidTransition
        else Inr St_completed
      else case attempt of
             Prepared \<Rightarrow> Inr St_prepared
           | Sending \<Rightarrow> Inr St_sending
           | Sent \<Rightarrow> Inr (if verif = VerifyRequired then St_awaiting_verification else St_completed)
           | Failed_before_send \<Rightarrow> Inr St_attention
           | Delivery_unknown \<Rightarrow> Inr St_attention)"

text \<open>\<open>ORIGIN_FIELDS.every(field => current[field] === event[field])\<close>.\<close>

definition same_origin :: "projection \<Rightarrow> product_label_event \<Rightarrow> bool" where
  "same_origin cur e \<longleftrightarrow>
     jobId cur = e_jobId e \<and> shiftId cur = e_shiftId e \<and> codeHash cur = e_codeHash e
     \<and> acceptedAt cur = e_acceptedAt e \<and> policyRevision cur = e_policyRevision e
     \<and> templateDigest cur = e_templateDigest e \<and> payloadDigest cur = e_payloadDigest e"

definition can_verify :: "projection \<Rightarrow> bool" where
  "can_verify cur \<longleftrightarrow>
     attemptState cur = Delivery_unknown \<or> attemptState cur = Sent \<and> verification cur = VerifyRequired"

definition canApplyProductLabelEvent :: "projection \<Rightarrow> product_label_event \<Rightarrow> bool" where
  "canApplyProductLabelEvent cur e =
     (if \<not> is_safe_integer (e_sequence e) \<or> e_sequence e \<noteq> JInt (latestSequence cur + 1)
         \<or> \<not> same_origin cur e
      then False
      else case e_kind e of
             K_prepared no reason ident d bytes \<Rightarrow>
               attemptState cur \<noteq> Sending \<and> attemptState cur \<noteq> Prepared
               \<and> e_attemptId e \<noteq> attemptId cur \<and> is_integer no \<and> jint no = jint (attemptNo cur) + 1
               \<and> reason \<noteq> None \<and> bytes = bytesDigest cur
               \<and> productLabelPrintFormat ident = productLabelPrintFormat (identity cur)
               \<and> d = p_dpi cur
           | k \<Rightarrow>
               if e_attemptId e \<noteq> attemptId cur \<or> verificationOutcome cur = Verified
                  \<or> verificationOutcome cur = Skipped
               then False
               else (case k of
                       K_sending \<Rightarrow> attemptState cur = Prepared
                     | K_failed_before_send _ \<Rightarrow> attemptState cur = Prepared
                     | K_sent \<Rightarrow> attemptState cur = Sending
                     | K_delivery_unknown _ \<Rightarrow> attemptState cur = Sending
                     | K_verification_skipped \<Rightarrow> attemptState cur = Sent \<and> verification cur = VerifyRequired
                     | K_verified scanned \<Rightarrow> can_verify cur \<and> scanned = payloadDigest cur
                     | K_verification_rejected _ \<Rightarrow> can_verify cur
                     | K_prepared _ _ _ _ _ \<Rightarrow> False))"

fun next_attempt_state :: "attempt_state \<Rightarrow> product_label_kind \<Rightarrow> attempt_state" where
  "next_attempt_state cur K_sending = Sending"
| "next_attempt_state cur K_sent = Sent"
| "next_attempt_state cur (K_failed_before_send _) = Failed_before_send"
| "next_attempt_state cur (K_delivery_unknown _) = Delivery_unknown"
| "next_attempt_state cur _ = cur"

fun next_outcome :: "verification_outcome \<Rightarrow> product_label_kind \<Rightarrow> verification_outcome" where
  "next_outcome cur (K_verified _) = Verified"
| "next_outcome cur K_verification_skipped = Skipped"
| "next_outcome cur _ = cur"

definition initial_outcome :: "verification_policy \<Rightarrow> verification_outcome" where
  "initial_outcome v = (if v = VerifyRequired then Pending else Not_required)"

definition applyProductLabelEvent ::
    "projection option \<Rightarrow> product_label_event \<Rightarrow> verification_policy \<Rightarrow> projection result" where
  "applyProductLabelEvent current e verif =
     (case current of
        None \<Rightarrow>
          (case e_kind e of
             K_prepared no reason ident d bytes \<Rightarrow>
               if e_sequence e \<noteq> JInt 1 \<or> no \<noteq> JInt 1 \<or> reason \<noteq> None then invalidTransition
               else Inr \<lparr>jobId = e_jobId e, shiftId = e_shiftId e, codeHash = e_codeHash e,
                         acceptedAt = e_acceptedAt e, policyRevision = e_policyRevision e,
                         templateDigest = e_templateDigest e, payloadDigest = e_payloadDigest e,
                         identity = productLabelPrintIdentity ident, latestSequence = 1,
                         attemptId = e_attemptId e, attemptNo = JInt 1, attemptState = Prepared,
                         verification = verif, verificationOutcome = initial_outcome verif,
                         status = St_prepared, bytesDigest = bytes, p_dpi = d\<rparr>
           | _ \<Rightarrow> invalidTransition)
      | Some cur \<Rightarrow>
          if verification cur \<noteq> verif \<or> \<not> canApplyProductLabelEvent cur e then invalidTransition
          else (case e_kind e of
                  K_prepared no reason ident d bytes \<Rightarrow>
                    Inr (cur\<lparr>latestSequence := jint (e_sequence e), attemptId := e_attemptId e,
                             attemptNo := no, attemptState := Prepared, status := St_prepared,
                             verificationOutcome := initial_outcome verif\<rparr>)
                | k \<Rightarrow>
                    let astate = next_attempt_state (attemptState cur) k;
                        outcome = next_outcome (verificationOutcome cur) k
                    in case productLabelStatus astate verif (outcome = Verified) (outcome = Skipped) of
                         Inl err \<Rightarrow> Inl err
                       | Inr st \<Rightarrow>
                           Inr (cur\<lparr>latestSequence := jint (e_sequence e), attemptState := astate,
                                    verificationOutcome := outcome, status := st\<rparr>)))"

section \<open>Invariant\<close>

fun is_prepared :: "product_label_event \<Rightarrow> bool" where
  "is_prepared e = (case e_kind e of K_prepared _ _ _ _ _ \<Rightarrow> True | _ \<Rightarrow> False)"

definition sends :: "product_label_event list \<Rightarrow> nat" where
  "sends es = length (filter (\<lambda>e. e_kind e = K_sending) es)"

definition attempts :: "product_label_event list \<Rightarrow> nat" where
  "attempts es = length (filter is_prepared es)"

text \<open>Every prepared event of a job asks for the same print: bytes, format and resolution.\<close>

definition same_print :: "projection \<Rightarrow> product_label_event \<Rightarrow> bool" where
  "same_print s e = (case e_kind e of
     K_prepared no reason ident d bytes \<Rightarrow>
       bytes = bytesDigest s \<and> productLabelPrintFormat ident = productLabelPrintFormat (identity s) \<and> d = p_dpi s
   | _ \<Rightarrow> True)"

text \<open>What ends a verification: the last event names the printed payload, or skips the check.\<close>

definition outcome_event :: "projection \<Rightarrow> product_label_event list \<Rightarrow> bool" where
  "outcome_event s es = (case verificationOutcome s of
     Verified \<Rightarrow> es \<noteq> [] \<and> e_kind (last es) = K_verified (payloadDigest s)
       \<and> attemptState s \<in> {Sent, Delivery_unknown}
   | Skipped \<Rightarrow> es \<noteq> [] \<and> e_kind (last es) = K_verification_skipped \<and> attemptState s = Sent
       \<and> verification s = VerifyRequired
   | Pending \<Rightarrow> verification s = VerifyRequired
   | Not_required \<Rightarrow> verification s = VerifyNone)"

definition pl_inv :: "verification_policy \<Rightarrow> product_label_event list \<Rightarrow> projection \<Rightarrow> bool" where
  "pl_inv v es s \<longleftrightarrow>
     verification s = v
     \<and> productLabelStatus (attemptState s) v (verificationOutcome s = Verified) (verificationOutcome s = Skipped)
         = Inr (status s)
     \<and> outcome_event s es
     \<and> attemptNo s = JInt (int (attempts es))
     \<and> list_all (same_origin s) es \<and> list_all (same_print s) es
     \<and> sends es + (if attemptState s \<in> {Prepared, Failed_before_send} then 1 else 0) \<le> attempts es"

lemma status_total:
  assumes "outcome_event s es"
  shows "is_ok (productLabelStatus (attemptState s) (verification s) (verificationOutcome s = Verified)
    (verificationOutcome s = Skipped))"
  using assms by (auto simp: outcome_event_def productLabelStatus_def
      split: verification_outcome.splits attempt_state.splits)

lemma counts_snoc [simp]:
  "sends (es @ [e]) = sends es + (if e_kind e = K_sending then 1 else 0)"
  "attempts (es @ [e]) = attempts es + (if is_prepared e then 1 else 0)"
  by (auto simp: sends_def attempts_def)

lemma first_ok:
  assumes "applyProductLabelEvent None e v = Inr s"
  shows "e_sequence e = JInt 1 \<and> latestSequence s = 1 \<and> pl_inv v [e] s"
proof -
  obtain reason ident d bytes where k: "e_kind e = K_prepared (JInt 1) None ident d bytes"
      "e_sequence e = JInt 1"
    using assms by (auto simp: applyProductLabelEvent_def invalidTransition_def
        split: product_label_kind.splits if_splits)
  have "productLabelPrintIdentity ident = ident"
    by (cases ident) (simp_all add: productLabelPrintIdentity_def)
  then show ?thesis using assms k
    by (cases v) (auto simp: applyProductLabelEvent_def pl_inv_def productLabelStatus_def
        outcome_event_def initial_outcome_def sends_def attempts_def same_origin_def same_print_def)
qed

lemma canApply_common:
  assumes "canApplyProductLabelEvent cur e"
  shows "e_sequence e = JInt (latestSequence cur + 1) \<and> same_origin cur e"
  using assms by (auto simp: canApplyProductLabelEvent_def split: if_splits)

lemma canApply_prepared:
  assumes "canApplyProductLabelEvent cur e" "e_kind e = K_prepared no reason ident d bytes"
  shows "attemptState cur \<notin> {Sending, Prepared}" "no = JInt (jint (attemptNo cur) + 1)" "same_print cur e"
    "e_attemptId e \<noteq> attemptId cur" "reason \<noteq> None"
  using assms by (cases no; auto simp: canApplyProductLabelEvent_def same_print_def split: if_splits)+

lemma canApply_other:
  assumes "canApplyProductLabelEvent cur e" "\<not> is_prepared e"
  shows "e_attemptId e = attemptId cur" "verificationOutcome cur \<notin> {Verified, Skipped}"
    "case e_kind e of
       K_sending \<Rightarrow> attemptState cur = Prepared
     | K_failed_before_send _ \<Rightarrow> attemptState cur = Prepared
     | K_sent \<Rightarrow> attemptState cur = Sending
     | K_delivery_unknown _ \<Rightarrow> attemptState cur = Sending
     | K_verification_skipped \<Rightarrow> attemptState cur = Sent \<and> verification cur = VerifyRequired
     | K_verified scanned \<Rightarrow> can_verify cur \<and> scanned = payloadDigest cur
     | K_verification_rejected _ \<Rightarrow> can_verify cur
     | _ \<Rightarrow> True"
  using assms by (auto simp: canApplyProductLabelEvent_def split: if_splits product_label_kind.splits)

lemma apply_prepared:
  assumes "canApplyProductLabelEvent cur e" "e_kind e = K_prepared no reason ident d bytes"
  shows "applyProductLabelEvent (Some cur) e (verification cur) =
    Inr (cur\<lparr>latestSequence := latestSequence cur + 1, attemptId := e_attemptId e, attemptNo := no,
      attemptState := Prepared, status := St_prepared, verificationOutcome := initial_outcome (verification cur)\<rparr>)"
  using assms canApply_common [OF assms(1)] by (simp add: applyProductLabelEvent_def)

definition advance :: "projection \<Rightarrow> product_label_kind \<Rightarrow> projection" where
  "advance cur k = cur\<lparr>latestSequence := latestSequence cur + 1,
     attemptState := next_attempt_state (attemptState cur) k,
     verificationOutcome := next_outcome (verificationOutcome cur) k\<rparr>"

lemma apply_other:
  assumes "canApplyProductLabelEvent cur e" "\<not> is_prepared e"
  shows "applyProductLabelEvent (Some cur) e (verification cur) =
    (case productLabelStatus (attemptState (advance cur (e_kind e))) (verification cur)
       (verificationOutcome (advance cur (e_kind e)) = Verified)
       (verificationOutcome (advance cur (e_kind e)) = Skipped) of
       Inl err \<Rightarrow> Inl err
     | Inr st \<Rightarrow> Inr ((advance cur (e_kind e))\<lparr>status := st\<rparr>))"
  using assms canApply_common [OF assms(1)]
  by (cases "e_kind e") (simp_all add: applyProductLabelEvent_def Let_def advance_def split: sum.splits)

lemma advance_outcome:
  assumes "canApplyProductLabelEvent cur e" "\<not> is_prepared e" "outcome_event cur es"
  shows "outcome_event (advance cur (e_kind e)) (es @ [e])"
  using canApply_other [OF assms(1,2)] assms(2,3)
  by (cases "e_kind e"; cases "verificationOutcome cur")
     (auto simp: outcome_event_def advance_def can_verify_def)

lemma outcome_event_status [simp]: "outcome_event (s\<lparr>status := st\<rparr>) es = outcome_event s es"
  by (cases "verificationOutcome s") (simp_all add: outcome_event_def)

lemma other_ok:
  assumes "canApplyProductLabelEvent cur e" "\<not> is_prepared e" "pl_inv v es cur"
  shows "\<exists>st. applyProductLabelEvent (Some cur) e v = Inr ((advance cur (e_kind e))\<lparr>status := st\<rparr>)
    \<and> pl_inv v (es @ [e]) ((advance cur (e_kind e))\<lparr>status := st\<rparr>)"
proof -
  let ?n = "advance cur (e_kind e)"
  have v: "verification cur = v" "verification ?n = v" using assms(3) by (simp_all add: pl_inv_def advance_def)
  have o: "outcome_event ?n (es @ [e])"
    using advance_outcome [OF assms(1,2)] assms(3) by (simp add: pl_inv_def)
  obtain st where st: "productLabelStatus (attemptState ?n) v (verificationOutcome ?n = Verified)
      (verificationOutcome ?n = Skipped) = Inr st"
    using status_total [OF o] v by (auto simp: is_ok_iff)
  have c: "same_origin cur e" using canApply_common [OF assms(1)] by simp
  have keep: "same_origin (?n\<lparr>status := st\<rparr>) = same_origin cur" "same_print (?n\<lparr>status := st\<rparr>) = same_print cur"
    by (auto simp: fun_eq_iff same_origin_def same_print_def advance_def split: product_label_kind.splits)
  have p: "same_print cur e" using assms(2) by (simp add: same_print_def split: product_label_kind.splits)
  have n: "sends (es @ [e]) + (if attemptState ?n \<in> {Prepared, Failed_before_send} then 1 else 0) \<le> attempts (es @ [e])"
    using canApply_other [OF assms(1,2)] assms(2,3)
    by (cases "e_kind e") (auto simp: pl_inv_def advance_def can_verify_def)
  have "pl_inv v (es @ [e]) (?n\<lparr>status := st\<rparr>)"
    using o st c keep p n assms(2,3) v by (simp add: pl_inv_def) (simp add: advance_def)
  then show ?thesis using apply_other [OF assms(1,2)] st v by auto
qed

lemma prepared_ok:
  assumes "canApplyProductLabelEvent cur e" "is_prepared e" "pl_inv v es cur"
  shows "\<exists>s. applyProductLabelEvent (Some cur) e v = Inr s \<and> latestSequence s = latestSequence cur + 1
    \<and> pl_inv v (es @ [e]) s"
proof -
  obtain no reason ident d bytes where k: "e_kind e = K_prepared no reason ident d bytes"
    using assms(2) by (cases "e_kind e") auto
  let ?s = "cur\<lparr>latestSequence := latestSequence cur + 1, attemptId := e_attemptId e, attemptNo := no,
      attemptState := Prepared, status := St_prepared, verificationOutcome := initial_outcome (verification cur)\<rparr>"
  have v: "verification cur = v" using assms(3) by (simp add: pl_inv_def)
  have keep: "same_origin ?s = same_origin cur" "same_print ?s = same_print cur"
    by (auto simp: fun_eq_iff same_origin_def same_print_def split: product_label_kind.splits)
  have "outcome_event ?s (es @ [e])"
    using v by (cases v) (simp_all add: outcome_event_def initial_outcome_def)
  moreover have "productLabelStatus Prepared v (initial_outcome v = Verified) (initial_outcome v = Skipped)
      = Inr St_prepared"
    by (simp add: productLabelStatus_def initial_outcome_def)
  moreover have "sends es + 1 \<le> attempts es + 1" "e_kind e \<noteq> K_sending"
    using assms(3) k by (auto simp: pl_inv_def split: if_splits)
  ultimately have "pl_inv v (es @ [e]) ?s"
    using keep assms(2,3) canApply_common [OF assms(1)] canApply_prepared [OF assms(1) k] v
    by (simp add: pl_inv_def)
  then show ?thesis using apply_prepared [OF assms(1) k] v by simp
qed

lemma next_ok:
  assumes "pl_inv v es cur" "applyProductLabelEvent (Some cur) e v = Inr s"
  shows "e_sequence e = JInt (latestSequence cur + 1) \<and> latestSequence s = latestSequence cur + 1
    \<and> pl_inv v (es @ [e]) s"
proof -
  have c: "canApplyProductLabelEvent cur e"
    using assms(2) by (auto simp: applyProductLabelEvent_def invalidTransition_def split: if_splits)
  show ?thesis
  proof (cases "is_prepared e")
    case True
    then show ?thesis using prepared_ok [OF c True assms(1)] canApply_common [OF c] assms(2) by auto
  next
    case False
    then show ?thesis using other_ok [OF c False assms(1)] canApply_common [OF c] assms(2)
      by (auto simp: advance_def)
  qed
qed

interpretation product_label: event_projection "\<lambda>cur e. applyProductLabelEvent cur e v" latestSequence
  "\<lambda>e. jint (e_sequence e)" "pl_inv v" for v
  using first_ok next_ok by unfold_locales (fastforce, fastforce)

definition label_stream :: "verification_policy \<Rightarrow> product_label_event list \<Rightarrow> projection \<Rightarrow> bool" where
  "label_stream v es s \<longleftrightarrow> replay (\<lambda>cur e. applyProductLabelEvent cur e v) None es = Inr (Some s)"

lemma label_stream_inv:
  "label_stream v es s \<Longrightarrow> pl_inv v es s \<and> latestSequence s = int (length es)
     \<and> map (\<lambda>e. jint (e_sequence e)) es = map int [1..<Suc (length es)]"
  unfolding label_stream_def by (rule product_label.stream_inv)

lemma label_stream_snoc:
  "label_stream v es s \<Longrightarrow> applyProductLabelEvent (Some s) e v = Inr s' \<Longrightarrow> label_stream v (es @ [e]) s'"
  by (auto simp: label_stream_def replay_snoc)

lemma stream_integers:
  "label_stream v es s \<Longrightarrow> list_all (\<lambda>e. is_integer (e_sequence e)) es"
proof (induction es arbitrary: s rule: rev_induct)
  case Nil
  then show ?case by simp
next
  case (snoc e es)
  then obtain c where c: "replay (\<lambda>cur e. applyProductLabelEvent cur e v) None es = Inr c"
      "applyProductLabelEvent c e v = Inr s"
    by (auto simp: label_stream_def replay_snoc)
  show ?case
  proof (cases c)
    case None
    then show ?thesis using c replay_Nil_iff first_ok by (metis append_Nil is_integer.simps(1) list.pred_inject)
  next
    case (Some p)
    then have p: "label_stream v es p" using c(1) by (simp add: label_stream_def)
    have "e_sequence e = JInt (latestSequence p + 1)"
      using next_ok label_stream_inv [OF p] c(2) Some by blast
    then show ?thesis using snoc.IH [OF p] by simp
  qed
qed

lemma label_numbers:
  assumes "label_stream v es s"
  shows "map (\<lambda>e. e_sequence e) es = map (\<lambda>n. JInt (int n)) [1..<Suc (length es)]"
proof -
  have j: "is_integer (e_sequence e)" if "e \<in> set es" for e
    using stream_integers [OF assms] that by (simp add: list_all_iff)
  have "map (\<lambda>e. e_sequence e) es = map (\<lambda>e. JInt (jint (e_sequence e))) es"
    using j by (auto intro!: map_cong) (metis is_integer.elims(2) jint.simps(1))
  also have "\<dots> = map JInt (map (\<lambda>e. jint (e_sequence e)) es)" by simp
  also have "\<dots> = map JInt (map int [1..<Suc (length es)])"
    using label_stream_inv [OF assms] by simp
  finally show ?thesis by simp
qed

section \<open>Progress\<close>

text \<open>The event of a given kind that continues a projection.\<close>

definition next_label_event :: "projection \<Rightarrow> jstring \<Rightarrow> product_label_kind \<Rightarrow> product_label_event" where
  "next_label_event s aid k =
     \<lparr>eventId = [], e_jobId = jobId s, e_attemptId = aid, e_sequence = JInt (latestSequence s + 1),
      e_shiftId = shiftId s, e_codeHash = codeHash s, e_acceptedAt = acceptedAt s,
      e_policyRevision = policyRevision s, e_templateDigest = templateDigest s,
      e_payloadDigest = payloadDigest s, e_operatorId = [], e_occurredAt = [], e_kind = k\<rparr>"

definition room :: "product_label_event list \<Rightarrow> nat \<Rightarrow> bool" where
  "room es n \<longleftrightarrow> int (length es + n) \<le> max_safe"

lemma room_safe:
  assumes "label_stream v es s" "room es (Suc n)"
  shows "is_safe_integer (e_sequence (next_label_event s aid k))" "room (es @ [e]) n"
  using assms label_stream_inv [OF assms(1)] by (auto simp: room_def next_label_event_def max_safe_def)

lemma step_other:
  assumes "label_stream v es s" "room es (Suc n)" "verificationOutcome s \<notin> {Verified, Skipped}"
    "\<not> is_prepared (next_label_event s aid k)"
    "case k of K_sending \<Rightarrow> attemptState s = Prepared | K_sent \<Rightarrow> attemptState s = Sending
       | K_verification_skipped \<Rightarrow> attemptState s = Sent \<and> v = VerifyRequired
       | K_verified d \<Rightarrow> attemptState s = Delivery_unknown \<and> d = payloadDigest s | _ \<Rightarrow> False"
  shows "\<exists>s'. label_stream v (es @ [next_label_event s (attemptId s) k]) s'
    \<and> attemptState s' = next_attempt_state (attemptState s) k
    \<and> verificationOutcome s' = next_outcome (verificationOutcome s) k"
proof -
  let ?e = "next_label_event s (attemptId s) k"
  have i: "pl_inv v es s" using label_stream_inv [OF assms(1)] by simp
  have k: "e_kind ?e = k" by (simp add: next_label_event_def)
  have "is_safe_integer (e_sequence ?e)" using room_safe [OF assms(1,2)] by blast
  then have c: "canApplyProductLabelEvent s ?e"
    using i assms(3,5) unfolding canApplyProductLabelEvent_def k
    by (cases k) (auto simp: same_origin_def next_label_event_def pl_inv_def can_verify_def)
  have np: "\<not> is_prepared ?e" using assms(4) by (simp add: next_label_event_def)
  obtain st where "applyProductLabelEvent (Some s) ?e v = Inr ((advance s k)\<lparr>status := st\<rparr>)"
    using other_ok [OF c np i] k by auto
  from label_stream_snoc [OF assms(1) this] show ?thesis
    by (auto intro!: exI simp: advance_def)
qed

lemma step_reprint:
  assumes "label_stream v es s" "room es (Suc n)" "attemptState s = Failed_before_send"
  shows "\<exists>e s'. label_stream v (es @ [e]) s' \<and> attemptState s' = Prepared
    \<and> verificationOutcome s' = initial_outcome v"
proof -
  let ?k = "K_prepared (JInt (jint (attemptNo s) + 1)) (Some Not_printed) (identity s) (p_dpi s) (bytesDigest s)"
  let ?e = "next_label_event s (0 # attemptId s) ?k"
  have i: "verification s = v" using label_stream_inv [OF assms(1)] by (simp add: pl_inv_def)
  have "is_safe_integer (e_sequence ?e)" using room_safe [OF assms(1,2)] by blast
  then have c: "canApplyProductLabelEvent s ?e"
    using assms(3) by (simp add: canApplyProductLabelEvent_def same_origin_def next_label_event_def)
  have "e_kind ?e = ?k" by (simp add: next_label_event_def)
  from label_stream_snoc [OF assms(1) apply_prepared [OF c this, unfolded i]]
  show ?thesis by (auto intro!: exI simp: i)
qed

lemma completed_iff:
  assumes "label_stream v es s"
  shows "status s = St_completed \<longleftrightarrow>
    verificationOutcome s \<in> {Verified, Skipped} \<or> attemptState s = Sent \<and> v = VerifyNone"
  using label_stream_inv [OF assms]
  by (auto simp: pl_inv_def productLabelStatus_def invalidTransition_def outcome_event_def
      split: if_splits attempt_state.splits verification_outcome.splits
        verification_policy.splits)

definition completable :: "verification_policy \<Rightarrow> product_label_event list \<Rightarrow> bool" where
  "completable v es \<longleftrightarrow> (\<exists>rest s'. label_stream v (es @ rest) s' \<and> status s' = St_completed)"

lemma completable_snoc: "completable v (es @ [e]) \<Longrightarrow> completable v es"
  unfolding completable_def by (metis append_assoc)

lemma complete_sent:
  assumes "label_stream v es s" "room es 1" "attemptState s = Sent"
  shows "completable v es"
proof (cases "status s = St_completed")
  case True
  then show ?thesis using assms(1) unfolding completable_def by (metis append_Nil2)
next
  case False
  then have "v = VerifyRequired" "verificationOutcome s \<notin> {Verified, Skipped}"
    using completed_iff [OF assms(1)] assms(3) by (cases v; auto)+
  then obtain s' where s': "label_stream v (es @ [next_label_event s (attemptId s) K_verification_skipped]) s'"
      "verificationOutcome s' = Skipped"
    using step_other [OF assms(1), of 0 "[]" K_verification_skipped] assms
    by (auto simp: next_label_event_def)
  then have "status s' = St_completed" using completed_iff by blast
  then show ?thesis using s' unfolding completable_def by blast
qed

lemma complete_sending:
  assumes "label_stream v es s" "room es 2" "attemptState s = Sending"
  shows "completable v es"
proof -
  have "verificationOutcome s \<notin> {Verified, Skipped}"
    using label_stream_inv [OF assms(1)] assms(3) by (auto simp: pl_inv_def outcome_event_def)
  then obtain e s' where "label_stream v (es @ [e]) s'" "attemptState s' = Sent"
    using step_other [OF assms(1), of 1 "[]" K_sent] assms
    by (auto simp: next_label_event_def numeral_2_eq_2)
  then have "completable v (es @ [e])"
    using complete_sent room_safe(2) [OF assms(1), of 1 e] assms(2) by (simp add: numeral_2_eq_2)
  then show ?thesis by (rule completable_snoc)
qed

lemma complete_prepared:
  assumes "label_stream v es s" "room es 3" "attemptState s = Prepared"
  shows "completable v es"
proof -
  have "verificationOutcome s \<notin> {Verified, Skipped}"
    using label_stream_inv [OF assms(1)] assms(3) by (auto simp: pl_inv_def outcome_event_def)
  then obtain e s' where "label_stream v (es @ [e]) s'" "attemptState s' = Sending"
    using step_other [OF assms(1), of 2 "[]" K_sending] assms
    by (auto simp: next_label_event_def numeral_3_eq_3 numeral_2_eq_2)
  then have "completable v (es @ [e])"
    using complete_sending room_safe(2) [OF assms(1), of 2 e] assms(2) by (simp add: numeral_3_eq_3 numeral_2_eq_2)
  then show ?thesis by (rule completable_snoc)
qed

lemma complete_failed:
  assumes "label_stream v es s" "room es 4" "attemptState s = Failed_before_send"
  shows "completable v es"
proof -
  obtain e s' where "label_stream v (es @ [e]) s'" "attemptState s' = Prepared"
    using step_reprint [OF assms(1), of 3] assms by (auto simp: numeral_eq_Suc)
  then have "completable v (es @ [e])"
    using complete_prepared room_safe(2) [OF assms(1), of 3 e] assms(2) by (simp add: numeral_eq_Suc)
  then show ?thesis by (rule completable_snoc)
qed

lemma complete_unknown:
  assumes "label_stream v es s" "room es 1" "attemptState s = Delivery_unknown"
  shows "completable v es"
proof (cases "status s = St_completed")
  case True
  then show ?thesis using assms(1) unfolding completable_def by (metis append_Nil2)
next
  case False
  then have "verificationOutcome s \<notin> {Verified, Skipped}" using completed_iff [OF assms(1)] by auto
  then obtain e s' where s': "label_stream v (es @ [e]) s'" "verificationOutcome s' = Verified"
    using step_other [OF assms(1), of 0 "[]" "K_verified (payloadDigest s)"] assms
    by (auto simp: next_label_event_def)
  then have "status s' = St_completed" using completed_iff by blast
  then show ?thesis using s' unfolding completable_def by blast
qed

section \<open>Properties\<close>

definition sample_label_event :: "int \<Rightarrow> product_label_kind \<Rightarrow> product_label_event" where
  "sample_label_event n k =
     \<lparr>eventId = dec (nat n), e_jobId = lit ''job'', e_attemptId = lit ''attempt'', e_sequence = JInt n,
      e_shiftId = lit ''shift'', e_codeHash = lit ''code'', e_acceptedAt = lit ''t0'',
      e_policyRevision = lit ''policy'', e_templateDigest = lit ''template'',
      e_payloadDigest = lit ''payload'', e_operatorId = lit ''op'', e_occurredAt = lit ''t1'', e_kind = k\<rparr>"

definition sample_label_events :: "product_label_event list" where
  "sample_label_events =
     [sample_label_event 1 (K_prepared (JInt 1) None (Language Zpl) Dpi203 (lit ''bytes'')),
      sample_label_event 2 K_sending, sample_label_event 3 K_sent,
      sample_label_event 4 (K_verification_rejected Rejected_mismatch),
      sample_label_event 5 (K_verified (lit ''payload''))]"

lemma sample_label_stream:
  "\<exists>s. label_stream VerifyRequired sample_label_events s \<and> status s = St_completed
     \<and> payloadDigest s = lit ''payload'' \<and> attemptState s = Sent"
  by (simp add: label_stream_def sample_label_events_def sample_label_event_def applyProductLabelEvent_def
      canApplyProductLabelEvent_def same_origin_def can_verify_def productLabelStatus_def
      initial_outcome_def max_safe_def)

text \<open>Every stream of product label events that is accepted from the beginning is numbered from
  one without a gap or a repetition, keeps the job's origin, asks for the same bytes, print format
  and resolution in every attempt, counts its attempts, and never sends more often than it has
  prepared an attempt; and an event with any other number than the next is refused.\<close>

theorem product_label_stream:
  assumes "label_stream v es s"
  shows "map (\<lambda>e. e_sequence e) es = map (\<lambda>n. JInt (int n)) [1..<Suc (length es)]
    \<and> latestSequence s = int (length es) \<and> attemptNo s = JInt (int (attempts es)) \<and> sends es \<le> attempts es
    \<and> list_all (\<lambda>e. same_origin s e \<and> same_print s e) es
    \<and> (e_sequence e \<noteq> JInt (latestSequence s + 1) \<longrightarrow> \<not> is_ok (applyProductLabelEvent (Some s) e v))"
proof -
  have i: "pl_inv v es s" "latestSequence s = int (length es)" using label_stream_inv [OF assms] by auto
  have n: "\<not> is_ok (applyProductLabelEvent (Some s) e v)" if "e_sequence e \<noteq> JInt (latestSequence s + 1)"
    using next_ok [OF i(1)] that by (cases "applyProductLabelEvent (Some s) e v") auto
  have "map (\<lambda>e. e_sequence e) es = map (\<lambda>n. JInt (int n)) [1..<Suc (length es)]"
    by (rule label_numbers [OF assms])
  then show ?thesis using i n by (auto simp: pl_inv_def list_all_iff)
qed

theorem product_label_stream_witness:
  "\<exists>s. label_stream VerifyRequired sample_label_events s \<and> attemptNo s = JInt 1 \<and> sends sample_label_events \<le> 1"
proof -
  obtain s where s: "label_stream VerifyRequired sample_label_events s" using sample_label_stream by blast
  have "attempts sample_label_events = 1"
    by (simp add: attempts_def sample_label_events_def sample_label_event_def)
  then show ?thesis using product_label_stream [OF s] s by auto
qed

text \<open>C20: A job that requires verification is complete only after its last event has either named
  the digest of the payload that was to be printed, or skipped the check of an attempt that was
  sent; without required verification it is complete when the current attempt was sent or, after an
  unknown delivery, verified in the same way.\<close>

theorem product_label_completion:
  assumes "label_stream v es s" "status s = St_completed"
  shows "case v of
      VerifyRequired \<Rightarrow>
        e_kind (last es) = K_verified (payloadDigest s) \<and> attemptState s \<in> {Sent, Delivery_unknown}
        \<or> e_kind (last es) = K_verification_skipped \<and> attemptState s = Sent
    | VerifyNone \<Rightarrow>
        attemptState s = Sent
        \<or> e_kind (last es) = K_verified (payloadDigest s) \<and> attemptState s = Delivery_unknown"
proof -
  have i: "outcome_event s es" "verification s = v" using label_stream_inv [OF assms(1)] by (auto simp: pl_inv_def)
  show ?thesis using completed_iff [OF assms(1)] assms(2) i
    by (cases v; cases "verificationOutcome s") (auto simp: outcome_event_def)
qed

theorem product_label_completion_witness:
  "e_kind (last sample_label_events) = K_verified (lit ''payload'')"
proof -
  obtain s where s: "label_stream VerifyRequired sample_label_events s" "status s = St_completed"
      "payloadDigest s = lit ''payload''"
    using sample_label_stream by blast
  show ?thesis using product_label_completion [OF s(1,2)] s(3)
    by (simp add: sample_label_events_def sample_label_event_def)
qed

text \<open>The guard is exact: on a projection that came from an accepted stream an event is applied
  exactly when the guard accepts it under the same policy, and the status of the new projection is
  always defined. From every such projection a sequence of events leads to a completed job.\<close>

theorem product_label_guard_exact:
  assumes "label_stream v es s"
  shows "(is_ok (applyProductLabelEvent (Some s) e w) \<longleftrightarrow> w = v \<and> canApplyProductLabelEvent s e)
    \<and> (int (length es) + 4 \<le> max_safe \<longrightarrow>
        (\<exists>rest s'. label_stream v (es @ rest) s' \<and> status s' = St_completed))"
proof -
  have i: "pl_inv v es s" using label_stream_inv [OF assms] by auto
  then have vs: "verification s = v" by (simp add: pl_inv_def)
  have 1: "is_ok (applyProductLabelEvent (Some s) e v)" if "canApplyProductLabelEvent s e"
    using other_ok [OF that _ i] prepared_ok [OF that _ i] by (cases "is_prepared e") (auto simp: is_ok_iff)
  have 2: "w = v \<and> canApplyProductLabelEvent s e" if "is_ok (applyProductLabelEvent (Some s) e w)"
    using that vs by (auto simp: applyProductLabelEvent_def invalidTransition_def split: if_splits)
  have 3: "completable v es" if "int (length es) + 4 \<le> max_safe"
  proof -
    have r: "room es n" if "n \<le> 4" for n
      using \<open>int (length es) + 4 \<le> max_safe\<close> that by (simp add: room_def)
    show ?thesis
      by (cases "attemptState s")
        (simp_all add: complete_prepared [OF assms r] complete_sending [OF assms r] complete_sent [OF assms r]
          complete_failed [OF assms r] complete_unknown [OF assms r])
  qed
  show ?thesis using 1 2 3 unfolding completable_def by blast
qed

theorem product_label_guard_exact_witness:
  "\<exists>s. \<not> is_ok (applyProductLabelEvent (Some s) (sample_label_event 6 K_sending) VerifyRequired)"
proof -
  obtain s where s: "label_stream VerifyRequired sample_label_events s" "attemptState s = Sent"
    using sample_label_stream by blast
  then have "\<not> canApplyProductLabelEvent s (sample_label_event 6 K_sending)"
    by (simp add: canApplyProductLabelEvent_def sample_label_event_def)
  then show ?thesis using product_label_guard_exact [OF s(1)] by blast
qed

end
