(* ===== verification/Warehouse_Reprint.thy ===== *)
theory Warehouse_Reprint
  imports Event_Projection
begin

text \<open>
  Warehouse label reprints (\<open>packages/domain/src/warehouse-reprint/contracts.ts\<close>, the event
  part, and \<open>state.ts\<close>): the wire contract of the reprint events and the projection of a
  reprint job. Every event is parsed by its schema first, so the projection sees identifiers in
  lower case; an attempt that failed before it was sent may be rendered again, every other
  reprint repeats the stored bytes.

  The formats behind \<open>z.uuid()\<close> and \<open>z.iso.datetime()\<close> are the parameters \<open>uuid\<close> and \<open>datetime\<close>.
\<close>

section \<open>Contracts\<close>

datatype source_kind = Unit_source | Box_source

record warehouse_prepared =
  wp_attemptNo :: jnum
  wp_reason :: reprint_reason
  wp_sourceKind :: source_kind
  wp_sourceId :: jstring
  wp_identity :: jstring
  wp_sourceRevision :: jstring
  wp_sourceShiftId :: "jstring option"
  wp_templateId :: jstring
  wp_templateRevision :: jstring
  wp_templateDigest :: jstring
  wp_payloadDigest :: jstring
  wp_bytesDigest :: jstring
  wp_scanDigest :: jstring
  wp_repair :: bool \<comment> \<open>\<open>"legacy_tspl_fnc1_literal"\<close> or null\<close>
  wp_dpi :: dpi
  wp_print :: print_identity

text \<open>A replacement rendering; a missing format is the older mono-raster replacement.\<close>

datatype rerender_format = Format_missing | Format_raster | Format_language printer_language

record warehouse_rerender =
  rr_bytesDigest :: jstring
  rr_dpi :: dpi
  rr_format :: rerender_format

datatype warehouse_unknown_code = WTransport_failed | WInterrupted
datatype warehouse_failed_code = WPrinter_unconfigured | WPrinter_changed | WOwner_changed | WDriver_rejected

datatype warehouse_kind =
    W_prepared warehouse_prepared
  | W_sending | W_sent | W_verified
  | W_delivery_unknown warehouse_unknown_code
  | W_failed_before_send warehouse_failed_code
  | W_reprint_prepared jnum reprint_reason "warehouse_rerender option"

record warehouse_event =
  w_eventId :: jstring
  w_jobId :: jstring
  w_sessionId :: jstring
  w_attemptId :: jstring
  w_operatorId :: jstring
  w_sequence :: jnum
  w_occurredAt :: jstring
  w_kind :: warehouse_kind

definition sized :: "nat \<Rightarrow> jstring \<Rightarrow> bool" where
  "sized n s \<longleftrightarrow> 1 \<le> length s \<and> length s \<le> n"

fun warehouseKindSchema :: "(jstring \<Rightarrow> bool) \<Rightarrow> warehouse_kind \<Rightarrow> warehouse_kind option" where
  "warehouseKindSchema uuid (W_prepared p) =
     (if wp_attemptNo p = JInt 1 \<and> sized 128 (wp_sourceId p) \<and> sized 64 (wp_identity p)
         \<and> list_all digestSchema [wp_sourceRevision p, wp_templateRevision p, wp_templateDigest p,
              wp_payloadDigest p, wp_bytesDigest p, wp_scanDigest p]
         \<and> (case wp_sourceShiftId p of None \<Rightarrow> True | Some i \<Rightarrow> uuid i) \<and> uuid (wp_templateId p)
      then Some (W_prepared (p\<lparr>wp_sourceShiftId := map_option to_lower (wp_sourceShiftId p),
                               wp_templateId := to_lower (wp_templateId p)\<rparr>))
      else None)"
| "warehouseKindSchema uuid (W_reprint_prepared no reason rerender) =
     (if positiveIntegerSchema no \<and> (case rerender of None \<Rightarrow> True | Some r \<Rightarrow> digestSchema (rr_bytesDigest r))
      then Some (W_reprint_prepared no reason rerender) else None)"
| "warehouseKindSchema uuid k = Some k"

definition warehouseEventSchema ::
    "(jstring \<Rightarrow> bool) \<Rightarrow> (jstring \<Rightarrow> bool) \<Rightarrow> warehouse_event \<Rightarrow> warehouse_event result" where
  "warehouseEventSchema uuid datetime e =
     (if list_all uuid [w_eventId e, w_jobId e, w_sessionId e, w_attemptId e, w_operatorId e]
         \<and> positiveIntegerSchema (w_sequence e) \<and> datetime (w_occurredAt e)
      then (case warehouseKindSchema uuid (w_kind e) of
              None \<Rightarrow> Inl ZodError
            | Some k \<Rightarrow>
                Inr (e\<lparr>w_eventId := to_lower (w_eventId e), w_jobId := to_lower (w_jobId e),
                       w_sessionId := to_lower (w_sessionId e), w_attemptId := to_lower (w_attemptId e),
                       w_operatorId := to_lower (w_operatorId e), w_kind := k\<rparr>))
      else Inl ZodError)"

section \<open>Projection\<close>

datatype warehouse_state =
  WS_prepared | WS_sending | WS_sent | WS_verified | WS_delivery_unknown | WS_failed_before_send

record warehouse_projection =
  wj_jobId :: jstring
  wj_sessionId :: jstring
  wj_latestSequence :: int
  wj_attemptId :: jstring
  wj_attemptNo :: jnum
  wj_attemptIds :: "jstring list"
  wj_state :: warehouse_state
  wj_bytesDigest :: jstring
  wj_payloadDigest :: jstring
  wj_templateDigest :: jstring
  wj_raster :: "warehouse_rerender option"

definition warehouse_invalid :: "'a result" where
  "warehouse_invalid = Inl (DomainError WAREHOUSE_REPRINT_TRANSITION)"

text \<open>The switch over the kinds that keep the attempt.\<close>

definition next_warehouse_state :: "warehouse_state \<Rightarrow> warehouse_kind \<Rightarrow> warehouse_state option" where
  "next_warehouse_state st k = (case k of
     W_sending \<Rightarrow> if st \<noteq> WS_prepared then None else Some WS_sending
   | W_sent \<Rightarrow> if st \<noteq> WS_sending then None else Some WS_sent
   | W_delivery_unknown _ \<Rightarrow> if st \<noteq> WS_sending then None else Some WS_delivery_unknown
   | W_failed_before_send c \<Rightarrow>
       if st \<noteq> WS_prepared \<and> \<not> (st = WS_sending \<and> c \<in> {WOwner_changed, WDriver_rejected}) then None
       else Some WS_failed_before_send
   | W_verified \<Rightarrow> if st \<noteq> WS_sent \<and> st \<noteq> WS_delivery_unknown then None else Some WS_verified
   | _ \<Rightarrow> None)"

definition first_warehouse_event :: "warehouse_event \<Rightarrow> warehouse_projection result" where
  "first_warehouse_event e =
     (case w_kind e of
        W_prepared p \<Rightarrow>
          if w_sequence e \<noteq> JInt 1 then warehouse_invalid
          else Inr \<lparr>wj_jobId = w_jobId e, wj_sessionId = w_sessionId e, wj_latestSequence = 1,
                    wj_attemptId = w_attemptId e, wj_attemptNo = JInt 1, wj_attemptIds = [w_attemptId e],
                    wj_state = WS_prepared, wj_bytesDigest = wp_bytesDigest p,
                    wj_payloadDigest = wp_payloadDigest p, wj_templateDigest = wp_templateDigest p,
                    wj_raster =
                      (if wp_print p = Mono_raster
                       then Some \<lparr>rr_bytesDigest = wp_bytesDigest p, rr_dpi = wp_dpi p, rr_format = Format_missing\<rparr>
                       else None)\<rparr>
      | _ \<Rightarrow> warehouse_invalid)"

definition rerender_allowed :: "warehouse_projection \<Rightarrow> warehouse_rerender option \<Rightarrow> bool" where
  "rerender_allowed cur rerender = (case rerender of
     None \<Rightarrow> True
   | Some r \<Rightarrow>
       wj_state cur = WS_failed_before_send
       \<and> \<not> (rr_format r = Format_missing
            \<and> (case wj_raster cur of
                 None \<Rightarrow> True
               | Some old \<Rightarrow> (case rr_format old of Format_language _ \<Rightarrow> True | _ \<Rightarrow> False))))"

definition applyWarehouseReprintEvent ::
    "(jstring \<Rightarrow> bool) \<Rightarrow> (jstring \<Rightarrow> bool) \<Rightarrow> warehouse_projection option \<Rightarrow> warehouse_event
       \<Rightarrow> warehouse_projection result" where
  "applyWarehouseReprintEvent uuid datetime current input =
     (case warehouseEventSchema uuid datetime input of
        Inl err \<Rightarrow> Inl err
      | Inr e \<Rightarrow>
          (case current of
             None \<Rightarrow> first_warehouse_event e
           | Some cur \<Rightarrow>
               if w_jobId e \<noteq> wj_jobId cur \<or> w_sessionId e \<noteq> wj_sessionId cur
                  \<or> w_sequence e \<noteq> JInt (wj_latestSequence cur + 1)
               then warehouse_invalid
               else (case w_kind e of
                       W_reprint_prepared no reason rerender \<Rightarrow>
                         if wj_state cur \<notin> {WS_sent, WS_verified, WS_delivery_unknown, WS_failed_before_send}
                            \<or> no \<noteq> JInt (jint (wj_attemptNo cur) + 1)
                            \<or> w_attemptId e \<in> set (wj_attemptIds cur)
                            \<or> \<not> rerender_allowed cur rerender
                         then warehouse_invalid
                         else let base = (case rerender of
                                            None \<Rightarrow> cur
                                          | Some r \<Rightarrow> cur\<lparr>wj_bytesDigest := rr_bytesDigest r, wj_raster := Some r\<rparr>)
                              in Inr (base\<lparr>wj_latestSequence := jint (w_sequence e), wj_attemptId := w_attemptId e,
                                           wj_attemptNo := no, wj_attemptIds := wj_attemptIds cur @ [w_attemptId e],
                                           wj_state := WS_prepared\<rparr>)
                     | k \<Rightarrow>
                         if w_attemptId e \<noteq> wj_attemptId cur then warehouse_invalid
                         else (case next_warehouse_state (wj_state cur) k of
                                 None \<Rightarrow> warehouse_invalid
                               | Some st \<Rightarrow> Inr (cur\<lparr>wj_latestSequence := jint (w_sequence e), wj_state := st\<rparr>)))))"

section \<open>Invariant\<close>

text \<open>How often a stream of events, as the schema normalises them, sends a given attempt.\<close>

definition sends_of :: "warehouse_event list \<Rightarrow> jstring \<Rightarrow> nat" where
  "sends_of es i = length (filter (\<lambda>e. w_kind e = W_sending \<and> to_lower (w_attemptId e) = i) es)"

definition w_inv :: "warehouse_event list \<Rightarrow> warehouse_projection \<Rightarrow> bool" where
  "w_inv es s \<longleftrightarrow>
     distinct (wj_attemptIds s) \<and> wj_attemptIds s \<noteq> [] \<and> last (wj_attemptIds s) = wj_attemptId s
     \<and> wj_attemptNo s = JInt (int (length (wj_attemptIds s)))
     \<and> list_all (\<lambda>e. to_lower (w_jobId e) = wj_jobId s \<and> to_lower (w_sessionId e) = wj_sessionId s
          \<and> to_lower (w_attemptId e) \<in> set (wj_attemptIds s)) es
     \<and> (\<forall>i. sends_of es i \<le> 1)
     \<and> (wj_state s = WS_prepared \<longrightarrow> sends_of es (wj_attemptId s) = 0)
     \<and> (wj_state s \<in> {WS_sending, WS_sent, WS_verified, WS_delivery_unknown} \<longrightarrow> sends_of es (wj_attemptId s) = 1)"

lemma sends_of_snoc [simp]:
  "sends_of (es @ [e]) i =
     sends_of es i + (if w_kind e = W_sending \<and> to_lower (w_attemptId e) = i then 1 else 0)"
  by (simp add: sends_of_def)

lemma sends_of_new:
  assumes "w_inv es s" "i \<notin> set (wj_attemptIds s)"
  shows "sends_of es i = 0"
  using assms by (auto simp: w_inv_def sends_of_def list_all_iff filter_empty_conv)

lemma schema_Inr:
  assumes "warehouseEventSchema uuid datetime e = Inr e'"
  shows "w_jobId e' = to_lower (w_jobId e) \<and> w_sessionId e' = to_lower (w_sessionId e)
    \<and> w_attemptId e' = to_lower (w_attemptId e) \<and> w_sequence e' = w_sequence e
    \<and> (\<forall>p. w_kind e = W_prepared p \<longrightarrow> (\<exists>q. w_kind e' = W_prepared q))
    \<and> ((\<nexists>p. w_kind e = W_prepared p) \<longrightarrow> w_kind e' = w_kind e)
    \<and> (\<forall>q. w_kind e' = W_prepared q \<longrightarrow> (\<exists>p. w_kind e = W_prepared p))"
  using assms
  by (cases "w_kind e") (auto simp: warehouseEventSchema_def split: option.splits if_splits)

lemma schema_sending:
  "warehouseEventSchema uuid datetime e = Inr e' \<Longrightarrow> (w_kind e = W_sending) = (w_kind e' = W_sending)"
  using schema_Inr [of uuid datetime e e'] by (cases "w_kind e") auto

lemma warehouse_first:
  assumes "applyWarehouseReprintEvent uuid datetime None e = Inr s"
  shows "jint (w_sequence e) = 1 \<and> wj_latestSequence s = 1 \<and> w_inv [e] s"
proof -
  obtain e' where e': "warehouseEventSchema uuid datetime e = Inr e'" "first_warehouse_event e' = Inr s"
    using assms by (auto simp: applyWarehouseReprintEvent_def split: sum.splits)
  then obtain p where p: "w_kind e' = W_prepared p" "w_sequence e' = JInt 1"
    by (auto simp: first_warehouse_event_def warehouse_invalid_def split: warehouse_kind.splits if_splits)
  have k: "w_kind e \<noteq> W_sending" using schema_sending [OF e'(1)] p by simp
  show ?thesis using e'(2) p k schema_Inr [OF e'(1)]
    by (auto simp: first_warehouse_event_def w_inv_def sends_of_def)
qed

text \<open>The two ways an event can be applied: a new attempt, or a step of the current one.\<close>

lemma warehouse_next_cases:
  assumes "applyWarehouseReprintEvent uuid datetime (Some cur) e = Inr s"
  obtains (reprint) reason rerender where
    "w_kind e = W_reprint_prepared (JInt (jint (wj_attemptNo cur) + 1)) reason rerender"
    "wj_state cur \<in> {WS_sent, WS_verified, WS_delivery_unknown, WS_failed_before_send}"
    "to_lower (w_attemptId e) \<notin> set (wj_attemptIds cur)" "rerender_allowed cur rerender"
    "s = (case rerender of None \<Rightarrow> cur | Some r \<Rightarrow> cur\<lparr>wj_bytesDigest := rr_bytesDigest r, wj_raster := Some r\<rparr>)
       \<lparr>wj_latestSequence := wj_latestSequence cur + 1, wj_attemptId := to_lower (w_attemptId e),
        wj_attemptNo := JInt (jint (wj_attemptNo cur) + 1),
        wj_attemptIds := wj_attemptIds cur @ [to_lower (w_attemptId e)], wj_state := WS_prepared\<rparr>"
    "w_sequence e = JInt (wj_latestSequence cur + 1)"
    "to_lower (w_jobId e) = wj_jobId cur" "to_lower (w_sessionId e) = wj_sessionId cur"
  | (step) st where
    "to_lower (w_attemptId e) = wj_attemptId cur" "next_warehouse_state (wj_state cur) (w_kind e) = Some st"
    "s = cur\<lparr>wj_latestSequence := wj_latestSequence cur + 1, wj_state := st\<rparr>"
    "w_sequence e = JInt (wj_latestSequence cur + 1)"
    "to_lower (w_jobId e) = wj_jobId cur" "to_lower (w_sessionId e) = wj_sessionId cur"
proof -
  obtain e' where e': "warehouseEventSchema uuid datetime e = Inr e'"
    using assms by (auto simp: applyWarehouseReprintEvent_def split: sum.splits)
  note f = schema_Inr [OF e']
  have g: "w_jobId e' = wj_jobId cur" "w_sessionId e' = wj_sessionId cur"
      "w_sequence e' = JInt (wj_latestSequence cur + 1)"
    using assms e' by (auto simp: applyWarehouseReprintEvent_def warehouse_invalid_def split: if_splits)
  show thesis
  proof (cases "\<exists>no reason rerender. w_kind e' = W_reprint_prepared no reason rerender")
    case True
    then obtain no reason rerender where k: "w_kind e' = W_reprint_prepared no reason rerender" by blast
    then have ke: "w_kind e = w_kind e'" using f by (metis warehouse_kind.distinct(11))
    let ?bad = "wj_state cur \<notin> {WS_sent, WS_verified, WS_delivery_unknown, WS_failed_before_send}
      \<or> no \<noteq> JInt (jint (wj_attemptNo cur) + 1) \<or> w_attemptId e' \<in> set (wj_attemptIds cur)
      \<or> \<not> rerender_allowed cur rerender"
    let ?base = "case rerender of None \<Rightarrow> cur | Some r \<Rightarrow> cur\<lparr>wj_bytesDigest := rr_bytesDigest r, wj_raster := Some r\<rparr>"
    have "applyWarehouseReprintEvent uuid datetime (Some cur) e = (if ?bad then warehouse_invalid
        else Inr (?base\<lparr>wj_latestSequence := wj_latestSequence cur + 1, wj_attemptId := w_attemptId e',
          wj_attemptNo := no, wj_attemptIds := wj_attemptIds cur @ [w_attemptId e'], wj_state := WS_prepared\<rparr>))"
      by (simp only: applyWarehouseReprintEvent_def e' g k Let_def sum.case option.case(2)
          warehouse_kind.case jint.simps simp_thms if_False)
    then have b: "\<not> ?bad" and
      sx: "s = ?base\<lparr>wj_latestSequence := wj_latestSequence cur + 1, wj_attemptId := w_attemptId e',
          wj_attemptNo := no, wj_attemptIds := wj_attemptIds cur @ [w_attemptId e'], wj_state := WS_prepared\<rparr>"
      using assms by (simp_all only: warehouse_invalid_def split: if_splits) simp_all
    have no: "no = JInt (jint (wj_attemptNo cur) + 1)" using b by blast
    show thesis
      by (rule reprint [of reason rerender]) (use b sx f g k ke no in simp_all)
  next
    case False
    have na: "next_warehouse_state st (W_prepared q) = None" for st q by (simp add: next_warehouse_state_def)
    obtain st where st: "w_attemptId e' = wj_attemptId cur" "next_warehouse_state (wj_state cur) (w_kind e') = Some st"
        "s = cur\<lparr>wj_latestSequence := wj_latestSequence cur + 1, wj_state := st\<rparr>"
      using assms e' g False
      by (cases "w_kind e'") (auto simp: applyWarehouseReprintEvent_def warehouse_invalid_def split: if_splits option.splits)
    then have "w_kind e = w_kind e'" using f na by (metis option.distinct(1))
    then show thesis using step st g f by metis
  qed
qed

lemma next_state_cases:
  "next_warehouse_state st k = Some st' \<Longrightarrow>
     (k = W_sending \<and> st = WS_prepared \<and> st' = WS_sending)
     \<or> (k \<noteq> W_sending \<and> st \<in> {WS_sending, WS_sent, WS_delivery_unknown} \<and> st' \<in> {WS_sent, WS_verified, WS_delivery_unknown})
     \<or> (k \<noteq> W_sending \<and> st' = WS_failed_before_send)"
  by (auto simp: next_warehouse_state_def split: warehouse_kind.splits if_splits)

lemma warehouse_next:
  assumes "w_inv es cur" "applyWarehouseReprintEvent uuid datetime (Some cur) e = Inr s"
  shows "jint (w_sequence e) = wj_latestSequence cur + 1 \<and> wj_latestSequence s = wj_latestSequence cur + 1
    \<and> w_inv (es @ [e]) s"
  using assms(2)
proof (cases rule: warehouse_next_cases)
  case (reprint reason rerender)
  have z: "sends_of es (to_lower (w_attemptId e)) = 0" by (rule sends_of_new [OF assms(1) reprint(3)])
  show ?thesis using reprint assms(1) z
    by (cases rerender) (auto simp: w_inv_def list_all_iff)
next
  case (step st)
  have a: "wj_attemptId cur \<in> set (wj_attemptIds cur)"
    using assms(1) unfolding w_inv_def by (metis last_in_set)
  then have "w_inv (es @ [e]) s"
    using next_state_cases [OF step(2)] assms(1) step by (auto simp: w_inv_def list_all_iff)
  then show ?thesis using step by simp
qed

interpretation warehouse: event_projection "applyWarehouseReprintEvent uuid datetime" wj_latestSequence
  "\<lambda>e. jint (w_sequence e)" w_inv for uuid datetime
  using warehouse_first warehouse_next by unfold_locales blast+

definition reprint_stream ::
    "(jstring \<Rightarrow> bool) \<Rightarrow> (jstring \<Rightarrow> bool) \<Rightarrow> warehouse_event list \<Rightarrow> warehouse_projection \<Rightarrow> bool" where
  "reprint_stream uuid datetime es s \<longleftrightarrow>
     replay (applyWarehouseReprintEvent uuid datetime) None es = Inr (Some s)"

lemma warehouse_next_keeps:
  assumes "applyWarehouseReprintEvent uuid datetime (Some cur) e = Inr s"
  shows "wj_jobId s = wj_jobId cur \<and> wj_sessionId s = wj_sessionId cur \<and> wj_payloadDigest s = wj_payloadDigest cur
    \<and> wj_templateDigest s = wj_templateDigest cur
    \<and> (wj_bytesDigest s \<noteq> wj_bytesDigest cur \<longrightarrow>
         wj_state cur = WS_failed_before_send
         \<and> (\<exists>no reason r. w_kind e = W_reprint_prepared no reason (Some r) \<and> wj_bytesDigest s = rr_bytesDigest r))"
  using assms
  by (cases rule: warehouse_next_cases) (auto simp: rerender_allowed_def split: option.splits)

lemma replay_keeps:
  assumes "replay (applyWarehouseReprintEvent uuid datetime) (Some p) ys = Inr (Some s)"
  shows "wj_jobId s = wj_jobId p \<and> wj_sessionId s = wj_sessionId p \<and> wj_payloadDigest s = wj_payloadDigest p
    \<and> wj_templateDigest s = wj_templateDigest p"
  using assms
proof (induction ys arbitrary: p)
  case (Cons y ys)
  then obtain q where "applyWarehouseReprintEvent uuid datetime (Some p) y = Inr q"
      "replay (applyWarehouseReprintEvent uuid datetime) (Some q) ys = Inr (Some s)"
    by (auto split: sum.splits)
  then show ?case using Cons.IH warehouse_next_keeps by metis
qed simp

section \<open>Properties\<close>

definition sample_digest :: jstring where
  "sample_digest = replicate 64 48"

definition sample_warehouse_prepared :: warehouse_prepared where
  "sample_warehouse_prepared =
     \<lparr>wp_attemptNo = JInt 1, wp_reason = Damaged, wp_sourceKind = Box_source, wp_sourceId = lit ''box'',
      wp_identity = lit ''id'', wp_sourceRevision = sample_digest, wp_sourceShiftId = None,
      wp_templateId = lit ''tpl'', wp_templateRevision = sample_digest, wp_templateDigest = sample_digest,
      wp_payloadDigest = sample_digest, wp_bytesDigest = sample_digest, wp_scanDigest = sample_digest,
      wp_repair = False, wp_dpi = Dpi203, wp_print = Mono_raster\<rparr>"

definition sample_warehouse_event :: "int \<Rightarrow> string \<Rightarrow> warehouse_kind \<Rightarrow> warehouse_event" where
  "sample_warehouse_event n aid k =
     \<lparr>w_eventId = lit ''e'', w_jobId = lit ''j'', w_sessionId = lit ''s'', w_attemptId = lit aid,
      w_operatorId = lit ''o'', w_sequence = JInt n, w_occurredAt = lit ''t'', w_kind = k\<rparr>"

definition sample_warehouse_events :: "warehouse_event list" where
  "sample_warehouse_events =
     [sample_warehouse_event 1 ''A'' (W_prepared sample_warehouse_prepared),
      sample_warehouse_event 2 ''a'' (W_failed_before_send WPrinter_changed),
      sample_warehouse_event 3 ''b'' (W_reprint_prepared (JInt 2) Damaged
        (Some \<lparr>rr_bytesDigest = replicate 64 49, rr_dpi = Dpi300, rr_format = Format_missing\<rparr>)),
      sample_warehouse_event 4 ''b'' W_sending, sample_warehouse_event 5 ''B'' W_sent,
      sample_warehouse_event 6 ''b'' W_verified]"

lemma sample_digest_ok [simp]: "digestSchema sample_digest" "digestSchema (replicate 64 49)"
  by (simp_all add: digestSchema_def sample_digest_def is_hex_def is_digit_def list_all_iff)

text \<open>For the samples a UUID is any non-empty string, and so is a timestamp.\<close>

lemma sample_reprint_stream:
  "\<exists>s. reprint_stream (\<lambda>x. x \<noteq> []) (\<lambda>x. x \<noteq> []) sample_warehouse_events s \<and> wj_state s = WS_verified
     \<and> wj_attemptId s = lit ''b''"
  by (simp add: reprint_stream_def sample_warehouse_events_def sample_warehouse_event_def
      applyWarehouseReprintEvent_def warehouseEventSchema_def first_warehouse_event_def
      sample_warehouse_prepared_def positiveIntegerSchema_def max_safe_def sized_def rerender_allowed_def
      next_warehouse_state_def lit_def to_lower_def)

text \<open>In every accepted stream of warehouse reprint events the numbers run from one without a
  gap, the attempts are distinct and counted, every event belongs to the job, the session and one
  of the attempts whatever the letter case of its identifiers, no attempt is sent to the printer
  twice, and a job in a sent, verified or unknown state has sent its current attempt exactly once.\<close>

theorem warehouse_reprint_stream:
  assumes "reprint_stream uuid datetime es s"
  shows "map (\<lambda>e. jint (w_sequence e)) es = map int [1..<Suc (length es)]
    \<and> distinct (wj_attemptIds s) \<and> last (wj_attemptIds s) = wj_attemptId s
    \<and> wj_attemptNo s = JInt (int (length (wj_attemptIds s)))
    \<and> list_all (\<lambda>e. to_lower (w_jobId e) = wj_jobId s \<and> to_lower (w_sessionId e) = wj_sessionId s
         \<and> to_lower (w_attemptId e) \<in> set (wj_attemptIds s)) es
    \<and> sends_of es i \<le> 1
    \<and> (wj_state s \<in> {WS_sent, WS_verified, WS_delivery_unknown} \<longrightarrow> sends_of es (wj_attemptId s) = 1)"
proof -
  have "w_inv es s" "map (\<lambda>e. jint (w_sequence e)) es = map int [1..<Suc (length es)]"
    using warehouse.stream_inv assms by (auto simp: reprint_stream_def)
  then show ?thesis by (auto simp: w_inv_def)
qed

theorem warehouse_reprint_stream_witness: "sends_of sample_warehouse_events (lit ''b'') = 1"
proof -
  obtain s where s: "reprint_stream (\<lambda>x. x \<noteq> []) (\<lambda>x. x \<noteq> []) sample_warehouse_events s"
      "wj_state s = WS_verified" "wj_attemptId s = lit ''b''"
    using sample_reprint_stream by blast
  show ?thesis using warehouse_reprint_stream [OF s(1)] s(2,3) by simp
qed

text \<open>C29: A reprint job never changes what it identifies: along an accepted stream the job, the
  session, the payload and the template stay those of its beginning, and the bytes to print change
  in one step only, the new attempt after one that failed before it was sent, to the digest that
  attempt carries.\<close>

theorem warehouse_reprint_identity:
  assumes "reprint_stream uuid datetime (xs @ ys) s" "xs \<noteq> []"
  shows "\<exists>p. reprint_stream uuid datetime xs p
    \<and> wj_jobId s = wj_jobId p \<and> wj_sessionId s = wj_sessionId p
    \<and> wj_payloadDigest s = wj_payloadDigest p \<and> wj_templateDigest s = wj_templateDigest p
    \<and> (length ys = 1 \<and> wj_bytesDigest s \<noteq> wj_bytesDigest p \<longrightarrow>
         wj_state p = WS_failed_before_send
         \<and> (\<exists>no reason r. w_kind (hd ys) = W_reprint_prepared no reason (Some r)
              \<and> wj_bytesDigest s = rr_bytesDigest r))"
proof -
  let ?app = "applyWarehouseReprintEvent uuid datetime"
  obtain p where p: "replay ?app None xs = Inr (Some p)"
    using warehouse.prefix_inv [OF assms(1)[unfolded reprint_stream_def] assms(2)] by blast
  then have r: "replay ?app (Some p) ys = Inr (Some s)"
    using assms(1) by (simp add: reprint_stream_def replay_append)
  have "length ys = 1 \<Longrightarrow> ?app (Some p) (hd ys) = Inr s"
    using r by (auto simp: length_Suc_conv split: sum.splits)
  then show ?thesis using p replay_keeps [OF r] warehouse_next_keeps by (fastforce simp: reprint_stream_def)
qed

theorem warehouse_reprint_identity_witness:
  "\<exists>p s. reprint_stream (\<lambda>x. x \<noteq> []) (\<lambda>x. x \<noteq> []) (take 2 sample_warehouse_events) p
     \<and> reprint_stream (\<lambda>x. x \<noteq> []) (\<lambda>x. x \<noteq> []) sample_warehouse_events s \<and> wj_payloadDigest s = wj_payloadDigest p"
proof -
  obtain s where s: "reprint_stream (\<lambda>x. x \<noteq> []) (\<lambda>x. x \<noteq> []) sample_warehouse_events s"
    using sample_reprint_stream by blast
  then have "reprint_stream (\<lambda>x. x \<noteq> []) (\<lambda>x. x \<noteq> [])
      (take 2 sample_warehouse_events @ drop 2 sample_warehouse_events) s" by simp
  moreover have "take 2 sample_warehouse_events \<noteq> []" by (simp add: sample_warehouse_events_def)
  ultimately show ?thesis using warehouse_reprint_identity s by blast
qed

end
