(* ===== verification/Inventory_Repacking.thy ===== *)
theory Inventory_Repacking
  imports Markiro_Prelude
begin

text \<open>
  Repacking during an inventory (\<open>packages/domain/src/inventory/repacking.ts\<close>): a device selects
  an old box, scans its items into a new one, and closes the new box when it is full or by
  confirmation; an authoritative conflict invalidates it. The reducer is modelled whole, with its
  failures as values; the states a device can reach are an inductive predicate, and the abstract
  box, a bounded list of distinct codes, is refined by it.
\<close>

section \<open>State and actions\<close>

datatype repack_phase = Awaiting_old_box | Scanning | Closed_pending_print | Invalidated

datatype observation_class = Eligible | Protected | Known_ineligible | Unknown_code | Invalid_code | Duplicate_code

record repack_membership =
  rm_eventId :: jstring
  rm_codeHash :: jstring
  rm_position :: int
  rm_observedAt :: jstring
  rm_productionDate :: jstring
  rm_sourceParentSscc :: "jstring option"
  rm_sourceParentMismatch :: bool

record repack_box =
  rb_boxId :: jstring
  rb_oldSsccContext :: jstring
  rb_newSscc :: jstring
  rb_productionDate :: jstring
  rb_openedAt :: jstring
  rb_closedAt :: "jstring option"
  rb_invalidatedAt :: "jstring option"
  rb_items :: "repack_membership list"

record repack_state =
  rs_phase :: repack_phase
  rs_ownerDeviceId :: jstring
  rs_capacity :: int
  rs_activeProductionDate :: jstring
  rs_oldSsccContext :: "jstring option"
  rs_box :: "repack_box option"

record repack_item =
  ri_eventId :: jstring
  ri_codeHash :: jstring
  ri_classification :: observation_class
  ri_observedProductionDate :: jstring
  ri_sourceParentSscc :: "jstring option"

datatype repack_action =
    Select_old_box jstring jstring jstring jstring jstring \<comment> \<open>device, old SSCC, box id, new SSCC, time\<close>
  | Observe_item jstring jstring repack_item \<comment> \<open>device, time, item\<close>
  | Change_active_date jstring jstring
  | Remove_last jstring jstring
  | Clear_open_box jstring jstring
  | Close_incomplete jstring bool jstring
  | Authoritative_conflict "jstring list" jstring

datatype repack_effect =
    Old_box_selected
  | Observation_only observation_class bool \<comment> \<open>true: the reason is \<open>BOX_DATE_MISMATCH\<close>\<close>
  | Item_added int bool
  | Capacity_closed int bool
  | Membership_replay int
  | Date_changed
  | Last_item_removed jstring
  | Box_cleared nat
  | Incomplete_closed
  | Box_invalidated
  | Conflict_unrelated

datatype repack_failure =
    OLD_BOX_REQUIRED | OLD_BOX_ALREADY_SELECTED | FOREIGN_BOX_OWNER | PRINT_PENDING
  | BOX_INVALIDATED | NON_EMPTY_BOX_DATE_FROZEN | CONFIRM_INCOMPLETE_CLOSE | BOX_EMPTY

datatype repack_result = Repack_ok repack_state repack_effect | Repack_fail repack_state repack_failure

fun result_state :: "repack_result \<Rightarrow> repack_state" where
  "result_state (Repack_ok s _) = s"
| "result_state (Repack_fail s _) = s"

section \<open>Operations\<close>

definition createInventoryRepackingState :: "jstring \<Rightarrow> jnum \<Rightarrow> jstring \<Rightarrow> repack_state result" where
  "createInventoryRepackingState owner capacity date =
     (if \<not> is_safe_integer capacity \<or> jint capacity \<le> 0 then Inl PlainError
      else Inr \<lparr>rs_phase = Awaiting_old_box, rs_ownerDeviceId = owner, rs_capacity = jint capacity,
                rs_activeProductionDate = date, rs_oldSsccContext = None, rs_box = None\<rparr>)"

definition requireOwnedOpenBox :: "repack_state \<Rightarrow> jstring \<Rightarrow> repack_failure option" where
  "requireOwnedOpenBox s deviceId =
     (if deviceId \<noteq> rs_ownerDeviceId s then Some FOREIGN_BOX_OWNER
      else if rs_phase s = Closed_pending_print then Some PRINT_PENDING
      else if rs_phase s = Invalidated then Some BOX_INVALIDATED
      else if rs_phase s \<noteq> Scanning \<or> rs_box s = None then Some OLD_BOX_REQUIRED
      else None)"

definition conflict_step :: "repack_state \<Rightarrow> jstring list \<Rightarrow> jstring \<Rightarrow> repack_result" where
  "conflict_step s affected t =
     (case rs_box s of
        None \<Rightarrow> Repack_ok s Conflict_unrelated
      | Some box \<Rightarrow>
          if rb_boxId box \<notin> set affected then Repack_ok s Conflict_unrelated
          else if rs_phase s = Invalidated then Repack_ok s Box_invalidated
          else Repack_ok (s\<lparr>rs_phase := Invalidated, rs_box := Some (box\<lparr>rb_invalidatedAt := Some t\<rparr>)\<rparr>)
                 Box_invalidated)"

definition select_step :: "repack_state \<Rightarrow> jstring \<Rightarrow> jstring \<Rightarrow> jstring \<Rightarrow> jstring \<Rightarrow> jstring \<Rightarrow> repack_result" where
  "select_step s deviceId oldSscc boxId newSscc openedAt =
     (if deviceId \<noteq> rs_ownerDeviceId s then Repack_fail s FOREIGN_BOX_OWNER
      else if rs_phase s = Closed_pending_print then Repack_fail s PRINT_PENDING
      else if rs_phase s = Invalidated then Repack_fail s BOX_INVALIDATED
      else if rs_phase s \<noteq> Awaiting_old_box then Repack_fail s OLD_BOX_ALREADY_SELECTED
      else Repack_ok
             (s\<lparr>rs_phase := Scanning, rs_oldSsccContext := Some oldSscc,
                rs_box := Some \<lparr>rb_boxId = boxId, rb_oldSsccContext = oldSscc, rb_newSscc = newSscc,
                   rb_productionDate = rs_activeProductionDate s, rb_openedAt = openedAt,
                   rb_closedAt = None, rb_invalidatedAt = None, rb_items = []\<rparr>\<rparr>)
             Old_box_selected)"

definition observe_step :: "repack_state \<Rightarrow> repack_box \<Rightarrow> jstring \<Rightarrow> repack_item \<Rightarrow> repack_result" where
  "observe_step s box observedAt item =
     (if ri_classification item \<noteq> Eligible then Repack_ok s (Observation_only (ri_classification item) False)
      else if ri_observedProductionDate item \<noteq> rb_productionDate box
           then Repack_ok s (Observation_only Eligible True)
      else (case find (\<lambda>m. rm_codeHash m = ri_codeHash item) (rb_items box) of
              Some existing \<Rightarrow> Repack_ok s (Membership_replay (rm_position existing))
            | None \<Rightarrow>
                let mismatch = (ri_sourceParentSscc item \<noteq> Some (rb_oldSsccContext box));
                    position = int (length (rb_items box)) + 1;
                    nextBox = box\<lparr>rb_items := rb_items box @
                       [\<lparr>rm_eventId = ri_eventId item, rm_codeHash = ri_codeHash item, rm_position = position,
                         rm_observedAt = observedAt, rm_productionDate = ri_observedProductionDate item,
                         rm_sourceParentSscc = ri_sourceParentSscc item, rm_sourceParentMismatch = mismatch\<rparr>],
                       rb_closedAt := (if position = rs_capacity s then Some observedAt else None)\<rparr>
                in Repack_ok
                     (s\<lparr>rs_phase := (if position = rs_capacity s then Closed_pending_print else Scanning),
                        rs_box := Some nextBox\<rparr>)
                     (if position = rs_capacity s then Capacity_closed position mismatch
                      else Item_added position mismatch)))"

definition open_box_step :: "repack_state \<Rightarrow> repack_box \<Rightarrow> repack_action \<Rightarrow> repack_result" where
  "open_box_step s box action = (case action of
     Change_active_date _ date \<Rightarrow>
       if 0 < length (rb_items box) then Repack_fail s NON_EMPTY_BOX_DATE_FROZEN
       else Repack_ok (s\<lparr>rs_activeProductionDate := date, rs_box := Some (box\<lparr>rb_productionDate := date\<rparr>)\<rparr>)
              Date_changed
   | Observe_item _ observedAt item \<Rightarrow> observe_step s box observedAt item
   | Remove_last _ _ \<Rightarrow>
       if rb_items box = [] then Repack_fail s BOX_EMPTY
       else Repack_ok (s\<lparr>rs_box := Some (box\<lparr>rb_items := butlast (rb_items box)\<rparr>)\<rparr>)
              (Last_item_removed (rm_eventId (last (rb_items box))))
   | Clear_open_box _ _ \<Rightarrow>
       Repack_ok (s\<lparr>rs_box := Some (box\<lparr>rb_items := []\<rparr>)\<rparr>) (Box_cleared (length (rb_items box)))
   | Close_incomplete _ confirmed closedAt \<Rightarrow>
       if \<not> confirmed then Repack_fail s CONFIRM_INCOMPLETE_CLOSE
       else if length (rb_items box) = 0 then Repack_fail s BOX_EMPTY
       else Repack_ok (s\<lparr>rs_phase := Closed_pending_print, rs_box := Some (box\<lparr>rb_closedAt := Some closedAt\<rparr>)\<rparr>)
              Incomplete_closed
   | _ \<Rightarrow> Repack_fail s OLD_BOX_REQUIRED)"

fun action_device :: "repack_action \<Rightarrow> jstring" where
  "action_device (Select_old_box d _ _ _ _) = d"
| "action_device (Observe_item d _ _) = d"
| "action_device (Change_active_date d _) = d"
| "action_device (Remove_last d _) = d"
| "action_device (Clear_open_box d _) = d"
| "action_device (Close_incomplete d _ _) = d"
| "action_device (Authoritative_conflict _ _) = []"

definition reduceInventoryRepacking :: "repack_state \<Rightarrow> repack_action \<Rightarrow> repack_result" where
  "reduceInventoryRepacking s action = (case action of
     Authoritative_conflict affected t \<Rightarrow> conflict_step s affected t
   | Select_old_box d old boxId new t \<Rightarrow> select_step s d old boxId new t
   | _ \<Rightarrow>
       (case requireOwnedOpenBox s (action_device action) of
          Some failure \<Rightarrow> Repack_fail s failure
        | None \<Rightarrow>
            (case rs_box s of
               None \<Rightarrow> Repack_fail s OLD_BOX_REQUIRED
             | Some box \<Rightarrow> open_box_step s box action)))"

text \<open>The states a device can be in.\<close>

inductive repack_reachable :: "repack_state \<Rightarrow> bool" where
  created: "createInventoryRepackingState owner capacity date = Inr s \<Longrightarrow> repack_reachable s"
| reduced: "repack_reachable s \<Longrightarrow> repack_reachable (result_state (reduceInventoryRepacking s action))"

section \<open>Invariant\<close>

definition items_ok :: "repack_box \<Rightarrow> bool" where
  "items_ok box \<longleftrightarrow>
     distinct (map rm_codeHash (rb_items box))
     \<and> map rm_position (rb_items box) = map int [1..<Suc (length (rb_items box))]
     \<and> list_all (\<lambda>m. rm_productionDate m = rb_productionDate box
          \<and> rm_sourceParentMismatch m = (rm_sourceParentSscc m \<noteq> Some (rb_oldSsccContext box))) (rb_items box)"

definition repack_inv :: "repack_state \<Rightarrow> bool" where
  "repack_inv s \<longleftrightarrow>
     0 < rs_capacity s \<and> rs_capacity s \<le> max_safe
     \<and> rs_oldSsccContext s = map_option rb_oldSsccContext (rs_box s)
     \<and> (case rs_box s of
          None \<Rightarrow> rs_phase s = Awaiting_old_box
        | Some box \<Rightarrow>
            items_ok box \<and> int (length (rb_items box)) \<le> rs_capacity s
            \<and> rb_productionDate box = rs_activeProductionDate s
            \<and> (case rs_phase s of
                 Awaiting_old_box \<Rightarrow> False
               | Scanning \<Rightarrow> int (length (rb_items box)) < rs_capacity s
                   \<and> rb_closedAt box = None \<and> rb_invalidatedAt box = None
               | Closed_pending_print \<Rightarrow> rb_items box \<noteq> [] \<and> rb_closedAt box \<noteq> None \<and> rb_invalidatedAt box = None
               | Invalidated \<Rightarrow> rb_invalidatedAt box \<noteq> None))"

lemma create_inv: "createInventoryRepackingState owner capacity date = Inr s \<Longrightarrow> repack_inv s"
  by (cases capacity) (auto simp: createInventoryRepackingState_def repack_inv_def split: if_splits)

lemma conflict_inv: "repack_inv s \<Longrightarrow> repack_inv (result_state (conflict_step s affected t))"
  by (auto simp: conflict_step_def repack_inv_def items_ok_def split: option.splits repack_phase.splits)

lemma select_inv: "repack_inv s \<Longrightarrow> repack_inv (result_state (select_step s d old boxId new t))"
  by (simp add: select_step_def if_distrib [of result_state] if_distrib [of repack_inv])
     (simp add: repack_inv_def items_ok_def)

text \<open>An item that joins the box.\<close>

definition item_joins :: "repack_box \<Rightarrow> repack_item \<Rightarrow> bool" where
  "item_joins box item \<longleftrightarrow> ri_classification item = Eligible
     \<and> ri_observedProductionDate item = rb_productionDate box
     \<and> ri_codeHash item \<notin> rm_codeHash ` set (rb_items box)"

lemma find_code: "find (\<lambda>m. rm_codeHash m = c) ms = None \<longleftrightarrow> c \<notin> rm_codeHash ` set ms"
  by (auto simp: find_None_iff)

lemma observe_stays: "\<not> item_joins box item \<Longrightarrow> result_state (observe_step s box t item) = s"
  by (auto simp: observe_step_def item_joins_def find_None_iff split: option.splits)

lemma observe_joins:
  assumes "item_joins box item"
  shows "\<exists>m. rm_codeHash m = ri_codeHash item \<and> rm_position m = int (length (rb_items box)) + 1
    \<and> rm_productionDate m = rb_productionDate box
    \<and> rm_sourceParentMismatch m = (rm_sourceParentSscc m \<noteq> Some (rb_oldSsccContext box))
    \<and> result_state (observe_step s box t item) =
        (if int (length (rb_items box)) + 1 = rs_capacity s
         then s\<lparr>rs_phase := Closed_pending_print,
                rs_box := Some (box\<lparr>rb_items := rb_items box @ [m], rb_closedAt := Some t\<rparr>)\<rparr>
         else s\<lparr>rs_phase := Scanning, rs_box := Some (box\<lparr>rb_items := rb_items box @ [m], rb_closedAt := None\<rparr>)\<rparr>)"
proof -
  let ?m = "\<lparr>rm_eventId = ri_eventId item, rm_codeHash = ri_codeHash item,
    rm_position = int (length (rb_items box)) + 1, rm_observedAt = t,
    rm_productionDate = ri_observedProductionDate item, rm_sourceParentSscc = ri_sourceParentSscc item,
    rm_sourceParentMismatch = (ri_sourceParentSscc item \<noteq> Some (rb_oldSsccContext box))\<rparr>"
  have f: "find (\<lambda>m. rm_codeHash m = ri_codeHash item) (rb_items box) = None"
    using assms by (simp add: find_code item_joins_def)
  show ?thesis using assms f by (intro exI [of _ ?m]) (simp add: observe_step_def item_joins_def Let_def)
qed

lemma items_ok_snoc:
  assumes "items_ok box" "rm_codeHash m \<notin> rm_codeHash ` set (rb_items box)"
    "rm_position m = int (length (rb_items box)) + 1" "rm_productionDate m = rb_productionDate box"
    "rm_sourceParentMismatch m = (rm_sourceParentSscc m \<noteq> Some (rb_oldSsccContext box))"
  shows "items_ok (box\<lparr>rb_items := rb_items box @ [m], rb_closedAt := c\<rparr>)"
  using assms by (auto simp: items_ok_def)

lemma observe_inv:
  assumes "repack_inv s" "rs_box s = Some box" "rs_phase s = Scanning"
  shows "repack_inv (result_state (observe_step s box t item))"
proof (cases "item_joins box item")
  case False
  then show ?thesis using assms(1) by (simp add: observe_stays)
next
  case True
  then obtain m where m: "rm_codeHash m = ri_codeHash item" "rm_position m = int (length (rb_items box)) + 1"
      "rm_productionDate m = rb_productionDate box"
      "rm_sourceParentMismatch m = (rm_sourceParentSscc m \<noteq> Some (rb_oldSsccContext box))"
      "result_state (observe_step s box t item) =
        (if int (length (rb_items box)) + 1 = rs_capacity s
         then s\<lparr>rs_phase := Closed_pending_print,
                rs_box := Some (box\<lparr>rb_items := rb_items box @ [m], rb_closedAt := Some t\<rparr>)\<rparr>
         else s\<lparr>rs_phase := Scanning, rs_box := Some (box\<lparr>rb_items := rb_items box @ [m], rb_closedAt := None\<rparr>)\<rparr>)"
    using observe_joins by blast
  have "items_ok (box\<lparr>rb_items := rb_items box @ [m], rb_closedAt := c\<rparr>)" for c
    using items_ok_snoc [of box m c] m True assms by (simp add: repack_inv_def item_joins_def)
  then show ?thesis using m(5) assms by (auto simp: repack_inv_def)
qed

lemma items_ok_butlast: "items_ok box \<Longrightarrow> items_ok (box\<lparr>rb_items := butlast (rb_items box)\<rparr>)"
  by (cases "rb_items box" rule: rev_cases) (auto simp: items_ok_def)

lemma open_box_inv:
  assumes "repack_inv s" "rs_box s = Some box" "rs_phase s = Scanning"
  shows "repack_inv (result_state (open_box_step s box action))"
proof (cases action)
  case (Remove_last d t)
  then show ?thesis using assms items_ok_butlast
    by (auto simp: open_box_step_def repack_inv_def)
next
  case (Observe_item d t item)
  then show ?thesis using observe_inv [OF assms] by (simp add: open_box_step_def)
qed (use assms in \<open>auto simp: open_box_step_def repack_inv_def items_ok_def\<close>)

lemma requireOwned_None:
  "requireOwnedOpenBox s d = None \<longleftrightarrow> d = rs_ownerDeviceId s \<and> rs_phase s = Scanning \<and> rs_box s \<noteq> None"
  by (auto simp: requireOwnedOpenBox_def)

text \<open>The reducer is one of four: a conflict, a selection, a refusal, or a step on the open box.\<close>

lemma reduce_cases:
  obtains (conflict) affected t where "action = Authoritative_conflict affected t"
      "reduceInventoryRepacking s action = conflict_step s affected t"
  | (select) d old boxId new t where "action = Select_old_box d old boxId new t"
      "reduceInventoryRepacking s action = select_step s d old boxId new t"
  | (refused) f where "reduceInventoryRepacking s action = Repack_fail s f"
      "requireOwnedOpenBox s (action_device action) = Some f"
      "\<nexists>a t. action = Authoritative_conflict a t" "\<nexists>d o' b n t. action = Select_old_box d o' b n t"
  | (opened) box where "reduceInventoryRepacking s action = open_box_step s box action"
      "rs_box s = Some box" "rs_phase s = Scanning" "action_device action = rs_ownerDeviceId s"
      "\<nexists>a t. action = Authoritative_conflict a t" "\<nexists>d o' b n t. action = Select_old_box d o' b n t"
proof (cases "(\<exists>a t. action = Authoritative_conflict a t) \<or> (\<exists>d o' b n t. action = Select_old_box d o' b n t)")
  case True
  then show thesis using that(1,2) by (fastforce simp: reduceInventoryRepacking_def)
next
  case False
  then have r: "reduceInventoryRepacking s action =
      (case requireOwnedOpenBox s (action_device action) of
         Some failure \<Rightarrow> Repack_fail s failure
       | None \<Rightarrow> (case rs_box s of None \<Rightarrow> Repack_fail s OLD_BOX_REQUIRED | Some box \<Rightarrow> open_box_step s box action))"
    by (cases action) (auto simp: reduceInventoryRepacking_def split: option.splits)
  show thesis
  proof (cases "requireOwnedOpenBox s (action_device action)")
    case None
    then obtain box where "rs_box s = Some box" "rs_phase s = Scanning" "action_device action = rs_ownerDeviceId s"
      by (auto simp: requireOwned_None)
    then show thesis using that(4) r None False by auto
  next
    case (Some f)
    then show thesis using that(3) r False by auto
  qed
qed

lemma reduce_inv: "repack_inv s \<Longrightarrow> repack_inv (result_state (reduceInventoryRepacking s action))"
  by (cases rule: reduce_cases [of action s]) (simp_all add: conflict_inv select_inv open_box_inv)

lemma reachable_inv: "repack_reachable s \<Longrightarrow> repack_inv s"
  by (induction rule: repack_reachable.induct) (auto intro: create_inv reduce_inv)

section \<open>Abstract box\<close>

text \<open>
  What the operator relies on: a box is an ordered list of distinct codes, bounded by the
  capacity. It is absent, open, closed or invalidated; only an open one changes.
\<close>

datatype abstract_box = No_box | Open_box "jstring list" | Closed_box "jstring list" | Dead_box "jstring list"

definition abs_box :: "repack_state \<Rightarrow> abstract_box" where
  "abs_box s = (case rs_box s of
     None \<Rightarrow> No_box
   | Some box \<Rightarrow>
       let codes = map rm_codeHash (rb_items box)
       in case rs_phase s of
            Closed_pending_print \<Rightarrow> Closed_box codes
          | Invalidated \<Rightarrow> Dead_box codes
          | _ \<Rightarrow> Open_box codes)"

datatype abstract_action =
  Abs_select | Abs_add jstring | Abs_drop_last | Abs_clear | Abs_close | Abs_kill | Abs_nothing

fun abs_step :: "nat \<Rightarrow> abstract_box \<Rightarrow> abstract_action \<Rightarrow> abstract_box" where
  "abs_step cap No_box Abs_select = Open_box []"
| "abs_step cap (Open_box cs) (Abs_add c) =
     (if c \<in> set cs then Open_box cs
      else if length cs + 1 = cap then Closed_box (cs @ [c]) else Open_box (cs @ [c]))"
| "abs_step cap (Open_box cs) Abs_drop_last = Open_box (butlast cs)"
| "abs_step cap (Open_box cs) Abs_clear = Open_box []"
| "abs_step cap (Open_box cs) Abs_close = (if cs = [] then Open_box cs else Closed_box cs)"
| "abs_step cap (Open_box cs) Abs_kill = Dead_box cs"
| "abs_step cap (Closed_box cs) Abs_kill = Dead_box cs"
| "abs_step cap b _ = b"

text \<open>
  What a concrete action means for the abstract box: an action of another device means nothing, an
  item counts when it is eligible and carries the date of the box, an incomplete close needs its
  confirmation, a conflict must name the box.
\<close>

definition abs_action :: "repack_state \<Rightarrow> repack_action \<Rightarrow> abstract_action" where
  "abs_action s action = (case action of
     Authoritative_conflict affected t \<Rightarrow>
       if \<exists>box. rs_box s = Some box \<and> rb_boxId box \<in> set affected then Abs_kill else Abs_nothing
   | _ \<Rightarrow>
       if action_device action \<noteq> rs_ownerDeviceId s then Abs_nothing
       else (case action of
               Select_old_box _ _ _ _ _ \<Rightarrow> Abs_select
             | Observe_item _ _ item \<Rightarrow>
                 if ri_classification item = Eligible
                    \<and> ri_observedProductionDate item = rs_activeProductionDate s
                 then Abs_add (ri_codeHash item) else Abs_nothing
             | Remove_last _ _ \<Rightarrow> Abs_drop_last
             | Clear_open_box _ _ \<Rightarrow> Abs_clear
             | Close_incomplete _ confirmed _ \<Rightarrow> if confirmed then Abs_close else Abs_nothing
             | _ \<Rightarrow> Abs_nothing))"

lemma abs_box_open: "rs_box s = Some box \<Longrightarrow> rs_phase s = Scanning \<Longrightarrow> abs_box s = Open_box (map rm_codeHash (rb_items box))"
  by (simp add: abs_box_def Let_def)

lemma observe_refines:
  assumes "repack_inv s" "rs_box s = Some box" "rs_phase s = Scanning"
  shows "abs_box (result_state (observe_step s box t item)) =
    (if ri_classification item = Eligible \<and> ri_observedProductionDate item = rs_activeProductionDate s
     then abs_step (nat (rs_capacity s)) (abs_box s) (Abs_add (ri_codeHash item)) else abs_box s)"
proof (cases "item_joins box item")
  case False
  then have "ri_classification item = Eligible \<Longrightarrow> ri_observedProductionDate item = rs_activeProductionDate s
      \<Longrightarrow> ri_codeHash item \<in> set (map rm_codeHash (rb_items box))"
    using assms by (auto simp: item_joins_def repack_inv_def)
  then show ?thesis using False assms(2,3) by (auto simp: observe_stays abs_box_open)
next
  case True
  then obtain m where m: "rm_codeHash m = ri_codeHash item"
      "result_state (observe_step s box t item) =
        (if int (length (rb_items box)) + 1 = rs_capacity s
         then s\<lparr>rs_phase := Closed_pending_print,
                rs_box := Some (box\<lparr>rb_items := rb_items box @ [m], rb_closedAt := Some t\<rparr>)\<rparr>
         else s\<lparr>rs_phase := Scanning, rs_box := Some (box\<lparr>rb_items := rb_items box @ [m], rb_closedAt := None\<rparr>)\<rparr>)"
    using observe_joins by blast
  have c: "ri_classification item = Eligible" "ri_observedProductionDate item = rs_activeProductionDate s"
      "ri_codeHash item \<notin> set (map rm_codeHash (rb_items box))"
    using True assms by (auto simp: item_joins_def repack_inv_def)
  have "int (length (rb_items box)) + 1 = rs_capacity s \<longleftrightarrow> Suc (length (rb_items box)) = nat (rs_capacity s)"
    using assms(1) by (auto simp: repack_inv_def)
  then show ?thesis using m c assms(2,3) by (simp add: abs_box_def Let_def)
qed

lemma open_box_refines:
  assumes "repack_inv s" "rs_box s = Some box" "rs_phase s = Scanning" "action_device action = rs_ownerDeviceId s"
    "\<nexists>a t. action = Authoritative_conflict a t" "\<nexists>d o' b n t. action = Select_old_box d o' b n t"
  shows "abs_box (result_state (open_box_step s box action)) =
    abs_step (nat (rs_capacity s)) (abs_box s) (abs_action s action)"
proof (cases action)
  case (Observe_item d t item)
  then show ?thesis using observe_refines [OF assms(1-3)] assms(4) abs_box_open [OF assms(2,3)]
    by (simp add: open_box_step_def abs_action_def)
qed (use assms in \<open>auto simp: open_box_step_def abs_action_def abs_box_def Let_def map_butlast\<close>)

lemma refused_refines:
  assumes "requireOwnedOpenBox s (action_device action) = Some f" "repack_inv s"
    "\<nexists>a t. action = Authoritative_conflict a t" "\<nexists>d o' b n t. action = Select_old_box d o' b n t"
  shows "abs_step cap (abs_box s) (abs_action s action) = abs_box s"
proof (cases "action_device action = rs_ownerDeviceId s")
  case False
  then have "abs_action s action = Abs_nothing" using assms(3,4) by (cases action) (auto simp: abs_action_def)
  then show ?thesis by (cases "abs_box s") simp_all
next
  case True
  then have "\<not> (rs_phase s = Scanning \<and> rs_box s \<noteq> None)" using assms(1) by (auto simp: requireOwnedOpenBox_def split: if_splits)
  then have "abs_box s \<in> {No_box} \<union> range Closed_box \<union> range Dead_box"
    using assms(2) by (auto simp: abs_box_def repack_inv_def Let_def split: option.splits repack_phase.splits)
  moreover have "abs_action s action \<noteq> Abs_kill" "abs_action s action \<noteq> Abs_select"
    using assms(3,4) by (cases action; auto simp: abs_action_def)+
  ultimately show ?thesis by (cases "abs_action s action") auto
qed

lemma reduce_refines:
  assumes "repack_inv s"
  shows "abs_box (result_state (reduceInventoryRepacking s action)) =
    abs_step (nat (rs_capacity s)) (abs_box s) (abs_action s action)"
proof (cases rule: reduce_cases [of action s])
  case (conflict affected t)
  then show ?thesis using assms
    by (cases "rs_box s"; cases "rs_phase s")
       (auto simp: conflict_step_def abs_action_def abs_box_def repack_inv_def Let_def)
next
  case (select d old boxId new t)
  then show ?thesis using assms
    by (cases "rs_box s"; cases "rs_phase s")
       (auto simp: select_step_def abs_action_def abs_box_def repack_inv_def Let_def)
next
  case (refused f)
  then show ?thesis using refused_refines assms by simp
next
  case (opened box)
  then show ?thesis using open_box_refines [OF assms] by simp
qed

lemma fail_keeps: "reduceInventoryRepacking s action = Repack_fail s' f \<Longrightarrow> s' = s"
proof (cases rule: reduce_cases [of action s])
  case (opened box)
  then show "reduceInventoryRepacking s action = Repack_fail s' f \<Longrightarrow> s' = s"
    by (cases action) (auto simp: open_box_step_def observe_step_def Let_def split: if_splits option.splits)
qed (auto simp: conflict_step_def select_step_def split: option.splits if_splits)

lemma foreign_refused:
  assumes "action_device action \<noteq> rs_ownerDeviceId s" "\<nexists>a t. action = Authoritative_conflict a t"
  shows "reduceInventoryRepacking s action = Repack_fail s FOREIGN_BOX_OWNER"
  using assms by (cases action) (simp_all add: reduceInventoryRepacking_def select_step_def requireOwnedOpenBox_def)

section \<open>Properties\<close>

definition sample_item :: "string \<Rightarrow> repack_item" where
  "sample_item c = \<lparr>ri_eventId = lit (''e'' @ c), ri_codeHash = lit c, ri_classification = Eligible,
     ri_observedProductionDate = lit ''2026-01-01'', ri_sourceParentSscc = None\<rparr>"

definition sample_repack :: repack_state where
  "sample_repack = \<lparr>rs_phase = Awaiting_old_box, rs_ownerDeviceId = lit ''d'', rs_capacity = 2,
     rs_activeProductionDate = lit ''2026-01-01'', rs_oldSsccContext = None, rs_box = None\<rparr>"

definition sample_full :: repack_state where
  "sample_full = foldl (\<lambda>s a. result_state (reduceInventoryRepacking s a)) sample_repack
     [Select_old_box (lit ''d'') (lit ''old'') (lit ''box'') (lit ''new'') (lit ''t0''),
      Observe_item (lit ''d'') (lit ''t1'') (sample_item ''a''),
      Observe_item (lit ''d'') (lit ''t2'') (sample_item ''a''),
      Observe_item (lit ''d'') (lit ''t3'') (sample_item ''b'')]"

lemma sample_repack_reachable: "repack_reachable sample_repack"
  by (rule created [of "lit ''d''" "JInt 2" "lit ''2026-01-01''"])
     (simp add: createInventoryRepackingState_def sample_repack_def max_safe_def)

lemma sample_full_reachable: "repack_reachable sample_full"
  unfolding sample_full_def by (simp add: sample_repack_reachable repack_reachable.reduced)

lemma sample_full_box: "abs_box sample_full = Closed_box [lit ''a'', lit ''b'']"
  by (simp add: sample_full_def sample_repack_def sample_item_def reduceInventoryRepacking_def select_step_def
      requireOwnedOpenBox_def open_box_step_def observe_step_def abs_box_def lit_def)

text \<open>C9: In every state a device can reach, the new box never holds more items than its capacity,
  no code twice, positions numbered from one, and only items of the box's production date with the
  parent mismatch recorded exactly; an open box still has room and neither mark, a closed one is
  not empty and carries its closing time, an invalidated one its invalidation time.\<close>

theorem repack_box_wellformed:
  assumes "repack_reachable s" "rs_box s = Some box"
  shows "distinct (map rm_codeHash (rb_items box))
    \<and> map rm_position (rb_items box) = map int [1..<Suc (length (rb_items box))]
    \<and> int (length (rb_items box)) \<le> rs_capacity s
    \<and> list_all (\<lambda>m. rm_productionDate m = rb_productionDate box
         \<and> rm_sourceParentMismatch m = (rm_sourceParentSscc m \<noteq> Some (rb_oldSsccContext box))) (rb_items box)
    \<and> (case rs_phase s of
         Awaiting_old_box \<Rightarrow> False
       | Scanning \<Rightarrow> int (length (rb_items box)) < rs_capacity s \<and> rb_closedAt box = None \<and> rb_invalidatedAt box = None
       | Closed_pending_print \<Rightarrow> rb_items box \<noteq> [] \<and> rb_closedAt box \<noteq> None \<and> rb_invalidatedAt box = None
       | Invalidated \<Rightarrow> rb_invalidatedAt box \<noteq> None)"
  using reachable_inv [OF assms(1), unfolded repack_inv_def items_ok_def assms(2) option.case] by blast

theorem repack_box_wellformed_witness:
  "\<exists>box. rs_box sample_full = Some box \<and> distinct (map rm_codeHash (rb_items box)) \<and> rb_closedAt box \<noteq> None"
proof -
  obtain box where b: "rs_box sample_full = Some box"
    using sample_full_box by (cases "rs_box sample_full") (auto simp: abs_box_def)
  moreover have "rs_phase sample_full = Closed_pending_print"
    using sample_full_box b by (auto simp: abs_box_def Let_def split: repack_phase.splits)
  ultimately show ?thesis using repack_box_wellformed [OF sample_full_reachable b] by simp
qed

text \<open>C30: The reducer implements the abstract box, an ordered list of distinct codes bounded by the
  capacity: from every reachable state each action changes the codes exactly as its abstract
  meaning does.\<close>

theorem repack_refines_abstract_box:
  assumes "repack_reachable s"
  shows "abs_box (result_state (reduceInventoryRepacking s action))
    = abs_step (nat (rs_capacity s)) (abs_box s) (abs_action s action)"
  by (rule reduce_refines [OF reachable_inv [OF assms]])

theorem repack_refines_abstract_box_witness:
  "abs_box (result_state (reduceInventoryRepacking sample_full (Clear_open_box (lit ''d'') (lit ''t9''))))
     = Closed_box [lit ''a'', lit ''b'']"
proof -
  have "rs_ownerDeviceId sample_full = lit ''d''"
    by (simp add: sample_full_def sample_repack_def sample_item_def reduceInventoryRepacking_def select_step_def
        requireOwnedOpenBox_def open_box_step_def observe_step_def lit_def)
  then show ?thesis
    using repack_refines_abstract_box [OF sample_full_reachable, of "Clear_open_box (lit ''d'') (lit ''t9'')"]
    by (simp add: sample_full_box abs_action_def)
qed

text \<open>Errors change nothing and only the owner works on a box: a failed action returns the
  state it was given, every action of another device fails as foreign, an invalidated box stays as
  it is under every action, and a closed box changes only by an authoritative conflict.\<close>

theorem repack_ownership_and_errors:
  "(\<forall>s' f. reduceInventoryRepacking s action = Repack_fail s' f \<longrightarrow> s' = s)
   \<and> (action_device action \<noteq> rs_ownerDeviceId s \<and> (\<nexists>a t. action = Authoritative_conflict a t)
       \<longrightarrow> reduceInventoryRepacking s action = Repack_fail s FOREIGN_BOX_OWNER)
   \<and> (rs_phase s = Invalidated \<longrightarrow> result_state (reduceInventoryRepacking s action) = s)
   \<and> (rs_phase s = Closed_pending_print \<and> (\<nexists>a t. action = Authoritative_conflict a t)
       \<longrightarrow> (\<exists>f. reduceInventoryRepacking s action = Repack_fail s f))"
proof (intro conjI impI)
  show "\<forall>s' f. reduceInventoryRepacking s action = Repack_fail s' f \<longrightarrow> s' = s" using fail_keeps by blast
  show "reduceInventoryRepacking s action = Repack_fail s FOREIGN_BOX_OWNER"
    if "action_device action \<noteq> rs_ownerDeviceId s \<and> (\<nexists>a t. action = Authoritative_conflict a t)"
    using foreign_refused that by blast
  show "result_state (reduceInventoryRepacking s action) = s" if "rs_phase s = Invalidated"
    by (cases rule: reduce_cases [of action s])
       (use that in \<open>auto simp: conflict_step_def select_step_def split: option.splits\<close>)
  show "\<exists>f. reduceInventoryRepacking s action = Repack_fail s f"
    if "rs_phase s = Closed_pending_print \<and> (\<nexists>a t. action = Authoritative_conflict a t)"
    by (cases rule: reduce_cases [of action s]) (use that in \<open>auto simp: select_step_def\<close>)
qed

theorem repack_ownership_and_errors_witness:
  "reduceInventoryRepacking sample_repack (Remove_last (lit ''other'') (lit ''t''))
     = Repack_fail sample_repack FOREIGN_BOX_OWNER"
  using repack_ownership_and_errors [of sample_repack "Remove_last (lit ''other'') (lit ''t'')"]
  by (simp add: sample_repack_def lit_def)

end
