(* ===== verification/Gs1_Codes.thy ===== *)
theory Gs1_Codes
  imports Markiro_Prelude
begin

text \<open>
  GS1 identifiers: the mod-10 check digit, GTIN normalisation and the SSCC of a transport
  package (\<open>packages/domain/src/gs1/check-digit.ts\<close>, \<open>gtin.ts\<close>, \<open>sscc.ts\<close>). The abstract
  view of the check digit is \<open>alt\<close>, the sum of the digits read from the right with
  alternating weights; the lemmas about error detection are proved on it.
\<close>

section \<open>Model\<close>

subsection \<open>Check digit\<close>

definition gs1_sum :: "jstring \<Rightarrow> nat" where
  "gs1_sum body =
     sum_list (map (\<lambda>i. let digit = body ! (length body - 1 - i) - 48
                        in if i mod 2 = 0 then digit * 3 else digit) [0..<length body])"

definition gs1CheckDigit :: "jstring \<Rightarrow> nat result" where
  "gs1CheckDigit body =
     (if length body = 0 \<or> \<not> all_digits body then Inl RangeError
      else Inr ((10 - gs1_sum body mod 10) mod 10))"

definition hasValidCheckDigit :: "jstring \<Rightarrow> bool" where
  "hasValidCheckDigit code =
     (if length code < 2 \<or> \<not> all_digits code then False
      else gs1CheckDigit (butlast code) = Inr (num [last code]))"

subsection \<open>GTIN\<close>

definition GTIN_LENGTHS :: "nat list" where
  "GTIN_LENGTHS = [8, 12, 13, 14]"

definition normalizeToGtin14 :: "jstring \<Rightarrow> jstring result" where
  "normalizeToGtin14 input =
     (if \<not> all_digits input \<or> length input \<notin> set GTIN_LENGTHS then Inl (DomainError GTIN_INVALID)
      else if \<not> hasValidCheckDigit input then Inl (DomainError GTIN_INVALID)
      else Inr (pad_start 14 48 input))"

definition isValidGtin :: "jstring \<Rightarrow> bool" where
  "isValidGtin input = (case normalizeToGtin14 input of Inr _ \<Rightarrow> True | Inl _ \<Rightarrow> False)"

definition gtinMatchesPrefix :: "jstring \<Rightarrow> jstring \<Rightarrow> bool" where
  "gtinMatchesPrefix gtin14 gs1Prefix =
     (if length gtin14 \<noteq> 14 \<or> \<not> all_digits gs1Prefix \<or> length gs1Prefix = 0 then False
      else starts_with (drop 1 gtin14) gs1Prefix)"

subsection \<open>SSCC\<close>

definition ssccSerialCapacity :: "jstring \<Rightarrow> int result" where
  "ssccSerialCapacity gs1Prefix =
     (if \<not> (list_all is_digit gs1Prefix \<and> 4 \<le> length gs1Prefix \<and> length gs1Prefix \<le> 12)
      then Inl (DomainError SSCC_PREFIX)
      else Inr (10 ^ (16 - length gs1Prefix)))"

definition buildSscc :: "jnum \<Rightarrow> jstring \<Rightarrow> jnum \<Rightarrow> jstring result" where
  "buildSscc extensionDigit gs1Prefix serial =
     (if \<not> is_integer extensionDigit \<or> jint extensionDigit < 0 \<or> 9 < jint extensionDigit
      then Inl (DomainError SSCC_PREFIX)
      else case ssccSerialCapacity gs1Prefix of
        Inl e \<Rightarrow> Inl e
      | Inr capacity \<Rightarrow>
          if \<not> is_integer serial \<or> jint serial < 0 \<or> capacity \<le> jint serial
          then Inl (DomainError SSCC_RANGE)
          else let body = dec (nat (jint extensionDigit)) @ gs1Prefix
                            @ pad_start (16 - length gs1Prefix) 48 (dec (nat (jint serial)))
               in case gs1CheckDigit body of
                    Inl e \<Rightarrow> Inl e
                  | Inr d \<Rightarrow> Inr (body @ dec d))"

definition isValidSscc :: "jstring \<Rightarrow> bool" where
  "isValidSscc code \<longleftrightarrow> digits_n 18 code \<and> hasValidCheckDigit code"

definition parseScannedSscc :: "jstring \<Rightarrow> bool \<Rightarrow> jstring option" where
  "parseScannedSscc raw allowLegacyBangOnePrefix =
     (if (if allowLegacyBangOnePrefix then 27 else 25) < length raw then None
      else
        let rest = raw;
            rest = (if starts_with rest (lit '']C1'') then drop 3 rest else rest);
            rest = (if allowLegacyBangOnePrefix \<and> starts_with rest (lit ''!1'')
                    then drop 2 rest else rest);
            rest = (if starts_with rest (lit ''(00)'') then drop 4 rest
                    else if length rest = 20 \<and> starts_with rest (lit ''00'') then drop 2 rest
                    else rest)
        in if isValidSscc rest then Some rest else None)"

record parsed_sscc =
  sscc_extensionDigit :: nat
  sscc_gs1Prefix :: jstring
  sscc_serial :: nat

definition parseSscc :: "jstring \<Rightarrow> jnum \<Rightarrow> parsed_sscc option result" where
  "parseSscc sscc prefixLength =
     (if \<not> isValidSscc sscc then Inr None
      else if \<not> is_integer prefixLength \<or> jint prefixLength < 4 \<or> 12 < jint prefixLength
      then Inl (DomainError SSCC_PREFIX)
      else let p = nat (jint prefixLength)
           in Inr (Some \<lparr>sscc_extensionDigit = num [sscc ! 0],
                         sscc_gs1Prefix = slice 1 (1 + p) sscc,
                         sscc_serial = num (slice (1 + p) 17 sscc)\<rparr>))"

definition formatSsccWithAi :: "jstring \<Rightarrow> jstring result" where
  "formatSsccWithAi sscc =
     (if \<not> digits_n 18 sscc then Inl (DomainError SSCC_FORMAT) else Inr (lit ''00'' @ sscc))"

definition formatSsccHri :: "jstring \<Rightarrow> jstring result" where
  "formatSsccHri value =
     (let bare = (if length value = 20 \<and> starts_with value (lit ''00'') then drop 2 value else value)
      in if \<not> digits_n 18 bare then Inl (DomainError SSCC_FORMAT)
         else Inr (lit ''(00)'' @ bare))"

section \<open>The check digit as an alternating sum\<close>

fun alt :: "nat \<Rightarrow> nat \<Rightarrow> nat list \<Rightarrow> nat" where
  "alt a b [] = 0"
| "alt a b (x # xs) = a * x + alt b a xs"

lemma alt_index:
  "sum_list (map (\<lambda>i. if even i then a * f (xs ! i) else b * f (xs ! i)) [0..<length xs])
     = alt a b (map f xs)"
proof (induction xs arbitrary: a b)
  case Nil
  then show ?case by simp
next
  case (Cons x xs)
  have "[0..<length (x # xs)] = 0 # map Suc [0..<length xs]"
    by (simp only: length_Cons upt_conv_Cons zero_less_Suc map_Suc_upt)
  then have "map (\<lambda>i. if even i then a * f ((x # xs) ! i) else b * f ((x # xs) ! i)) [0..<length (x # xs)]
      = a * f x # map (\<lambda>i. if even i then b * f (xs ! i) else a * f (xs ! i)) [0..<length xs]"
    by (simp only: list.map map_map) auto
  then show ?case using Cons.IH [of b a] by (simp only: sum_list.Cons alt.simps list.map)
qed

lemma alt_append_zeros [simp]: "alt a b (xs @ replicate n 0) = alt a b xs"
proof -
  have "alt a b (replicate n 0) = 0" for a b
    by (induction n arbitrary: a b) auto
  then show ?thesis by (induction xs arbitrary: a b) auto
qed

lemma alt_update:
  assumes "i < length xs"
  shows "alt a b (xs[i := d]) + (if even i then a else b) * xs ! i
           = alt a b xs + (if even i then a else b) * d"
  using assms
proof (induction xs arbitrary: i a b)
  case Nil
  then show ?case by simp
next
  case (Cons x xs)
  show ?case
  proof (cases i)
    case 0
    then show ?thesis by simp
  next
    case (Suc j)
    then show ?thesis using Cons.IH [of j b a] Cons.prems by (auto split: if_splits)
  qed
qed

lemma alt_swap:
  "alt a b (us @ y # x # vs) + (if even (length us) then a * x + b * y else b * x + a * y)
     = alt a b (us @ x # y # vs) + (if even (length us) then a * y + b * x else b * y + a * x)"
proof (induction us arbitrary: a b)
  case Nil
  then show ?case by simp
next
  case (Cons u us)
  then show ?case using Cons.IH [of b a] by (auto split: if_splits)
qed

definition dig :: "nat \<Rightarrow> nat" where
  "dig c = c - 48"

definition digit_values :: "jstring \<Rightarrow> nat list" where
  "digit_values s = map dig (rev s)"

lemma gs1_sum_alt: "gs1_sum body = alt 3 1 (digit_values body)"
proof -
  have "gs1_sum body = sum_list (map (\<lambda>i. if even i then 3 * dig (rev body ! i)
          else 1 * dig (rev body ! i)) [0..<length (rev body)])"
    unfolding gs1_sum_def
    by (rule arg_cong [where f = sum_list])
      (auto simp: rev_nth Let_def even_iff_mod_2_eq_zero dig_def mult.commute)
  also have "\<dots> = alt 3 1 (map dig (rev body))"
    by (rule alt_index)
  finally show ?thesis by (simp add: digit_values_def)
qed

lemma num_single [simp]: "num [c] = c - 48"
  by (simp add: num_def)

lemma mod_complement:
  fixes s d :: nat
  assumes "d < 10"
  shows "(10 - s mod 10) mod 10 = d \<longleftrightarrow> (s + d) mod 10 = 0"
proof -
  define r where "r = s mod 10"
  have r: "r < 10" by (simp add: r_def)
  have "(10 - r) mod 10 = d \<longleftrightarrow> (r + d) mod 10 = 0"
  proof (cases "r = 0")
    case True
    then show ?thesis using assms by auto
  next
    case False
    have "(r + d) mod 10 = (if r + d < 10 then r + d else r + d - 10)"
      using r assms by (simp add: mod_if)
    then show ?thesis using False r assms by auto
  qed
  then show ?thesis by (simp add: r_def mod_add_left_eq)
qed

text \<open>A complete code is valid exactly when its alternating sum is a multiple of ten.\<close>

lemma hasValidCheckDigit_iff:
  "hasValidCheckDigit code \<longleftrightarrow>
     2 \<le> length code \<and> list_all is_digit code \<and> alt 1 3 (digit_values code) mod 10 = 0"
proof (cases "2 \<le> length code \<and> list_all is_digit code")
  case False
  then show ?thesis by (auto simp: hasValidCheckDigit_def all_digits_def)
next
  case True
  then obtain b c where code: "code = b @ [c]"
    by (metis append_butlast_last_id list.size(3) not_numeral_le_zero)
  with True have b: "b \<noteq> []" "list_all is_digit b" and c: "is_digit c" by auto
  have lt: "c - 48 < 10" using c by (auto simp: is_digit_def)
  have "alt 1 3 (digit_values code) = (c - 48) + gs1_sum b"
    by (simp add: code gs1_sum_alt digit_values_def dig_def)
  then show ?thesis using True b mod_complement [OF lt, of "gs1_sum b"]
    by (simp add: hasValidCheckDigit_def all_digits_def code gs1CheckDigit_def add.commute)
qed

lemma hasValidCheckDigit_pad:
  assumes "2 \<le> length s"
  shows "hasValidCheckDigit (pad_start n 48 s) \<longleftrightarrow> hasValidCheckDigit s"
  using assms
  by (auto simp: hasValidCheckDigit_iff pad_start_def digit_values_def is_digit_def list_all_iff
      rev_replicate dig_def)

section \<open>Error detection\<close>

lemma digit_diff_mod10:
  fixes w x y s t :: nat
  assumes "w = 1 \<or> w = 3" "x < 10" "y < 10" "x \<noteq> y" "t + w * x = s + w * y" "s mod 10 = 0"
  shows "t mod 10 \<noteq> 0"
proof
  assume "t mod 10 = 0"
  then obtain p q where pq: "t = 10 * p" "s = 10 * q" using assms(6) by (metis mod_0_imp_dvd dvd_def)
  from assms(1) show False
  proof
    assume "w = 1"
    then show False using assms(2-5) pq by presburger
  next
    assume "w = 3"
    then have "10 * p + 3 * x = 10 * q + 3 * y" using assms(5) pq by simp
    then show False using assms(2-4) by presburger
  qed
qed

lemma digit_values_update:
  "i < length s \<Longrightarrow> digit_values (s[i := d]) = (digit_values s)[length s - 1 - i := dig d]"
  by (simp add: digit_values_def rev_update map_update)

lemma digit_values_nth:
  "i < length s \<Longrightarrow> digit_values s ! (length s - 1 - i) = dig (s ! i)"
  by (simp add: digit_values_def rev_nth)

lemma length_digit_values [simp]: "length (digit_values s) = length s"
  by (simp add: digit_values_def)

lemma single_error_detected:
  assumes ok: "hasValidCheckDigit code" and i: "i < length code"
    and d: "is_digit d" and neq: "d \<noteq> code ! i"
  shows "\<not> hasValidCheckDigit (code[i := d])"
proof -
  let ?j = "length code - 1 - i"
  let ?w = "if even ?j then 1 else (3::nat)"
  have dg: "is_digit (code ! i)"
    using ok i by (auto simp: hasValidCheckDigit_iff list_all_length)
  have j: "?j < length (digit_values code)" using i by simp
  have eq: "alt 1 3 (digit_values (code[i := d])) + ?w * (code ! i - 48)
              = alt 1 3 (digit_values code) + ?w * (d - 48)"
    using alt_update [OF j, of 1 3 "dig d"]
    by (simp only: digit_values_update [OF i] digit_values_nth [OF i] dig_def)
  have s0: "alt 1 3 (digit_values code) mod 10 = 0" using ok by (simp add: hasValidCheckDigit_iff)
  have "code ! i - 48 < 10" "d - 48 < 10" "code ! i - 48 \<noteq> d - 48"
    using dg d neq by (auto simp: is_digit_def)
  moreover have "?w = 1 \<or> ?w = 3" by simp
  ultimately have "alt 1 3 (digit_values (code[i := d])) mod 10 \<noteq> 0"
    using digit_diff_mod10 [OF _ _ _ _ eq s0] by blast
  then show ?thesis by (simp add: hasValidCheckDigit_iff)
qed

lemma five_step:
  fixes x y p q :: nat
  assumes "x < 10" "y < 10" "5 * p + y = 5 * q + x"
  shows "x = y \<or> x = y + 5 \<or> y = x + 5"
proof (cases p q rule: linorder_cases)
  case less
  then obtain k where "q = Suc (p + k)" by (metis less_imp_Suc_add)
  with assms have "y = 5 + 5 * k + x" by simp
  with assms have "k = 0" by simp
  with \<open>y = 5 + 5 * k + x\<close> show ?thesis by simp
next
  case equal
  with assms show ?thesis by simp
next
  case greater
  then obtain k where "p = Suc (q + k)" by (metis less_imp_Suc_add)
  with assms have "x = 5 + 5 * k + y" by simp
  with assms have "k = 0" by simp
  with \<open>x = 5 + 5 * k + y\<close> show ?thesis by simp
qed

lemma transposition_mod:
  fixes x y s t :: nat
  assumes "x < 10" "y < 10" "s mod 10 = 0"
    and "t + (x + 3 * y) = s + (y + 3 * x) \<or> t + (3 * x + y) = s + (3 * y + x)"
  shows "t mod 10 = 0 \<longleftrightarrow> x = y \<or> x = y + 5 \<or> y = x + 5"
proof -
  obtain q where s: "s = 10 * q" using assms(3) by (metis mod_0_imp_dvd dvd_def)
  have e: "t + 2 * y = 10 * q + 2 * x \<or> t + 2 * x = 10 * q + 2 * y" using assms(4) s by auto
  show ?thesis
  proof
    assume "t mod 10 = 0"
    then obtain p where "t = 10 * p" by (metis mod_0_imp_dvd dvd_def)
    with e have "5 * p + y = 5 * q + x \<or> 5 * p + x = 5 * q + y" by auto
    then show "x = y \<or> x = y + 5 \<or> y = x + 5" using five_step assms(1,2) by blast
  next
    assume "x = y \<or> x = y + 5 \<or> y = x + 5"
    with e have "t = 10 * q \<or> t = 10 * q + 10 \<or> t + 10 = 10 * q" by (elim disjE) auto
    then show "t mod 10 = 0" by presburger
  qed
qed

text \<open>
  Adjacent transpositions are detected unless the two digits are equal or differ by five:
  the weights 1 and 3 differ by two.
\<close>

lemma transposition_detected_iff:
  assumes ok: "hasValidCheckDigit (us @ x # y # vs)"
  shows "hasValidCheckDigit (us @ y # x # vs) \<longleftrightarrow> x = y \<or> x = y + 5 \<or> y = x + 5"
proof -
  let ?s = "alt 1 3 (digit_values (us @ x # y # vs))"
  let ?t = "alt 1 3 (digit_values (us @ y # x # vs))"
  have dx: "is_digit x" "is_digit y" and s0: "?s mod 10 = 0" and len: "list_all is_digit (us @ y # x # vs)"
    using ok by (auto simp: hasValidCheckDigit_iff)
  have b: "x - 48 < 10" "y - 48 < 10" using dx by (auto simp: is_digit_def)
  have e: "?t + ((x - 48) + 3 * (y - 48)) = ?s + ((y - 48) + 3 * (x - 48))
           \<or> ?t + (3 * (x - 48) + (y - 48)) = ?s + (3 * (y - 48) + (x - 48))"
    using alt_swap [of 1 3 "digit_values vs" "dig x" "dig y" "digit_values us"]
    by (auto simp: digit_values_def dig_def split: if_splits)
  have "?t mod 10 = 0 \<longleftrightarrow> x - 48 = y - 48 \<or> x - 48 = (y - 48) + 5 \<or> y - 48 = (x - 48) + 5"
    by (rule transposition_mod [OF b s0 e])
  also have "\<dots> \<longleftrightarrow> x = y \<or> x = y + 5 \<or> y = x + 5" using dx by (auto simp: is_digit_def)
  finally show ?thesis using len by (simp add: hasValidCheckDigit_iff)
qed

section \<open>GTIN normalisation\<close>

lemma normalizeToGtin14_Inr:
  "normalizeToGtin14 s = Inr g \<longleftrightarrow>
     length s \<in> set GTIN_LENGTHS \<and> hasValidCheckDigit s \<and> g = pad_start 14 48 s"
  by (auto simp: normalizeToGtin14_def hasValidCheckDigit_def)

lemma gtin14_shape:
  assumes "normalizeToGtin14 s = Inr g"
  shows "digits_n 14 g" and "hasValidCheckDigit g"
proof -
  from assms have l: "length s \<in> {8, 12, 13, 14}" and v: "hasValidCheckDigit s"
    and g: "g = pad_start 14 48 s"
    by (auto simp: normalizeToGtin14_Inr GTIN_LENGTHS_def)
  then show "hasValidCheckDigit g" by (subst g, subst hasValidCheckDigit_pad) auto
  then show "digits_n 14 g" using l g by (auto simp: digits_n_def hasValidCheckDigit_iff)
qed

lemma normalize_gtin14 [simp]:
  "length g = 14 \<Longrightarrow> normalizeToGtin14 g = (if hasValidCheckDigit g then Inr g else Inl (DomainError GTIN_INVALID))"
  by (auto simp: normalizeToGtin14_def hasValidCheckDigit_def GTIN_LENGTHS_def pad_start_def)

lemma isValidGtin_iff: "isValidGtin s \<longleftrightarrow> length s \<in> set GTIN_LENGTHS \<and> hasValidCheckDigit s"
  by (auto simp: isValidGtin_def normalizeToGtin14_Inr split: sum.splits)
    (auto simp: normalizeToGtin14_def hasValidCheckDigit_def split: if_splits)

section \<open>Building and reading an SSCC\<close>

definition sscc_fields_ok :: "int \<Rightarrow> jstring \<Rightarrow> int \<Rightarrow> bool" where
  "sscc_fields_ok e p n \<longleftrightarrow> 0 \<le> e \<and> e \<le> 9 \<and> list_all is_digit p \<and> 4 \<le> length p \<and> length p \<le> 12
     \<and> 0 \<le> n \<and> n < 10 ^ (16 - length p)"

definition sscc_body :: "int \<Rightarrow> jstring \<Rightarrow> int \<Rightarrow> jstring" where
  "sscc_body e p n = (48 + nat e) # p @ pad_start (16 - length p) 48 (dec (nat n))"

lemma length_sscc_serial:
  assumes "0 \<le> n" "n < 10 ^ (16 - length p)" "length p \<le> 12"
  shows "length (pad_start (16 - length p) 48 (dec (nat n))) = 16 - length p"
proof -
  have "nat n < 10 ^ (16 - length p)" using assms(1,2) by (metis nat_less_iff of_nat_numeral of_nat_power)
  moreover have "0 < 16 - length p" using assms(3) by simp
  ultimately show ?thesis using length_dec_le [of "nat n" "16 - length p"] by simp
qed

lemma sscc_body_shape:
  assumes "sscc_fields_ok e p n"
  shows "length (sscc_body e p n) = 17" and "list_all is_digit (sscc_body e p n)"
proof -
  show "length (sscc_body e p n) = 17"
    using assms length_sscc_serial [of n p] by (simp add: sscc_fields_ok_def sscc_body_def)
  have "list_all is_digit (pad_start (16 - length p) 48 (dec (nat n)))"
    by (rule list_all_pad_start [OF _ dec_digits]) (simp add: is_digit_def)
  moreover have "is_digit (48 + nat e)" using assms by (auto simp: sscc_fields_ok_def is_digit_def)
  ultimately show "list_all is_digit (sscc_body e p n)"
    using assms by (simp add: sscc_body_def sscc_fields_ok_def)
qed

lemma gs1CheckDigit_ok:
  assumes "all_digits b"
  shows "\<exists>d < 10. gs1CheckDigit b = Inr d \<and> hasValidCheckDigit (b @ [48 + d])"
proof -
  let ?d = "(10 - gs1_sum b mod 10) mod 10"
  have "gs1CheckDigit b = Inr ?d" using assms by (simp add: gs1CheckDigit_def all_digits_def)
  moreover have "?d < 10" by simp
  ultimately show ?thesis using assms
    by (intro exI [of _ ?d]) (auto simp: hasValidCheckDigit_def all_digits_def is_digit_def Suc_le_eq)
qed

lemma buildSscc_ok:
  assumes ok: "sscc_fields_ok e p n"
  shows "\<exists>d < 10. buildSscc (JInt e) p (JInt n) = Inr (sscc_body e p n @ [48 + d])
           \<and> isValidSscc (sscc_body e p n @ [48 + d])"
proof -
  have dg: "all_digits (sscc_body e p n)"
    using sscc_body_shape [OF ok] by (auto simp: all_digits_def)
  then obtain d where d: "d < 10" "gs1CheckDigit (sscc_body e p n) = Inr d"
      "hasValidCheckDigit (sscc_body e p n @ [48 + d])"
    using gs1CheckDigit_ok by blast
  have "dec (nat e) = [48 + nat e]" using ok by (auto simp: dec.simps [of "nat e"] sscc_fields_ok_def)
  moreover have "dec d = [48 + d]" using d(1) by (simp add: dec.simps [of d])
  ultimately have "buildSscc (JInt e) p (JInt n) = Inr (sscc_body e p n @ [48 + d])"
    using ok d(2) by (auto simp: buildSscc_def sscc_fields_ok_def ssccSerialCapacity_def sscc_body_def Let_def)
  moreover have "isValidSscc (sscc_body e p n @ [48 + d])"
    using d sscc_body_shape [OF ok] by (simp add: isValidSscc_def digits_n_def is_digit_def)
  ultimately show ?thesis using d(1) by blast
qed

lemma buildSscc_InrD:
  assumes "buildSscc e p n = Inr code"
  shows "\<exists>e' n'. e = JInt e' \<and> n = JInt n' \<and> sscc_fields_ok e' p n'"
  using assms
  by (cases e; cases n)
    (auto simp: buildSscc_def ssccSerialCapacity_def sscc_fields_ok_def split: if_splits)

lemma parseSscc_body:
  assumes ok: "sscc_fields_ok e p n" and v: "isValidSscc (sscc_body e p n @ [c])"
  shows "parseSscc (sscc_body e p n @ [c]) (JInt (int (length p)))
           = Inr (Some \<lparr>sscc_extensionDigit = nat e, sscc_gs1Prefix = p, sscc_serial = nat n\<rparr>)"
proof -
  let ?ser = "pad_start (16 - length p) 48 (dec (nat n))"
  have l: "length ?ser = 16 - length p" and b: "4 \<le> length p" "length p \<le> 12"
    using length_sscc_serial [of n p] ok by (auto simp: sscc_fields_ok_def)
  have "slice (Suc (length p)) 17 (sscc_body e p n @ [c]) = ?ser"
    using l by (simp add: slice_def sscc_body_def)
  moreover have "slice 1 (1 + length p) (sscc_body e p n @ [c]) = p"
    by (simp add: slice_def sscc_body_def)
  moreover have "(sscc_body e p n @ [c]) ! 0 = 48 + nat e" by (simp add: sscc_body_def)
  ultimately show ?thesis using v b by (simp add: parseSscc_def)
qed

lemma parseSscc_build:
  assumes v: "isValidSscc code" and k: "4 \<le> k" "k \<le> 12"
  shows "\<exists>r. parseSscc code (JInt k) = Inr (Some r)
           \<and> buildSscc (JInt (int (sscc_extensionDigit r))) (sscc_gs1Prefix r) (JInt (int (sscc_serial r)))
               = Inr code"
proof -
  let ?k = "nat k"
  have len: "length code = 18" and dg: "list_all is_digit code"
    using v by (auto simp: isValidSscc_def digits_n_def)
  then obtain x t where code: "code = x # t" and t: "length t = 17" by (cases code) auto
  define p where "p = take ?k t"
  define ser where "ser = take (16 - ?k) (drop ?k t)"
  have kl: "4 \<le> ?k" "?k \<le> 12" using k by auto
  have t_eq: "t = p @ ser @ [last t]"
  proof -
    have "take 16 t = p @ ser" using kl t by (simp add: p_def ser_def flip: take_add)
    moreover have "t = take 16 t @ [last t]"
      using t by (metis One_nat_def add_diff_cancel_left' append_butlast_last_id butlast_conv_take
          list.size(3) numeral_plus_one semiring_norm(5) zero_neq_numeral plus_1_eq_Suc add.commute)
    ultimately show ?thesis by simp
  qed
  have pl: "length p = ?k" and sl: "length ser = 16 - ?k" using kl t by (auto simp: p_def ser_def)
  have dx: "is_digit x" and dp: "list_all is_digit p" and ds: "list_all is_digit ser" and ser0: "ser \<noteq> []"
    using dg code t_eq sl kl by (auto simp: p_def ser_def list_all_iff dest: in_set_takeD in_set_dropD)
  let ?e = "int (x - 48)" and ?n = "int (num ser)"
  have ok: "sscc_fields_ok ?e p ?n"
    using dx dp kl pl num_bound [OF ds] sl
    by (auto simp: sscc_fields_ok_def is_digit_def simp flip: of_nat_less_iff)
  have body: "sscc_body ?e p ?n = x # p @ ser"
    using dx pad_dec_num [OF ds ser0] sl pl by (auto simp: sscc_body_def is_digit_def)
  then obtain d where d: "d < 10" "buildSscc (JInt ?e) p (JInt ?n) = Inr (x # p @ ser @ [48 + d])"
      "isValidSscc (x # p @ ser @ [48 + d])"
    using buildSscc_ok [OF ok] by auto
  have cd: "code = x # p @ ser @ [last t]" using code t_eq by simp
  have lt: "is_digit (last t)" using dg code t by (metis last_in_set list.pred_set list.set_intros(2)
        list.size(3) zero_neq_numeral)
  have "48 + d = last t"
  proof (rule ccontr)
    assume ne: "48 + d \<noteq> last t"
    have "code[17 := 48 + d] = x # p @ ser @ [48 + d]"
      using cd pl sl kl by (simp add: list_update_append)
    moreover have "code ! 17 = last t" using cd pl sl kl by (simp add: nth_append)
    ultimately have "\<not> hasValidCheckDigit (x # p @ ser @ [48 + d])"
      using single_error_detected [of code 17 "48 + d"] v ne d(1) len
      by (auto simp: isValidSscc_def is_digit_def)
    then show False using d(3) by (simp add: isValidSscc_def)
  qed
  then have "buildSscc (JInt ?e) p (JInt ?n) = Inr code" using d(2) cd by simp
  moreover have "parseSscc code (JInt k)
      = Inr (Some \<lparr>sscc_extensionDigit = x - 48, sscc_gs1Prefix = p, sscc_serial = num ser\<rparr>)"
    using parseSscc_body [OF ok, of "last t"] v k cd body pl by simp
  ultimately show ?thesis by force
qed

section \<open>Scanned SSCC forms\<close>

text \<open>Everything a scanner may put in front of the 18 digits, in the order the code strips it.\<close>

definition sscc_wrappers :: "bool \<Rightarrow> jstring list" where
  "sscc_wrappers legacy =
     [a @ b @ c. a \<leftarrow> [[], lit '']C1''], b \<leftarrow> (if legacy then [[], lit ''!1''] else [[]]),
        c \<leftarrow> [[], lit ''00'', lit ''(00)'']]"

lemma sscc_digits: "isValidSscc s \<Longrightarrow> length s = 18 \<and> list_all is_digit s"
  by (simp add: isValidSscc_def digits_n_def)

lemma sscc_not_prefixed:
  assumes "isValidSscc s"
  shows "\<not> starts_with s (lit '']C1'')" "\<not> starts_with s (lit ''!1'')" "\<not> starts_with s (lit ''(00)'')"
  using sscc_digits [OF assms] by (simp_all add: starts_with_digit lit_def is_digit_def)

definition strip_ai :: "jstring \<Rightarrow> jstring" where
  "strip_ai rest = (if starts_with rest (lit ''(00)'') then drop 4 rest
     else if length rest = 20 \<and> starts_with rest (lit ''00'') then drop 2 rest else rest)"

lemma strip_ai_iff:
  assumes "isValidSscc s"
  shows "strip_ai t = s \<longleftrightarrow> t \<in> {s, lit ''00'' @ s, lit ''(00)'' @ s}"
proof
  assume "strip_ai t = s"
  then show "t \<in> {s, lit ''00'' @ s, lit ''(00)'' @ s}"
    by (auto simp: strip_ai_def starts_with_iff split: if_splits)
next
  have "\<not> starts_with (lit ''00'' @ s) (lit ''(00)'')" by (simp add: starts_with_def lit_def)
  moreover assume "t \<in> {s, lit ''00'' @ s, lit ''(00)'' @ s}"
  ultimately show "strip_ai t = s"
    using sscc_digits [OF assms] sscc_not_prefixed [OF assms] by (auto simp: strip_ai_def)
qed

definition strip_opt :: "jstring \<Rightarrow> jstring \<Rightarrow> jstring" where
  "strip_opt p t = (if starts_with t p then drop (length p) t else t)"

lemma strip_opt_eq: "strip_opt p t = u \<longleftrightarrow> t = p @ u \<or> t = u \<and> \<not> starts_with t p"
  by (auto simp: strip_opt_def starts_with_iff)

lemma parseScannedSscc_strip:
  "parseScannedSscc raw legacy =
     (if (if legacy then 27 else 25) < length raw then None
      else let s = strip_ai (let t = strip_opt (lit '']C1'') raw
                             in if legacy then strip_opt (lit ''!1'') t else t)
           in if isValidSscc s then Some s else None)"
proof -
  have 1: "(if starts_with raw (lit '']C1'') then drop 3 raw else raw) = strip_opt (lit '']C1'') raw"
    by (simp add: strip_opt_def numeral_3_eq_3)
  have 2: "(if legacy \<and> starts_with t (lit ''!1'') then drop 2 t else t)
      = (if legacy then strip_opt (lit ''!1'') t else t)" for t
    by (simp add: strip_opt_def numeral_2_eq_2)
  show ?thesis
    unfolding parseScannedSscc_def
    by (simp only: Let_def 1 2 strip_ai_def [symmetric])
qed

lemma parseScannedSscc_valid: "parseScannedSscc raw b = Some s \<Longrightarrow> isValidSscc s"
  by (auto simp: parseScannedSscc_strip Let_def split: if_splits)

lemma parseScannedSscc_iff:
  "parseScannedSscc raw legacy = Some s \<longleftrightarrow>
     isValidSscc s \<and> (\<exists>w \<in> set (sscc_wrappers legacy). raw = w @ s)"
proof (cases "isValidSscc s")
  case False
  then show ?thesis using parseScannedSscc_valid by blast
next
  case True
  note s = sscc_digits [OF True] sscc_not_prefixed [OF True]
  let ?T = "{s, lit ''00'' @ s, lit ''(00)'' @ s}"
  have np: "\<not> starts_with t (lit '']C1'')" "\<not> starts_with t (lit ''!1'')" if "t \<in> ?T" for t
    using that s by (auto simp: starts_with_def lit_def)
  have nq: "\<not> starts_with (lit ''!1'' @ t) (lit '']C1'')" for t
    by (simp add: starts_with_def lit_def)
  have len: "length t \<le> 22" if "t \<in> ?T" for t using that s by auto
  have "parseScannedSscc raw legacy = Some s \<longleftrightarrow>
      (\<exists>t \<in> ?T. \<exists>u. (u = t \<or> legacy \<and> u = lit ''!1'' @ t) \<and> (raw = u \<or> raw = lit '']C1'' @ u))"
    (is "?L \<longleftrightarrow> ?R")
  proof
    assume ?L
    define t1 where "t1 = strip_opt (lit '']C1'') raw"
    define t2 where "t2 = (if legacy then strip_opt (lit ''!1'') t1 else t1)"
    from \<open>?L\<close> have 3: "strip_ai t2 = s"
      by (auto simp: parseScannedSscc_strip Let_def t1_def t2_def split: if_splits)
    have "t2 \<in> ?T" using 3 strip_ai_iff [OF True] by blast
    moreover have "raw = t1 \<or> raw = lit '']C1'' @ t1"
      using strip_opt_eq [of "lit '']C1''" raw t1] t1_def by blast
    moreover have "t1 = t2 \<or> legacy \<and> t1 = lit ''!1'' @ t2"
      using strip_opt_eq [of "lit ''!1''" t1 t2] t2_def by (cases legacy) auto
    ultimately show ?R by blast
  next
    assume ?R
    then obtain t u where t: "t \<in> ?T" "u = t \<or> legacy \<and> u = lit ''!1'' @ t"
        "raw = u \<or> raw = lit '']C1'' @ u" by blast
    have 1: "strip_opt (lit '']C1'') raw = u"
      using t np nq by (auto simp: strip_opt_eq)
    have 2: "(if legacy then strip_opt (lit ''!1'') u else u) = t"
      using t np by (auto simp: strip_opt_eq)
    have 3: "strip_ai t = s" using t(1) strip_ai_iff [OF True] by blast
    have "\<not> (if legacy then 27 else 25) < length raw"
      using t len [OF t(1)] by auto
    then show ?L using True 1 2 3 by (simp add: parseScannedSscc_strip Let_def)
  qed
  also have "\<dots> \<longleftrightarrow> (\<exists>w \<in> set (sscc_wrappers legacy). raw = w @ s)"
    by (cases legacy) (auto simp: sscc_wrappers_def)
  finally show ?thesis using True by simp
qed

interpretation sscc_machine: scan_codec isValidSscc formatSsccWithAi "\<lambda>raw. parseScannedSscc raw False"
  by unfold_locales
    (auto simp: parseScannedSscc_iff formatSsccWithAi_def isValidSscc_def sscc_wrappers_def)

interpretation sscc_hri: scan_codec isValidSscc formatSsccHri "\<lambda>raw. parseScannedSscc raw False"
  by unfold_locales
    (auto simp: parseScannedSscc_iff formatSsccHri_def isValidSscc_def sscc_wrappers_def digits_n_def)

section \<open>Properties\<close>

text \<open>C40: An SSCC built from an extension digit, a GS1 prefix of 4 to 12 digits and a serial
  within the prefix's capacity is a valid 18-digit SSCC, and reading it back with the same
  prefix length returns exactly the three fields.\<close>

theorem buildSscc_roundtrip:
  assumes "0 \<le> e" "e \<le> 9" "list_all is_digit p" "4 \<le> length p" "length p \<le> 12"
    and "0 \<le> n" "n < 10 ^ (16 - length p)"
  shows "\<exists>code. buildSscc (JInt e) p (JInt n) = Inr code \<and> isValidSscc code
           \<and> parseSscc code (JInt (int (length p)))
               = Inr (Some \<lparr>sscc_extensionDigit = nat e, sscc_gs1Prefix = p, sscc_serial = nat n\<rparr>)"
proof -
  have ok: "sscc_fields_ok e p n" using assms by (simp add: sscc_fields_ok_def)
  obtain d where "buildSscc (JInt e) p (JInt n) = Inr (sscc_body e p n @ [48 + d])"
      "isValidSscc (sscc_body e p n @ [48 + d])"
    using buildSscc_ok [OF ok] by blast
  with parseSscc_body [OF ok] show ?thesis by blast
qed

theorem buildSscc_roundtrip_witness:
  "\<exists>code. buildSscc (JInt 3) (lit ''460702'') (JInt 12345) = Inr code \<and> isValidSscc code
     \<and> parseSscc code (JInt 6)
         = Inr (Some \<lparr>sscc_extensionDigit = 3, sscc_gs1Prefix = lit ''460702'', sscc_serial = 12345\<rparr>)"
  using buildSscc_roundtrip [of 3 "lit ''460702''" 12345]
  by (simp add: lit_def is_digit_def)

text \<open>Conversely, every valid SSCC splits at any prefix length from 4 to 12 into fields from
  which the builder reproduces the same 18 digits, check digit included.\<close>

theorem parseSscc_rebuilds:
  assumes "isValidSscc code" "4 \<le> k" "k \<le> 12"
  shows "\<exists>r. parseSscc code (JInt k) = Inr (Some r)
           \<and> buildSscc (JInt (int (sscc_extensionDigit r))) (sscc_gs1Prefix r) (JInt (int (sscc_serial r)))
               = Inr code"
  using assms by (rule parseSscc_build)

theorem parseSscc_rebuilds_witness:
  "isValidSscc (lit ''346070200000123459'')
   \<and> (\<exists>r. parseSscc (lit ''346070200000123459'') (JInt 7) = Inr (Some r)
        \<and> buildSscc (JInt (int (sscc_extensionDigit r))) (sscc_gs1Prefix r) (JInt (int (sscc_serial r)))
            = Inr (lit ''346070200000123459''))"
proof -
  have v: "isValidSscc (lit ''346070200000123459'')" by code_simp
  show ?thesis using v parseSscc_rebuilds [OF v, of 7] by simp
qed

text \<open>Replacing any one digit of a code that passes the GS1 check by a different digit makes
  it fail, so no single mistyped digit of a GTIN or SSCC goes unnoticed.\<close>

theorem single_digit_error_detected:
  assumes "hasValidCheckDigit code" "i < length code" "is_digit d" "d \<noteq> code ! i"
  shows "\<not> hasValidCheckDigit (code[i := d])"
  using assms by (rule single_error_detected)

theorem single_digit_error_detected_witness:
  "hasValidCheckDigit (lit ''4607028394256'') \<and> \<not> hasValidCheckDigit ((lit ''4607028394256'')[4 := 53])"
proof -
  have v: "hasValidCheckDigit (lit ''4607028394256'')" by code_simp
  show ?thesis using v single_digit_error_detected [OF v, of 4 53] by (simp add: lit_def is_digit_def)
qed

text \<open>Swapping two neighbouring digits of a valid code is noticed except in exactly one case:
  the two digits are equal or differ by five.\<close>

theorem transposition_error_detected:
  assumes "hasValidCheckDigit (us @ x # y # vs)"
  shows "hasValidCheckDigit (us @ y # x # vs) \<longleftrightarrow> x = y \<or> x = y + 5 \<or> y = x + 5"
  using assms by (rule transposition_detected_iff)

theorem transposition_error_detected_witness:
  "\<not> hasValidCheckDigit (lit ''46'' @ 55 # 48 # lit ''028394256'')"
proof -
  have v: "hasValidCheckDigit (lit ''46'' @ 48 # 55 # lit ''028394256'')" by code_simp
  show ?thesis using transposition_error_detected [OF v] by simp
qed

text \<open>GTIN normalisation accepts exactly the 8, 12, 13 and 14 digit codes whose check digit
  holds; the result has 14 digits, keeps a valid check digit, and normalising it again changes
  nothing.\<close>

theorem normalizeToGtin14_correct:
  "(case normalizeToGtin14 s of
      Inl e \<Rightarrow> e = DomainError GTIN_INVALID \<and> \<not> (length s \<in> {8, 12, 13, 14} \<and> hasValidCheckDigit s)
    | Inr g \<Rightarrow> length s \<in> {8, 12, 13, 14} \<and> hasValidCheckDigit s \<and> digits_n 14 g
        \<and> hasValidCheckDigit g \<and> num g = num s \<and> normalizeToGtin14 g = Inr g)"
proof (cases "normalizeToGtin14 s")
  case (Inl e)
  then show ?thesis
    by (auto simp: normalizeToGtin14_def GTIN_LENGTHS_def hasValidCheckDigit_def split: if_splits)
next
  case (Inr g)
  have "length g = 14" using gtin14_shape(1) [OF Inr] by (simp add: digits_n_def)
  then have "normalizeToGtin14 g = Inr g" using gtin14_shape(2) [OF Inr] by simp
  moreover have "length s \<in> {8, 12, 13, 14}" "hasValidCheckDigit s" "num g = num s"
    using Inr by (auto simp: normalizeToGtin14_Inr GTIN_LENGTHS_def)
  ultimately show ?thesis using gtin14_shape [OF Inr] Inr by simp
qed

text \<open>A scan yields an SSCC exactly when it is a valid 18-digit SSCC behind one of the known
  wrappers: an optional AIM identifier, the misprinted \<open>!1\<close> where the caller allows it, and an
  optional application identifier, bare or in parentheses.\<close>

theorem parseScannedSscc_spec:
  "parseScannedSscc raw legacy = Some s \<longleftrightarrow>
     isValidSscc s \<and> (\<exists>w \<in> set (sscc_wrappers legacy). raw = w @ s)"
  by (rule parseScannedSscc_iff)

text \<open>The machine form and the human-readable form of an SSCC are both total on valid SSCCs,
  scan back to the same SSCC, and never confuse two of them.\<close>

theorem sscc_print_forms:
  assumes "isValidSscc s" "isValidSscc t"
  shows "(\<exists>x. formatSsccWithAi s = Inr x \<and> parseScannedSscc x False = Some s)
    \<and> (\<exists>x. formatSsccHri s = Inr x \<and> parseScannedSscc x False = Some s)
    \<and> (formatSsccWithAi s = formatSsccWithAi t \<longrightarrow> s = t)
    \<and> (formatSsccHri s = formatSsccHri t \<longrightarrow> s = t)"
  using sscc_machine.parse_render [OF assms(1)] sscc_hri.parse_render [OF assms(1)]
    sscc_machine.render_inj [OF assms] sscc_hri.render_inj [OF assms] by blast

theorem sscc_print_forms_witness:
  "\<exists>x. formatSsccHri (lit ''346070200000123459'') = Inr x
     \<and> parseScannedSscc x False = Some (lit ''346070200000123459'')"
proof -
  have v: "isValidSscc (lit ''346070200000123459'')" by code_simp
  show ?thesis using sscc_print_forms [OF v v] by blast
qed

end
