(* ===== verification/Km_Codes.thy ===== *)
theory Km_Codes
  imports Gs1_Codes
begin

text \<open>
  The Chestny ZNAK marking code (KM): its structural parser, the keyed parser with the GTIN
  check, the canonical form of a scanner reading, the duplicate-detection identity and the
  eligibility of a code for a duplicate label (\<open>packages/domain/src/gs1/km.ts\<close> and the code
  comparison of \<open>packages/domain/src/product-labels/km.ts\<close>). The digest \<open>sha\<close>, from UTF-8 bytes
  to lower-case hexadecimal, is a parameter: it is computed by a third-party package.
\<close>

section \<open>Model\<close>

definition GS :: nat where
  "GS = 29"

definition MAX_KM_UTF8_BYTES :: nat where
  "MAX_KM_UTF8_BYTES = 1024"

record parsed_km =
  km_gtin14 :: jstring
  km_serial :: jstring
  km_raw :: jstring
  km_ais :: "(jstring \<times> jstring) list"

record km_segments =
  seg_gtin14 :: jstring
  seg_serial :: jstring
  seg_ais :: "(jstring \<times> jstring) list"

text \<open>The loop over the trailing application identifiers.\<close>

function parse_ais :: "jstring \<Rightarrow> (jstring \<times> jstring) list result" where
  "parse_ais rest =
     (if rest = [] then Inr []
      else if starts_with rest [GS] then Inl (DomainError KM_EMPTY_AI)
      else if length rest \<le> 2 then Inl (DomainError KM_BAD_AI)
      else let ai = take 2 rest
           in if \<not> digits_n 2 ai then Inl (DomainError KM_BAD_AI)
              else let fin = index_of GS rest;
                       val = (case fin of None \<Rightarrow> drop 2 rest | Some e \<Rightarrow> slice 2 e rest)
                   in if val = [] then Inl (DomainError KM_EMPTY_AI)
                      else if fin = Some (length rest - 1) then Inl (DomainError KM_EMPTY_AI)
                      else case parse_ais (case fin of None \<Rightarrow> [] | Some e \<Rightarrow> drop (e + 1) rest) of
                             Inl e \<Rightarrow> Inl e
                           | Inr ais \<Rightarrow> Inr ((ai, val) # ais))"
  by pat_completeness auto
termination
  by (relation "measure length") (auto split: option.splits)

declare parse_ais.simps [simp del]

lemma parse_ais_Nil [simp]: "parse_ais [] = Inr []"
  by (simp add: parse_ais.simps)

definition parseKmSegments :: "jstring \<Rightarrow> km_segments result" where
  "parseKmSegments raw =
     (if length raw = 0 then Inl (DomainError KM_EMPTY)
      else let s = (if starts_with raw (lit '']d2'') then drop 3 raw else raw)
           in if \<not> starts_with s (lit ''01'') then Inl (DomainError KM_NO_GTIN)
              else let gtin14 = slice 2 16 s
                   in if \<not> digits_n 14 gtin14 then Inl (DomainError KM_BAD_GTIN)
                      else let s = drop 16 s
                           in if \<not> starts_with s (lit ''21'') then Inl (DomainError KM_NO_SERIAL)
                              else let gsAt = index_of GS s;
                                       serial = (case gsAt of None \<Rightarrow> drop 2 s | Some g \<Rightarrow> slice 2 g s)
                                   in if serial = [] then Inl (DomainError KM_NO_SERIAL)
                                      else let rest = (case gsAt of None \<Rightarrow> [] | Some g \<Rightarrow> drop (g + 1) s)
                                           in if gsAt \<noteq> None \<and> rest = [] then Inl (DomainError KM_EMPTY_AI)
                                              else case parse_ais rest of
                                                     Inl e \<Rightarrow> Inl e
                                                   | Inr ais \<Rightarrow>
                                                       Inr \<lparr>seg_gtin14 = gtin14, seg_serial = serial,
                                                            seg_ais = ais\<rparr>)"

text \<open>The ordered pairs folded into a record keyed by identifier.\<close>

fun collect_ais :: "(jstring \<times> jstring) list \<Rightarrow> (jstring \<times> jstring) list
    \<Rightarrow> (jstring \<times> jstring) list result" where
  "collect_ais acc [] = Inr acc"
| "collect_ais acc ((ai, val) # rest) =
     (if ai \<in> fst ` set acc then Inl (DomainError KM_DUPLICATE_AI)
      else collect_ais (acc @ [(ai, val)]) rest)"

definition parseKm :: "jstring \<Rightarrow> parsed_km result" where
  "parseKm raw =
     (case parseKmSegments raw of
        Inl e \<Rightarrow> Inl e
      | Inr segments \<Rightarrow>
          (case normalizeToGtin14 (seg_gtin14 segments) of
             Inl e \<Rightarrow> Inl e
           | Inr gtin14 \<Rightarrow>
               (case collect_ais [] (seg_ais segments) of
                  Inl e \<Rightarrow> Inl e
                | Inr ais \<Rightarrow> Inr \<lparr>km_gtin14 = gtin14, km_serial = seg_serial segments,
                                 km_raw = raw, km_ais = ais\<rparr>)))"

definition kmKey :: "parsed_km \<Rightarrow> jstring" where
  "kmKey km = lit ''01'' @ km_gtin14 km @ lit ''21'' @ km_serial km"

definition kmHash :: "(nat list \<Rightarrow> jstring) \<Rightarrow> parsed_km \<Rightarrow> jstring" where
  "kmHash sha km = sha (utf8 (kmKey km))"

text \<open>Edge transport white space: blanks and tabs only.\<close>

definition blank :: "nat \<Rightarrow> bool" where
  "blank c \<longleftrightarrow> c = 32 \<or> c = 9"

text \<open>The loop over the code units: surrogates must pair, control characters other than the
  group separator are refused.\<close>

fun check_units :: "jstring \<Rightarrow> unit result" where
  "check_units [] = Inr ()"
| "check_units (c # s) =
     (if high_surrogate c then
        (case s of
           [] \<Rightarrow> Inl (DomainError KM_BAD_ENCODING)
         | d # t \<Rightarrow> if \<not> low_surrogate d then Inl (DomainError KM_BAD_ENCODING) else check_units t)
      else if low_surrogate c then Inl (DomainError KM_BAD_ENCODING)
      else if c < 32 \<and> c \<noteq> GS \<or> c = 127 then Inl (DomainError KM_BAD_CONTROL)
      else check_units s)"

definition canonical_raw :: "jstring \<Rightarrow> jstring" where
  "canonical_raw raw =
     (let canonicalRaw = strip blank raw;
          canonicalRaw = (if starts_with canonicalRaw (lit '']d2'') then drop 3 canonicalRaw
                          else canonicalRaw)
      in strip blank canonicalRaw)"

definition canonicalizeKm :: "jstring \<Rightarrow> parsed_km result" where
  "canonicalizeKm raw =
     (let canonicalRaw = canonical_raw raw
      in if 65533 \<in> set canonicalRaw then Inl (DomainError KM_BAD_ENCODING)
         else case check_units canonicalRaw of
                Inl e \<Rightarrow> Inl e
              | Inr _ \<Rightarrow>
                  if MAX_KM_UTF8_BYTES < length (utf8 canonicalRaw) then Inl (DomainError KM_TOO_LONG)
                  else parseKm canonicalRaw)"

subsection \<open>Codes eligible for a duplicate label\<close>

definition ai_present :: "parsed_km \<Rightarrow> jstring \<Rightarrow> bool" where
  "ai_present km ai = (case map_of (km_ais km) ai of None \<Rightarrow> False | Some v \<Rightarrow> v \<noteq> [])"

definition parseDuplicateKm :: "jstring \<Rightarrow> parsed_km result" where
  "parseDuplicateKm raw =
     (case canonicalizeKm raw of
        Inl e \<Rightarrow> Inl e
      | Inr km \<Rightarrow>
          if \<not> (ai_present km (lit ''93'') \<or> ai_present km (lit ''91'') \<and> ai_present km (lit ''92''))
          then Inl (DomainError KM_REPRINT_INCOMPLETE) else Inr km)"

datatype comparison = Match | Mismatch | Invalid

definition compareDuplicateKm :: "jstring \<Rightarrow> jstring \<Rightarrow> comparison result" where
  "compareDuplicateKm expected scanned =
     (case parseDuplicateKm expected of
        Inl e \<Rightarrow> Inl e
      | Inr canonicalExpected \<Rightarrow>
          (case parseDuplicateKm scanned of
             Inr km \<Rightarrow> Inr (if km_raw km = km_raw canonicalExpected then Match else Mismatch)
           | Inl (DomainError c) \<Rightarrow> Inr Invalid
           | Inl e \<Rightarrow> Inl e))"

definition productLabelBytesDigest :: "(nat list \<Rightarrow> jstring) \<Rightarrow> nat list \<Rightarrow> jstring" where
  "productLabelBytesDigest sha bytes = sha bytes"

definition duplicatePayloadDigest :: "(nat list \<Rightarrow> jstring) \<Rightarrow> jstring \<Rightarrow> jstring result" where
  "duplicatePayloadDigest sha raw =
     (case parseDuplicateKm raw of
        Inl e \<Rightarrow> Inl e | Inr km \<Rightarrow> Inr (productLabelBytesDigest sha (utf8 (km_raw km))))"

section \<open>The wire format, written from its parts\<close>

definition ais_text :: "(jstring \<times> jstring) list \<Rightarrow> jstring" where
  "ais_text ais = concat (map (\<lambda>(ai, val). GS # ai @ val) ais)"

definition km_text :: "km_segments \<Rightarrow> jstring" where
  "km_text g = lit ''01'' @ seg_gtin14 g @ lit ''21'' @ seg_serial g @ ais_text (seg_ais g)"

definition wf_ai :: "jstring \<times> jstring \<Rightarrow> bool" where
  "wf_ai p \<longleftrightarrow> digits_n 2 (fst p) \<and> snd p \<noteq> [] \<and> GS \<notin> set (snd p)"

definition wf_segments :: "km_segments \<Rightarrow> bool" where
  "wf_segments g \<longleftrightarrow> digits_n 14 (seg_gtin14 g) \<and> seg_serial g \<noteq> [] \<and> GS \<notin> set (seg_serial g)
     \<and> list_all wf_ai (seg_ais g)"

lemma ais_text_simps [simp]:
  "ais_text [] = []" "ais_text (p # ps) = GS # fst p @ snd p @ ais_text ps"
  by (auto simp: ais_text_def split: prod.splits)

lemma digits_no_GS: "list_all is_digit s \<Longrightarrow> GS \<notin> set s"
  by (auto simp: list_all_iff is_digit_def GS_def)

lemma ais_text_cases: "ais = [] \<and> ais_text ais = [] \<or> (\<exists>t. t \<noteq> [] \<and> ais_text ais = GS # t)"
  if "list_all wf_ai ais"
  using that by (cases ais) (auto simp: wf_ai_def)

lemma index_of_ais:
  assumes "GS \<notin> set s" "list_all wf_ai ais"
  shows "index_of GS (s @ ais_text ais) = (if ais = [] then None else Some (length s))"
  using assms ais_text_cases [OF assms(2)] index_of_append [OF assms(1)] by (auto simp: index_of_None)

lemma parse_ais_text:
  "list_all wf_ai ais \<Longrightarrow> parse_ais (drop 1 (ais_text ais)) = Inr ais"
proof (induction ais)
  case Nil
  then show ?case by (simp add: parse_ais.simps)
next
  case (Cons p ais)
  then have wf: "list_all wf_ai ais" and "wf_ai p" by simp_all
  then have ai: "length (fst p) = 2" "list_all is_digit (fst p)" and v: "snd p \<noteq> []" "GS \<notin> set (snd p)"
    by (simp_all add: wf_ai_def digits_n_def)
  let ?s = "fst p @ snd p"
  let ?rest = "?s @ ais_text ais"
  have ng: "GS \<notin> set ?s" using digits_no_GS [OF ai(2)] v by simp
  then have st: "\<not> starts_with ?rest [GS]" using ai(1) by (cases "fst p") (auto simp: starts_with_def)
  have ix: "index_of GS ?rest = (if ais = [] then None else Some (length ?s))"
    using index_of_ais [OF ng wf] by simp
  have lst: "ais \<noteq> [] \<Longrightarrow> length ?s \<noteq> length ?rest - 1"
    using ais_text_cases [OF wf] by auto
  have "drop (Suc (length ?s)) ?rest = drop 1 (ais_text ais)" by simp
  moreover have "take 2 ?rest = fst p" "2 < length ?rest" using ai(1) v by (auto simp: take_Suc_conv_app_nth neq_Nil_conv)
  moreover have "drop 2 ?s = snd p" using ai(1) by simp
  moreover have "slice 2 (length ?s) ?rest = snd p" using ai(1) by (simp add: slice_def)
  ultimately have "parse_ais ?rest = Inr (p # ais)"
    using ai v st ix lst Cons.IH [OF wf] parse_ais.simps [of "[]"]
    by (subst parse_ais.simps) (auto simp: digits_n_def Let_def)
  then show ?case by simp
qed

lemma parse_ais_wf:
  "parse_ais rest = Inr ais \<Longrightarrow> list_all wf_ai ais \<and> rest = drop 1 (ais_text ais)"
proof (induction rest arbitrary: ais rule: parse_ais.induct)
  case (1 rest)
  show ?case
  proof (cases "rest = []")
    case True
    then show ?thesis using "1.prems" by (simp add: parse_ais.simps)
  next
    case False
    let ?ai = "take 2 rest" and ?fin = "index_of GS rest"
    let ?val = "case ?fin of None \<Rightarrow> drop 2 rest | Some e \<Rightarrow> slice 2 e rest"
    let ?next = "case ?fin of None \<Rightarrow> [] | Some e \<Rightarrow> drop (e + 1) rest"
    from "1.prems" False have g: "\<not> starts_with rest [GS]" "\<not> length rest \<le> 2" "digits_n 2 ?ai"
        "?val \<noteq> []" "?fin \<noteq> Some (length rest - 1)"
      and "\<exists>ais'. parse_ais ?next = Inr ais' \<and> ais = (?ai, ?val) # ais'"
      by (subst (asm) parse_ais.simps, auto simp: Let_def split: if_splits sum.splits)+
    then obtain ais' where n: "parse_ais ?next = Inr ais'" and a: "ais = (?ai, ?val) # ais'" by blast
    have IH: "list_all wf_ai ais' \<and> ?next = drop 1 (ais_text ais')"
      by (rule "1.IH" [OF False g(1,2) refl _ refl refl g(4,5) n]) (use g(3) in blast)
    show ?thesis
    proof (cases ?fin)
      case None
      then have ng: "GS \<notin> set rest" by (simp add: index_of_None)
      have "ais' = []" using n None by simp
      moreover have "GS \<notin> set (drop 2 rest)" using ng by (meson in_set_dropD)
      ultimately show ?thesis using a g IH None by (simp add: wf_ai_def)
    next
      case (Some e)
      note sp = index_of_SomeD [OF Some] index_of_split [OF Some]
      have e2: "2 \<le> e"
      proof (rule ccontr)
        assume "\<not> 2 \<le> e"
        then have "GS \<in> set ?ai" using sp by (auto simp: in_set_conv_nth intro!: exI [of _ e])
        then show False using digits_no_GS g(3) by (auto simp: digits_n_def)
      qed
      have val: "?ai @ ?val = take e rest"
        using e2 Some by (simp add: slice_def) (metis le_add_diff_inverse take_add)
      have ng: "GS \<notin> set ?val" using sp(1) val by (metis Un_iff set_append)
      have e_lt: "Suc e < length rest" using sp(1) g(5) Some by auto
      then have nx: "drop (Suc e) rest \<noteq> []" by simp
      have "ais_text ais' = GS # drop (Suc e) rest"
        using IH Some nx ais_text_cases [of ais'] by auto
      then have "rest = ?ai @ ?val @ ais_text ais'"
        using val sp(2) by (metis append_assoc)
      moreover have "drop 1 (ais_text ais) = ?ai @ ?val @ ais_text ais'" by (simp add: a)
      moreover have "list_all wf_ai ais" using g ng IH by (simp add: a wf_ai_def)
      ultimately show ?thesis by metis
    qed
  qed
qed

lemma parse_ais_iff:
  "parse_ais rest = Inr ais \<longleftrightarrow> list_all wf_ai ais \<and> rest = drop 1 (ais_text ais)"
  using parse_ais_text parse_ais_wf by blast

lemma parseKmSegments_body:
  "(let gsAt = index_of GS s; serial = (case gsAt of None \<Rightarrow> drop 2 s | Some g \<Rightarrow> slice 2 g s);
        rest = (case gsAt of None \<Rightarrow> [] | Some g \<Rightarrow> drop (g + 1) s)
    in starts_with s (lit ''21'') \<and> serial = ser \<and> ser \<noteq> [] \<and> \<not> (gsAt \<noteq> None \<and> rest = [])
       \<and> parse_ais rest = Inr ais)
   \<longleftrightarrow> ser \<noteq> [] \<and> GS \<notin> set ser \<and> list_all wf_ai ais \<and> s = lit ''21'' @ ser @ ais_text ais"
  (is "?L \<longleftrightarrow> ?R")
proof
  assume L: ?L
  then obtain u where u: "s = lit ''21'' @ u" by (auto simp: starts_with_iff Let_def)
  show ?R
  proof (cases "index_of GS s")
    case None
    then have "ais = []" using L by (simp add: Let_def)
    moreover have "GS \<notin> set s" using None by (simp add: index_of_None)
    moreover have "ser = u" using L None u by (simp add: Let_def numeral_2_eq_2)
    ultimately show ?thesis using L u by (auto simp: Let_def)
  next
    case (Some g)
    note sp = index_of_SomeD [OF Some] index_of_split [OF Some]
    have g2: "2 \<le> g"
    proof (rule ccontr)
      assume "\<not> 2 \<le> g"
      then have "s ! g \<in> {50, 49}" using u by (auto simp: lit_def not_le less_Suc_eq numeral_2_eq_2)
      then show False using sp by (auto simp: GS_def)
    qed
    have tk: "take g s = lit ''21'' @ ser"
    proof -
      have "take g s = take 2 s @ take (g - 2) (drop 2 s)" using g2 by (metis le_add_diff_inverse take_add)
      moreover have "take 2 s = lit ''21''" using u by (simp add: lit_def)
      ultimately show ?thesis using L Some by (simp add: Let_def slice_def)
    qed
    have ng: "GS \<notin> set ser" using sp(1) tk by auto
    have p: "list_all wf_ai ais" "drop (Suc g) s = drop 1 (ais_text ais)" "drop (Suc g) s \<noteq> []"
      using L Some by (auto simp: Let_def parse_ais_iff)
    then have "ais_text ais = GS # drop (Suc g) s" using ais_text_cases [OF p(1)] by auto
    then show ?thesis using L Some ng p tk sp(2) by (auto simp: Let_def)
  qed
next
  assume R: ?R
  let ?h = "lit ''21'' @ ser"
  have ng: "GS \<notin> set ?h" using R by (auto simp: lit_def GS_def)
  have ix: "index_of GS s = (if ais = [] then None else Some (length ?h))"
    using index_of_ais [OF ng] R by simp
  have rest: "(case index_of GS s of None \<Rightarrow> [] | Some g \<Rightarrow> drop (g + 1) s) = drop 1 (ais_text ais)"
    using R ix by (auto split: if_splits)
  have ser: "(case index_of GS s of None \<Rightarrow> drop 2 s | Some g \<Rightarrow> slice 2 g s) = ser"
    using R ix by (auto simp: slice_def numeral_2_eq_2 split: if_splits)
  have ne: "\<not> (index_of GS s \<noteq> None \<and> drop 1 (ais_text ais) = [])"
    using ix R ais_text_cases [of ais] by auto
  have "starts_with s (lit ''21'')" using R by simp
  moreover have "parse_ais (drop 1 (ais_text ais)) = Inr ais" using R parse_ais_text by blast
  ultimately show ?L unfolding Let_def rest ser using R ne by blast
qed

lemma parseKmSegments_iff:
  "parseKmSegments raw = Inr g \<longleftrightarrow>
     wf_segments g \<and> (raw = km_text g \<or> raw = lit '']d2'' @ km_text g)"
proof -
  define s where "s = (if starts_with raw (lit '']d2'') then drop 3 raw else raw)"
  let ?s2 = "drop 16 s"
  have nd: "\<not> starts_with (km_text g) (lit '']d2'')" by (simp add: km_text_def starts_with_def lit_def)
  have raw: "raw = km_text g \<or> raw = lit '']d2'' @ km_text g \<longleftrightarrow> s = km_text g"
  proof (cases "starts_with raw (lit '']d2'')")
    case True
    then obtain t where t: "raw = lit '']d2'' @ t" by (auto simp: starts_with_iff)
    then have "s = t" using True by (simp add: s_def numeral_3_eq_3)
    moreover have "raw \<noteq> km_text g" using True nd by blast
    ultimately show ?thesis using t by simp
  next
    case False
    then show ?thesis by (auto simp: s_def)
  qed
  have s_iff: "s = km_text g \<longleftrightarrow> starts_with s (lit ''01'') \<and> slice 2 16 s = seg_gtin14 g
      \<and> ?s2 = lit ''21'' @ seg_serial g @ ais_text (seg_ais g)"
    if "digits_n 14 (seg_gtin14 g)"
  proof
    assume "s = km_text g"
    then show "starts_with s (lit ''01'') \<and> slice 2 16 s = seg_gtin14 g
      \<and> ?s2 = lit ''21'' @ seg_serial g @ ais_text (seg_ais g)"
      using that by (simp add: km_text_def slice_def digits_n_def lit_def starts_with_def)
  next
    assume a: "starts_with s (lit ''01'') \<and> slice 2 16 s = seg_gtin14 g
      \<and> ?s2 = lit ''21'' @ seg_serial g @ ais_text (seg_ais g)"
    have "s = take 2 s @ take 14 (drop 2 s) @ drop 16 s"
      using take_add [of 2 14 s] append_take_drop_id [of 16 s] by simp
    then show "s = km_text g" using a by (simp add: km_text_def slice_def starts_with_def numeral_2_eq_2)
  qed
  have "parseKmSegments raw = Inr g \<longleftrightarrow>
      raw \<noteq> [] \<and> starts_with s (lit ''01'') \<and> slice 2 16 s = seg_gtin14 g \<and> digits_n 14 (seg_gtin14 g)
      \<and> (let gsAt = index_of GS ?s2; serial = (case gsAt of None \<Rightarrow> drop 2 ?s2 | Some g \<Rightarrow> slice 2 g ?s2);
            rest = (case gsAt of None \<Rightarrow> [] | Some g \<Rightarrow> drop (g + 1) ?s2)
         in starts_with ?s2 (lit ''21'') \<and> serial = seg_serial g \<and> seg_serial g \<noteq> []
            \<and> \<not> (gsAt \<noteq> None \<and> rest = []) \<and> parse_ais rest = Inr (seg_ais g))"
    unfolding parseKmSegments_def s_def [symmetric]
    by (cases g) (auto simp: Let_def s_def [symmetric] split: sum.splits)
  also have "\<dots> \<longleftrightarrow> raw \<noteq> [] \<and> wf_segments g \<and> s = km_text g"
    unfolding parseKmSegments_body wf_segments_def using s_iff by blast
  also have "\<dots> \<longleftrightarrow> wf_segments g \<and> s = km_text g"
    by (auto simp: s_def km_text_def lit_def)
  finally show ?thesis using raw by blast
qed

section \<open>The keyed parser and the canonical form\<close>

lemma collect_ais_iff:
  "collect_ais acc ais = Inr r \<longleftrightarrow>
     r = acc @ ais \<and> distinct (map fst ais) \<and> fst ` set ais \<inter> fst ` set acc = {}"
  by (induction acc ais rule: collect_ais.induct) auto

lemma collect_ais_Inl: "collect_ais acc ais = Inl e \<Longrightarrow> e = DomainError KM_DUPLICATE_AI"
  by (induction acc ais rule: collect_ais.induct) (auto split: if_splits)

definition km_segs :: "parsed_km \<Rightarrow> km_segments" where
  "km_segs km = \<lparr>seg_gtin14 = km_gtin14 km, seg_serial = km_serial km, seg_ais = km_ais km\<rparr>"

lemma parseKm_iff:
  "parseKm raw = Inr km \<longleftrightarrow>
     wf_segments (km_segs km) \<and> hasValidCheckDigit (km_gtin14 km) \<and> distinct (map fst (km_ais km))
     \<and> km_raw km = raw \<and> (raw = km_text (km_segs km) \<or> raw = lit '']d2'' @ km_text (km_segs km))"
proof -
  have "parseKm raw = Inr km \<longleftrightarrow>
      (\<exists>g. parseKmSegments raw = Inr g \<and> normalizeToGtin14 (seg_gtin14 g) = Inr (km_gtin14 km)
         \<and> collect_ais [] (seg_ais g) = Inr (km_ais km) \<and> seg_serial g = km_serial km \<and> km_raw km = raw)"
    by (cases km) (auto simp: parseKm_def split: sum.splits)
  also have "\<dots> \<longleftrightarrow> (\<exists>g. parseKmSegments raw = Inr g \<and> g = km_segs km
      \<and> hasValidCheckDigit (km_gtin14 km) \<and> distinct (map fst (km_ais km)) \<and> km_raw km = raw)"
  proof (rule ex_cong1, rule conj_cong [OF refl])
    fix g assume "parseKmSegments raw = Inr g"
    then have "length (seg_gtin14 g) = 14" by (simp add: parseKmSegments_iff wf_segments_def digits_n_def)
    then show "normalizeToGtin14 (seg_gtin14 g) = Inr (km_gtin14 km)
         \<and> collect_ais [] (seg_ais g) = Inr (km_ais km) \<and> seg_serial g = km_serial km \<and> km_raw km = raw
       \<longleftrightarrow> g = km_segs km \<and> hasValidCheckDigit (km_gtin14 km) \<and> distinct (map fst (km_ais km)) \<and> km_raw km = raw"
      by (cases g) (auto simp: collect_ais_iff km_segs_def)
  qed
  finally show ?thesis by (auto simp: parseKmSegments_iff)
qed

lemma strip_idem [simp]: "strip p (strip p s) = strip p s"
proof -
  let ?t = "dropWhile p s"
  have 1: "strip p s = rev (dropWhile p (rev ?t))" by (simp add: strip_def)
  have "dropWhile p (strip p s) = strip p s"
  proof (cases "strip p s")
    case Nil
    then show ?thesis by simp
  next
    case (Cons c r)
    have "\<exists>w. rev ?t = w @ dropWhile p (rev ?t)" by (metis takeWhile_dropWhile_id)
    then obtain w where "?t = strip p s @ rev w" unfolding 1 by (metis rev_append rev_rev_ident)
    then have "hd ?t = c" "?t \<noteq> []" using Cons by auto
    then have "\<not> p c" using hd_dropWhile by blast
    then show ?thesis using Cons by simp
  qed
  then have "strip p (strip p s) = rev (dropWhile p (rev (strip p s)))" by (simp add: strip_def)
  also have "\<dots> = strip p s" by (simp add: 1 dropWhile_idem)
  finally show ?thesis .
qed

lemma canonical_raw_fixed:
  assumes "\<not> starts_with (canonical_raw raw) (lit '']d2'')"
  shows "canonical_raw (canonical_raw raw) = canonical_raw raw"
proof -
  have s: "strip blank (canonical_raw raw) = canonical_raw raw"
    by (simp add: canonical_raw_def Let_def)
  show ?thesis
    using assms by (subst canonical_raw_def) (simp add: Let_def s)
qed

lemma canonicalizeKm_Inr:
  "canonicalizeKm raw = Inr km \<longleftrightarrow>
     65533 \<notin> set (canonical_raw raw) \<and> is_ok (check_units (canonical_raw raw))
     \<and> length (utf8 (canonical_raw raw)) \<le> MAX_KM_UTF8_BYTES \<and> parseKm (canonical_raw raw) = Inr km"
  by (auto simp: canonicalizeKm_def Let_def split: sum.splits)

lemma canonicalizeKm_raw: "canonicalizeKm raw = Inr km \<Longrightarrow> km_raw km = canonical_raw raw"
  by (auto simp: canonicalizeKm_Inr parseKm_iff)

lemma kmKey_eq_iff:
  assumes "length (km_gtin14 a) = length (km_gtin14 b)"
  shows "kmKey a = kmKey b \<longleftrightarrow> km_gtin14 a = km_gtin14 b \<and> km_serial a = km_serial b"
  using assms by (auto simp: kmKey_def)

lemma parseKm_gtin_length: "parseKm raw = Inr km \<Longrightarrow> length (km_gtin14 km) = 14"
  by (simp add: parseKm_iff wf_segments_def km_segs_def digits_n_def)

lemma canonicalizeKm_gtin_length: "canonicalizeKm raw = Inr km \<Longrightarrow> length (km_gtin14 km) = 14"
  by (auto simp: canonicalizeKm_Inr parseKm_gtin_length)

lemma errors_are_domain:
  "parse_ais s = Inl e \<Longrightarrow> \<exists>c. e = DomainError c"
proof (induction s rule: parse_ais.induct)
  case (1 rest)
  then show ?case
    by (subst (asm) (2) parse_ais.simps) (auto simp: Let_def split: if_splits sum.splits)
qed

lemma check_units_Inl: "check_units s = Inl e \<Longrightarrow> \<exists>c. e = DomainError c"
  by (induction s rule: check_units.induct) (auto split: if_splits list.splits)

lemma canonicalizeKm_Inl:
  assumes "canonicalizeKm raw = Inl e"
  shows "\<exists>c. e = DomainError c"
proof -
  have "parseKmSegments s = Inl e \<Longrightarrow> \<exists>c. e = DomainError c" for s
    by (auto simp: parseKmSegments_def Let_def errors_are_domain split: if_splits sum.splits)
  then have "parseKm s = Inl e \<Longrightarrow> \<exists>c. e = DomainError c" for s
    by (auto simp: parseKm_def normalizeToGtin14_def dest: collect_ais_Inl split: if_splits sum.splits)
  then show ?thesis using assms
    by (auto simp: canonicalizeKm_def Let_def check_units_Inl split: if_splits sum.splits)
qed

lemma parseDuplicateKm_Inl: "parseDuplicateKm raw = Inl e \<Longrightarrow> \<exists>c. e = DomainError c"
  by (auto simp: parseDuplicateKm_def canonicalizeKm_Inl split: if_splits sum.splits)

lemma strip_fixed:
  assumes "x \<noteq> []" "\<not> p (hd x)" "\<not> p (last x)" "list_all p a" "list_all p d"
  shows "strip p (a @ x @ d) = x"
proof -
  obtain c r where x: "x = c # r" using assms(1) by (cases x) auto
  obtain r' c' where x': "x = r' @ [c']" using assms(1) by (cases x rule: rev_cases) auto
  have "dropWhile p (a @ x @ d) = x @ d"
    using assms by (subst dropWhile_append2) (auto simp: x list_all_iff)
  moreover have "dropWhile p (rev d @ rev x) = rev x"
    using assms by (subst dropWhile_append2) (auto simp: x' list_all_iff)
  ultimately show ?thesis by (simp add: strip_def)
qed

lemma strip_ends:
  assumes "strip p x = x" "x \<noteq> []"
  shows "\<not> p (last x)"
proof -
  have ne: "dropWhile p (rev (dropWhile p x)) \<noteq> []" using assms by (metis rev.simps(1) strip_def)
  then have "\<not> p (hd (dropWhile p (rev (dropWhile p x))))" by (rule hd_dropWhile)
  moreover have "last x = hd (dropWhile p (rev (dropWhile p x)))"
    using assms(1) by (metis hd_rev rev_rev_ident strip_def)
  ultimately show ?thesis by simp
qed

lemma canonical_raw_wrapped:
  assumes c: "strip blank c = c" "c \<noteq> []" "\<not> blank (hd c)" "\<not> starts_with c (lit '']d2'')"
    and w: "list_all blank a" "list_all blank b" "list_all blank d" "p = [] \<or> p = lit '']d2''"
  shows "canonical_raw (a @ p @ b @ c @ d) = c"
proof -
  have l: "\<not> blank (last c)" using strip_ends c by blast
  from w(4) show ?thesis
  proof
    assume p: "p = []"
    have "strip blank ((a @ b) @ c @ d) = c"
      using c l w by (intro strip_fixed) auto
    then show ?thesis using c p by (simp add: canonical_raw_def)
  next
    assume p: "p = lit '']d2''"
    have "strip blank (a @ (p @ b @ c) @ d) = p @ b @ c"
      using c l w p by (intro strip_fixed) (auto simp: lit_def blank_def)
    moreover have "strip blank (b @ c @ []) = c"
      using c l w by (intro strip_fixed) auto
    ultimately show ?thesis using p by (simp add: canonical_raw_def numeral_3_eq_3)
  qed
qed

lemma parseKm_hd: "parseKm raw = Inr km \<Longrightarrow> raw \<noteq> [] \<and> (hd raw = 48 \<or> hd raw = 93)"
  by (auto simp: parseKm_iff km_text_def lit_def)

lemma check_units_chars:
  "is_ok (check_units s) \<Longrightarrow> c \<in> set s \<Longrightarrow> (32 \<le> c \<or> c = GS) \<and> c \<noteq> 127"
  by (induction s rule: check_units.induct)
    (auto simp: high_surrogate_def low_surrogate_def split: if_splits list.splits)

text \<open>A concrete code, with and without its crypto tail, for evaluations.\<close>

definition sample_segs :: "(jstring \<times> jstring) list \<Rightarrow> km_segments" where
  "sample_segs ais = \<lparr>seg_gtin14 = lit ''04607028394256'', seg_serial = lit ''ABC'', seg_ais = ais\<rparr>"

definition sample_tail :: "(jstring \<times> jstring) list" where
  "sample_tail = [(lit ''93'', lit ''Zj1q'')]"

definition km_sample :: jstring where
  "km_sample = km_text (sample_segs sample_tail)"

definition km_of :: "km_segments \<Rightarrow> jstring \<Rightarrow> parsed_km" where
  "km_of g raw = \<lparr>km_gtin14 = seg_gtin14 g, km_serial = seg_serial g, km_raw = raw, km_ais = seg_ais g\<rparr>"

lemma km_of_sel [simp]:
  "km_gtin14 (km_of g r) = seg_gtin14 g" "km_serial (km_of g r) = seg_serial g"
  "km_raw (km_of g r) = r" "km_ais (km_of g r) = seg_ais g" "km_segs (km_of g r) = g"
  by (simp_all add: km_of_def km_segs_def)

lemma canonicalizeKm_text:
  assumes "wf_segments g" "hasValidCheckDigit (seg_gtin14 g)" "distinct (map fst (seg_ais g))"
    and "canonical_raw raw = c" "c = km_text g \<or> c = lit '']d2'' @ km_text g"
    and "65533 \<notin> set c" "is_ok (check_units c)" "length (utf8 c) \<le> MAX_KM_UTF8_BYTES"
  shows "canonicalizeKm raw = Inr (km_of g c)"
  using assms by (simp add: canonicalizeKm_Inr parseKm_iff)

lemma sample_wf:
  "wf_segments (sample_segs [])" "wf_segments (sample_segs sample_tail)"
  by (simp_all add: wf_segments_def sample_segs_def sample_tail_def wf_ai_def digits_n_def lit_def
      is_digit_def GS_def)

lemma sample_gtin: "hasValidCheckDigit (seg_gtin14 (sample_segs ais))"
proof -
  have "hasValidCheckDigit (lit ''04607028394256'')" by code_simp
  then show ?thesis by (simp add: sample_segs_def)
qed

lemmas sample_eval = km_sample_def km_text_def sample_segs_def sample_tail_def lit_def
  canonical_raw_def strip_def blank_def starts_with_def GS_def high_surrogate_def low_surrogate_def
  utf8_def utf8_point_def MAX_KM_UTF8_BYTES_def

lemma sample_canonical:
  "canonicalizeKm km_sample = Inr (km_of (sample_segs sample_tail) km_sample)"
  "canonicalizeKm (km_text (sample_segs [])) = Inr (km_of (sample_segs []) (km_text (sample_segs [])))"
  "canonicalizeKm (lit '']d2'' @ km_sample) = Inr (km_of (sample_segs sample_tail) km_sample)"
  "canonicalizeKm (lit '']d2'' @ lit '']d2'' @ km_sample)
     = Inr (km_of (sample_segs sample_tail) (lit '']d2'' @ km_sample))"
  by (rule canonicalizeKm_text [OF sample_wf(2) sample_gtin] canonicalizeKm_text [OF sample_wf(1) sample_gtin];
      simp add: sample_eval)+

section \<open>Properties\<close>

text \<open>C38: The structural parser accepts exactly the wire format. It returns the parts \<open>g\<close> if and
  only if \<open>g\<close> is well formed (a 14-digit GTIN, a non-empty serial and non-empty two-digit trailing
  identifiers, none containing the group separator) and the scanned text is the printed form of
  \<open>g\<close>, with or without the AIM prefix. Parsing therefore loses nothing and invents nothing.\<close>

theorem parseKmSegments_spec:
  "parseKmSegments raw = Inr g \<longleftrightarrow>
     wf_segments g \<and> (raw = km_text g \<or> raw = lit '']d2'' @ km_text g)"
  by (rule parseKmSegments_iff)

text \<open>Transport noise does not change what is stored: once a scan is accepted with the canonical
  form \<open>c\<close> (and \<open>c\<close> itself does not begin with the AIM prefix), scanning \<open>c\<close> again behind any blanks
  and tabs, with or without the AIM prefix, gives the identical result.\<close>

theorem canonicalizeKm_transport:
  assumes "canonicalizeKm raw = Inr km" and "\<not> starts_with (km_raw km) (lit '']d2'')"
    and "list_all blank a" "list_all blank b" "list_all blank d" "p = [] \<or> p = lit '']d2''"
  shows "canonicalizeKm (a @ p @ b @ km_raw km @ d) = Inr km"
proof -
  have r: "km_raw km = canonical_raw raw" by (rule canonicalizeKm_raw [OF assms(1)])
  have ok: "parseKm (km_raw km) = Inr km" using assms(1) r by (simp add: canonicalizeKm_Inr)
  have "strip blank (km_raw km) = km_raw km" by (simp add: r canonical_raw_def Let_def)
  moreover have "km_raw km \<noteq> []" "\<not> blank (hd (km_raw km))"
    using parseKm_hd [OF ok] by (auto simp: blank_def)
  ultimately have "canonical_raw (a @ p @ b @ km_raw km @ d) = km_raw km"
    using assms(2-6) by (intro canonical_raw_wrapped)
  then show ?thesis using assms(1) r by (simp add: canonicalizeKm_Inr)
qed

theorem canonicalizeKm_transport_witness:
  "canonicalizeKm ([32, 9] @ lit '']d2'' @ [32] @ km_sample @ [9])
     = Inr (km_of (sample_segs sample_tail) km_sample)"
proof -
  have "\<not> starts_with km_sample (lit '']d2'')"
    by (simp add: km_sample_def km_text_def starts_with_def lit_def)
  then show ?thesis
    using canonicalizeKm_transport [OF sample_canonical(1), of "[32, 9]" "[32]" "[9]" "lit '']d2''"]
    by (simp add: blank_def)
qed

text \<open>Only one AIM prefix is removed. A scan that carries two is accepted, but its canonical
  text still begins with the prefix, and canonicalising that text again gives a different one:
  canonicalisation is not idempotent on such scans.\<close>

theorem canonicalizeKm_double_prefix:
  "\<exists>km km'. canonicalizeKm (lit '']d2'' @ lit '']d2'' @ km_sample) = Inr km
     \<and> starts_with (km_raw km) (lit '']d2'')
     \<and> canonicalizeKm (km_raw km) = Inr km' \<and> km_raw km' \<noteq> km_raw km \<and> kmKey km' = kmKey km"
proof (intro exI conjI)
  show "canonicalizeKm (lit '']d2'' @ lit '']d2'' @ km_sample)
      = Inr (km_of (sample_segs sample_tail) (lit '']d2'' @ km_sample))" by (rule sample_canonical)
  show "canonicalizeKm (km_raw (km_of (sample_segs sample_tail) (lit '']d2'' @ km_sample)))
      = Inr (km_of (sample_segs sample_tail) km_sample)" using sample_canonical(3) by simp
qed (simp_all add: kmKey_def lit_def starts_with_def)

text \<open>The duplicate-detection key of two accepted scans is equal exactly when they carry the
  same GTIN and the same serial: crypto tails and scanner prefixes never split one physical item
  into two, and no two different items share a key.\<close>

theorem kmKey_identity:
  assumes "canonicalizeKm r1 = Inr a" "canonicalizeKm r2 = Inr b"
  shows "kmKey a = kmKey b \<longleftrightarrow> km_gtin14 a = km_gtin14 b \<and> km_serial a = km_serial b"
  using assms by (simp add: kmKey_eq_iff canonicalizeKm_gtin_length)

theorem kmKey_identity_witness:
  "kmKey (km_of (sample_segs sample_tail) km_sample)
     = kmKey (km_of (sample_segs []) (km_text (sample_segs [])))"
  using kmKey_identity [OF sample_canonical(1,2)] by (simp add: sample_segs_def)

text \<open>C39: What canonicalisation accepts is bounded and complete: the canonical text has at most 1024 UTF-8 bytes and
  no code unit below 32 except the group separator, not 127 and not the replacement character (the control characters
  from U+0080 to U+009F are let through); it carries a fourteen-digit GTIN whose check digit holds, a serial that is
  not empty, and no application identifier twice.\<close>

theorem canonicalizeKm_bounds:
  assumes "canonicalizeKm raw = Inr km"
  shows "length (utf8 (km_raw km)) \<le> 1024
    \<and> (\<forall>c. c \<in> set (km_raw km) \<longrightarrow> (32 \<le> c \<or> c = GS) \<and> c \<noteq> 127 \<and> c \<noteq> 65533)
    \<and> digits_n 14 (km_gtin14 km) \<and> hasValidCheckDigit (km_gtin14 km) \<and> km_serial km \<noteq> []
    \<and> distinct (map fst (km_ais km))"
proof -
  from assms have r: "km_raw km = canonical_raw raw" by (rule canonicalizeKm_raw)
  have ok: "is_ok (check_units (km_raw km))" "65533 \<notin> set (km_raw km)"
      "length (utf8 (km_raw km)) \<le> 1024" "parseKm (km_raw km) = Inr km"
    using assms r by (auto simp: canonicalizeKm_Inr MAX_KM_UTF8_BYTES_def)
  then show ?thesis using check_units_chars [OF ok(1)]
    by (auto simp: parseKm_iff wf_segments_def km_segs_def)
qed

theorem canonicalizeKm_bounds_witness: "length (utf8 km_sample) \<le> 1024"
  using canonicalizeKm_bounds [OF sample_canonical(1)] by simp

text \<open>Verifying a printed duplicate never raises an error once the saved code is intact: every
  scan is a match, a mismatch or invalid, and it is a match exactly when the scan is itself a
  complete code with the identical canonical text, crypto tail included.\<close>

theorem compareDuplicateKm_spec:
  assumes "parseDuplicateKm expected = Inr k"
  shows "\<exists>v. compareDuplicateKm expected scanned = Inr v
    \<and> (v = Match \<longleftrightarrow> (\<exists>k'. parseDuplicateKm scanned = Inr k' \<and> km_raw k' = km_raw k))
    \<and> (v = Invalid \<longleftrightarrow> \<not> is_ok (parseDuplicateKm scanned))"
proof (cases "parseDuplicateKm scanned")
  case (Inl e)
  then obtain c where "e = DomainError c" using parseDuplicateKm_Inl by blast
  then show ?thesis using assms Inl by (simp add: compareDuplicateKm_def)
next
  case (Inr k')
  then show ?thesis using assms by (simp add: compareDuplicateKm_def)
qed

theorem compareDuplicateKm_spec_witness:
  "\<exists>v. compareDuplicateKm km_sample (lit '']d2'' @ km_sample) = Inr v \<and> v = Match"
proof -
  have "parseDuplicateKm km_sample = Inr (km_of (sample_segs sample_tail) km_sample)"
    and "parseDuplicateKm (lit '']d2'' @ km_sample) = Inr (km_of (sample_segs sample_tail) km_sample)"
    using sample_canonical(1,3)
    by (simp_all add: parseDuplicateKm_def ai_present_def sample_segs_def sample_tail_def lit_def)
  then show ?thesis using compareDuplicateKm_spec by fastforce
qed

end
