(* ===== verification/Scan_Rules.thy ===== *)
theory Scan_Rules
  imports Km_Codes
begin

text \<open>
  What a scanner event means: the single classification point, the shift scan and pickup
  guards, the shift task barcode and the warehouse reprint lookup
  (\<open>packages/domain/src/scan\<close>, \<open>barcodes/task-tokens.ts\<close>, \<open>warehouse-reprint/scan.ts\<close>).
  The duplicate lookup of a shift is injected by the caller, so it is an argument here too.
\<close>

section \<open>Model\<close>

subsection \<open>Classification\<close>

datatype scan_input =
  ScanKm parsed_km | ScanGtin jstring | ScanSscc jstring | ScanUnknown jstring

text \<open>\<open>isValidGtin\<close> holds exactly when \<open>normalizeToGtin14\<close> returns, so the code's test and call
  are one case distinction here.\<close>

definition classifyScan :: "jstring \<Rightarrow> scan_input" where
  "classifyScan raw =
     (let trimmed = js_trim raw
      in case parseScannedSscc trimmed False of
           Some sscc \<Rightarrow> ScanSscc sscc
         | None \<Rightarrow>
             (case normalizeToGtin14 trimmed of
                Inr gtin14 \<Rightarrow> ScanGtin gtin14
              | Inl _ \<Rightarrow>
                  (case canonicalizeKm raw of
                     Inr km \<Rightarrow> ScanKm km
                   | Inl _ \<Rightarrow> ScanUnknown raw)))"

subsection \<open>Shift scans\<close>

datatype scan_verdict =
    VerdictOk jstring | VerdictDuplicate jstring | VerdictWrongGtin jstring jstring
  | VerdictInvalid jstring

record shift_scan_context =
  expectedGtin14 :: jstring
  isDuplicate :: "jstring \<Rightarrow> bool"

definition validateShiftScan ::
  "(nat list \<Rightarrow> jstring) \<Rightarrow> jstring \<Rightarrow> shift_scan_context \<Rightarrow> scan_verdict" where
  "validateShiftScan sha raw ctx =
     (case classifyScan raw of
        ScanKm km \<Rightarrow>
          if km_gtin14 km \<noteq> expectedGtin14 ctx
          then VerdictWrongGtin (expectedGtin14 ctx) (km_gtin14 km)
          else let key = kmHash sha km
               in if isDuplicate ctx key then VerdictDuplicate key else VerdictOk key
      | _ \<Rightarrow> VerdictInvalid raw)"

subsection \<open>Pickup scans\<close>

datatype pickup_result =
    PickupOk parsed_km jstring | PickupNotKm jstring | PickupIncomplete jstring

definition validatePickupKm :: "jstring \<Rightarrow> bool option \<Rightarrow> pickup_result" where
  "validatePickupKm raw requireCryptoTailOpt =
     (let requireCryptoTail = (case requireCryptoTailOpt of None \<Rightarrow> True | Some b \<Rightarrow> b)
      in case classifyScan raw of
           ScanKm km \<Rightarrow>
             if requireCryptoTail \<and> length (km_ais km) = 0 then PickupIncomplete raw
             else PickupOk km (kmKey km)
         | _ \<Rightarrow> PickupNotKm raw)"

subsection \<open>Shift task barcode\<close>

definition SHIFT_TASK_BARCODE_PREFIX :: jstring where
  "SHIFT_TASK_BARCODE_PREFIX = lit ''markiro:shift:v1:''"

definition shift_id_pattern :: "jstring \<Rightarrow> bool" where
  "shift_id_pattern s \<longleftrightarrow>
     s = lit ''00000000-0000-0000-0000-000000000000''
     \<or> s = lit ''ffffffff-ffff-ffff-ffff-ffffffffffff''
     \<or> matches uuid_classes s"

definition formatShiftTaskBarcode :: "jstring \<Rightarrow> jstring" where
  "formatShiftTaskBarcode shiftId = SHIFT_TASK_BARCODE_PREFIX @ shiftId"

definition parseShiftTaskBarcode :: "jstring \<Rightarrow> jstring option" where
  "parseShiftTaskBarcode barcode =
     (if \<not> starts_with barcode SHIFT_TASK_BARCODE_PREFIX then None
      else let candidate = to_lower (drop (length SHIFT_TASK_BARCODE_PREFIX) barcode)
           in if shift_id_pattern candidate then Some candidate else None)"

subsection \<open>Warehouse reprint lookup\<close>

datatype warehouse_repair = Legacy_tspl_fnc1_literal

datatype warehouse_scan =
  WarehouseBox jstring "warehouse_repair option" | WarehouseUnit jstring | WarehouseInvalid

text \<open>The optional \<open>]C0\<close> or \<open>]C1\<close> in front of both regular expressions.\<close>

definition strip_aim :: "jstring \<Rightarrow> jstring" where
  "strip_aim t = (if starts_with t (lit '']C0'') \<or> starts_with t (lit '']C1'') then drop 3 t else t)"

definition legacy_sscc :: "jstring \<Rightarrow> jstring option" where
  "legacy_sscc t =
     (let r = strip_aim t
      in if starts_with r (lit ''!100'') \<and> digits_n 18 (drop 4 r) then Some (drop 4 r) else None)"

definition legacy_shape :: "jstring \<Rightarrow> bool" where
  "legacy_shape t = starts_with (strip_aim t) (lit ''!1'')"

definition resolveWarehouseReprintScan :: "(nat list \<Rightarrow> jstring) \<Rightarrow> jstring \<Rightarrow> warehouse_scan" where
  "resolveWarehouseReprintScan sha raw =
     (let trimmed = js_trim raw
      in case (case legacy_sscc trimmed of
                 None \<Rightarrow> None | Some sscc \<Rightarrow> if isValidSscc sscc then Some sscc else None) of
           Some sscc \<Rightarrow> WarehouseBox sscc (Some Legacy_tspl_fnc1_literal)
         | None \<Rightarrow>
             if legacy_shape trimmed then WarehouseInvalid
             else (case classifyScan raw of
                     ScanSscc sscc \<Rightarrow> WarehouseBox sscc None
                   | ScanKm km \<Rightarrow> WarehouseUnit (kmHash sha km)
                   | _ \<Rightarrow> WarehouseInvalid))"

datatype warehouse_expected = ExpectBox jstring | ExpectUnit jstring

definition compareWarehouseReprintLabel :: "warehouse_expected \<Rightarrow> jstring \<Rightarrow> comparison result" where
  "compareWarehouseReprintLabel expected raw =
     (case expected of
        ExpectUnit canonicalRaw \<Rightarrow> compareDuplicateKm canonicalRaw raw
      | ExpectBox s \<Rightarrow>
          (case parseScannedSscc (js_trim raw) False of
             None \<Rightarrow> Inr Invalid
           | Some sscc \<Rightarrow> Inr (if sscc = s then Match else Mismatch)))"

section \<open>Trimming\<close>

lemma strip_split: "\<exists>a d. s = a @ strip p s @ d \<and> list_all p a \<and> list_all p d"
proof -
  let ?t = "dropWhile p s"
  have 1: "s = takeWhile p s @ ?t" by simp
  have "rev ?t = takeWhile p (rev ?t) @ dropWhile p (rev ?t)" by simp
  then have 2: "?t = strip p s @ rev (takeWhile p (rev ?t))"
    unfolding strip_def by (metis rev_append rev_rev_ident)
  have "list_all p (takeWhile p s)" "list_all p (rev (takeWhile p (rev ?t)))"
    by (auto simp: list_all_iff dest: set_takeWhileD)
  then show ?thesis using 1 2 by metis
qed

lemma js_trim_fixed:
  assumes "x \<noteq> []" "\<not> js_ws (hd x)" "\<not> js_ws (last x)" "list_all js_ws a" "list_all js_ws d"
  shows "js_trim (a @ x @ d) = x"
  using strip_fixed [OF assms] by (simp add: js_trim_def)

lemma blank_ws: "list_all blank a \<Longrightarrow> list_all js_ws a"
  by (auto simp: list_all_iff blank_def js_ws_def)

lemma digit_not_ws: "is_digit c \<Longrightarrow> \<not> js_ws c"
  by (auto simp: is_digit_def js_ws_def)

text \<open>The scanned text around a canonical code: blanks, at most one AIM prefix, blanks.\<close>

lemma canonical_raw_split:
  "\<exists>a p b d. raw = a @ p @ b @ canonical_raw raw @ d \<and> list_all blank a \<and> list_all blank b
     \<and> list_all blank d \<and> (p = [] \<and> b = [] \<or> p = lit '']d2'')"
proof -
  let ?s = "strip blank raw"
  obtain a d where r: "raw = a @ ?s @ d" "list_all blank a" "list_all blank d" using strip_split by metis
  show ?thesis
  proof (cases "starts_with ?s (lit '']d2'')")
    case False
    then have "canonical_raw raw = ?s" by (simp add: canonical_raw_def Let_def)
    then show ?thesis using r by (metis append_Nil list.pred_inject(1))
  next
    case True
    then obtain t where t: "?s = lit '']d2'' @ t" by (auto simp: starts_with_iff)
    then have c: "canonical_raw raw = strip blank t"
      by (simp add: canonical_raw_def Let_def numeral_3_eq_3)
    obtain b e where "t = b @ strip blank t @ e" "list_all blank b" "list_all blank e" using strip_split by metis
    then have "raw = a @ lit '']d2'' @ b @ canonical_raw raw @ (e @ d)" "list_all blank (e @ d)"
      using r t c by auto
    then show ?thesis using r \<open>list_all blank b\<close> by blast
  qed
qed

section \<open>Classification\<close>

lemma km_text_shape:
  assumes "wf_segments g"
  shows "\<exists>t. km_text g = 48 # 49 # t" "19 \<le> length (km_text g)"
proof -
  show "\<exists>t. km_text g = 48 # 49 # t" by (simp add: km_text_def lit_def)
  show "19 \<le> length (km_text g)"
    using assms by (cases "seg_serial g") (simp_all add: km_text_def wf_segments_def digits_n_def)
qed

lemma trimmed_km:
  assumes ok: "canonicalizeKm raw = Inr km" and asc: "list_all (\<lambda>c. c < 128) raw"
  shows "\<exists>t. (js_trim raw = 48 # 49 # t \<or> js_trim raw = 93 # 100 # t) \<and> 19 \<le> length (js_trim raw)"
proof -
  let ?c = "canonical_raw raw"
  have pk: "parseKm ?c = Inr km" "is_ok (check_units ?c)" using ok by (auto simp: canonicalizeKm_Inr)
  obtain a p b d where r: "raw = a @ p @ b @ ?c @ d" and w: "list_all blank a" "list_all blank b"
      "list_all blank d" and p: "p = [] \<and> b = [] \<or> p = lit '']d2''"
    using canonical_raw_split by metis
  have c0: "?c \<noteq> []" "hd ?c = 48 \<or> hd ?c = 93" using parseKm_hd [OF pk(1)] by auto
  have st: "strip blank ?c = ?c" by (simp add: canonical_raw_def Let_def)
  have "last ?c \<in> set ?c" using c0 by simp
  moreover have "last ?c < 128" using asc r c0 by (metis (mono_tags, lifting) append_assoc calculation
        list.pred_set list_all_append)
  ultimately have nw: "\<not> js_ws (last ?c)"
    using strip_ends [OF st c0(1)] check_units_chars [OF pk(2), of "last ?c"]
    by (auto simp: js_ws_def blank_def GS_def)
  have hw: "\<not> js_ws (hd (p @ b @ ?c))" using p c0 by (auto simp: js_ws_def lit_def)
  have x: "js_trim raw = p @ b @ ?c"
    using js_trim_fixed [of "p @ b @ ?c" a d] hw nw c0 w r blank_ws by auto
  have g: "wf_segments (km_segs km)" "?c = km_text (km_segs km) \<or> ?c = lit '']d2'' @ km_text (km_segs km)"
    using pk(1) by (auto simp: parseKm_iff)
  have "\<exists>t. (p @ b @ ?c = 48 # 49 # t \<or> p @ b @ ?c = 93 # 100 # t)"
    using p g(2) km_text_shape(1) [OF g(1)] by (auto simp: lit_def)
  moreover have "19 \<le> length ?c" using g(2) km_text_shape(2) [OF g(1)] by auto
  ultimately show ?thesis using x by auto
qed

lemma sscc_head:
  assumes "parseScannedSscc t False = Some s"
  shows "length t = 18 \<and> list_all is_digit t \<or> (\<exists>u. t = 48 # 48 # u) \<or> (\<exists>u. t = 40 # u) \<or> (\<exists>u. t = 93 # 67 # u)"
  using assms sscc_digits by (auto simp: parseScannedSscc_iff sscc_wrappers_def lit_def)

lemma classifyScan_km:
  assumes "canonicalizeKm raw = Inr km" "list_all (\<lambda>c. c < 128) raw"
  shows "classifyScan raw = ScanKm km"
proof -
  obtain t where t: "js_trim raw = 48 # 49 # t \<or> js_trim raw = 93 # 100 # t" and l: "19 \<le> length (js_trim raw)"
    using trimmed_km [OF assms] by blast
  have "parseScannedSscc (js_trim raw) False = None"
  proof (rule ccontr)
    assume "parseScannedSscc (js_trim raw) False \<noteq> None"
    then show False using sscc_head t l by fastforce
  qed
  moreover have "normalizeToGtin14 (js_trim raw) = Inl (DomainError GTIN_INVALID)"
    using l by (auto simp: normalizeToGtin14_def GTIN_LENGTHS_def)
  ultimately show ?thesis using assms(1) by (simp add: classifyScan_def Let_def)
qed

lemma classifyScan_sscc:
  assumes s: "isValidSscc s" and w: "w \<in> set (sscc_wrappers False)"
    and ws: "list_all js_ws a" "list_all js_ws d"
  shows "classifyScan (a @ w @ s @ d) = ScanSscc s"
proof -
  have sd: "s \<noteq> []" "list_all is_digit s" using sscc_digits [OF s] by auto
  then have "is_digit (last s)" "is_digit (hd s)" by (auto simp: list_all_iff)
  moreover have "\<not> js_ws (hd (w @ s))"
    using w calculation sd digit_not_ws by (auto simp: sscc_wrappers_def lit_def js_ws_def)
  ultimately have "js_trim (a @ (w @ s) @ d) = w @ s"
    using sd ws digit_not_ws by (intro js_trim_fixed) auto
  moreover have "parseScannedSscc (w @ s) False = Some s" using s w by (auto simp: parseScannedSscc_iff)
  ultimately show ?thesis by (simp add: classifyScan_def Let_def)
qed

lemma classifyScan_valid:
  "case classifyScan raw of
     ScanKm km \<Rightarrow> canonicalizeKm raw = Inr km
   | ScanGtin g \<Rightarrow> digits_n 14 g \<and> hasValidCheckDigit g
   | ScanSscc s \<Rightarrow> isValidSscc s
   | ScanUnknown r \<Rightarrow> r = raw \<and> \<not> is_ok (canonicalizeKm raw)"
  by (auto simp: classifyScan_def Let_def gtin14_shape dest: parseScannedSscc_valid
      split: option.splits sum.splits)

lemma classifyScan_ScanKm: "classifyScan raw = ScanKm km \<Longrightarrow> canonicalizeKm raw = Inr km"
  using classifyScan_valid [of raw] by simp

section \<open>The verdict of a shift scan\<close>

lemma validateShiftScan_ok:
  "validateShiftScan sha raw ctx = VerdictOk key \<longleftrightarrow>
     (\<exists>km. classifyScan raw = ScanKm km \<and> km_gtin14 km = expectedGtin14 ctx
        \<and> key = kmHash sha km \<and> \<not> isDuplicate ctx key)"
  by (auto simp: validateShiftScan_def Let_def split: scan_input.splits)

section \<open>Identifiers and lookups\<close>

lemma set_to_lower_id: "list_all (\<lambda>c. \<not> (65 \<le> c \<and> c \<le> 90)) s \<Longrightarrow> to_lower s = s"
  by (induction s) (auto simp: to_lower_def)

lemma shift_id_lower: "shift_id_pattern s \<Longrightarrow> to_lower s = s"
proof (rule set_to_lower_id)
  assume s: "shift_id_pattern s"
  show "list_all (\<lambda>c. \<not> (65 \<le> c \<and> c \<le> 90)) s"
  proof (cases "matches uuid_classes s")
    case True
    then show ?thesis
      by (rule matches_all) (auto simp: uuid_classes_def is_hex_def is_digit_def is_hyphen_def)
  next
    case False
    then show ?thesis using s by (auto simp: shift_id_pattern_def lit_def)
  qed
qed

interpretation shift_task: scan_codec shift_id_pattern "\<lambda>i. Inr (formatShiftTaskBarcode i)" parseShiftTaskBarcode
proof unfold_locales
  fix v assume "shift_id_pattern v"
  then have "parseShiftTaskBarcode (formatShiftTaskBarcode v) = Some v"
    by (simp add: parseShiftTaskBarcode_def formatShiftTaskBarcode_def shift_id_lower)
  then show "\<exists>s. Inr (formatShiftTaskBarcode v) = Inr s \<and> parseShiftTaskBarcode s = Some v" by simp
next
  fix s v assume "parseShiftTaskBarcode s = Some v"
  then show "shift_id_pattern v" by (auto simp: parseShiftTaskBarcode_def Let_def split: if_splits)
qed

lemma parse_format_any:
  "shift_id_pattern (to_lower i) \<Longrightarrow>
     parseShiftTaskBarcode (formatShiftTaskBarcode i) = Some (to_lower i)"
  by (simp add: parseShiftTaskBarcode_def formatShiftTaskBarcode_def)

lemma parse_format_parsed:
  assumes "parseShiftTaskBarcode s = Some v"
  shows "parseShiftTaskBarcode (formatShiftTaskBarcode v) = Some v"
  using shift_task.render_parse [OF shift_task.parse_valid [OF assms]] by blast

lemma canonical_raw_mem: "c \<in> set (canonical_raw raw) \<Longrightarrow> c \<in> set raw"
proof -
  assume c: "c \<in> set (canonical_raw raw)"
  obtain a p b d where "raw = a @ p @ b @ canonical_raw raw @ d" using canonical_raw_split by blast
  then have "set raw = set (a @ p @ b @ canonical_raw raw @ d)" by (rule arg_cong)
  then show ?thesis using c by (simp only: set_append Un_iff simp_thms)
qed

lemma strip_aim_cases:
  "strip_aim t = u \<Longrightarrow> t = u \<or> t = lit '']C0'' @ u \<or> t = lit '']C1'' @ u"
  by (auto simp: strip_aim_def starts_with_iff numeral_3_eq_3 split: if_splits)

lemma legacy_not_sscc:
  assumes "legacy_shape t"
  shows "parseScannedSscc t False = None"
proof (rule ccontr)
  assume "parseScannedSscc t False \<noteq> None"
  then obtain s w where s: "isValidSscc s" and w: "w \<in> set (sscc_wrappers False)" "t = w @ s"
    by (auto simp: parseScannedSscc_iff)
  obtain u where u: "strip_aim t = lit ''!1'' @ u" using assms by (auto simp: legacy_shape_def starts_with_iff)
  obtain c r where c: "s = c # r" "is_digit c" using sscc_digits [OF s] by (cases s) auto
  show False using strip_aim_cases [OF u] w c by (auto simp: sscc_wrappers_def lit_def is_digit_def)
qed

lemma legacy_sscc_shape: "legacy_sscc t = Some s \<Longrightarrow> legacy_shape t"
  by (auto simp: legacy_sscc_def legacy_shape_def Let_def starts_with_iff lit_def split: if_splits)

section \<open>Properties\<close>

text \<open>Every marking code the canonical parser accepts from an ASCII scan is classified as that
  marking code; the SSCC and GTIN readings that the classifier tries first never shadow it.\<close>

theorem classifyScan_km_complete:
  assumes "canonicalizeKm raw = Inr km" "list_all (\<lambda>c. c < 128) raw"
  shows "classifyScan raw = ScanKm km"
  using assms by (rule classifyScan_km)

theorem classifyScan_km_complete_witness:
  "classifyScan km_sample = ScanKm (km_of (sample_segs sample_tail) km_sample)"
proof -
  have "list_all (\<lambda>c. c < 128) km_sample" by (simp add: sample_eval)
  then show ?thesis using classifyScan_km_complete [OF sample_canonical(1)] by blast
qed

text \<open>A valid SSCC in any of its printed or scanned forms, with any white space around it, is
  classified as that SSCC, and whatever the classifier returns is well formed: a checked GTIN, a
  checked SSCC, or a marking code the canonical parser accepts.\<close>

theorem classifyScan_sound:
  "(isValidSscc s \<and> w \<in> set (sscc_wrappers False) \<and> list_all js_ws a \<and> list_all js_ws d
      \<longrightarrow> classifyScan (a @ w @ s @ d) = ScanSscc s)
   \<and> (case classifyScan raw of
        ScanKm km \<Rightarrow> canonicalizeKm raw = Inr km
      | ScanGtin g \<Rightarrow> digits_n 14 g \<and> hasValidCheckDigit g
      | ScanSscc t \<Rightarrow> isValidSscc t
      | ScanUnknown r \<Rightarrow> r = raw \<and> \<not> is_ok (canonicalizeKm raw))"
  using classifyScan_sscc classifyScan_valid by blast

theorem classifyScan_sound_witness:
  "classifyScan ([32] @ lit '']C100'' @ lit ''346070200000123459'' @ [13, 10])
     = ScanSscc (lit ''346070200000123459'')"
proof -
  have v: "isValidSscc (lit ''346070200000123459'')" by code_simp
  show ?thesis using v classifyScan_sound [of "lit ''346070200000123459''" "lit '']C100''" "[32]" "[13, 10]"]
    by (simp add: sscc_wrappers_def js_ws_def lit_def)
qed

text \<open>By default the pickup guard accepts only a code whose group separator survived the
  scanner: an accepted scan contains the separator and a trailing identifier, and the returned key
  is the key of the parsed code.\<close>

theorem pickup_requires_separator:
  assumes "validatePickupKm raw None = PickupOk km key"
  shows "GS \<in> set raw \<and> km_ais km \<noteq> [] \<and> key = kmKey km \<and> canonicalizeKm raw = Inr km"
proof -
  have c: "classifyScan raw = ScanKm km" "km_ais km \<noteq> []" "key = kmKey km"
    using assms by (auto simp: validatePickupKm_def Let_def split: scan_input.splits if_splits)
  have ok: "canonicalizeKm raw = Inr km" by (rule classifyScan_ScanKm [OF c(1)])
  then have "canonical_raw raw = km_text (km_segs km) \<or> canonical_raw raw = lit '']d2'' @ km_text (km_segs km)"
    by (auto simp: canonicalizeKm_Inr parseKm_iff)
  moreover have "GS \<in> set (km_text (km_segs km))"
    using c(2) by (cases "km_ais km") (auto simp: km_text_def km_segs_def)
  ultimately have "GS \<in> set (canonical_raw raw)" by auto
  then have "GS \<in> set raw" by (rule canonical_raw_mem)
  then show ?thesis using c ok by blast
qed

theorem pickup_requires_separator_witness: "GS \<in> set km_sample"
proof -
  have "list_all (\<lambda>c. c < 128) km_sample" by (simp add: sample_eval)
  then have "classifyScan km_sample = ScanKm (km_of (sample_segs sample_tail) km_sample)"
    using classifyScan_km [OF sample_canonical(1)] by blast
  then have "validatePickupKm km_sample None = PickupOk (km_of (sample_segs sample_tail) km_sample)
      (kmKey (km_of (sample_segs sample_tail) km_sample))"
    by (simp add: validatePickupKm_def sample_segs_def sample_tail_def)
  then show ?thesis using pickup_requires_separator by blast
qed

text \<open>The shift task barcode carries one identity per shift: printing a lower-case shift
  identifier and scanning it returns it, scanning the same identifier in any letter case returns
  the lower-case form, and nothing but a well-formed identifier is ever returned.\<close>

theorem shift_task_barcode_identity:
  "(shift_id_pattern (to_lower i) \<longrightarrow>
      parseShiftTaskBarcode (formatShiftTaskBarcode i) = Some (to_lower i))
   \<and> (\<forall>s v. parseShiftTaskBarcode s = Some v \<longrightarrow>
        shift_id_pattern v \<and> parseShiftTaskBarcode (formatShiftTaskBarcode v) = Some v)"
  using parse_format_any shift_task.parse_valid parse_format_parsed by blast

theorem shift_task_barcode_identity_witness:
  "parseShiftTaskBarcode (formatShiftTaskBarcode (lit ''0B9F0A4E-7C1D-4E2B-9A3F-1122334455AA''))
     = Some (lit ''0b9f0a4e-7c1d-4e2b-9a3f-1122334455aa'')"
proof -
  have l: "to_lower (lit ''0B9F0A4E-7C1D-4E2B-9A3F-1122334455AA'')
      = lit ''0b9f0a4e-7c1d-4e2b-9a3f-1122334455aa''" by (simp add: to_lower_def lit_def)
  have "matches uuid_classes (lit ''0b9f0a4e-7c1d-4e2b-9a3f-1122334455aa'')"
    by (simp add: matches_def uuid_classes_def lit_def is_hex_def is_digit_def is_hyphen_def
        numeral_eq_Suc)
  then have "shift_id_pattern (lit ''0b9f0a4e-7c1d-4e2b-9a3f-1122334455aa'')"
    by (simp add: shift_id_pattern_def)
  then show ?thesis
    using shift_task_barcode_identity [of "lit ''0B9F0A4E-7C1D-4E2B-9A3F-1122334455AA''"] l by simp
qed

text \<open>A damaged historical label is good for lookup only: a scan that the reprint lookup
  repairs into a box SSCC is reported invalid when it is compared with the label just printed,
  whatever box is expected.\<close>

theorem repaired_scan_never_verifies:
  assumes "resolveWarehouseReprintScan sha raw = WarehouseBox s (Some r)"
  shows "isValidSscc s \<and> compareWarehouseReprintLabel (ExpectBox e) raw = Inr Invalid"
proof -
  have "legacy_sscc (js_trim raw) = Some s" "isValidSscc s"
    using assms
    by (auto simp: resolveWarehouseReprintScan_def Let_def
        split: option.splits if_splits scan_input.splits)
  then show ?thesis using legacy_not_sscc [OF legacy_sscc_shape]
    by (simp add: compareWarehouseReprintLabel_def)
qed

theorem repaired_scan_never_verifies_witness:
  "compareWarehouseReprintLabel (ExpectBox (lit ''346070200000123459'')) (lit '']C0!100346070200000123459'')
     = Inr Invalid"
proof -
  have v: "isValidSscc (lit ''346070200000123459'')" by code_simp
  have t: "js_trim (lit '']C0!100346070200000123459'') = lit '']C0!100346070200000123459''"
    by (simp add: js_trim_def strip_def lit_def js_ws_def)
  have l: "legacy_sscc (lit '']C0!100346070200000123459'') = Some (lit ''346070200000123459'')"
    by (simp add: legacy_sscc_def strip_aim_def starts_with_def digits_n_def lit_def is_digit_def)
  have "resolveWarehouseReprintScan id (lit '']C0!100346070200000123459'')
      = WarehouseBox (lit ''346070200000123459'') (Some Legacy_tspl_fnc1_literal)"
    using v t l by (simp add: resolveWarehouseReprintScan_def)
  then show ?thesis using repaired_scan_never_verifies by blast
qed

end
