(* ===== verification/Document_Text.thy ===== *)
theory Document_Text
  imports Markiro_Prelude
begin

text \<open>
  Text encodings of the exported documents
  (\<open>packages/domain/src/document-text-encoding.ts\<close>) and the XML escaping shared by the GIS MT
  documents (\<open>gismt-aggregation.ts\<close>): the two text orders, line files, semicolon CSV with a
  byte-order mark, and a reader of that CSV against which the encoder is proved. JavaScript's
  \<open>Array.prototype.sort\<close>, which is stable, is an insertion sort over the comparator.
\<close>

section \<open>Stable sorting by a comparator\<close>

fun insert_by :: "('a \<Rightarrow> 'a \<Rightarrow> int) \<Rightarrow> 'a \<Rightarrow> 'a list \<Rightarrow> 'a list" where
  "insert_by cmp x [] = [x]"
| "insert_by cmp x (y # ys) = (if cmp x y \<le> 0 then x # y # ys else y # insert_by cmp x ys)"

definition js_sort :: "('a \<Rightarrow> 'a \<Rightarrow> int) \<Rightarrow> 'a list \<Rightarrow> 'a list" where
  "js_sort cmp xs = foldr (insert_by cmp) xs []"

text \<open>A comparator that \<open>sort\<close> may be given: it orders by some rank.\<close>

definition consistent :: "('a \<Rightarrow> 'a \<Rightarrow> int) \<Rightarrow> bool" where
  "consistent cmp \<longleftrightarrow>
     (\<forall>x y. cmp x y \<le> 0 \<or> cmp y x \<le> 0) \<and> (\<forall>x y z. cmp x y \<le> 0 \<longrightarrow> cmp y z \<le> 0 \<longrightarrow> cmp x z \<le> 0)"

lemma set_insert_by [simp]: "set (insert_by cmp x ys) = insert x (set ys)"
  by (induction ys) auto

lemma length_insert_by [simp]: "length (insert_by cmp x ys) = Suc (length ys)"
  by (induction ys) auto

lemma set_js_sort [simp]: "set (js_sort cmp xs) = set xs"
  by (induction xs) (auto simp: js_sort_def)

lemma length_js_sort [simp]: "length (js_sort cmp xs) = length xs"
  by (induction xs) (auto simp: js_sort_def)

lemma distinct_js_sort [simp]: "distinct (js_sort cmp xs) = distinct xs"
  by (metis card_distinct distinct_card length_js_sort set_js_sort)

lemma insert_by_sorted:
  assumes "consistent cmp" "sorted_wrt (\<lambda>a b. cmp a b \<le> 0) ys"
  shows "sorted_wrt (\<lambda>a b. cmp a b \<le> 0) (insert_by cmp x ys)"
  using assms(2)
proof (induction ys)
  case (Cons y ys)
  show ?case
  proof (cases "cmp x y \<le> 0")
    case True
    then show ?thesis using Cons.prems assms(1) unfolding consistent_def by auto
  next
    case False
    then have "cmp y x \<le> 0" using assms(1) unfolding consistent_def by blast
    then show ?thesis using Cons False by auto
  qed
qed simp

lemma js_sort_sorted: "consistent cmp \<Longrightarrow> sorted_wrt (\<lambda>a b. cmp a b \<le> 0) (js_sort cmp xs)"
  by (induction xs) (auto simp: js_sort_def insert_by_sorted)

section \<open>Orders\<close>

text \<open>\<open><\<close> on strings compares code units, the order of \<open>HOL-Library.List_Lexorder\<close>.\<close>

definition compareText :: "jstring \<Rightarrow> jstring \<Rightarrow> int" where
  "compareText left right = (if left < right then -1 else if right < left then 1 else 0)"

text \<open>The loop of \<open>compareBytes\<close> over the shared prefix, then the lengths.\<close>

fun compareBytes :: "nat list \<Rightarrow> nat list \<Rightarrow> int" where
  "compareBytes (l # ls) (r # rs) = (if l \<noteq> r then (if l < r then -1 else 1) else compareBytes ls rs)"
| "compareBytes [] [] = 0"
| "compareBytes [] (r # rs) = -1"
| "compareBytes (l # ls) [] = 1"

definition createUtf8ByteComparator :: "('a \<Rightarrow> jstring) \<Rightarrow> 'a \<Rightarrow> 'a \<Rightarrow> int" where
  "createUtf8ByteComparator textOf left right = compareBytes (utf8 (textOf left)) (utf8 (textOf right))"

lemma compareText_le: "compareText a b \<le> 0 \<longleftrightarrow> a \<le> b"
  by (auto simp: compareText_def)

lemma compareText_consistent: "consistent (\<lambda>x y. compareText (f x) (f y))"
  by (auto simp: consistent_def compareText_le)

lemma compareBytes_eq: "compareBytes a b = compareText a b"
  by (induction a b rule: compareBytes.induct) (auto simp: compareText_def)

lemma utf8_comparator_consistent: "consistent (createUtf8ByteComparator f)"
  unfolding createUtf8ByteComparator_def compareBytes_eq by (rule compareText_consistent)

section \<open>Encodings\<close>

definition UTF8_BOM :: "nat list" where
  "UTF8_BOM = [239, 187, 191]"

definition encodeLfText :: "jstring list \<Rightarrow> nat list" where
  "encodeLfText lines = (if length lines = 0 then [] else utf8 (join [10] lines @ [10]))"

definition csv_special :: "nat \<Rightarrow> bool" where
  "csv_special c \<longleftrightarrow> c = 59 \<or> c = 34 \<or> c = 13 \<or> c = 10"

definition double_quotes :: "jstring \<Rightarrow> jstring" where
  "double_quotes s = concat (map (\<lambda>c. if c = 34 then [34, 34] else [c]) s)"

definition csvField :: "jstring \<Rightarrow> jstring" where
  "csvField value = (if list_ex csv_special value then 34 # double_quotes value @ [34] else value)"

definition csv_row :: "jstring list \<Rightarrow> jstring" where
  "csv_row row = join [59] (map csvField row)"

definition csv_text :: "jstring list list \<Rightarrow> jstring" where
  "csv_text rows =
     (let content = join [13, 10] (map csv_row rows)
      in if length content = 0 then [] else content @ [13, 10])"

definition encodeSemicolonCsvRows :: "jstring list list \<Rightarrow> nat list" where
  "encodeSemicolonCsvRows rows = UTF8_BOM @ utf8 (csv_text rows)"

definition encodeSemicolonCsv :: "jstring list \<Rightarrow> jstring list list \<Rightarrow> nat list" where
  "encodeSemicolonCsv header rows = encodeSemicolonCsvRows (header # rows)"

section \<open>XML escaping\<close>

definition replace_unit :: "nat \<Rightarrow> jstring \<Rightarrow> jstring \<Rightarrow> jstring" where
  "replace_unit c r s = concat (map (\<lambda>x. if x = c then r else [x]) s)"

definition xmlText :: "jstring \<Rightarrow> jstring" where
  "xmlText value =
     replace_unit 62 (lit ''&gt;'') (replace_unit 60 (lit ''&lt;'') (replace_unit 38 (lit ''&amp;'') value))"

definition xmlAttribute :: "jstring \<Rightarrow> jstring" where
  "xmlAttribute value = replace_unit 34 (lit ''&quot;'') (xmlText value)"

text \<open>
  The characters no XML value may contain: controls, the two non-characters and a surrogate
  without its partner.
\<close>

fun xml_prohibited :: "jstring \<Rightarrow> bool" where
  "xml_prohibited [] = False"
| "xml_prohibited (c # s) =
     (if c < 32 \<or> c = 127 \<or> c = 65534 \<or> c = 65535 then True
      else if high_surrogate c then
        (case s of [] \<Rightarrow> True | d # t \<Rightarrow> if low_surrogate d then xml_prohibited t else True)
      else if low_surrogate c then True
      else xml_prohibited s)"

section \<open>Filename segments\<close>

text \<open>Runs of units that satisfy \<open>p\<close> become one \<open>r\<close>; the flag says whether a run is open.\<close>

fun replace_runs :: "(nat \<Rightarrow> bool) \<Rightarrow> nat \<Rightarrow> bool \<Rightarrow> nat list \<Rightarrow> nat list" where
  "replace_runs p r open_run [] = []"
| "replace_runs p r open_run (c # s) =
     (if p c then (if open_run then [] else [r]) @ replace_runs p r True s
      else c # replace_runs p r False s)"

text \<open>Code points back to UTF-16 units.\<close>

definition utf16 :: "nat list \<Rightarrow> jstring" where
  "utf16 ps = concat (map (\<lambda>c. if c < 65536 then [c]
     else [55296 + (c - 65536) div 1024, 56320 + (c - 65536) mod 1024]) ps)"

section \<open>Lemmas: CSV\<close>

text \<open>
  A reader of semicolon CSV, one unit at a time: at the start of a field, inside a plain or a
  quoted one, after a quote in a quoted field, after a carriage return.
\<close>

datatype csv_mode = Csv_start | Csv_plain | Csv_quoted | Csv_quote_seen | Csv_cr

fun csv_read :: "csv_mode \<Rightarrow> jstring \<Rightarrow> jstring list \<Rightarrow> jstring \<Rightarrow> jstring list list" where
  "csv_read m f r [] = (if m = Csv_start \<and> r = [] then [] else [r @ [f]])"
| "csv_read Csv_quoted f r (c # s) =
     (if c = 34 then csv_read Csv_quote_seen f r s else csv_read Csv_quoted (f @ [c]) r s)"
| "csv_read Csv_cr f r (c # s) =
     (if c = 10 then (r @ [f]) # csv_read Csv_start [] [] s else csv_read Csv_plain (f @ [13, c]) r s)"
| "csv_read m f r (c # s) =
     (if c = 59 then csv_read Csv_start [] (r @ [f]) s
      else if c = 13 then csv_read Csv_cr f r s
      else if c = 34 \<and> m = Csv_start then csv_read Csv_quoted f r s
      else if c = 34 \<and> m = Csv_quote_seen then csv_read Csv_quoted (f @ [34]) r s
      else csv_read Csv_plain (f @ [c]) r s)"

lemma csv_read_plain:
  "m \<in> {Csv_start, Csv_plain} \<Longrightarrow> \<not> list_ex csv_special v \<Longrightarrow>
     csv_read m f r (v @ s) = csv_read (if v = [] then m else Csv_plain) (f @ v) r s"
  by (induction v arbitrary: m f) (auto simp: csv_special_def)

lemma csv_read_quoted:
  "csv_read Csv_quoted f r (double_quotes v @ 34 # s) = csv_read Csv_quote_seen (f @ v) r s"
  by (induction v arbitrary: f) (auto simp: double_quotes_def)

text \<open>What may follow a field: a separator or the end of a row.\<close>

lemma csv_read_field_sep:
  "csv_read Csv_start [] r (csvField v @ 59 # s) = csv_read Csv_start [] (r @ [v]) s"
  by (cases "list_ex csv_special v") (auto simp: csvField_def csv_read_plain csv_read_quoted)

lemma csv_read_field_end:
  "csv_read Csv_start [] r (csvField v @ 13 # 10 # s) = (r @ [v]) # csv_read Csv_start [] [] s"
  by (cases "list_ex csv_special v") (auto simp: csvField_def csv_read_plain csv_read_quoted)

lemma csv_read_row:
  "row \<noteq> [] \<Longrightarrow> csv_read Csv_start [] r (csv_row row @ 13 # 10 # s) = (r @ row) # csv_read Csv_start [] [] s"
proof (induction row arbitrary: r rule: induct_list012)
  case (3 x y row)
  then show ?case by (simp add: csv_row_def csv_read_field_sep)
qed (simp_all add: csv_row_def csv_read_field_end)

lemma csv_read_rows:
  "rows \<noteq> [] \<Longrightarrow> [] \<notin> set rows \<Longrightarrow>
     csv_read Csv_start [] [] (join [13, 10] (map csv_row rows) @ [13, 10]) = rows"
proof (induction rows rule: induct_list012)
  case (2 x)
  then have "x \<noteq> []" by auto
  then show ?case using csv_read_row [of x "[]" "[]"] by simp
next
  case (3 x y rows)
  then have "x \<noteq> []" by auto
  then show ?case using csv_read_row [of x "[]"] 3 by simp
qed simp

lemma csv_roundtrip:
  assumes "header \<noteq> []" "hd header \<noteq> []" "[] \<notin> set rows"
  shows "csv_read Csv_start [] [] (csv_text (header # rows)) = header # rows"
proof -
  have "csvField (hd header) \<noteq> []" using assms(2) by (auto simp: csvField_def)
  then have "csv_row header \<noteq> []" using assms(1)
    by (cases header rule: remdups_adj.cases) (auto simp: csv_row_def)
  then have "join [13, 10] (map csv_row (header # rows)) \<noteq> []"
    by (cases rows) auto
  then have "csv_text (header # rows) = join [13, 10] (map csv_row (header # rows)) @ [13, 10]"
    by (simp add: csv_text_def Let_def)
  then show ?thesis using csv_read_rows [of "header # rows"] assms by auto
qed

section \<open>Lemmas: XML\<close>

lemma replace_unit_concat:
  "replace_unit c r (concat (map g s)) = concat (map (\<lambda>x. replace_unit c r (g x)) s)"
  by (induction s) (auto simp: replace_unit_def)

definition esc_text :: "nat \<Rightarrow> jstring" where
  "esc_text c = (if c = 38 then lit ''&amp;'' else if c = 60 then lit ''&lt;''
     else if c = 62 then lit ''&gt;'' else [c])"

definition esc_attr :: "nat \<Rightarrow> jstring" where
  "esc_attr c = (if c = 34 then lit ''&quot;'' else esc_text c)"

lemma xmlText_map: "xmlText s = concat (map esc_text s)"
proof -
  have "replace_unit 62 (lit ''&gt;'') (replace_unit 60 (lit ''&lt;'')
      (if c = 38 then lit ''&amp;'' else [c])) = esc_text c" for c
    by (auto simp: replace_unit_def esc_text_def lit_def)
  then show ?thesis
    by (simp add: xmlText_def replace_unit_def [of 38] replace_unit_concat)
qed

lemma xmlAttribute_map: "xmlAttribute s = concat (map esc_attr s)"
proof -
  have "replace_unit 34 (lit ''&quot;'') (esc_text c) = esc_attr c" for c
    by (auto simp: replace_unit_def esc_text_def esc_attr_def lit_def)
  then show ?thesis by (simp add: xmlAttribute_def xmlText_map replace_unit_concat)
qed

text \<open>A reader of the four entities.\<close>

fun xml_unescape :: "jstring \<Rightarrow> jstring" where
  "xml_unescape [] = []"
| "xml_unescape (c # s) =
     (if c = 38 \<and> starts_with s (lit ''amp;'') then 38 # xml_unescape (drop 4 s)
      else if c = 38 \<and> starts_with s (lit ''lt;'') then 60 # xml_unescape (drop 3 s)
      else if c = 38 \<and> starts_with s (lit ''gt;'') then 62 # xml_unescape (drop 3 s)
      else if c = 38 \<and> starts_with s (lit ''quot;'') then 34 # xml_unescape (drop 5 s)
      else c # xml_unescape s)"

lemma xml_unescape_text: "xml_unescape (xmlText s) = s"
  unfolding xmlText_map by (induction s) (auto simp: esc_text_def lit_def starts_with_def)

lemma xml_unescape_attr: "xml_unescape (xmlAttribute s) = s"
  unfolding xmlAttribute_map
  by (induction s) (auto simp: esc_attr_def esc_text_def lit_def starts_with_def)

lemma xmlText_chars: "c \<in> set (xmlText s) \<Longrightarrow> c \<notin> {60, 62} \<and> (c \<in> set s \<or> c \<in> {38, 59} \<or> 97 \<le> c \<and> c \<le> 116)"
  unfolding xmlText_map by (auto simp: esc_text_def lit_def split: if_splits)

lemma xmlAttribute_chars:
  "c \<in> set (xmlAttribute s) \<Longrightarrow> c \<notin> {34, 60, 62} \<and> (c \<in> set s \<or> c \<in> {38, 59} \<or> 97 \<le> c \<and> c \<le> 117)"
  unfolding xmlAttribute_map by (auto simp: esc_attr_def esc_text_def lit_def split: if_splits)

lemma prohibited_controls: "\<not> xml_prohibited s \<Longrightarrow> c \<in> set s \<Longrightarrow> 32 \<le> c"
proof (induction s rule: xml_prohibited.induct)
  case (2 d s)
  show ?case
  proof (cases "high_surrogate d")
    case True
    then show ?thesis using 2 by (cases s) (auto simp: high_surrogate_def low_surrogate_def split: if_splits)
  next
    case False
    then show ?thesis using 2 by (auto split: if_splits)
  qed
qed simp

section \<open>Lemmas: line feeds\<close>

lemma count_utf8_point: "count_list (utf8_point c) 10 = (if c = 10 then 1 else 0)"
  by (auto simp: utf8_point_def)

lemma count_code_points: "count_list (code_points s) 10 = count_list s 10"
  by (induction s rule: code_points.induct) (auto simp: high_surrogate_def low_surrogate_def)

lemma count_utf8: "count_list (utf8 s) 10 = count_list s 10"
proof -
  have "count_list (concat (map (\<lambda>c. utf8_point (if high_surrogate c \<or> low_surrogate c then 65533 else c)) xs)) 10
      = count_list xs 10" for xs
    by (induction xs) (auto simp: count_utf8_point high_surrogate_def low_surrogate_def)
  then show ?thesis by (simp add: utf8_def count_code_points)
qed

lemma count_join: "xs \<noteq> [] \<Longrightarrow> count_list (join [10] xs) 10 + 1 = sum_list (map (\<lambda>x. count_list x 10) xs) + length xs"
  by (induction xs rule: induct_list012) auto

lemma count_lines:
  assumes "list_all (\<lambda>x. 10 \<notin> set x) xs" "xs \<noteq> []"
  shows "count_list (utf8 (join [10] xs @ [10])) 10 = length xs"
proof -
  have "sum_list (map (\<lambda>x. count_list x 10) xs) = 0"
    using assms(1) by (induction xs) (auto simp: count_notin)
  then show ?thesis using count_join [OF assms(2)] by (simp add: count_utf8)
qed

end
