(* ===== verification/Inventory_Scan.thy ===== *)
theory Inventory_Scan
  imports Scan_Rules Document_Text
begin

text \<open>
  Inventory: what a scan means (\<open>packages/domain/src/inventory/scan.ts\<close>), the statuses and the
  disposition of the codes in the snapshot (\<open>status.ts\<close>, \<open>snapshot.ts\<close>), and the boxes that may
  enter the closing documents (\<open>document-selection.ts\<close>). The lookups a caller injects are functions
  of the context. \<open>String.prototype.localeCompare\<close> depends on the host's collation tables and
  \<open>z.iso.date()\<close> on the schema library; they are the parameters \<open>collate\<close> and \<open>iso_date\<close>.
\<close>

section \<open>Statuses and the snapshot\<close>

datatype chz_status = EMITTED | INTRODUCED | APPLIED | RETIRED | WRITTEN_OFF | DISAGGREGATION

definition INVENTORY_CHZ_STATUSES :: "chz_status list" where
  "INVENTORY_CHZ_STATUSES = [EMITTED, INTRODUCED, APPLIED, RETIRED, WRITTEN_OFF, DISAGGREGATION]"

datatype unsupported_reason = Report_unavailable | Status_profile_unsupported

datatype report_policy = Report_supported "chz_status list" | Report_unsupported unsupported_reason

definition chzFilteredCisReportPolicy :: "int \<Rightarrow> report_policy" where
  "chzFilteredCisReportPolicy code =
     (if code \<in> {25, 42, 44} then Report_unsupported Report_unavailable
      else if code \<in> {3, 12, 16} then Report_unsupported Status_profile_unsupported
      else Report_supported INVENTORY_CHZ_STATUSES)"

definition moving_by_ud :: "jstring option \<Rightarrow> bool" where
  "moving_by_ud state \<longleftrightarrow> state = Some (lit ''MOVING_BY_UD'')"

definition canDisposeChzCode :: "chz_status \<Rightarrow> jstring option \<Rightarrow> bool" where
  "canDisposeChzCode status state \<longleftrightarrow> status = INTRODUCED \<and> \<not> moving_by_ud state"

record snapshot_source_row =
  ss_gtin14 :: jstring
  ss_status :: chz_status
  ss_state :: "jstring option"
  ss_sourceProductionDate :: "jstring option"

datatype snapshot_class = Snap_expected | Snap_protected | Snap_known_ineligible | Snap_missing_date

definition snap_expected :: "snapshot_class \<Rightarrow> bool" where
  "snap_expected k \<longleftrightarrow> k = Snap_expected"

definition snap_protected :: "snapshot_class \<Rightarrow> bool" where
  "snap_protected k \<longleftrightarrow> k = Snap_protected"

definition classifyInventorySnapshotRow ::
    "snapshot_source_row \<Rightarrow> jstring \<Rightarrow> jstring \<Rightarrow> snapshot_class" where
  "classifyInventorySnapshotRow row dateFrom dateTo =
     (if moving_by_ud (ss_state row) then Snap_protected
      else if \<not> canDisposeChzCode (ss_status row) (ss_state row) then Snap_known_ineligible
      else (case ss_sourceProductionDate row of
              None \<Rightarrow> Snap_missing_date
            | Some date \<Rightarrow>
                if date < dateFrom \<or> date > dateTo then Snap_known_ineligible else Snap_expected))"

section \<open>Scans\<close>

datatype origin_class = Origin_expected | Origin_protected | Origin_known_ineligible

record scan_snapshot_row =
  sr_codeHash :: jstring
  sr_canonicalRaw :: jstring
  sr_gtin14 :: jstring
  sr_serial :: jstring
  sr_sourceStatus :: chz_status
  sr_sourceState :: "jstring option"
  sr_sourceProductionDate :: "jstring option"
  sr_expected :: bool
  sr_protected :: bool
  sr_parentSscc :: "jstring option"

record local_claim =
  lc_codeHash :: jstring
  lc_eventId :: jstring
  lc_deviceId :: jstring
  lc_scannedAt :: jstring

record scan_context =
  taskGtin14 :: jstring
  findSnapshotCode :: "jstring \<Rightarrow> scan_snapshot_row option"
  findSnapshotChildren :: "jstring \<Rightarrow> scan_snapshot_row list"
  findLocalClaim :: "jstring \<Rightarrow> local_claim option"

record box_child =
  bc_codeHash :: jstring
  bc_origin :: origin_class
  bc_firstWinning :: "local_claim option"

datatype scan_identity =
    Item_identity jstring jstring jstring jstring \<comment> \<open>codeHash, canonicalRaw, gtin14, serial\<close>
  | Known_box jstring "box_child list"
  | Old_box jstring

datatype invalid_reason = Reason_malformed | Reason_wrong_gtin | Reason_unsupported

text \<open>An item that is protected or ineligible carries the status of its snapshot row.\<close>

datatype inventory_class =
    Inv_expected scan_identity
  | Inv_protected scan_identity "chz_status option"
  | Inv_known_ineligible scan_identity "chz_status option"
  | Inv_unknown scan_identity
  | Inv_duplicate scan_identity local_claim
  | Inv_invalid invalid_reason

definition origin :: "scan_snapshot_row \<Rightarrow> origin_class" where
  "origin row =
     (if moving_by_ud (sr_sourceState row) \<or> sr_protected row then Origin_protected
      else if sr_expected row then Origin_expected
      else Origin_known_ineligible)"

definition claim_order :: "(jstring \<Rightarrow> jstring \<Rightarrow> int) \<Rightarrow> local_claim \<Rightarrow> local_claim \<Rightarrow> int" where
  "claim_order collate l r =
     (if collate (lc_scannedAt l) (lc_scannedAt r) \<noteq> 0 then collate (lc_scannedAt l) (lc_scannedAt r)
      else if collate (lc_deviceId l) (lc_deviceId r) \<noteq> 0 then collate (lc_deviceId l) (lc_deviceId r)
      else collate (lc_eventId l) (lc_eventId r))"

definition firstClaim :: "(jstring \<Rightarrow> jstring \<Rightarrow> int) \<Rightarrow> local_claim list \<Rightarrow> local_claim result" where
  "firstClaim collate claims =
     (case js_sort (claim_order collate) claims of [] \<Rightarrow> Inl PlainError | first # _ \<Rightarrow> Inr first)"

definition classifyItem :: "(nat list \<Rightarrow> jstring) \<Rightarrow> jstring \<Rightarrow> scan_context \<Rightarrow> inventory_class" where
  "classifyItem sha raw ctx =
     (case canonicalizeKm raw of
        Inl _ \<Rightarrow> Inv_invalid Reason_malformed
      | Inr km \<Rightarrow>
          if km_gtin14 km \<noteq> taskGtin14 ctx then Inv_invalid Reason_wrong_gtin
          else let codeHash = kmHash sha km;
                   ident = Item_identity codeHash (km_raw km) (km_gtin14 km) (km_serial km)
               in case findLocalClaim ctx codeHash of
                    Some existing \<Rightarrow> Inv_duplicate ident existing
                  | None \<Rightarrow>
                      (case findSnapshotCode ctx codeHash of
                         None \<Rightarrow> Inv_unknown ident
                       | Some row \<Rightarrow>
                           (case origin row of
                              Origin_protected \<Rightarrow> Inv_protected ident (Some (sr_sourceStatus row))
                            | Origin_known_ineligible \<Rightarrow> Inv_known_ineligible ident (Some (sr_sourceStatus row))
                            | Origin_expected \<Rightarrow> Inv_expected ident)))"

definition box_children :: "scan_context \<Rightarrow> scan_snapshot_row list \<Rightarrow> box_child list" where
  "box_children ctx rows = map (\<lambda>row. \<lparr>bc_codeHash = sr_codeHash row, bc_origin = origin row,
     bc_firstWinning = findLocalClaim ctx (sr_codeHash row)\<rparr>) rows"

definition classify_box ::
    "(jstring \<Rightarrow> jstring \<Rightarrow> int) \<Rightarrow> scan_context \<Rightarrow> jstring \<Rightarrow> inventory_class result" where
  "classify_box collate ctx sscc =
     (let rows = findSnapshotChildren ctx sscc
      in if length rows = 0 then Inr (Inv_unknown (Old_box sscc))
         else let children = box_children ctx rows;
                  unclaimed = filter (\<lambda>c. bc_firstWinning c = None) children;
                  ident = Known_box sscc children
              in if length unclaimed = 0 then
                   (case firstClaim collate (List.map_filter bc_firstWinning children) of
                      Inl e \<Rightarrow> Inl e | Inr w \<Rightarrow> Inr (Inv_duplicate ident w))
                 else if list_ex (\<lambda>c. bc_origin c = Origin_expected) unclaimed then Inr (Inv_expected ident)
                 else if list_ex (\<lambda>c. bc_origin c = Origin_protected) unclaimed then Inr (Inv_protected ident None)
                 else Inr (Inv_known_ineligible ident None))"

definition classifyInventoryScan ::
    "(nat list \<Rightarrow> jstring) \<Rightarrow> (jstring \<Rightarrow> jstring \<Rightarrow> int) \<Rightarrow> jstring \<Rightarrow> scan_context \<Rightarrow> inventory_class result" where
  "classifyInventoryScan sha collate raw ctx =
     (case classifyScan raw of
        ScanKm _ \<Rightarrow> Inr (classifyItem sha raw ctx)
      | ScanSscc sscc \<Rightarrow> classify_box collate ctx sscc
      | ScanGtin _ \<Rightarrow> Inr (Inv_invalid Reason_unsupported)
      | ScanUnknown _ \<Rightarrow> Inr (Inv_invalid Reason_malformed))"

text \<open>The flag of a single date says that it is the date of an item, not of a box.\<close>

datatype source_date = Date_none | Date_single bool jstring | Date_mixed

fun date_loop :: "jstring set \<Rightarrow> jstring option \<Rightarrow> scan_snapshot_row list \<Rightarrow> source_date" where
  "date_loop unclaimed cur [] = (case cur of None \<Rightarrow> Date_none | Some d \<Rightarrow> Date_single False d)"
| "date_loop unclaimed cur (row # rows) =
     (if sr_codeHash row \<notin> unclaimed then date_loop unclaimed cur rows
      else case sr_sourceProductionDate row of
             None \<Rightarrow> date_loop unclaimed cur rows
           | Some d \<Rightarrow> if cur \<noteq> None \<and> cur \<noteq> Some d then Date_mixed else date_loop unclaimed (Some d) rows)"

definition resolveInventoryScanSourceDate :: "inventory_class \<Rightarrow> scan_context \<Rightarrow> source_date" where
  "resolveInventoryScanSourceDate cls ctx = (case cls of
     Inv_expected (Item_identity codeHash _ _ _) \<Rightarrow>
       (case findSnapshotCode ctx codeHash of
          None \<Rightarrow> Date_none
        | Some row \<Rightarrow> (case sr_sourceProductionDate row of None \<Rightarrow> Date_none | Some d \<Rightarrow> Date_single True d))
   | Inv_expected (Known_box sscc children) \<Rightarrow>
       date_loop (bc_codeHash ` {c \<in> set children. bc_firstWinning c = None \<and> bc_origin c = Origin_expected})
         None (findSnapshotChildren ctx sscc)
   | _ \<Rightarrow> Date_none)"

section \<open>Boxes for the closing documents\<close>

datatype final_box_state = Box_open | Box_closed | Box_invalid
datatype box_print_state = Print_not_ready | Print_pending | Print_printing | Print_printed | Print_failed

record verified_code =
  vc_codeHash :: jstring
  vc_canonicalRaw :: jstring
  vc_observedProductionDate :: "jstring option"

record new_box =
  nb_sscc :: jstring
  nb_oldSsccContext :: "jstring option"
  nb_state :: final_box_state
  nb_printState :: box_print_state
  nb_productionDate :: jstring
  nb_codeHashes :: "jstring list"

record protected_code =
  pc_codeHash :: jstring
  pc_canonicalRaw :: jstring
  pc_parentSscc :: "jstring option"

record document_source =
  ds_writeOffCandidates :: "(jstring \<times> jstring) list"
  ds_verified :: "verified_code list"
  ds_protected :: "protected_code list"
  ds_oldBoxes :: "jstring list"
  ds_newBoxes :: "new_box list"

record final_box =
  fb_sscc :: jstring
  fb_oldSsccContext :: "jstring option"
  fb_productionDate :: jstring
  fb_codes :: "verified_code list"

text \<open>\<open>new Map(...)\<close>: of two verified codes with one hash the later one counts.\<close>

definition verified_by_hash :: "document_source \<Rightarrow> jstring \<Rightarrow> verified_code option" where
  "verified_by_hash src = map_of (rev (map (\<lambda>c. (vc_codeHash c, c)) (ds_verified src)))"

definition code_eligible :: "document_source \<Rightarrow> new_box \<Rightarrow> jstring \<Rightarrow> bool" where
  "code_eligible src box h \<longleftrightarrow>
     h \<notin> pc_codeHash ` set (ds_protected src)
     \<and> (case verified_by_hash src h of
          None \<Rightarrow> False
        | Some code \<Rightarrow> vc_observedProductionDate code = Some (nb_productionDate box))"

definition box_shape_ok :: "(jstring \<Rightarrow> bool) \<Rightarrow> new_box \<Rightarrow> bool" where
  "box_shape_ok iso_date box \<longleftrightarrow>
     nb_state box = Box_closed \<and> nb_printState box = Print_printed \<and> length (nb_codeHashes box) \<noteq> 0
     \<and> card (set (nb_codeHashes box)) = length (nb_codeHashes box) \<and> iso_date (nb_productionDate box)"

definition final_boxes_of :: "(jstring \<Rightarrow> bool) \<Rightarrow> document_source \<Rightarrow> new_box \<Rightarrow> final_box list" where
  "final_boxes_of iso_date src box =
     (if \<not> box_shape_ok iso_date box then []
      else if \<not> list_all (code_eligible src box) (nb_codeHashes box) then []
      else [\<lparr>fb_sscc = nb_sscc box, fb_oldSsccContext = nb_oldSsccContext box,
             fb_productionDate = nb_productionDate box,
             fb_codes = js_sort (createUtf8ByteComparator vc_canonicalRaw)
               (map (\<lambda>h. the (verified_by_hash src h)) (nb_codeHashes box))\<rparr>])"

definition selectEligibleInventoryFinalBoxes :: "(jstring \<Rightarrow> bool) \<Rightarrow> document_source \<Rightarrow> final_box list" where
  "selectEligibleInventoryFinalBoxes iso_date src =
     concat (map (final_boxes_of iso_date src)
       (js_sort (\<lambda>l r. compareText (nb_sscc l) (nb_sscc r)) (ds_newBoxes src)))"

section \<open>Lemmas: the first claim\<close>

text \<open>
  What \<open>localeCompare\<close> promises: it orders the strings, possibly treating different strings as
  equal, and swapping its arguments swaps the sign.
\<close>

definition collation :: "('a \<Rightarrow> 'a \<Rightarrow> int) \<Rightarrow> bool" where
  "collation f \<longleftrightarrow> (\<forall>a b. sgn (f a b) = - sgn (f b a)) \<and> (\<forall>a b c. f a b \<le> 0 \<longrightarrow> f b c \<le> 0 \<longrightarrow> f a c \<le> 0)"

definition then_by :: "('a \<Rightarrow> 'a \<Rightarrow> int) \<Rightarrow> ('a \<Rightarrow> 'a \<Rightarrow> int) \<Rightarrow> 'a \<Rightarrow> 'a \<Rightarrow> int" where
  "then_by f g x y = (if f x y \<noteq> 0 then f x y else g x y)"

lemma sgn_swap:
  fixes x y :: int
  assumes "sgn x = - sgn y"
  shows "x < 0 \<longleftrightarrow> y > 0" "x = 0 \<longleftrightarrow> y = 0"
  using assms by (auto simp: sgn_if split: if_splits)

lemma collation_sgn: "collation f \<Longrightarrow> sgn (f a b) = - sgn (f b a)"
  unfolding collation_def by blast

lemma collation_swap:
  assumes "collation f"
  shows "f a b < 0 \<longleftrightarrow> f b a > 0" "f a b = 0 \<longleftrightarrow> f b a = 0"
proof -
  have "sgn (f a b) = - sgn (f b a)" by (rule collation_sgn [OF assms])
  then show "f a b < 0 \<longleftrightarrow> f b a > 0" "f a b = 0 \<longleftrightarrow> f b a = 0" by (rule sgn_swap)+
qed

lemma collation_le_trans: "collation f \<Longrightarrow> f a b \<le> 0 \<Longrightarrow> f b c \<le> 0 \<Longrightarrow> f a c \<le> 0"
  unfolding collation_def by blast

lemma collation_trans_strict:
  assumes "collation f" "f a b \<le> 0" "f b c \<le> 0" "f a b < 0 \<or> f b c < 0"
  shows "f a c < 0"
proof (rule ccontr)
  assume "\<not> f a c < 0"
  then have ca: "f c a \<le> 0" using collation_swap [OF assms(1), of c a] by linarith
  have "f b a \<le> 0" by (rule collation_le_trans [OF assms(1,3) ca])
  moreover have "f c b \<le> 0" by (rule collation_le_trans [OF assms(1) ca assms(2)])
  ultimately show False using assms(4) collation_swap [OF assms(1), of a b] collation_swap [OF assms(1), of b c]
    by linarith
qed

lemma then_by_collation:
  assumes "collation f" "collation g"
  shows "collation (then_by f g)"
proof -
  have 1: "sgn (then_by f g a b) = - sgn (then_by f g b a)" for a b
  proof (cases "f a b = 0")
    case True
    then have "then_by f g a b = g a b" "then_by f g b a = g b a"
      using collation_swap(2) [OF assms(1), of a b] by (simp_all add: then_by_def)
    then show ?thesis using collation_sgn [OF assms(2), of a b] by metis
  next
    case False
    then have "then_by f g a b = f a b" "then_by f g b a = f b a"
      using collation_swap(2) [OF assms(1), of a b] by (simp_all add: then_by_def)
    then show ?thesis using collation_sgn [OF assms(1), of a b] by metis
  qed
  have 2: "then_by f g a c \<le> 0" if "then_by f g a b \<le> 0" "then_by f g b c \<le> 0" for a b c
  proof -
    have le: "f a b \<le> 0" "f b c \<le> 0" using that by (auto simp: then_by_def split: if_splits)
    show ?thesis
    proof (cases "f a b < 0 \<or> f b c < 0")
      case True
      then show ?thesis using collation_trans_strict [OF assms(1) le] by (simp add: then_by_def)
    next
      case False
      then have z: "f a b = 0" "f b c = 0" using le by auto
      then have "g a b \<le> 0" "g b c \<le> 0" using that by (auto simp: then_by_def)
      then have "g a c \<le> 0" using collation_le_trans [OF assms(2)] by blast
      then show ?thesis using collation_le_trans [OF assms(1) le] by (auto simp: then_by_def)
    qed
  qed
  show ?thesis unfolding collation_def using 1 2 by blast
qed

lemma collation_on: "collation f \<Longrightarrow> collation (\<lambda>x y. f (h x) (h y))"
  unfolding collation_def by blast

lemma collation_consistent: "collation f \<Longrightarrow> consistent f"
  unfolding consistent_def using collation_swap collation_le_trans by (metis linorder_not_le order_less_imp_le)

lemma claim_order_collation: "collation collate \<Longrightarrow> collation (claim_order collate)"
proof -
  assume c: "collation collate"
  have "claim_order collate = then_by (\<lambda>l r. collate (lc_scannedAt l) (lc_scannedAt r))
      (then_by (\<lambda>l r. collate (lc_deviceId l) (lc_deviceId r)) (\<lambda>l r. collate (lc_eventId l) (lc_eventId r)))"
    by (auto simp: fun_eq_iff claim_order_def then_by_def)
  then show ?thesis using c by (simp add: then_by_collation collation_on)
qed

lemma firstClaim_Inr:
  assumes "claims \<noteq> []"
  shows "\<exists>w. firstClaim collate claims = Inr w \<and> w \<in> set claims
    \<and> (collation collate \<longrightarrow> (\<forall>c \<in> set claims. claim_order collate w c \<le> 0))"
proof -
  obtain w rest where s: "js_sort (claim_order collate) claims = w # rest"
    using assms by (metis length_0_conv length_js_sort list.exhaust)
  then have m: "set claims = insert w (set rest)" by (metis list.simps(15) set_js_sort)
  have "\<forall>c \<in> set claims. claim_order collate w c \<le> 0" if "collation collate"
  proof -
    have k: "collation (claim_order collate)" by (rule claim_order_collation [OF that])
    then have "sorted_wrt (\<lambda>a b. claim_order collate a b \<le> 0) (w # rest)"
      using js_sort_sorted [OF collation_consistent [OF k], of claims] s by simp
    moreover have "claim_order collate w w = 0" using collation_swap(1) [OF k, of w w] by linarith
    ultimately show ?thesis using m by auto
  qed
  then show ?thesis using s m by (auto simp: firstClaim_def)
qed

section \<open>Lemmas: scans\<close>

definition unclaimed_rows :: "scan_context \<Rightarrow> jstring \<Rightarrow> scan_snapshot_row list" where
  "unclaimed_rows ctx sscc = filter (\<lambda>r. findLocalClaim ctx (sr_codeHash r) = None) (findSnapshotChildren ctx sscc)"

lemma unclaimed_children:
  "filter (\<lambda>c. bc_firstWinning c = None) (box_children ctx rows)
     = box_children ctx (filter (\<lambda>r. findLocalClaim ctx (sr_codeHash r) = None) rows)"
  by (induction rows) (auto simp: box_children_def)

lemma child_claims:
  "set (List.map_filter bc_firstWinning (box_children ctx rows))
     = {w. \<exists>r \<in> set rows. findLocalClaim ctx (sr_codeHash r) = Some w}"
  by (induction rows) (auto simp: box_children_def map_filter_simps split: option.splits)

text \<open>What the classification of a box promises.\<close>

definition box_claim_ok :: "(jstring \<Rightarrow> jstring \<Rightarrow> int) \<Rightarrow> scan_context \<Rightarrow> jstring \<Rightarrow> inventory_class \<Rightarrow> bool" where
  "box_claim_ok collate ctx sscc cls = (case cls of
     Inv_unknown (Old_box s) \<Rightarrow> s = sscc \<and> findSnapshotChildren ctx sscc = []
   | Inv_duplicate (Known_box s ch) w \<Rightarrow> s = sscc \<and> unclaimed_rows ctx sscc = []
       \<and> (\<exists>r \<in> set (findSnapshotChildren ctx sscc). findLocalClaim ctx (sr_codeHash r) = Some w)
       \<and> (\<forall>r v. r \<in> set (findSnapshotChildren ctx sscc) \<longrightarrow> findLocalClaim ctx (sr_codeHash r) = Some v
            \<longrightarrow> claim_order collate w v \<le> 0)
   | Inv_expected (Known_box s ch) \<Rightarrow> s = sscc \<and> (\<exists>r \<in> set (unclaimed_rows ctx sscc). origin r = Origin_expected)
   | Inv_protected (Known_box s ch) None \<Rightarrow> s = sscc \<and> (\<exists>r \<in> set (unclaimed_rows ctx sscc). origin r = Origin_protected)
       \<and> (\<forall>r. r \<in> set (unclaimed_rows ctx sscc) \<longrightarrow> origin r \<noteq> Origin_expected)
   | Inv_known_ineligible (Known_box s ch) None \<Rightarrow> s = sscc \<and> unclaimed_rows ctx sscc \<noteq> []
       \<and> (\<forall>r. r \<in> set (unclaimed_rows ctx sscc) \<longrightarrow> origin r = Origin_known_ineligible)
   | _ \<Rightarrow> False)"

lemma classify_box_ok:
  assumes "collation collate"
  shows "\<exists>cls. classify_box collate ctx sscc = Inr cls \<and> box_claim_ok collate ctx sscc cls"
proof -
  let ?rows = "findSnapshotChildren ctx sscc"
  let ?un = "box_children ctx (unclaimed_rows ctx sscc)"
  have u: "filter (\<lambda>c. bc_firstWinning c = None) (box_children ctx ?rows) = ?un"
    by (simp add: unclaimed_children unclaimed_rows_def)
  have ex: "list_ex (\<lambda>c. bc_origin c = k) ?un \<longleftrightarrow> (\<exists>r \<in> set (unclaimed_rows ctx sscc). origin r = k)" for k
    by (auto simp: list_ex_iff box_children_def)
  have e: "?un = [] \<longleftrightarrow> unclaimed_rows ctx sscc = []" by (simp add: box_children_def)
  show ?thesis
  proof (cases "?rows = []")
    case True
    then show ?thesis by (simp add: classify_box_def box_claim_ok_def)
  next
    case ne: False
    show ?thesis
    proof (cases "unclaimed_rows ctx sscc = []")
      case True
      then have "List.map_filter bc_firstWinning (box_children ctx ?rows) \<noteq> []"
        using ne child_claims [of ctx ?rows] by (cases ?rows) (auto simp: unclaimed_rows_def split: if_splits)
      then obtain w where w: "firstClaim collate (List.map_filter bc_firstWinning (box_children ctx ?rows)) = Inr w"
          "w \<in> set (List.map_filter bc_firstWinning (box_children ctx ?rows))"
          "\<forall>c \<in> set (List.map_filter bc_firstWinning (box_children ctx ?rows)). claim_order collate w c \<le> 0"
        using firstClaim_Inr assms by blast
      have "classify_box collate ctx sscc = Inr (Inv_duplicate (Known_box sscc (box_children ctx ?rows)) w)"
        using ne True w(1) u e by (simp add: classify_box_def Let_def)
      then show ?thesis using True w(2,3) child_claims [of ctx ?rows] by (auto simp: box_claim_ok_def)
    next
      case False
      have d: "origin r \<noteq> Origin_expected \<Longrightarrow> origin r \<noteq> Origin_protected \<Longrightarrow> origin r = Origin_known_ineligible" for r
        by (cases "origin r") auto
      show ?thesis using ne False u e ex d by (auto simp: classify_box_def Let_def box_claim_ok_def)
    qed
  qed
qed

text \<open>What the classification of an item promises.\<close>

definition item_claim_ok ::
    "(nat list \<Rightarrow> jstring) \<Rightarrow> scan_context \<Rightarrow> jstring \<Rightarrow> inventory_class \<Rightarrow> bool" where
  "item_claim_ok sha ctx raw cls =
     (\<exists>km. canonicalizeKm raw = Inr km
        \<and> (if km_gtin14 km \<noteq> taskGtin14 ctx then cls = Inv_invalid Reason_wrong_gtin
           else let h = kmHash sha km; ident = Item_identity h (km_raw km) (km_gtin14 km) (km_serial km) in
             (case findLocalClaim ctx h of
                Some w \<Rightarrow> cls = Inv_duplicate ident w
              | None \<Rightarrow>
                  (case findSnapshotCode ctx h of
                     None \<Rightarrow> cls = Inv_unknown ident
                   | Some row \<Rightarrow>
                       cls = (if moving_by_ud (sr_sourceState row) \<or> sr_protected row
                              then Inv_protected ident (Some (sr_sourceStatus row))
                              else if sr_expected row then Inv_expected ident
                              else Inv_known_ineligible ident (Some (sr_sourceStatus row)))))))"

lemma classifyItem_ok:
  assumes "canonicalizeKm raw = Inr km"
  shows "item_claim_ok sha ctx raw (classifyItem sha raw ctx)"
  using assms
  by (auto simp: item_claim_ok_def classifyItem_def Let_def origin_def split: option.splits)

text \<open>The answer a set of dates gives.\<close>

definition date_of_set :: "jstring set \<Rightarrow> source_date" where
  "date_of_set ds = (if ds = {} then Date_none
     else if \<exists>d. ds = {d} then Date_single False (the_elem ds) else Date_mixed)"

definition row_dates :: "jstring set \<Rightarrow> scan_snapshot_row list \<Rightarrow> jstring set" where
  "row_dates u rows = {d. \<exists>r \<in> set rows. sr_codeHash r \<in> u \<and> sr_sourceProductionDate r = Some d}"

lemma date_of_set_mixed: "c \<in> ds \<Longrightarrow> d \<in> ds \<Longrightarrow> c \<noteq> d \<Longrightarrow> date_of_set ds = Date_mixed"
  by (auto simp: date_of_set_def)

lemma row_dates_Cons:
  "row_dates u (row # rows) = (if sr_codeHash row \<in> u then set_option (sr_sourceProductionDate row) else {}) \<union> row_dates u rows"
  by (auto simp: row_dates_def)

lemma date_loop_spec: "date_loop u cur rows = date_of_set (set_option cur \<union> row_dates u rows)"
proof (induction u cur rows rule: date_loop.induct)
  case (1 u cur)
  then show ?case by (cases cur) (auto simp: date_of_set_def row_dates_def)
next
  case (2 u cur row rows)
  show ?case
  proof (cases "sr_codeHash row \<in> u \<and> sr_sourceProductionDate row \<noteq> None")
    case False
    then show ?thesis using 2(1,2) by (auto simp: row_dates_Cons)
  next
    case True
    then obtain d where d: "sr_codeHash row \<in> u" "sr_sourceProductionDate row = Some d" by auto
    show ?thesis
    proof (cases "cur \<noteq> None \<and> cur \<noteq> Some d")
      case True
      then obtain c where "cur = Some c" "c \<noteq> d" by auto
      then show ?thesis using d date_of_set_mixed [of c _ d] by (simp add: row_dates_Cons)
    next
      case False
      then have "set_option cur \<union> row_dates u (row # rows) = set_option (Some d) \<union> row_dates u rows"
        using d by (cases cur) (auto simp: row_dates_Cons)
      moreover have "date_loop u cur (row # rows) = date_loop u (Some d) rows" using d False by auto
      moreover have "date_loop u (Some d) rows = date_of_set (set_option (Some d) \<union> row_dates u rows)"
        using 2(3) d False by blast
      ultimately show ?thesis by simp
    qed
  qed
qed

section \<open>Lemmas: final boxes\<close>

lemma verified_by_hash_Some: "verified_by_hash src h = Some c \<Longrightarrow> c \<in> set (ds_verified src) \<and> vc_codeHash c = h"
  by (auto simp: verified_by_hash_def dest!: map_of_SomeD)

lemma final_boxes_of_mem:
  "fb \<in> set (final_boxes_of iso_date src box) \<longleftrightarrow>
     final_boxes_of iso_date src box = [fb] \<and> box_shape_ok iso_date box
     \<and> list_all (code_eligible src box) (nb_codeHashes box)"
  by (auto simp: final_boxes_of_def)

lemma final_box_codes:
  assumes "final_boxes_of iso_date src box = [fb]"
  shows "fb_sscc fb = nb_sscc box \<and> fb_productionDate fb = nb_productionDate box
    \<and> vc_codeHash ` set (fb_codes fb) = set (nb_codeHashes box)
    \<and> set (fb_codes fb) \<subseteq> set (ds_verified src)
    \<and> sorted (map (utf8 \<circ> vc_canonicalRaw) (fb_codes fb))"
proof -
  let ?cs = "map (\<lambda>h. the (verified_by_hash src h)) (nb_codeHashes box)"
  have e: "list_all (code_eligible src box) (nb_codeHashes box)"
      "fb = \<lparr>fb_sscc = nb_sscc box, fb_oldSsccContext = nb_oldSsccContext box,
        fb_productionDate = nb_productionDate box,
        fb_codes = js_sort (createUtf8ByteComparator vc_canonicalRaw) ?cs\<rparr>"
    using assms by (auto simp: final_boxes_of_def split: if_splits)
  have v: "the (verified_by_hash src h) \<in> set (ds_verified src) \<and> vc_codeHash (the (verified_by_hash src h)) = h"
    if "h \<in> set (nb_codeHashes box)" for h
    using e(1) that verified_by_hash_Some by (fastforce simp: list_all_iff code_eligible_def split: option.splits)
  have "sorted_wrt (\<lambda>a b. createUtf8ByteComparator vc_canonicalRaw a b \<le> 0) (fb_codes fb)"
    using js_sort_sorted [OF utf8_comparator_consistent] e(2) by simp
  then have "sorted (map (utf8 \<circ> vc_canonicalRaw) (fb_codes fb))"
    by (simp add: createUtf8ByteComparator_def compareBytes_eq compareText_le sorted_wrt_map)
  moreover have "vc_codeHash ` set (fb_codes fb) = set (nb_codeHashes box)"
    using v by (force simp: e(2) image_image)
  ultimately show ?thesis using v by (auto simp: e(2))
qed

lemma select_sorted:
  "sorted (map fb_sscc (selectEligibleInventoryFinalBoxes iso_date src))"
proof -
  have one: "length (final_boxes_of iso_date src box) \<le> 1 \<and> (\<forall>fb \<in> set (final_boxes_of iso_date src box). fb_sscc fb = nb_sscc box)" for box
    by (simp add: final_boxes_of_def)
  have "sorted (map fb_sscc (concat (map (final_boxes_of iso_date src) bs)))" if "sorted (map nb_sscc bs)" for bs
    using that
  proof (induction bs)
    case (Cons b bs)
    have "nb_sscc b \<le> fb_sscc fb" if "fb \<in> set (concat (map (final_boxes_of iso_date src) bs))" for fb
      using that Cons.prems one by fastforce
    then show ?case using Cons one [of b]
      by (cases "final_boxes_of iso_date src b") (auto simp: Suc_le_eq)
  qed simp
  moreover have "sorted (map nb_sscc (js_sort (\<lambda>l r. compareText (nb_sscc l) (nb_sscc r)) (ds_newBoxes src)))"
    using js_sort_sorted [OF compareText_consistent [of nb_sscc], of "ds_newBoxes src"]
    by (simp add: compareText_le sorted_wrt_map)
  ultimately show ?thesis by (simp add: selectEligibleInventoryFinalBoxes_def)
qed

section \<open>Properties\<close>

text \<open>A comparison of strings by their code units is one possible collation.\<close>

lemma compareText_collation: "collation compareText"
  unfolding collation_def by (auto simp: compareText_def)

definition sample_row :: scan_snapshot_row where
  "sample_row = \<lparr>sr_codeHash = lit ''h1'', sr_canonicalRaw = [], sr_gtin14 = [], sr_serial = [],
     sr_sourceStatus = INTRODUCED, sr_sourceState = None, sr_sourceProductionDate = Some (lit ''2026-01-05''),
     sr_expected = True, sr_protected = False, sr_parentSscc = Some (lit ''346070200000123459'')\<rparr>"

definition sample_claim :: local_claim where
  "sample_claim = \<lparr>lc_codeHash = lit ''h1'', lc_eventId = lit ''e'', lc_deviceId = lit ''d'', lc_scannedAt = lit ''t''\<rparr>"

definition sample_ctx :: scan_context where
  "sample_ctx = \<lparr>taskGtin14 = [], findSnapshotCode = (\<lambda>h. None), findSnapshotChildren = (\<lambda>s. [sample_row]),
     findLocalClaim = (\<lambda>h. Some sample_claim)\<rparr>"

text \<open>Classifying an inventory scan never fails, and the first claim wins: a claimed code is a
  duplicate of its recorded claim whatever the snapshot says, an unclaimed one is judged by its
  snapshot row with protection before expectation, a box is a duplicate only when every code in it
  is claimed and then names the earliest of those claims, and otherwise is judged by its
  unclaimed codes alone.\<close>

theorem inventory_scan_first_claim:
  assumes "collation collate"
  shows "\<exists>cls. classifyInventoryScan sha collate raw ctx = Inr cls
    \<and> (case classifyScan raw of
         ScanKm km \<Rightarrow> item_claim_ok sha ctx raw cls
       | ScanSscc sscc \<Rightarrow> box_claim_ok collate ctx sscc cls
       | ScanGtin _ \<Rightarrow> cls = Inv_invalid Reason_unsupported
       | ScanUnknown _ \<Rightarrow> cls = Inv_invalid Reason_malformed)"
proof (cases "classifyScan raw")
  case (ScanKm km)
  then show ?thesis using classifyItem_ok [OF classifyScan_ScanKm [OF ScanKm]]
    by (simp add: classifyInventoryScan_def)
next
  case (ScanSscc sscc)
  then show ?thesis using classify_box_ok [OF assms] by (simp add: classifyInventoryScan_def)
qed (simp_all add: classifyInventoryScan_def)

theorem inventory_scan_first_claim_witness:
  "\<exists>cls. classifyInventoryScan id compareText (lit ''346070200000123459'') sample_ctx = Inr cls
     \<and> box_claim_ok compareText sample_ctx (lit ''346070200000123459'') cls"
proof -
  have "isValidSscc (lit ''346070200000123459'')" by code_simp
  then have "classifyScan ([] @ [] @ lit ''346070200000123459'' @ []) = ScanSscc (lit ''346070200000123459'')"
    by (intro classifyScan_sscc) (simp_all add: sscc_wrappers_def)
  then show ?thesis using inventory_scan_first_claim [OF compareText_collation] by fastforce
qed

text \<open>The production date a scanned box suggests is the one date shared by its unclaimed expected
  codes: there is none when none of them carries a date, it is mixed as soon as two of them differ,
  and codes that are claimed, protected or ineligible have no influence.\<close>

theorem inventory_box_date:
  assumes "classify_box collate ctx sscc = Inr (Inv_expected ident)"
    "distinct (map sr_codeHash (findSnapshotChildren ctx sscc))"
    "dates = {d. \<exists>r \<in> set (unclaimed_rows ctx sscc). origin r = Origin_expected \<and> sr_sourceProductionDate r = Some d}"
  shows "(dates = {} \<longrightarrow> resolveInventoryScanSourceDate (Inv_expected ident) ctx = Date_none)
    \<and> (\<forall>d. dates = {d} \<longrightarrow> resolveInventoryScanSourceDate (Inv_expected ident) ctx = Date_single False d)
    \<and> (\<forall>c d. c \<in> dates \<longrightarrow> d \<in> dates \<longrightarrow> c \<noteq> d \<longrightarrow>
         resolveInventoryScanSourceDate (Inv_expected ident) ctx = Date_mixed)"
proof -
  let ?rows = "findSnapshotChildren ctx sscc"
  have i: "ident = Known_box sscc (box_children ctx ?rows)"
    using assms(1) by (auto simp: classify_box_def Let_def split: if_splits sum.splits)
  let ?u = "bc_codeHash ` {c \<in> set (box_children ctx ?rows). bc_firstWinning c = None \<and> bc_origin c = Origin_expected}"
  have u: "sr_codeHash r \<in> ?u \<longleftrightarrow> r \<in> set (unclaimed_rows ctx sscc) \<and> origin r = Origin_expected"
    if "r \<in> set ?rows" for r
    using that assms(2) by (force simp: box_children_def unclaimed_rows_def distinct_map inj_on_def)
  then have "row_dates ?u ?rows = dates"
    unfolding assms(3) row_dates_def using u by (auto simp: unclaimed_rows_def)
  then have "resolveInventoryScanSourceDate (Inv_expected ident) ctx = date_of_set dates"
    by (simp add: i resolveInventoryScanSourceDate_def date_loop_spec)
  then show ?thesis by (auto simp: date_of_set_def)
qed

theorem inventory_box_date_witness:
  "resolveInventoryScanSourceDate
     (Inv_expected (Known_box [] (box_children (sample_ctx\<lparr>findLocalClaim := \<lambda>h. None\<rparr>) [sample_row])))
     (sample_ctx\<lparr>findLocalClaim := \<lambda>h. None\<rparr>) = Date_single False (lit ''2026-01-05'')"
proof -
  let ?ctx = "sample_ctx\<lparr>findLocalClaim := \<lambda>h. None\<rparr>"
  have o: "origin sample_row = Origin_expected" by (simp add: origin_def sample_row_def moving_by_ud_def)
  have c: "classify_box compareText ?ctx [] = Inr (Inv_expected (Known_box [] (box_children ?ctx [sample_row])))"
    using o by (simp add: classify_box_def sample_ctx_def box_children_def)
  have d: "{d. \<exists>r \<in> set (unclaimed_rows ?ctx []). origin r = Origin_expected \<and> sr_sourceProductionDate r = Some d}
      = {lit ''2026-01-05''}"
    using o by (auto simp: unclaimed_rows_def sample_ctx_def sample_row_def)
  have e: "distinct (map sr_codeHash (findSnapshotChildren ?ctx []))" by (simp add: sample_ctx_def)
  show ?thesis using inventory_box_date [OF c e refl] unfolding d by simp
qed

text \<open>Snapshot and scan agree: for a row whose flags were derived by the snapshot classification,
  the scan reads the same disposition, a moving code is always protected, and a code is expected
  only when it is introduced, not moving, and produced within the date range of the task.\<close>

theorem snapshot_scan_agree:
  assumes "sr_expected row = snap_expected (classifyInventorySnapshotRow src dateFrom dateTo)"
    "sr_protected row = snap_protected (classifyInventorySnapshotRow src dateFrom dateTo)"
    "sr_sourceState row = ss_state src"
  shows "(origin row = Origin_protected \<longleftrightarrow> moving_by_ud (ss_state src))
    \<and> (origin row = Origin_expected \<longleftrightarrow>
         canDisposeChzCode (ss_status src) (ss_state src)
         \<and> (\<exists>d. ss_sourceProductionDate src = Some d \<and> dateFrom \<le> d \<and> d \<le> dateTo))"
  using assms
  by (auto simp: origin_def classifyInventorySnapshotRow_def snap_expected_def snap_protected_def
      canDisposeChzCode_def not_less split: option.splits if_splits)

theorem snapshot_scan_agree_witness:
  "canDisposeChzCode INTRODUCED None \<and> lit ''2026-01-01'' \<le> lit ''2026-01-05''"
proof -
  let ?src = "\<lparr>ss_gtin14 = [], ss_status = INTRODUCED, ss_state = None,
    ss_sourceProductionDate = Some (lit ''2026-01-05'')\<rparr>"
  have le: "\<not> lit ''2026-01-05'' < lit ''2026-01-01''" "\<not> lit ''2026-01-31'' < lit ''2026-01-05''"
    by (simp_all add: lit_def)
  have "classifyInventorySnapshotRow ?src (lit ''2026-01-01'') (lit ''2026-01-31'') = Snap_expected"
    using le by (simp add: classifyInventorySnapshotRow_def moving_by_ud_def canDisposeChzCode_def)
  moreover have "origin sample_row = Origin_expected" by (simp add: origin_def sample_row_def moving_by_ud_def)
  ultimately show ?thesis
    using snapshot_scan_agree [of sample_row ?src "lit ''2026-01-01''" "lit ''2026-01-31''"]
    by (auto simp: sample_row_def snap_expected_def snap_protected_def)
qed

text \<open>C27: The closing documents contain exactly the boxes that are finished and clean: a box is selected
  if and only if it is closed, printed, dated, not empty and free of repeated codes, and every one
  of its codes is verified, not protected and observed with the date of the box. The selection is
  in the order of the box codes, and each box lists precisely its own codes, in byte order.\<close>

theorem inventory_final_boxes:
  "sorted (map fb_sscc (selectEligibleInventoryFinalBoxes iso_date src))
   \<and> (\<forall>box. box \<in> set (ds_newBoxes src) \<longrightarrow>
        ((\<exists>fb \<in> set (selectEligibleInventoryFinalBoxes iso_date src). final_boxes_of iso_date src box = [fb]) \<longleftrightarrow>
           nb_state box = Box_closed \<and> nb_printState box = Print_printed \<and> iso_date (nb_productionDate box)
           \<and> nb_codeHashes box \<noteq> [] \<and> distinct (nb_codeHashes box)
           \<and> (\<forall>h. h \<in> set (nb_codeHashes box) \<longrightarrow> h \<notin> pc_codeHash ` set (ds_protected src)
                \<and> (\<exists>c. verified_by_hash src h = Some c \<and> vc_observedProductionDate c = Some (nb_productionDate box)))))
   \<and> (\<forall>fb. fb \<in> set (selectEligibleInventoryFinalBoxes iso_date src) \<longrightarrow>
        (\<exists>box \<in> set (ds_newBoxes src). fb_sscc fb = nb_sscc box
           \<and> vc_codeHash ` set (fb_codes fb) = set (nb_codeHashes box)
           \<and> sorted (map (utf8 \<circ> vc_canonicalRaw) (fb_codes fb))))"
proof (intro conjI allI impI)
  show "sorted (map fb_sscc (selectEligibleInventoryFinalBoxes iso_date src))" by (rule select_sorted)
next
  fix box assume b: "box \<in> set (ds_newBoxes src)"
  have "(\<exists>fb \<in> set (selectEligibleInventoryFinalBoxes iso_date src). final_boxes_of iso_date src box = [fb])
      \<longleftrightarrow> final_boxes_of iso_date src box \<noteq> []"
    using b by (auto simp: selectEligibleInventoryFinalBoxes_def final_boxes_of_def)
  also have "\<dots> \<longleftrightarrow> box_shape_ok iso_date box \<and> list_all (code_eligible src box) (nb_codeHashes box)"
    by (auto simp: final_boxes_of_def)
  also have "\<dots> \<longleftrightarrow> nb_state box = Box_closed \<and> nb_printState box = Print_printed \<and> iso_date (nb_productionDate box)
           \<and> nb_codeHashes box \<noteq> [] \<and> distinct (nb_codeHashes box)
           \<and> (\<forall>h. h \<in> set (nb_codeHashes box) \<longrightarrow> h \<notin> pc_codeHash ` set (ds_protected src)
                \<and> (\<exists>c. verified_by_hash src h = Some c \<and> vc_observedProductionDate c = Some (nb_productionDate box)))"
    by (auto simp: box_shape_ok_def code_eligible_def list_all_iff card_distinct distinct_card split: option.splits)
  finally show "(\<exists>fb \<in> set (selectEligibleInventoryFinalBoxes iso_date src). final_boxes_of iso_date src box = [fb]) \<longleftrightarrow>
      nb_state box = Box_closed \<and> nb_printState box = Print_printed \<and> iso_date (nb_productionDate box)
           \<and> nb_codeHashes box \<noteq> [] \<and> distinct (nb_codeHashes box)
           \<and> (\<forall>h. h \<in> set (nb_codeHashes box) \<longrightarrow> h \<notin> pc_codeHash ` set (ds_protected src)
                \<and> (\<exists>c. verified_by_hash src h = Some c \<and> vc_observedProductionDate c = Some (nb_productionDate box)))" .
next
  fix fb assume "fb \<in> set (selectEligibleInventoryFinalBoxes iso_date src)"
  then obtain box where "box \<in> set (ds_newBoxes src)" "fb \<in> set (final_boxes_of iso_date src box)"
    by (auto simp: selectEligibleInventoryFinalBoxes_def)
  then show "\<exists>box \<in> set (ds_newBoxes src). fb_sscc fb = nb_sscc box
      \<and> vc_codeHash ` set (fb_codes fb) = set (nb_codeHashes box)
      \<and> sorted (map (utf8 \<circ> vc_canonicalRaw) (fb_codes fb))"
    using final_box_codes final_boxes_of_mem by blast
qed

definition sample_new_box :: new_box where
  "sample_new_box = \<lparr>nb_sscc = lit ''1'', nb_oldSsccContext = None, nb_state = Box_closed,
     nb_printState = Print_printed, nb_productionDate = lit ''2026-01-05'', nb_codeHashes = [lit ''h1'']\<rparr>"

definition sample_source :: document_source where
  "sample_source = \<lparr>ds_writeOffCandidates = [],
     ds_verified = [\<lparr>vc_codeHash = lit ''h1'', vc_canonicalRaw = lit ''c1'',
       vc_observedProductionDate = Some (lit ''2026-01-05'')\<rparr>],
     ds_protected = [], ds_oldBoxes = [], ds_newBoxes = [sample_new_box]\<rparr>"

theorem inventory_final_boxes_witness:
  "\<exists>fb \<in> set (selectEligibleInventoryFinalBoxes (\<lambda>d. True) sample_source).
     final_boxes_of (\<lambda>d. True) sample_source sample_new_box = [fb]"
  using inventory_final_boxes [of "\<lambda>d. True" sample_source]
  by (auto simp: sample_source_def sample_new_box_def verified_by_hash_def)

end
