(* ===== verification/Gismt_Documents.thy ===== *)
theory Gismt_Documents
  imports Km_Codes Document_Text
begin

text \<open>
  The XML documents for the state system GIS MT: aggregation
  (\<open>packages/domain/src/gismt-aggregation.ts\<close>), which reports the codes packed into boxes and the
  boxes stacked on pallets, and disaggregation (\<open>gismt-disaggregation.ts\<close>). Both renderers are
  modelled down to the bytes, with every refusal as an error value, in the order in which the
  code evaluates its parts. The canonical ISO timestamps they ask for are modelled by their
  fields: \<open>new Date(v).toISOString() === v\<close> holds for exactly those strings.
\<close>

section \<open>Errors\<close>

datatype gismt_aggregation_code =
  ORG_INN_MISSING | INVALID_ORG_INN | INVALID_DOCUMENT_METADATA | INVALID_SSCC | INVALID_CIS

datatype gismt_disaggregation_code =
  INVALID_ORGANIZATION_INN | DISAGGREGATION_INVALID_SSCC | DISAGGREGATION_EMPTY_SOURCE

datatype shift_export_code =
    FORMAT_NOT_FOUND | FORMAT_SOURCE_MISMATCH | EMPTY_SOURCE | INVALID_LINE_LIMIT
  | BOX_EXCEEDS_LINE_LIMIT | PALLET_EXCEEDS_LINE_LIMIT | INVALID_BOX_SSCC
  | SHIFT_INVALID_CIS | SHIFT_INVALID_ORG_INN | SHIFT_INVALID_DOCUMENT_METADATA
  | SHIFT_ORG_INN_MISSING | ORG_NAME_MISSING | DOCUMENT_METADATA_MISSING

datatype doc_error =
    GismtAggregationError gismt_aggregation_code
  | GismtDisaggregationError gismt_disaggregation_code
  | ShiftExportDomainError shift_export_code
  | Thrown js_error

text \<open>\<open>map\<close> with a function that may throw: the first error ends it.\<close>

fun collect :: "('a \<Rightarrow> 'e + 'b) \<Rightarrow> 'a list \<Rightarrow> 'e + 'b list" where
  "collect f [] = Inr []"
| "collect f (x # xs) =
     (case f x of
        Inl e \<Rightarrow> Inl e
      | Inr y \<Rightarrow> (case collect f xs of Inl e \<Rightarrow> Inl e | Inr ys \<Rightarrow> Inr (y # ys)))"

section \<open>Timestamps\<close>

definition leap_year :: "nat \<Rightarrow> bool" where
  "leap_year y \<longleftrightarrow> y mod 4 = 0 \<and> (y mod 100 \<noteq> 0 \<or> y mod 400 = 0)"

definition days_in_month :: "nat \<Rightarrow> nat \<Rightarrow> nat" where
  "days_in_month y m = (if m = 2 then (if leap_year y then 29 else 28)
     else if m \<in> {4, 6, 9, 11} then 30 else 31)"

definition iso_tail_classes :: "(nat \<Rightarrow> bool) list" where
  "iso_tail_classes =
     (let d = is_digit; k = (\<lambda>c x. x = c)
      in [k 45, d, d, k 45, d, d, k 84, d, d, k 58, d, d, k 58, d, d, k 46, d, d, d, k 90])"

text \<open>\<open>-MM-DDTHH:mm:ss.sssZ\<close> with fields in range, after the year \<open>y\<close>.\<close>

definition iso_tail :: "nat \<Rightarrow> jstring \<Rightarrow> bool" where
  "iso_tail y t \<longleftrightarrow>
     matches iso_tail_classes t
     \<and> (let mo = num (slice 1 3 t); da = num (slice 4 6 t)
        in 1 \<le> mo \<and> mo \<le> 12 \<and> 1 \<le> da \<and> da \<le> days_in_month y mo)
     \<and> num (slice 7 9 t) \<le> 23 \<and> num (slice 10 12 t) \<le> 59 \<and> num (slice 13 15 t) \<le> 59"

definition isCanonicalIsoTimestamp :: "jstring \<Rightarrow> bool" where
  "isCanonicalIsoTimestamp v \<longleftrightarrow>
     digits_n 4 (take 4 v) \<and> iso_tail (num (take 4 v)) (drop 4 v)
     \<or> v \<noteq> [] \<and> digits_n 6 (slice 1 7 v) \<and> iso_tail (num (slice 1 7 v)) (drop 7 v)
       \<and> (hd v = 43 \<and> 10000 \<le> num (slice 1 7 v) \<and> v \<le> lit ''+275760-09-13T00:00:00.000Z''
          \<or> hd v = 45 \<and> 1 \<le> num (slice 1 7 v)
            \<and> (num (slice 1 7 v) < 271821
               \<or> num (slice 1 7 v) = 271821 \<and> lit ''-04-20T00:00:00.000Z'' \<le> drop 7 v))"

section \<open>Aggregation\<close>

record gismt_box =
  gb_sscc :: jstring
  gb_codes :: "jstring list"

record gismt_pallet =
  gp_sscc :: jstring
  gp_boxSsccs :: "jstring list"

record gismt_document =
  gd_documentId :: jstring
  gd_documentNumber :: jstring
  gd_fileDateTime :: jstring
  gd_operationDateTime :: jstring
  gd_organizationName :: jstring

record gismt_rendered =
  gr_bytes :: "nat list"
  gr_physicalLineCount :: nat
  gr_codeCount :: nat
  gr_boxCount :: nat

definition GISMT_AGGREGATION_OVERHEAD_LINE_COUNT :: nat where
  "GISMT_AGGREGATION_OVERHEAD_LINE_COUNT = 10"

definition gismtAggregationBoxLineCount :: "gismt_box \<Rightarrow> nat" where
  "gismtAggregationBoxLineCount box = 3 + length (gb_codes box)"

definition gismtAggregationPalletLineCount :: "gismt_pallet \<Rightarrow> nat" where
  "gismtAggregationPalletLineCount pallet = 3 + length (gp_boxSsccs pallet)"

text \<open>The pattern \<open>^(?:\d[1-9]|[1-9]\d)\d{8}$\<close>: ten digits, not both leading ones zero.\<close>

definition legal_entity_inn :: "jstring \<Rightarrow> bool" where
  "legal_entity_inn s \<longleftrightarrow> digits_n 10 s \<and> take 2 s \<noteq> lit ''00''"

definition isWithinLength :: "jstring \<Rightarrow> nat \<Rightarrow> bool" where
  "isWithinLength value maxLength \<longleftrightarrow>
     1 \<le> length value \<and> length value \<le> maxLength \<and> \<not> xml_prohibited value"

definition validateDocument :: "gismt_document \<Rightarrow> doc_error + gismt_document" where
  "validateDocument document =
     (let documentId = js_trim (gd_documentId document);
          documentNumber = js_trim (gd_documentNumber document);
          organizationName = js_trim (gd_organizationName document)
      in if \<not> isWithinLength documentId 150 \<or> \<not> isWithinLength documentNumber 150
            \<or> \<not> isWithinLength organizationName 1000
            \<or> \<not> isCanonicalIsoTimestamp (gd_fileDateTime document)
            \<or> \<not> isCanonicalIsoTimestamp (gd_operationDateTime document)
         then Inl (GismtAggregationError INVALID_DOCUMENT_METADATA)
         else Inr (document\<lparr>gd_documentId := documentId, gd_documentNumber := documentNumber,
                            gd_organizationName := organizationName\<rparr>))"

definition formatGismtAggregationSscc :: "jstring \<Rightarrow> doc_error + jstring" where
  "formatGismtAggregationSscc sscc =
     (case formatSsccWithAi sscc of
        Inr s \<Rightarrow> Inr s
      | Inl (DomainError _) \<Rightarrow> Inl (GismtAggregationError INVALID_SSCC)
      | Inl e \<Rightarrow> Inl (Thrown e))"

definition stripKmCryptoTail :: "jstring \<Rightarrow> doc_error + jstring" where
  "stripKmCryptoTail code =
     (case parseKmSegments code of
        Inr seg \<Rightarrow>
          (let cis = lit ''01'' @ seg_gtin14 seg @ lit ''21'' @ seg_serial seg
           in if xml_prohibited cis then Inl (GismtAggregationError INVALID_CIS) else Inr cis)
      | Inl (DomainError _) \<Rightarrow> Inl (GismtAggregationError INVALID_CIS)
      | Inl e \<Rightarrow> Inl (Thrown e))"

definition indent :: "nat \<Rightarrow> jstring" where
  "indent n = replicate n 32"

definition pack_lines :: "jstring \<Rightarrow> jstring list \<Rightarrow> jstring list" where
  "pack_lines sscc members =
     [indent 8 @ lit ''<pack_content>'',
      indent 12 @ lit ''<pack_code>'' @ xmlText sscc @ lit ''</pack_code>'']
     @ map (\<lambda>c. indent 12 @ lit ''<cis>'' @ xmlText c @ lit ''</cis>'') members
     @ [indent 8 @ lit ''</pack_content>'']"

definition box_lines :: "gismt_box \<Rightarrow> doc_error + jstring list" where
  "box_lines box =
     (case formatGismtAggregationSscc (gb_sscc box) of
        Inl e \<Rightarrow> Inl e
      | Inr sscc \<Rightarrow>
          (case collect stripKmCryptoTail (gb_codes box) of
             Inl e \<Rightarrow> Inl e | Inr codes \<Rightarrow> Inr (pack_lines sscc codes)))"

definition pallet_lines :: "gismt_pallet \<Rightarrow> doc_error + jstring list" where
  "pallet_lines pallet =
     (case formatGismtAggregationSscc (gp_sscc pallet) of
        Inl e \<Rightarrow> Inl e
      | Inr sscc \<Rightarrow>
          (case collect formatGismtAggregationSscc (gp_boxSsccs pallet) of
             Inl e \<Rightarrow> Inl e | Inr boxes \<Rightarrow> Inr (pack_lines sscc boxes)))"

definition head_lines :: "gismt_document \<Rightarrow> jstring \<Rightarrow> jstring list" where
  "head_lines d inn =
     [lit ''<?xml version=\"1.0\" encoding=\"UTF-8\"?>'',
      lit ''<unit_pack document_id=\"'' @ xmlAttribute (gd_documentId d)
        @ lit ''\" VerForm=\"1.03\" file_date_time=\"'' @ xmlAttribute (gd_fileDateTime d)
        @ lit ''\" action_id=\"30\" version=\"1\">'',
      indent 4 @ lit ''<Document operation_date_time=\"'' @ xmlAttribute (gd_operationDateTime d)
        @ lit ''\" document_number=\"'' @ xmlAttribute (gd_documentNumber d) @ lit ''\">'',
      indent 8 @ lit ''<organisation>'',
      indent 12 @ lit ''<id_info>'',
      indent 16 @ lit ''<LP_info org_name=\"'' @ xmlAttribute (gd_organizationName d)
        @ lit ''\" LP_TIN=\"'' @ xmlAttribute inn @ lit ''\" />'',
      indent 12 @ lit ''</id_info>'',
      indent 8 @ lit ''</organisation>'']"

definition tail_lines :: "jstring list" where
  "tail_lines = [indent 4 @ lit ''</Document>'', lit ''</unit_pack>'']"

text \<open>The lines of the document: head, every box, every pallet, tail.\<close>

definition aggregation_lines ::
    "jstring \<Rightarrow> gismt_document \<Rightarrow> gismt_box list \<Rightarrow> gismt_pallet list \<Rightarrow> doc_error + jstring list" where
  "aggregation_lines inn d boxes pallets =
     (case collect box_lines boxes of
        Inl e \<Rightarrow> Inl e
      | Inr bs \<Rightarrow>
          (case collect pallet_lines pallets of
             Inl e \<Rightarrow> Inl e
           | Inr ps \<Rightarrow> Inr (head_lines d inn @ concat bs @ concat ps @ tail_lines)))"

definition renderGismtAggregationXml ::
    "jstring \<Rightarrow> gismt_document \<Rightarrow> gismt_box list \<Rightarrow> gismt_pallet list \<Rightarrow> doc_error + gismt_rendered" where
  "renderGismtAggregationXml inn0 document0 boxes pallets =
     (let inn = js_trim inn0
      in if inn = [] then Inl (GismtAggregationError ORG_INN_MISSING)
         else if \<not> legal_entity_inn inn then Inl (GismtAggregationError INVALID_ORG_INN)
         else (case validateDocument document0 of
                 Inl e \<Rightarrow> Inl e
               | Inr document \<Rightarrow>
                   (case aggregation_lines inn document boxes pallets of
                      Inl e \<Rightarrow> Inl e
                    | Inr lines \<Rightarrow>
                        Inr \<lparr>gr_bytes = utf8 (join [10] lines @ [10]),
                             gr_physicalLineCount = GISMT_AGGREGATION_OVERHEAD_LINE_COUNT
                               + sum_list (map gismtAggregationBoxLineCount boxes)
                               + sum_list (map gismtAggregationPalletLineCount pallets),
                             gr_codeCount = sum_list (map (\<lambda>b. length (gb_codes b)) boxes),
                             gr_boxCount = length boxes\<rparr>)))"

section \<open>Disaggregation\<close>

text \<open>\<open>[...new Set(xs)]\<close> keeps the first of equal values.\<close>

definition js_unique :: "'a list \<Rightarrow> 'a list" where
  "js_unique xs = rev (remdups (rev xs))"

definition isParticipantInn :: "jstring \<Rightarrow> bool" where
  "isParticipantInn value \<longleftrightarrow>
     digits_n 9 value
     \<or> (digits_n 10 value \<or> digits_n 12 value) \<and> take 2 value \<noteq> lit ''00''"

record gismt_disaggregated =
  gx_bytes :: "nat list"
  gx_physicalLineCount :: nat
  gx_packingCount :: nat

definition disaggregation_lines :: "jstring \<Rightarrow> jstring list \<Rightarrow> jstring list" where
  "disaggregation_lines inn packings =
     [lit ''<?xml version=\"1.0\" encoding=\"UTF-8\"?>'',
      lit ''<disaggregation action_id=\"31\" version=\"2\">'',
      indent 4 @ lit ''<trade_participant_inn>'' @ inn @ lit ''</trade_participant_inn>'',
      indent 4 @ lit ''<packings_list>'']
     @ concat (map (\<lambda>sscc. [indent 8 @ lit ''<packing>'',
          indent 12 @ lit ''<kitu><![CDATA['' @ sscc @ lit '']]></kitu>'',
          indent 8 @ lit ''</packing>'']) packings)
     @ [indent 4 @ lit ''</packings_list>'', lit ''</disaggregation>'']"

definition renderGismtDisaggregationXml :: "jstring \<Rightarrow> jstring list \<Rightarrow> doc_error + gismt_disaggregated" where
  "renderGismtDisaggregationXml inn ssccs =
     (if \<not> isParticipantInn inn then Inl (GismtDisaggregationError INVALID_ORGANIZATION_INN)
      else let packings = js_sort compareText (js_unique ssccs)
           in if list_ex (\<lambda>s. \<not> digits_n 18 s) packings
              then Inl (GismtDisaggregationError DISAGGREGATION_INVALID_SSCC)
              else if length packings = 0 then Inl (GismtDisaggregationError DISAGGREGATION_EMPTY_SOURCE)
              else let lines = disaggregation_lines inn packings
                   in Inr \<lparr>gx_bytes = utf8 (join [10] lines @ [10]),
                           gx_physicalLineCount = length lines, gx_packingCount = length packings\<rparr>)"

section \<open>Lemmas\<close>

lemma collect_InrD: "collect f xs = Inr ys \<Longrightarrow> list_all2 (\<lambda>x y. f x = Inr y) xs ys"
  by (induction xs arbitrary: ys) (auto split: sum.splits)

lemma collect_InrI: "list_all2 (\<lambda>x y. f x = Inr y) xs ys \<Longrightarrow> collect f xs = Inr ys"
  by (induction xs ys rule: list_all2_induct) auto

lemma collect_length: "collect f xs = Inr ys \<Longrightarrow> length ys = length xs"
  by (auto dest!: collect_InrD list_all2_lengthD)

lemma collect_all:
  assumes "collect f xs = Inr ys" "\<And>x y. x \<in> set xs \<Longrightarrow> f x = Inr y \<Longrightarrow> P y"
  shows "list_all P ys"
  using assms
proof (induction xs arbitrary: ys)
  case (Cons x xs)
  then show ?case by (fastforce split: sum.splits)
qed simp

lemma collect_sum:
  assumes "collect f xs = Inr ys" "\<And>x y. x \<in> set xs \<Longrightarrow> f x = Inr y \<Longrightarrow> g y = (h x :: nat)"
  shows "sum_list (map g ys) = sum_list (map h xs)"
  using assms
proof (induction xs arbitrary: ys)
  case (Cons x xs)
  then show ?case by (fastforce split: sum.splits)
qed simp

definition one_line :: "jstring \<Rightarrow> bool" where
  "one_line s \<longleftrightarrow> 10 \<notin> set s"

lemma one_line_append [simp]: "one_line (s @ t) \<longleftrightarrow> one_line s \<and> one_line t"
  by (auto simp: one_line_def)

lemma one_line_lit [simp]: "one_line (lit s) \<longleftrightarrow> CHR 0x0A \<notin> set s"
proof -
  have "(10 :: nat) = of_char (CHR 0x0A)" by simp
  then have "10 \<in> (of_char ` set s :: nat set) \<longleftrightarrow> of_char (CHR 0x0A) \<in> (of_char ` set s :: nat set)"
    by (rule arg_cong)
  also have "\<dots> \<longleftrightarrow> CHR 0x0A \<in> set s" by (rule inj_image_mem_iff [OF inj_of_char])
  finally show ?thesis by (simp only: one_line_def lit_def set_map)
qed

lemma one_line_indent [simp]: "one_line (indent n)"
  by (simp add: one_line_def indent_def)

lemma one_line_xmlText: "one_line s \<Longrightarrow> one_line (xmlText s)"
  using xmlText_chars by (fastforce simp: one_line_def)

lemma one_line_xmlAttribute: "one_line s \<Longrightarrow> one_line (xmlAttribute s)"
  using xmlAttribute_chars by (fastforce simp: one_line_def)

lemma one_line_digits: "list_all is_digit s \<Longrightarrow> one_line s"
  by (auto simp: one_line_def list_all_iff is_digit_def)

lemma one_line_prohibited: "\<not> xml_prohibited s \<Longrightarrow> one_line s"
  using prohibited_controls [of s 10] by (auto simp: one_line_def)

lemma one_line_iso: "isCanonicalIsoTimestamp v \<Longrightarrow> one_line v"
proof -
  assume a: "isCanonicalIsoTimestamp v"
  have t: "one_line t" if "matches iso_tail_classes t" for t
  proof -
    have "list_all (\<lambda>c. c \<noteq> 10) t"
      using that by (rule matches_all) (auto simp: iso_tail_classes_def Let_def is_digit_def)
    then show ?thesis by (auto simp: one_line_def list_all_iff)
  qed
  have m: "matches iso_tail_classes (drop 4 v) \<and> digits_n 4 (take 4 v)
      \<or> v \<noteq> [] \<and> hd v \<in> {43, 45} \<and> digits_n 6 (slice 1 7 v) \<and> matches iso_tail_classes (drop 7 v)"
    using a by (auto simp: isCanonicalIsoTimestamp_def iso_tail_def)
  have d: "one_line (take 4 v @ drop 4 v)" if "matches iso_tail_classes (drop 4 v)" "digits_n 4 (take 4 v)"
    using t [OF that(1)] that(2) one_line_digits by (simp only: one_line_append digits_n_def simp_thms)
  have e: "one_line ([hd v] @ slice 1 7 v @ drop 7 v)"
    if "v \<noteq> []" "hd v \<in> {43, 45}" "digits_n 6 (slice 1 7 v)" "matches iso_tail_classes (drop 7 v)"
    using t [OF that(4)] that(2,3) one_line_digits [of "slice 1 7 v"]
    by (auto simp: digits_n_def one_line_def)
  have s: "[hd v] @ slice 1 7 v @ drop 7 v = v" if "v \<noteq> []"
    using that by (cases v) (simp_all add: slice_def numeral_eq_Suc)
  show "one_line v" using m d e s by (metis append_take_drop_id)
qed

lemma one_line_trim: "\<not> xml_prohibited (js_trim s) \<Longrightarrow> one_line (js_trim s)"
  by (rule one_line_prohibited)

lemma validateDocument_lines:
  assumes "validateDocument d0 = Inr d"
  shows "one_line (gd_documentId d) \<and> one_line (gd_documentNumber d) \<and> one_line (gd_organizationName d)
    \<and> one_line (gd_fileDateTime d) \<and> one_line (gd_operationDateTime d)"
  using assms by (auto simp: validateDocument_def Let_def isWithinLength_def one_line_prohibited one_line_iso
      split: if_splits)

lemma format_sscc_Inr: "formatGismtAggregationSscc s = Inr t \<longleftrightarrow> digits_n 18 s \<and> t = lit ''00'' @ s"
  by (auto simp: formatGismtAggregationSscc_def formatSsccWithAi_def)

lemma format_sscc_Inl: "formatGismtAggregationSscc s = Inl e \<Longrightarrow> e = GismtAggregationError INVALID_SSCC"
  by (auto simp: formatGismtAggregationSscc_def formatSsccWithAi_def split: if_splits)

lemma strip_tail_Inr:
  "stripKmCryptoTail s = Inr t \<Longrightarrow> one_line t
     \<and> (\<exists>seg. parseKmSegments s = Inr seg \<and> t = lit ''01'' @ seg_gtin14 seg @ lit ''21'' @ seg_serial seg)"
  using one_line_prohibited
  by (auto simp: stripKmCryptoTail_def Let_def split: sum.splits js_error.splits if_splits)

lemma pack_lines_one_line:
  assumes "one_line s" "list_all one_line ms"
  shows "list_all one_line (pack_lines s ms)" "length (pack_lines s ms) = 3 + length ms"
  using assms by (auto simp: pack_lines_def list_all_iff one_line_xmlText)

lemma box_lines_Inr:
  assumes "box_lines b = Inr ls"
  shows "list_all one_line ls \<and> length ls = gismtAggregationBoxLineCount b"
proof -
  obtain s cs where h: "formatGismtAggregationSscc (gb_sscc b) = Inr s" "collect stripKmCryptoTail (gb_codes b) = Inr cs"
      "ls = pack_lines s cs"
    using assms by (auto simp: box_lines_def split: sum.splits)
  have "one_line s" using h(1) one_line_digits by (auto simp: format_sscc_Inr digits_n_def)
  moreover have "list_all one_line cs" by (rule collect_all [OF h(2)]) (use strip_tail_Inr in blast)
  ultimately show ?thesis using pack_lines_one_line collect_length [OF h(2)] h(3)
    by (simp add: gismtAggregationBoxLineCount_def)
qed

lemma pallet_lines_Inr:
  assumes "pallet_lines p = Inr ls"
  shows "list_all one_line ls \<and> length ls = gismtAggregationPalletLineCount p"
proof -
  obtain s cs where h: "formatGismtAggregationSscc (gp_sscc p) = Inr s"
      "collect formatGismtAggregationSscc (gp_boxSsccs p) = Inr cs" "ls = pack_lines s cs"
    using assms by (auto simp: pallet_lines_def split: sum.splits)
  have o: "one_line t" if "formatGismtAggregationSscc x = Inr t" for x t
    using that one_line_digits by (auto simp: format_sscc_Inr digits_n_def)
  have "list_all one_line cs" by (rule collect_all [OF h(2)]) (use o in blast)
  then show ?thesis using pack_lines_one_line o [OF h(1)] collect_length [OF h(2)] h(3)
    by (simp add: gismtAggregationPalletLineCount_def)
qed

lemma collect_dom:
  assumes "collect f xs = Inr ys" "\<And>x y. f x = Inr y \<Longrightarrow> P x"
  shows "list_all P xs"
  using assms
proof (induction xs arbitrary: ys)
  case (Cons x xs)
  then show ?case by (fastforce split: sum.splits)
qed simp

lemma box_lines_dom:
  assumes "box_lines b = Inr ls"
  shows "digits_n 18 (gb_sscc b) \<and> list_all (\<lambda>c. is_ok (parseKmSegments c)) (gb_codes b)"
proof -
  obtain s cs where h: "formatGismtAggregationSscc (gb_sscc b) = Inr s" "collect stripKmCryptoTail (gb_codes b) = Inr cs"
    using assms by (auto simp: box_lines_def split: sum.splits)
  have "list_all (\<lambda>c. is_ok (parseKmSegments c)) (gb_codes b)"
    by (rule collect_dom [OF h(2)]) (use strip_tail_Inr in \<open>auto simp: is_ok_iff\<close>)
  then show ?thesis using h(1) by (simp add: format_sscc_Inr)
qed

lemma pallet_lines_dom:
  assumes "pallet_lines p = Inr ls"
  shows "digits_n 18 (gp_sscc p) \<and> list_all (digits_n 18) (gp_boxSsccs p)"
proof -
  obtain s cs where h: "formatGismtAggregationSscc (gp_sscc p) = Inr s"
      "collect formatGismtAggregationSscc (gp_boxSsccs p) = Inr cs"
    using assms by (auto simp: pallet_lines_def split: sum.splits)
  have "list_all (digits_n 18) (gp_boxSsccs p)"
    by (rule collect_dom [OF h(2)]) (simp add: format_sscc_Inr)
  then show ?thesis using h(1) by (simp add: format_sscc_Inr)
qed

lemma aggregation_lines_Inr:
  assumes "aggregation_lines inn d boxes pallets = Inr ls" "list_all one_line (head_lines d inn)"
  shows "list_all one_line ls \<and> length ls = GISMT_AGGREGATION_OVERHEAD_LINE_COUNT
    + sum_list (map gismtAggregationBoxLineCount boxes) + sum_list (map gismtAggregationPalletLineCount pallets)"
proof -
  obtain bs ps where h: "collect box_lines boxes = Inr bs" "collect pallet_lines pallets = Inr ps"
      "ls = head_lines d inn @ concat bs @ concat ps @ tail_lines"
    using assms(1) by (auto simp: aggregation_lines_def split: sum.splits)
  have "list_all (list_all one_line) bs" by (rule collect_all [OF h(1)]) (use box_lines_Inr in blast)
  moreover have "list_all (list_all one_line) ps" by (rule collect_all [OF h(2)]) (use pallet_lines_Inr in blast)
  moreover have "length (concat bs) = sum_list (map gismtAggregationBoxLineCount boxes)"
    unfolding length_concat by (rule collect_sum [OF h(1)]) (use box_lines_Inr in blast)
  moreover have "length (concat ps) = sum_list (map gismtAggregationPalletLineCount pallets)"
    unfolding length_concat by (rule collect_sum [OF h(2)]) (use pallet_lines_Inr in blast)
  moreover have "list_all one_line tail_lines" by (simp add: tail_lines_def)
  ultimately show ?thesis using assms(2)
    by (auto simp: h(3) head_lines_def tail_lines_def GISMT_AGGREGATION_OVERHEAD_LINE_COUNT_def list_all_iff)
qed

lemma render_lines:
  assumes "renderGismtAggregationXml inn d0 boxes pallets = Inr r"
  shows "\<exists>d ls. validateDocument d0 = Inr d \<and> aggregation_lines (js_trim inn) d boxes pallets = Inr ls
    \<and> gr_bytes r = utf8 (join [10] ls @ [10]) \<and> list_all one_line ls \<and> length ls = gr_physicalLineCount r"
proof -
  obtain d ls where h: "validateDocument d0 = Inr d" "legal_entity_inn (js_trim inn)"
      "aggregation_lines (js_trim inn) d boxes pallets = Inr ls"
      "gr_bytes r = utf8 (join [10] ls @ [10])"
      "gr_physicalLineCount r = GISMT_AGGREGATION_OVERHEAD_LINE_COUNT
         + sum_list (map gismtAggregationBoxLineCount boxes)
         + sum_list (map gismtAggregationPalletLineCount pallets)"
    using assms by (auto simp: renderGismtAggregationXml_def Let_def split: if_splits sum.splits)
  have "one_line (js_trim inn)" using h(2) one_line_digits by (auto simp: legal_entity_inn_def digits_n_def)
  then have "list_all one_line (head_lines d (js_trim inn))"
    using validateDocument_lines [OF h(1)] by (simp add: head_lines_def one_line_xmlAttribute)
  then show ?thesis using aggregation_lines_Inr [OF h(3)] h by auto
qed

lemma gismt_line_feeds:
  assumes "renderGismtAggregationXml inn d0 boxes pallets = Inr r"
  shows "count_list (gr_bytes r) 10 = gr_physicalLineCount r"
proof -
  obtain d ls where h: "aggregation_lines (js_trim inn) d boxes pallets = Inr ls"
      "gr_bytes r = utf8 (join [10] ls @ [10])" "list_all one_line ls" "length ls = gr_physicalLineCount r"
    using render_lines [OF assms] by blast
  have "ls \<noteq> []" using h(1) by (auto simp: aggregation_lines_def head_lines_def split: sum.splits)
  moreover have "list_all (\<lambda>x. 10 \<notin> set x) ls" using h(3) by (simp add: one_line_def list_all_iff)
  ultimately show ?thesis using count_lines [of ls] h by simp
qed

section \<open>Disaggregation lemmas\<close>

lemma js_unique_simps [simp]: "set (js_unique xs) = set xs" "distinct (js_unique xs)"
  by (simp_all add: js_unique_def)

lemma js_unique_sorted:
  "sorted (js_sort compareText (js_unique xs)) \<and> distinct (js_sort compareText (js_unique xs))
     \<and> set (js_sort compareText (js_unique xs)) = set xs"
  using js_sort_sorted [OF compareText_consistent [of "\<lambda>x. x"], of "js_unique xs"]
  by (simp add: compareText_le)

lemma sorted_list_of_set_unique: "js_sort compareText (js_unique xs) = sorted_list_of_set (set xs)"
  using js_unique_sorted [of xs] by (metis sorted_list_of_set.idem_if_sorted_distinct)

lemma disaggregation_line_count: "length (disaggregation_lines inn ps) = 6 + 3 * length ps"
proof -
  have "length (concat (map (\<lambda>s. [a s, b s, c s]) ps)) = 3 * length ps" for a b c :: "jstring \<Rightarrow> jstring"
    by (induction ps) auto
  then show ?thesis by (simp add: disaggregation_lines_def)
qed

lemma participant_one_line: "isParticipantInn inn \<Longrightarrow> one_line inn"
  using one_line_digits by (auto simp: isParticipantInn_def digits_n_def)

lemma disaggregation_one_line:
  assumes "one_line inn" "list_all (digits_n 18) ps"
  shows "list_all one_line (disaggregation_lines inn ps)"
  using assms one_line_digits by (auto simp: disaggregation_lines_def list_all_iff digits_n_def)

section \<open>Properties\<close>

definition sample_document :: gismt_document where
  "sample_document = \<lparr>gd_documentId = lit ''doc'', gd_documentNumber = lit ''7'',
     gd_fileDateTime = lit ''2026-02-28T10:00:00.000Z'', gd_operationDateTime = lit ''2024-02-29T09:30:00.000Z'',
     gd_organizationName = lit ''A & B''\<rparr>"

lemma sample_timestamps:
  "isCanonicalIsoTimestamp (lit ''2026-02-28T10:00:00.000Z'')"
  "isCanonicalIsoTimestamp (lit ''2024-02-29T09:30:00.000Z'')"
  by code_simp+

lemma sample_validated: "validateDocument sample_document = Inr sample_document"
proof -
  have t: "js_trim (lit ''doc'') = lit ''doc''" "js_trim (lit ''7'') = lit ''7''" "js_trim (lit ''A & B'') = lit ''A & B''"
    by (simp_all add: js_trim_def strip_def js_ws_def lit_def)
  have w: "isWithinLength (lit ''doc'') 150" "isWithinLength (lit ''7'') 150" "isWithinLength (lit ''A & B'') 1000"
    by (simp_all add: isWithinLength_def lit_def high_surrogate_def low_surrogate_def)
  show ?thesis by (simp add: validateDocument_def sample_document_def t w sample_timestamps)
qed

text \<open>The aggregation document reports its own size exactly: whenever rendering succeeds, the
  physical line count returned is the number of line feeds in the bytes, the box and code counts
  are those of the input, and a value with any SSCC that is not eighteen digits or any code that
  does not parse is refused, so every package is named by a twenty-digit code.\<close>

theorem gismt_aggregation_counts:
  assumes "renderGismtAggregationXml inn d boxes pallets = Inr r"
  shows "count_list (gr_bytes r) 10 = gr_physicalLineCount r
    \<and> gr_codeCount r = length (concat (map gb_codes boxes)) \<and> gr_boxCount r = length boxes
    \<and> list_all (\<lambda>b. digits_n 18 (gb_sscc b) \<and> list_all (\<lambda>c. is_ok (parseKmSegments c)) (gb_codes b)) boxes
    \<and> list_all (\<lambda>p. digits_n 18 (gp_sscc p) \<and> list_all (digits_n 18) (gp_boxSsccs p)) pallets"
proof -
  obtain dd ls where l: "aggregation_lines (js_trim inn) dd boxes pallets = Inr ls"
    using render_lines [OF assms] by blast
  then obtain bs ps where h: "collect box_lines boxes = Inr bs" "collect pallet_lines pallets = Inr ps"
    by (auto simp: aggregation_lines_def split: sum.splits)
  have b: "list_all (\<lambda>b. digits_n 18 (gb_sscc b) \<and> list_all (\<lambda>c. is_ok (parseKmSegments c)) (gb_codes b)) boxes"
    by (rule collect_dom [OF h(1)]) (rule box_lines_dom)
  have p: "list_all (\<lambda>p. digits_n 18 (gp_sscc p) \<and> list_all (digits_n 18) (gp_boxSsccs p)) pallets"
    by (rule collect_dom [OF h(2)]) (rule pallet_lines_dom)
  have "gr_codeCount r = length (concat (map gb_codes boxes)) \<and> gr_boxCount r = length boxes"
    using assms by (auto simp: renderGismtAggregationXml_def Let_def length_concat comp_def
        split: if_splits sum.splits)
  then show ?thesis using gismt_line_feeds [OF assms] b p by blast
qed

theorem gismt_aggregation_counts_witness:
  "\<exists>r. renderGismtAggregationXml (lit '' 7700000000 '') sample_document []
     [\<lparr>gp_sscc = lit ''346070200000123459'', gp_boxSsccs = [lit ''346070200000123466'']\<rparr>] = Inr r
     \<and> count_list (gr_bytes r) 10 = 14"
proof -
  let ?p = "\<lparr>gp_sscc = lit ''346070200000123459'', gp_boxSsccs = [lit ''346070200000123466'']\<rparr>"
  have i: "js_trim (lit '' 7700000000 '') = lit ''7700000000''"
    by (simp add: js_trim_def strip_def js_ws_def lit_def)
  have l: "legal_entity_inn (lit ''7700000000'')" by code_simp
  have n: "lit ''7700000000'' \<noteq> []" by (simp add: lit_def)
  have "digits_n 18 (lit ''346070200000123459'')" "digits_n 18 (lit ''346070200000123466'')" by code_simp+
  then obtain ls where "pallet_lines ?p = Inr ls"
    by (simp add: pallet_lines_def formatGismtAggregationSscc_def formatSsccWithAi_def)
  then obtain r where r: "renderGismtAggregationXml (lit '' 7700000000 '') sample_document [] [?p] = Inr r"
      "gr_physicalLineCount r = 14"
    using l n by (simp add: renderGismtAggregationXml_def i sample_validated aggregation_lines_def
        gismtAggregationPalletLineCount_def GISMT_AGGREGATION_OVERHEAD_LINE_COUNT_def)
  then show ?thesis using gismt_aggregation_counts [OF r(1)] by auto
qed

text \<open>The disaggregation document names every package exactly once, in ascending order: for a
  participant tax number and valid codes it renders the sorted set of the codes, whatever the order
  and the repetitions of the input, with as many line feeds as it reports lines, and it fails for
  an invalid tax number, a code that is not eighteen digits, or no code at all.\<close>

theorem gismt_disaggregation_spec:
  "renderGismtDisaggregationXml inn ssccs =
     (if \<not> isParticipantInn inn then Inl (GismtDisaggregationError INVALID_ORGANIZATION_INN)
      else if \<exists>s \<in> set ssccs. \<not> digits_n 18 s then Inl (GismtDisaggregationError DISAGGREGATION_INVALID_SSCC)
      else if ssccs = [] then Inl (GismtDisaggregationError DISAGGREGATION_EMPTY_SOURCE)
      else let bytes = utf8 (join [10] (disaggregation_lines inn (sorted_list_of_set (set ssccs))) @ [10])
           in Inr \<lparr>gx_bytes = bytes, gx_physicalLineCount = count_list bytes 10,
                   gx_packingCount = card (set ssccs)\<rparr>)"
proof (cases "isParticipantInn inn \<and> (\<forall>s \<in> set ssccs. digits_n 18 s) \<and> ssccs \<noteq> []")
  case True
  let ?ps = "sorted_list_of_set (set ssccs)"
  have "list_all (digits_n 18) ?ps" using True by (simp add: list_all_iff)
  then have "list_all one_line (disaggregation_lines inn ?ps)"
    using disaggregation_one_line participant_one_line True by blast
  then have "list_all (\<lambda>x. 10 \<notin> set x) (disaggregation_lines inn ?ps)"
    by (simp add: one_line_def list_all_iff)
  moreover have "disaggregation_lines inn ?ps \<noteq> []" by (simp add: disaggregation_lines_def)
  ultimately have "count_list (utf8 (join [10] (disaggregation_lines inn ?ps) @ [10])) 10
      = length (disaggregation_lines inn ?ps)" by (rule count_lines)
  then show ?thesis using True
    by (auto simp: renderGismtDisaggregationXml_def Let_def sorted_list_of_set_unique list_ex_iff)
next
  case False
  then show ?thesis
    by (auto simp: renderGismtDisaggregationXml_def Let_def list_ex_iff js_sort_def js_unique_def
        simp flip: js_sort_def)
qed

theorem gismt_disaggregation_spec_witness:
  "renderGismtDisaggregationXml (lit ''7700000000'') [lit ''1''] =
     Inl (GismtDisaggregationError DISAGGREGATION_INVALID_SSCC)"
proof -
  have "isParticipantInn (lit ''7700000000'')"
    by (simp add: isParticipantInn_def digits_n_def is_digit_def lit_def)
  then show ?thesis using gismt_disaggregation_spec [of "lit ''7700000000''" "[lit ''1'']"]
    by (simp add: digits_n_def)
qed

end
