(* ===== verification/Shift_Exports.thy ===== *)
theory Shift_Exports
  imports Gismt_Documents
begin

text \<open>
  Shift and pallet exports (\<open>packages/domain/src/shift-exports.ts\<close>, \<open>pallet-exports.ts\<close>): the
  codes of a finished shift, flat, by box or by pallet, written as text, CSV or GIS MT
  aggregation XML, and split into parts of a bounded number of lines. A box or a pallet group is
  one block and never splits. The display labels of the formats are left out. The filename uses
  Unicode normalisation and the letter and number classes of the regular expression engine;
  those tables are the parameters \<open>nfc\<close> and \<open>letter_or_number\<close>.
\<close>

section \<open>Formats\<close>

datatype extension = Ext_txt | Ext_csv | Ext_xml
datatype box_mode = Mode_flat | Mode_boxes | Mode_pallets | Mode_pallet_boxes

record shift_format =
  sf_id :: jstring
  sf_version :: int
  sf_extension :: extension
  sf_mimeType :: jstring
  sf_boxMode :: box_mode

definition shift_format_of :: "string \<Rightarrow> int \<Rightarrow> extension \<Rightarrow> box_mode \<Rightarrow> shift_format" where
  "shift_format_of i v e m = \<lparr>sf_id = lit i, sf_version = v, sf_extension = e,
     sf_mimeType = (case e of Ext_txt \<Rightarrow> lit ''text/plain; charset=utf-8''
       | Ext_csv \<Rightarrow> lit ''text/csv; charset=utf-8'' | Ext_xml \<Rightarrow> lit ''application/xml; charset=utf-8''),
     sf_boxMode = m\<rparr>"

definition SHIFT_EXPORT_FORMATS :: "shift_format list" where
  "SHIFT_EXPORT_FORMATS =
     [shift_format_of ''shift_txt_flat'' 1 Ext_txt Mode_flat,
      shift_format_of ''shift_txt_boxes'' 2 Ext_txt Mode_boxes,
      shift_format_of ''shift_txt_boxes_reversed'' 1 Ext_txt Mode_boxes,
      shift_format_of ''shift_csv_flat'' 1 Ext_csv Mode_flat,
      shift_format_of ''shift_csv_boxes'' 2 Ext_csv Mode_boxes,
      shift_format_of ''shift_xml_gismt_aggregation'' 1 Ext_xml Mode_boxes,
      shift_format_of ''shift_txt_pallets'' 1 Ext_txt Mode_pallets,
      shift_format_of ''shift_csv_pallets'' 1 Ext_csv Mode_pallets,
      shift_format_of ''shift_xml_gismt_aggregation_pallets'' 1 Ext_xml Mode_pallets,
      shift_format_of ''shift_txt_pallet_boxes'' 1 Ext_txt Mode_pallet_boxes,
      shift_format_of ''shift_xml_gismt_pallet_boxes'' 1 Ext_xml Mode_pallet_boxes]"

definition LEGACY_SHIFT_EXPORT_FORMATS :: "shift_format list" where
  "LEGACY_SHIFT_EXPORT_FORMATS =
     [shift_format_of ''shift_txt_boxes'' 1 Ext_txt Mode_boxes,
      shift_format_of ''shift_csv_boxes'' 1 Ext_csv Mode_boxes]"

datatype source_mode = Source_flat | Source_boxes | Source_pallets

definition shiftExportSourceModeFor :: "box_mode \<Rightarrow> source_mode" where
  "shiftExportSourceModeFor m = (case m of
     Mode_flat \<Rightarrow> Source_flat | Mode_boxes \<Rightarrow> Source_boxes
   | Mode_pallets \<Rightarrow> Source_pallets | Mode_pallet_boxes \<Rightarrow> Source_pallets)"

definition shiftExportFormatRequiresPallets :: "shift_format \<Rightarrow> bool" where
  "shiftExportFormatRequiresPallets f \<longleftrightarrow> shiftExportSourceModeFor (sf_boxMode f) = Source_pallets"

definition getShiftExportFormat :: "jstring \<Rightarrow> int \<Rightarrow> doc_error + shift_format" where
  "getShiftExportFormat i v =
     (case find (\<lambda>f. sf_id f = i \<and> sf_version f = v) (SHIFT_EXPORT_FORMATS @ LEGACY_SHIFT_EXPORT_FORMATS) of
        None \<Rightarrow> Inl (ShiftExportDomainError FORMAT_NOT_FOUND)
      | Some f \<Rightarrow> Inr f)"

definition isLegacyShiftExportFormat :: "shift_format \<Rightarrow> bool" where
  "isLegacyShiftExportFormat d =
     list_ex (\<lambda>l. sf_id l = sf_id d \<and> sf_version l = sf_version d) LEGACY_SHIFT_EXPORT_FORMATS"

section \<open>Sources and blocks\<close>

record pallet_group =
  pg_sscc :: jstring
  pg_boxes :: "gismt_box list"

datatype shift_source =
    Flat_source "jstring list"
  | Boxes_source "gismt_box list"
  | Pallets_source "pallet_group list" "gismt_box list" \<comment> \<open>pallets, loose boxes\<close>

fun mode_of_source :: "shift_source \<Rightarrow> source_mode" where
  "mode_of_source (Flat_source _) = Source_flat"
| "mode_of_source (Boxes_source _) = Source_boxes"
| "mode_of_source (Pallets_source _ _) = Source_pallets"

record export_block =
  blk_lines :: "jstring list option"
  blk_csvRows :: "jstring list list option"
  blk_xmlBox :: "gismt_box option"
  blk_xmlBoxes :: "gismt_box list option"
  blk_xmlPallet :: "gismt_pallet option"
  blk_isPalletGroup :: bool
  blk_physicalLineCount :: nat
  blk_codeCount :: nat
  blk_boxCount :: nat
  blk_palletCount :: nat

definition empty_block :: export_block where
  "empty_block = \<lparr>blk_lines = None, blk_csvRows = None, blk_xmlBox = None, blk_xmlBoxes = None,
     blk_xmlPallet = None, blk_isPalletGroup = False, blk_physicalLineCount = 0, blk_codeCount = 0,
     blk_boxCount = 0, blk_palletCount = 0\<rparr>"

text \<open>The loop of \<open>countCsvPhysicalLines\<close>: CR, LF and CRLF each break a line once.\<close>

fun line_breaks :: "jstring \<Rightarrow> nat" where
  "line_breaks [] = 0"
| "line_breaks [c] = (if c = 13 \<or> c = 10 then 1 else 0)"
| "line_breaks (c # d # s) =
     (if c = 13 then (if d = 10 then 1 + line_breaks s else 1 + line_breaks (d # s))
      else if c = 10 then 1 + line_breaks (d # s)
      else line_breaks (d # s))"

definition countCsvPhysicalLines :: "jstring \<Rightarrow> nat" where
  "countCsvPhysicalLines value = 1 + line_breaks value"

definition csvRowPhysicalLineCount :: "jstring list \<Rightarrow> nat" where
  "csvRowPhysicalLineCount fs = sum_list (map countCsvPhysicalLines fs) - (length fs - 1)"

definition formatBoxSscc :: "jstring \<Rightarrow> doc_error + jstring" where
  "formatBoxSscc sscc =
     (case formatGismtAggregationSscc sscc of
        Inr s \<Rightarrow> Inr s
      | Inl (GismtAggregationError _) \<Rightarrow> Inl (ShiftExportDomainError INVALID_BOX_SSCC)
      | Inl e \<Rightarrow> Inl e)"

definition flat_block :: "shift_format \<Rightarrow> jstring \<Rightarrow> export_block" where
  "flat_block d code =
     (if sf_extension d = Ext_csv
      then empty_block\<lparr>blk_csvRows := Some [[code]], blk_physicalLineCount := countCsvPhysicalLines code,
             blk_codeCount := 1\<rparr>
      else empty_block\<lparr>blk_lines := Some [code], blk_physicalLineCount := 1, blk_codeCount := 1\<rparr>)"

definition xml_box_block :: "gismt_box \<Rightarrow> export_block" where
  "xml_box_block box = empty_block\<lparr>blk_xmlBox := Some box,
     blk_physicalLineCount := gismtAggregationBoxLineCount box,
     blk_codeCount := length (gb_codes box), blk_boxCount := 1\<rparr>"

definition lines_block :: "jstring list \<Rightarrow> gismt_box \<Rightarrow> export_block" where
  "lines_block ls box = empty_block\<lparr>blk_lines := Some ls, blk_physicalLineCount := length ls,
     blk_codeCount := length (gb_codes box), blk_boxCount := 1\<rparr>"

definition boxes_mode_block :: "shift_format \<Rightarrow> gismt_box \<Rightarrow> doc_error + export_block" where
  "boxes_mode_block d box =
     (if sf_extension d = Ext_xml then Inr (xml_box_block box)
      else case (if isLegacyShiftExportFormat d then Inr (gb_sscc box) else formatBoxSscc (gb_sscc box)) of
             Inl e \<Rightarrow> Inl e
           | Inr ssccOut \<Rightarrow>
               if sf_extension d = Ext_txt then
                 Inr (lines_block
                   (if sf_id d = lit ''shift_txt_boxes_reversed'' then gb_codes box @ [ssccOut, []]
                    else [ssccOut] @ gb_codes box @ [[]]) box)
               else
                 Inr (empty_block\<lparr>blk_csvRows := Some (map (\<lambda>code. [ssccOut, code]) (gb_codes box)),
                   blk_physicalLineCount := sum_list (map (\<lambda>code.
                     countCsvPhysicalLines ssccOut + countCsvPhysicalLines code - 1) (gb_codes box)),
                   blk_codeCount := length (gb_codes box), blk_boxCount := 1\<rparr>))"

definition palletModeBoxBlock :: "shift_format \<Rightarrow> jstring \<Rightarrow> gismt_box \<Rightarrow> doc_error + export_block" where
  "palletModeBoxBlock d palletColumn box =
     (if sf_extension d = Ext_xml then Inr (xml_box_block box)
      else case formatBoxSscc (gb_sscc box) of
             Inl e \<Rightarrow> Inl e
           | Inr ssccOut \<Rightarrow>
               if sf_extension d = Ext_txt then Inr (lines_block ([ssccOut] @ gb_codes box @ [[]]) box)
               else
                 Inr (empty_block\<lparr>blk_csvRows := Some (map (\<lambda>code. [palletColumn, ssccOut, code]) (gb_codes box)),
                   blk_physicalLineCount := sum_list (map (\<lambda>code.
                     csvRowPhysicalLineCount [palletColumn, ssccOut, code]) (gb_codes box)),
                   blk_codeCount := length (gb_codes box), blk_boxCount := 1\<rparr>))"

definition xml_pallet_of :: "pallet_group \<Rightarrow> gismt_pallet" where
  "xml_pallet_of p = \<lparr>gp_sscc = pg_sscc p, gp_boxSsccs = map gb_sscc (pg_boxes p)\<rparr>"

definition requireXmlBox :: "export_block \<Rightarrow> doc_error + gismt_box" where
  "requireXmlBox b = (case blk_xmlBox b of None \<Rightarrow> Inl (Thrown PlainError) | Some x \<Rightarrow> Inr x)"

definition buildPalletBoxesBlock :: "shift_format \<Rightarrow> pallet_group \<Rightarrow> doc_error + export_block" where
  "buildPalletBoxesBlock d p =
     (let base = empty_block\<lparr>blk_isPalletGroup := True, blk_palletCount := 1,
            blk_codeCount := sum_list (map (\<lambda>b. length (gb_codes b)) (pg_boxes p)),
            blk_boxCount := length (pg_boxes p)\<rparr>
      in if sf_extension d = Ext_xml then
           Inr (base\<lparr>blk_xmlBoxes := Some [], blk_xmlPallet := Some (xml_pallet_of p),
                     blk_physicalLineCount := gismtAggregationPalletLineCount (xml_pallet_of p)\<rparr>)
         else (case formatBoxSscc (pg_sscc p) of
                 Inl e \<Rightarrow> Inl e
               | Inr s \<Rightarrow>
                   (case collect (\<lambda>b. formatBoxSscc (gb_sscc b)) (pg_boxes p) of
                      Inl e \<Rightarrow> Inl e
                    | Inr bs \<Rightarrow>
                        Inr (base\<lparr>blk_lines := Some ([s] @ bs @ [[]]),
                                  blk_physicalLineCount := length ([s] @ bs @ [[]])\<rparr>))))"

definition buildPalletGroupBlock :: "shift_format \<Rightarrow> pallet_group \<Rightarrow> doc_error + export_block" where
  "buildPalletGroupBlock d p =
     (case (if sf_extension d = Ext_csv then formatBoxSscc (pg_sscc p) else Inr []) of
        Inl e \<Rightarrow> Inl e
      | Inr palletColumn \<Rightarrow>
          (case collect (palletModeBoxBlock d palletColumn) (pg_boxes p) of
             Inl e \<Rightarrow> Inl e
           | Inr boxBlocks \<Rightarrow>
               let base = empty_block\<lparr>blk_isPalletGroup := True, blk_palletCount := 1,
                     blk_codeCount := sum_list (map blk_codeCount boxBlocks),
                     blk_boxCount := length boxBlocks\<rparr>;
                   linesOfBoxes = sum_list (map blk_physicalLineCount boxBlocks)
               in (case sf_extension d of
                     Ext_xml \<Rightarrow>
                       (case collect requireXmlBox boxBlocks of
                          Inl e \<Rightarrow> Inl e
                        | Inr xs \<Rightarrow>
                            Inr (base\<lparr>blk_xmlBoxes := Some xs, blk_xmlPallet := Some (xml_pallet_of p),
                              blk_physicalLineCount := linesOfBoxes + gismtAggregationPalletLineCount (xml_pallet_of p)\<rparr>))
                   | Ext_txt \<Rightarrow>
                       (case formatBoxSscc (pg_sscc p) of
                          Inl e \<Rightarrow> Inl e
                        | Inr s \<Rightarrow>
                            Inr (base\<lparr>blk_lines := Some (s # concat (map (\<lambda>b. case blk_lines b of
                                         None \<Rightarrow> [] | Some ls \<Rightarrow> ls) boxBlocks)),
                              blk_physicalLineCount := 1 + linesOfBoxes\<rparr>))
                   | Ext_csv \<Rightarrow>
                       Inr (base\<lparr>blk_csvRows := Some (concat (map (\<lambda>b. case blk_csvRows b of
                                    None \<Rightarrow> [] | Some rs \<Rightarrow> rs) boxBlocks)),
                         blk_physicalLineCount := linesOfBoxes\<rparr>))))"

definition createBlocks :: "shift_format \<Rightarrow> shift_source \<Rightarrow> doc_error + export_block list" where
  "createBlocks d source = (case source of
     Flat_source codes \<Rightarrow> Inr (map (flat_block d) codes)
   | Boxes_source boxes \<Rightarrow> collect (boxes_mode_block d) boxes
   | Pallets_source pallets loose \<Rightarrow>
       if sf_boxMode d = Mode_pallet_boxes then collect (buildPalletBoxesBlock d) pallets
       else (case collect (buildPalletGroupBlock d) pallets of
               Inl e \<Rightarrow> Inl e
             | Inr ps \<Rightarrow>
                 (case collect (palletModeBoxBlock d []) loose of Inl e \<Rightarrow> Inl e | Inr ls \<Rightarrow> Inr (ps @ ls))))"

section \<open>Splitting\<close>

definition header_lines :: "shift_format \<Rightarrow> nat" where
  "header_lines d = (case sf_extension d of
     Ext_csv \<Rightarrow> 1 | Ext_xml \<Rightarrow> GISMT_AGGREGATION_OVERHEAD_LINE_COUNT | Ext_txt \<Rightarrow> 0)"

fun split_loop :: "nat \<Rightarrow> nat \<Rightarrow> export_block list \<Rightarrow> nat \<Rightarrow> export_block list
    \<Rightarrow> doc_error + (export_block list \<times> nat) list" where
  "split_loop hdr maxLines cur count [] = Inr [(cur, count)]"
| "split_loop hdr maxLines cur count (b # bs) =
     (if hdr + blk_physicalLineCount b > maxLines then
        Inl (ShiftExportDomainError
          (if blk_isPalletGroup b then PALLET_EXCEEDS_LINE_LIMIT else BOX_EXCEEDS_LINE_LIMIT))
      else if length cur > 0 \<and> count + blk_physicalLineCount b > maxLines then
        (case split_loop hdr maxLines [b] (hdr + blk_physicalLineCount b) bs of
           Inl e \<Rightarrow> Inl e | Inr ps \<Rightarrow> Inr ((cur, count) # ps))
      else split_loop hdr maxLines (cur @ [b]) (count + blk_physicalLineCount b) bs)"

definition splitBlocks :: "shift_format \<Rightarrow> export_block list \<Rightarrow> nat option
    \<Rightarrow> doc_error + (export_block list \<times> nat) list" where
  "splitBlocks d blocks maxLines = (case maxLines of
     None \<Rightarrow> Inr [(blocks, header_lines d + sum_list (map blk_physicalLineCount blocks))]
   | Some m \<Rightarrow> split_loop (header_lines d) m [] (header_lines d) blocks)"

section \<open>Rendering\<close>

definition csvHeaderFor :: "box_mode \<Rightarrow> jstring list" where
  "csvHeaderFor m = (case m of
     Mode_flat \<Rightarrow> [lit ''code'']
   | Mode_boxes \<Rightarrow> [lit ''box_sscc'', lit ''code'']
   | _ \<Rightarrow> [lit ''pallet_sscc'', lit ''box_sscc'', lit ''code''])"

definition block_rows :: "export_block list \<Rightarrow> jstring list list" where
  "block_rows blocks = concat (map (\<lambda>b. case blk_csvRows b of None \<Rightarrow> [] | Some rs \<Rightarrow> rs) blocks)"

definition block_lines :: "export_block list \<Rightarrow> jstring list" where
  "block_lines blocks = concat (map (\<lambda>b. case blk_lines b of None \<Rightarrow> [] | Some ls \<Rightarrow> ls) blocks)"

definition encodePart :: "shift_format \<Rightarrow> export_block list \<Rightarrow> nat list" where
  "encodePart d blocks =
     (if sf_extension d = Ext_csv then encodeSemicolonCsv (csvHeaderFor (sf_boxMode d)) (block_rows blocks)
      else encodeLfText (block_lines blocks))"

definition collectXmlBoxes :: "export_block \<Rightarrow> doc_error + gismt_box list" where
  "collectXmlBoxes b = (case blk_xmlBoxes b of
     Some xs \<Rightarrow> Inr xs
   | None \<Rightarrow> (case requireXmlBox b of Inl e \<Rightarrow> Inl e | Inr x \<Rightarrow> Inr [x]))"

definition collectXmlPallets :: "export_block \<Rightarrow> gismt_pallet list" where
  "collectXmlPallets b = (case blk_xmlPallet b of None \<Rightarrow> [] | Some p \<Rightarrow> [p])"

fun shift_code_of :: "gismt_aggregation_code \<Rightarrow> shift_export_code" where
  "shift_code_of INVALID_SSCC = INVALID_BOX_SSCC"
| "shift_code_of ORG_INN_MISSING = SHIFT_ORG_INN_MISSING"
| "shift_code_of INVALID_ORG_INN = SHIFT_INVALID_ORG_INN"
| "shift_code_of INVALID_DOCUMENT_METADATA = SHIFT_INVALID_DOCUMENT_METADATA"
| "shift_code_of INVALID_CIS = SHIFT_INVALID_CIS"

definition as_shift_error :: "doc_error + 'a \<Rightarrow> doc_error + 'a" where
  "as_shift_error r = (case r of
     Inl (GismtAggregationError c) \<Rightarrow> Inl (ShiftExportDomainError (shift_code_of c))
   | _ \<Rightarrow> r)"

definition renderXmlPart ::
    "jstring \<Rightarrow> gismt_document \<Rightarrow> export_block list \<Rightarrow> doc_error + gismt_rendered" where
  "renderXmlPart inn document blocks =
     (case collect collectXmlBoxes blocks of
        Inl e \<Rightarrow> Inl e
      | Inr bs \<Rightarrow>
          as_shift_error (renderGismtAggregationXml inn document (concat bs)
            (concat (map collectXmlPallets blocks))))"

definition default_product :: jstring where
  "default_product = [1087, 1088, 1086, 1076, 1091, 1082, 1094, 1080, 1103]"

definition sanitizeShiftExportFilenameSegment ::
    "(jstring \<Rightarrow> jstring) \<Rightarrow> (nat \<Rightarrow> bool) \<Rightarrow> jstring \<Rightarrow> jstring" where
  "sanitizeShiftExportFilenameSegment nfc letter_or_number value =
     (let points = code_points (nfc value);
          step1 = replace_runs (\<lambda>c. \<not> letter_or_number c \<and> c \<noteq> 45) 95 False points;
          step2 = replace_runs (\<lambda>c. c = 95) 95 False step1;
          sanitized = utf16 (strip (\<lambda>c. c = 95) step2)
      in if sanitized = [] then default_product else sanitized)"

fun extension_name :: "extension \<Rightarrow> jstring" where
  "extension_name Ext_txt = lit ''txt''"
| "extension_name Ext_csv = lit ''csv''"
| "extension_name Ext_xml = lit ''xml''"

definition createFilename ::
    "shift_format \<Rightarrow> jstring \<Rightarrow> jstring \<Rightarrow> nat \<Rightarrow> nat \<Rightarrow> nat \<Rightarrow> nat \<Rightarrow> bool \<Rightarrow> jstring" where
  "createFilename d productName shiftDate codeCount boxCount palletCount partNumber hasMultipleParts =
     productName @ lit ''_'' @ dec codeCount @ lit ''pcs''
     @ (if sf_boxMode d = Mode_flat then [] else lit ''_'' @ dec boxCount @ lit ''box'')
     @ (if shiftExportSourceModeFor (sf_boxMode d) = Source_pallets then lit ''_'' @ dec palletCount @ lit ''pallet'' else [])
     @ lit ''_'' @ shiftDate
     @ (if hasMultipleParts then [95, 1095, 1072, 1089, 1090, 1100, 95] @ dec partNumber else [])
     @ lit ''.'' @ extension_name (sf_extension d)"

record document_metadata =
  dm_documentId :: jstring
  dm_documentNumber :: jstring
  dm_fileDateTime :: jstring
  dm_operationDateTime :: jstring

record shift_export_input =
  se_formatId :: jstring
  se_formatVersion :: int
  se_productName :: jstring
  se_shiftDate :: jstring
  se_maxLines :: "jnum option"
  se_source :: shift_source
  se_organizationInn :: "jstring option"
  se_organizationName :: "jstring option"
  se_document :: "document_metadata option"

record shift_part =
  sp_partNumber :: nat
  sp_physicalLineCount :: nat
  sp_codeCount :: nat
  sp_boxCount :: nat
  sp_palletCount :: nat
  sp_filename :: jstring
  sp_mimeType :: jstring
  sp_bytes :: "nat list"

definition validateLineLimit :: "jnum option \<Rightarrow> doc_error + nat option" where
  "validateLineLimit maxLines = (case maxLines of
     None \<Rightarrow> Inr None
   | Some n \<Rightarrow>
       if \<not> is_integer n \<or> jint n < 2 \<or> jint n > 1000000 then Inl (ShiftExportDomainError INVALID_LINE_LIMIT)
       else Inr (Some (nat (jint n))))"

definition trimmed :: "jstring option \<Rightarrow> jstring" where
  "trimmed v = (case v of None \<Rightarrow> [] | Some s \<Rightarrow> js_trim s)"

definition documentFor ::
    "shift_export_input \<Rightarrow> nat \<Rightarrow> bool \<Rightarrow> doc_error + gismt_document" where
  "documentFor input partNumber hasMultipleParts = (case se_document input of
     None \<Rightarrow> Inl (ShiftExportDomainError DOCUMENT_METADATA_MISSING)
   | Some base \<Rightarrow>
       let suffix = (if hasMultipleParts then lit ''-'' @ dec partNumber else [])
       in Inr \<lparr>gd_documentId = dm_documentId base @ suffix, gd_documentNumber = dm_documentNumber base @ suffix,
               gd_fileDateTime = dm_fileDateTime base, gd_operationDateTime = dm_operationDateTime base,
               gd_organizationName = trimmed (se_organizationName input)\<rparr>)"

text \<open>\<open>xmlRendered\<close>: the rendered document for the XML formats, nothing for the others.\<close>

definition xml_rendered ::
    "shift_export_input \<Rightarrow> shift_format \<Rightarrow> nat \<Rightarrow> bool \<Rightarrow> export_block list \<Rightarrow> doc_error + gismt_rendered option" where
  "xml_rendered input d partNumber multi blocks =
     (if sf_extension d \<noteq> Ext_xml then Inr None
      else case documentFor input partNumber multi of
             Inl e \<Rightarrow> Inl e
           | Inr doc \<Rightarrow>
               (case renderXmlPart (trimmed (se_organizationInn input)) doc blocks of
                  Inl e \<Rightarrow> Inl e | Inr r \<Rightarrow> Inr (Some r)))"

definition render_part ::
    "shift_export_input \<Rightarrow> shift_format \<Rightarrow> jstring \<Rightarrow> bool \<Rightarrow> nat \<times> export_block list \<times> nat \<Rightarrow> doc_error + shift_part" where
  "render_part input d productName multi = (\<lambda>(index, blocks, lineCount).
     let partNumber = index + 1 in
     case xml_rendered input d partNumber multi blocks of
       Inl e \<Rightarrow> Inl e
     | Inr xml \<Rightarrow>
         let fromBlocks = (sf_boxMode d = Mode_pallet_boxes);
             codeCount = (case xml of
                Some r \<Rightarrow> if fromBlocks then sum_list (map blk_codeCount blocks) else gr_codeCount r
              | None \<Rightarrow> sum_list (map blk_codeCount blocks));
             boxCount = (case xml of
                Some r \<Rightarrow> if fromBlocks then sum_list (map blk_boxCount blocks) else gr_boxCount r
              | None \<Rightarrow> sum_list (map blk_boxCount blocks));
             palletCount = sum_list (map blk_palletCount blocks)
         in Inr \<lparr>sp_partNumber = partNumber,
                 sp_physicalLineCount = (case xml of Some r \<Rightarrow> gr_physicalLineCount r | None \<Rightarrow> lineCount),
                 sp_codeCount = codeCount, sp_boxCount = boxCount, sp_palletCount = palletCount,
                 sp_filename = createFilename d productName (se_shiftDate input) codeCount boxCount palletCount
                   partNumber multi,
                 sp_mimeType = sf_mimeType d,
                 sp_bytes = (case xml of Some r \<Rightarrow> gr_bytes r | None \<Rightarrow> encodePart d blocks)\<rparr>)"

definition civil_date :: "jstring \<Rightarrow> bool" where
  "civil_date s = matches ([is_digit, is_digit, is_digit, is_digit, is_hyphen, is_digit, is_digit,
     is_hyphen, is_digit, is_digit]) s"

text \<open>What is checked before any block is made.\<close>

definition export_guards :: "shift_export_input \<Rightarrow> shift_format \<Rightarrow> doc_error + nat option" where
  "export_guards input d =
     (if mode_of_source (se_source input) \<noteq> shiftExportSourceModeFor (sf_boxMode d)
      then Inl (ShiftExportDomainError FORMAT_SOURCE_MISMATCH)
      else if \<not> civil_date (se_shiftDate input) then Inl (Thrown PlainError)
      else case validateLineLimit (se_maxLines input) of
             Inl e \<Rightarrow> Inl e
           | Inr maxLines \<Rightarrow>
               if sf_extension d = Ext_xml then
                 if trimmed (se_organizationInn input) = [] then Inl (ShiftExportDomainError SHIFT_ORG_INN_MISSING)
                 else if trimmed (se_organizationName input) = [] then Inl (ShiftExportDomainError ORG_NAME_MISSING)
                 else if se_document input = None then Inl (ShiftExportDomainError DOCUMENT_METADATA_MISSING)
                 else Inr maxLines
               else Inr maxLines)"

definition renderShiftExport ::
    "(jstring \<Rightarrow> jstring) \<Rightarrow> (nat \<Rightarrow> bool) \<Rightarrow> shift_export_input \<Rightarrow> doc_error + shift_part list" where
  "renderShiftExport nfc letter_or_number input =
     (case getShiftExportFormat (se_formatId input) (se_formatVersion input) of
        Inl e \<Rightarrow> Inl e
      | Inr d \<Rightarrow>
     (case export_guards input d of
        Inl e \<Rightarrow> Inl e
      | Inr maxLines \<Rightarrow>
     (case createBlocks d (se_source input) of
        Inl e \<Rightarrow> Inl e
      | Inr blocks \<Rightarrow>
     (case xml_rendered input d 1 False blocks of
        Inl e \<Rightarrow> Inl e
      | Inr _ \<Rightarrow>
          if sum_list (map blk_codeCount blocks) = 0 then Inl (ShiftExportDomainError EMPTY_SOURCE)
          else (case splitBlocks d blocks maxLines of
                  Inl e \<Rightarrow> Inl e
                | Inr parts \<Rightarrow>
                    collect (render_part input d
                        (sanitizeShiftExportFilenameSegment nfc letter_or_number (se_productName input))
                        (length parts > 1))
                      (zip [0..<length parts] parts))))))"

section \<open>Pallet export\<close>

record pallet_export_input =
  pe_formatId :: jstring
  pe_formatVersion :: int
  pe_organizationInn :: "jstring option"
  pe_organizationName :: "jstring option"
  pe_productName :: jstring
  pe_closedDate :: jstring
  pe_documentId :: jstring
  pe_fileDateTime :: jstring
  pe_operationDateTime :: jstring
  pe_pallet :: gismt_pallet

definition PALLET_EXPORT_FORMATS :: "shift_format list" where
  "PALLET_EXPORT_FORMATS = [shift_format_of ''pallet_xml_gismt_aggregation'' 1 Ext_xml Mode_pallet_boxes]"

definition getPalletExportFormat :: "jstring \<Rightarrow> int \<Rightarrow> doc_error + shift_format" where
  "getPalletExportFormat i v =
     (case find (\<lambda>f. sf_id f = i \<and> sf_version f = v) PALLET_EXPORT_FORMATS of
        None \<Rightarrow> Inl (ShiftExportDomainError FORMAT_NOT_FOUND)
      | Some f \<Rightarrow> Inr f)"

text \<open>The words of the pallet filename.\<close>

definition word_pallet :: jstring where
  "word_pallet = [95, 1087, 1072, 1083, 1077, 1090, 95]"

definition word_boxes :: jstring where
  "word_boxes = [95, 1082, 1086, 1088, 1086, 1073, 1086, 1074]"

definition renderPalletAggregationExport ::
    "(jstring \<Rightarrow> jstring) \<Rightarrow> (nat \<Rightarrow> bool) \<Rightarrow> pallet_export_input \<Rightarrow> doc_error + shift_part" where
  "renderPalletAggregationExport nfc letter_or_number input =
     (case getPalletExportFormat (pe_formatId input) (pe_formatVersion input) of
        Inl e \<Rightarrow> Inl e
      | Inr d \<Rightarrow>
          let pallet = pe_pallet input;
              inn = trimmed (pe_organizationInn input);
              name = trimmed (pe_organizationName input);
              boxCount = length (gp_boxSsccs pallet)
          in if \<not> civil_date (pe_closedDate input) then Inl (Thrown PlainError)
             else if boxCount = 0 then Inl (ShiftExportDomainError EMPTY_SOURCE)
             else if inn = [] then Inl (ShiftExportDomainError SHIFT_ORG_INN_MISSING)
             else if name = [] then Inl (ShiftExportDomainError ORG_NAME_MISSING)
             else (case as_shift_error
                      (case formatGismtAggregationSscc (gp_sscc pallet) of
                         Inl e \<Rightarrow> Inl e
                       | Inr documentNumber \<Rightarrow>
                           renderGismtAggregationXml inn
                             \<lparr>gd_documentId = pe_documentId input, gd_documentNumber = documentNumber,
                              gd_fileDateTime = pe_fileDateTime input,
                              gd_operationDateTime = pe_operationDateTime input,
                              gd_organizationName = name\<rparr> [] [pallet]) of
                     Inl e \<Rightarrow> Inl e
                   | Inr r \<Rightarrow>
                       Inr \<lparr>sp_partNumber = 1, sp_physicalLineCount = gr_physicalLineCount r, sp_codeCount = 0,
                            sp_boxCount = boxCount, sp_palletCount = 1,
                            sp_filename = sanitizeShiftExportFilenameSegment nfc letter_or_number (pe_productName input)
                              @ lit ''_'' @ pe_closedDate input @ word_pallet @ lit ''00'' @ gp_sscc pallet
                              @ lit ''_'' @ dec boxCount @ word_boxes @ lit ''.'' @ extension_name (sf_extension d),
                            sp_mimeType = sf_mimeType d, sp_bytes = gr_bytes r\<rparr>))"

section \<open>Lemmas: splitting\<close>

definition load :: "export_block list \<Rightarrow> nat" where
  "load bs = sum_list (map blk_physicalLineCount bs)"

lemma load_simps [simp]: "load [] = 0" "load (b # bs) = blk_physicalLineCount b + load bs" "load (xs @ ys) = load xs + load ys"
  by (simp_all add: load_def)

definition fits :: "nat \<Rightarrow> nat \<Rightarrow> export_block list \<Rightarrow> bool" where
  "fits hdr m bs \<longleftrightarrow> list_all (\<lambda>b. hdr + blk_physicalLineCount b \<le> m) bs"

lemma split_loop_Inr:
  "split_loop hdr m cur count bs = Inr ps \<Longrightarrow> count = hdr + load cur \<Longrightarrow> count \<le> m \<or> cur = [] \<Longrightarrow>
     concat (map fst ps) = cur @ bs \<and> fits hdr m bs
     \<and> list_all (\<lambda>(p, n). n = hdr + load p \<and> (p = [] \<or> n \<le> m)) ps
     \<and> (cur @ bs \<noteq> [] \<longrightarrow> list_all (\<lambda>(p, n). p \<noteq> []) ps)"
proof (induction hdr m cur count bs arbitrary: ps rule: split_loop.induct)
  case (1 hdr m cur count)
  then show ?case by (auto simp: fits_def)
next
  case (2 hdr m cur count b bs)
  have f: "hdr + blk_physicalLineCount b \<le> m" using 2(3) by (simp split: if_splits)
  show ?case
  proof (cases "length cur > 0 \<and> count + blk_physicalLineCount b > m")
    case True
    then obtain qs where qs: "split_loop hdr m [b] (hdr + blk_physicalLineCount b) bs = Inr qs" "ps = (cur, count) # qs"
      using 2(3) f by (auto split: sum.splits)
    have "concat (map fst qs) = [b] @ bs \<and> fits hdr m bs
        \<and> list_all (\<lambda>(p, n). n = hdr + load p \<and> (p = [] \<or> n \<le> m)) qs
        \<and> ([b] @ bs \<noteq> [] \<longrightarrow> list_all (\<lambda>(p, n). p \<noteq> []) qs)"
      by (rule 2(1) [OF _ True qs(1)]) (use f in auto)
    then show ?thesis using f True 2(4,5) by (simp add: qs(2) fits_def)
  next
    case False
    then have q: "split_loop hdr m (cur @ [b]) (count + blk_physicalLineCount b) bs = Inr ps"
      using 2(3) f by auto
    have "concat (map fst ps) = (cur @ [b]) @ bs \<and> fits hdr m bs
        \<and> list_all (\<lambda>(p, n). n = hdr + load p \<and> (p = [] \<or> n \<le> m)) ps
        \<and> ((cur @ [b]) @ bs \<noteq> [] \<longrightarrow> list_all (\<lambda>(p, n). p \<noteq> []) ps)"
      by (rule 2(2) [OF _ False q]) (use f False 2(4) in auto)
    then show ?thesis using f by (simp add: fits_def)
  qed
qed

lemma split_loop_total: "fits hdr m bs \<Longrightarrow> \<exists>ps. split_loop hdr m cur count bs = Inr ps"
proof (induction hdr m cur count bs rule: split_loop.induct)
  case (2 hdr m cur count b bs)
  then show ?case by (auto simp: fits_def not_le split: sum.splits)
qed simp

text \<open>The number of parts a greedy filling needs: \<open>c\<close> lines are in the current part, \<open>l\<close> fit.\<close>

fun greedy :: "nat \<Rightarrow> nat \<Rightarrow> nat list \<Rightarrow> nat" where
  "greedy l c [] = 1"
| "greedy l c (x # xs) = (if c + x > l then 1 + greedy l x xs else greedy l (c + x) xs)"

lemma greedy_mono:
  "c \<le> c' \<Longrightarrow> greedy l c xs \<le> greedy l c' xs \<and> greedy l c' xs \<le> 1 + greedy l c xs"
proof (induction xs arbitrary: c c')
  case (Cons x xs)
  show ?case
  proof (cases "c + x > l \<or> c' + x \<le> l")
    case True
    then show ?thesis using Cons.prems Cons.IH [of "c + x" "c' + x"] by auto
  next
    case False
    then show ?thesis using Cons.IH [of x "c + x"] by auto
  qed
qed simp

lemma greedy_minimal:
  "concat gs = xs \<Longrightarrow> gs \<noteq> [] \<Longrightarrow> [] \<notin> set gs \<Longrightarrow> list_all (\<lambda>g. sum_list g \<le> l) gs \<Longrightarrow>
     c + sum_list (hd gs) \<le> l \<Longrightarrow> greedy l c xs \<le> length gs"
proof (induction xs arbitrary: c gs)
  case Nil
  then show ?case by (cases gs) auto
next
  case (Cons x xs)
  then obtain g rest where gs: "gs = (x # g) # rest" by (cases gs; cases "hd gs") auto
  have no: "c + x \<le> l" using Cons.prems(5) gs by simp
  show ?case
  proof (cases "g = []")
    case False
    then show ?thesis using Cons.IH [of "g # rest" "c + x"] Cons.prems gs no by auto
  next
    case True
    show ?thesis
    proof (cases "rest = []")
      case True
      then show ?thesis using Cons.prems gs no \<open>g = []\<close> by simp
    next
      case False
      then have "greedy l 0 xs \<le> length rest"
        using Cons.IH [of rest 0] Cons.prems gs \<open>g = []\<close> by (cases rest) auto
      moreover have "greedy l (c + x) xs \<le> 1 + greedy l 0 xs" using greedy_mono [of 0 "c + x"] by simp
      ultimately show ?thesis using no gs by simp
    qed
  qed
qed

lemma split_loop_greedy:
  "split_loop hdr m cur (hdr + load cur) bs = Inr ps \<Longrightarrow>
     length ps = greedy (m - hdr) (load cur) (map blk_physicalLineCount bs)"
proof (induction bs arbitrary: cur ps)
  case (Cons b bs)
  have f: "hdr + blk_physicalLineCount b \<le> m" using Cons.prems by (simp split: if_splits)
  show ?case
  proof (cases "length cur > 0 \<and> hdr + load cur + blk_physicalLineCount b > m")
    case True
    then obtain qs where qs: "split_loop hdr m [b] (hdr + load [b]) bs = Inr qs" "ps = (cur, hdr + load cur) # qs"
      using Cons.prems f by (auto split: sum.splits)
    have "m - hdr < load cur + blk_physicalLineCount b" using True f by linarith
    then show ?thesis using Cons.IH [OF qs(1)] qs(2) by simp
  next
    case False
    then have "split_loop hdr m (cur @ [b]) (hdr + load (cur @ [b])) bs = Inr ps"
      using Cons.prems f by (auto simp: add.assoc)
    from Cons.IH [OF this] False f show ?thesis by auto
  qed
qed simp

section \<open>Lemmas: physical lines\<close>

lemma line_breaks_other [simp]: "c \<noteq> 13 \<Longrightarrow> c \<noteq> 10 \<Longrightarrow> line_breaks (c # s) = line_breaks s"
  by (cases s) auto

lemma line_breaks_lf [simp]: "line_breaks (10 # s) = 1 + line_breaks s"
  by (cases s) auto

lemma line_breaks_append:
  "b = [] \<or> hd b \<noteq> 10 \<Longrightarrow> line_breaks (a @ b) = line_breaks a + line_breaks b"
proof (induction a rule: line_breaks.induct)
  case (2 c)
  then show ?case by (cases b) auto
qed auto

lemma double_quotes_simps [simp]:
  "double_quotes [] = []" "double_quotes (c # s) = (if c = 34 then [34, 34] else [c]) @ double_quotes s"
  by (simp_all add: double_quotes_def)

lemma line_breaks_quotes: "line_breaks (double_quotes v) = line_breaks v"
  by (induction v rule: line_breaks.induct) auto

lemma line_breaks_csvField [simp]: "line_breaks (csvField v) = line_breaks v"
  by (simp add: csvField_def line_breaks_append line_breaks_quotes)

lemma csvField_hd: "csvField v = [] \<or> hd (csvField v) \<noteq> 10"
  by (cases v) (auto simp: csvField_def csv_special_def)

lemma line_breaks_row: "line_breaks (csv_row row) = sum_list (map line_breaks row)"
  unfolding csv_row_def
  by (induction row rule: induct_list012) (auto simp: line_breaks_append)

lemma csvRowPhysicalLineCount_eq:
  "fs \<noteq> [] \<Longrightarrow> csvRowPhysicalLineCount fs = 1 + sum_list (map line_breaks fs)"
proof -
  assume "fs \<noteq> []"
  moreover have "sum_list (map countCsvPhysicalLines fs) = length fs + sum_list (map line_breaks fs)"
    by (induction fs) (auto simp: countCsvPhysicalLines_def)
  ultimately show ?thesis by (cases fs) (auto simp: csvRowPhysicalLineCount_def)
qed

lemma line_breaks_crlf: "line_breaks (a @ 13 # 10 # b) = line_breaks a + 1 + line_breaks b"
  by (simp add: line_breaks_append)

lemma line_breaks_rows:
  "rows \<noteq> [] \<Longrightarrow> [] \<notin> set rows \<Longrightarrow>
     line_breaks (join [13, 10] (map csv_row rows) @ [13, 10]) = sum_list (map csvRowPhysicalLineCount rows)"
proof (induction rows rule: induct_list012)
  case (2 x)
  then have "x \<noteq> []" by auto
  then show ?case using line_breaks_crlf [of "csv_row x" "[]"] by (simp add: line_breaks_row csvRowPhysicalLineCount_eq)
next
  case (3 x y rows)
  then have "x \<noteq> []" by auto
  then show ?case using 3 line_breaks_crlf [of "csv_row x"] by (simp add: line_breaks_row csvRowPhysicalLineCount_eq)
qed simp

lemma csv_text_lines:
  assumes "header \<noteq> []" "hd header \<noteq> []" "[] \<notin> set rows"
  shows "line_breaks (csv_text (header # rows)) = sum_list (map csvRowPhysicalLineCount (header # rows))"
proof -
  have "csvField (hd header) \<noteq> []" using assms(2) by (auto simp: csvField_def)
  then have "csv_row header \<noteq> []" using assms(1)
    by (cases header rule: remdups_adj.cases) (auto simp: csv_row_def)
  then have "join [13, 10] (map csv_row (header # rows)) \<noteq> []" by (cases rows) auto
  then have "csv_text (header # rows) = join [13, 10] (map csv_row (header # rows)) @ [13, 10]"
    by (simp add: csv_text_def Let_def)
  then show ?thesis using line_breaks_rows [of "header # rows"] assms by auto
qed

section \<open>Lemmas: blocks\<close>

text \<open>What every block promises: it is of the kind its format writes, and its counters are right.\<close>

definition block_ok :: "shift_format \<Rightarrow> export_block \<Rightarrow> bool" where
  "block_ok d b = (case sf_extension d of
     Ext_xml \<Rightarrow> (\<exists>xs. collectXmlBoxes b = Inr xs
       \<and> blk_physicalLineCount b = sum_list (map gismtAggregationBoxLineCount xs)
           + sum_list (map gismtAggregationPalletLineCount (collectXmlPallets b))
       \<and> (sf_boxMode d \<noteq> Mode_pallet_boxes \<longrightarrow> blk_codeCount b = sum_list (map (\<lambda>x. length (gb_codes x)) xs)))
   | Ext_txt \<Rightarrow> (\<exists>ls. blk_lines b = Some ls \<and> length ls = blk_physicalLineCount b)
   | Ext_csv \<Rightarrow> (\<exists>rows. blk_csvRows b = Some rows \<and> [] \<notin> set rows
       \<and> blk_physicalLineCount b = sum_list (map csvRowPhysicalLineCount rows)))"

lemma xml_box_block_ok: "sf_extension d = Ext_xml \<Longrightarrow> block_ok d (xml_box_block box)"
  by (simp add: block_ok_def xml_box_block_def collectXmlBoxes_def requireXmlBox_def collectXmlPallets_def empty_block_def)

lemma flat_block_ok: "sf_extension d \<noteq> Ext_xml \<Longrightarrow> block_ok d (flat_block d code)"
  by (cases "sf_extension d") (auto simp: block_ok_def flat_block_def csvRowPhysicalLineCount_def)

lemma boxes_mode_block_ok: "boxes_mode_block d box = Inr b \<Longrightarrow> block_ok d b \<and> blk_codeCount b = length (gb_codes box)"
  by (cases "sf_extension d")
     (auto simp: boxes_mode_block_def block_ok_def xml_box_block_ok lines_block_def csvRowPhysicalLineCount_def
        comp_def empty_block_def xml_box_block_def collectXmlBoxes_def requireXmlBox_def collectXmlPallets_def
       split: sum.splits)

lemma palletModeBoxBlock_ok:
  "palletModeBoxBlock d col box = Inr b \<Longrightarrow> block_ok d b \<and> blk_codeCount b = length (gb_codes box)
     \<and> (sf_extension d = Ext_xml \<longrightarrow> b = xml_box_block box)"
  by (cases "sf_extension d")
     (auto simp: palletModeBoxBlock_def block_ok_def lines_block_def comp_def empty_block_def xml_box_block_def
        collectXmlBoxes_def requireXmlBox_def collectXmlPallets_def split: sum.splits)

lemma collect_map:
  assumes "collect f xs = Inr ys" "\<And>x y. f x = Inr y \<Longrightarrow> y = g x"
  shows "ys = map g xs"
  using assms
proof (induction xs arbitrary: ys)
  case (Cons x xs)
  then show ?case by (fastforce split: sum.splits)
qed simp

definition box_codes :: "gismt_box list \<Rightarrow> jstring list" where
  "box_codes boxes = concat (map gb_codes boxes)"

lemma length_box_codes: "length (box_codes boxes) = sum_list (map (\<lambda>b. length (gb_codes b)) boxes)"
  by (simp add: box_codes_def length_concat comp_def)

lemma buildPalletBoxesBlock_ok:
  assumes "buildPalletBoxesBlock d p = Inr b" "sf_extension d \<noteq> Ext_csv" "sf_boxMode d = Mode_pallet_boxes"
  shows "block_ok d b \<and> blk_codeCount b = length (box_codes (pg_boxes p))"
  using assms(1)
  by (cases "sf_extension d")
     (auto simp: buildPalletBoxesBlock_def block_ok_def Let_def assms empty_block_def collectXmlBoxes_def
        collectXmlPallets_def length_box_codes split: sum.splits)

lemma collect_xml_boxes:
  "collect requireXmlBox (map xml_box_block boxes) = Inr boxes"
  by (induction boxes) (auto simp: requireXmlBox_def xml_box_block_def)

lemma block_lines_length:
  assumes "list_all (block_ok d) bs" "sf_extension d = Ext_txt"
  shows "length (block_lines bs) = load bs"
  using assms by (induction bs) (auto simp: block_lines_def block_ok_def)

lemma block_rows_lines:
  assumes "list_all (block_ok d) bs" "sf_extension d = Ext_csv"
  shows "[] \<notin> set (block_rows bs) \<and> sum_list (map csvRowPhysicalLineCount (block_rows bs)) = load bs"
  using assms by (induction bs) (auto simp: block_rows_def block_ok_def)

lemma box_blocks_ok:
  assumes "collect (palletModeBoxBlock d c) boxes = Inr bs"
  shows "list_all (block_ok d) bs \<and> sum_list (map blk_codeCount bs) = length (box_codes boxes)"
proof
  show "list_all (block_ok d) bs" by (rule collect_all [OF assms]) (use palletModeBoxBlock_ok in blast)
  show "sum_list (map blk_codeCount bs) = length (box_codes boxes)"
    unfolding length_box_codes by (rule collect_sum [OF assms]) (use palletModeBoxBlock_ok in blast)
qed

lemma buildPalletGroupBlock_ok:
  assumes "buildPalletGroupBlock d p = Inr b"
  shows "block_ok d b \<and> blk_codeCount b = length (box_codes (pg_boxes p))"
proof -
  show ?thesis
  proof (cases "sf_extension d")
    case Ext_xml
    have c0: "collect (palletModeBoxBlock d []) (pg_boxes p) = Inr (map xml_box_block (pg_boxes p))"
      by (rule collect_InrI) (simp add: list_all2_map2 palletModeBoxBlock_def Ext_xml list_all2_same)
    have "b = empty_block\<lparr>blk_isPalletGroup := True, blk_palletCount := 1,
        blk_codeCount := sum_list (map blk_codeCount (map xml_box_block (pg_boxes p))),
        blk_boxCount := length (pg_boxes p), blk_xmlBoxes := Some (pg_boxes p), blk_xmlPallet := Some (xml_pallet_of p),
        blk_physicalLineCount := load (map xml_box_block (pg_boxes p)) + gismtAggregationPalletLineCount (xml_pallet_of p)\<rparr>"
      using assms Ext_xml c0 collect_xml_boxes
      by (simp add: buildPalletGroupBlock_def Let_def load_def)
    moreover have "load (map xml_box_block bs) = sum_list (map gismtAggregationBoxLineCount bs)" for bs
      by (induction bs) (auto simp: xml_box_block_def)
    moreover have "sum_list (map blk_codeCount (map xml_box_block bs)) = sum_list (map (\<lambda>x. length (gb_codes x)) bs)" for bs
      by (induction bs) (auto simp: xml_box_block_def)
    ultimately show ?thesis using Ext_xml
      by (simp add: block_ok_def collectXmlBoxes_def collectXmlPallets_def length_box_codes)
  next
    case Ext_txt
    have lb: "length (concat (map (\<lambda>b. case blk_lines b of None \<Rightarrow> [] | Some ls \<Rightarrow> ls) bs)) = load bs"
      if "list_all (block_ok d) bs" for bs
      using block_lines_length [OF that Ext_txt] by (simp add: block_lines_def)
    obtain bs where bs: "collect (palletModeBoxBlock d []) (pg_boxes p) = Inr bs"
        "blk_codeCount b = sum_list (map blk_codeCount bs)" "blk_physicalLineCount b = 1 + load bs"
        "\<exists>s. blk_lines b = Some (s # concat (map (\<lambda>b. case blk_lines b of None \<Rightarrow> [] | Some ls \<Rightarrow> ls) bs))"
      using assms Ext_txt by (auto simp: buildPalletGroupBlock_def Let_def load_def split: sum.splits)
    then show ?thesis using box_blocks_ok [OF bs(1)] Ext_txt lb by (auto simp: block_ok_def)
  next
    case Ext_csv
    obtain c bs where bs: "collect (palletModeBoxBlock d c) (pg_boxes p) = Inr bs"
        "blk_codeCount b = sum_list (map blk_codeCount bs)" "blk_physicalLineCount b = load bs"
        "blk_csvRows b = Some (block_rows bs)"
      using assms Ext_csv by (auto simp: buildPalletGroupBlock_def Let_def load_def block_rows_def split: sum.splits)
    then show ?thesis using box_blocks_ok [OF bs(1)] Ext_csv block_rows_lines by (auto simp: block_ok_def)
  qed
qed

section \<open>Lemmas: the whole export\<close>

text \<open>The codes an export covers: a document of pallets and their boxes leaves out the loose ones.\<close>

fun covered_codes :: "box_mode \<Rightarrow> shift_source \<Rightarrow> jstring list" where
  "covered_codes m (Flat_source codes) = codes"
| "covered_codes m (Boxes_source boxes) = box_codes boxes"
| "covered_codes m (Pallets_source pallets loose) =
     concat (map (\<lambda>p. box_codes (pg_boxes p)) pallets) @ (if m = Mode_pallet_boxes then [] else box_codes loose)"

lemma find_mem: "find P xs = Some x \<Longrightarrow> x \<in> set xs"
  by (metis find_Some_iff nth_mem)

lemma format_shape:
  assumes "getShiftExportFormat i v = Inr d"
  shows "(sf_boxMode d = Mode_flat \<longrightarrow> sf_extension d \<noteq> Ext_xml)
    \<and> (sf_boxMode d = Mode_pallet_boxes \<longrightarrow> sf_extension d \<noteq> Ext_csv)"
proof -
  have "d \<in> set (SHIFT_EXPORT_FORMATS @ LEGACY_SHIFT_EXPORT_FORMATS)"
    using assms by (auto simp del: set_append simp: getShiftExportFormat_def split: option.splits dest: find_mem)
  then show ?thesis
    by (auto simp: SHIFT_EXPORT_FORMATS_def LEGACY_SHIFT_EXPORT_FORMATS_def shift_format_of_def)
qed

lemma createBlocks_ok:
  assumes "createBlocks d source = Inr blocks" "getShiftExportFormat i v = Inr d"
    "mode_of_source source = shiftExportSourceModeFor (sf_boxMode d)"
  shows "list_all (block_ok d) blocks
    \<and> sum_list (map blk_codeCount blocks) = length (covered_codes (sf_boxMode d) source)"
proof (cases source)
  case (Flat_source codes)
  then have "sf_boxMode d = Mode_flat" using assms(3) by (cases "sf_boxMode d") (auto simp: shiftExportSourceModeFor_def)
  then have "sf_extension d \<noteq> Ext_xml" using format_shape [OF assms(2)] by blast
  moreover have "sum_list (map (blk_codeCount \<circ> flat_block d) codes) = length codes"
    by (induction codes) (auto simp: flat_block_def)
  ultimately show ?thesis using assms(1) Flat_source
    by (auto simp: createBlocks_def list_all_iff flat_block_ok)
next
  case (Boxes_source boxes)
  then have c: "collect (boxes_mode_block d) boxes = Inr blocks" using assms(1) by (simp add: createBlocks_def)
  have "list_all (block_ok d) blocks" by (rule collect_all [OF c]) (use boxes_mode_block_ok in blast)
  moreover have "sum_list (map blk_codeCount blocks) = length (box_codes boxes)"
    unfolding length_box_codes by (rule collect_sum [OF c]) (use boxes_mode_block_ok in blast)
  ultimately show ?thesis using Boxes_source by simp
next
  case (Pallets_source pallets loose)
  have lc: "length (concat (map (\<lambda>p. box_codes (pg_boxes p)) pallets)) = sum_list (map (\<lambda>p. length (box_codes (pg_boxes p))) pallets)"
    by (simp add: length_concat comp_def)
  show ?thesis
  proof (cases "sf_boxMode d = Mode_pallet_boxes")
    case True
    then have c: "collect (buildPalletBoxesBlock d) pallets = Inr blocks"
      using assms(1) Pallets_source by (simp add: createBlocks_def)
    have e: "sf_extension d \<noteq> Ext_csv" using format_shape [OF assms(2)] True by blast
    have "list_all (block_ok d) blocks"
      by (rule collect_all [OF c]) (use buildPalletBoxesBlock_ok e True in blast)
    moreover have "sum_list (map blk_codeCount blocks) = sum_list (map (\<lambda>p. length (box_codes (pg_boxes p))) pallets)"
      by (rule collect_sum [OF c]) (use buildPalletBoxesBlock_ok e True in blast)
    ultimately show ?thesis using Pallets_source True lc by simp
  next
    case False
    then obtain ps ls where c: "collect (buildPalletGroupBlock d) pallets = Inr ps"
        "collect (palletModeBoxBlock d []) loose = Inr ls" "blocks = ps @ ls"
      using assms(1) Pallets_source by (auto simp: createBlocks_def split: sum.splits)
    have "list_all (block_ok d) ps" by (rule collect_all [OF c(1)]) (use buildPalletGroupBlock_ok in blast)
    moreover have "sum_list (map blk_codeCount ps) = sum_list (map (\<lambda>p. length (box_codes (pg_boxes p))) pallets)"
      by (rule collect_sum [OF c(1)]) (use buildPalletGroupBlock_ok in blast)
    ultimately show ?thesis using Pallets_source False lc c(3) box_blocks_ok [OF c(2)] by simp
  qed
qed

lemma renderXmlPart_counts:
  assumes "renderXmlPart inn doc blocks = Inr r" "list_all (block_ok d) blocks" "sf_extension d = Ext_xml"
  shows "gr_physicalLineCount r = header_lines d + load blocks \<and> count_list (gr_bytes r) 10 = gr_physicalLineCount r
    \<and> (sf_boxMode d \<noteq> Mode_pallet_boxes \<longrightarrow> gr_codeCount r = sum_list (map blk_codeCount blocks))"
proof -
  obtain xss where x: "collect collectXmlBoxes blocks = Inr xss"
      "renderGismtAggregationXml inn doc (concat xss) (concat (map collectXmlPallets blocks)) = Inr r"
    using assms(1) by (auto simp: renderXmlPart_def as_shift_error_def split: sum.splits doc_error.splits)
  have l: "load blocks = sum_list (map gismtAggregationBoxLineCount (concat xss))
      + sum_list (map gismtAggregationPalletLineCount (concat (map collectXmlPallets blocks)))"
    using x(1) assms(2,3)
  proof (induction blocks arbitrary: xss)
    case (Cons b bs)
    then show ?case by (auto simp: block_ok_def split: sum.splits)
  qed simp
  have cc: "sf_boxMode d \<noteq> Mode_pallet_boxes \<Longrightarrow>
      sum_list (map blk_codeCount blocks) = sum_list (map (\<lambda>x. length (gb_codes x)) (concat xss))"
    using x(1) assms(2,3)
  proof (induction blocks arbitrary: xss)
    case (Cons b bs)
    then show ?case by (auto simp: block_ok_def split: sum.splits)
  qed simp
  have "gr_physicalLineCount r = GISMT_AGGREGATION_OVERHEAD_LINE_COUNT
      + sum_list (map gismtAggregationBoxLineCount (concat xss))
      + sum_list (map gismtAggregationPalletLineCount (concat (map collectXmlPallets blocks)))
      \<and> gr_codeCount r = sum_list (map (\<lambda>x. length (gb_codes x)) (concat xss))"
    using x(2) by (auto simp: renderGismtAggregationXml_def Let_def split: if_splits sum.splits)
  then show ?thesis using l cc gismt_line_feeds [OF x(2)] assms(3) by (simp add: header_lines_def)
qed

text \<open>What one rendered part reports about its bytes.\<close>

definition part_truthful :: "shift_format \<Rightarrow> export_block list \<Rightarrow> shift_part \<Rightarrow> bool" where
  "part_truthful d blocks part = (case sf_extension d of
     Ext_xml \<Rightarrow> count_list (sp_bytes part) 10 = sp_physicalLineCount part
   | Ext_txt \<Rightarrow> list_all one_line (block_lines blocks) \<longrightarrow> count_list (sp_bytes part) 10 = sp_physicalLineCount part
   | Ext_csv \<Rightarrow> (\<exists>text. sp_bytes part = UTF8_BOM @ utf8 text \<and> line_breaks text = sp_physicalLineCount part
       \<and> csv_read Csv_start [] [] text = csvHeaderFor (sf_boxMode d) # block_rows blocks))"

lemma csv_header_ok:
  "csvHeaderFor m \<noteq> []" "hd (csvHeaderFor m) \<noteq> []" "csvRowPhysicalLineCount (csvHeaderFor m) = 1"
  by (cases m; simp add: csvHeaderFor_def lit_def csvRowPhysicalLineCount_eq)+

lemma txt_lines:
  assumes "list_all one_line ls"
  shows "count_list (encodeLfText ls) 10 = length ls"
proof (cases "ls = []")
  case False
  then show ?thesis using assms count_lines [of ls] by (simp add: encodeLfText_def one_line_def list_all_iff)
qed (simp add: encodeLfText_def)

lemma render_part_ok:
  assumes "render_part input d productName multi (k, blocks, n) = Inr part" "list_all (block_ok d) blocks"
    "n = header_lines d + load blocks"
  shows "sp_partNumber part = k + 1 \<and> sp_physicalLineCount part = n
    \<and> sp_codeCount part = sum_list (map blk_codeCount blocks) \<and> part_truthful d blocks part"
proof (cases "sf_extension d = Ext_xml")
  case True
  then obtain doc r where r: "renderXmlPart (trimmed (se_organizationInn input)) doc blocks = Inr r"
      "xml_rendered input d (k + 1) multi blocks = Inr (Some r)"
    using assms(1) by (auto simp: render_part_def xml_rendered_def Let_def split: sum.splits)
  note c = renderXmlPart_counts [OF r(1) assms(2) True]
  show ?thesis using assms(1,3) r(2) c True by (auto simp: render_part_def Let_def part_truthful_def)
next
  case False
  then have p: "sp_partNumber part = k + 1" "sp_physicalLineCount part = n"
      "sp_codeCount part = sum_list (map blk_codeCount blocks)" "sp_bytes part = encodePart d blocks"
    using assms(1) by (auto simp: render_part_def xml_rendered_def Let_def)
  show ?thesis
  proof (cases "sf_extension d")
    case Ext_txt
    then show ?thesis using p assms(3) txt_lines [of "block_lines blocks"] block_lines_length [OF assms(2)]
      by (auto simp: part_truthful_def encodePart_def header_lines_def)
  next
    case Ext_csv
    let ?t = "csv_text (csvHeaderFor (sf_boxMode d) # block_rows blocks)"
    have b: "[] \<notin> set (block_rows blocks)" "sum_list (map csvRowPhysicalLineCount (block_rows blocks)) = load blocks"
      using block_rows_lines [OF assms(2) Ext_csv] by auto
    have "line_breaks ?t = n"
      using csv_text_lines [OF csv_header_ok(1,2) b(1)] b(2) assms(3) Ext_csv
      by (simp add: csv_header_ok(3) header_lines_def)
    moreover have "sp_bytes part = UTF8_BOM @ utf8 ?t"
      using p(4) Ext_csv by (simp add: encodePart_def encodeSemicolonCsv_def encodeSemicolonCsvRows_def)
    moreover have "csv_read Csv_start [] [] ?t = csvHeaderFor (sf_boxMode d) # block_rows blocks"
      by (rule csv_roundtrip [OF csv_header_ok(1,2) b(1)])
    ultimately show ?thesis using p Ext_csv by (auto simp: part_truthful_def)
  qed (use False in simp)
qed

text \<open>The stages of a successful export.\<close>

lemma export_stages:
  assumes "renderShiftExport nfc ln input = Inr parts"
  obtains d maxLines blocks ps name where
    "getShiftExportFormat (se_formatId input) (se_formatVersion input) = Inr d"
    "export_guards input d = Inr maxLines" "createBlocks d (se_source input) = Inr blocks"
    "sum_list (map blk_codeCount blocks) \<noteq> 0" "splitBlocks d blocks maxLines = Inr ps"
    "collect (render_part input d name (length ps > 1)) (zip [0..<length ps] ps) = Inr parts"
  using assms by (auto simp: renderShiftExport_def split: sum.splits if_splits)

lemma export_guards_mode:
  assumes "export_guards input d = Inr maxLines"
  shows "mode_of_source (se_source input) = shiftExportSourceModeFor (sf_boxMode d)"
    "maxLines = map_option (nat \<circ> jint) (se_maxLines input)"
  using assms by (auto simp: export_guards_def validateLineLimit_def split: if_splits sum.splits option.splits)

lemma splitBlocks_ok:
  assumes "splitBlocks d blocks maxLines = Inr ps"
  shows "concat (map fst ps) = blocks \<and> list_all (\<lambda>(p, n). n = header_lines d + load p) ps
    \<and> (\<forall>m. maxLines = Some m \<and> blocks \<noteq> [] \<longrightarrow> list_all (\<lambda>(p, n). n \<le> m) ps)"
proof (cases maxLines)
  case None
  then show ?thesis using assms by (auto simp: splitBlocks_def load_def)
next
  case (Some m)
  then have "split_loop (header_lines d) m [] (header_lines d + load []) blocks = Inr ps"
    using assms by (simp add: splitBlocks_def)
  from split_loop_Inr [OF this] show ?thesis using Some by (auto simp: list_all_iff)
qed

lemma rendered_parts:
  assumes "collect (render_part input d name multi) (zip [0..<length ps] ps) = Inr parts"
    "list_all (\<lambda>(p, n). n = header_lines d + load p) ps" "list_all (block_ok d) (concat (map fst ps))"
  shows "length parts = length ps
    \<and> (\<forall>k < length ps. sp_partNumber (parts ! k) = k + 1 \<and> sp_physicalLineCount (parts ! k) = snd (ps ! k)
         \<and> sp_codeCount (parts ! k) = sum_list (map blk_codeCount (fst (ps ! k)))
         \<and> part_truthful d (fst (ps ! k)) (parts ! k))"
proof (intro conjI allI impI)
  have a: "list_all2 (\<lambda>x y. render_part input d name multi x = Inr y) (zip [0..<length ps] ps) parts"
    by (rule collect_InrD [OF assms(1)])
  then show l: "length parts = length ps" by (auto dest: list_all2_lengthD)
  fix k assume k: "k < length ps"
  have r: "render_part input d name multi (k, fst (ps ! k), snd (ps ! k)) = Inr (parts ! k)"
    using list_all2_nthD [OF a, of k] k by simp
  have b: "list_all (block_ok d) (fst (ps ! k))" using assms(3) k by (force simp: list_all_iff)
  have "snd (ps ! k) = header_lines d + load (fst (ps ! k))"
    using assms(2) k by (simp add: list_all_length case_prod_unfold)
  from render_part_ok [OF r b this]
  show "sp_partNumber (parts ! k) = k + 1" "sp_physicalLineCount (parts ! k) = snd (ps ! k)"
    "sp_codeCount (parts ! k) = sum_list (map blk_codeCount (fst (ps ! k)))" "part_truthful d (fst (ps ! k)) (parts ! k)"
    by auto
qed

text \<open>All facts about a successful export, from which the properties are read off.\<close>

lemma export_facts:
  assumes "renderShiftExport nfc ln input = Inr parts"
    "getShiftExportFormat (se_formatId input) (se_formatVersion input) = Inr d"
  obtains blocks ps where "createBlocks d (se_source input) = Inr blocks" "concat (map fst ps) = blocks"
    "sum_list (map blk_codeCount blocks) = length (covered_codes (sf_boxMode d) (se_source input))"
    "length parts = length ps"
    "\<And>k. k < length ps \<Longrightarrow> sp_partNumber (parts ! k) = k + 1 \<and> sp_physicalLineCount (parts ! k) = snd (ps ! k)
       \<and> sp_codeCount (parts ! k) = sum_list (map blk_codeCount (fst (ps ! k)))
       \<and> part_truthful d (fst (ps ! k)) (parts ! k)"
    "\<And>m. se_maxLines input = Some m \<Longrightarrow> list_all (\<lambda>(p, n). int n \<le> jint m) ps"
proof -
  obtain d' maxLines blocks ps name where st:
      "getShiftExportFormat (se_formatId input) (se_formatVersion input) = Inr d'"
      "export_guards input d' = Inr maxLines" "createBlocks d' (se_source input) = Inr blocks"
      "sum_list (map blk_codeCount blocks) \<noteq> 0" "splitBlocks d' blocks maxLines = Inr ps"
      "collect (render_part input d' name (length ps > 1)) (zip [0..<length ps] ps) = Inr parts"
    using assms(1) by (rule export_stages)
  have d: "d' = d" using st(1) assms(2) by simp
  note g = export_guards_mode [OF st(2), unfolded d]
  note b = createBlocks_ok [OF st(3) st(1) export_guards_mode(1) [OF st(2)], unfolded d]
  note q = splitBlocks_ok [OF st(5), unfolded d]
  have r: "length parts = length ps
    \<and> (\<forall>k < length ps. sp_partNumber (parts ! k) = k + 1 \<and> sp_physicalLineCount (parts ! k) = snd (ps ! k)
         \<and> sp_codeCount (parts ! k) = sum_list (map blk_codeCount (fst (ps ! k)))
         \<and> part_truthful d (fst (ps ! k)) (parts ! k))"
    by (rule rendered_parts [OF st(6) [unfolded d]]) (use q b in auto)
  have ne: "blocks \<noteq> []" using st(4) by auto
  have m: "list_all (\<lambda>(p, n). int n \<le> jint m) ps" if "se_maxLines input = Some m" for m
  proof -
    have "2 \<le> jint m" using st(2) that
      by (auto simp: export_guards_def validateLineLimit_def split: if_splits)
    moreover have "list_all (\<lambda>(p, n). n \<le> nat (jint m)) ps" using q g(2) ne that by auto
    ultimately show ?thesis by (auto simp: list_all_iff)
  qed
  show thesis by (rule that [of blocks ps]) (use st(3) d q b r m in auto)
qed

section \<open>Properties\<close>

text \<open>C11: Splitting an export loses, reorders and divides nothing: the parts joined are the blocks,
  each part is non-empty, within the line limit and counted exactly, and no other way of cutting
  the same blocks into consecutive parts within the limit needs fewer parts. It fails only when
  some block alone exceeds the limit.\<close>

theorem shift_split_optimal:
  "case splitBlocks d blocks (Some m) of
     Inl e \<Rightarrow> \<exists>b \<in> set blocks. m < header_lines d + blk_physicalLineCount b
   | Inr ps \<Rightarrow>
       concat (map fst ps) = blocks
       \<and> list_all (\<lambda>(p, n). n = header_lines d + load p \<and> (p = [] \<or> n \<le> m)) ps
       \<and> (blocks \<noteq> [] \<longrightarrow> list_all (\<lambda>(p, n). p \<noteq> []) ps)
       \<and> (\<forall>gs. concat gs = blocks \<and> gs \<noteq> [] \<and> [] \<notin> set gs \<and> list_all (\<lambda>g. header_lines d + load g \<le> m) gs
            \<longrightarrow> length ps \<le> length gs)"
proof (cases "splitBlocks d blocks (Some m)")
  case (Inl e)
  then have "\<not> fits (header_lines d) m blocks"
    using split_loop_total [of "header_lines d" m blocks "[]" "header_lines d"] by (auto simp: splitBlocks_def)
  then show ?thesis using Inl by (auto simp: fits_def list_all_iff not_le)
next
  case (Inr ps)
  then have s: "split_loop (header_lines d) m [] (header_lines d + load []) blocks = Inr ps"
    by (simp add: splitBlocks_def)
  have g: "length ps \<le> length gs"
    if "concat gs = blocks" "gs \<noteq> []" "[] \<notin> set gs" "list_all (\<lambda>g. header_lines d + load g \<le> m) gs" for gs
  proof -
    let ?gs = "map (map blk_physicalLineCount) gs"
    have "concat ?gs = map blk_physicalLineCount blocks" using that(1) by (simp add: map_concat [symmetric])
    moreover have "list_all (\<lambda>g. sum_list g \<le> m - header_lines d) ?gs"
      using that(4) by (auto simp: list_all_iff load_def)
    ultimately have "greedy (m - header_lines d) 0 (map blk_physicalLineCount blocks) \<le> length ?gs"
      using that(2,3) by (intro greedy_minimal) (auto simp: list_all_iff hd_map image_iff)
    then show ?thesis using split_loop_greedy [OF s] by simp
  qed
  show ?thesis using split_loop_Inr [OF s] g Inr by simp
qed

theorem shift_split_optimal_witness:
  "\<exists>ps. splitBlocks (shift_format_of ''shift_txt_flat'' 1 Ext_txt Mode_flat)
      [empty_block\<lparr>blk_physicalLineCount := 2\<rparr>, empty_block\<lparr>blk_physicalLineCount := 3\<rparr>] (Some 4) = Inr ps
    \<and> concat (map fst ps) = [empty_block\<lparr>blk_physicalLineCount := 2\<rparr>, empty_block\<lparr>blk_physicalLineCount := 3\<rparr>]"
proof -
  let ?d = "shift_format_of ''shift_txt_flat'' 1 Ext_txt Mode_flat"
  let ?bs = "[empty_block\<lparr>blk_physicalLineCount := 2\<rparr>, empty_block\<lparr>blk_physicalLineCount := 3\<rparr>]"
  have "\<exists>ps. splitBlocks ?d ?bs (Some 4) = Inr ps"
    by (simp add: splitBlocks_def header_lines_def shift_format_of_def)
  then show ?thesis using shift_split_optimal [where d = ?d and blocks = ?bs and m = 4] by auto
qed

text \<open>A shift export accounts for every code: its parts are numbered from one, their code counts
  add up to the codes the chosen format covers in the source, and every part respects the line
  limit.\<close>

theorem shift_export_conserves_codes:
  assumes "renderShiftExport nfc letter_or_number input = Inr parts"
    "getShiftExportFormat (se_formatId input) (se_formatVersion input) = Inr d"
  shows "map sp_partNumber parts = [1..<Suc (length parts)]
    \<and> sum_list (map sp_codeCount parts) = length (covered_codes (sf_boxMode d) (se_source input))
    \<and> (\<forall>m. se_maxLines input = Some m \<longrightarrow> list_all (\<lambda>p. int (sp_physicalLineCount p) \<le> jint m) parts)"
proof -
  obtain blocks ps where f: "concat (map fst ps) = blocks"
      "sum_list (map blk_codeCount blocks) = length (covered_codes (sf_boxMode d) (se_source input))"
      "length parts = length ps"
      "\<And>k. k < length ps \<Longrightarrow> sp_partNumber (parts ! k) = k + 1 \<and> sp_physicalLineCount (parts ! k) = snd (ps ! k)
         \<and> sp_codeCount (parts ! k) = sum_list (map blk_codeCount (fst (ps ! k)))
         \<and> part_truthful d (fst (ps ! k)) (parts ! k)"
      "\<And>m. se_maxLines input = Some m \<Longrightarrow> list_all (\<lambda>(p, n). int n \<le> jint m) ps"
    using assms by (rule export_facts) blast
  have n: "map sp_partNumber parts = [1..<Suc (length parts)]"
    by (rule nth_equalityI) (simp_all add: f(3,4) del: upt_Suc)
  have "map sp_codeCount parts = map (\<lambda>q. sum_list (map blk_codeCount (fst q))) ps"
    by (rule nth_equalityI) (simp_all add: f(3,4))
  moreover have "sum_list (map (\<lambda>q. sum_list (map blk_codeCount (fst q))) ps)
      = sum_list (map blk_codeCount (concat (map fst ps)))"
    by (induction ps) auto
  moreover have "list_all (\<lambda>p. int (sp_physicalLineCount p) \<le> jint m) parts" if "se_maxLines input = Some m" for m
    using f(3,4) f(5) [OF that] by (simp add: list_all_length case_prod_unfold)
  ultimately show ?thesis using n f(1,2) by simp
qed

definition sample_export :: shift_export_input where
  "sample_export = \<lparr>se_formatId = lit ''shift_csv_flat'', se_formatVersion = 1, se_productName = lit ''p'',
     se_shiftDate = lit ''2026-01-31'', se_maxLines = Some (JInt 2),
     se_source = Flat_source [lit ''a;b'', lit ''c''], se_organizationInn = None, se_organizationName = None,
     se_document = None\<rparr>"

lemma sample_format:
  "getShiftExportFormat (se_formatId sample_export) (se_formatVersion sample_export)
     = Inr (shift_format_of ''shift_csv_flat'' 1 Ext_csv Mode_flat)"
  by (simp add: sample_export_def getShiftExportFormat_def SHIFT_EXPORT_FORMATS_def shift_format_of_def lit_def)

lemma sample_export_runs: "\<exists>parts. renderShiftExport id (\<lambda>c. True) sample_export = Inr parts"
proof -
  have date: "civil_date [50, 48, 50, 54, 45, 48, 49, 45, 51, 49]"
    by (simp add: civil_date_def matches_def lit_def is_digit_def is_hyphen_def)
  show ?thesis
    unfolding renderShiftExport_def sample_format
    by (simp add: sample_export_def export_guards_def date shift_format_of_def shiftExportSourceModeFor_def
        validateLineLimit_def createBlocks_def flat_block_def xml_rendered_def splitBlocks_def header_lines_def
        countCsvPhysicalLines_def render_part_def Let_def lit_def)
qed

theorem shift_export_conserves_codes_witness:
  "\<exists>parts. renderShiftExport id (\<lambda>c. True) sample_export = Inr parts \<and> sum_list (map sp_codeCount parts) = 2"
proof -
  obtain parts where "renderShiftExport id (\<lambda>c. True) sample_export = Inr parts" using sample_export_runs by blast
  from this shift_export_conserves_codes [OF this sample_format] show ?thesis
    by (auto simp: sample_export_def)
qed

text \<open>What a part says about itself is what its file contains: for the XML formats the reported
  line count is the number of line feeds, for the text formats too when no code contains a line
  feed, and for the CSV formats it is the number of line breaks of the text, which a CSV reader
  turns back into exactly the header and the rows of the part. The parts together carry the
  blocks of the source, in order.\<close>

theorem shift_export_parts_truthful:
  assumes "renderShiftExport nfc letter_or_number input = Inr parts"
    "getShiftExportFormat (se_formatId input) (se_formatVersion input) = Inr d"
  shows "\<exists>blockss. createBlocks d (se_source input) = Inr (concat blockss)
    \<and> list_all2 (part_truthful d) blockss parts"
proof -
  obtain blocks ps where f: "createBlocks d (se_source input) = Inr blocks" "concat (map fst ps) = blocks"
      "length parts = length ps"
      "\<And>k. k < length ps \<Longrightarrow> sp_partNumber (parts ! k) = k + 1 \<and> sp_physicalLineCount (parts ! k) = snd (ps ! k)
         \<and> sp_codeCount (parts ! k) = sum_list (map blk_codeCount (fst (ps ! k)))
         \<and> part_truthful d (fst (ps ! k)) (parts ! k)"
    using assms by (rule export_facts) blast
  have "list_all2 (part_truthful d) (map fst ps) parts"
    using f(3,4) by (simp add: list_all2_conv_all_nth)
  then show ?thesis using f(1,2) by blast
qed

theorem shift_export_parts_truthful_witness:
  "\<exists>parts blockss. renderShiftExport id (\<lambda>c. True) sample_export = Inr parts
     \<and> list_all2 (part_truthful (shift_format_of ''shift_csv_flat'' 1 Ext_csv Mode_flat)) blockss parts"
proof -
  obtain parts where "renderShiftExport id (\<lambda>c. True) sample_export = Inr parts" using sample_export_runs by blast
  from this shift_export_parts_truthful [OF this sample_format] show ?thesis by blast
qed

end
