(* ===== verification/Inventory_Documents.thy ===== *)
theory Inventory_Documents
  imports Gismt_Documents Inventory_Scan "HOL-Library.Multiset"
begin

text \<open>
  The closing documents of an inventory (\<open>packages/domain/src/inventory/document-generators.ts\<close>,
  \<open>tabular-document-generators.ts\<close>): GIS MT aggregation in its two versions, disaggregation of
  the old boxes, and the tables of codes, boxes and balances. All of them are computed from one
  frozen source and share the selection of final boxes, so their counts can be compared.
  Unicode normalisation, the letter and number classes and \<open>z.iso.date()\<close> are the parameters
  \<open>nfc\<close>, \<open>letter_or_number\<close> and \<open>iso_date\<close>.
\<close>

section \<open>Metadata, parts and errors\<close>

record inventory_metadata =
  im_documentId :: jstring
  im_inventoryNumber :: jstring
  im_fileDateTime :: jstring
  im_operationDateTime :: jstring
  im_organizationName :: jstring
  im_organizationInn :: jstring

record generated_part =
  ip_partNumber :: nat
  ip_filename :: jstring
  ip_mimeType :: jstring
  ip_bytes :: "nat list"
  ip_rowCount :: nat
  ip_codeCount :: nat
  ip_boxCount :: nat

datatype generation_code =
    GEN_EMPTY_SOURCE | GEN_INVALID_CIS | GEN_INVALID_DOCUMENT_METADATA
  | GEN_INVALID_ORGANIZATION_INN | GEN_INVALID_SSCC | VERIFIED_PRODUCTION_DATE_MISSING

datatype generation_error =
    InventoryDocumentGenerationError generation_code
  | Rethrown doc_error

definition XML_MIME_TYPE :: jstring where
  "XML_MIME_TYPE = lit ''application/xml; charset=utf-8''"

definition CSV_MIME_TYPE :: jstring where
  "CSV_MIME_TYPE = lit ''text/csv; charset=utf-8''"

definition TXT_MIME_TYPE :: jstring where
  "TXT_MIME_TYPE = lit ''text/plain; charset=utf-8''"

section \<open>Validation and formatting\<close>

definition validateCommonMetadata :: "inventory_metadata \<Rightarrow> generation_error option" where
  "validateCommonMetadata m =
     (if length (js_trim (im_documentId m)) = 0 \<or> length (im_documentId m) > 150
         \<or> length (js_trim (im_inventoryNumber m)) = 0 \<or> length (im_inventoryNumber m) > 150
         \<or> length (js_trim (im_organizationName m)) = 0 \<or> length (im_organizationName m) > 1000
         \<or> \<not> isCanonicalIsoTimestamp (im_fileDateTime m)
         \<or> \<not> isCanonicalIsoTimestamp (im_operationDateTime m)
         \<or> list_ex xml_prohibited [im_documentId m, im_inventoryNumber m, im_organizationName m]
      then Some (InventoryDocumentGenerationError GEN_INVALID_DOCUMENT_METADATA) else None)"

definition validateAggregationMetadata :: "inventory_metadata \<Rightarrow> generation_error option" where
  "validateAggregationMetadata m =
     (case validateCommonMetadata m of
        Some e \<Rightarrow> Some e
      | None \<Rightarrow> if \<not> legal_entity_inn (im_organizationInn m)
                then Some (InventoryDocumentGenerationError GEN_INVALID_ORGANIZATION_INN) else None)"

definition validateSscc :: "jstring \<Rightarrow> generation_error + jstring" where
  "validateSscc value =
     (if \<not> digits_n 18 value then Inl (InventoryDocumentGenerationError GEN_INVALID_SSCC) else Inr value)"

text \<open>Both kinds of error the \<open>try\<close> blocks below can see become one code.\<close>

definition formatSscc :: "jstring \<Rightarrow> generation_error + jstring" where
  "formatSscc value =
     (case validateSscc value of
        Inl _ \<Rightarrow> Inl (InventoryDocumentGenerationError GEN_INVALID_SSCC)
      | Inr v \<Rightarrow>
          (case formatSsccWithAi v of
             Inr s \<Rightarrow> Inr s
           | Inl (DomainError _) \<Rightarrow> Inl (InventoryDocumentGenerationError GEN_INVALID_SSCC)
           | Inl e \<Rightarrow> Inl (Rethrown (Thrown e))))"

definition strip_tail_v1 :: "jstring \<Rightarrow> generation_error + jstring" where
  "strip_tail_v1 code =
     (case parseKmSegments code of
        Inr seg \<Rightarrow>
          (let cis = lit ''01'' @ seg_gtin14 seg @ lit ''21'' @ seg_serial seg
           in if xml_prohibited cis then Inl (InventoryDocumentGenerationError GEN_INVALID_CIS) else Inr cis)
      | Inl (DomainError _) \<Rightarrow> Inl (InventoryDocumentGenerationError GEN_INVALID_CIS)
      | Inl e \<Rightarrow> Inl (Rethrown (Thrown e)))"

definition formatOutputSscc :: "jstring \<Rightarrow> generation_error + jstring" where
  "formatOutputSscc sscc =
     (case formatSsccWithAi sscc of
        Inr s \<Rightarrow> Inr s
      | Inl (DomainError _) \<Rightarrow> Inl (InventoryDocumentGenerationError GEN_INVALID_SSCC)
      | Inl e \<Rightarrow> Inl (Rethrown (Thrown e)))"

definition inventoryDocumentFilenamePrefix ::
    "(jstring \<Rightarrow> jstring) \<Rightarrow> (nat \<Rightarrow> bool) \<Rightarrow> jstring \<Rightarrow> jstring" where
  "inventoryDocumentFilenamePrefix nfc letter_or_number inventoryNumber =
     (let points = code_points (nfc inventoryNumber);
          step1 = replace_runs (\<lambda>c. \<not> letter_or_number c \<and> c \<noteq> 45) 45 False points;
          step2 = replace_runs (\<lambda>c. c = 45) 45 False step1;
          sanitized = utf16 (strip (\<lambda>c. c = 45) step2)
      in lit ''inventory-'' @ (if sanitized = [] then lit ''document'' else sanitized))"

definition xml_part :: "jstring \<Rightarrow> jstring list \<Rightarrow> nat \<Rightarrow> nat \<Rightarrow> generated_part" where
  "xml_part filename lines codeCount boxCount =
     \<lparr>ip_partNumber = 1, ip_filename = filename, ip_mimeType = XML_MIME_TYPE,
      ip_bytes = utf8 (join [10] lines @ [10]), ip_rowCount = length lines,
      ip_codeCount = codeCount, ip_boxCount = boxCount\<rparr>"

definition emptyPart :: "jstring \<Rightarrow> generated_part" where
  "emptyPart filename =
     \<lparr>ip_partNumber = 1, ip_filename = filename, ip_mimeType = XML_MIME_TYPE,
      ip_bytes = [], ip_rowCount = 0, ip_codeCount = 0, ip_boxCount = 0\<rparr>"

definition generatedPart :: "jstring \<Rightarrow> jstring \<Rightarrow> nat list \<Rightarrow> nat \<Rightarrow> nat \<Rightarrow> nat \<Rightarrow> generated_part" where
  "generatedPart filename mimeType bytes rowCount codeCount boxCount =
     \<lparr>ip_partNumber = 1, ip_filename = filename, ip_mimeType = mimeType, ip_bytes = bytes,
      ip_rowCount = rowCount, ip_codeCount = codeCount, ip_boxCount = boxCount\<rparr>"

section \<open>Aggregation, version 1\<close>

record frozen_box =
  zb_sscc :: jstring
  zb_oldSsccContext :: "jstring option"
  zb_codes :: "jstring list"

definition frozen_code :: "document_source \<Rightarrow> jstring \<Rightarrow> generation_error + jstring" where
  "frozen_code src h =
     (case verified_by_hash src h of
        None \<Rightarrow> Inl (InventoryDocumentGenerationError GEN_INVALID_CIS)
      | Some code \<Rightarrow> strip_tail_v1 (vc_canonicalRaw code))"

definition frozen_eligible :: "document_source \<Rightarrow> new_box \<Rightarrow> bool" where
  "frozen_eligible src box \<longleftrightarrow>
     nb_state box = Box_closed \<and> nb_printState box = Print_printed \<and> length (nb_codeHashes box) \<noteq> 0
     \<and> \<not> list_ex (\<lambda>h. h \<in> pc_codeHash ` set (ds_protected src) \<or> verified_by_hash src h = None)
           (nb_codeHashes box)"

definition frozen_box_of :: "document_source \<Rightarrow> new_box \<Rightarrow> generation_error + frozen_box list" where
  "frozen_box_of src box =
     (if \<not> frozen_eligible src box then Inr []
      else case collect (frozen_code src) (js_sort compareText (nb_codeHashes box)) of
             Inl e \<Rightarrow> Inl e
           | Inr codes \<Rightarrow>
               (case formatSscc (nb_sscc box) of
                  Inl e \<Rightarrow> Inl e
                | Inr s \<Rightarrow> Inr [\<lparr>zb_sscc = s, zb_oldSsccContext = nb_oldSsccContext box, zb_codes = codes\<rparr>]))"

definition frozenAggregationV1Boxes :: "document_source \<Rightarrow> generation_error + frozen_box list" where
  "frozenAggregationV1Boxes src =
     map_sum id concat (collect (frozen_box_of src)
       (js_sort (\<lambda>l r. compareText (nb_sscc l) (nb_sscc r)) (ds_newBoxes src)))"

definition v1_lines :: "inventory_metadata \<Rightarrow> frozen_box list \<Rightarrow> jstring list" where
  "v1_lines m boxes =
     [lit ''<?xml version=\"1.0\" encoding=\"UTF-8\"?>'',
      lit ''<unit_pack document_id=\"'' @ xmlAttribute (im_documentId m)
        @ lit ''\" VerForm=\"1.03\" file_date_time=\"'' @ xmlAttribute (im_fileDateTime m)
        @ lit ''\" action_id=\"30\" version=\"1\">'',
      indent 4 @ lit ''<Document operation_date_time=\"'' @ xmlAttribute (im_operationDateTime m)
        @ lit ''\" document_number=\"'' @ xmlAttribute (im_inventoryNumber m) @ lit ''\">'',
      indent 8 @ lit ''<organisation>'',
      indent 12 @ lit ''<id_info>'',
      indent 16 @ lit ''<LP_info org_name=\"'' @ xmlAttribute (im_organizationName m)
        @ lit ''\" LP_TIN=\"'' @ im_organizationInn m @ lit ''\" />'',
      indent 12 @ lit ''</id_info>'',
      indent 8 @ lit ''</organisation>'']
     @ concat (map (\<lambda>b.
         [indent 8 @ lit ''<pack_content>'',
          indent 12 @ lit ''<pack_code>'' @ zb_sscc b @ lit ''</pack_code>'']
         @ map (\<lambda>c. indent 12 @ lit ''<cis>'' @ xmlText c @ lit ''</cis>'') (zb_codes b)
         @ [indent 8 @ lit ''</pack_content>'']) boxes)
     @ [indent 4 @ lit ''</Document>'', lit ''</unit_pack>'']"

definition generateInventoryAggregationXml ::
    "(jstring \<Rightarrow> jstring) \<Rightarrow> (nat \<Rightarrow> bool) \<Rightarrow> document_source \<Rightarrow> inventory_metadata
       \<Rightarrow> generation_error + generated_part list" where
  "generateInventoryAggregationXml nfc letter_or_number src m =
     (case validateAggregationMetadata m of
        Some e \<Rightarrow> Inl e
      | None \<Rightarrow>
          (case frozenAggregationV1Boxes src of
             Inl e \<Rightarrow> Inl e
           | Inr boxes \<Rightarrow>
               (let filename = inventoryDocumentFilenamePrefix nfc letter_or_number (im_inventoryNumber m)
                      @ lit ''-aggregation.xml''
                in if length boxes = 0 then Inr [emptyPart filename]
                   else Inr [xml_part filename (v1_lines m boxes)
                     (sum_list (map (\<lambda>b. length (zb_codes b)) boxes)) (length boxes)])))"

section \<open>Aggregation, version 2\<close>

fun aggregation_failure :: "doc_error \<Rightarrow> generation_error" where
  "aggregation_failure (GismtAggregationError code) =
     InventoryDocumentGenerationError
       (if code = INVALID_CIS then GEN_INVALID_CIS
        else if code = INVALID_SSCC then GEN_INVALID_SSCC
        else if code = INVALID_DOCUMENT_METADATA then GEN_INVALID_DOCUMENT_METADATA
        else GEN_INVALID_ORGANIZATION_INN)"
| "aggregation_failure e = Rethrown e"

definition v2_document :: "inventory_metadata \<Rightarrow> gismt_document" where
  "v2_document m =
     \<lparr>gd_documentId = im_documentId m, gd_documentNumber = im_inventoryNumber m,
      gd_fileDateTime = im_fileDateTime m, gd_operationDateTime = im_operationDateTime m,
      gd_organizationName = im_organizationName m\<rparr>"

definition v2_box :: "final_box \<Rightarrow> gismt_box" where
  "v2_box box = \<lparr>gb_sscc = fb_sscc box, gb_codes = map vc_canonicalRaw (fb_codes box)\<rparr>"

definition generateInventoryAggregationXmlV2 ::
    "(jstring \<Rightarrow> jstring) \<Rightarrow> (nat \<Rightarrow> bool) \<Rightarrow> (jstring \<Rightarrow> bool) \<Rightarrow> document_source \<Rightarrow> inventory_metadata
       \<Rightarrow> generation_error + generated_part list" where
  "generateInventoryAggregationXmlV2 nfc letter_or_number iso_date src m =
     (case validateAggregationMetadata m of
        Some e \<Rightarrow> Inl e
      | None \<Rightarrow>
          (let boxes = selectEligibleInventoryFinalBoxes iso_date src;
               filename = inventoryDocumentFilenamePrefix nfc letter_or_number (im_inventoryNumber m)
                 @ lit ''-aggregation.xml''
           in if length boxes = 0 then Inr [emptyPart filename]
              else case renderGismtAggregationXml (im_organizationInn m) (v2_document m) (map v2_box boxes) [] of
                     Inl e \<Rightarrow> Inl (aggregation_failure e)
                   | Inr r \<Rightarrow>
                       Inr [\<lparr>ip_partNumber = 1, ip_filename = filename, ip_mimeType = XML_MIME_TYPE,
                             ip_bytes = gr_bytes r, ip_rowCount = gr_physicalLineCount r,
                             ip_codeCount = gr_codeCount r, ip_boxCount = gr_boxCount r\<rparr>]))"

section \<open>Disaggregation of the old boxes\<close>

definition protected_parents :: "document_source \<Rightarrow> jstring set" where
  "protected_parents src =
     set (concat (map (\<lambda>c. case pc_parentSscc c of None \<Rightarrow> [] | Some p \<Rightarrow> [p]) (ds_protected src)))"

definition old_boxes :: "(jstring \<Rightarrow> bool) \<Rightarrow> document_source \<Rightarrow> jstring list" where
  "old_boxes iso_date src =
     filter (\<lambda>s. s \<notin> protected_parents src) (map the (filter (\<lambda>s. s \<noteq> None)
       (js_unique (map fb_oldSsccContext (selectEligibleInventoryFinalBoxes iso_date src)))))"

definition disaggregation_boxes ::
    "(jstring \<Rightarrow> bool) \<Rightarrow> document_source \<Rightarrow> generation_error + jstring list" where
  "disaggregation_boxes iso_date src = collect validateSscc (js_sort compareText (old_boxes iso_date src))"

definition generateInventoryDisaggregationXml ::
    "(jstring \<Rightarrow> jstring) \<Rightarrow> (nat \<Rightarrow> bool) \<Rightarrow> (jstring \<Rightarrow> bool) \<Rightarrow> document_source \<Rightarrow> inventory_metadata
       \<Rightarrow> generation_error + generated_part list" where
  "generateInventoryDisaggregationXml nfc letter_or_number iso_date src m =
     (case validateCommonMetadata m of
        Some e \<Rightarrow> Inl e
      | None \<Rightarrow>
          if \<not> isParticipantInn (im_organizationInn m)
          then Inl (InventoryDocumentGenerationError GEN_INVALID_ORGANIZATION_INN)
          else case disaggregation_boxes iso_date src of
                 Inl e \<Rightarrow> Inl e
               | Inr boxes \<Rightarrow>
                   (let filename = inventoryDocumentFilenamePrefix nfc letter_or_number (im_inventoryNumber m)
                          @ lit ''-disaggregation.xml''
                    in if length boxes = 0 then Inr [emptyPart filename]
                       else case renderGismtDisaggregationXml (im_organizationInn m) boxes of
                              Inl e \<Rightarrow> Inl (Rethrown e)
                            | Inr r \<Rightarrow>
                                Inr [\<lparr>ip_partNumber = 1, ip_filename = filename, ip_mimeType = XML_MIME_TYPE,
                                      ip_bytes = gx_bytes r, ip_rowCount = gx_physicalLineCount r,
                                      ip_codeCount = 0, ip_boxCount = gx_packingCount r\<rparr>]))"

section \<open>Tables\<close>

definition protected_hashes :: "document_source \<Rightarrow> jstring set" where
  "protected_hashes src = pc_codeHash ` set (ds_protected src)"

definition writeOffCodes :: "document_source \<Rightarrow> jstring list" where
  "writeOffCodes src =
     js_sort (createUtf8ByteComparator (\<lambda>code. code))
       (map snd (filter (\<lambda>code. fst code \<notin> protected_hashes src) (ds_writeOffCandidates src)))"

definition verifiedEntries :: "document_source \<Rightarrow> verified_code list" where
  "verifiedEntries src = filter (\<lambda>code. vc_codeHash code \<notin> protected_hashes src) (ds_verified src)"

definition verifiedCodes :: "document_source \<Rightarrow> jstring list" where
  "verifiedCodes src =
     js_sort (createUtf8ByteComparator (\<lambda>code. code)) (map vc_canonicalRaw (verifiedEntries src))"

definition generateInventoryWriteOffTxt ::
    "(jstring \<Rightarrow> jstring) \<Rightarrow> (nat \<Rightarrow> bool) \<Rightarrow> document_source \<Rightarrow> inventory_metadata \<Rightarrow> generated_part list" where
  "generateInventoryWriteOffTxt nfc letter_or_number src m =
     (let codes = writeOffCodes src
      in [generatedPart
            (inventoryDocumentFilenamePrefix nfc letter_or_number (im_inventoryNumber m) @ lit ''-write-off.txt'')
            TXT_MIME_TYPE (encodeLfText codes) (length codes) (length codes) 0])"

definition generateInventoryWriteOffCsv ::
    "(jstring \<Rightarrow> jstring) \<Rightarrow> (nat \<Rightarrow> bool) \<Rightarrow> document_source \<Rightarrow> inventory_metadata \<Rightarrow> generated_part list" where
  "generateInventoryWriteOffCsv nfc letter_or_number src m =
     (let codes = writeOffCodes src
      in [generatedPart
            (inventoryDocumentFilenamePrefix nfc letter_or_number (im_inventoryNumber m) @ lit ''-write-off.csv'')
            CSV_MIME_TYPE (encodeSemicolonCsv [lit ''code''] (map (\<lambda>code. [code]) codes))
            (1 + length codes) (length codes) 0])"

definition generateInventoryCurrentStockCsvV1 ::
    "(jstring \<Rightarrow> jstring) \<Rightarrow> (nat \<Rightarrow> bool) \<Rightarrow> document_source \<Rightarrow> inventory_metadata \<Rightarrow> generated_part list" where
  "generateInventoryCurrentStockCsvV1 nfc letter_or_number src m =
     (let codes = verifiedCodes src
      in [generatedPart
            (inventoryDocumentFilenamePrefix nfc letter_or_number (im_inventoryNumber m) @ lit ''-current-stock.csv'')
            CSV_MIME_TYPE (encodeSemicolonCsv [lit ''code''] (map (\<lambda>code. [code]) codes))
            (1 + length codes) (length codes) 0])"

definition generateInventoryCurrentStockCsv ::
    "(jstring \<Rightarrow> jstring) \<Rightarrow> (nat \<Rightarrow> bool) \<Rightarrow> document_source \<Rightarrow> inventory_metadata \<Rightarrow> generated_part list" where
  "generateInventoryCurrentStockCsv nfc letter_or_number src m =
     (let codes = verifiedCodes src
      in [generatedPart
            (inventoryDocumentFilenamePrefix nfc letter_or_number (im_inventoryNumber m) @ lit ''-current-stock.csv'')
            CSV_MIME_TYPE (encodeSemicolonCsvRows (map (\<lambda>code. [code]) codes))
            (length codes) (length codes) 0])"

definition generateInventoryCurrentStockTxt ::
    "(jstring \<Rightarrow> jstring) \<Rightarrow> (nat \<Rightarrow> bool) \<Rightarrow> document_source \<Rightarrow> inventory_metadata \<Rightarrow> generated_part list" where
  "generateInventoryCurrentStockTxt nfc letter_or_number src m =
     (let codes = verifiedCodes src
      in [generatedPart
            (inventoryDocumentFilenamePrefix nfc letter_or_number (im_inventoryNumber m) @ lit ''-current-stock.txt'')
            TXT_MIME_TYPE (encodeLfText codes) (length codes) (length codes) 0])"

text \<open>The box code is formatted once per row, so a row of a malformed box is the first to fail.\<close>

definition content_rows :: "final_box \<Rightarrow> generation_error + jstring list list" where
  "content_rows box =
     collect (\<lambda>code. map_sum id (\<lambda>s. [s, vc_canonicalRaw code]) (formatOutputSscc (fb_sscc box))) (fb_codes box)"

definition generateInventoryFinalBoxContentsCsv ::
    "(jstring \<Rightarrow> jstring) \<Rightarrow> (nat \<Rightarrow> bool) \<Rightarrow> (jstring \<Rightarrow> bool) \<Rightarrow> document_source \<Rightarrow> inventory_metadata
       \<Rightarrow> generation_error + generated_part list" where
  "generateInventoryFinalBoxContentsCsv nfc letter_or_number iso_date src m =
     (let boxes = selectEligibleInventoryFinalBoxes iso_date src
      in case collect content_rows boxes of
           Inl e \<Rightarrow> Inl e
         | Inr rowss \<Rightarrow>
             (let rows = concat rowss
              in Inr [generatedPart
                   (inventoryDocumentFilenamePrefix nfc letter_or_number (im_inventoryNumber m)
                      @ lit ''-final-box-contents.csv'')
                   CSV_MIME_TYPE (encodeSemicolonCsv [lit ''box_sscc'', lit ''code''] rows)
                   (1 + length rows) (length rows) (length boxes)]))"

definition generateInventoryFinalBoxesTxt ::
    "(jstring \<Rightarrow> jstring) \<Rightarrow> (nat \<Rightarrow> bool) \<Rightarrow> (jstring \<Rightarrow> bool) \<Rightarrow> document_source \<Rightarrow> inventory_metadata
       \<Rightarrow> generation_error + generated_part list" where
  "generateInventoryFinalBoxesTxt nfc letter_or_number iso_date src m =
     (let boxes = selectEligibleInventoryFinalBoxes iso_date src
      in case collect (\<lambda>box. formatOutputSscc (fb_sscc box)) boxes of
           Inl e \<Rightarrow> Inl e
         | Inr names \<Rightarrow>
             Inr [generatedPart
               (inventoryDocumentFilenamePrefix nfc letter_or_number (im_inventoryNumber m) @ lit ''-final-boxes.txt'')
               TXT_MIME_TYPE (encodeLfText names) (length boxes) 0 (length boxes)])"

section \<open>Balances by production date\<close>

text \<open>
  The counters are a \<open>Map\<close> from dates to pairs, kept in insertion order: a date seen before is
  updated in place, a new one is appended.
\<close>

type_synonym counts = "(jstring \<times> nat \<times> nat) list"

fun bump :: "(nat \<times> nat \<Rightarrow> nat \<times> nat) \<Rightarrow> jstring \<Rightarrow> counts \<Rightarrow> counts" where
  "bump f d [] = [(d, f (0, 0))]"
| "bump f d ((e, v) # m) = (if e = d then (e, f v) # m else (e, v) # bump f d m)"

fun count_codes :: "(jstring \<Rightarrow> bool) \<Rightarrow> verified_code list \<Rightarrow> counts \<Rightarrow> generation_error + counts" where
  "count_codes iso_date [] counts = Inr counts"
| "count_codes iso_date (code # codes) counts =
     (case vc_observedProductionDate code of
        None \<Rightarrow> Inl (InventoryDocumentGenerationError VERIFIED_PRODUCTION_DATE_MISSING)
      | Some d \<Rightarrow>
          if \<not> iso_date d then Inl (InventoryDocumentGenerationError VERIFIED_PRODUCTION_DATE_MISSING)
          else count_codes iso_date codes (bump (\<lambda>(c, b). (c + 1, b)) d counts))"

definition count_boxes :: "final_box list \<Rightarrow> counts \<Rightarrow> counts" where
  "count_boxes boxes counts =
     foldl (\<lambda>m box. bump (\<lambda>(c, b). (c, b + 1)) (fb_productionDate box) m) counts boxes"

definition balance_rows :: "counts \<Rightarrow> jstring list list" where
  "balance_rows counts =
     map (\<lambda>(d, c, b). [d, dec c, dec b]) (js_sort (\<lambda>l r. compareText (fst l) (fst r)) counts)"

definition generateInventoryBalancesByProductionDateCsv ::
    "(jstring \<Rightarrow> jstring) \<Rightarrow> (nat \<Rightarrow> bool) \<Rightarrow> (jstring \<Rightarrow> bool) \<Rightarrow> document_source \<Rightarrow> inventory_metadata
       \<Rightarrow> generation_error + generated_part list" where
  "generateInventoryBalancesByProductionDateCsv nfc letter_or_number iso_date src m =
     (case count_codes iso_date (verifiedEntries src) [] of
        Inl e \<Rightarrow> Inl e
      | Inr counts0 \<Rightarrow>
          (let counts = count_boxes (selectEligibleInventoryFinalBoxes iso_date src) counts0;
               rows = balance_rows counts
           in Inr [generatedPart
                (inventoryDocumentFilenamePrefix nfc letter_or_number (im_inventoryNumber m)
                   @ lit ''-balances-by-production-date.csv'')
                CSV_MIME_TYPE
                (encodeSemicolonCsv [lit ''production_date'', lit ''code_count'', lit ''box_count''] rows)
                (1 + length rows)
                (sum_list (map (\<lambda>e. fst (snd e)) counts)) (sum_list (map (\<lambda>e. snd (snd e)) counts))]))"

section \<open>Lemmas: counting\<close>

definition entry :: "counts \<Rightarrow> jstring \<Rightarrow> nat \<times> nat" where
  "entry m d = (case map_of m d of None \<Rightarrow> (0, 0) | Some v \<Rightarrow> v)"

lemma bump_keys [simp]: "set (map fst (bump f d m)) = insert d (set (map fst m))"
  by (induction f d m rule: bump.induct) auto

lemma bump_distinct: "distinct (map fst m) \<Longrightarrow> distinct (map fst (bump f d m))"
proof (induction f d m rule: bump.induct)
  case (2 f d e v m)
  then show ?case using bump_keys [of f d m] by (auto simp del: bump_keys)
qed simp

lemma entry_bump: "entry (bump f d m) = (entry m)(d := f (entry m d))"
proof
  fix x show "entry (bump f d m) x = ((entry m)(d := f (entry m d))) x"
    by (induction f d m rule: bump.induct) (auto simp: entry_def)
qed

definition dated :: "(jstring \<Rightarrow> bool) \<Rightarrow> verified_code \<Rightarrow> bool" where
  "dated iso_date code = (case vc_observedProductionDate code of None \<Rightarrow> False | Some d \<Rightarrow> iso_date d)"

definition code_date :: "verified_code \<Rightarrow> jstring" where
  "code_date code = the (vc_observedProductionDate code)"

lemma count_codes_fail:
  "\<not> list_all (dated iso_date) codes \<Longrightarrow>
     count_codes iso_date codes m = Inl (InventoryDocumentGenerationError VERIFIED_PRODUCTION_DATE_MISSING)"
  by (induction codes arbitrary: m) (auto simp: dated_def split: option.splits)

lemma count_codes_fold:
  "list_all (dated iso_date) codes \<Longrightarrow>
     count_codes iso_date codes m = Inr (foldl (\<lambda>m c. bump (\<lambda>(c, b). (c + 1, b)) (code_date c) m) m codes)"
  by (induction codes arbitrary: m) (auto simp: dated_def code_date_def split: option.splits)

text \<open>Both loops are the same fold; what it leaves at a date is the number of items of that date.\<close>

lemma fold_bump:
  fixes k :: "'a \<Rightarrow> jstring"
  defines "run f m xs \<equiv> foldl (\<lambda>m x. bump f (k x) m) m xs"
  shows "set (map fst (run f m xs)) = k ` set xs \<union> set (map fst m)"
    and "distinct (map fst m) \<Longrightarrow> distinct (map fst (run f m xs))"
    and "entry (run f m xs) d = (f ^^ length (filter (\<lambda>x. k x = d) xs)) (entry m d)"
proof -
  show "set (map fst (run f m xs)) = k ` set xs \<union> set (map fst m)"
  proof (induction xs arbitrary: m)
    case (Cons x xs)
    then show ?case using bump_keys [of f "k x" m] unfolding run_def foldl_Cons by (auto simp del: bump_keys)
  qed (simp add: run_def)
  show "distinct (map fst m) \<Longrightarrow> distinct (map fst (run f m xs))"
    unfolding run_def by (induction xs arbitrary: m) (auto simp: bump_distinct)
  show "entry (run f m xs) d = (f ^^ length (filter (\<lambda>x. k x = d) xs)) (entry m d)"
    unfolding run_def by (induction xs arbitrary: m) (auto simp: entry_bump funpow_swap1)
qed

lemma funpow_code: "((\<lambda>(c, b). (c + 1, b)) ^^ n) (x, y) = (x + n, y :: nat)"
  by (induction n) auto

lemma funpow_box: "((\<lambda>(c, b). (c, b + 1)) ^^ n) (x, y) = (x :: nat, y + n)"
  by (induction n) auto

lemma entry_mem: "distinct (map fst m) \<Longrightarrow> e \<in> set m \<Longrightarrow> snd e = entry m (fst e)"
  by (cases e) (auto simp: entry_def)

lemma count_list_distinct: "distinct xs \<Longrightarrow> x \<in> set xs \<Longrightarrow> count_list xs x = 1"
  by (induction xs) (auto simp: count_notin)

lemma sum_filter_dates:
  "distinct ds \<Longrightarrow> k ` set xs \<subseteq> set ds \<Longrightarrow>
     sum_list (map (\<lambda>d. length (filter (\<lambda>x. k x = d) xs)) ds) = length xs"
proof (induction xs)
  case (Cons x xs)
  have "sum_list (map (\<lambda>d. length (filter (\<lambda>y. k y = d) (x # xs))) ds)
      = sum_list (map (\<lambda>d. (if d = k x then 1 else 0) + length (filter (\<lambda>y. k y = d) xs)) ds)"
    by (rule arg_cong [where f = sum_list], rule map_cong) auto
  also have "\<dots> = (\<Sum>d\<leftarrow>ds. if d = k x then 1 else 0) + length xs"
    using Cons by (simp add: sum_list_addf)
  also have "(\<Sum>d\<leftarrow>ds. if d = k x then 1 else (0 :: nat)) = count_list ds (k x)"
    by (induction ds) auto
  also have "count_list ds (k x) = 1" using Cons.prems by (simp add: count_list_distinct)
  finally show ?case by simp
qed simp

lemma mset_js_sort [simp]: "mset (js_sort cmp xs) = mset xs"
proof -
  have "mset (insert_by cmp x ys) = add_mset x (mset ys)" for x ys by (induction ys) auto
  then show ?thesis by (induction xs) (auto simp: js_sort_def)
qed

lemma sort_by_key_sorted:
  assumes "distinct (map fst m)"
  shows "map fst (js_sort (\<lambda>l r. compareText (fst l) (fst r)) m) = sorted_list_of_set (set (map fst m))"
proof -
  let ?s = "js_sort (\<lambda>l r. compareText (fst l) (fst r)) m"
  have "sorted (map fst ?s)"
    using js_sort_sorted [OF compareText_consistent [of fst], of m] by (simp add: compareText_le sorted_wrt_map)
  moreover have "distinct (map fst ?s)"
    using assms by (metis mset_js_sort mset_map mset_eq_imp_distinct_iff)
  moreover have "set (map fst ?s) = set (map fst m)" by simp
  ultimately show ?thesis by (metis sorted_list_of_set.idem_if_sorted_distinct)
qed

lemma balance_rows_entries:
  assumes "distinct (map fst m)"
  shows "balance_rows m = map (\<lambda>d. [d, dec (fst (entry m d)), dec (snd (entry m d))])
    (sorted_list_of_set (set (map fst m)))"
proof -
  let ?s = "js_sort (\<lambda>l r. compareText (fst l) (fst r)) m"
  have "balance_rows m = map ((\<lambda>d. [d, dec (fst (entry m d)), dec (snd (entry m d))]) \<circ> fst) ?s"
    unfolding balance_rows_def using entry_mem [OF assms] by (auto intro!: map_cong)
  then show ?thesis using sort_by_key_sorted [OF assms] by (metis map_map)
qed

text \<open>The table by definition: one row per observed date, counting the codes and the boxes.\<close>

definition codes_of_date :: "document_source \<Rightarrow> jstring \<Rightarrow> nat" where
  "codes_of_date src d = length (filter (\<lambda>c. code_date c = d) (verifiedEntries src))"

definition boxes_of_date :: "(jstring \<Rightarrow> bool) \<Rightarrow> document_source \<Rightarrow> jstring \<Rightarrow> nat" where
  "boxes_of_date iso_date src d =
     length (filter (\<lambda>b. fb_productionDate b = d) (selectEligibleInventoryFinalBoxes iso_date src))"

definition stock_dates :: "document_source \<Rightarrow> jstring set" where
  "stock_dates src = code_date ` set (verifiedEntries src)"

lemma select_code_in_stock:
  assumes "b \<in> set (selectEligibleInventoryFinalBoxes iso_date src)"
  shows "fb_codes b \<noteq> []"
    and "c \<in> set (fb_codes b) \<Longrightarrow> c \<in> set (verifiedEntries src) \<and> code_date c = fb_productionDate b"
proof -
  obtain box where f: "final_boxes_of iso_date src box = [b]" "box_shape_ok iso_date box"
      "list_all (code_eligible src box) (nb_codeHashes box)"
    using assms by (auto simp: selectEligibleInventoryFinalBoxes_def final_boxes_of_mem)
  note codes = final_box_codes [OF f(1)]
  show "fb_codes b \<noteq> []" using codes f(2) by (auto simp: box_shape_ok_def)
  assume "c \<in> set (fb_codes b)"
  moreover have "fb_codes b = js_sort (createUtf8ByteComparator vc_canonicalRaw)
      (map (\<lambda>h. the (verified_by_hash src h)) (nb_codeHashes box))"
    using f(1) by (auto simp: final_boxes_of_def split: if_splits)
  ultimately obtain h where h: "h \<in> set (nb_codeHashes box)" "c = the (verified_by_hash src h)" by auto
  then have "code_eligible src box h" using f(3) by (simp add: list_all_iff)
  then have "verified_by_hash src h = Some c" "h \<notin> protected_hashes src"
      "vc_observedProductionDate c = Some (nb_productionDate box)"
    using h(2) by (auto simp: code_eligible_def protected_hashes_def split: option.splits)
  then show "c \<in> set (verifiedEntries src) \<and> code_date c = fb_productionDate b"
    using verified_by_hash_Some codes by (auto simp: verifiedEntries_def code_date_def)
qed

lemma box_dates_in_stock:
  "fb_productionDate ` set (selectEligibleInventoryFinalBoxes iso_date src) \<subseteq> stock_dates src"
proof
  fix d assume "d \<in> fb_productionDate ` set (selectEligibleInventoryFinalBoxes iso_date src)"
  then obtain b where b: "b \<in> set (selectEligibleInventoryFinalBoxes iso_date src)" "d = fb_productionDate b"
    by blast
  have "hd (fb_codes b) \<in> set (fb_codes b)" using select_code_in_stock(1) [OF b(1)] by simp
  then show "d \<in> stock_dates src"
    using select_code_in_stock(2) [OF b(1)] b(2) unfolding stock_dates_def by (metis imageI)
qed

definition all_counts :: "(jstring \<Rightarrow> bool) \<Rightarrow> document_source \<Rightarrow> counts" where
  "all_counts iso_date src =
     count_boxes (selectEligibleInventoryFinalBoxes iso_date src)
       (foldl (\<lambda>m c. bump (\<lambda>(c, b). (c + 1, b)) (code_date c) m) [] (verifiedEntries src))"

lemma all_counts_spec:
  "set (map fst (all_counts iso_date src)) = stock_dates src"
  "distinct (map fst (all_counts iso_date src))"
  "entry (all_counts iso_date src) d = (codes_of_date src d, boxes_of_date iso_date src d)"
proof -
  show "set (map fst (all_counts iso_date src)) = stock_dates src"
    using box_dates_in_stock [of iso_date src]
    unfolding all_counts_def count_boxes_def fold_bump by (auto simp: stock_dates_def)
  show "distinct (map fst (all_counts iso_date src))"
    unfolding all_counts_def count_boxes_def by (intro fold_bump(2)) simp
  have "entry [] d = (0, 0)" by (simp add: entry_def)
  then show "entry (all_counts iso_date src) d = (codes_of_date src d, boxes_of_date iso_date src d)"
    unfolding all_counts_def count_boxes_def fold_bump(3)
    by (simp only: funpow_code funpow_box codes_of_date_def boxes_of_date_def add_0)
qed

lemma all_counts_sums:
  "sum_list (map (\<lambda>e. fst (snd e)) (all_counts iso_date src)) = length (verifiedEntries src)"
  "sum_list (map (\<lambda>e. snd (snd e)) (all_counts iso_date src))
     = length (selectEligibleInventoryFinalBoxes iso_date src)"
proof -
  let ?m = "all_counts iso_date src" and ?ds = "map fst (all_counts iso_date src)"
  have e: "snd e = (codes_of_date src (fst e), boxes_of_date iso_date src (fst e))" if "e \<in> set ?m" for e
    using entry_mem [OF all_counts_spec(2) that] all_counts_spec(3) by simp
  have c: "map (\<lambda>e. fst (snd e)) ?m = map (codes_of_date src) ?ds"
    and b: "map (\<lambda>e. snd (snd e)) ?m = map (boxes_of_date iso_date src) ?ds"
    by (simp_all add: e)
  show "sum_list (map (\<lambda>e. fst (snd e)) ?m) = length (verifiedEntries src)"
    unfolding c codes_of_date_def
    by (rule sum_filter_dates [OF all_counts_spec(2)]) (simp only: all_counts_spec(1) stock_dates_def order_refl)
  show "sum_list (map (\<lambda>e. snd (snd e)) ?m) = length (selectEligibleInventoryFinalBoxes iso_date src)"
    unfolding b boxes_of_date_def
    by (rule sum_filter_dates [OF all_counts_spec(2)]) (simp only: all_counts_spec(1) box_dates_in_stock)
qed

section \<open>Lemmas: metadata accepted once is accepted by the renderer\<close>

lemma strip_none:
  assumes "\<And>c. c \<in> set s \<Longrightarrow> \<not> p c"
  shows "strip p s = s"
proof -
  have "dropWhile p t = t" if "set t = set s" for t using that assms by (cases t) auto
  then show ?thesis by (simp add: strip_def)
qed

lemma length_strip: "length (strip p s) \<le> length s"
  unfolding strip_def by (metis length_rev length_dropWhile_le order_trans)

lemma xml_clean_prefix:
  "\<not> xml_prohibited (s @ t) \<Longrightarrow> t = [] \<or> \<not> low_surrogate (hd t) \<Longrightarrow> \<not> xml_prohibited s"
proof (induction s rule: xml_prohibited.induct)
  case (2 c s)
  show ?case
  proof (cases "high_surrogate c")
    case True
    show ?thesis
    proof (cases s)
      case Nil
      then show ?thesis using 2 True by (cases t) (auto split: if_splits)
    next
      case (Cons d u)
      have "high_surrogate c" "c \<ge> 32" "c \<noteq> 127" "c \<noteq> 65534" "c \<noteq> 65535"
        using True by (auto simp: high_surrogate_def)
      then show ?thesis using 2 Cons by (auto split: if_splits)
    qed
  next
    case False
    then show ?thesis using 2 by (auto split: if_splits)
  qed
qed simp

lemma xml_clean_dropWhile:
  "(\<And>c. p c \<Longrightarrow> \<not> high_surrogate c) \<Longrightarrow> \<not> xml_prohibited s \<Longrightarrow> \<not> xml_prohibited (dropWhile p s)"
  by (induction s) (auto split: if_splits)

lemma xml_clean_trim:
  assumes "\<not> xml_prohibited s"
  shows "\<not> xml_prohibited (js_trim s)"
proof -
  have ws: "js_ws c \<Longrightarrow> \<not> high_surrogate c \<and> \<not> low_surrogate c" for c
    by (auto simp: js_ws_def high_surrogate_def low_surrogate_def)
  let ?u = "dropWhile js_ws s"
  have "?u = js_trim s @ rev (takeWhile js_ws (rev ?u))"
    unfolding js_trim_def strip_def by (metis rev_append rev_rev_ident takeWhile_dropWhile_id)
  moreover have "\<not> xml_prohibited ?u" using assms ws by (intro xml_clean_dropWhile) auto
  moreover have "\<not> low_surrogate (hd (rev (takeWhile js_ws (rev ?u))))" if "takeWhile js_ws (rev ?u) \<noteq> []"
    using that ws set_takeWhileD by (metis last_in_set hd_rev)
  ultimately show ?thesis by (metis rev_is_Nil_conv xml_clean_prefix)
qed

lemma metadata_renders:
  assumes "validateAggregationMetadata m = None"
  shows "js_trim (im_organizationInn m) = im_organizationInn m" "legal_entity_inn (im_organizationInn m)"
    and "\<exists>d. validateDocument (v2_document m) = Inr d"
proof -
  have c: "validateCommonMetadata m = None" and i: "legal_entity_inn (im_organizationInn m)"
    using assms by (auto simp: validateAggregationMetadata_def split: option.splits if_splits)
  show "legal_entity_inn (im_organizationInn m)" by (rule i)
  have "\<not> js_ws c" if "c \<in> set (im_organizationInn m)" for c
    using i that by (auto simp: legal_entity_inn_def digits_n_def list_all_iff is_digit_def js_ws_def)
  then show "js_trim (im_organizationInn m) = im_organizationInn m" unfolding js_trim_def by (rule strip_none)
  have w: "isWithinLength (js_trim v) n"
    if "length (js_trim v) \<noteq> 0" "\<not> length v > n" "\<not> xml_prohibited v" for v n
    using that xml_clean_trim [of v] length_strip [of js_ws v]
    by (auto simp: isWithinLength_def js_trim_def Suc_le_eq)
  show "\<exists>d. validateDocument (v2_document m) = Inr d"
    using c by (auto simp: validateCommonMetadata_def validateDocument_def v2_document_def Let_def w split: if_splits)
qed

section \<open>Lemmas: exportable boxes\<close>

lemma collect_ok_iff: "(\<exists>ys. collect f xs = Inr ys) \<longleftrightarrow> list_all (\<lambda>x. \<exists>y. f x = Inr y) xs"
  by (induction xs) (auto split: sum.splits)

lemma collect_Inl: "collect f xs = Inl e \<Longrightarrow> \<exists>x \<in> set xs. f x = Inl e"
  by (induction xs) (auto split: sum.splits)

lemma parseKmSegments_Inl: "parseKmSegments s = Inl e \<Longrightarrow> \<exists>c. e = DomainError c"
  by (auto simp: parseKmSegments_def Let_def errors_are_domain split: if_splits sum.splits)

lemma strip_tail_Inl: "stripKmCryptoTail s = Inl e \<Longrightarrow> e = GismtAggregationError INVALID_CIS"
  by (auto simp: stripKmCryptoTail_def Let_def dest!: parseKmSegments_Inl
      split: sum.splits js_error.splits if_splits)

definition exportable :: "final_box \<Rightarrow> bool" where
  "exportable box \<longleftrightarrow> digits_n 18 (fb_sscc box)
     \<and> list_all (\<lambda>c. \<exists>t. stripKmCryptoTail (vc_canonicalRaw c) = Inr t) (fb_codes box)"

lemma box_lines_exportable: "(\<exists>ls. box_lines (v2_box b) = Inr ls) \<longleftrightarrow> exportable b"
proof -
  have "(\<exists>ls. box_lines (v2_box b) = Inr ls) \<longleftrightarrow> digits_n 18 (fb_sscc b)
      \<and> (\<exists>cs. collect stripKmCryptoTail (map vc_canonicalRaw (fb_codes b)) = Inr cs)"
    by (auto simp: box_lines_def v2_box_def format_sscc_Inr split: sum.splits dest: format_sscc_Inl)
      (metis format_sscc_Inr sum.exhaust Inr_Inl_False)+
  then show ?thesis by (simp add: collect_ok_iff exportable_def list.pred_map comp_def)
qed

lemma box_lines_Inl:
  assumes "box_lines b = Inl e"
  shows "e = GismtAggregationError INVALID_SSCC \<or> e = GismtAggregationError INVALID_CIS"
  using assms by (auto simp: box_lines_def dest!: format_sscc_Inl collect_Inl strip_tail_Inl split: sum.splits)

lemma render_v2:
  assumes "validateAggregationMetadata m = None"
  shows "(\<exists>r. renderGismtAggregationXml (im_organizationInn m) (v2_document m) (map v2_box boxes) [] = Inr r)
      \<longleftrightarrow> list_all exportable boxes"
    and "renderGismtAggregationXml (im_organizationInn m) (v2_document m) (map v2_box boxes) [] = Inl e
      \<Longrightarrow> e = GismtAggregationError INVALID_SSCC \<or> e = GismtAggregationError INVALID_CIS"
proof -
  note v = metadata_renders [OF assms]
  obtain d where d: "validateDocument (v2_document m) = Inr d" using v(3) by blast
  have n: "im_organizationInn m \<noteq> []" using v(2) by (auto simp: legal_entity_inn_def digits_n_def)
  have l: "(\<exists>ls. collect box_lines (map v2_box boxes) = Inr ls) \<longleftrightarrow> list_all exportable boxes"
    by (simp add: collect_ok_iff list.pred_map comp_def box_lines_exportable)
  show "(\<exists>r. renderGismtAggregationXml (im_organizationInn m) (v2_document m) (map v2_box boxes) [] = Inr r)
      \<longleftrightarrow> list_all exportable boxes"
    unfolding l [symmetric]
    by (simp add: renderGismtAggregationXml_def aggregation_lines_def v n d split: sum.splits)
  show "renderGismtAggregationXml (im_organizationInn m) (v2_document m) (map v2_box boxes) [] = Inl e
      \<Longrightarrow> e = GismtAggregationError INVALID_SSCC \<or> e = GismtAggregationError INVALID_CIS"
    using box_lines_Inl
    by (fastforce simp: renderGismtAggregationXml_def aggregation_lines_def v n d dest: collect_Inl split: sum.splits)
qed

section \<open>Lemmas: disaggregation and tables\<close>

text \<open>The old boxes the document dissolves: parents of final boxes that hold no protected code.\<close>

definition dissolved :: "(jstring \<Rightarrow> bool) \<Rightarrow> document_source \<Rightarrow> jstring set" where
  "dissolved iso_date src =
     {s. Some s \<in> fb_oldSsccContext ` set (selectEligibleInventoryFinalBoxes iso_date src)}
       - {s. \<exists>c \<in> set (ds_protected src). pc_parentSscc c = Some s}"

lemma protected_parents_set: "protected_parents src = {s. \<exists>c \<in> set (ds_protected src). pc_parentSscc c = Some s}"
  by (auto simp: protected_parents_def split: option.splits)

lemma present_options:
  "set (map the (filter (\<lambda>s. s \<noteq> None) ys)) = {s. Some s \<in> set ys}"
  "distinct ys \<Longrightarrow> distinct (map the (filter (\<lambda>s. s \<noteq> None) ys))"
  by (force, auto simp: distinct_map inj_on_def)

lemma validateSscc_collect:
  "collect validateSscc xs =
     (if list_all (digits_n 18) xs then Inr xs else Inl (InventoryDocumentGenerationError GEN_INVALID_SSCC))"
  by (induction xs) (auto simp: validateSscc_def split: sum.splits)

lemma old_boxes_set: "set (old_boxes iso_date src) = dissolved iso_date src"
  unfolding old_boxes_def set_filter present_options(1) js_unique_simps dissolved_def protected_parents_set
    set_map [of fb_oldSsccContext]
  by blast

lemma old_boxes_sorted:
  "js_sort compareText (old_boxes iso_date src) = sorted_list_of_set (dissolved iso_date src)"
proof -
  have "distinct (old_boxes iso_date src)"
    unfolding old_boxes_def by (intro distinct_filter present_options(2) js_unique_simps(2))
  moreover have "sorted (js_sort compareText (old_boxes iso_date src))"
    using js_sort_sorted [OF compareText_consistent [of "\<lambda>x. x"], of "old_boxes iso_date src"]
    by (simp add: compareText_le)
  ultimately show ?thesis
    using sorted_list_of_set.idem_if_sorted_distinct [of "js_sort compareText (old_boxes iso_date src)"]
    by (simp add: old_boxes_set)
qed

lemma dissolved_finite: "finite (dissolved iso_date src)"
  using old_boxes_set by (metis finite_set)

lemma disaggregation_boxes_spec:
  "disaggregation_boxes iso_date src =
     (if \<exists>s \<in> dissolved iso_date src. \<not> digits_n 18 s
      then Inl (InventoryDocumentGenerationError GEN_INVALID_SSCC)
      else Inr (sorted_list_of_set (dissolved iso_date src)))"
  unfolding disaggregation_boxes_def old_boxes_sorted validateSscc_collect list_all_iff
    set_sorted_list_of_set [OF dissolved_finite]
  by simp

lemma formatOutputSscc_eq:
  "formatOutputSscc s = (if digits_n 18 s then Inr (lit ''00'' @ s)
     else Inl (InventoryDocumentGenerationError GEN_INVALID_SSCC))"
  by (simp add: formatOutputSscc_def formatSsccWithAi_def)

lemma collect_Inr_map: "list_all (\<lambda>x. f x = Inr (g x)) xs \<Longrightarrow> collect f xs = Inr (map g xs)"
  by (induction xs) auto

lemma content_rows_ok:
  assumes "digits_n 18 (fb_sscc b)"
  shows "content_rows b = Inr (map (\<lambda>c. [lit ''00'' @ fb_sscc b, vc_canonicalRaw c]) (fb_codes b))"
  unfolding content_rows_def by (rule collect_Inr_map) (simp add: assms formatOutputSscc_eq list_all_iff)

lemma box_names_lines:
  assumes "list_all (\<lambda>b. digits_n 18 (fb_sscc b)) boxes"
  shows "count_list (encodeLfText (map (\<lambda>b. lit ''00'' @ fb_sscc b) boxes)) 10 = length boxes"
proof (cases "boxes = []")
  case False
  have "list_all (\<lambda>x. 10 \<notin> set x) (map (\<lambda>b. lit ''00'' @ fb_sscc b) boxes)"
    using assms one_line_digits by (auto simp: list_all_iff digits_n_def one_line_def lit_def)
  then show ?thesis using count_lines [of "map (\<lambda>b. lit ''00'' @ fb_sscc b) boxes"] False
    by (simp add: encodeLfText_def)
qed (simp add: encodeLfText_def)

lemma byte_sorted: "sorted (map utf8 (js_sort (createUtf8ByteComparator (\<lambda>c. c)) xs))"
  using js_sort_sorted [OF utf8_comparator_consistent [of "\<lambda>c. c"], of xs]
  by (simp add: createUtf8ByteComparator_def compareBytes_eq compareText_le sorted_wrt_map)

section \<open>Properties\<close>

definition sample_metadata :: inventory_metadata where
  "sample_metadata = \<lparr>im_documentId = lit ''doc'', im_inventoryNumber = lit ''7'',
     im_fileDateTime = lit ''2026-02-28T10:00:00.000Z'', im_operationDateTime = lit ''2024-02-29T09:30:00.000Z'',
     im_organizationName = lit ''A & B'', im_organizationInn = lit ''7700000000''\<rparr>"

lemma sample_metadata_ok:
  "validateCommonMetadata sample_metadata = None" "validateAggregationMetadata sample_metadata = None"
  "isParticipantInn (im_organizationInn sample_metadata)"
proof -
  have t: "js_trim (lit ''doc'') \<noteq> []" "js_trim (lit ''7'') \<noteq> []" "js_trim (lit ''A & B'') \<noteq> []"
    by (simp_all add: js_trim_def strip_def js_ws_def lit_def)
  have w: "\<not> xml_prohibited (lit ''doc'')" "\<not> xml_prohibited (lit ''7'')" "\<not> xml_prohibited (lit ''A & B'')"
    by (simp_all add: lit_def high_surrogate_def low_surrogate_def)
  have i: "legal_entity_inn (lit ''7700000000'')" "isParticipantInn (lit ''7700000000'')" by code_simp+
  show "validateCommonMetadata sample_metadata = None"
    by (simp add: validateCommonMetadata_def sample_metadata_def t w sample_timestamps)
  then show "validateAggregationMetadata sample_metadata = None"
    by (simp add: validateAggregationMetadata_def) (simp add: sample_metadata_def i)
  show "isParticipantInn (im_organizationInn sample_metadata)" by (simp add: sample_metadata_def i)
qed

definition sample_inventory :: document_source where
  "sample_inventory = \<lparr>ds_writeOffCandidates = [],
     ds_verified = [\<lparr>vc_codeHash = lit ''h1'', vc_canonicalRaw = lit ''010460043993125621A1'',
       vc_observedProductionDate = Some (lit ''2026-01-05'')\<rparr>],
     ds_protected = [\<lparr>pc_codeHash = lit ''h2'', pc_canonicalRaw = lit ''x'',
       pc_parentSscc = Some (lit ''346070200000123459'')\<rparr>], ds_oldBoxes = [],
     ds_newBoxes = [\<lparr>nb_sscc = lit ''346070200000123466'', nb_oldSsccContext = Some (lit ''346070200000123459''),
       nb_state = Box_closed, nb_printState = Print_printed, nb_productionDate = lit ''2026-01-05'',
       nb_codeHashes = [lit ''h1'']\<rparr>]\<rparr>"

lemma sample_selection:
  "selectEligibleInventoryFinalBoxes (\<lambda>d. True) sample_inventory =
     [\<lparr>fb_sscc = lit ''346070200000123466'', fb_oldSsccContext = Some (lit ''346070200000123459''),
       fb_productionDate = lit ''2026-01-05'', fb_codes = ds_verified sample_inventory\<rparr>]"
proof -
  have "lit ''h1'' \<noteq> lit ''h2''" by (simp add: lit_def)
  then show ?thesis
    by (simp add: selectEligibleInventoryFinalBoxes_def sample_inventory_def final_boxes_of_def box_shape_ok_def
        code_eligible_def verified_by_hash_def js_sort_def)
qed

lemma sample_code:
  "stripKmCryptoTail (lit ''010460043993125621A1'') = Inr (lit ''010460043993125621A1'')"
proof -
  let ?g = "\<lparr>seg_gtin14 = lit ''04600439931256'', seg_serial = lit ''A1'', seg_ais = []\<rparr>"
  have "digits_n 14 (lit ''04600439931256'')" by code_simp
  then have "wf_segments ?g" by (simp add: wf_segments_def lit_def GS_def)
  moreover have t: "lit ''01'' @ lit ''04600439931256'' @ lit ''21'' @ lit ''A1'' = lit ''010460043993125621A1''"
    by (simp add: lit_def)
  ultimately have p: "parseKmSegments (lit ''010460043993125621A1'') = Inr ?g"
    by (simp add: parseKmSegments_iff km_text_def)
  have "\<not> xml_prohibited (lit ''010460043993125621A1'')"
    by (simp add: lit_def high_surrogate_def low_surrogate_def)
  then show ?thesis by (simp add: stripKmCryptoTail_def p t)
qed

lemma sample_sscc: "digits_n 18 (lit ''346070200000123466'')"
  by code_simp

lemma sample_exportable: "list_all exportable (selectEligibleInventoryFinalBoxes (\<lambda>d. True) sample_inventory)"
  using sample_code sample_sscc unfolding sample_selection by (simp add: exportable_def sample_inventory_def)

lemma sample_v2:
  "\<exists>p. generateInventoryAggregationXmlV2 id (\<lambda>c. True) (\<lambda>d. True) sample_inventory sample_metadata = Inr [p]"
proof -
  let ?bs = "selectEligibleInventoryFinalBoxes (\<lambda>d. True) sample_inventory"
  obtain r where "renderGismtAggregationXml (im_organizationInn sample_metadata) (v2_document sample_metadata)
      (map v2_box ?bs) [] = Inr r"
    using render_v2(1) [OF sample_metadata_ok(2), of ?bs] sample_exportable by blast
  then show ?thesis using sample_metadata_ok(2)
    by (simp add: generateInventoryAggregationXmlV2_def Let_def)
qed

text \<open>Once the metadata of an aggregation document has been accepted, only the data of the boxes can
  stop it: the second version of the document is produced exactly when every selected box has an
  eighteen-digit code and every code in it parses to printable text, and otherwise it reports an
  invalid box code or an invalid marking code, never the metadata or the tax number again.\<close>

theorem inventory_aggregation_errors:
  assumes "validateAggregationMetadata m = None"
  shows "((\<exists>p. generateInventoryAggregationXmlV2 nfc ln iso_date src m = Inr [p]) \<longleftrightarrow>
      list_all exportable (selectEligibleInventoryFinalBoxes iso_date src))
    \<and> (\<forall>e. generateInventoryAggregationXmlV2 nfc ln iso_date src m = Inl e \<longrightarrow>
         e = InventoryDocumentGenerationError GEN_INVALID_SSCC \<or> e = InventoryDocumentGenerationError GEN_INVALID_CIS)"
proof -
  let ?bs = "selectEligibleInventoryFinalBoxes iso_date src"
  let ?r = "renderGismtAggregationXml (im_organizationInn m) (v2_document m) (map v2_box ?bs) []"
  show ?thesis
  proof (cases "?r")
    case (Inl e)
    then have "\<not> list_all exportable ?bs" using render_v2(1) [OF assms, of ?bs] by simp
    moreover have "e = GismtAggregationError INVALID_SSCC \<or> e = GismtAggregationError INVALID_CIS"
      by (rule render_v2(2) [OF assms Inl])
    moreover have "?bs \<noteq> []" using calculation(1) by auto
    ultimately show ?thesis
      using assms Inl by (auto simp: generateInventoryAggregationXmlV2_def Let_def)
  next
    case (Inr r)
    then have "list_all exportable ?bs" using render_v2(1) [OF assms, of ?bs] by blast
    then show ?thesis using assms Inr by (simp add: generateInventoryAggregationXmlV2_def Let_def)
  qed
qed

theorem inventory_aggregation_errors_witness:
  "\<exists>p. generateInventoryAggregationXmlV2 id (\<lambda>c. True) (\<lambda>d. True) sample_inventory sample_metadata = Inr [p]"
  using inventory_aggregation_errors [OF sample_metadata_ok(2)] sample_exportable by blast

text \<open>The closing documents agree with one another: whenever the aggregation document is produced, so are
  the list of boxes and the table of their contents, all three report the same number of boxes,
  the first and the last the same number of codes, their line counts are the line feeds in their
  bytes, and the table reads back as one row per packed code under the twenty-digit code of its box.\<close>

theorem inventory_documents_agree:
  assumes "generateInventoryAggregationXmlV2 nfc ln iso_date src m = Inr [p]"
  shows "\<exists>q r rows. generateInventoryFinalBoxContentsCsv nfc ln iso_date src m = Inr [q]
    \<and> generateInventoryFinalBoxesTxt nfc ln iso_date src m = Inr [r]
    \<and> ip_boxCount q = ip_boxCount p \<and> ip_boxCount r = ip_boxCount p \<and> ip_codeCount q = ip_codeCount p
    \<and> count_list (ip_bytes p) 10 = ip_rowCount p \<and> count_list (ip_bytes r) 10 = ip_rowCount r
    \<and> ip_bytes q = UTF8_BOM @ utf8 (csv_text ([lit ''box_sscc'', lit ''code''] # rows))
    \<and> csv_read Csv_start [] [] (csv_text ([lit ''box_sscc'', lit ''code''] # rows))
        = [lit ''box_sscc'', lit ''code''] # rows
    \<and> rows = concat (map (\<lambda>b. map (\<lambda>c. [lit ''00'' @ fb_sscc b, vc_canonicalRaw c]) (fb_codes b))
        (selectEligibleInventoryFinalBoxes iso_date src))"
proof -
  let ?bs = "selectEligibleInventoryFinalBoxes iso_date src"
  let ?rows = "concat (map (\<lambda>b. map (\<lambda>c. [lit ''00'' @ fb_sscc b, vc_canonicalRaw c]) (fb_codes b)) ?bs)"
  have v: "validateAggregationMetadata m = None"
    using assms by (auto simp: generateInventoryAggregationXmlV2_def split: option.splits)
  have counts: "ip_boxCount p = length ?bs \<and> ip_codeCount p = length ?rows
      \<and> count_list (ip_bytes p) 10 = ip_rowCount p \<and> list_all exportable ?bs"
  proof (cases "?bs = []")
    case True
    then show ?thesis using assms v by (auto simp: generateInventoryAggregationXmlV2_def emptyPart_def)
  next
    case False
    then obtain r where r: "renderGismtAggregationXml (im_organizationInn m) (v2_document m) (map v2_box ?bs) [] = Inr r"
        "ip_boxCount p = gr_boxCount r" "ip_codeCount p = gr_codeCount r" "ip_bytes p = gr_bytes r"
        "ip_rowCount p = gr_physicalLineCount r"
      using assms v by (auto simp: generateInventoryAggregationXmlV2_def Let_def split: sum.splits)
    have "gr_boxCount r = length ?bs" "gr_codeCount r = sum_list (map (\<lambda>b. length (fb_codes b)) ?bs)"
      using r(1) by (auto simp: renderGismtAggregationXml_def Let_def comp_def v2_box_def split: if_splits sum.splits)
    then show ?thesis using r gismt_line_feeds [OF r(1)] render_v2(1) [OF v, of ?bs]
      by (auto simp: length_concat comp_def)
  qed
  then have d: "list_all (\<lambda>b. digits_n 18 (fb_sscc b)) ?bs" by (auto simp: list_all_iff exportable_def)
  have "collect content_rows ?bs = Inr (map (\<lambda>b. map (\<lambda>c. [lit ''00'' @ fb_sscc b, vc_canonicalRaw c]) (fb_codes b)) ?bs)"
    by (rule collect_Inr_map) (use d in \<open>simp add: list_all_iff content_rows_ok\<close>)
  moreover have "collect (\<lambda>b. formatOutputSscc (fb_sscc b)) ?bs = Inr (map (\<lambda>b. lit ''00'' @ fb_sscc b) ?bs)"
    by (rule collect_Inr_map) (use d in \<open>simp add: list_all_iff formatOutputSscc_eq\<close>)
  moreover have "csv_read Csv_start [] [] (csv_text ([lit ''box_sscc'', lit ''code''] # ?rows))
      = [lit ''box_sscc'', lit ''code''] # ?rows"
    by (rule csv_roundtrip) (auto simp: lit_def)
  ultimately show ?thesis
    using counts box_names_lines [OF d]
    by (simp add: generateInventoryFinalBoxContentsCsv_def generateInventoryFinalBoxesTxt_def Let_def
        generatedPart_def encodeSemicolonCsv_def encodeSemicolonCsvRows_def)
qed

theorem inventory_documents_agree_witness:
  "\<exists>q. generateInventoryFinalBoxContentsCsv id (\<lambda>c. True) (\<lambda>d. True) sample_inventory sample_metadata = Inr [q]"
  using sample_v2 inventory_documents_agree by blast

text \<open>C21: Disaggregation never dissolves a box that still holds a protected code: with valid metadata and
  tax number the document names, in ascending order and once each, exactly the old boxes whose
  codes were repacked into final boxes and that are not the parent of a protected code; it is
  empty when there is none, and refused only when one of them is not an eighteen-digit code.\<close>

theorem inventory_disaggregation_safe:
  assumes "validateCommonMetadata m = None" "isParticipantInn (im_organizationInn m)"
  shows "generateInventoryDisaggregationXml nfc ln iso_date src m =
    (let ds = dissolved iso_date src;
         filename = inventoryDocumentFilenamePrefix nfc ln (im_inventoryNumber m) @ lit ''-disaggregation.xml''
     in if \<exists>s \<in> ds. \<not> digits_n 18 s then Inl (InventoryDocumentGenerationError GEN_INVALID_SSCC)
        else if ds = {} then Inr [emptyPart filename]
        else Inr [xml_part filename (disaggregation_lines (im_organizationInn m) (sorted_list_of_set ds)) 0 (card ds)])"
proof -
  let ?ds = "dissolved iso_date src"
  have f: "finite ?ds" by (rule dissolved_finite)
  show ?thesis
  proof (cases "(\<exists>s \<in> ?ds. \<not> digits_n 18 s) \<or> ?ds = {}")
    case True
    then show ?thesis using assms
      by (auto simp: generateInventoryDisaggregationXml_def disaggregation_boxes_spec Let_def)
  next
    case False
    let ?l = "sorted_list_of_set ?ds"
    have ne: "?l \<noteq> []" using False f by simp
    have st: "set ?l = ?ds" using f by simp
    have "js_sort compareText (js_unique ?l) = ?l" unfolding sorted_list_of_set_unique st ..
    moreover have "\<not> list_ex (\<lambda>s. \<not> digits_n 18 s) ?l" unfolding list_ex_iff st using False by blast
    moreover have "length ?l = card ?ds" "0 < card ?ds" using False f by (simp_all add: card_gt_0_iff)
    ultimately have "renderGismtDisaggregationXml (im_organizationInn m) ?l =
        Inr \<lparr>gx_bytes = utf8 (join [10] (disaggregation_lines (im_organizationInn m) ?l) @ [10]),
             gx_physicalLineCount = length (disaggregation_lines (im_organizationInn m) ?l),
             gx_packingCount = card ?ds\<rparr>"
      using assms(2) ne by (simp add: renderGismtDisaggregationXml_def Let_def del: length_sorted_list_of_set)
    then show ?thesis using assms False f
      by (simp add: card_eq_0_iff generateInventoryDisaggregationXml_def disaggregation_boxes_spec Let_def xml_part_def)
  qed
qed

theorem inventory_disaggregation_safe_witness:
  "generateInventoryDisaggregationXml id (\<lambda>c. True) (\<lambda>d. True) sample_inventory sample_metadata =
     Inr [emptyPart (inventoryDocumentFilenamePrefix id (\<lambda>c. True) (im_inventoryNumber sample_metadata)
       @ lit ''-disaggregation.xml'')]"
proof -
  have "dissolved (\<lambda>d. True) sample_inventory = {}"
    unfolding dissolved_def sample_selection by (simp add: sample_inventory_def)
  then show ?thesis
    using inventory_disaggregation_safe [OF sample_metadata_ok(1,3), of id "\<lambda>c. True" "\<lambda>d. True" sample_inventory]
    by simp
qed

text \<open>C31: The balances by production date are exact: the two counting passes give, for every date observed on
  an unprotected verified code and for no other, one row with the number of such codes and of final
  boxes of that date, in the order of the dates; the totals are all the codes and all the final
  boxes, and the table is refused precisely when some code has no valid date.\<close>

theorem inventory_balances_exact:
  "generateInventoryBalancesByProductionDateCsv nfc ln iso_date src m =
     (if \<not> list_all (dated iso_date) (verifiedEntries src)
      then Inl (InventoryDocumentGenerationError VERIFIED_PRODUCTION_DATE_MISSING)
      else Inr [generatedPart
        (inventoryDocumentFilenamePrefix nfc ln (im_inventoryNumber m) @ lit ''-balances-by-production-date.csv'')
        CSV_MIME_TYPE
        (encodeSemicolonCsv [lit ''production_date'', lit ''code_count'', lit ''box_count'']
          (map (\<lambda>d. [d, dec (codes_of_date src d), dec (boxes_of_date iso_date src d)])
            (sorted_list_of_set (stock_dates src))))
        (1 + card (stock_dates src)) (length (verifiedEntries src))
        (length (selectEligibleInventoryFinalBoxes iso_date src))])"
proof (cases "list_all (dated iso_date) (verifiedEntries src)")
  case False
  then show ?thesis by (simp add: generateInventoryBalancesByProductionDateCsv_def count_codes_fail)
next
  case True
  obtain k where k: "count_codes iso_date (verifiedEntries src) [] = Inr k"
      "count_boxes (selectEligibleInventoryFinalBoxes iso_date src) k = all_counts iso_date src"
    using count_codes_fold [OF True] unfolding all_counts_def by blast
  have "balance_rows (all_counts iso_date src)
      = map (\<lambda>d. [d, dec (codes_of_date src d), dec (boxes_of_date iso_date src d)])
          (sorted_list_of_set (stock_dates src))"
    using balance_rows_entries [OF all_counts_spec(2)] unfolding all_counts_spec(1,3) by simp
  then show ?thesis using True
    by (simp add: generateInventoryBalancesByProductionDateCsv_def k Let_def all_counts_sums)
qed

text \<open>The code tables list every unprotected code and nothing else: the table of codes to write off and
  the table of the stock, with its heading, read back as the sorted rearrangement of the codes of the
  source that are not protected, repetitions kept, and the counts reported are their number; the
  plain-text files hold the same codes, one per line.\<close>

theorem inventory_code_tables:
  "\<exists>p q r s. generateInventoryWriteOffCsv nfc ln src m = [p] \<and> generateInventoryWriteOffTxt nfc ln src m = [q]
   \<and> generateInventoryCurrentStockCsvV1 nfc ln src m = [r] \<and> generateInventoryCurrentStockTxt nfc ln src m = [s]
   \<and> (\<exists>codes. sorted (map utf8 codes) \<and> ip_codeCount p = length codes \<and> ip_codeCount q = length codes
        \<and> mset codes = {# snd c. c \<in># filter_mset (\<lambda>c. fst c \<notin> protected_hashes src) (mset (ds_writeOffCandidates src)) #}
        \<and> ip_bytes p = UTF8_BOM @ utf8 (csv_text ([lit ''code''] # map (\<lambda>c. [c]) codes))
        \<and> csv_read Csv_start [] [] (csv_text ([lit ''code''] # map (\<lambda>c. [c]) codes)) = [lit ''code''] # map (\<lambda>c. [c]) codes
        \<and> ip_bytes q = encodeLfText codes)
   \<and> (\<exists>codes. sorted (map utf8 codes) \<and> ip_codeCount r = length codes \<and> ip_codeCount s = length codes
        \<and> mset codes = {# vc_canonicalRaw c. c \<in># filter_mset (\<lambda>c. vc_codeHash c \<notin> protected_hashes src) (mset (ds_verified src)) #}
        \<and> ip_bytes r = UTF8_BOM @ utf8 (csv_text ([lit ''code''] # map (\<lambda>c. [c]) codes))
        \<and> csv_read Csv_start [] [] (csv_text ([lit ''code''] # map (\<lambda>c. [c]) codes)) = [lit ''code''] # map (\<lambda>c. [c]) codes
        \<and> ip_bytes s = encodeLfText codes)"
proof -
  have rt: "csv_read Csv_start [] [] (csv_text ([lit ''code''] # map (\<lambda>c. [c]) codes)) = [lit ''code''] # map (\<lambda>c. [c]) codes" for codes
    by (rule csv_roundtrip) (auto simp: lit_def)
  note defs = generateInventoryWriteOffCsv_def generateInventoryWriteOffTxt_def generateInventoryCurrentStockCsvV1_def
    generateInventoryCurrentStockTxt_def generatedPart_def Let_def encodeSemicolonCsv_def encodeSemicolonCsvRows_def
  have w: "mset (writeOffCodes src) = {# snd c. c \<in># filter_mset (\<lambda>c. fst c \<notin> protected_hashes src) (mset (ds_writeOffCandidates src)) #}"
    "sorted (map utf8 (writeOffCodes src))"
    by (simp_all add: writeOffCodes_def byte_sorted)
  have v: "mset (verifiedCodes src) = {# vc_canonicalRaw c. c \<in># filter_mset (\<lambda>c. vc_codeHash c \<notin> protected_hashes src) (mset (ds_verified src)) #}"
    "sorted (map utf8 (verifiedCodes src))"
    by (simp_all add: verifiedCodes_def verifiedEntries_def byte_sorted)
  show ?thesis unfolding defs
    by (rule exI, rule exI, rule exI, rule exI, intro conjI, rule refl, rule refl, rule refl, rule refl)
      (rule exI [of _ "writeOffCodes src"], simp add: w rt, rule exI [of _ "verifiedCodes src"], simp add: v rt)
qed

end
