(* ===== verification/Inventory_Registry.thy ===== *)
theory Inventory_Registry
  imports Gismt_Documents
begin

text \<open>
  The registry of inventory document formats (\<open>packages/domain/src/inventory/documents.ts\<close>): a
  descriptor is validated, registered under its identifier and version, and the one available
  version of an identifier is what \<open>resolve\<close> returns; superseded versions stay reachable through
  \<open>resolveRegistered\<close>. An input value that is not an object of the descriptor's shape is \<open>None\<close>.
  Freezing is implicit, values here do not change.
\<close>

section \<open>Descriptors\<close>

datatype source_category =
    Cat_expected | Cat_verified | Cat_writeOffCandidates | Cat_protected | Cat_ineligible
  | Cat_unknown | Cat_oldBoxes | Cat_newBoxes | Cat_observedDateGroups

definition INVENTORY_DOCUMENT_SOURCE_CATEGORIES :: "source_category list" where
  "INVENTORY_DOCUMENT_SOURCE_CATEGORIES =
     [Cat_expected, Cat_verified, Cat_writeOffCandidates, Cat_protected, Cat_ineligible,
      Cat_unknown, Cat_oldBoxes, Cat_newBoxes, Cat_observedDateGroups]"

datatype availability = Available | Unavailable

record format_descriptor =
  fd_id :: jstring
  fd_version :: jnum
  fd_label :: jstring
  fd_extension :: jstring
  fd_mimeType :: jstring
  fd_categories :: "source_category list"
  fd_supportsParts :: bool
  fd_availability :: availability
  fd_requiresInn :: bool

datatype registry_error =
    INVALID_DESCRIPTOR | DUPLICATE_FORMAT_ID | DUPLICATE_FORMAT_VERSION
  | FORMAT_UNKNOWN | FORMAT_SUPERSEDED | FORMAT_UNAVAILABLE

definition is_lower :: "nat \<Rightarrow> bool" where
  "is_lower c \<longleftrightarrow> 97 \<le> c \<and> c \<le> 122"

text \<open>\<open>^[a-z][a-z0-9_]{0,63}$\<close> and \<open>^[a-z0-9]{1,16}$\<close>.\<close>

definition format_id_ok :: "jstring \<Rightarrow> bool" where
  "format_id_ok s \<longleftrightarrow> s \<noteq> [] \<and> is_lower (hd s) \<and> length s \<le> 64
     \<and> list_all (\<lambda>c. is_lower c \<or> is_digit c \<or> c = 95) s"

definition extension_ok :: "jstring \<Rightarrow> bool" where
  "extension_ok s \<longleftrightarrow> 1 \<le> length s \<and> length s \<le> 16 \<and> list_all (\<lambda>c. is_lower c \<or> is_digit c) s"

definition mime_unit :: "nat \<Rightarrow> bool" where
  "mime_unit c \<longleftrightarrow> \<not> js_ws c \<and> c \<noteq> 47 \<and> c \<noteq> 59"

text \<open>
  \<open>^[^\s/;]+\/[^\s/;]+(?:; charset=[a-z0-9-]+)?$\<close>: neither part can contain what follows it, so
  each runs as far as its class does.
\<close>

definition mime_pattern :: "jstring \<Rightarrow> bool" where
  "mime_pattern s \<longleftrightarrow>
     (let kind = takeWhile mime_unit s; rest = dropWhile mime_unit s;
          sub = takeWhile mime_unit (tl rest); opt = dropWhile mime_unit (tl rest)
      in kind \<noteq> [] \<and> rest \<noteq> [] \<and> hd rest = 47 \<and> sub \<noteq> []
         \<and> (opt = [] \<or> starts_with opt (lit ''; charset='') \<and> drop 10 opt \<noteq> []
              \<and> list_all (\<lambda>c. is_lower c \<or> is_digit c \<or> c = 45) (drop 10 opt)))"

text \<open>The schema with its two trimmed strings.\<close>

definition inventoryDocumentFormatDescriptorSchema :: "format_descriptor \<Rightarrow> format_descriptor option" where
  "inventoryDocumentFormatDescriptorSchema d =
     (let label = js_trim (fd_label d); mimeType = js_trim (fd_mimeType d)
      in if format_id_ok (fd_id d)
            \<and> is_integer (fd_version d) \<and> 1 \<le> jint (fd_version d) \<and> jint (fd_version d) \<le> 2147483647
            \<and> 1 \<le> length label \<and> length label \<le> 200
            \<and> extension_ok (fd_extension d)
            \<and> 1 \<le> length mimeType \<and> length mimeType \<le> 128 \<and> mime_pattern mimeType
            \<and> 1 \<le> length (fd_categories d)
            \<and> length (fd_categories d) \<le> length INVENTORY_DOCUMENT_SOURCE_CATEGORIES
            \<and> card (set (fd_categories d)) = length (fd_categories d)
         then Some (d\<lparr>fd_label := label, fd_mimeType := mimeType\<rparr>) else None)"

definition immutableDescriptor :: "format_descriptor option \<Rightarrow> registry_error + format_descriptor" where
  "immutableDescriptor value =
     (case Option.bind value inventoryDocumentFormatDescriptorSchema of
        None \<Rightarrow> Inl INVALID_DESCRIPTOR | Some d \<Rightarrow> Inr d)"

section \<open>The registry\<close>

definition int_text :: "int \<Rightarrow> jstring" where
  "int_text i = (if i < 0 then 45 # dec (nat (- i)) else dec (nat i))"

definition formatKey :: "jstring \<Rightarrow> int \<Rightarrow> jstring" where
  "formatKey i version = i @ lit ''@'' @ int_text version"

definition descriptor_key :: "format_descriptor \<Rightarrow> jstring" where
  "descriptor_key d = formatKey (fd_id d) (jint (fd_version d))"

record registry =
  byRegisteredVersion :: "(jstring \<times> format_descriptor) list"
  registeredIds :: "jstring set"
  currentById :: "(jstring \<times> format_descriptor) list"

definition register :: "registry \<Rightarrow> format_descriptor \<Rightarrow> registry_error + registry" where
  "register reg d =
     (let key = descriptor_key d
      in if map_of (byRegisteredVersion reg) key \<noteq> None then Inl DUPLICATE_FORMAT_VERSION
         else if fd_availability d = Available \<and> map_of (currentById reg) (fd_id d) \<noteq> None
         then Inl DUPLICATE_FORMAT_ID
         else Inr \<lparr>byRegisteredVersion = byRegisteredVersion reg @ [(key, d)],
                   registeredIds = insert (fd_id d) (registeredIds reg),
                   currentById = (if fd_availability d = Available
                     then currentById reg @ [(fd_id d, d)] else currentById reg)\<rparr>)"

fun register_all :: "format_descriptor option list \<Rightarrow> registry \<Rightarrow> registry_error + registry" where
  "register_all [] reg = Inr reg"
| "register_all (value # input) reg =
     (case immutableDescriptor value of
        Inl e \<Rightarrow> Inl e
      | Inr d \<Rightarrow> (case register reg d of Inl e \<Rightarrow> Inl e | Inr reg' \<Rightarrow> register_all input reg'))"

definition createInventoryDocumentRegistry :: "format_descriptor option list \<Rightarrow> registry_error + registry" where
  "createInventoryDocumentRegistry input =
     register_all input \<lparr>byRegisteredVersion = [], registeredIds = {}, currentById = []\<rparr>"

definition listAvailable :: "registry \<Rightarrow> format_descriptor list" where
  "listAvailable reg = map snd (currentById reg)"

definition resolve :: "registry \<Rightarrow> jstring \<Rightarrow> int \<Rightarrow> registry_error + format_descriptor" where
  "resolve reg i version =
     (case map_of (currentById reg) i of
        Some current \<Rightarrow> if fd_version current \<noteq> JInt version then Inl FORMAT_SUPERSEDED else Inr current
      | None \<Rightarrow> if i \<in> registeredIds reg then Inl FORMAT_UNAVAILABLE else Inl FORMAT_UNKNOWN)"

definition resolveRegistered :: "registry \<Rightarrow> jstring \<Rightarrow> int \<Rightarrow> registry_error + format_descriptor" where
  "resolveRegistered reg i version =
     (case map_of (byRegisteredVersion reg) (formatKey i version) of
        None \<Rightarrow> Inl FORMAT_UNKNOWN | Some d \<Rightarrow> Inr d)"

section \<open>The shipped formats\<close>

definition legacyAggregationV1 :: format_descriptor where
  "legacyAggregationV1 =
     \<lparr>fd_id = lit ''inventory_xml_gismt_aggregation'', fd_version = JInt 1,
       fd_label = lit ''[XML]['' @ [1043, 1048, 1057, 1052, 1058, 93, 32, 1060, 1086, 1088, 1084, 1080, 1088, 1086, 1074, 1072, 1085, 1080, 1077, 32, 1091, 1087, 1072, 1082, 1086, 1074, 1082, 1080],
       fd_extension = lit ''xml'', fd_mimeType = lit ''application/xml; charset=utf-8'',
       fd_categories = [Cat_verified, Cat_protected, Cat_newBoxes], fd_supportsParts = False,
       fd_availability = Unavailable, fd_requiresInn = True\<rparr>"

definition legacyCurrentStockCsvV1 :: format_descriptor where
  "legacyCurrentStockCsvV1 =
     \<lparr>fd_id = lit ''inventory_csv_current_stock'', fd_version = JInt 1,
       fd_label = lit ''[CSV] '' @ [1050, 1086, 1076, 1099, 32, 1085, 1072, 32, 1091, 1095, 1105, 1090],
       fd_extension = lit ''csv'', fd_mimeType = lit ''text/csv; charset=utf-8'',
       fd_categories = [Cat_verified, Cat_protected], fd_supportsParts = False,
       fd_availability = Unavailable, fd_requiresInn = False\<rparr>"

definition INVENTORY_DOCUMENT_FORMATS :: "format_descriptor list" where
  "INVENTORY_DOCUMENT_FORMATS =
    [
     \<lparr>fd_id = lit ''inventory_pdf_act'', fd_version = JInt 1,
       fd_label = lit ''[PDF] '' @ [1040, 1082, 1090, 32, 1086, 1073, 32, 1080, 1085, 1074, 1077, 1085, 1090, 1072, 1088, 1080, 1079, 1072, 1094, 1080, 1080],
       fd_extension = lit ''pdf'', fd_mimeType = lit ''application/pdf'',
       fd_categories = INVENTORY_DOCUMENT_SOURCE_CATEGORIES, fd_supportsParts = False,
       fd_availability = Available, fd_requiresInn = True\<rparr>,
     \<lparr>fd_id = lit ''inventory_xml_gismt_aggregation'', fd_version = JInt 2,
       fd_label = lit ''[XML]['' @ [1043, 1048, 1057, 1052, 1058, 93, 32, 1060, 1086, 1088, 1084, 1080, 1088, 1086, 1074, 1072, 1085, 1080, 1077, 32, 1091, 1087, 1072, 1082, 1086, 1074, 1082, 1080],
       fd_extension = lit ''xml'', fd_mimeType = lit ''application/xml; charset=utf-8'',
       fd_categories = [Cat_verified, Cat_protected, Cat_newBoxes], fd_supportsParts = False,
       fd_availability = Available, fd_requiresInn = True\<rparr>,
     \<lparr>fd_id = lit ''inventory_xml_gismt_disaggregation'', fd_version = JInt 1,
       fd_label = lit ''[XML]['' @ [1043, 1048, 1057, 1052, 1058, 93, 32, 1056, 1072, 1089, 1092, 1086, 1088, 1084, 1080, 1088, 1086, 1074, 1072, 1085, 1080, 1077, 32, 1091, 1087, 1072, 1082, 1086, 1074, 1082, 1080],
       fd_extension = lit ''xml'', fd_mimeType = lit ''application/xml; charset=utf-8'',
       fd_categories = [Cat_verified, Cat_protected, Cat_newBoxes], fd_supportsParts = False,
       fd_availability = Available, fd_requiresInn = True\<rparr>,
     \<lparr>fd_id = lit ''inventory_txt_write_off'', fd_version = JInt 1,
       fd_label = lit ''[TXT] '' @ [1050, 1086, 1076, 1099, 32, 1082, 32, 1089, 1087, 1080, 1089, 1072, 1085, 1080, 1102],
       fd_extension = lit ''txt'', fd_mimeType = lit ''text/plain; charset=utf-8'',
       fd_categories = [Cat_writeOffCandidates, Cat_protected], fd_supportsParts = False,
       fd_availability = Available, fd_requiresInn = False\<rparr>,
     \<lparr>fd_id = lit ''inventory_csv_write_off'', fd_version = JInt 1,
       fd_label = lit ''[CSV] '' @ [1050, 1086, 1076, 1099, 32, 1082, 32, 1089, 1087, 1080, 1089, 1072, 1085, 1080, 1102],
       fd_extension = lit ''csv'', fd_mimeType = lit ''text/csv; charset=utf-8'',
       fd_categories = [Cat_writeOffCandidates, Cat_protected], fd_supportsParts = False,
       fd_availability = Available, fd_requiresInn = False\<rparr>,
     \<lparr>fd_id = lit ''inventory_csv_current_stock'', fd_version = JInt 2,
       fd_label = lit ''[CSV] '' @ [1050, 1086, 1076, 1099, 32, 1085, 1072, 32, 1091, 1095, 1105, 1090],
       fd_extension = lit ''csv'', fd_mimeType = lit ''text/csv; charset=utf-8'',
       fd_categories = [Cat_verified, Cat_protected], fd_supportsParts = False,
       fd_availability = Available, fd_requiresInn = False\<rparr>,
     \<lparr>fd_id = lit ''inventory_txt_current_stock'', fd_version = JInt 1,
       fd_label = lit ''[TXT] '' @ [1050, 1086, 1076, 1099, 32, 1085, 1072, 32, 1091, 1095, 1105, 1090],
       fd_extension = lit ''txt'', fd_mimeType = lit ''text/plain; charset=utf-8'',
       fd_categories = [Cat_verified, Cat_protected], fd_supportsParts = False,
       fd_availability = Available, fd_requiresInn = False\<rparr>,
     \<lparr>fd_id = lit ''inventory_csv_final_box_contents'', fd_version = JInt 1,
       fd_label = lit ''[CSV] '' @ [1057, 1086, 1089, 1090, 1072, 1074, 32, 1080, 1090, 1086, 1075, 1086, 1074, 1099, 1093, 32, 1082, 1086, 1088, 1086, 1073, 1086, 1074],
       fd_extension = lit ''csv'', fd_mimeType = lit ''text/csv; charset=utf-8'',
       fd_categories = [Cat_verified, Cat_protected, Cat_newBoxes], fd_supportsParts = False,
       fd_availability = Available, fd_requiresInn = False\<rparr>,
     \<lparr>fd_id = lit ''inventory_txt_final_boxes'', fd_version = JInt 1,
       fd_label = lit ''[TXT] '' @ [1053, 1086, 1084, 1077, 1088, 1072, 32, 1080, 1090, 1086, 1075, 1086, 1074, 1099, 1093, 32, 1082, 1086, 1088, 1086, 1073, 1086, 1074],
       fd_extension = lit ''txt'', fd_mimeType = lit ''text/plain; charset=utf-8'',
       fd_categories = [Cat_verified, Cat_protected, Cat_newBoxes], fd_supportsParts = False,
       fd_availability = Available, fd_requiresInn = False\<rparr>,
     \<lparr>fd_id = lit ''inventory_csv_balances_by_production_date'', fd_version = JInt 1,
       fd_label = lit ''[CSV] '' @ [1054, 1089, 1090, 1072, 1090, 1082, 1080, 32, 1087, 1086, 32, 1076, 1072, 1090, 1072, 1084, 32, 1087, 1088, 1086, 1080, 1079, 1074, 1086, 1076, 1089, 1090, 1074, 1072],
       fd_extension = lit ''csv'', fd_mimeType = lit ''text/csv; charset=utf-8'',
       fd_categories = [Cat_verified, Cat_protected, Cat_newBoxes], fd_supportsParts = False,
       fd_availability = Available, fd_requiresInn = False\<rparr>]"

definition inventoryDocumentRegistry :: "registry_error + registry" where
  "inventoryDocumentRegistry =
     createInventoryDocumentRegistry
       (map Some (legacyAggregationV1 # legacyCurrentStockCsvV1 # INVENTORY_DOCUMENT_FORMATS))"

text \<open>A module that fails to build its registry throws at load time; the getters propagate that.\<close>

definition getRegisteredInventoryDocumentFormat :: "jstring \<Rightarrow> int \<Rightarrow> registry_error + format_descriptor" where
  "getRegisteredInventoryDocumentFormat i version =
     (case inventoryDocumentRegistry of Inl e \<Rightarrow> Inl e | Inr reg \<Rightarrow> resolveRegistered reg i version)"

definition getInventoryDocumentFormat :: "jstring \<Rightarrow> int \<Rightarrow> registry_error + format_descriptor" where
  "getInventoryDocumentFormat i version = getRegisteredInventoryDocumentFormat i version"

section \<open>Lemmas\<close>

lemma int_text_no_at: "64 \<notin> set (int_text i)"
  using dec_digits [of "nat i"] dec_digits [of "nat (- i)"]
  by (auto simp: int_text_def list_all_iff is_digit_def)

lemma int_text_inj: "int_text i = int_text j \<Longrightarrow> i = j"
proof -
  have h: "hd (dec n) \<noteq> 45" for n
    using dec_digits [of n] dec_nonempty [of n] by (cases "dec n") (auto simp: is_digit_def)
  assume a: "int_text i = int_text j"
  have "i < 0 \<longleftrightarrow> j < 0" using a h [of "nat i"] h [of "nat j"] by (auto simp: int_text_def split: if_splits) (metis list.sel(1))+
  then have "nat i = nat j \<and> nat (- i) = nat (- j)" using a
    by (cases "i < 0") (auto simp: int_text_def dec_inj)
  then show ?thesis by linarith
qed

lemma formatKey_inj: "formatKey i v = formatKey j w \<longleftrightarrow> i = j \<and> v = w"
proof
  assume a: "formatKey i v = formatKey j w"
  have "i = j \<and> int_text v = int_text w"
  proof -
    have "rev (int_text v) @ 64 # rev i = rev (int_text w) @ 64 # rev j"
      using arg_cong [OF a, of rev] by (simp add: formatKey_def lit_def)
    moreover have "x = y \<and> s = t" if "x @ 64 # s = y @ 64 # t" "64 \<notin> set x" "64 \<notin> set y" for x y s t :: jstring
      using that by (induction x arbitrary: y) (case_tac y; auto)+
    ultimately have "rev (int_text v) = rev (int_text w) \<and> rev i = rev j"
      using int_text_no_at by (metis set_rev)
    then show ?thesis by simp
  qed
  then show "i = j \<and> v = w" using int_text_inj by blast
qed simp

text \<open>What a registry of the descriptors \<open>ds\<close>, registered in that order, contains.\<close>

definition current :: "format_descriptor list \<Rightarrow> format_descriptor list" where
  "current ds = filter (\<lambda>d. fd_availability d = Available) ds"

definition registry_of :: "format_descriptor list \<Rightarrow> registry" where
  "registry_of ds =
     \<lparr>byRegisteredVersion = map (\<lambda>d. (descriptor_key d, d)) ds,
      registeredIds = fd_id ` set ds,
      currentById = map (\<lambda>d. (fd_id d, d)) (current ds)\<rparr>"

definition registrable :: "format_descriptor list \<Rightarrow> bool" where
  "registrable ds \<longleftrightarrow> distinct (map descriptor_key ds) \<and> distinct (map fd_id (current ds))"

lemma map_of_key_None: "map_of (map (\<lambda>d. (k d, d)) ds) x = None \<longleftrightarrow> x \<notin> k ` set ds"
  by (induction ds) auto

lemma map_of_key_Some:
  "distinct (map k ds) \<Longrightarrow> map_of (map (\<lambda>d. (k d, d)) ds) x = Some d \<longleftrightarrow> d \<in> set ds \<and> k d = x"
  by (induction ds) (auto simp: image_iff)

lemma register_step:
  assumes "registrable ds"
  shows "register (registry_of ds) d = Inr r \<longleftrightarrow> registrable (ds @ [d]) \<and> r = registry_of (ds @ [d])"
  using assms
  by (auto simp: register_def registrable_def registry_of_def current_def Let_def map_of_key_None
      simp del: not_None_eq)

lemma register_all_spec:
  "registrable ds \<Longrightarrow> register_all input (registry_of ds) = Inr r \<longleftrightarrow>
     (\<exists>es. collect immutableDescriptor input = Inr es \<and> registrable (ds @ es) \<and> r = registry_of (ds @ es))"
proof (induction input arbitrary: ds)
  case (Cons v input)
  have pre: "registrable (ds @ d # es) \<Longrightarrow> registrable (ds @ [d])" for d es
    by (auto simp: registrable_def current_def split: if_splits)
  show ?case
  proof (cases "immutableDescriptor v")
    case (Inr d)
    show ?thesis
    proof (cases "register (registry_of ds) d")
      case (Inl e)
      then have "\<not> registrable (ds @ [d])" using register_step [OF Cons.prems] by (metis Inl_Inr_False)
      then show ?thesis using Inr Inl pre by (auto split: sum.splits)
    next
      case (Inr r')
      then have s: "registrable (ds @ [d])" "r' = registry_of (ds @ [d])" using register_step [OF Cons.prems] by auto
      show ?thesis using Cons.IH [OF s(1)] Inr \<open>immutableDescriptor v = Inr d\<close> s(2) by (auto split: sum.splits)
    qed
  qed simp
qed auto

lemma create_spec:
  "createInventoryDocumentRegistry input = Inr reg \<longleftrightarrow>
     (\<exists>ds. collect immutableDescriptor input = Inr ds \<and> registrable ds \<and> reg = registry_of ds)"
  using register_all_spec [of "[]" input reg]
  by (simp add: createInventoryDocumentRegistry_def registrable_def registry_of_def current_def)

lemma parsed_version:
  assumes "collect immutableDescriptor input = Inr ds" "d \<in> set ds"
  shows "\<exists>v. fd_version d = JInt v"
proof -
  have "list_all (\<lambda>d. \<exists>v. fd_version d = JInt v) ds"
  proof (rule collect_all [OF assms(1)])
    fix x y assume "immutableDescriptor x = Inr y"
    then obtain z where "inventoryDocumentFormatDescriptorSchema z = Some y"
      by (auto simp: immutableDescriptor_def split: option.splits Option.bind_splits)
    then show "\<exists>v. fd_version y = JInt v"
      by (cases "fd_version z") (auto simp: inventoryDocumentFormatDescriptorSchema_def Let_def split: if_splits)
  qed
  then show ?thesis using assms(2) by (auto simp: list_all_iff)
qed

lemma key_iff:
  assumes "fd_version d = JInt v"
  shows "descriptor_key d = formatKey i w \<longleftrightarrow> fd_id d = i \<and> fd_version d = JInt w"
  using assms by (auto simp: descriptor_key_def formatKey_inj)

section \<open>Properties\<close>

text \<open>C32: The format registry implements its contract: it is built only when every descriptor is
  valid, no identifier and version occur twice and no identifier has two available versions. Then
  \<open>resolveRegistered\<close> finds precisely the registered versions, \<open>resolve\<close> precisely the available ones,
  the available list keeps the order of registration, and a failure tells a superseded version, a
  retired format and an unknown identifier apart.\<close>

theorem registry_contract:
  assumes "createInventoryDocumentRegistry input = Inr reg"
  shows "\<exists>ds. collect immutableDescriptor input = Inr ds
    \<and> distinct (map (\<lambda>d. (fd_id d, fd_version d)) ds)
    \<and> distinct (map fd_id (filter (\<lambda>d. fd_availability d = Available) ds))
    \<and> listAvailable reg = filter (\<lambda>d. fd_availability d = Available) ds
    \<and> (\<forall>i v d. resolveRegistered reg i v = Inr d \<longleftrightarrow> d \<in> set ds \<and> fd_id d = i \<and> fd_version d = JInt v)
    \<and> (\<forall>i v d. resolve reg i v = Inr d \<longleftrightarrow>
         d \<in> set ds \<and> fd_availability d = Available \<and> fd_id d = i \<and> fd_version d = JInt v)
    \<and> (\<forall>i v. resolve reg i v = Inl FORMAT_SUPERSEDED \<longleftrightarrow>
         (\<exists>d \<in> set ds. fd_availability d = Available \<and> fd_id d = i \<and> fd_version d \<noteq> JInt v))
    \<and> (\<forall>i v. resolve reg i v = Inl FORMAT_UNAVAILABLE \<longleftrightarrow>
         i \<in> fd_id ` set ds \<and> (\<forall>d \<in> set ds. fd_id d = i \<longrightarrow> fd_availability d = Unavailable))
    \<and> (\<forall>i v. resolve reg i v = Inl FORMAT_UNKNOWN \<longleftrightarrow> i \<notin> fd_id ` set ds)"
proof -
  obtain ds where ds: "collect immutableDescriptor input = Inr ds" "registrable ds" "reg = registry_of ds"
    using assms by (auto simp: create_spec)
  have dk: "distinct (map descriptor_key ds)" "distinct (map fd_id (current ds))"
    using ds(2) by (simp_all add: registrable_def)
  have av: "fd_availability d \<noteq> Available \<longleftrightarrow> fd_availability d = Unavailable" for d
    by (cases "fd_availability d") auto
  have k: "descriptor_key d = formatKey i v \<longleftrightarrow> fd_id d = i \<and> fd_version d = JInt v" if "d \<in> set ds" for d i v
    using parsed_version [OF ds(1) that] key_iff by blast
  have "resolveRegistered reg i v = Inr d \<longleftrightarrow> d \<in> set ds \<and> fd_id d = i \<and> fd_version d = JInt v" for i v d
    using map_of_key_Some [OF dk(1), of "formatKey i v" d] k
    by (auto simp: resolveRegistered_def ds(3) registry_of_def split: option.splits)
  moreover have "listAvailable reg = filter (\<lambda>d. fd_availability d = Available) ds"
    by (simp add: listAvailable_def ds(3) registry_of_def current_def comp_def)
  moreover have c: "map_of (currentById reg) i = Some d \<longleftrightarrow> d \<in> set ds \<and> fd_availability d = Available \<and> fd_id d = i" for i d
    using map_of_key_Some [OF dk(2)] by (auto simp: ds(3) registry_of_def current_def)
  then have n: "map_of (currentById reg) i = None \<longleftrightarrow> (\<forall>d \<in> set ds. fd_id d = i \<longrightarrow> fd_availability d = Unavailable)" for i
    by (metis av not_None_eq)
  have ids: "registeredIds reg = fd_id ` set ds" by (simp add: ds(3) registry_of_def)
  have r: "resolve reg i v = Inr d \<longleftrightarrow> map_of (currentById reg) i = Some d \<and> fd_version d = JInt v"
    "resolve reg i v = Inl FORMAT_SUPERSEDED \<longleftrightarrow> (\<exists>d. map_of (currentById reg) i = Some d \<and> fd_version d \<noteq> JInt v)"
    "resolve reg i v = Inl FORMAT_UNAVAILABLE \<longleftrightarrow> map_of (currentById reg) i = None \<and> i \<in> fd_id ` set ds"
    "resolve reg i v = Inl FORMAT_UNKNOWN \<longleftrightarrow> map_of (currentById reg) i = None \<and> i \<notin> fd_id ` set ds" for i v d
    by (auto simp: resolve_def ids split: option.splits)
  moreover have "distinct (map (\<lambda>d. (fd_id d, fd_version d)) ds)"
    using dk(1) by (auto simp: distinct_map inj_on_def descriptor_key_def)
  ultimately show ?thesis
    using ds(1) dk(2) unfolding r c n current_def by (intro exI [of _ ds]) blast
qed

text \<open>The shipped formats form a registry, so the module loads.\<close>

definition shipped :: "format_descriptor list" where
  "shipped = legacyAggregationV1 # legacyCurrentStockCsvV1 # INVENTORY_DOCUMENT_FORMATS"

lemma registrableI:
  assumes "list_all (\<lambda>d. is_integer (fd_version d)) ds" "distinct (map (\<lambda>d. (fd_id d, fd_version d)) ds)"
    and "distinct (map fd_id (current ds))"
  shows "registrable ds"
proof -
  have "d = e" if "d \<in> set ds" "e \<in> set ds" "descriptor_key d = descriptor_key e" for d e
  proof -
    have "is_integer (fd_version d)" "is_integer (fd_version e)" using assms(1) that by (auto simp: list_all_iff)
    then have "(fd_id d, fd_version d) = (fd_id e, fd_version e)"
      using that(3) by (cases "fd_version d"; cases "fd_version e") (auto simp: descriptor_key_def formatKey_inj)
    then show ?thesis using assms(2) that by (auto simp: distinct_map inj_on_def)
  qed
  then show ?thesis using assms by (auto simp: registrable_def distinct_map inj_on_def)
qed

lemma js_trim_id: "s \<noteq> [] \<Longrightarrow> \<not> js_ws (hd s) \<Longrightarrow> \<not> js_ws (last s) \<Longrightarrow> js_trim s = s"
  using strip_fixed [of s js_ws "[]" "[]"] by (simp add: js_trim_def)

lemma shipped_mimes:
  "mime_pattern (lit ''application/xml; charset=utf-8'')" "mime_pattern (lit ''text/csv; charset=utf-8'')"
  "mime_pattern (lit ''text/plain; charset=utf-8'')" "mime_pattern (lit ''application/pdf'')"
  by (simp_all add: mime_pattern_def lit_def mime_unit_def js_ws_def starts_with_def is_lower_def is_digit_def)

lemma shipped_trims:
  "js_trim (lit ''application/xml; charset=utf-8'') = lit ''application/xml; charset=utf-8''"
  "js_trim (lit ''text/csv; charset=utf-8'') = lit ''text/csv; charset=utf-8''"
  "js_trim (lit ''text/plain; charset=utf-8'') = lit ''text/plain; charset=utf-8''"
  "js_trim (lit ''application/pdf'') = lit ''application/pdf''"
  by (intro js_trim_id; simp add: lit_def js_ws_def)+

lemma bracket_trim: "us \<noteq> [] \<Longrightarrow> \<not> js_ws (last us) \<Longrightarrow> js_trim (lit (CHR ''['' # t) @ us) = lit (CHR ''['' # t) @ us"
  by (intro js_trim_id) (simp_all add: lit_def js_ws_def)

lemma shipped_ids:
  "format_id_ok (lit ''inventory_xml_gismt_aggregation'')"
  "format_id_ok (lit ''inventory_csv_current_stock'')"
  "format_id_ok (lit ''inventory_pdf_act'')"
  "format_id_ok (lit ''inventory_xml_gismt_disaggregation'')"
  "format_id_ok (lit ''inventory_txt_write_off'')"
  "format_id_ok (lit ''inventory_csv_write_off'')"
  "format_id_ok (lit ''inventory_txt_current_stock'')"
  "format_id_ok (lit ''inventory_csv_final_box_contents'')"
  "format_id_ok (lit ''inventory_txt_final_boxes'')"
  "format_id_ok (lit ''inventory_csv_balances_by_production_date'')"
  by code_simp+

lemma shipped_extensions: "extension_ok (lit ''xml'')" "extension_ok (lit ''csv'')" "extension_ok (lit ''txt'')" "extension_ok (lit ''pdf'')"
  by code_simp+

text \<open>Sufficient conditions under which the schema returns a descriptor unchanged.\<close>

lemma schema_keeps:
  assumes "format_id_ok (fd_id d)" "is_integer (fd_version d)" "1 \<le> jint (fd_version d)" "jint (fd_version d) \<le> 2147483647"
    and "js_trim (fd_label d) = fd_label d" "fd_label d \<noteq> []" "length (fd_label d) \<le> 200"
    and "extension_ok (fd_extension d)" "js_trim (fd_mimeType d) = fd_mimeType d" "mime_pattern (fd_mimeType d)"
    and "fd_mimeType d \<noteq> []" "length (fd_mimeType d) \<le> 128"
    and "distinct (fd_categories d)" "fd_categories d \<noteq> []" "length (fd_categories d) \<le> 9"
  shows "inventoryDocumentFormatDescriptorSchema d = Some d"
  using assms
  by (simp add: inventoryDocumentFormatDescriptorSchema_def INVENTORY_DOCUMENT_SOURCE_CATEGORIES_def
      distinct_card Suc_le_eq)

lemma shipped_valid: "list_all (\<lambda>d. inventoryDocumentFormatDescriptorSchema d = Some d) shipped"
  unfolding shipped_def INVENTORY_DOCUMENT_FORMATS_def legacyAggregationV1_def legacyCurrentStockCsvV1_def list.pred_inject
  by (intro conjI)
    ((rule schema_keeps; simp add: shipped_ids shipped_mimes shipped_trims shipped_extensions bracket_trim
      js_ws_def INVENTORY_DOCUMENT_SOURCE_CATEGORIES_def lit_empty)+, simp)

lemma shipped_registrable: "registrable shipped"
  by (rule registrableI)
    (simp_all add: shipped_def INVENTORY_DOCUMENT_FORMATS_def legacyAggregationV1_def legacyCurrentStockCsvV1_def
      current_def lit_inj)

lemma shipped_parsed: "collect immutableDescriptor (map Some shipped) = Inr shipped"
proof -
  have "collect immutableDescriptor (map Some ds) = Inr ds"
    if "list_all (\<lambda>d. inventoryDocumentFormatDescriptorSchema d = Some d) ds" for ds
    using that by (induction ds) (auto simp: immutableDescriptor_def)
  then show ?thesis using shipped_valid by blast
qed

lemma shipped_registry: "inventoryDocumentRegistry = Inr (registry_of shipped)"
  using shipped_parsed shipped_registrable
  unfolding inventoryDocumentRegistry_def create_spec shipped_def by blast

theorem registry_contract_witness:
  "\<exists>reg. inventoryDocumentRegistry = Inr reg
     \<and> resolve reg (lit ''inventory_xml_gismt_aggregation'') 1 = Inl FORMAT_SUPERSEDED"
proof -
  have c: "createInventoryDocumentRegistry (map Some shipped) = Inr (registry_of shipped)"
    using shipped_registry by (simp add: inventoryDocumentRegistry_def shipped_def)
  have e: "\<exists>d \<in> set shipped. fd_availability d = Available
      \<and> fd_id d = lit ''inventory_xml_gismt_aggregation'' \<and> fd_version d \<noteq> JInt 1"
    unfolding shipped_def INVENTORY_DOCUMENT_FORMATS_def by (simp add: lit_inj)
  show ?thesis
    using registry_contract [OF c]
  proof (elim exE conjE)
    fix ds assume "collect immutableDescriptor (map Some shipped) = Inr ds"
      and s: "\<forall>i v. resolve (registry_of shipped) i v = Inl FORMAT_SUPERSEDED \<longleftrightarrow>
         (\<exists>d \<in> set ds. fd_availability d = Available \<and> fd_id d = i \<and> fd_version d \<noteq> JInt v)"
    then have "ds = shipped" using shipped_parsed by simp
    then show ?thesis using s e shipped_registry by (intro exI [of _ "registry_of shipped"]) simp
  qed
qed

end
