(* ===== verification/Sscc_Pool.thy ===== *)
theory Sscc_Pool
  imports Gs1_Codes
begin

text \<open>
  The station's local pool of SSCC serials (\<open>apps/station/src/lib/sscc-pool.ts\<close>). The server hands
  down blocks of serials; a block is a row of the table \<open>sscc_pool\<close>, and closing a box or a pallet
  burns the next serial of the lowest block that has one. Each operation is one SQL statement, the
  only atomic unit on the device, so it is one function on the table here. Rows are listed in the
  order of their row identifiers; an insert takes the largest identifier plus one.
\<close>

section \<open>The table and its statements\<close>

record pool_row =
  pr_rowid :: nat
  pr_issuerPrefix :: jstring
  pr_extensionDigit :: int
  pr_fromSerial :: int
  pr_toSerial :: int
  pr_nextSerial :: int

record server_range =
  sr_issuerPrefix :: jstring
  sr_extensionDigit :: int
  sr_fromSerial :: int
  sr_toSerial :: int
  sr_consumedThroughSerial :: "int option"

definition same_key :: "server_range \<Rightarrow> pool_row \<Rightarrow> bool" where
  "same_key r row \<longleftrightarrow> pr_issuerPrefix row = sr_issuerPrefix r
     \<and> pr_extensionDigit row = sr_extensionDigit r \<and> pr_fromSerial row = sr_fromSerial r"

definition next_rowid :: "pool_row list \<Rightarrow> nat" where
  "next_rowid rows = Suc (foldr max (map pr_rowid rows) 0)"

definition start_serial :: "server_range \<Rightarrow> int" where
  "start_serial r =
     (let consumedCursor = (case sr_consumedThroughSerial r of Some c \<Rightarrow> c + 1 | None \<Rightarrow> sr_fromSerial r);
          boxMinimum = (if sr_extensionDigit r = 0 then 1 else sr_fromSerial r)
      in max consumedCursor boxMinimum)"

definition addRange :: "pool_row list \<Rightarrow> server_range \<Rightarrow> pool_row list" where
  "addRange rows r =
     (if list_ex (same_key r) rows
      then map (\<lambda>row. if same_key r row
                      then row\<lparr>pr_nextSerial := max (pr_nextSerial row) (start_serial r)\<rparr> else row) rows
      else rows @ [\<lparr>pr_rowid = next_rowid rows, pr_issuerPrefix = sr_issuerPrefix r,
                    pr_extensionDigit = sr_extensionDigit r, pr_fromSerial = sr_fromSerial r,
                    pr_toSerial = sr_toSerial r, pr_nextSerial = start_serial r\<rparr>])"

definition dropRanges :: "pool_row list \<Rightarrow> jstring \<Rightarrow> int \<Rightarrow> int list \<Rightarrow> pool_row list" where
  "dropRanges rows issuerPrefix extensionDigit fromSerials =
     (if length fromSerials = 0 then rows
      else filter (\<lambda>row. \<not> (pr_issuerPrefix row = issuerPrefix \<and> pr_extensionDigit row = extensionDigit
                            \<and> pr_fromSerial row \<in> set fromSerials)) rows)"

definition has_room :: "jstring \<Rightarrow> int \<Rightarrow> pool_row \<Rightarrow> bool" where
  "has_room issuerPrefix extensionDigit row \<longleftrightarrow>
     pr_issuerPrefix row = issuerPrefix \<and> pr_extensionDigit row = extensionDigit
     \<and> pr_nextSerial row \<le> pr_toSerial row"

text \<open>\<open>ORDER BY from_serial LIMIT 1\<close> over the rows that have a serial left.\<close>

fun lowest_open :: "jstring \<Rightarrow> int \<Rightarrow> pool_row list \<Rightarrow> pool_row option" where
  "lowest_open p d [] = None"
| "lowest_open p d (row # rows) =
     (case lowest_open p d rows of
        None \<Rightarrow> if has_room p d row then Some row else None
      | Some best \<Rightarrow>
          if has_room p d row \<and> pr_fromSerial row \<le> pr_fromSerial best then Some row else Some best)"

definition advance_row :: "nat \<Rightarrow> pool_row list \<Rightarrow> pool_row list" where
  "advance_row i rows = map (\<lambda>row. if pr_rowid row = i then row\<lparr>pr_nextSerial := pr_nextSerial row + 1\<rparr> else row) rows"

definition burnSerial :: "pool_row list \<Rightarrow> jstring \<Rightarrow> int \<Rightarrow> pool_row list \<times> int option" where
  "burnSerial rows issuerPrefix extensionDigit =
     (case lowest_open issuerPrefix extensionDigit rows of
        None \<Rightarrow> (rows, None)
      | Some row \<Rightarrow> (advance_row (pr_rowid row) rows, Some (pr_nextSerial row)))"

definition remaining :: "pool_row list \<Rightarrow> jstring \<Rightarrow> int \<Rightarrow> int" where
  "remaining rows issuerPrefix extensionDigit =
     sum_list (map (\<lambda>row. pr_toSerial row - pr_nextSerial row + 1)
       (filter (has_room issuerPrefix extensionDigit) rows))"

section \<open>Lemmas: keys and rows\<close>

definition key_of :: "pool_row \<Rightarrow> jstring \<times> int \<times> int" where
  "key_of row = (pr_issuerPrefix row, pr_extensionDigit row, pr_fromSerial row)"

definition pool_ok :: "pool_row list \<Rightarrow> bool" where
  "pool_ok rows \<longleftrightarrow> distinct (map pr_rowid rows) \<and> distinct (map key_of rows)"

lemma next_rowid_fresh: "row \<in> set rows \<Longrightarrow> pr_rowid row < next_rowid rows"
proof -
  have "x \<in> set xs \<Longrightarrow> x \<le> foldr max xs (0 :: nat)" for x xs by (induction xs) auto
  then show "row \<in> set rows \<Longrightarrow> ?thesis" by (auto simp: next_rowid_def less_Suc_eq_le)
qed

lemma same_key_iff: "same_key r row \<longleftrightarrow> key_of row = (sr_issuerPrefix r, sr_extensionDigit r, sr_fromSerial r)"
  by (auto simp: same_key_def key_of_def)

lemma addRange_ok: "pool_ok rows \<Longrightarrow> pool_ok (addRange rows r)"
proof (cases "list_ex (same_key r) rows")
  case True
  assume "pool_ok rows"
  moreover have "map pr_rowid (addRange rows r) = map pr_rowid rows" "map key_of (addRange rows r) = map key_of rows"
    using True by (auto simp: addRange_def key_of_def)
  ultimately show ?thesis by (simp add: pool_ok_def)
next
  case False
  assume "pool_ok rows"
  then show ?thesis using False next_rowid_fresh [of _ rows]
    by (fastforce simp: addRange_def pool_ok_def list_ex_iff same_key_iff key_of_def)
qed

lemma dropRanges_ok: "pool_ok rows \<Longrightarrow> pool_ok (dropRanges rows p d fs)"
  by (auto simp: pool_ok_def dropRanges_def distinct_map_filter)

lemma advance_row_ok: "pool_ok rows \<Longrightarrow> pool_ok (advance_row i rows)"
proof -
  have "map pr_rowid (advance_row i rows) = map pr_rowid rows" "map key_of (advance_row i rows) = map key_of rows"
    by (auto simp: advance_row_def key_of_def)
  then show "pool_ok rows \<Longrightarrow> ?thesis" by (simp add: pool_ok_def)
qed

lemma lowest_open_Some:
  "lowest_open p d rows = Some row \<Longrightarrow> row \<in> set rows \<and> has_room p d row
     \<and> (\<forall>other \<in> set rows. has_room p d other \<longrightarrow> pr_fromSerial row \<le> pr_fromSerial other)"
proof (induction rows arbitrary: row)
  case (Cons a rows)
  show ?case
  proof (cases "lowest_open p d rows")
    case None
    have "\<not> has_room p d other" if "other \<in> set rows" for other
      using None that
    proof (induction rows)
      case (Cons b rows)
      then show ?case by (auto split: option.splits if_splits)
    qed simp
    then show ?thesis using Cons.prems None by (auto split: if_splits)
  next
    case (Some best)
    then show ?thesis using Cons.IH [OF Some] Cons.prems by (auto split: if_splits)
  qed
qed simp

lemma lowest_open_None: "lowest_open p d rows = None \<longleftrightarrow> (\<forall>row \<in> set rows. \<not> has_room p d row)"
  by (induction rows) (auto split: option.splits)

section \<open>Histories of a pool\<close>

text \<open>
  A block of serials as the server cuts it. Whatever a device is told over time comes from one
  set \<open>G\<close> of blocks; \<open>range_ok\<close> is what the device checks of an incoming block
  (\<open>box-serial-top-up.ts\<close>).
\<close>

type_synonym block = "jstring \<times> int \<times> int \<times> int"

definition block_of :: "server_range \<Rightarrow> block" where
  "block_of r = (sr_issuerPrefix r, sr_extensionDigit r, sr_fromSerial r, sr_toSerial r)"

definition row_block :: "pool_row \<Rightarrow> block" where
  "row_block row = (pr_issuerPrefix row, pr_extensionDigit row, pr_fromSerial row, pr_toSerial row)"

definition range_ok :: "server_range \<Rightarrow> bool" where
  "range_ok r \<longleftrightarrow> 0 \<le> sr_fromSerial r \<and> sr_fromSerial r \<le> sr_toSerial r
     \<and> (case sr_consumedThroughSerial r of None \<Rightarrow> True
        | Some c \<Rightarrow> sr_fromSerial r - 1 \<le> c \<and> c \<le> sr_toSerial r)"

definition blocks_disjoint :: "block set \<Rightarrow> bool" where
  "blocks_disjoint G \<longleftrightarrow>
     (\<forall>p d f t f' t'. (p, d, f, t) \<in> G \<longrightarrow> (p, d, f', t') \<in> G \<longrightarrow>
        (f = f' \<and> t = t') \<or> t < f' \<or> t' < f)"

definition revoked :: "jstring \<Rightarrow> int \<Rightarrow> int list \<Rightarrow> block set" where
  "revoked p d fs = {(p', d', f, t). p' = p \<and> d' = d \<and> f \<in> set fs}"

text \<open>
  Every sequence of grants, replayed grants, revocations and burns. \<open>R\<close> collects the revoked
  blocks, which the server does not hand out again; \<open>out\<close> the serials burned so far.
\<close>

inductive pool_history :: "block set \<Rightarrow> pool_row list \<Rightarrow> block set \<Rightarrow> (jstring \<times> int \<times> int) list \<Rightarrow> bool"
  for G :: "block set" where
  start: "pool_history G [] {} []"
| grant: "pool_history G rows R out \<Longrightarrow> range_ok r \<Longrightarrow> block_of r \<in> G \<Longrightarrow> block_of r \<notin> R
    \<Longrightarrow> pool_history G (addRange rows r) R out"
| revoke: "pool_history G rows R out
    \<Longrightarrow> pool_history G (dropRanges rows p d fs) (R \<union> revoked p d fs) out"
| burn: "pool_history G rows R out \<Longrightarrow> burnSerial rows p d = (rows', Some s)
    \<Longrightarrow> pool_history G rows' R (out @ [(p, d, s)])"

definition in_block :: "jstring \<times> int \<times> int \<Rightarrow> block \<Rightarrow> bool" where
  "in_block = (\<lambda>(p, d, s) (p', d', f, t). p = p' \<and> d = d' \<and> f \<le> s \<and> s \<le> t)"

text \<open>
  The cursor of a row is above every serial of its block that was burned, and a burned serial
  belongs to a block that is still held or was revoked.
\<close>

definition pool_inv :: "block set \<Rightarrow> pool_row list \<Rightarrow> block set \<Rightarrow> (jstring \<times> int \<times> int) list \<Rightarrow> bool" where
  "pool_inv G rows R out \<longleftrightarrow> pool_ok rows \<and> distinct out
     \<and> (\<forall>row \<in> set rows. row_block row \<in> G \<and> pr_fromSerial row \<le> pr_nextSerial row
          \<and> (\<forall>x \<in> set out. in_block x (row_block row) \<longrightarrow> snd (snd x) < pr_nextSerial row))
     \<and> (\<forall>x \<in> set out. \<exists>b. b \<in> G \<and> in_block x b \<and> (b \<in> R \<or> b \<in> row_block ` set rows))"

lemma in_block_unique:
  "blocks_disjoint G \<Longrightarrow> b \<in> G \<Longrightarrow> c \<in> G \<Longrightarrow> in_block x b \<Longrightarrow> in_block x c \<Longrightarrow> b = c"
  by (cases b; cases c; cases x) (fastforce simp: blocks_disjoint_def in_block_def)

lemma same_from_same_block:
  assumes "blocks_disjoint G" "(p, d, f, t) \<in> G" "(p, d, f, t') \<in> G" "f \<le> t" "f \<le> t'"
  shows "t = t'"
  using assms unfolding blocks_disjoint_def by fastforce

lemma start_serial_ge: "range_ok r \<Longrightarrow> sr_fromSerial r \<le> start_serial r"
  by (auto simp: range_ok_def start_serial_def Let_def split: option.splits)

lemma grant_inv:
  assumes inv: "pool_inv G rows R out" and dj: "blocks_disjoint G"
    and r: "range_ok r" "block_of r \<in> G" "block_of r \<notin> R"
  shows "pool_inv G (addRange rows r) R out"
proof (cases "list_ex (same_key r) rows")
  case True
  have rb: "row_block ` set (addRange rows r) = row_block ` set rows"
  proof -
    have "map row_block (addRange rows r) = map row_block rows" using True by (simp add: addRange_def row_block_def)
    then show ?thesis by (metis set_map)
  qed
  have "row_block row' \<in> G \<and> pr_fromSerial row' \<le> pr_nextSerial row'
      \<and> (\<forall>x \<in> set out. in_block x (row_block row') \<longrightarrow> snd (snd x) < pr_nextSerial row')"
    if r': "row' \<in> set (addRange rows r)" for row'
  proof -
    obtain row where row: "row \<in> set rows" "row_block row' = row_block row" "pr_fromSerial row' = pr_fromSerial row"
        "pr_nextSerial row \<le> pr_nextSerial row'"
      using r' True by (force simp: addRange_def row_block_def)
    then show ?thesis using inv by (fastforce simp: pool_inv_def)
  qed
  then show ?thesis using inv rb addRange_ok [of rows r] by (auto simp: pool_inv_def)
next
  case False
  let ?new = "\<lparr>pr_rowid = next_rowid rows, pr_issuerPrefix = sr_issuerPrefix r,
     pr_extensionDigit = sr_extensionDigit r, pr_fromSerial = sr_fromSerial r,
     pr_toSerial = sr_toSerial r, pr_nextSerial = start_serial r\<rparr>"
  have add: "addRange rows r = rows @ [?new]" using False by (simp add: addRange_def)
  have nb: "row_block ?new = block_of r" by (simp add: row_block_def block_of_def)
  have "block_of r \<notin> row_block ` set rows"
    using False by (auto simp: list_ex_iff same_key_def row_block_def block_of_def)
  then have none: "\<not> in_block x (block_of r)" if "x \<in> set out" for x
    using inv that r dj in_block_unique by (metis pool_inv_def)
  have "row_block ` set rows \<subseteq> row_block ` set (rows @ [?new])" by auto
  then have "\<exists>b. b \<in> G \<and> in_block x b \<and> (b \<in> R \<or> b \<in> row_block ` set (rows @ [?new]))" if "x \<in> set out" for x
    using inv that unfolding pool_inv_def by (meson subsetD)
  moreover have "row_block row \<in> G \<and> pr_fromSerial row \<le> pr_nextSerial row
      \<and> (\<forall>x \<in> set out. in_block x (row_block row) \<longrightarrow> snd (snd x) < pr_nextSerial row)"
    if "row \<in> set (rows @ [?new])" for row
  proof (cases "row = ?new")
    case True
    then show ?thesis using none r start_serial_ge [OF r(1)] nb by simp
  next
    case False
    then show ?thesis using that inv unfolding pool_inv_def by simp
  qed
  moreover have "pool_ok (rows @ [?new])" "distinct out"
    using inv addRange_ok [of rows r] by (simp_all add: pool_inv_def add)
  ultimately show ?thesis unfolding add pool_inv_def by blast
qed

lemma revoke_inv:
  assumes "pool_inv G rows R out"
  shows "pool_inv G (dropRanges rows p d fs) (R \<union> revoked p d fs) out"
proof -
  have sub: "set (dropRanges rows p d fs) \<subseteq> set rows" by (auto simp: dropRanges_def)
  have keep: "b \<in> R \<union> revoked p d fs \<or> b \<in> row_block ` set (dropRanges rows p d fs)"
    if "b \<in> R \<or> b \<in> row_block ` set rows" for b
    using that by (auto simp: dropRanges_def row_block_def revoked_def)
  have "\<exists>b. b \<in> G \<and> in_block x b \<and> (b \<in> R \<union> revoked p d fs \<or> b \<in> row_block ` set (dropRanges rows p d fs))"
    if "x \<in> set out" for x
    using assms that keep unfolding pool_inv_def by meson
  moreover have "pool_ok (dropRanges rows p d fs)" using assms dropRanges_ok by (simp add: pool_inv_def)
  ultimately show ?thesis using assms sub unfolding pool_inv_def by (simp add: subset_iff)
qed

lemma burn_inv:
  assumes inv: "pool_inv G rows R out" and dj: "blocks_disjoint G" and b: "burnSerial rows p d = (rows', Some s)"
  shows "pool_inv G rows' R (out @ [(p, d, s)])"
proof -
  obtain row where row: "lowest_open p d rows = Some row" "s = pr_nextSerial row" "rows' = advance_row (pr_rowid row) rows"
    using b by (auto simp: burnSerial_def split: option.splits)
  have m: "row \<in> set rows" "has_room p d row" using lowest_open_Some [OF row(1)] by auto
  have g: "row_block row \<in> G" "pr_fromSerial row \<le> s" using inv m(1) by (auto simp: pool_inv_def row(2))
  have s: "in_block (p, d, s) (row_block row)"
    using m(2) g(2) by (auto simp: in_block_def row_block_def has_room_def row(2))
  have fresh: "(p, d, s) \<notin> set out" using inv m(1) s by (force simp: pool_inv_def row(2))
  have rb: "row_block ` set rows' = row_block ` set rows"
  proof -
    have "map row_block rows' = map row_block rows" by (simp add: row(3) advance_row_def row_block_def)
    then show ?thesis by (metis set_map)
  qed
  have rows: "row_block row' \<in> G \<and> pr_fromSerial row' \<le> pr_nextSerial row'
      \<and> (\<forall>x \<in> set (out @ [(p, d, s)]). in_block x (row_block row') \<longrightarrow> snd (snd x) < pr_nextSerial row')"
    if r': "row' \<in> set rows'" for row'
  proof -
    obtain old where old: "old \<in> set rows"
        "row' = (if pr_rowid old = pr_rowid row then old\<lparr>pr_nextSerial := pr_nextSerial old + 1\<rparr> else old)"
      using r' by (auto simp: row(3) advance_row_def)
    have o: "row_block row' = row_block old" "pr_fromSerial row' = pr_fromSerial old" "pr_nextSerial old \<le> pr_nextSerial row'"
      by (auto simp: old(2) row_block_def)
    have "s < pr_nextSerial row'" if "in_block (p, d, s) (row_block old)"
    proof -
      have "row_block old = row_block row" using in_block_unique [OF dj] that s g(1) inv old(1) by (auto simp: pool_inv_def)
      then have "key_of old = key_of row" by (auto simp: row_block_def key_of_def)
      then have "old = row" using inv old(1) m(1) by (auto simp: pool_inv_def pool_ok_def distinct_map inj_on_def)
      then show ?thesis using old(2) row(2) by simp
    qed
    then show ?thesis using inv old(1) o by (fastforce simp: pool_inv_def)
  qed
  have "\<exists>b. b \<in> G \<and> in_block x b \<and> (b \<in> R \<or> b \<in> row_block ` set rows')" if x: "x \<in> set (out @ [(p, d, s)])" for x
  proof (cases "x \<in> set out")
    case True
    then show ?thesis using inv rb unfolding pool_inv_def by simp
  next
    case False
    then have "x = (p, d, s)" using x by simp
    moreover have "row_block row \<in> row_block ` set rows'" using m(1) rb by simp
    ultimately show ?thesis using g(1) s by blast
  qed
  moreover have "pool_ok rows'" using inv advance_row_ok by (auto simp: pool_inv_def row(3))
  moreover have "distinct (out @ [(p, d, s)])" using inv fresh by (simp add: pool_inv_def)
  ultimately show ?thesis using rows unfolding pool_inv_def by blast
qed

lemma pool_history_inv: "pool_history G rows R out \<Longrightarrow> blocks_disjoint G \<Longrightarrow> pool_inv G rows R out"
proof (induction rule: pool_history.induct)
  case start
  then show ?case by (simp add: pool_inv_def pool_ok_def)
qed (simp_all add: grant_inv revoke_inv burn_inv)

section \<open>Lemmas: counting\<close>

lemma sum_list_one_row:
  fixes f :: "'a \<Rightarrow> int"
  assumes "distinct xs" "x \<in> set xs" "\<And>y. y \<in> set xs \<Longrightarrow> y \<noteq> x \<Longrightarrow> g y = f y" "g x = f x - 1"
  shows "sum_list (map g xs) = sum_list (map f xs) - 1"
  using assms
proof (induction xs)
  case (Cons y ys)
  show ?case
  proof (cases "y = x")
    case True
    then have "map g ys = map f ys" using Cons.prems by (auto intro!: map_cong)
    then have "sum_list (map g ys) = sum_list (map f ys)" by (rule arg_cong)
    then show ?thesis using True Cons.prems by simp
  next
    case False
    then show ?thesis using Cons by auto
  qed
qed simp

definition row_room :: "jstring \<Rightarrow> int \<Rightarrow> pool_row \<Rightarrow> int" where
  "row_room p d row = (if has_room p d row then pr_toSerial row - pr_nextSerial row + 1 else 0)"

lemma remaining_room: "remaining rows p d = sum_list (map (row_room p d) rows)"
  by (induction rows) (auto simp: remaining_def row_room_def)

lemma room_nonneg: "0 \<le> row_room p d row"
  by (simp add: row_room_def has_room_def)

lemma remaining_burn:
  assumes "pool_ok rows" "burnSerial rows p d = (rows', Some s)"
  shows "remaining rows' p d = remaining rows p d - 1"
proof -
  obtain row where row: "lowest_open p d rows = Some row" "rows' = advance_row (pr_rowid row) rows"
    using assms(2) by (auto simp: burnSerial_def split: option.splits)
  have m: "row \<in> set rows" "has_room p d row" using lowest_open_Some [OF row(1)] by auto
  let ?g = "\<lambda>x. row_room p d (if pr_rowid x = pr_rowid row then x\<lparr>pr_nextSerial := pr_nextSerial x + 1\<rparr> else x)"
  have inj: "y \<in> set rows \<Longrightarrow> pr_rowid y = pr_rowid row \<Longrightarrow> y = row" for y
    using assms(1) m(1) by (auto simp: pool_ok_def distinct_map inj_on_def)
  have "sum_list (map ?g rows) = sum_list (map (row_room p d) rows) - 1"
  proof (rule sum_list_one_row)
    show "distinct rows" using assms(1) by (auto simp: pool_ok_def distinct_map)
    show "row \<in> set rows" by (rule m(1))
    show "y \<noteq> row \<Longrightarrow> y \<in> set rows \<Longrightarrow> ?g y = row_room p d y" for y using inj by auto
    show "?g row = row_room p d row - 1" using m(2) by (auto simp: row_room_def has_room_def)
  qed
  then show ?thesis by (simp add: remaining_room row(2) advance_row_def comp_def)
qed

lemma remaining_dry: "burnSerial rows p d = (rows', None) \<longleftrightarrow> remaining rows p d = 0 \<and> rows' = rows"
proof -
  have "remaining rows p d = 0 \<longleftrightarrow> (\<forall>row \<in> set rows. \<not> has_room p d row)"
  proof -
    have "sum_list (map (row_room p d) rows) = 0 \<longleftrightarrow> (\<forall>x \<in> set (map (row_room p d) rows). x = 0)"
      using room_nonneg by (intro sum_list_nonneg_eq_0_iff) auto
    also have "\<dots> \<longleftrightarrow> (\<forall>row \<in> set rows. row_room p d row = 0)" by simp
    also have "\<dots> \<longleftrightarrow> (\<forall>row \<in> set rows. \<not> has_room p d row)" by (auto simp: row_room_def has_room_def)
    finally show ?thesis by (simp add: remaining_room)
  qed
  then show ?thesis by (auto simp: burnSerial_def lowest_open_None [symmetric] split: option.splits)
qed

section \<open>Properties\<close>

text \<open>C10: No serial is ever handed out twice: through any sequence of grants, repeated grants, revocations
  and burns, as long as the server cuts disjoint blocks and does not hand out a revoked one again,
  all burned serials are different and lie inside a block that was granted; and a repeated grant,
  whatever it says was consumed, never moves a cursor back.\<close>

theorem sscc_pool_never_reissues:
  assumes "pool_history G rows R out" "blocks_disjoint G"
  shows "distinct out \<and> (\<forall>x \<in> set out. \<exists>b \<in> G. in_block x b)
    \<and> (\<forall>row \<in> set rows. \<forall>r. \<exists>row' \<in> set (addRange rows r).
         pr_rowid row' = pr_rowid row \<and> row_block row' = row_block row \<and> pr_nextSerial row \<le> pr_nextSerial row')"
proof -
  have "pool_inv G rows R out" using pool_history_inv assms by blast
  moreover have "\<exists>row' \<in> set (addRange rows r). pr_rowid row' = pr_rowid row \<and> row_block row' = row_block row
      \<and> pr_nextSerial row \<le> pr_nextSerial row'" if "row \<in> set rows" for row r
  proof -
    let ?row = "if list_ex (same_key r) rows \<and> same_key r row
      then row\<lparr>pr_nextSerial := max (pr_nextSerial row) (start_serial r)\<rparr> else row"
    have "?row \<in> set (addRange rows r)" using that by (auto simp: addRange_def)
    then show ?thesis by (intro bexI [of _ ?row]) (auto simp: row_block_def)
  qed
  ultimately show ?thesis unfolding pool_inv_def by meson
qed

definition sample_range :: server_range where
  "sample_range = \<lparr>sr_issuerPrefix = lit ''460000000'', sr_extensionDigit = 0, sr_fromSerial = 0, sr_toSerial = 1,
     sr_consumedThroughSerial = None\<rparr>"

lemma sample_pool_history:
  "\<exists>rows. pool_history {block_of sample_range} rows {} [(lit ''460000000'', 0, 1)]"
proof -
  have g: "pool_history {block_of sample_range} (addRange [] sample_range) {} []"
    by (rule grant [OF start]) (auto simp: range_ok_def sample_range_def)
  have "burnSerial (addRange [] sample_range) (lit ''460000000'') 0
      = (advance_row 1 (addRange [] sample_range), Some 1)"
    by (simp add: burnSerial_def addRange_def has_room_def sample_range_def next_rowid_def start_serial_def)
  from burn [OF g this] show ?thesis by auto
qed

theorem sscc_pool_never_reissues_witness:
  "\<exists>rows. pool_history {block_of sample_range} rows {} [(lit ''460000000'', 0, 1)]
     \<and> in_block (lit ''460000000'', 0, 1) (block_of sample_range)"
proof -
  obtain rows where h: "pool_history {block_of sample_range} rows {} [(lit ''460000000'', 0, 1)]"
    using sample_pool_history by blast
  have "blocks_disjoint {block_of sample_range}" by (auto simp: blocks_disjoint_def block_of_def)
  then show ?thesis using sscc_pool_never_reissues [OF h] h by auto
qed

text \<open>The pool counts itself: as long as \<open>remaining\<close> is positive a burn succeeds and lowers it by exactly
  one, taking the lowest block that has one left; at zero a burn returns nothing and changes nothing.\<close>

theorem sscc_pool_count:
  assumes "pool_ok rows"
  shows "if remaining rows p d = 0 then burnSerial rows p d = (rows, None)
    else \<exists>rows' s. burnSerial rows p d = (rows', Some s) \<and> remaining rows' p d = remaining rows p d - 1
      \<and> pool_ok rows' \<and> 0 \<le> remaining rows' p d"
proof (cases "remaining rows p d = 0")
  case True
  then show ?thesis using remaining_dry [of rows p d rows] by simp
next
  case False
  then obtain rows' s where b: "burnSerial rows p d = (rows', Some s)"
    using remaining_dry by (cases "burnSerial rows p d"; cases "snd (burnSerial rows p d)") auto
  have "0 \<le> remaining rows' p d" unfolding remaining_room using room_nonneg by (intro sum_list_nonneg) auto
  moreover have "pool_ok rows'" using b assms advance_row_ok by (auto simp: burnSerial_def split: option.splits)
  ultimately show ?thesis using False b remaining_burn [OF assms b] by auto
qed

theorem sscc_pool_count_witness: "\<exists>rows' s. burnSerial (addRange [] sample_range) (lit ''460000000'') 0 = (rows', Some s)"
proof -
  have "pool_ok (addRange [] sample_range)" by (simp add: addRange_def pool_ok_def)
  moreover have "remaining (addRange [] sample_range) (lit ''460000000'') 0 = 1"
    by (simp add: addRange_def remaining_def has_room_def sample_range_def start_serial_def)
  ultimately show ?thesis using sscc_pool_count [of "addRange [] sample_range" "lit ''460000000''" 0] by auto
qed

end
