(* ===== verification/Station_Tables.thy ===== *)
theory Station_Tables
  imports Sscc_Pool
begin

text \<open>
  The tables of the station's SQLite database that scanning and aggregation use
  (\<open>packages/db/src/sqlite/migrations.ts\<close>, \<open>apps/station/src/lib/outbox.ts\<close>,
  \<open>box-exceptions-mirror.ts\<close>, and the exception queue of \<open>pallets.ts\<close>), and the queues among them.
  A table with \<open>AUTOINCREMENT\<close> keeps the last identifier it gave out and lists its rows in the
  order of their identifiers. One SQL statement is one function on the database, with the triggers
  it fires. Whether a write reaches the disk is up to the caller of these functions.
\<close>

section \<open>Rows\<close>

record 'r auto_table =
  at_seq :: nat
  at_rows :: "(nat \<times> 'r) list"

definition insert_auto :: "'r auto_table \<Rightarrow> 'r \<Rightarrow> 'r auto_table" where
  "insert_auto t r = \<lparr>at_seq = Suc (at_seq t), at_rows = at_rows t @ [(Suc (at_seq t), r)]\<rparr>"

record code_row =
  co_codeHash :: jstring
  co_shiftId :: jstring
  co_gtin14 :: jstring
  co_serial :: jstring
  co_scannedAt :: jstring
  co_boxId :: "jstring option"

record event_row =
  ev_shiftId :: jstring
  ev_terminalId :: "jstring option"
  ev_raw :: jstring
  ev_verdict :: jstring
  ev_scannedAt :: jstring
  ev_operatorId :: "jstring option"
  ev_codeHash :: "jstring option"
  ev_boxId :: "jstring option"

record outbox_row =
  ob_shiftId :: jstring
  ob_terminalId :: "jstring option"
  ob_raw :: jstring
  ob_verdict :: jstring
  ob_scannedAt :: jstring
  ob_codeHash :: "jstring option"
  ob_gtin14 :: "jstring option"
  ob_serial :: "jstring option"
  ob_boxId :: "jstring option"
  ob_operatorId :: "jstring option"

datatype exception_kind = Undo | Clear | Disassemble | Reprint

record exception_input =
  ex_kind :: exception_kind
  ex_boxId :: jstring
  ex_codeHash :: "jstring option"
  ex_targetScannedAt :: "jstring option"
  ex_shiftId :: jstring
  ex_terminalId :: "jstring option"
  ex_operatorId :: "jstring option"
  ex_reason :: "jstring option"
  ex_at :: jstring

datatype pallet_exception_kind = Pallet_disassemble | Pallet_reprint

record pallet_action =
  pa_palletId :: jstring
  pa_shiftId :: jstring
  pa_terminalId :: "jstring option"
  pa_operatorId :: "jstring option"
  pa_reason :: jstring
  pa_occurredAt :: jstring

datatype print_status = PS_legacy | PS_pending | PS_printed | PS_skipped

record box_row =
  bx_rowid :: nat
  bx_boxId :: jstring
  bx_shiftId :: jstring
  bx_terminalId :: "jstring option"
  bx_sscc :: "jstring option"
  bx_openedAt :: jstring
  bx_closedAt :: "jstring option"
  bx_closedBy :: "jstring option"
  bx_ackedAt :: "jstring option"
  bx_printVerifiedAt :: "jstring option"
  bx_printSkippedAt :: "jstring option"
  bx_disassembledAt :: "jstring option"
  bx_palletId :: "jstring option"
  bx_printState :: print_status
  bx_printErrorCode :: "jstring option"
  bx_lastCheckedRevision :: nat

record pallet_row =
  pl_rowid :: nat
  pl_palletId :: jstring
  pl_shiftId :: jstring
  pl_terminalId :: "jstring option"
  pl_sscc :: "jstring option"
  pl_openedAt :: jstring
  pl_closedAt :: "jstring option"
  pl_closedBy :: "jstring option"
  pl_ackedAt :: "jstring option"
  pl_printVerifiedAt :: "jstring option"
  pl_printSkippedAt :: "jstring option"
  pl_disassembledAt :: "jstring option"
  pl_printState :: print_status
  pl_printErrorCode :: "jstring option"

record shift_row =
  sh_id :: jstring
  sh_mode :: jstring
  sh_issuerPrefix :: "jstring option"
  sh_palletBoxCapacity :: "nat option"

record station_db =
  db_codes :: "code_row list"
  db_events :: "event_row auto_table"
  db_outbox :: "outbox_row auto_table"
  db_boxExceptions :: "exception_input auto_table"
  db_boxes :: "box_row list"
  db_pallets :: "pallet_row list"
  db_palletExceptions :: "(pallet_exception_kind \<times> pallet_action) auto_table"
  db_pool :: "pool_row list"
  db_shifts :: "shift_row list"
  db_grantInstalled :: bool

section \<open>The outbox of scans\<close>

text \<open>One queued scan as the server's endpoint expects it: the code only when all three parts are stored.\<close>

record outbox_item =
  oi_id :: nat
  oi_shiftId :: jstring
  oi_terminalId :: "jstring option"
  oi_raw :: jstring
  oi_verdict :: jstring
  oi_scannedAt :: jstring
  oi_code :: "(jstring \<times> jstring \<times> jstring) option"
  oi_boxId :: "jstring option"
  oi_operatorId :: "jstring option"

definition outbox_item_of :: "nat \<times> outbox_row \<Rightarrow> outbox_item" where
  "outbox_item_of = (\<lambda>(i, r). \<lparr>oi_id = i, oi_shiftId = ob_shiftId r, oi_terminalId = ob_terminalId r,
     oi_raw = ob_raw r, oi_verdict = ob_verdict r, oi_scannedAt = ob_scannedAt r,
     oi_code = (case (ob_codeHash r, ob_gtin14 r, ob_serial r) of
                  (Some h, Some g, Some s) \<Rightarrow> Some (h, g, s) | _ \<Rightarrow> None),
     oi_boxId = ob_boxId r, oi_operatorId = ob_operatorId r\<rparr>)"

text \<open>\<open>WHERE id <= ? ORDER BY id LIMIT ?\<close>, the first condition only with a ceiling.\<close>

definition select_prefix :: "(nat \<times> 'r) list \<Rightarrow> nat \<Rightarrow> nat option \<Rightarrow> (nat \<times> 'r) list" where
  "select_prefix rows limit ceilingId =
     take limit (case ceilingId of None \<Rightarrow> rows | Some c \<Rightarrow> filter (\<lambda>r. fst r \<le> c) rows)"

definition delete_through :: "'r auto_table \<Rightarrow> nat \<Rightarrow> 'r auto_table" where
  "delete_through t i = t\<lparr>at_rows := filter (\<lambda>r. \<not> fst r \<le> i) (at_rows t)\<rparr>"

definition readBatch :: "station_db \<Rightarrow> nat \<Rightarrow> nat option \<Rightarrow> outbox_item list" where
  "readBatch db limit ceilingId = map outbox_item_of (select_prefix (at_rows (db_outbox db)) limit ceilingId)"

definition ackThrough :: "station_db \<Rightarrow> nat \<Rightarrow> station_db" where
  "ackThrough db i = db\<lparr>db_outbox := delete_through (db_outbox db) i\<rparr>"

definition outboxDepth :: "station_db \<Rightarrow> nat" where
  "outboxDepth db = length (at_rows (db_outbox db))"

definition oldestQueuedAt :: "station_db \<Rightarrow> jstring option" where
  "oldestQueuedAt db = (case at_rows (db_outbox db) of [] \<Rightarrow> None | r # _ \<Rightarrow> Some (ob_scannedAt (snd r)))"

section \<open>Exceptions\<close>

text \<open>The table's \<open>CHECK\<close> constraint.\<close>

definition exception_ok :: "exception_input \<Rightarrow> bool" where
  "exception_ok e \<longleftrightarrow> (case ex_kind e of
     Undo \<Rightarrow> ex_codeHash e \<noteq> None \<and> ex_targetScannedAt e \<noteq> None \<and> ex_reason e = None
   | Clear \<Rightarrow> ex_codeHash e = None \<and> ex_targetScannedAt e = None \<and> ex_reason e = None
   | _ \<Rightarrow> ex_codeHash e = None \<and> ex_targetScannedAt e = None \<and> ex_reason e \<noteq> None)"

text \<open>The three triggers that pair a queued exception with its local effect.\<close>

definition exception_triggers :: "station_db \<Rightarrow> exception_input \<Rightarrow> station_db" where
  "exception_triggers db e = (case ex_kind e of
     Undo \<Rightarrow> db\<lparr>db_codes := filter (\<lambda>c. \<not> (Some (co_codeHash c) = ex_codeHash e
         \<and> co_boxId c = Some (ex_boxId e) \<and> Some (co_scannedAt c) = ex_targetScannedAt e)) (db_codes db)\<rparr>
   | Clear \<Rightarrow> db\<lparr>db_codes := filter (\<lambda>c. co_boxId c \<noteq> Some (ex_boxId e)) (db_codes db)\<rparr>
   | Disassemble \<Rightarrow> db\<lparr>db_codes := filter (\<lambda>c. co_boxId c \<noteq> Some (ex_boxId e)) (db_codes db),
        db_boxes := map (\<lambda>b. if bx_boxId b = ex_boxId e then b\<lparr>bx_disassembledAt := Some (ex_at e)\<rparr> else b)
          (db_boxes db)\<rparr>
   | Reprint \<Rightarrow> db)"

definition queue_exception :: "station_db \<Rightarrow> exception_input \<Rightarrow> station_db" where
  "queue_exception db e =
     exception_triggers (db\<lparr>db_boxExceptions := insert_auto (db_boxExceptions db) e\<rparr>) e"

definition insertException :: "station_db \<Rightarrow> exception_input \<Rightarrow> station_db option" where
  "insertException db e = (if \<not> exception_ok e then None else Some (queue_exception db e))"

definition readExceptions :: "station_db \<Rightarrow> nat \<Rightarrow> nat option \<Rightarrow> (nat \<times> exception_input) list" where
  "readExceptions db limit ceilingId = select_prefix (at_rows (db_boxExceptions db)) limit ceilingId"

definition ackExceptionsThrough :: "station_db \<Rightarrow> nat \<Rightarrow> station_db" where
  "ackExceptionsThrough db i = db\<lparr>db_boxExceptions := delete_through (db_boxExceptions db) i\<rparr>"

definition exceptionDepth :: "station_db \<Rightarrow> nat" where
  "exceptionDepth db = length (at_rows (db_boxExceptions db))"

definition oldestExceptionAt :: "station_db \<Rightarrow> jstring option" where
  "oldestExceptionAt db = (case at_rows (db_boxExceptions db) of [] \<Rightarrow> None | r # _ \<Rightarrow> Some (ex_at (snd r)))"

definition MAX_REASON_LENGTH :: nat where
  "MAX_REASON_LENGTH = 500"

definition insertPalletException ::
    "station_db \<Rightarrow> pallet_exception_kind \<Rightarrow> pallet_action \<Rightarrow> station_db" where
  "insertPalletException db k input =
     (let queued = db\<lparr>db_palletExceptions := insert_auto (db_palletExceptions db)
            (k, input\<lparr>pa_reason := take MAX_REASON_LENGTH (pa_reason input)\<rparr>)\<rparr>
      in if k = Pallet_disassemble
         then queued\<lparr>db_pallets := map (\<lambda>p. if pl_palletId p = pa_palletId input
                then p\<lparr>pl_disassembledAt := Some (pa_occurredAt input)\<rparr> else p) (db_pallets queued)\<rparr>
         else queued)"

definition readPalletExceptions ::
    "station_db \<Rightarrow> nat \<Rightarrow> nat option \<Rightarrow> (nat \<times> pallet_exception_kind \<times> pallet_action) list" where
  "readPalletExceptions db limit ceilingId = select_prefix (at_rows (db_palletExceptions db)) limit ceilingId"

definition ackPalletExceptionsThrough :: "station_db \<Rightarrow> nat \<Rightarrow> station_db" where
  "ackPalletExceptionsThrough db i = db\<lparr>db_palletExceptions := delete_through (db_palletExceptions db) i\<rparr>"

definition palletExceptionDepth :: "station_db \<Rightarrow> nat" where
  "palletExceptionDepth db = length (at_rows (db_palletExceptions db))"

definition oldestPalletExceptionAt :: "station_db \<Rightarrow> jstring option" where
  "oldestPalletExceptionAt db =
     (case at_rows (db_palletExceptions db) of [] \<Rightarrow> None | r # _ \<Rightarrow> Some (pa_occurredAt (snd (snd r))))"

section \<open>Interface: a queue drained by acknowledgement\<close>

text \<open>
  The drain reads a prefix of a queue, sends it, and deletes through its last identifier once the
  server has confirmed it. While a batch awaits confirmation its last identifier is the ceiling of
  every further read. A channel is such a queue with the ceiling, and what was acknowledged.
\<close>

datatype 'p channel_op = Enqueue 'p | Attempt | Confirm

record ('t, 'i) channel =
  ch_store :: 't
  ch_ceiling :: "nat option"
  ch_acked :: "'i list"

definition channel_step ::
    "('t \<Rightarrow> 'p \<Rightarrow> 't) \<Rightarrow> ('t \<Rightarrow> nat \<Rightarrow> nat option \<Rightarrow> 'i list) \<Rightarrow> ('i \<Rightarrow> nat) \<Rightarrow> ('t \<Rightarrow> nat \<Rightarrow> 't) \<Rightarrow> nat
       \<Rightarrow> ('t, 'i) channel \<Rightarrow> 'p channel_op \<Rightarrow> ('t, 'i) channel" where
  "channel_step push rd item_id ack limit ch op = (case op of
     Enqueue p \<Rightarrow> ch\<lparr>ch_store := push (ch_store ch) p\<rparr>
   | Attempt \<Rightarrow>
       (let batch = rd (ch_store ch) limit (ch_ceiling ch)
        in if batch = [] then ch
           else ch\<lparr>ch_ceiling := Some (item_id (last batch))\<rparr>)
   | Confirm \<Rightarrow>
       (let batch = rd (ch_store ch) limit (ch_ceiling ch)
        in if batch = [] then ch
           else \<lparr>ch_store = ack (ch_store ch) (item_id (last batch)), ch_ceiling = None,
                 ch_acked = ch_acked ch @ batch\<rparr>))"

fun enqueued :: "'p channel_op list \<Rightarrow> 'p list" where
  "enqueued [] = []"
| "enqueued (Enqueue p # ops) = p # enqueued ops"
| "enqueued (_ # ops) = enqueued ops"

lemma select_prefix_split:
  assumes "sorted_wrt (<) (map fst rows)" "select_prefix rows n c \<noteq> []"
  defines "b \<equiv> select_prefix rows n c"
  shows "rows = b @ filter (\<lambda>r. \<not> fst r \<le> fst (last b)) rows"
    and "filter (\<lambda>r. fst r \<le> fst (last b)) rows = b"
proof -
  have pre: "\<exists>k. select_prefix rows n c = take k rows"
  proof (cases c)
    case (Some x)
    have "\<exists>k. filter (\<lambda>r. fst r \<le> x) rows = take k rows"
      using assms(1)
    proof (induction rows)
      case (Cons r rows)
      show ?case
      proof (cases "fst r \<le> x")
        case True
        then obtain k where "filter (\<lambda>r. fst r \<le> x) rows = take k rows" using Cons by auto
        then show ?thesis using True by (intro exI [of _ "Suc k"]) simp
      next
        case False
        then have "filter (\<lambda>r. fst r \<le> x) (r # rows) = take 0 (r # rows)"
          using Cons.prems by (auto simp: filter_empty_conv)
        then show ?thesis by blast
      qed
    qed simp
    then show ?thesis using Some by (auto simp: select_prefix_def)
  qed (auto simp: select_prefix_def)
  then obtain k where k: "b = take k rows" unfolding b_def by blast
  have ne: "b \<noteq> []" using assms(2) by (simp add: b_def)
  have srt: "sorted_wrt (<) (map fst (b @ drop k rows))" using assms(1) k by simp
  have lo: "fst r \<le> fst (last b)" if "r \<in> set b" for r
  proof -
    have "b = butlast b @ [last b]" using ne by simp
    then have "sorted_wrt (<) (map fst (butlast b @ [last b]))" using srt by (metis map_append sorted_wrt_append)
    moreover have "r \<in> set (butlast b) \<or> r = last b" using that ne by (metis append_butlast_last_id in_set_conv_decomp_last
          rotate1.simps(2) set_ConsD set_rotate1)
    ultimately show ?thesis by (fastforce simp: sorted_wrt_append)
  qed
  have hi: "fst (last b) < fst r" if "r \<in> set (drop k rows)" for r
    using srt that ne by (auto simp: sorted_wrt_append)
  have dec: "rows = b @ drop k rows" using k by simp
  have "filter (\<lambda>r. fst r \<le> fst (last b)) b = b" using lo by simp
  moreover have "filter (\<lambda>r. fst r \<le> fst (last b)) (drop k rows) = []" using hi by (fastforce simp: filter_empty_conv)
  ultimately show "filter (\<lambda>r. fst r \<le> fst (last b)) rows = b" by (metis dec append_Nil2 filter_append)
  have "filter (\<lambda>r. \<not> fst r \<le> fst (last b)) b = []" using lo by (simp add: filter_empty_conv)
  moreover have "filter (\<lambda>r. \<not> fst r \<le> fst (last b)) (drop k rows) = drop k rows"
    using hi by (fastforce simp: filter_id_conv)
  ultimately show "rows = b @ filter (\<lambda>r. \<not> fst r \<le> fst (last b)) rows"
    by (metis dec append_Nil filter_append)
qed

locale ack_queue =
  fixes rows :: "'t \<Rightarrow> (nat \<times> 'r) list"
    and wf :: "'t \<Rightarrow> bool"
    and push :: "'t \<Rightarrow> 'p \<Rightarrow> 't"
    and payload :: "'p \<Rightarrow> 'r"
    and rd :: "'t \<Rightarrow> nat \<Rightarrow> nat option \<Rightarrow> 'i list"
    and item :: "nat \<times> 'r \<Rightarrow> 'i"
    and item_id :: "'i \<Rightarrow> nat"
    and ack :: "'t \<Rightarrow> nat \<Rightarrow> 't"
  assumes wf_sorted: "wf t \<Longrightarrow> sorted_wrt (<) (map fst (rows t))"
    and push_wf: "wf t \<Longrightarrow> wf (push t p)"
    and push_rows: "wf t \<Longrightarrow> \<exists>i. rows (push t p) = rows t @ [(i, payload p)] \<and> (\<forall>r \<in> set (rows t). fst r < i)"
    and read_rows: "rd t n c = map item (select_prefix (rows t) n c)"
    and item_id: "item_id (item r) = fst r"
    and ack_wf: "wf t \<Longrightarrow> wf (ack t i)"
    and ack_rows: "rows (ack t i) = filter (\<lambda>r. \<not> fst r \<le> i) (rows t)"
begin

lemma pushes_wf: "wf t \<Longrightarrow> wf (foldl push t ps)"
  by (induction ps arbitrary: t) (auto simp: push_wf)

lemma pushes_rows:
  "wf t \<Longrightarrow> \<exists>new. rows (foldl push t ps) = rows t @ new \<and> map snd new = map payload ps
     \<and> (\<forall>r \<in> set (rows t). \<forall>q \<in> set new. fst r < fst q)"
proof (induction ps arbitrary: t)
  case (Cons p ps)
  obtain i where i: "rows (push t p) = rows t @ [(i, payload p)]" "\<forall>r \<in> set (rows t). fst r < i"
    using push_rows Cons.prems by blast
  obtain new where "rows (foldl push (push t p) ps) = rows (push t p) @ new" "map snd new = map payload ps"
      "\<forall>r \<in> set (rows (push t p)). \<forall>q \<in> set new. fst r < fst q"
    using Cons.IH [OF push_wf [OF Cons.prems]] by blast
  then show ?case using i by (intro exI [of _ "(i, payload p) # new"]) auto
qed simp

lemma last_item: "b \<noteq> [] \<Longrightarrow> item_id (last (map item b)) = fst (last b)"
  by (simp add: last_map item_id)

lemma retry_stable:
  assumes "wf t" "rd t n None \<noteq> []"
  shows "rd (foldl push t ps) n (Some (item_id (last (rd t n None)))) = rd t n None"
proof -
  let ?b = "select_prefix (rows t) n None"
  have ne: "?b \<noteq> []" using assms(2) by (simp add: read_rows)
  obtain new where new: "rows (foldl push t ps) = rows t @ new" "\<forall>r \<in> set (rows t). \<forall>q \<in> set new. fst r < fst q"
    using pushes_rows [OF assms(1)] by blast
  have "set ?b \<subseteq> set (rows t)" by (simp add: select_prefix_def set_take_subset)
  then have "last ?b \<in> set (rows t)" using last_in_set [OF ne] by blast
  then have "filter (\<lambda>r. fst r \<le> fst (last ?b)) new = []" using new(2) by (auto simp: filter_empty_conv not_le)
  then have "filter (\<lambda>r. fst r \<le> fst (last ?b)) (rows t @ new) = ?b"
    using select_prefix_split(2) [OF wf_sorted [OF assms(1)] ne] by simp
  moreover have "take n ?b = ?b" by (simp add: select_prefix_def)
  ultimately have "select_prefix (rows t @ new) n (Some (fst (last ?b))) = ?b"
    by (metis select_prefix_def option.simps(5))
  then show ?thesis using last_item [OF ne] new(1) by (simp add: read_rows)
qed

lemma ack_split:
  assumes "wf t" "rd t n c \<noteq> []"
  shows "map item (rows t) = rd t n c @ map item (rows (ack t (item_id (last (rd t n c)))))"
proof -
  let ?b = "select_prefix (rows t) n c"
  have ne: "?b \<noteq> []" using assms(2) by (simp add: read_rows)
  then show ?thesis
    using select_prefix_split(1) [OF wf_sorted [OF assms(1)] ne] last_item [OF ne]
    by (simp add: read_rows ack_rows) (metis map_append)
qed

text \<open>Nothing is lost, repeated or reordered between the producer and the acknowledged batches.\<close>

lemma channel_conserves:
  assumes "wf (ch_store ch)"
  shows "\<exists>new. wf (ch_store (foldl (channel_step push rd item_id ack n) ch ops)) \<and> map snd new = map payload (enqueued ops)
    \<and> ch_acked (foldl (channel_step push rd item_id ack n) ch ops)
        @ map item (rows (ch_store (foldl (channel_step push rd item_id ack n) ch ops)))
      = ch_acked ch @ map item (rows (ch_store ch)) @ map item new"
  using assms
proof (induction ops arbitrary: ch)
  case Nil
  then show ?case by simp
next
  case (Cons op ops)
  let ?ch = "channel_step push rd item_id ack n ch op"
  have "wf (ch_store ?ch) \<and> (\<exists>new. map snd new = map payload (enqueued [op]) \<and>
      ch_acked ?ch @ map item (rows (ch_store ?ch)) = ch_acked ch @ map item (rows (ch_store ch)) @ map item new)"
  proof (cases op)
    case (Enqueue p)
    obtain i where "rows (push (ch_store ch) p) = rows (ch_store ch) @ [(i, payload p)]"
      using push_rows [OF Cons.prems] by blast
    then show ?thesis using Enqueue push_wf [OF Cons.prems]
      by (intro conjI exI [of _ "[(i, payload p)]"]) (simp_all add: channel_step_def)
  next
    case Attempt
    then show ?thesis using Cons.prems by (simp add: channel_step_def Let_def)
  next
    case Confirm
    then show ?thesis using Cons.prems ack_split [OF Cons.prems, of n "ch_ceiling ch"] ack_wf
      by (simp add: channel_step_def Let_def)
  qed
  then obtain new1 where w: "wf (ch_store ?ch)" and n1: "map snd new1 = map payload (enqueued [op])"
      "ch_acked ?ch @ map item (rows (ch_store ?ch)) = ch_acked ch @ map item (rows (ch_store ch)) @ map item new1"
    by blast
  have e: "enqueued (op # ops) = enqueued [op] @ enqueued ops" by (cases op) auto
  obtain new2 where "wf (ch_store (foldl (channel_step push rd item_id ack n) ?ch ops))"
      "map snd new2 = map payload (enqueued ops)"
      "ch_acked (foldl (channel_step push rd item_id ack n) ?ch ops)
        @ map item (rows (ch_store (foldl (channel_step push rd item_id ack n) ?ch ops)))
      = ch_acked ?ch @ map item (rows (ch_store ?ch)) @ map item new2"
    using Cons.IH [OF w] by blast
  then show ?case using n1 e by (intro exI [of _ "new1 @ new2"]) (simp add: append_assoc [symmetric] del: append_assoc)
qed

end

section \<open>The three queues\<close>

definition table_wf :: "'r auto_table \<Rightarrow> bool" where
  "table_wf t \<longleftrightarrow> sorted_wrt (<) (map fst (at_rows t)) \<and> (\<forall>r \<in> set (at_rows t). fst r \<le> at_seq t)"

lemma table_wf_empty: "table_wf \<lparr>at_seq = n, at_rows = []\<rparr>"
  by (simp add: table_wf_def)

lemma insert_auto_wf: "table_wf t \<Longrightarrow> table_wf (insert_auto t r)"
  by (fastforce simp: table_wf_def insert_auto_def sorted_wrt_append)

lemma insert_auto_rows:
  "table_wf t \<Longrightarrow> \<exists>i. at_rows (insert_auto t r) = at_rows t @ [(i, r)] \<and> (\<forall>q \<in> set (at_rows t). fst q < i)"
  by (fastforce simp: table_wf_def insert_auto_def)

lemma delete_through_wf: "table_wf t \<Longrightarrow> table_wf (delete_through t i)"
  by (auto simp: table_wf_def delete_through_def sorted_wrt_map intro: sorted_wrt_filter)

text \<open>
  The insert into the outbox, with the trigger that writes an accepted code's identity onto the
  latest matching journal entry that has none.
\<close>

definition journal_match :: "outbox_row \<Rightarrow> event_row \<Rightarrow> bool" where
  "journal_match r e \<longleftrightarrow> ev_shiftId e = ob_shiftId r \<and> ev_raw e = ob_raw r \<and> ev_scannedAt e = ob_scannedAt r
     \<and> ev_codeHash e = None"

definition annotate_event :: "event_row auto_table \<Rightarrow> outbox_row \<Rightarrow> event_row auto_table" where
  "annotate_event t r =
     (if ob_codeHash r = None \<or> ob_boxId r = None then t
      else case find (\<lambda>q. journal_match r (snd q)) (rev (at_rows t)) of
        None \<Rightarrow> t
      | Some (i, _) \<Rightarrow> t\<lparr>at_rows := map (\<lambda>(j, e). if j = i
            then (j, e\<lparr>ev_codeHash := ob_codeHash r, ev_boxId := ob_boxId r\<rparr>) else (j, e)) (at_rows t)\<rparr>)"

definition enqueue_scan :: "station_db \<Rightarrow> outbox_row \<Rightarrow> station_db" where
  "enqueue_scan db r = db\<lparr>db_outbox := insert_auto (db_outbox db) r, db_events := annotate_event (db_events db) r\<rparr>"

lemma table_wf_sorted: "table_wf t \<Longrightarrow> sorted_wrt (<) (map fst (at_rows t))"
  by (simp add: table_wf_def)

lemma delete_through_rows: "at_rows (delete_through t i) = filter (\<lambda>r. \<not> fst r \<le> i) (at_rows t)"
  by (simp add: delete_through_def)

lemma triggers_keep_queue: "db_boxExceptions (exception_triggers db e) = db_boxExceptions db"
  by (cases "ex_kind e") (simp_all add: exception_triggers_def)

lemma pallet_exception_queue:
  "db_palletExceptions (insertPalletException db k input) =
     insert_auto (db_palletExceptions db) (k, input\<lparr>pa_reason := take MAX_REASON_LENGTH (pa_reason input)\<rparr>)"
  by (simp add: insertPalletException_def Let_def)

lemmas queue_laws = table_wf_sorted insert_auto_wf insert_auto_rows delete_through_wf delete_through_rows

interpretation outbox: ack_queue "\<lambda>db. at_rows (db_outbox db)" "\<lambda>db. table_wf (db_outbox db)" enqueue_scan "\<lambda>r. r"
    readBatch outbox_item_of oi_id ackThrough
  by unfold_locales
    (simp_all add: queue_laws enqueue_scan_def ackThrough_def readBatch_def outbox_item_of_def split_beta)

interpretation box_exceptions: ack_queue "\<lambda>db. at_rows (db_boxExceptions db)" "\<lambda>db. table_wf (db_boxExceptions db)"
    queue_exception "\<lambda>e. e" readExceptions "\<lambda>r. r" fst ackExceptionsThrough
  by unfold_locales
    (simp_all add: queue_laws queue_exception_def triggers_keep_queue readExceptions_def ackExceptionsThrough_def)

interpretation pallet_exceptions: ack_queue "\<lambda>db. at_rows (db_palletExceptions db)"
    "\<lambda>db. table_wf (db_palletExceptions db)" "\<lambda>db (k, input). insertPalletException db k input"
    "\<lambda>(k, input). (k, input\<lparr>pa_reason := take MAX_REASON_LENGTH (pa_reason input)\<rparr>)"
    readPalletExceptions "\<lambda>r. r" fst ackPalletExceptionsThrough
  by unfold_locales
    (auto simp: queue_laws pallet_exception_queue readPalletExceptions_def ackPalletExceptionsThrough_def split: prod.splits)

section \<open>Properties\<close>

definition empty_table :: "'r auto_table" where
  "empty_table = \<lparr>at_seq = 0, at_rows = []\<rparr>"

definition empty_db :: station_db where
  "empty_db = \<lparr>db_codes = [], db_events = empty_table, db_outbox = empty_table, db_boxExceptions = empty_table,
     db_boxes = [], db_pallets = [], db_palletExceptions = empty_table, db_pool = [], db_shifts = [], db_grantInstalled = False\<rparr>"

text \<open>A retry sends exactly what it sent before: once a batch of scans was read, reading again below its
  ceiling returns the same batch, whatever was scanned in between, for the queue of scans as for the
  two queues of exceptions; and acknowledging it deletes that batch and nothing else.\<close>

theorem outbox_retry_stable:
  assumes "table_wf (db_outbox db)" "readBatch db n None \<noteq> []"
    and "table_wf (db_boxExceptions db)" "readExceptions db n None \<noteq> []"
    and "table_wf (db_palletExceptions db)" "readPalletExceptions db n None \<noteq> []"
  shows "readBatch (foldl enqueue_scan db rs) n (Some (oi_id (last (readBatch db n None)))) = readBatch db n None
    \<and> map outbox_item_of (at_rows (db_outbox db)) = readBatch db n None
      @ map outbox_item_of (at_rows (db_outbox (ackThrough db (oi_id (last (readBatch db n None))))))
    \<and> readExceptions (foldl queue_exception db es) n (Some (fst (last (readExceptions db n None))))
      = readExceptions db n None
    \<and> readPalletExceptions (foldl (\<lambda>db (k, input). insertPalletException db k input) db ps) n
        (Some (fst (last (readPalletExceptions db n None)))) = readPalletExceptions db n None"
  using outbox.retry_stable [OF assms(1,2)] outbox.ack_split [OF assms(1,2)]
    box_exceptions.retry_stable [OF assms(3,4)] pallet_exceptions.retry_stable [OF assms(5,6)]
  by simp

definition sample_queued :: station_db where
  "sample_queued =
     (let e = \<lparr>ex_kind = Clear, ex_boxId = lit ''b'', ex_codeHash = None, ex_targetScannedAt = None, ex_shiftId = lit ''s'',
          ex_terminalId = None, ex_operatorId = None, ex_reason = None, ex_at = lit ''t''\<rparr>;
        p = \<lparr>pa_palletId = lit ''p'', pa_shiftId = lit ''s'', pa_terminalId = None, pa_operatorId = None,
          pa_reason = lit ''r'', pa_occurredAt = lit ''t''\<rparr>;
        o1 = \<lparr>ob_shiftId = lit ''s'', ob_terminalId = None, ob_raw = lit ''c'', ob_verdict = lit ''invalid'',
          ob_scannedAt = lit ''t'', ob_codeHash = None, ob_gtin14 = None, ob_serial = None, ob_boxId = None,
          ob_operatorId = None\<rparr>
      in insertPalletException (queue_exception (enqueue_scan empty_db o1) e) Pallet_reprint p)"

theorem outbox_retry_stable_witness:
  "readBatch (enqueue_scan sample_queued (snd (hd (at_rows (db_outbox sample_queued))))) 5 (Some 1)
     = readBatch sample_queued 5 None"
proof -
  let ?o = "snd (hd (at_rows (db_outbox sample_queued)))"
  have "table_wf (db_outbox sample_queued)" "readBatch sample_queued 5 None \<noteq> []"
    "table_wf (db_boxExceptions sample_queued)" "readExceptions sample_queued 5 None \<noteq> []"
    "table_wf (db_palletExceptions sample_queued)" "readPalletExceptions sample_queued 5 None \<noteq> []"
    "oi_id (last (readBatch sample_queued 5 None)) = 1"
    by (simp_all add: sample_queued_def empty_db_def empty_table_def enqueue_scan_def queue_exception_def
        exception_triggers_def insertPalletException_def insert_auto_def table_wf_def readBatch_def readExceptions_def Let_def annotate_event_def
        readPalletExceptions_def select_prefix_def outbox_item_of_def)
  then show ?thesis using outbox_retry_stable [of sample_queued 5 "[?o]" "[]" "[]"] by simp
qed

text \<open>C25: The drain loses, repeats and reorders nothing: for any interleaving of new scans, failed attempts and
  confirmed batches (the one read below the ceiling of the attempt), starting from an empty outbox, the acknowledged scans followed by those still
  queued are exactly the scans that were queued, in order.\<close>

theorem outbox_conserves_scans:
  "\<exists>ids. let ch = foldl (channel_step enqueue_scan readBatch oi_id ackThrough n)
        \<lparr>ch_store = empty_db, ch_ceiling = None, ch_acked = []\<rparr> ops
      in ch_acked ch @ map outbox_item_of (at_rows (db_outbox (ch_store ch)))
         = map outbox_item_of (zip ids (enqueued ops)) \<and> length ids = length (enqueued ops)"
proof -
  let ?ch = "foldl (channel_step enqueue_scan readBatch oi_id ackThrough n)
      \<lparr>ch_store = empty_db, ch_ceiling = None, ch_acked = []\<rparr> ops"
  have "table_wf (db_outbox empty_db)" by (simp add: empty_db_def empty_table_def table_wf_def)
  then obtain new where new: "map snd new = map (\<lambda>r. r) (enqueued ops)"
      "ch_acked ?ch @ map outbox_item_of (at_rows (db_outbox (ch_store ?ch))) = map outbox_item_of new"
    using outbox.channel_conserves [of "\<lparr>ch_store = empty_db, ch_ceiling = None, ch_acked = []\<rparr>" n ops]
    by (auto simp: empty_db_def empty_table_def)
  then have "new = zip (map fst new) (enqueued ops)" using zip_map_fst_snd [of new] by simp
  moreover have "length (map fst new) = length (enqueued ops)" using new(1) by (metis length_map)
  ultimately show ?thesis using new(2) by (intro exI [of _ "map fst new"]) (simp add: Let_def)
qed

end
