(* ===== verification/Station_Boxes.thy ===== *)
theory Station_Boxes
  imports Station_Tables Document_Text
begin

text \<open>
  Boxes and pallets on a station (\<open>apps/station/src/lib/boxes.ts\<close>, \<open>pallets.ts\<close>, and the discarding
  of empty boxes in \<open>shift-close.ts\<close>). Each function runs one SQL statement over the tables of
  \<open>Station_Tables\<close>; an insert that a primary key or the unique index refuses throws, which is
  \<open>None\<close> here. SQL compares text by its UTF-8 bytes, and reads a table without \<open>ORDER BY\<close> in the
  order of row identifiers. The columns and triggers that only serve the printer's delivery log and
  the reconciliation issues are not part of these tables.
\<close>

section \<open>Statements shared by both tables\<close>

text \<open>\<open>UPDATE ... SET ... WHERE ...\<close>, and whether exactly one row was returned by \<open>RETURNING\<close>.\<close>

definition update_where :: "('r \<Rightarrow> bool) \<Rightarrow> ('r \<Rightarrow> 'r) \<Rightarrow> 'r list \<Rightarrow> 'r list" where
  "update_where P f rows = map (\<lambda>r. if P r then f r else r) rows"

definition one_row :: "('r \<Rightarrow> bool) \<Rightarrow> 'r list \<Rightarrow> bool" where
  "one_row P rows \<longleftrightarrow> length (filter P rows) = 1"

definition new_rowid :: "('r \<Rightarrow> nat) \<Rightarrow> 'r list \<Rightarrow> nat" where
  "new_rowid f rows = Suc (foldr max (map f rows) 0)"

definition sql_compare :: "jstring \<Rightarrow> jstring \<Rightarrow> int" where
  "sql_compare a b = compareBytes (utf8 a) (utf8 b)"

text \<open>\<open>ORDER BY\<close> two text columns, and by one text column downwards with the row identifier.\<close>

definition by_two :: "('r \<Rightarrow> jstring) \<Rightarrow> ('r \<Rightarrow> jstring) \<Rightarrow> 'r \<Rightarrow> 'r \<Rightarrow> int" where
  "by_two f g x y = (if sql_compare (f x) (f y) \<noteq> 0 then sql_compare (f x) (f y) else sql_compare (g x) (g y))"

definition newest_first :: "('r \<Rightarrow> jstring) \<Rightarrow> ('r \<Rightarrow> nat) \<Rightarrow> 'r \<Rightarrow> 'r \<Rightarrow> int" where
  "newest_first f i x y = (if sql_compare (f y) (f x) \<noteq> 0 then sql_compare (f y) (f x) else int (i y) - int (i x))"

definition first_row :: "'r list \<Rightarrow> 'r option" where
  "first_row rows = (case rows of [] \<Rightarrow> None | r # _ \<Rightarrow> Some r)"

section \<open>Boxes\<close>

record device_box =
  db_box_boxId :: jstring
  db_box_shiftId :: jstring
  db_box_terminalId :: "jstring option"
  db_box_sscc :: "jstring option"
  db_box_itemCount :: nat
  db_box_openedAt :: jstring
  db_box_closedAt :: "jstring option"

definition item_count :: "station_db \<Rightarrow> jstring \<Rightarrow> nat" where
  "item_count db boxId = length (filter (\<lambda>c. co_boxId c = Some boxId) (db_codes db))"

definition currentBox :: "station_db \<Rightarrow> jstring \<Rightarrow> device_box option" where
  "currentBox db shiftId =
     map_option (\<lambda>b. \<lparr>db_box_boxId = bx_boxId b, db_box_shiftId = bx_shiftId b, db_box_terminalId = bx_terminalId b,
         db_box_sscc = bx_sscc b, db_box_itemCount = item_count db (bx_boxId b), db_box_openedAt = bx_openedAt b,
         db_box_closedAt = bx_closedAt b\<rparr>)
       (first_row (filter (\<lambda>b. bx_shiftId b = shiftId \<and> bx_closedAt b = None) (db_boxes db)))"

definition boxOrdinal :: "station_db \<Rightarrow> jstring \<Rightarrow> jstring option \<Rightarrow> jstring \<Rightarrow> nat" where
  "boxOrdinal db shiftId terminalId boxId =
     (case first_row (filter (\<lambda>b. bx_shiftId b = shiftId \<and> bx_terminalId b = terminalId \<and> bx_boxId b = boxId) (db_boxes db)) of
        None \<Rightarrow> 1
      | Some cur \<Rightarrow>
          max 1 (length (filter (\<lambda>b. bx_shiftId b = shiftId \<and> bx_terminalId b = terminalId
            \<and> (sql_compare (bx_openedAt b) (bx_openedAt cur) < 0
               \<or> bx_openedAt b = bx_openedAt cur \<and> sql_compare (bx_boxId b) boxId \<le> 0)) (db_boxes db))))"

definition openBox :: "station_db \<Rightarrow> jstring \<Rightarrow> jstring \<Rightarrow> jstring \<Rightarrow> jstring option \<Rightarrow> station_db option" where
  "openBox db shiftId boxId openedAt terminalId =
     (if boxId \<in> bx_boxId ` set (db_boxes db) then None
      else Some (db\<lparr>db_boxes := db_boxes db @ [\<lparr>bx_rowid = new_rowid bx_rowid (db_boxes db), bx_boxId = boxId,
        bx_shiftId = shiftId, bx_terminalId = terminalId, bx_sscc = None, bx_openedAt = openedAt, bx_closedAt = None,
        bx_closedBy = None, bx_ackedAt = None, bx_printVerifiedAt = None, bx_printSkippedAt = None,
        bx_disassembledAt = None, bx_palletId = None, bx_printState = PS_legacy, bx_printErrorCode = None,
        bx_lastCheckedRevision = 0\<rparr>]\<rparr>))"

definition closeBox ::
    "station_db \<Rightarrow> jstring \<Rightarrow> jstring \<Rightarrow> jstring \<Rightarrow> jstring option \<Rightarrow> jstring option \<Rightarrow> station_db \<times> bool" where
  "closeBox db boxId sscc closedAt operatorId palletId =
     (let P = (\<lambda>b. bx_boxId b = boxId \<and> bx_closedAt b = None)
      in (db\<lparr>db_boxes := update_where P (\<lambda>b. b\<lparr>bx_sscc := Some sscc, bx_closedAt := Some closedAt, bx_closedBy := operatorId,
             bx_palletId := palletId, bx_printState := PS_pending, bx_printErrorCode := None\<rparr>) (db_boxes db)\<rparr>,
          one_row P (db_boxes db)))"

definition markBoxPrintFailed :: "station_db \<Rightarrow> jstring \<Rightarrow> jstring \<Rightarrow> station_db" where
  "markBoxPrintFailed db boxId code =
     db\<lparr>db_boxes := update_where (\<lambda>b. bx_boxId b = boxId \<and> bx_printState b = PS_pending)
       (\<lambda>b. b\<lparr>bx_printState := PS_pending, bx_printErrorCode := Some code\<rparr>) (db_boxes db)\<rparr>"

definition markBoxPrinted :: "station_db \<Rightarrow> jstring \<Rightarrow> station_db" where
  "markBoxPrinted db boxId =
     db\<lparr>db_boxes := update_where (\<lambda>b. bx_boxId b = boxId \<and> bx_printState b = PS_pending)
       (\<lambda>b. b\<lparr>bx_printState := PS_printed, bx_printErrorCode := None\<rparr>) (db_boxes db)\<rparr>"

record unresolved_box =
  ub_boxId :: jstring
  ub_sscc :: jstring
  ub_itemCount :: nat
  ub_closedAt :: jstring
  ub_state :: print_status
  ub_errorCode :: "jstring option"

definition aggregation_shift :: "station_db \<Rightarrow> jstring \<Rightarrow> bool" where
  "aggregation_shift db shiftId \<longleftrightarrow>
     list_ex (\<lambda>s. sh_id s = shiftId \<and> sh_mode s = lit ''aggregation'' \<and> sh_issuerPrefix s \<noteq> None) (db_shifts db)"

definition box_unresolved :: "bool \<Rightarrow> box_row \<Rightarrow> bool" where
  "box_unresolved includePrinted b \<longleftrightarrow> bx_closedAt b \<noteq> None \<and> bx_sscc b \<noteq> None \<and> bx_disassembledAt b = None
     \<and> (bx_printState b = PS_pending
        \<or> includePrinted \<and> bx_printState b = PS_printed \<and> bx_printVerifiedAt b = None \<and> bx_printSkippedAt b = None)"

definition findUnresolvedBoxPrint :: "station_db \<Rightarrow> jstring \<Rightarrow> jstring option \<Rightarrow> bool \<Rightarrow> unresolved_box option" where
  "findUnresolvedBoxPrint db shiftId terminalId includePrinted =
     map_option (\<lambda>b. \<lparr>ub_boxId = bx_boxId b, ub_sscc = the (bx_sscc b), ub_itemCount = item_count db (bx_boxId b),
         ub_closedAt = the (bx_closedAt b), ub_state = bx_printState b, ub_errorCode = bx_printErrorCode b\<rparr>)
       (first_row (js_sort (by_two (\<lambda>b. the (bx_closedAt b)) bx_boxId)
          (filter (\<lambda>b. aggregation_shift db (bx_shiftId b) \<and> bx_shiftId b = shiftId \<and> bx_terminalId b = terminalId
             \<and> box_unresolved includePrinted b) (db_boxes db))))"

definition box_awaits_outcome :: "jstring \<Rightarrow> box_row \<Rightarrow> bool" where
  "box_awaits_outcome boxId b \<longleftrightarrow> bx_boxId b = boxId \<and> bx_printState b \<in> {PS_pending, PS_printed}
     \<and> bx_printVerifiedAt b = None \<and> bx_printSkippedAt b = None"

definition markPrintVerified :: "station_db \<Rightarrow> jstring \<Rightarrow> jstring \<Rightarrow> station_db \<times> bool" where
  "markPrintVerified db boxId at =
     (db\<lparr>db_boxes := update_where (box_awaits_outcome boxId) (\<lambda>b. b\<lparr>bx_printState := PS_printed, bx_printErrorCode := None,
        bx_printVerifiedAt := Some at, bx_ackedAt := None\<rparr>) (db_boxes db)\<rparr>,
      one_row (box_awaits_outcome boxId) (db_boxes db))"

definition markPrintSkipped :: "station_db \<Rightarrow> jstring \<Rightarrow> jstring \<Rightarrow> station_db \<times> bool" where
  "markPrintSkipped db boxId at =
     (db\<lparr>db_boxes := update_where (box_awaits_outcome boxId) (\<lambda>b. b\<lparr>bx_printState := PS_skipped, bx_printErrorCode := None,
        bx_printSkippedAt := Some at, bx_ackedAt := None\<rparr>) (db_boxes db)\<rparr>,
      one_row (box_awaits_outcome boxId) (db_boxes db))"

record clear_input =
  ci_boxId :: jstring
  ci_shiftId :: jstring
  ci_terminalId :: "jstring option"
  ci_operatorId :: "jstring option"
  ci_at :: jstring

definition clearBox :: "station_db \<Rightarrow> clear_input \<Rightarrow> station_db option" where
  "clearBox db input = insertException db \<lparr>ex_kind = Clear, ex_boxId = ci_boxId input, ex_codeHash = None,
     ex_targetScannedAt = None, ex_shiftId = ci_shiftId input, ex_terminalId = ci_terminalId input,
     ex_operatorId = ci_operatorId input, ex_reason = None, ex_at = ci_at input\<rparr>"

record reasoned_input =
  ra_boxId :: jstring
  ra_shiftId :: jstring
  ra_terminalId :: "jstring option"
  ra_operatorId :: "jstring option"
  ra_reason :: jstring
  ra_at :: jstring

definition reasoned_exception :: "exception_kind \<Rightarrow> reasoned_input \<Rightarrow> exception_input" where
  "reasoned_exception k input = \<lparr>ex_kind = k, ex_boxId = ra_boxId input, ex_codeHash = None, ex_targetScannedAt = None,
     ex_shiftId = ra_shiftId input, ex_terminalId = ra_terminalId input, ex_operatorId = ra_operatorId input,
     ex_reason = Some (ra_reason input), ex_at = ra_at input\<rparr>"

definition disassembleBox :: "station_db \<Rightarrow> reasoned_input \<Rightarrow> station_db option" where
  "disassembleBox db input = insertException db (reasoned_exception Disassemble input)"

definition reprintBox :: "station_db \<Rightarrow> reasoned_input \<Rightarrow> station_db option" where
  "reprintBox db input = insertException db (reasoned_exception Reprint input)"

record closed_summary =
  cs_id :: jstring
  cs_sscc :: "jstring option"
  cs_count :: nat
  cs_closedAt :: "jstring option"

definition listClosedBoxes :: "station_db \<Rightarrow> jstring \<Rightarrow> jstring option \<Rightarrow> closed_summary list" where
  "listClosedBoxes db shiftId terminalId =
     map (\<lambda>b. \<lparr>cs_id = bx_boxId b, cs_sscc = bx_sscc b, cs_count = item_count db (bx_boxId b), cs_closedAt = bx_closedAt b\<rparr>)
       (js_sort (\<lambda>x y. sql_compare (the (bx_closedAt y)) (the (bx_closedAt x)))
         (filter (\<lambda>b. bx_shiftId b = shiftId \<and> bx_terminalId b = terminalId \<and> bx_closedAt b \<noteq> None
            \<and> bx_disassembledAt b = None) (db_boxes db)))"

definition removeEmptyOpenBoxes :: "station_db \<Rightarrow> jstring \<Rightarrow> station_db" where
  "removeEmptyOpenBoxes db shiftId =
     db\<lparr>db_boxes := filter (\<lambda>b. \<not> (bx_shiftId b = shiftId \<and> bx_closedAt b = None \<and> item_count db (bx_boxId b) = 0))
       (db_boxes db)\<rparr>"

section \<open>Pallets\<close>

record device_pallet =
  dp_palletId :: jstring
  dp_shiftId :: jstring
  dp_terminalId :: "jstring option"
  dp_openedAt :: jstring
  dp_boxCount :: nat
  dp_lastBoxSscc :: "jstring option"

definition pallet_boxes :: "station_db \<Rightarrow> jstring \<Rightarrow> box_row list" where
  "pallet_boxes db palletId = filter (\<lambda>b. bx_palletId b = Some palletId \<and> bx_disassembledAt b = None) (db_boxes db)"

text \<open>\<open>NULL\<close> sorts below every text.\<close>

definition opt_text :: "jstring option \<Rightarrow> jstring" where
  "opt_text t = (case t of None \<Rightarrow> [] | Some s \<Rightarrow> s)"

definition currentPallet :: "station_db \<Rightarrow> jstring \<Rightarrow> jstring option \<Rightarrow> device_pallet option" where
  "currentPallet db shiftId terminalId =
     map_option (\<lambda>p. \<lparr>dp_palletId = pl_palletId p, dp_shiftId = pl_shiftId p, dp_terminalId = pl_terminalId p,
         dp_openedAt = pl_openedAt p, dp_boxCount = length (pallet_boxes db (pl_palletId p)),
         dp_lastBoxSscc = Option.bind (first_row (js_sort (newest_first (\<lambda>b. opt_text (bx_closedAt b)) bx_rowid)
           (pallet_boxes db (pl_palletId p)))) bx_sscc\<rparr>)
       (first_row (js_sort (\<lambda>x y. sql_compare (pl_openedAt x) (pl_openedAt y))
         (filter (\<lambda>p. pl_shiftId p = shiftId \<and> pl_terminalId p = terminalId \<and> pl_closedAt p = None) (db_pallets db))))"

definition listPalletBoxes ::
    "station_db \<Rightarrow> jstring \<Rightarrow> jstring option \<Rightarrow> jstring \<Rightarrow> (jstring \<times> jstring \<times> jstring) list" where
  "listPalletBoxes db shiftId terminalId palletId =
     (if list_ex (\<lambda>p. pl_palletId p = palletId \<and> pl_shiftId p = shiftId \<and> pl_terminalId p = terminalId
          \<and> pl_disassembledAt p = None) (db_pallets db)
      then map (\<lambda>b. (bx_boxId b, the (bx_sscc b), the (bx_closedAt b)))
        (js_sort (newest_first (\<lambda>b. the (bx_closedAt b)) bx_rowid)
          (filter (\<lambda>b. bx_closedAt b \<noteq> None \<and> bx_sscc b \<noteq> None) (pallet_boxes db palletId)))
      else [])"

text \<open>The insert is refused by the primary key, and by the partial unique index over \<open>COALESCE(terminal_id, '')\<close>.\<close>

definition same_slot :: "jstring \<Rightarrow> jstring option \<Rightarrow> pallet_row \<Rightarrow> bool" where
  "same_slot shiftId terminalId p \<longleftrightarrow> pl_shiftId p = shiftId \<and> opt_text (pl_terminalId p) = opt_text terminalId
     \<and> pl_closedAt p = None"

definition openPallet :: "station_db \<Rightarrow> jstring \<Rightarrow> jstring \<Rightarrow> jstring option \<Rightarrow> jstring \<Rightarrow> station_db option" where
  "openPallet db palletId shiftId terminalId openedAt =
     (if palletId \<in> pl_palletId ` set (db_pallets db) \<or> list_ex (same_slot shiftId terminalId) (db_pallets db) then None
      else Some (db\<lparr>db_pallets := db_pallets db @ [\<lparr>pl_rowid = new_rowid pl_rowid (db_pallets db), pl_palletId = palletId,
        pl_shiftId = shiftId, pl_terminalId = terminalId, pl_sscc = None, pl_openedAt = openedAt, pl_closedAt = None,
        pl_closedBy = None, pl_ackedAt = None, pl_printVerifiedAt = None, pl_printSkippedAt = None,
        pl_disassembledAt = None, pl_printState = PS_pending, pl_printErrorCode = None\<rparr>]\<rparr>))"

definition joinPallet :: "station_db \<Rightarrow> jstring \<Rightarrow> jstring \<Rightarrow> station_db" where
  "joinPallet db boxId palletId =
     db\<lparr>db_boxes := update_where (\<lambda>b. bx_boxId b = boxId) (\<lambda>b. b\<lparr>bx_palletId := Some palletId\<rparr>) (db_boxes db)\<rparr>"

definition closePallet ::
    "station_db \<Rightarrow> jstring \<Rightarrow> jstring \<Rightarrow> jstring \<Rightarrow> jstring option \<Rightarrow> station_db \<times> bool" where
  "closePallet db palletId sscc closedAt operatorId =
     (let P = (\<lambda>p. pl_palletId p = palletId \<and> pl_closedAt p = None)
      in (db\<lparr>db_pallets := update_where P (\<lambda>p. p\<lparr>pl_sscc := Some sscc, pl_closedAt := Some closedAt, pl_closedBy := operatorId,
             pl_printState := PS_pending, pl_printErrorCode := None\<rparr>) (db_pallets db)\<rparr>,
          one_row P (db_pallets db)))"

definition markPalletPrinted :: "station_db \<Rightarrow> jstring \<Rightarrow> station_db" where
  "markPalletPrinted db palletId =
     db\<lparr>db_pallets := update_where (\<lambda>p. pl_palletId p = palletId \<and> pl_printState p = PS_pending)
       (\<lambda>p. p\<lparr>pl_printState := PS_printed, pl_printErrorCode := None\<rparr>) (db_pallets db)\<rparr>"

definition markPalletPrintFailed :: "station_db \<Rightarrow> jstring \<Rightarrow> jstring \<Rightarrow> station_db" where
  "markPalletPrintFailed db palletId code =
     db\<lparr>db_pallets := update_where (\<lambda>p. pl_palletId p = palletId \<and> pl_printState p = PS_pending)
       (\<lambda>p. p\<lparr>pl_printState := PS_pending, pl_printErrorCode := Some code\<rparr>) (db_pallets db)\<rparr>"

definition pallet_awaits_outcome :: "jstring \<Rightarrow> pallet_row \<Rightarrow> bool" where
  "pallet_awaits_outcome palletId p \<longleftrightarrow> pl_palletId p = palletId \<and> pl_printState p \<in> {PS_pending, PS_printed}
     \<and> pl_printVerifiedAt p = None \<and> pl_printSkippedAt p = None"

definition markPalletPrintVerified :: "station_db \<Rightarrow> jstring \<Rightarrow> jstring \<Rightarrow> station_db \<times> bool" where
  "markPalletPrintVerified db palletId at =
     (db\<lparr>db_pallets := update_where (pallet_awaits_outcome palletId) (\<lambda>p. p\<lparr>pl_printState := PS_printed,
        pl_printErrorCode := None, pl_printVerifiedAt := Some at, pl_ackedAt := None\<rparr>) (db_pallets db)\<rparr>,
      one_row (pallet_awaits_outcome palletId) (db_pallets db))"

definition markPalletPrintSkipped :: "station_db \<Rightarrow> jstring \<Rightarrow> jstring \<Rightarrow> station_db \<times> bool" where
  "markPalletPrintSkipped db palletId at =
     (db\<lparr>db_pallets := update_where (pallet_awaits_outcome palletId) (\<lambda>p. p\<lparr>pl_printState := PS_skipped,
        pl_printErrorCode := None, pl_printSkippedAt := Some at, pl_ackedAt := None\<rparr>) (db_pallets db)\<rparr>,
      one_row (pallet_awaits_outcome palletId) (db_pallets db))"

text \<open>The join counts each code once for every box row of its identifier; that identifier is a primary key.\<close>

definition palletItemCount :: "station_db \<Rightarrow> jstring \<Rightarrow> nat" where
  "palletItemCount db palletId = sum_list (map (\<lambda>b. item_count db (bx_boxId b)) (pallet_boxes db palletId))"

definition listClosedPallets :: "station_db \<Rightarrow> jstring \<Rightarrow> jstring option \<Rightarrow> closed_summary list" where
  "listClosedPallets db shiftId terminalId =
     map (\<lambda>p. \<lparr>cs_id = pl_palletId p, cs_sscc = pl_sscc p, cs_count = length (pallet_boxes db (pl_palletId p)),
         cs_closedAt = pl_closedAt p\<rparr>)
       (js_sort (\<lambda>x y. sql_compare (the (pl_closedAt y)) (the (pl_closedAt x)))
         (filter (\<lambda>p. pl_shiftId p = shiftId \<and> pl_terminalId p = terminalId \<and> pl_closedAt p \<noteq> None
            \<and> pl_disassembledAt p = None) (db_pallets db)))"

definition disassemblePallet :: "station_db \<Rightarrow> pallet_action \<Rightarrow> station_db" where
  "disassemblePallet db input = insertPalletException db Pallet_disassemble input"

definition reprintPallet :: "station_db \<Rightarrow> pallet_action \<Rightarrow> station_db" where
  "reprintPallet db input = insertPalletException db Pallet_reprint input"

record unresolved_pallet =
  up_palletId :: jstring
  up_sscc :: jstring
  up_boxCount :: nat
  up_closedAt :: jstring
  up_state :: print_status
  up_errorCode :: "jstring option"

definition findUnresolvedPalletPrint :: "station_db \<Rightarrow> jstring \<Rightarrow> jstring option \<Rightarrow> unresolved_pallet option" where
  "findUnresolvedPalletPrint db shiftId terminalId =
     map_option (\<lambda>p. \<lparr>up_palletId = pl_palletId p, up_sscc = the (pl_sscc p),
         up_boxCount = length (pallet_boxes db (pl_palletId p)), up_closedAt = the (pl_closedAt p),
         up_state = pl_printState p, up_errorCode = pl_printErrorCode p\<rparr>)
       (first_row (js_sort (by_two (\<lambda>p. the (pl_closedAt p)) pl_palletId)
          (filter (\<lambda>p. pl_shiftId p = shiftId \<and> pl_terminalId p = terminalId \<and> pl_closedAt p \<noteq> None \<and> pl_sscc p \<noteq> None
             \<and> pl_disassembledAt p = None \<and> pl_printState p = PS_pending) (db_pallets db))))"

section \<open>Acknowledging a reported closure\<close>

text \<open>
  One statement of \<open>ackBoxes\<close> and of \<open>ackPallets\<close> (\<open>sync.ts\<close>): the closure is acknowledged only while
  the outcome of its label is still the one that was sent.
\<close>

definition ack_box :: "station_db \<Rightarrow> jstring \<Rightarrow> jstring \<Rightarrow> jstring option \<Rightarrow> jstring option \<Rightarrow> station_db" where
  "ack_box db ackedAt boxId verifiedAt skippedAt =
     db\<lparr>db_boxes := update_where (\<lambda>b. bx_boxId b = boxId \<and> bx_printVerifiedAt b = verifiedAt \<and> bx_printSkippedAt b = skippedAt)
       (\<lambda>b. b\<lparr>bx_ackedAt := Some ackedAt\<rparr>) (db_boxes db)\<rparr>"

definition ack_pallet :: "station_db \<Rightarrow> jstring \<Rightarrow> jstring \<Rightarrow> jstring option \<Rightarrow> jstring option \<Rightarrow> station_db" where
  "ack_pallet db ackedAt palletId verifiedAt skippedAt =
     db\<lparr>db_pallets := update_where (\<lambda>p. pl_palletId p = palletId \<and> pl_printVerifiedAt p = verifiedAt
         \<and> pl_printSkippedAt p = skippedAt) (\<lambda>p. p\<lparr>pl_ackedAt := Some ackedAt\<rparr>) (db_pallets db)\<rparr>"

section \<open>Sequences of statements\<close>

datatype station_op =
    Open_box jstring jstring jstring "jstring option"
  | Close_box jstring jstring jstring "jstring option" "jstring option"
  | Box_print_failed jstring jstring
  | Box_printed jstring
  | Box_verified jstring jstring
  | Box_skipped jstring jstring
  | Clear_box clear_input
  | Disassemble_box reasoned_input
  | Reprint_box reasoned_input
  | Remove_empty jstring
  | Ack_box jstring jstring "jstring option" "jstring option"
  | Open_pallet jstring jstring "jstring option" jstring
  | Join_pallet jstring jstring
  | Close_pallet jstring jstring jstring "jstring option"
  | Pallet_print_failed jstring jstring
  | Pallet_printed jstring
  | Pallet_verified jstring jstring
  | Pallet_skipped jstring jstring
  | Disassemble_pallet pallet_action
  | Reprint_pallet pallet_action
  | Ack_pallet jstring jstring "jstring option" "jstring option"

text \<open>A statement that throws leaves the database as it was.\<close>

definition or_unchanged :: "station_db \<Rightarrow> station_db option \<Rightarrow> station_db" where
  "or_unchanged db r = (case r of None \<Rightarrow> db | Some db' \<Rightarrow> db')"

fun apply_op :: "station_db \<Rightarrow> station_op \<Rightarrow> station_db" where
  "apply_op db (Open_box s b at t) = or_unchanged db (openBox db s b at t)"
| "apply_op db (Close_box b c at u p) = fst (closeBox db b c at u p)"
| "apply_op db (Box_print_failed b c) = markBoxPrintFailed db b c"
| "apply_op db (Box_printed b) = markBoxPrinted db b"
| "apply_op db (Box_verified b at) = fst (markPrintVerified db b at)"
| "apply_op db (Box_skipped b at) = fst (markPrintSkipped db b at)"
| "apply_op db (Clear_box i) = or_unchanged db (clearBox db i)"
| "apply_op db (Disassemble_box i) = or_unchanged db (disassembleBox db i)"
| "apply_op db (Reprint_box i) = or_unchanged db (reprintBox db i)"
| "apply_op db (Remove_empty s) = removeEmptyOpenBoxes db s"
| "apply_op db (Ack_box at b v k) = ack_box db at b v k"
| "apply_op db (Open_pallet p s t at) = or_unchanged db (openPallet db p s t at)"
| "apply_op db (Join_pallet b p) = joinPallet db b p"
| "apply_op db (Close_pallet p c at u) = fst (closePallet db p c at u)"
| "apply_op db (Pallet_print_failed p c) = markPalletPrintFailed db p c"
| "apply_op db (Pallet_printed p) = markPalletPrinted db p"
| "apply_op db (Pallet_verified p at) = fst (markPalletPrintVerified db p at)"
| "apply_op db (Pallet_skipped p at) = fst (markPalletPrintSkipped db p at)"
| "apply_op db (Disassemble_pallet i) = disassemblePallet db i"
| "apply_op db (Reprint_pallet i) = reprintPallet db i"
| "apply_op db (Ack_pallet at p v k) = ack_pallet db at p v k"

section \<open>Interface: a table of labelled containers\<close>

text \<open>
  What a box and a pallet have in common: an identity, the facts of its closure, the outcome of its
  label, and the acknowledgement of the report.
\<close>

record label_view =
  lv_rowid :: nat
  lv_id :: jstring
  lv_shiftId :: jstring
  lv_terminalId :: "jstring option"
  lv_sscc :: "jstring option"
  lv_closedAt :: "jstring option"
  lv_closedBy :: "jstring option"
  lv_verifiedAt :: "jstring option"
  lv_skippedAt :: "jstring option"
  lv_ackedAt :: "jstring option"

definition box_view :: "box_row \<Rightarrow> label_view" where
  "box_view b = \<lparr>lv_rowid = bx_rowid b, lv_id = bx_boxId b, lv_shiftId = bx_shiftId b,
     lv_terminalId = bx_terminalId b, lv_sscc = bx_sscc b, lv_closedAt = bx_closedAt b,
     lv_closedBy = bx_closedBy b, lv_verifiedAt = bx_printVerifiedAt b, lv_skippedAt = bx_printSkippedAt b,
     lv_ackedAt = bx_ackedAt b\<rparr>"

definition pallet_view :: "pallet_row \<Rightarrow> label_view" where
  "pallet_view p = \<lparr>lv_rowid = pl_rowid p, lv_id = pl_palletId p, lv_shiftId = pl_shiftId p,
     lv_terminalId = pl_terminalId p, lv_sscc = pl_sscc p, lv_closedAt = pl_closedAt p,
     lv_closedBy = pl_closedBy p, lv_verifiedAt = pl_printVerifiedAt p, lv_skippedAt = pl_printSkippedAt p,
     lv_ackedAt = pl_ackedAt p\<rparr>"

definition view_ok :: "label_view \<Rightarrow> bool" where
  "view_ok v \<longleftrightarrow> (lv_sscc v = None) = (lv_closedAt v = None) \<and> (lv_verifiedAt v = None \<or> lv_skippedAt v = None)"

definition views_ok :: "label_view list \<Rightarrow> bool" where
  "views_ok vs \<longleftrightarrow> distinct (map lv_id vs) \<and> sorted_wrt (<) (map lv_rowid vs) \<and> list_all view_ok vs"

text \<open>What can happen to a closed container: its closure stays as it is, and so does an outcome once recorded.\<close>

definition evolves :: "label_view \<Rightarrow> label_view \<Rightarrow> bool" where
  "evolves v w \<longleftrightarrow> lv_rowid w = lv_rowid v \<and> lv_id w = lv_id v
     \<and> lv_shiftId w = lv_shiftId v \<and> lv_terminalId w = lv_terminalId v \<and> lv_sscc w = lv_sscc v \<and> lv_closedAt w = lv_closedAt v
     \<and> lv_closedBy w = lv_closedBy v
     \<and> (lv_verifiedAt v \<noteq> None \<or> lv_skippedAt v \<noteq> None \<longrightarrow>
          lv_verifiedAt w = lv_verifiedAt v \<and> lv_skippedAt w = lv_skippedAt v)"

lemma evolves_refl [simp]: "evolves v v"
  by (simp add: evolves_def)

lemma evolves_rowid: "evolves v w \<Longrightarrow> lv_rowid w = lv_rowid v"
  by (simp add: evolves_def)

lemma evolves_trans: "evolves u v \<Longrightarrow> evolves v w \<Longrightarrow> evolves u w"
  by (auto simp: evolves_def)

locale labelled_table =
  fixes views :: "'t \<Rightarrow> label_view list"
    and step :: "'t \<Rightarrow> 'o \<Rightarrow> 't"
  assumes step_ok: "views_ok (views t) \<Longrightarrow> views_ok (views (step t op))"
    and step_evolves: "v \<in> set (views t) \<Longrightarrow> lv_closedAt v \<noteq> None \<Longrightarrow> \<exists>w \<in> set (views (step t op)). evolves v w"
begin

lemma run_ok: "views_ok (views t) \<Longrightarrow> views_ok (views (foldl step t ops))"
  by (induction ops arbitrary: t) (simp_all add: step_ok)

lemma run_evolves:
  "v \<in> set (views t) \<Longrightarrow> lv_closedAt v \<noteq> None \<Longrightarrow> \<exists>w \<in> set (views (foldl step t ops)). evolves v w"
proof (induction ops arbitrary: t v)
  case (Cons op ops)
  obtain u where u: "u \<in> set (views (step t op))" "evolves v u" using step_evolves Cons.prems by blast
  moreover from u(2) Cons.prems(2) have "lv_closedAt u \<noteq> None" by (simp add: evolves_def)
  ultimately show ?case using Cons.IH [of u "step t op"] evolves_trans by auto
qed (auto intro: evolves_refl)

text \<open>A closed container can be found again under its identity, and it is the only one there.\<close>

lemma run_identity:
  assumes "views_ok (views t)" "v \<in> set (views t)" "lv_closedAt v \<noteq> None" "w \<in> set (views (foldl step t ops))"
    "lv_id w = lv_id v"
  shows "evolves v w"
proof -
  obtain u where u: "u \<in> set (views (foldl step t ops))" "evolves v u" using run_evolves assms(2,3) by blast
  moreover have "distinct (map lv_id (views (foldl step t ops)))" using run_ok [OF assms(1)] by (simp add: views_ok_def)
  ultimately have "u = w" using assms(4,5) by (auto simp: distinct_map inj_on_def evolves_def)
  then show ?thesis using u(2) by simp
qed

end

section \<open>Both tables are labelled tables\<close>

abbreviation box_views :: "station_db \<Rightarrow> label_view list" where
  "box_views db \<equiv> map box_view (db_boxes db)"

abbreviation pallet_views :: "station_db \<Rightarrow> label_view list" where
  "pallet_views db \<equiv> map pallet_view (db_pallets db)"

named_theorems station_ops \<open>the statements on boxes and pallets\<close>

declare closeBox_def [station_ops] markBoxPrintFailed_def [station_ops]
  markBoxPrinted_def [station_ops] markPrintVerified_def [station_ops] markPrintSkipped_def [station_ops]
  clearBox_def [station_ops] disassembleBox_def [station_ops] reprintBox_def [station_ops]
  removeEmptyOpenBoxes_def [station_ops] ack_box_def [station_ops]
  joinPallet_def [station_ops] closePallet_def [station_ops] markPalletPrinted_def [station_ops]
  markPalletPrintFailed_def [station_ops] markPalletPrintVerified_def [station_ops]
  markPalletPrintSkipped_def [station_ops] disassemblePallet_def [station_ops] reprintPallet_def [station_ops]
  ack_pallet_def [station_ops]

lemma new_rowid_fresh: "r \<in> set rows \<Longrightarrow> f r < new_rowid f rows"
proof -
  have "x \<in> set xs \<Longrightarrow> x \<le> foldr max xs (0 :: nat)" for x xs by (induction xs) auto
  then show "r \<in> set rows \<Longrightarrow> ?thesis" by (auto simp: new_rowid_def less_Suc_eq_le)
qed

lemma views_ok_update:
  assumes "views_ok (map f rows)"
    and "\<And>r. r \<in> set rows \<Longrightarrow> P r \<Longrightarrow> view_ok (f r) \<Longrightarrow>
      lv_id (f (g r)) = lv_id (f r) \<and> lv_rowid (f (g r)) = lv_rowid (f r) \<and> view_ok (f (g r))"
  shows "views_ok (map f (update_where P g rows))"
proof -
  have ok: "view_ok (f r)" if "r \<in> set rows" for r using assms(1) that by (simp add: views_ok_def list_all_iff)
  then have "map lv_id (map f (update_where P g rows)) = map lv_id (map f rows)"
    "map lv_rowid (map f (update_where P g rows)) = map lv_rowid (map f rows)"
    using assms(2) by (simp_all add: update_where_def)
  moreover have "list_all view_ok (map f (update_where P g rows))"
    using ok assms(2) by (simp add: update_where_def list_all_iff)
  ultimately show ?thesis using assms(1) by (simp add: views_ok_def del: map_map)
qed

lemma evolves_update:
  assumes "v \<in> set (map f rows)" "lv_closedAt v \<noteq> None"
    and "\<And>r. P r \<Longrightarrow> lv_closedAt (f r) \<noteq> None \<Longrightarrow> evolves (f r) (f (g r))"
  shows "\<exists>w \<in> set (map f (update_where P g rows)). evolves v w"
proof -
  obtain r where r: "r \<in> set rows" "v = f r" using assms(1) by auto
  then have "f (if P r then g r else r) \<in> set (map f (update_where P g rows))" by (auto simp: update_where_def)
  moreover have "evolves v (f (if P r then g r else r))" using assms(2,3) r by simp
  ultimately show ?thesis by blast
qed

lemma views_ok_append:
  assumes "views_ok (map f rows)" "view_ok (f r)" "lv_id (f r) \<notin> set (map (\<lambda>x. lv_id (f x)) rows)"
    "\<And>x. x \<in> set rows \<Longrightarrow> lv_rowid (f x) < lv_rowid (f r)"
  shows "views_ok (map f (rows @ [r]))"
  using assms by (auto simp: views_ok_def sorted_wrt_append comp_def)

lemma views_ok_filter: "views_ok (map f rows) \<Longrightarrow> views_ok (map f (filter P rows))"
  by (auto simp: views_ok_def distinct_map_filter comp_def sorted_wrt_map list_all_iff intro: sorted_wrt_filter)

lemma exception_box_views [simp]:
  "box_views (queue_exception db e) = box_views db" "pallet_views (queue_exception db e) = pallet_views db"
  by (cases "ex_kind e"; simp add: queue_exception_def exception_triggers_def box_view_def)+

lemma pallet_exception_views [simp]:
  "box_views (insertPalletException db k i) = box_views db"
  "pallet_views (insertPalletException db k i) = pallet_views db"
  by (simp_all add: insertPalletException_def Let_def pallet_view_def)

lemma insertException_views [simp]:
  "box_views (or_unchanged db (insertException db e)) = box_views db"
  "pallet_views (or_unchanged db (insertException db e)) = pallet_views db"
  by (simp_all add: or_unchanged_def insertException_def del: map_map)

lemma open_other_views [simp]:
  "pallet_views (or_unchanged db (openBox db s b at t)) = pallet_views db"
  "box_views (or_unchanged db (openPallet db p s t at)) = box_views db"
  by (simp_all add: or_unchanged_def openBox_def openPallet_def)

lemma box_step_ok: "views_ok (box_views db) \<Longrightarrow> views_ok (box_views (apply_op db op))"
proof (cases op)
  case (Open_box s b at t)
  assume ok: "views_ok (box_views db)"
  show ?thesis
  proof (cases "b \<in> bx_boxId ` set (db_boxes db)")
    case False
    then show ?thesis using ok Open_box new_rowid_fresh [of _ "db_boxes db" bx_rowid]
      by (simp add: openBox_def or_unchanged_def del: map_append)
        (rule views_ok_append, auto simp: box_view_def view_ok_def)
  qed (use ok Open_box in \<open>simp add: openBox_def or_unchanged_def\<close>)
next
  case (Remove_empty s)
  assume "views_ok (box_views db)"
  then show ?thesis using Remove_empty views_ok_filter by (simp add: removeEmptyOpenBoxes_def)
qed (auto simp: station_ops Let_def box_view_def view_ok_def box_awaits_outcome_def intro!: views_ok_update)

lemma unchanged_evolves: "v \<in> set vs \<Longrightarrow> ws = vs \<Longrightarrow> \<exists>w \<in> set ws. evolves v w"
  using evolves_refl by blast

lemma box_step_evolves:
  assumes "v \<in> set (box_views db)" "lv_closedAt v \<noteq> None"
  shows "\<exists>w \<in> set (box_views (apply_op db op)). evolves v w"
proof (cases op)
  case (Open_box s b at t)
  have "set (box_views db) \<subseteq> set (box_views (apply_op db op))"
    unfolding Open_box by (auto simp: openBox_def or_unchanged_def)
  then show ?thesis using assms(1) evolves_refl by blast
next
  case (Remove_empty s)
  have "v \<in> set (box_views (apply_op db op))"
    using assms unfolding Remove_empty by (auto simp: removeEmptyOpenBoxes_def box_view_def)
  then show ?thesis using evolves_refl by blast
qed ((rule unchanged_evolves [OF assms(1)], simp add: station_ops Let_def; fail)
  | (simp add: station_ops Let_def del: set_map, rule evolves_update [OF assms],
      auto simp: evolves_def box_view_def box_awaits_outcome_def; fail))+

lemma pallet_step_ok: "views_ok (pallet_views db) \<Longrightarrow> views_ok (pallet_views (apply_op db op))"
proof (cases op)
  case (Open_pallet p s t at)
  assume ok: "views_ok (pallet_views db)"
  show ?thesis
  proof (cases "p \<in> pl_palletId ` set (db_pallets db) \<or> list_ex (same_slot s t) (db_pallets db)")
    case False
    then show ?thesis using ok Open_pallet new_rowid_fresh [of _ "db_pallets db" pl_rowid]
      by (simp add: openPallet_def or_unchanged_def del: map_append)
        (rule views_ok_append, auto simp: pallet_view_def view_ok_def)
  qed (use ok Open_pallet in \<open>simp add: openPallet_def or_unchanged_def\<close>)
qed (auto simp: station_ops Let_def pallet_view_def view_ok_def pallet_awaits_outcome_def intro!: views_ok_update)

lemma pallet_step_evolves:
  assumes "v \<in> set (pallet_views db)" "lv_closedAt v \<noteq> None"
  shows "\<exists>w \<in> set (pallet_views (apply_op db op)). evolves v w"
proof (cases op)
  case (Open_pallet p s t at)
  have "set (pallet_views db) \<subseteq> set (pallet_views (apply_op db op))"
    unfolding Open_pallet by (auto simp: openPallet_def or_unchanged_def)
  then show ?thesis using assms(1) evolves_refl by blast
qed ((rule unchanged_evolves [OF assms(1)], simp add: station_ops Let_def; fail)
  | (simp add: station_ops Let_def del: set_map, rule evolves_update [OF assms],
      auto simp: evolves_def pallet_view_def pallet_awaits_outcome_def; fail))+

interpretation box_labels: labelled_table box_views apply_op
  by unfold_locales (rule box_step_ok box_step_evolves; assumption)+

interpretation pallet_labels: labelled_table pallet_views apply_op
  by unfold_locales (rule pallet_step_ok pallet_step_evolves; assumption)+

section \<open>Lemmas: recovery of unresolved labels\<close>

lemma sql_compare_le: "sql_compare a b \<le> 0 \<longleftrightarrow> utf8 a \<le> utf8 b"
  by (simp add: sql_compare_def compareBytes_eq compareText_le)

lemma sql_compare_eq: "sql_compare a b = 0 \<longleftrightarrow> utf8 a = utf8 b"
  by (auto simp: sql_compare_def compareBytes_eq compareText_def)

lemma by_two_le:
  "by_two f g x y \<le> 0 \<longleftrightarrow> utf8 (f x) < utf8 (f y) \<or> utf8 (f x) = utf8 (f y) \<and> utf8 (g x) \<le> utf8 (g y)"
  unfolding by_two_def by (auto simp: sql_compare_le sql_compare_eq)

lemma by_two_consistent: "consistent (by_two f g)"
  unfolding consistent_def by_two_le by (metis less_trans linear not_less_iff_gr_or_eq order_trans)

lemma first_row_None [simp]: "first_row rows = None \<longleftrightarrow> rows = []"
  by (cases rows) (auto simp: first_row_def)

lemma first_sorted:
  assumes "consistent cmp" "first_row (js_sort cmp rows) = Some r"
  shows "r \<in> set rows \<and> (\<forall>x \<in> set rows. cmp r x \<le> 0)"
proof -
  obtain rest where rest: "js_sort cmp rows = r # rest"
    using assms(2) by (cases "js_sort cmp rows") (auto simp: first_row_def)
  have "sorted_wrt (\<lambda>a b. cmp a b \<le> 0) (r # rest)" using js_sort_sorted [OF assms(1)] rest by metis
  moreover have "cmp r r \<le> 0" using assms(1) by (auto simp: consistent_def)
  moreover have "set rows = insert r (set rest)" using rest set_js_sort [of cmp rows] by simp
  ultimately show ?thesis by auto
qed

text \<open>The state of a box agrees with its outcome; a box that is still open has never been printed.\<close>

definition box_state_ok :: "box_row \<Rightarrow> bool" where
  "box_state_ok b \<longleftrightarrow>
     (bx_closedAt b = None \<longrightarrow> bx_printState b = PS_legacy)
     \<and> (bx_printVerifiedAt b \<noteq> None \<longrightarrow> bx_printState b = PS_printed)
     \<and> (bx_printSkippedAt b \<noteq> None \<longrightarrow> bx_printState b = PS_skipped)"

lemma box_state_update:
  "(\<And>r. P r \<Longrightarrow> box_state_ok r \<Longrightarrow> box_state_ok (g r)) \<Longrightarrow> list_all box_state_ok rows
    \<Longrightarrow> list_all box_state_ok (update_where P g rows)"
  by (auto simp: update_where_def list_all_iff)

lemma exception_box_states:
  assumes "list_all box_state_ok (db_boxes db)"
  shows "list_all box_state_ok (db_boxes (or_unchanged db (insertException db e)))"
  using assms by (cases "ex_kind e")
    (auto simp: or_unchanged_def insertException_def queue_exception_def exception_triggers_def list_all_iff box_state_ok_def)

lemma box_state_step: "list_all box_state_ok (db_boxes db) \<Longrightarrow> list_all box_state_ok (db_boxes (apply_op db op))"
  by (cases op)
    (auto simp: station_ops openBox_def openPallet_def Let_def exception_box_states removeEmptyOpenBoxes_def
      insertPalletException_def box_awaits_outcome_def
      intro!: box_state_update, auto simp: box_state_ok_def or_unchanged_def openBox_def openPallet_def list_all_iff)

lemma box_state_run: "list_all box_state_ok (db_boxes db) \<Longrightarrow> list_all box_state_ok (db_boxes (foldl apply_op db ops))"
  by (induction ops arbitrary: db) (simp_all add: box_state_step)

definition open_labels :: "station_db \<Rightarrow> jstring \<Rightarrow> jstring option \<Rightarrow> box_row list" where
  "open_labels db shiftId terminalId =
     filter (\<lambda>b. aggregation_shift db (bx_shiftId b) \<and> bx_shiftId b = shiftId \<and> bx_terminalId b = terminalId
       \<and> box_unresolved True b) (db_boxes db)"

lemma resolve_one:
  assumes d: "distinct (map f rows)" and r: "r \<in> set rows" "Q r" and P: "P = (\<lambda>x. f x = f r \<and> A x)" "A r"
    and g: "\<not> Q (g r)"
  shows "one_row P rows \<and> Suc (length (filter Q (update_where P g rows))) = length (filter Q rows)"
proof -
  obtain us vs where split: "rows = us @ r # vs" using r(1) by (meson split_list)
  have "f r \<notin> f ` set us" "f r \<notin> f ` set vs" using d by (auto simp: split)
  then have other: "\<not> P x" if "x \<in> set us \<union> set vs" for x using that P(1) by (metis UnE image_eqI)
  then have "update_where P g us = us" "update_where P g vs = vs"
    by (auto simp: update_where_def intro!: map_idI)
  moreover have "update_where P g rows = update_where P g us @ g r # update_where P g vs"
    using P by (simp add: split update_where_def)
  moreover have "filter P us = []" "filter P vs = []" using other by (auto simp: filter_empty_conv)
  ultimately show ?thesis using r(2) g P by (simp add: split one_row_def)
qed

lemma unresolved_awaits:
  "box_state_ok b \<Longrightarrow> box_unresolved True b \<Longrightarrow> box_awaits_outcome (bx_boxId b) b"
  by (auto simp: box_state_ok_def box_unresolved_def box_awaits_outcome_def)

lemma find_unresolved:
  assumes "findUnresolvedBoxPrint db s t True = Some u"
  shows "\<exists>b \<in> set (open_labels db s t). ub_boxId u = bx_boxId b \<and> bx_sscc b = Some (ub_sscc u) \<and> bx_closedAt b = Some (ub_closedAt u)
    \<and> (\<forall>x \<in> set (open_labels db s t). by_two (\<lambda>b. the (bx_closedAt b)) bx_boxId b x \<le> 0)"
proof -
  obtain b where b: "first_row (js_sort (by_two (\<lambda>b. the (bx_closedAt b)) bx_boxId) (open_labels db s t)) = Some b"
      "ub_boxId u = bx_boxId b" "ub_sscc u = the (bx_sscc b)" "ub_closedAt u = the (bx_closedAt b)"
    using assms by (auto simp: findUnresolvedBoxPrint_def open_labels_def)
  from first_sorted [OF by_two_consistent b(1)] show ?thesis
    using b(2-4) by (intro bexI [of _ b]) (auto simp: open_labels_def box_unresolved_def)
qed

section \<open>Properties\<close>

text \<open>C22: The facts of a closed box or pallet are final: through any sequence of the station's statements on them
  (closing again, failed and repeated prints, verifying, skipping, disassembling, acknowledging,
  discarding empty boxes) it is still there, once, under its identity, with the SSCC, the time and the
  operator of its closure; an outcome recorded for its label is never replaced, and a label is never
  both verified and skipped.\<close>

theorem container_labels_final:
  assumes "db_boxes db0 = []" "db_pallets db0 = []"
    and db_def: "db = foldl apply_op db0 ops" and db'_def: "db' = foldl apply_op db ops'"
  shows "distinct (map bx_boxId (db_boxes db')) \<and> distinct (map pl_palletId (db_pallets db'))
    \<and> (\<forall>b \<in> set (db_boxes db). bx_closedAt b \<noteq> None \<longrightarrow>
        bx_sscc b \<noteq> None \<and> (\<exists>b' \<in> set (db_boxes db'). evolves (box_view b) (box_view b')))
    \<and> (\<forall>p \<in> set (db_pallets db). pl_closedAt p \<noteq> None \<longrightarrow>
        pl_sscc p \<noteq> None \<and> (\<exists>p' \<in> set (db_pallets db'). evolves (pallet_view p) (pallet_view p')))
    \<and> (\<forall>b \<in> set (db_boxes db). bx_printVerifiedAt b = None \<or> bx_printSkippedAt b = None)
    \<and> (\<forall>p \<in> set (db_pallets db). pl_printVerifiedAt p = None \<or> pl_printSkippedAt p = None)"
proof -
  have ok0: "views_ok (box_views db0)" "views_ok (pallet_views db0)" using assms(1,2) by (simp_all add: views_ok_def)
  have ok: "views_ok (box_views db)" "views_ok (pallet_views db)" "views_ok (box_views db')" "views_ok (pallet_views db')"
    unfolding db_def db'_def using box_labels.run_ok pallet_labels.run_ok ok0 by blast+
  have "distinct (map bx_boxId (db_boxes db'))" "distinct (map pl_palletId (db_pallets db'))"
    using ok(3,4) by (simp_all add: views_ok_def box_view_def pallet_view_def comp_def)
  moreover have "bx_sscc b \<noteq> None \<and> (\<exists>b' \<in> set (db_boxes db'). evolves (box_view b) (box_view b'))"
    if "b \<in> set (db_boxes db)" "bx_closedAt b \<noteq> None" for b
    using that ok(1) box_labels.run_evolves [of "box_view b" db ops']
    by (auto simp: db_def db'_def views_ok_def view_ok_def list_all_iff box_view_def)
  moreover have "pl_sscc p \<noteq> None \<and> (\<exists>p' \<in> set (db_pallets db'). evolves (pallet_view p) (pallet_view p'))"
    if "p \<in> set (db_pallets db)" "pl_closedAt p \<noteq> None" for p
    using that ok(2) pallet_labels.run_evolves [of "pallet_view p" db ops']
    by (auto simp: db_def db'_def views_ok_def view_ok_def list_all_iff pallet_view_def)
  moreover have "bx_printVerifiedAt b = None \<or> bx_printSkippedAt b = None" if "b \<in> set (db_boxes db)" for b
    using that ok(1) by (auto simp: views_ok_def view_ok_def list_all_iff box_view_def)
  moreover have "pl_printVerifiedAt p = None \<or> pl_printSkippedAt p = None" if "p \<in> set (db_pallets db)" for p
    using that ok(2) by (auto simp: views_ok_def view_ok_def list_all_iff pallet_view_def)
  ultimately show ?thesis by (intro conjI ballI impI) simp_all
qed

definition sample_ops :: "station_op list" where
  "sample_ops = [Open_box (lit ''s'') (lit ''b'') (lit ''t1'') None,
     Close_box (lit ''b'') (lit ''046'') (lit ''t2'') None None, Box_printed (lit ''b'')]"

definition sample_start :: station_db where
  "sample_start = empty_db\<lparr>db_shifts := [\<lparr>sh_id = lit ''s'', sh_mode = lit ''aggregation'',
     sh_issuerPrefix = Some (lit ''460000000''), sh_palletBoxCapacity = None\<rparr>]\<rparr>"

lemmas sample_box_eval = sample_ops_def sample_start_def empty_db_def empty_table_def station_ops openBox_def
  or_unchanged_def update_where_def new_rowid_def Let_def

theorem container_labels_final_witness:
  "\<exists>b \<in> set (db_boxes (foldl apply_op sample_start sample_ops)).
     \<exists>b' \<in> set (db_boxes (foldl apply_op (foldl apply_op sample_start sample_ops)
       [Close_box (lit ''b'') (lit ''999'') (lit ''t3'') None None])).
       bx_sscc b' = Some (lit ''046'') \<and> evolves (box_view b) (box_view b')"
proof -
  obtain b where b: "b \<in> set (db_boxes (foldl apply_op sample_start sample_ops))" "bx_closedAt b \<noteq> None"
      "bx_sscc b = Some (lit ''046'')"
    by (simp add: sample_box_eval)
  from container_labels_final [OF _ _ refl refl, of sample_start sample_ops "[Close_box (lit ''b'') (lit ''999'') (lit ''t3'') None None]"]
  have "\<exists>b' \<in> set (db_boxes (foldl apply_op (foldl apply_op sample_start sample_ops)
       [Close_box (lit ''b'') (lit ''999'') (lit ''t3'') None None])). evolves (box_view b) (box_view b')"
    using b(1,2) by (simp add: sample_start_def empty_db_def)
  moreover have "bx_sscc b' = Some (lit ''046'')" if "evolves (box_view b) (box_view b')" for b'
    using that b(3) by (simp add: evolves_def box_view_def)
  ultimately show ?thesis using b(1) by blast
qed

text \<open>C24: Label recovery makes progress: in any history of the station's boxes, the recovery query of an aggregation
  shift, asked to include printed labels for verification, returns nothing exactly when no closed box of the
  shift and terminal still awaits the outcome of its label; otherwise it returns the oldest such box with the SSCC
  and the time of its own closure, and recording either outcome for it succeeds and leaves exactly one
  box fewer to resolve.\<close>

theorem box_label_recovery:
  assumes "db_boxes db0 = []"
    and db_def: "db = foldl apply_op db0 ops"
  shows "case findUnresolvedBoxPrint db s t True of
      None \<Rightarrow> open_labels db s t = []
    | Some u \<Rightarrow>
        (\<exists>b \<in> set (open_labels db s t). bx_boxId b = ub_boxId u \<and> bx_sscc b = Some (ub_sscc u)
           \<and> bx_closedAt b = Some (ub_closedAt u)
           \<and> (\<forall>x \<in> set (open_labels db s t). sql_compare (ub_closedAt u) (the (bx_closedAt x)) \<le> 0))
        \<and> (let (db1, done1) = markPrintVerified db (ub_boxId u) at; (db2, done2) = markPrintSkipped db (ub_boxId u) at
           in done1 \<and> done2 \<and> Suc (length (open_labels db1 s t)) = length (open_labels db s t)
             \<and> Suc (length (open_labels db2 s t)) = length (open_labels db s t))"
proof (cases "findUnresolvedBoxPrint db s t True")
  case None
  then have "js_sort (by_two (\<lambda>b. the (bx_closedAt b)) bx_boxId) (open_labels db s t) = []"
    by (simp add: findUnresolvedBoxPrint_def open_labels_def)
  then have "open_labels db s t = []" by (metis length_0_conv length_js_sort)
  then show ?thesis using None by simp
next
  case (Some u)
  obtain b where b: "b \<in> set (open_labels db s t)" "ub_boxId u = bx_boxId b" "bx_sscc b = Some (ub_sscc u)"
      "bx_closedAt b = Some (ub_closedAt u)"
      "\<forall>x \<in> set (open_labels db s t). by_two (\<lambda>b. the (bx_closedAt b)) bx_boxId b x \<le> 0"
    using find_unresolved [OF Some] by blast
  have "views_ok (box_views db0)" "list_all box_state_ok (db_boxes db0)" using assms(1) by (simp_all add: views_ok_def)
  from box_labels.run_ok [OF this(1), of ops] box_state_run [OF this(2), of ops]
  have "views_ok (box_views db)" "list_all box_state_ok (db_boxes db)" by (simp_all only: db_def)
  then have d: "distinct (map bx_boxId (db_boxes db))" and st: "box_state_ok b"
    using b(1) by (auto simp: views_ok_def box_view_def comp_def list_all_iff open_labels_def)
  let ?Q = "\<lambda>b. aggregation_shift db (bx_shiftId b) \<and> bx_shiftId b = s \<and> bx_terminalId b = t \<and> box_unresolved True b"
  have m: "b \<in> set (db_boxes db)" "?Q b" using b(1) by (auto simp: open_labels_def)
  have P: "box_awaits_outcome (ub_boxId u) = (\<lambda>x. bx_boxId x = bx_boxId b
      \<and> (bx_printState x \<in> {PS_pending, PS_printed} \<and> bx_printVerifiedAt x = None \<and> bx_printSkippedAt x = None))"
    by (auto simp: box_awaits_outcome_def b(2) fun_eq_iff)
  have A: "bx_printState b \<in> {PS_pending, PS_printed} \<and> bx_printVerifiedAt b = None \<and> bx_printSkippedAt b = None"
    using unresolved_awaits [OF st] m(2) by (simp add: box_awaits_outcome_def)
  have same: "aggregation_shift (db\<lparr>db_boxes := x\<rparr>) = aggregation_shift db" "db_boxes (db\<lparr>db_boxes := x\<rparr>) = x" for x
    by (simp_all add: aggregation_shift_def fun_eq_iff)
  have "sql_compare (ub_closedAt u) (the (bx_closedAt x)) \<le> 0" if "x \<in> set (open_labels db s t)" for x
    using b(4,5) that by (auto simp: by_two_le sql_compare_le)
  moreover have "snd (markPrintVerified db (ub_boxId u) at)
      \<and> Suc (length (open_labels (fst (markPrintVerified db (ub_boxId u) at)) s t)) = length (open_labels db s t)"
    unfolding markPrintVerified_def open_labels_def fst_conv snd_conv same(1) same(2)
    by (rule resolve_one [where Q = ?Q, OF d m P A]) (simp add: box_unresolved_def)
  moreover have "snd (markPrintSkipped db (ub_boxId u) at)
      \<and> Suc (length (open_labels (fst (markPrintSkipped db (ub_boxId u) at)) s t)) = length (open_labels db s t)"
    unfolding markPrintSkipped_def open_labels_def fst_conv snd_conv same(1) same(2)
    by (rule resolve_one [where Q = ?Q, OF d m P A]) (simp add: box_unresolved_def)
  ultimately show ?thesis using Some b(1-4) by (auto simp: case_prod_beta)
qed

theorem box_label_recovery_witness:
  "open_labels (fst (markPrintVerified (foldl apply_op sample_start sample_ops) (lit ''b'') (lit ''t4''))) (lit ''s'') None = []"
proof -
  let ?db = "foldl apply_op sample_start sample_ops"
  obtain u where u: "findUnresolvedBoxPrint ?db (lit ''s'') None True = Some u" "ub_boxId u = lit ''b''"
    by (simp add: findUnresolvedBoxPrint_def sample_box_eval aggregation_shift_def box_unresolved_def js_sort_def first_row_def)
  have "length (open_labels ?db (lit ''s'') None) = 1"
    by (simp add: open_labels_def sample_box_eval aggregation_shift_def box_unresolved_def)
  moreover have "db_boxes sample_start = []" by (simp add: sample_start_def empty_db_def)
  ultimately show ?thesis
    using box_label_recovery [OF _ refl, of sample_start sample_ops "lit ''s''" None "lit ''t4''"] u
    by (simp add: case_prod_beta Let_def)
qed

end
