(* ===== verification/Box_Closing.thy ===== *)
theory Box_Closing
  imports Station_Boxes "HOL-Library.Multiset"
begin

text \<open>
  Closing the current box and the current pallet (\<open>apps/station/src/lib/close-box.ts\<close>,
  \<open>close-pallet.ts\<close>, for a device without installed grants). The database offers no transactions
  across statements, so other closers, the operator's other actions and the synchronisation run
  between any two statements of a closer. A closer is therefore a machine whose step is one
  statement together with the computation up to the next one; the time and the random identifier a
  step may use are its inputs. The sequential reading of the same code is given as plain functions.
\<close>

section \<open>Results\<close>

definition BOX_EXTENSION_DIGIT :: int where
  "BOX_EXTENSION_DIGIT = 0"

definition PALLET_EXTENSION_DIGIT :: int where
  "PALLET_EXTENSION_DIGIT = 1"

record close_deps =
  cd_issuerPrefix :: jstring
  cd_palletBoxCapacity :: "nat option"
  cd_terminalId :: "jstring option"

datatype close_pallet_result =
    Pallet_closed jstring jstring nat jstring
  | Pallet_no_serials
  | Pallet_empty
  | Pallet_invalid_serial
  | Pallet_already_closed

datatype close_box_result =
    Box_closed jstring nat jstring "close_pallet_result option"
  | Box_no_serials
  | Box_empty
  | Box_invalid_serial
  | Box_already_closed

text \<open>What can be thrown: the refusal of an installed grant, an error of \<open>buildSscc\<close>, a refused insert.\<close>

datatype close_failure = Grant_aware_owner_required | Not_numbered js_error | Insert_refused

section \<open>One statement at a time\<close>

datatype pallet_pc =
    P_check
  | P_read
  | P_burn device_pallet
  | P_close device_pallet jstring jstring
  | P_done close_pallet_result
  | P_throw close_failure

definition pallet_step ::
    "close_deps \<Rightarrow> jstring \<Rightarrow> jstring option \<Rightarrow> jstring \<Rightarrow> station_db \<Rightarrow> pallet_pc \<Rightarrow> station_db \<times> pallet_pc" where
  "pallet_step deps shiftId operatorId now db pc = (case pc of
     P_check \<Rightarrow> (db, if db_grantInstalled db then P_throw Grant_aware_owner_required else P_read)
   | P_read \<Rightarrow> (db, case currentPallet db shiftId (cd_terminalId deps) of
        None \<Rightarrow> P_done Pallet_empty
      | Some pallet \<Rightarrow> if dp_boxCount pallet = 0 then P_done Pallet_empty else P_burn pallet)
   | P_burn pallet \<Rightarrow>
       (case burnSerial (db_pool db) (cd_issuerPrefix deps) PALLET_EXTENSION_DIGIT of
          (pool, None) \<Rightarrow> (db\<lparr>db_pool := pool\<rparr>, P_done Pallet_no_serials)
        | (pool, Some serial) \<Rightarrow> (db\<lparr>db_pool := pool\<rparr>,
            case buildSscc (JInt PALLET_EXTENSION_DIGIT) (cd_issuerPrefix deps) (JInt serial) of
              Inl e \<Rightarrow> if e = DomainError SSCC_RANGE then P_done Pallet_invalid_serial else P_throw (Not_numbered e)
            | Inr sscc \<Rightarrow> P_close pallet sscc now))
   | P_close pallet sscc closedAt \<Rightarrow>
       (case closePallet db (dp_palletId pallet) sscc closedAt operatorId of
          (db', closed) \<Rightarrow> (db', P_done (if closed then Pallet_closed (dp_palletId pallet) sscc (dp_boxCount pallet) closedAt
             else Pallet_already_closed)))
   | _ \<Rightarrow> (db, pc))"

datatype box_pc =
    B_check
  | B_read
  | B_burn device_box
  | B_pallet device_box jstring jstring
  | B_open device_box jstring jstring
  | B_close device_box jstring jstring "device_pallet option"
  | B_closing_pallet jstring nat jstring pallet_pc
  | B_done close_box_result
  | B_throw close_failure

text \<open>The step of the nested pallet closer, and what its end means for the box closer.\<close>

definition nest :: "jstring \<Rightarrow> nat \<Rightarrow> jstring \<Rightarrow> pallet_pc \<Rightarrow> box_pc" where
  "nest sscc itemCount closedAt pc = (case pc of
     P_done r \<Rightarrow> B_done (Box_closed sscc itemCount closedAt (Some r))
   | P_throw e \<Rightarrow> B_throw e
   | _ \<Rightarrow> B_closing_pallet sscc itemCount closedAt pc)"

definition box_step ::
    "close_deps \<Rightarrow> jstring \<Rightarrow> jstring option \<Rightarrow> jstring \<Rightarrow> jstring \<Rightarrow> station_db \<Rightarrow> box_pc \<Rightarrow> station_db \<times> box_pc" where
  "box_step deps shiftId operatorId now uuid db pc = (case pc of
     B_check \<Rightarrow> (db, if db_grantInstalled db then B_throw Grant_aware_owner_required else B_read)
   | B_read \<Rightarrow> (db, case currentBox db shiftId of
        None \<Rightarrow> B_done Box_empty
      | Some box \<Rightarrow> if db_box_itemCount box = 0 then B_done Box_empty else B_burn box)
   | B_burn box \<Rightarrow>
       (case burnSerial (db_pool db) (cd_issuerPrefix deps) BOX_EXTENSION_DIGIT of
          (pool, None) \<Rightarrow> (db\<lparr>db_pool := pool\<rparr>, B_done Box_no_serials)
        | (pool, Some serial) \<Rightarrow> (db\<lparr>db_pool := pool\<rparr>,
            case buildSscc (JInt BOX_EXTENSION_DIGIT) (cd_issuerPrefix deps) (JInt serial) of
              Inl e \<Rightarrow> if e = DomainError SSCC_RANGE then B_done Box_invalid_serial else B_throw (Not_numbered e)
            | Inr sscc \<Rightarrow> if cd_palletBoxCapacity deps = None then B_close box sscc now None else B_pallet box sscc now))
   | B_pallet box sscc closedAt \<Rightarrow> (db, case currentPallet db shiftId (cd_terminalId deps) of
        None \<Rightarrow> B_open box sscc closedAt
      | Some pallet \<Rightarrow> B_close box sscc closedAt (Some pallet))
   | B_open box sscc closedAt \<Rightarrow> (case openPallet db uuid shiftId (cd_terminalId deps) closedAt of
        None \<Rightarrow> (db, B_throw Insert_refused)
      | Some db' \<Rightarrow> (db', B_close box sscc closedAt (Some \<lparr>dp_palletId = uuid, dp_shiftId = shiftId,
          dp_terminalId = cd_terminalId deps, dp_openedAt = closedAt, dp_boxCount = 0, dp_lastBoxSscc = None\<rparr>)))
   | B_close box sscc closedAt joiningPallet \<Rightarrow>
       (case closeBox db (db_box_boxId box) sscc closedAt operatorId (map_option dp_palletId joiningPallet) of
          (db', closed) \<Rightarrow> (db',
            if \<not> closed then B_done Box_already_closed
            else case (joiningPallet, cd_palletBoxCapacity deps) of
              (Some pallet, Some capacity) \<Rightarrow>
                if capacity \<le> dp_boxCount pallet + 1 then B_closing_pallet sscc (db_box_itemCount box) closedAt P_check
                else B_done (Box_closed sscc (db_box_itemCount box) closedAt None)
            | _ \<Rightarrow> B_done (Box_closed sscc (db_box_itemCount box) closedAt None)))
   | B_closing_pallet sscc itemCount closedAt ppc \<Rightarrow>
       (case pallet_step deps shiftId operatorId now db ppc of
          (db', ppc') \<Rightarrow> (db', nest sscc itemCount closedAt ppc'))
   | _ \<Rightarrow> (db, pc))"

section \<open>The same code run without interruption\<close>

definition closeCurrentPallet ::
    "close_deps \<Rightarrow> jstring \<Rightarrow> jstring option \<Rightarrow> jstring \<Rightarrow> station_db \<Rightarrow> station_db \<times> (close_failure + close_pallet_result)" where
  "closeCurrentPallet deps shiftId operatorId now db =
     (if db_grantInstalled db then (db, Inl Grant_aware_owner_required)
      else case currentPallet db shiftId (cd_terminalId deps) of
        None \<Rightarrow> (db, Inr Pallet_empty)
      | Some pallet \<Rightarrow>
          if dp_boxCount pallet = 0 then (db, Inr Pallet_empty)
          else case burnSerial (db_pool db) (cd_issuerPrefix deps) PALLET_EXTENSION_DIGIT of
            (_, None) \<Rightarrow> (db, Inr Pallet_no_serials)
          | (pool, Some serial) \<Rightarrow>
              (let db = db\<lparr>db_pool := pool\<rparr>
               in case buildSscc (JInt PALLET_EXTENSION_DIGIT) (cd_issuerPrefix deps) (JInt serial) of
                 Inl e \<Rightarrow> (db, if e = DomainError SSCC_RANGE then Inr Pallet_invalid_serial else Inl (Not_numbered e))
               | Inr sscc \<Rightarrow>
                   (case closePallet db (dp_palletId pallet) sscc now operatorId of
                      (db', True) \<Rightarrow> (db', Inr (Pallet_closed (dp_palletId pallet) sscc (dp_boxCount pallet) now))
                    | (db', False) \<Rightarrow> (db', Inr Pallet_already_closed))))"

definition joining_pallet ::
    "close_deps \<Rightarrow> jstring \<Rightarrow> jstring \<Rightarrow> jstring \<Rightarrow> station_db \<Rightarrow> station_db \<times> (close_failure + device_pallet option)" where
  "joining_pallet deps shiftId now uuid db =
     (if cd_palletBoxCapacity deps = None then (db, Inr None)
      else case currentPallet db shiftId (cd_terminalId deps) of
        Some pallet \<Rightarrow> (db, Inr (Some pallet))
      | None \<Rightarrow>
          case openPallet db uuid shiftId (cd_terminalId deps) now of
            None \<Rightarrow> (db, Inl Insert_refused)
          | Some db' \<Rightarrow> (db', Inr (Some \<lparr>dp_palletId = uuid, dp_shiftId = shiftId, dp_terminalId = cd_terminalId deps,
              dp_openedAt = now, dp_boxCount = 0, dp_lastBoxSscc = None\<rparr>)))"

definition closeCurrentBox ::
    "close_deps \<Rightarrow> jstring \<Rightarrow> jstring option \<Rightarrow> jstring \<Rightarrow> jstring \<Rightarrow> station_db \<Rightarrow> station_db \<times> (close_failure + close_box_result)" where
  "closeCurrentBox deps shiftId operatorId now uuid db =
     (if db_grantInstalled db then (db, Inl Grant_aware_owner_required)
      else case currentBox db shiftId of
        None \<Rightarrow> (db, Inr Box_empty)
      | Some box \<Rightarrow>
          if db_box_itemCount box = 0 then (db, Inr Box_empty)
          else case burnSerial (db_pool db) (cd_issuerPrefix deps) BOX_EXTENSION_DIGIT of
            (_, None) \<Rightarrow> (db, Inr Box_no_serials)
          | (pool, Some serial) \<Rightarrow>
              (let db = db\<lparr>db_pool := pool\<rparr>
               in case buildSscc (JInt BOX_EXTENSION_DIGIT) (cd_issuerPrefix deps) (JInt serial) of
                 Inl e \<Rightarrow> (db, if e = DomainError SSCC_RANGE then Inr Box_invalid_serial else Inl (Not_numbered e))
               | Inr sscc \<Rightarrow>
                   (case joining_pallet deps shiftId now uuid db of
                      (db, Inl e) \<Rightarrow> (db, Inl e)
                    | (db, Inr joining) \<Rightarrow>
                        (case closeBox db (db_box_boxId box) sscc now operatorId (map_option dp_palletId joining) of
                           (db, False) \<Rightarrow> (db, Inr Box_already_closed)
                         | (db, True) \<Rightarrow>
                             (let unsealed = Inr (Box_closed sscc (db_box_itemCount box) now None)
                              in case (joining, cd_palletBoxCapacity deps) of
                                (Some pallet, Some capacity) \<Rightarrow>
                                  if capacity \<le> dp_boxCount pallet + 1
                                  then (case closeCurrentPallet deps shiftId operatorId now db of
                                          (db, Inl e) \<Rightarrow> (db, Inl e)
                                        | (db, Inr r) \<Rightarrow> (db, Inr (Box_closed sscc (db_box_itemCount box) now (Some r))))
                                  else (db, unsealed)
                              | _ \<Rightarrow> (db, unsealed))))))"

section \<open>Any number of closers\<close>

datatype close_proc =
    Box_proc close_deps jstring "jstring option" box_pc
  | Pallet_proc close_deps jstring "jstring option" pallet_pc

fun proc_step :: "jstring \<Rightarrow> jstring \<Rightarrow> station_db \<Rightarrow> close_proc \<Rightarrow> station_db \<times> close_proc" where
  "proc_step now uuid db (Box_proc deps s u pc) = map_prod id (Box_proc deps s u) (box_step deps s u now uuid db pc)"
| "proc_step now uuid db (Pallet_proc deps s u pc) = map_prod id (Pallet_proc deps s u) (pallet_step deps s u now db pc)"

fun proc_prefix :: "close_proc \<Rightarrow> jstring" where
  "proc_prefix (Box_proc deps s u pc) = cd_issuerPrefix deps"
| "proc_prefix (Pallet_proc deps s u pc) = cd_issuerPrefix deps"

fun is_close :: "station_op \<Rightarrow> bool" where
  "is_close (Close_box b c at u p) = True"
| "is_close (Close_pallet p c at u) = True"
| "is_close _ = False"

text \<open>
  Every interleaving: closers start at any time and take one step at a time; between their steps
  the station runs any other statement on boxes and pallets, stores or removes codes, and receives or
  loses blocks of serials. The issuer prefixes of a device have one length \<open>n\<close>.
\<close>

inductive station_run :: "block set \<Rightarrow> nat \<Rightarrow> station_db \<Rightarrow> close_proc list \<Rightarrow> block set \<Rightarrow> bool"
  for G :: "block set" and n :: nat where
  start: "db_pool db = [] \<Longrightarrow> db_boxes db = [] \<Longrightarrow> db_pallets db = [] \<Longrightarrow> station_run G n db [] {}"
| start_box: "station_run G n db ps R \<Longrightarrow> length (cd_issuerPrefix deps) = n
    \<Longrightarrow> station_run G n db (ps @ [Box_proc deps s u B_check]) R"
| start_pallet: "station_run G n db ps R \<Longrightarrow> length (cd_issuerPrefix deps) = n
    \<Longrightarrow> station_run G n db (ps @ [Pallet_proc deps s u P_check]) R"
| closer: "station_run G n db ps R \<Longrightarrow> i < length ps \<Longrightarrow> proc_step now uuid db (ps ! i) = (db', p)
    \<Longrightarrow> station_run G n db' (ps[i := p]) R"
| other: "station_run G n db ps R \<Longrightarrow> \<not> is_close op \<Longrightarrow> station_run G n (apply_op db op) ps R"
| codes: "station_run G n db ps R \<Longrightarrow> station_run G n (db\<lparr>db_codes := cs\<rparr>) ps R"
| grant: "station_run G n db ps R \<Longrightarrow> range_ok r \<Longrightarrow> block_of r \<in> G \<Longrightarrow> block_of r \<notin> R
    \<Longrightarrow> station_run G n (db\<lparr>db_pool := addRange (db_pool db) r\<rparr>) ps R"
| revoke: "station_run G n db ps R
    \<Longrightarrow> station_run G n (db\<lparr>db_pool := dropRanges (db_pool db) p d fs\<rparr>) ps (R \<union> revoked p d fs)"

section \<open>Numbers\<close>

text \<open>
  A number is an SSCC with the extension digit it was issued for: stored in a row, held by a closer
  that has burned its serial and not stored it yet, or claimed by a closer that reports success.
\<close>

definition numbers :: "label_view list \<Rightarrow> jstring list" where
  "numbers vs = concat (map (\<lambda>v. case lv_sscc v of None \<Rightarrow> [] | Some c \<Rightarrow> [c]) vs)"

definition stored :: "station_db \<Rightarrow> (int \<times> jstring) list" where
  "stored db = map (Pair 0) (numbers (box_views db)) @ map (Pair 1) (numbers (pallet_views db))"

fun pallet_held :: "pallet_pc \<Rightarrow> (int \<times> jstring) list" where
  "pallet_held (P_close pallet c at) = [(1, c)]"
| "pallet_held _ = []"

fun box_held :: "box_pc \<Rightarrow> (int \<times> jstring) list" where
  "box_held (B_pallet box c at) = [(0, c)]"
| "box_held (B_open box c at) = [(0, c)]"
| "box_held (B_close box c at j) = [(0, c)]"
| "box_held (B_closing_pallet c k at pc) = pallet_held pc"
| "box_held _ = []"

fun held :: "close_proc \<Rightarrow> (int \<times> jstring) list" where
  "held (Box_proc deps s u pc) = box_held pc"
| "held (Pallet_proc deps s u pc) = pallet_held pc"

fun pallet_claim :: "close_pallet_result \<Rightarrow> (int \<times> jstring) list" where
  "pallet_claim (Pallet_closed p c k at) = [(1, c)]"
| "pallet_claim _ = []"

fun pallet_claimed :: "pallet_pc \<Rightarrow> (int \<times> jstring) list" where
  "pallet_claimed (P_done r) = pallet_claim r"
| "pallet_claimed _ = []"

fun box_claimed :: "box_pc \<Rightarrow> (int \<times> jstring) list" where
  "box_claimed (B_closing_pallet c k at pc) = (0, c) # pallet_claimed pc"
| "box_claimed (B_done (Box_closed c k at r)) = (0, c) # (case r of None \<Rightarrow> [] | Some r \<Rightarrow> pallet_claim r)"
| "box_claimed _ = []"

fun claimed :: "close_proc \<Rightarrow> (int \<times> jstring) list" where
  "claimed (Box_proc deps s u pc) = box_claimed pc"
| "claimed (Pallet_proc deps s u pc) = pallet_claimed pc"

section \<open>Lemmas: what a step does to the numbers\<close>

lemma numbers_append [simp]: "numbers (vs @ ws) = numbers vs @ numbers ws"
  by (simp add: numbers_def)

lemma numbers_cong: "map lv_sscc vs = map lv_sscc ws \<Longrightarrow> numbers vs = numbers ws"
proof -
  have "numbers vs = concat (map (\<lambda>x. case x of None \<Rightarrow> [] | Some c \<Rightarrow> [c]) (map lv_sscc vs))" for vs
    by (simp add: numbers_def comp_def)
  then show "map lv_sscc vs = map lv_sscc ws \<Longrightarrow> ?thesis" by metis
qed

lemma numbers_drop: "(\<And>r. r \<in> set rows \<Longrightarrow> \<not> P r \<Longrightarrow> lv_sscc (f r) = None) \<Longrightarrow> numbers (map f (filter P rows)) = numbers (map f rows)"
  by (induction rows) (auto simp: numbers_def)

lemma numbers_update:
  "(\<And>r. P r \<Longrightarrow> lv_sscc (f (g r)) = lv_sscc (f r)) \<Longrightarrow> numbers (map f (update_where P g rows)) = numbers (map f rows)"
  by (rule numbers_cong) (simp add: update_where_def)

lemma numbers_store:
  assumes d: "distinct (map key rows)" and one: "one_row (\<lambda>r. key r = k \<and> A r) rows"
    and none: "\<And>r. r \<in> set rows \<Longrightarrow> A r \<Longrightarrow> lv_sscc (f r) = None" and new: "\<And>r. lv_sscc (f (g r)) = Some c"
  shows "mset (numbers (map f (update_where (\<lambda>r. key r = k \<and> A r) g rows))) = add_mset c (mset (numbers (map f rows)))"
proof -
  have "filter (\<lambda>r. key r = k \<and> A r) rows \<noteq> []" using one by (auto simp: one_row_def)
  then obtain r where r: "r \<in> set rows" "key r = k" "A r" by (auto simp: filter_empty_conv)
  obtain us vs where split: "rows = us @ r # vs" using r(1) by (meson split_list)
  have "k \<notin> key ` set us" "k \<notin> key ` set vs" using d r(2) by (auto simp: split)
  then have "update_where (\<lambda>r. key r = k \<and> A r) g us = us" "update_where (\<lambda>r. key r = k \<and> A r) g vs = vs"
    by (auto simp: update_where_def intro!: map_idI)
  then have "update_where (\<lambda>r. key r = k \<and> A r) g rows = us @ g r # vs"
    using r(2,3) by (simp add: split update_where_def)
  then show ?thesis using none [OF r(1,3)] new by (simp add: split numbers_def)
qed

lemma no_row_update:
  assumes "distinct (map key rows)" "\<not> one_row (\<lambda>r. key r = k \<and> A r) rows"
  shows "update_where (\<lambda>r. key r = k \<and> A r) g rows = rows"
proof -
  have "filter (\<lambda>r. key r = k \<and> A r) rows = []"
  proof (rule ccontr)
    assume "filter (\<lambda>r. key r = k \<and> A r) rows \<noteq> []"
    then obtain r where r: "r \<in> set rows" "key r = k" "A r" by (auto simp: filter_empty_conv)
    obtain us vs where split: "rows = us @ r # vs" using r(1) by (meson split_list)
    have "k \<notin> key ` set us" "k \<notin> key ` set vs" using assms(1) r(2) by (auto simp: split)
    then have "filter (\<lambda>r. key r = k \<and> A r) us = []" "filter (\<lambda>r. key r = k \<and> A r) vs = []"
      by (auto simp: filter_empty_conv)
    then show False using assms(2) r by (simp add: split one_row_def)
  qed
  then show ?thesis by (auto simp: update_where_def filter_empty_conv intro!: map_idI)
qed

lemma other_numbers:
  assumes "views_ok (box_views db)" "\<not> is_close op"
  shows "numbers (box_views (apply_op db op)) = numbers (box_views db)
    \<and> numbers (pallet_views (apply_op db op)) = numbers (pallet_views db)"
proof (cases op)
  case (Open_box s b at t)
  then show ?thesis by (simp add: openBox_def or_unchanged_def) (simp add: numbers_def box_view_def)
next
  case (Open_pallet p s t at)
  then show ?thesis by (simp add: openPallet_def or_unchanged_def) (simp add: numbers_def pallet_view_def)
next
  case (Remove_empty s)
  have "lv_sscc (box_view b) = None" if "b \<in> set (db_boxes db)" "bx_closedAt b = None" for b
    using assms(1) that by (auto simp: views_ok_def view_ok_def list_all_iff box_view_def)
  then have "numbers (map box_view (filter (\<lambda>b. \<not> (bx_shiftId b = s \<and> bx_closedAt b = None \<and> item_count db (bx_boxId b) = 0))
      (db_boxes db))) = numbers (box_views db)" by (intro numbers_drop) blast
  then show ?thesis using Remove_empty by (simp add: removeEmptyOpenBoxes_def)
qed (use assms(2) in \<open>auto simp: station_ops Let_def box_view_def pallet_view_def intro!: numbers_update\<close>)

lemma box_keys: "views_ok (box_views db) \<Longrightarrow> distinct (map bx_boxId (db_boxes db))"
  by (simp add: views_ok_def box_view_def comp_def)

lemma pallet_keys: "views_ok (pallet_views db) \<Longrightarrow> distinct (map pl_palletId (db_pallets db))"
  by (simp add: views_ok_def pallet_view_def comp_def)

lemma closeBox_stored:
  assumes "views_ok (box_views db)" "closeBox db b c at u p = (db', closed)"
  shows "db_pool db' = db_pool db \<and> mset (stored db') = (if closed then add_mset (0, c) (mset (stored db)) else mset (stored db))"
proof -
  have none: "lv_sscc (box_view x) = None" if "x \<in> set (db_boxes db)" "bx_closedAt x = None" for x
    using assms(1) that by (auto simp: views_ok_def view_ok_def list_all_iff box_view_def)
  note upd = numbers_store [where key = bx_boxId and k = b and A = "\<lambda>x. bx_closedAt x = None" and f = box_view and c = c,
      OF box_keys [OF assms(1)] _ none]
  note same = no_row_update [where key = bx_boxId and k = b and A = "\<lambda>x. bx_closedAt x = None", OF box_keys [OF assms(1)]]
  show ?thesis
    using assms(2) upd same by (auto simp: closeBox_def Let_def stored_def box_view_def)
qed

lemma closePallet_stored:
  assumes "views_ok (pallet_views db)" "closePallet db p c at u = (db', closed)"
  shows "db_pool db' = db_pool db \<and> mset (stored db') = (if closed then add_mset (1, c) (mset (stored db)) else mset (stored db))"
proof -
  have none: "lv_sscc (pallet_view x) = None" if "x \<in> set (db_pallets db)" "pl_closedAt x = None" for x
    using assms(1) that by (auto simp: views_ok_def view_ok_def list_all_iff pallet_view_def)
  note upd = numbers_store [where key = pl_palletId and k = p and A = "\<lambda>x. pl_closedAt x = None" and f = pallet_view and c = c,
      OF pallet_keys [OF assms(1)] _ none]
  note same = no_row_update [where key = pl_palletId and k = p and A = "\<lambda>x. pl_closedAt x = None", OF pallet_keys [OF assms(1)]]
  show ?thesis
    using assms(2) upd same by (auto simp: closePallet_def Let_def stored_def pallet_view_def)
qed

text \<open>Everything a step can do, as far as numbers are concerned.\<close>

datatype number_effect = Quiet | Burned int int | Stored "int \<times> jstring"

definition has_effect ::
    "jstring \<Rightarrow> station_db \<Rightarrow> (int \<times> jstring) list \<Rightarrow> (int \<times> jstring) list \<Rightarrow> station_db
       \<Rightarrow> (int \<times> jstring) list \<Rightarrow> (int \<times> jstring) list \<Rightarrow> number_effect \<Rightarrow> bool" where
  "has_effect prefix db h cl db' h' cl' e = (case e of
     Quiet \<Rightarrow> db_pool db' = db_pool db \<and> mset (stored db') = mset (stored db) \<and> mset h' \<subseteq># mset h \<and> mset cl' \<subseteq># mset cl
   | Burned d s \<Rightarrow> burnSerial (db_pool db) prefix d = (db_pool db', Some s) \<and> stored db' = stored db \<and> h = [] \<and> mset cl' \<subseteq># mset cl
       \<and> (h' = [] \<or> (\<exists>c. h' = [(d, c)] \<and> buildSscc (JInt d) prefix (JInt s) = Inr c))
   | Stored t \<Rightarrow> db_pool db' = db_pool db \<and> h = [t] \<and> h' = [] \<and> mset (stored db') = add_mset t (mset (stored db))
       \<and> mset cl' \<subseteq># add_mset t (mset cl))"

lemma burn_None: "burnSerial rows p d = (rows', None) \<Longrightarrow> rows' = rows"
  by (auto simp: burnSerial_def split: option.splits)

lemma pool_update_stored [simp]: "stored (db\<lparr>db_pool := x\<rparr>) = stored db"
  by (simp add: stored_def)

lemma pallet_effect:
  assumes "views_ok (pallet_views db)" "pallet_step deps s u now db pc = (db', pc')"
  shows "\<exists>e. has_effect (cd_issuerPrefix deps) db (pallet_held pc) (pallet_claimed pc) db' (pallet_held pc') (pallet_claimed pc') e"
proof (cases pc)
  case (P_burn pallet)
  show ?thesis
  proof (cases "snd (burnSerial (db_pool db) (cd_issuerPrefix deps) 1)")
    case None
    then show ?thesis using assms(2) P_burn
      by (intro exI [of _ Quiet]) (auto simp: pallet_step_def has_effect_def PALLET_EXTENSION_DIGIT_def dest: burn_None split: prod.splits)
  next
    case (Some serial)
    then show ?thesis using assms(2) P_burn
      by (intro exI [of _ "Burned 1 serial"])
        (auto simp: pallet_step_def has_effect_def PALLET_EXTENSION_DIGIT_def split: prod.splits sum.splits if_splits)
  qed
next
  case (P_close pallet c at)
  obtain closed where cl: "closePallet db (dp_palletId pallet) c at u = (db', closed)"
    using assms(2) P_close by (auto simp: pallet_step_def split: prod.splits)
  show ?thesis using closePallet_stored [OF assms(1) cl] assms(2) P_close cl
    by (intro exI [of _ "if closed then Stored (1, c) else Quiet"]) (auto simp: pallet_step_def has_effect_def)
qed (use assms(2) in \<open>auto simp: pallet_step_def has_effect_def intro!: exI [of _ Quiet] split: option.splits if_splits\<close>)

lemma openPallet_stored: "openPallet db p s t at = Some db' \<Longrightarrow> db_pool db' = db_pool db \<and> stored db' = stored db"
  by (auto simp: openPallet_def stored_def numbers_def pallet_view_def split: if_splits)

lemma nest_held [simp]: "box_held (nest c k at pc) = pallet_held pc"
  by (cases pc) (simp_all add: nest_def)

lemma nest_claimed: "mset (box_claimed (nest c k at pc)) \<subseteq># add_mset (0, c) (mset (pallet_claimed pc))"
  by (cases pc) (simp_all add: nest_def)

lemma effect_nested:
  assumes "has_effect prefix db h cl db' h' cl' e" "mset cl'' \<subseteq># add_mset t (mset cl')"
  shows "has_effect prefix db h (t # cl) db' h' cl'' e"
proof (cases e)
  case Quiet
  then have "add_mset t (mset cl') \<subseteq># add_mset t (mset cl)" using assms(1) by (simp add: has_effect_def)
  then show ?thesis using Quiet assms subset_mset.order_trans by (fastforce simp: has_effect_def)
next
  case (Burned d x)
  then have "add_mset t (mset cl') \<subseteq># add_mset t (mset cl)" using assms(1) by (simp add: has_effect_def)
  then show ?thesis using Burned assms subset_mset.order_trans by (fastforce simp: has_effect_def)
next
  case (Stored y)
  then have "add_mset t (mset cl') \<subseteq># add_mset y (add_mset t (mset cl))"
    using assms(1) by (simp add: has_effect_def add_mset_commute)
  then show ?thesis using Stored assms subset_mset.order_trans by (fastforce simp: has_effect_def)
qed

lemma box_effect:
  assumes "views_ok (box_views db)" "views_ok (pallet_views db)" "box_step deps s u now uuid db pc = (db', pc')"
  shows "\<exists>e. has_effect (cd_issuerPrefix deps) db (box_held pc) (box_claimed pc) db' (box_held pc') (box_claimed pc') e"
proof (cases pc)
  case (B_burn box)
  show ?thesis
  proof (cases "snd (burnSerial (db_pool db) (cd_issuerPrefix deps) 0)")
    case None
    then show ?thesis using assms(3) B_burn
      by (intro exI [of _ Quiet]) (auto simp: box_step_def has_effect_def BOX_EXTENSION_DIGIT_def dest: burn_None split: prod.splits)
  next
    case (Some serial)
    then show ?thesis using assms(3) B_burn
      by (intro exI [of _ "Burned 0 serial"])
        (auto simp: box_step_def has_effect_def BOX_EXTENSION_DIGIT_def split: prod.splits sum.splits if_splits)
  qed
next
  case (B_open box c at)
  then show ?thesis using assms(3) openPallet_stored
    by (intro exI [of _ Quiet]) (auto simp: box_step_def has_effect_def split: option.splits)
next
  case (B_close box c at j)
  obtain closed where cl: "closeBox db (db_box_boxId box) c at u (map_option dp_palletId j) = (db', closed)"
    using assms(3) B_close by (auto simp: box_step_def split: prod.splits)
  show ?thesis using closeBox_stored [OF assms(1) cl] assms(3) B_close cl
    by (intro exI [of _ "if closed then Stored (0, c) else Quiet"])
      (auto simp: box_step_def has_effect_def split: option.splits if_splits)
next
  case (B_closing_pallet c k at ppc)
  obtain ppc' where p: "pallet_step deps s u now db ppc = (db', ppc')" "pc' = nest c k at ppc'"
    using assms(3) B_closing_pallet by (auto simp: box_step_def split: prod.splits)
  obtain e where e: "has_effect (cd_issuerPrefix deps) db (pallet_held ppc) (pallet_claimed ppc) db' (pallet_held ppc')
      (pallet_claimed ppc') e"
    using pallet_effect [OF assms(2) p(1)] by blast
  show ?thesis using effect_nested [OF e nest_claimed [of c k at ppc']] B_closing_pallet p(2) by auto
qed (use assms(3) in \<open>auto simp: box_step_def has_effect_def intro!: exI [of _ Quiet] split: option.splits if_splits\<close>)

lemma proc_effect:
  assumes "views_ok (box_views db)" "views_ok (pallet_views db)" "proc_step now uuid db p = (db', p')"
  shows "proc_prefix p' = proc_prefix p \<and> (\<exists>e. has_effect (proc_prefix p) db (held p) (claimed p) db' (held p') (claimed p') e)"
proof (cases p)
  case (Box_proc deps s u pc)
  then obtain pc' where "box_step deps s u now uuid db pc = (db', pc')" "p' = Box_proc deps s u pc'"
    using assms(3) by (auto simp: map_prod_def split: prod.splits)
  then show ?thesis using box_effect [OF assms(1,2)] Box_proc by auto
next
  case (Pallet_proc deps s u pc)
  then obtain pc' where "pallet_step deps s u now db pc = (db', pc')" "p' = Pallet_proc deps s u pc'"
    using assms(3) by (auto simp: map_prod_def split: prod.splits)
  then show ?thesis using pallet_effect [OF assms(2)] Pallet_proc by auto
qed

text \<open>Every step of a closer is a statement on boxes or pallets, or one on the pool.\<close>

definition one_statement :: "station_db \<Rightarrow> station_db \<Rightarrow> bool" where
  "one_statement db db' \<longleftrightarrow> (\<exists>pool. db' = db\<lparr>db_pool := pool\<rparr>) \<or> (\<exists>op. db' = apply_op db op)"

lemma pallet_statement: "pallet_step deps s u now db pc = (db', pc') \<Longrightarrow> one_statement db db'"
proof (cases pc)
  case (P_close pallet c at)
  assume "pallet_step deps s u now db pc = (db', pc')"
  then have "db' = apply_op db (Close_pallet (dp_palletId pallet) c at u)"
    using P_close by (auto simp: pallet_step_def split: prod.splits)
  then show ?thesis unfolding one_statement_def by blast
qed (auto simp: pallet_step_def one_statement_def split: prod.splits option.splits intro: exI [of _ "db_pool db"])

lemma box_statement: "box_step deps s u now uuid db pc = (db', pc') \<Longrightarrow> one_statement db db'"
proof (cases pc)
  case (B_open box c at)
  assume "box_step deps s u now uuid db pc = (db', pc')"
  then have "db' = apply_op db (Open_pallet uuid s (cd_terminalId deps) at)"
    using B_open by (auto simp: box_step_def or_unchanged_def split: option.splits)
  then show ?thesis unfolding one_statement_def by blast
next
  case (B_close box c at j)
  assume "box_step deps s u now uuid db pc = (db', pc')"
  then have "db' = apply_op db (Close_box (db_box_boxId box) c at u (map_option dp_palletId j))"
    using B_close by (auto simp: box_step_def split: prod.splits)
  then show ?thesis unfolding one_statement_def by blast
next
  case (B_closing_pallet c k at ppc)
  assume "box_step deps s u now uuid db pc = (db', pc')"
  then show ?thesis using B_closing_pallet pallet_statement by (fastforce simp: box_step_def split: prod.splits)
qed (auto simp: box_step_def one_statement_def split: prod.splits option.splits intro: exI [of _ "db_pool db"])

lemma proc_statement: "proc_step now uuid db p = (db', p') \<Longrightarrow> one_statement db db'"
  by (cases p) (auto simp: map_prod_def split: prod.splits intro: box_statement pallet_statement)

lemma statement_ok:
  "one_statement db db' \<Longrightarrow> views_ok (box_views db) \<Longrightarrow> views_ok (pallet_views db)
    \<Longrightarrow> views_ok (box_views db') \<and> views_ok (pallet_views db')"
  unfolding one_statement_def using box_step_ok pallet_step_ok by auto

section \<open>Lemmas: the invariant of a run\<close>

definition issued :: "nat \<Rightarrow> (jstring \<times> int \<times> int) list \<Rightarrow> int \<times> jstring \<Rightarrow> bool" where
  "issued n out t \<longleftrightarrow> (\<exists>p s. (p, fst t, s) \<in> set out \<and> length p = n \<and> buildSscc (JInt (fst t)) p (JInt s) = Inr (snd t))"

definition tokens :: "station_db \<Rightarrow> close_proc list \<Rightarrow> (int \<times> jstring) multiset" where
  "tokens db ps = mset (stored db) + (\<Sum>p \<in># mset ps. mset (held p))"

definition claims :: "close_proc list \<Rightarrow> (int \<times> jstring) multiset" where
  "claims ps = (\<Sum>p \<in># mset ps. mset (claimed p))"

definition run_inv :: "block set \<Rightarrow> nat \<Rightarrow> station_db \<Rightarrow> close_proc list \<Rightarrow> block set \<Rightarrow> bool" where
  "run_inv G n db ps R \<longleftrightarrow> views_ok (box_views db) \<and> views_ok (pallet_views db) \<and> (\<forall>p \<in> set ps. length (proc_prefix p) = n)
     \<and> (\<exists>out. pool_history G (db_pool db) R out \<and> (\<forall>t. t \<in># tokens db ps \<longrightarrow> issued n out t))
     \<and> (\<forall>t. count (tokens db ps) t \<le> 1) \<and> (\<forall>t. count (claims ps) t \<le> 1) \<and> set_mset (claims ps) \<subseteq> set (stored db)"

lemma buildSscc_inj:
  assumes "buildSscc (JInt d) p (JInt s) = Inr c" "buildSscc (JInt d') p' (JInt s') = Inr c" "length p = length p'"
  shows "d = d' \<and> p = p' \<and> s = s'"
proof -
  have f: "sscc_fields_ok d p s" "sscc_fields_ok d' p' s'" using buildSscc_InrD assms(1,2) by fastforce+
  obtain k where k: "c = sscc_body d p s @ [k]" "isValidSscc c" using buildSscc_ok [OF f(1)] assms(1) by auto
  obtain k' where k': "c = sscc_body d' p' s' @ [k']" using buildSscc_ok [OF f(2)] assms(2) by auto
  have a: "parseSscc c (JInt (int (length p))) = Inr (Some \<lparr>sscc_extensionDigit = nat d, sscc_gs1Prefix = p, sscc_serial = nat s\<rparr>)"
    using parseSscc_body [OF f(1)] k(2) unfolding k(1) by blast
  have b: "parseSscc c (JInt (int (length p'))) = Inr (Some \<lparr>sscc_extensionDigit = nat d', sscc_gs1Prefix = p', sscc_serial = nat s'\<rparr>)"
    using parseSscc_body [OF f(2)] k(2) unfolding k' by blast
  have "nat d = nat d' \<and> p = p' \<and> nat s = nat s'" using a b unfolding assms(3) by simp
  moreover have "0 \<le> d" "0 \<le> d'" "0 \<le> s" "0 \<le> s'" using f by (simp_all add: sscc_fields_ok_def)
  ultimately show ?thesis by (metis eq_nat_nat_iff)
qed

lemma issued_mono: "issued n out t \<Longrightarrow> set out \<subseteq> set out' \<Longrightarrow> issued n out' t"
  by (auto simp: issued_def)

lemma rest_of_tokens:
  assumes "i < length ps"
  shows "\<exists>H C. tokens db ps = mset (stored db) + H + mset (held (ps ! i)) \<and> claims ps = C + mset (claimed (ps ! i))
    \<and> (\<forall>db' p. tokens db' (ps[i := p]) = mset (stored db') + H + mset (held p) \<and> claims (ps[i := p]) = C + mset (claimed p))"
proof -
  let ?q = "mset ps - {#ps ! i#}"
  have "mset ps = add_mset (ps ! i) ?q" using assms by simp
  then have "(\<Sum>p \<in># mset ps. mset (f p)) = (\<Sum>p \<in># ?q. mset (f p)) + mset (f (ps ! i))" for f :: "close_proc \<Rightarrow> (int \<times> jstring) list"
    by (metis add.commute image_mset_add_mset sum_mset.insert)
  moreover have "(\<Sum>p \<in># mset (ps[i := p']). mset (f p)) = (\<Sum>p \<in># ?q. mset (f p)) + mset (f p')"
    for f :: "close_proc \<Rightarrow> (int \<times> jstring) list" and p'
    using assms by (simp add: mset_update)
  ultimately show ?thesis
    by (intro exI [of _ "\<Sum>p \<in># ?q. mset (held p)"] exI [of _ "\<Sum>p \<in># ?q. mset (claimed p)"])
      (simp add: tokens_def claims_def)
qed

lemma quiet_numbers:
  assumes "S' = S" "h' \<subseteq># h" "cl' \<subseteq># cl" "\<forall>t. count (S + H + h) t \<le> 1" "\<forall>t. count (C + cl) t \<le> 1" "set_mset (C + cl) \<subseteq> set_mset S"
  shows "S' + H + h' \<subseteq># S + H + h \<and> (\<forall>t. count (S' + H + h') t \<le> 1) \<and> (\<forall>t. count (C + cl') t \<le> 1)
    \<and> set_mset (C + cl') \<subseteq> set_mset S'"
proof -
  have sub: "S' + H + h' \<subseteq># S + H + h" "C + cl' \<subseteq># C + cl" using assms(1-3) by simp_all
  then show ?thesis using assms(1,4-6) mset_subset_eq_count [OF sub(1)] mset_subset_eq_count [OF sub(2)]
      set_mset_mono [OF sub(2)] by (meson le_trans subset_trans)
qed

lemma stored_numbers:
  assumes "S' = add_mset t S" "h = {#t#}" "cl' \<subseteq># add_mset t cl" "\<forall>t. count (S + H + h) t \<le> 1" "\<forall>t. count (C + cl) t \<le> 1"
    "set_mset (C + cl) \<subseteq> set_mset S"
  shows "S' + H + {#} = S + H + h \<and> (\<forall>t. count (C + cl') t \<le> 1) \<and> set_mset (C + cl') \<subseteq> set_mset S'"
proof -
  have "count (S + H + h) t \<le> 1" using assms(4) by blast
  then have "count S t = 0" using assms(2) by simp
  then have "count (C + cl) t = 0" using assms(6) by (metis count_eq_zero_iff subsetD)
  then have one: "\<forall>x. count (C + add_mset t cl) x \<le> 1" using assms(5) by simp
  have sub: "C + cl' \<subseteq># C + add_mset t cl" using assms(3) by simp
  have "set_mset (C + add_mset t cl) \<subseteq> set_mset S'" using assms(1,6) by auto
  then show ?thesis using one assms(1,2) mset_subset_eq_count [OF sub] set_mset_mono [OF sub]
    by (intro conjI allI) (simp, meson le_trans, blast)
qed

lemma burn_fresh:
  assumes h: "pool_history G rows R out" and dj: "blocks_disjoint G" and b: "burnSerial rows p d = (rows', Some s)"
    and c: "buildSscc (JInt d) p (JInt s) = Inr c" and n: "length p = n"
  shows "\<not> issued n out (d, c)"
proof
  assume "issued n out (d, c)"
  then obtain p' s' where o: "(p', d, s') \<in> set out" "length p' = n" "buildSscc (JInt d) p' (JInt s') = Inr c"
    by (auto simp: issued_def)
  then have "p' = p \<and> s' = s" using buildSscc_inj [OF o(3) c] n by simp
  moreover have "(p, d, s) \<notin> set out"
    using pool_history_inv [OF pool_history.burn [OF h b] dj] by (simp add: pool_inv_def)
  ultimately show False using o(1) by simp
qed

lemma closer_inv:
  assumes inv: "run_inv G n db ps R" and dj: "blocks_disjoint G" and i: "i < length ps"
    and st: "proc_step now uuid db (ps ! i) = (db', p)"
  shows "run_inv G n db' (ps[i := p]) R"
proof -
  have ok: "views_ok (box_views db)" "views_ok (pallet_views db)" and len: "\<forall>p \<in> set ps. length (proc_prefix p) = n"
    using inv by (simp_all add: run_inv_def)
  obtain out where out: "pool_history G (db_pool db) R out" "\<forall>t. t \<in># tokens db ps \<longrightarrow> issued n out t"
    using inv by (auto simp: run_inv_def)
  obtain e where e: "has_effect (proc_prefix (ps ! i)) db (held (ps ! i)) (claimed (ps ! i)) db' (held p) (claimed p) e"
    and pre: "proc_prefix p = proc_prefix (ps ! i)"
    using proc_effect [OF ok st] by blast
  obtain H C where HC: "tokens db ps = mset (stored db) + H + mset (held (ps ! i))" "claims ps = C + mset (claimed (ps ! i))"
      "tokens db' (ps[i := p]) = mset (stored db') + H + mset (held p)" "claims (ps[i := p]) = C + mset (claimed p)"
    using rest_of_tokens [OF i, of db] by metis
  have cnt: "\<forall>t. count (mset (stored db) + H + mset (held (ps ! i))) t \<le> 1" "\<forall>t. count (C + mset (claimed (ps ! i))) t \<le> 1"
      "set_mset (C + mset (claimed (ps ! i))) \<subseteq> set_mset (mset (stored db))"
    using inv unfolding run_inv_def HC(1,2) set_mset_mset by blast+
  have lens: "\<forall>q \<in> set (ps[i := p]). length (proc_prefix q) = n"
    using len pre i by (metis insertE nth_mem set_update_subset_insert subsetD)
  have "(\<exists>out. pool_history G (db_pool db') R out \<and> (\<forall>t. t \<in># tokens db' (ps[i := p]) \<longrightarrow> issued n out t))
      \<and> (\<forall>t. count (tokens db' (ps[i := p])) t \<le> 1) \<and> (\<forall>t. count (claims (ps[i := p])) t \<le> 1)
      \<and> set_mset (claims (ps[i := p])) \<subseteq> set (stored db')"
  proof (cases e)
    case Quiet
    then have q: "db_pool db' = db_pool db" "mset (stored db') = mset (stored db)" "mset (held p) \<subseteq># mset (held (ps ! i))"
        "mset (claimed p) \<subseteq># mset (claimed (ps ! i))"
      using e by (simp_all add: has_effect_def)
    note r = quiet_numbers [OF q(2-4) cnt]
    have "set_mset (tokens db' (ps[i := p])) \<subseteq> set_mset (tokens db ps)" using r set_mset_mono unfolding HC by blast
    then show ?thesis using r out q(1) unfolding HC set_mset_mset by (metis subsetD)
  next
    case (Stored t)
    then have q: "db_pool db' = db_pool db" "mset (held (ps ! i)) = {#t#}" "held p = []"
        "mset (stored db') = add_mset t (mset (stored db))" "mset (claimed p) \<subseteq># add_mset t (mset (claimed (ps ! i)))"
      using e by (simp_all add: has_effect_def)
    note r = stored_numbers [OF q(4,2,5) cnt]
    have "tokens db' (ps[i := p]) = tokens db ps" using r q(3) unfolding HC by simp
    then show ?thesis using r out q(1) cnt(1) unfolding HC(1,4) set_mset_mset by (metis HC(1))
  next
    case (Burned d s)
    then have q: "burnSerial (db_pool db) (proc_prefix (ps ! i)) d = (db_pool db', Some s)" "stored db' = stored db"
        "held (ps ! i) = []" "mset (claimed p) \<subseteq># mset (claimed (ps ! i))"
        "held p = [] \<or> (\<exists>c. held p = [(d, c)] \<and> buildSscc (JInt d) (proc_prefix (ps ! i)) (JInt s) = Inr c)"
      using e by (simp_all add: has_effect_def)
    let ?out = "out @ [(proc_prefix (ps ! i), d, s)]"
    have h: "pool_history G (db_pool db') R ?out" by (rule pool_history.burn [OF out(1) q(1)])
    have cl: "(\<forall>t. count (C + mset (claimed p)) t \<le> 1) \<and> set_mset (C + mset (claimed p)) \<subseteq> set_mset (mset (stored db'))"
      using quiet_numbers [OF refl subset_mset.order_refl q(4) cnt] q(2) by simp
    have toks: "tokens db' (ps[i := p]) = tokens db ps + mset (held p)" unfolding HC q(2,3) by simp
    have new: "count (tokens db ps) t = 0 \<and> issued n ?out t" if t: "t \<in> set (held p)" for t
    proof -
      obtain c where c: "t = (d, c)" "buildSscc (JInt d) (proc_prefix (ps ! i)) (JInt s) = Inr c" using q(5) t by auto
      have "\<not> issued n out t" unfolding c(1) by (rule burn_fresh [OF out(1) dj q(1) c(2)]) (use len i in simp)
      moreover have "issued n ?out t" unfolding issued_def
        by (rule exI [of _ "proc_prefix (ps ! i)"], rule exI [of _ s]) (use c len i in simp)
      ultimately show ?thesis using out(2) by (meson count_inI)
    qed
    have "count (mset (held p)) t \<le> 1" for t using q(5) by auto
    then have "\<forall>t. count (tokens db ps + mset (held p)) t \<le> 1"
      using new cnt(1) unfolding HC(1) [symmetric]
      by (metis add.left_neutral add.right_neutral count_mset_0_iff count_union)
    moreover have "\<forall>t. t \<in># tokens db' (ps[i := p]) \<longrightarrow> issued n ?out t"
      using new out(2) issued_mono [of n out _ ?out] unfolding toks by (metis Un_iff set_append set_mset_mset set_mset_union sup.cobounded1)
    ultimately show ?thesis using h cl unfolding toks HC(4) set_mset_mset by blast
  qed
  then show ?thesis using statement_ok [OF proc_statement [OF st] ok] lens unfolding run_inv_def by blast
qed

lemma apply_op_pool: "db_pool (apply_op db op) = db_pool db"
  by (cases op) (auto simp: station_ops openBox_def openPallet_def or_unchanged_def insertException_def queue_exception_def
      exception_triggers_def insertPalletException_def Let_def split: exception_kind.splits)

lemma start_closer_inv:
  "run_inv G n db ps R \<Longrightarrow> held p = [] \<Longrightarrow> claimed p = [] \<Longrightarrow> length (proc_prefix p) = n \<Longrightarrow> run_inv G n db (ps @ [p]) R"
  by (simp add: run_inv_def tokens_def claims_def)

lemma same_numbers_inv:
  assumes "run_inv G n db ps R" "stored db' = stored db" "db_pool db' = db_pool db"
    "views_ok (box_views db')" "views_ok (pallet_views db')"
  shows "run_inv G n db' ps R"
  using assms unfolding run_inv_def tokens_def by metis

lemma pool_inv_change:
  assumes "run_inv G n db ps R" "\<And>out. pool_history G (db_pool db) R out \<Longrightarrow> pool_history G pool R' out"
  shows "run_inv G n (db\<lparr>db_pool := pool\<rparr>) ps R'"
proof -
  have "tokens (db\<lparr>db_pool := pool\<rparr>) ps = tokens db ps" by (simp add: tokens_def)
  moreover obtain out where "pool_history G (db_pool db) R out" "\<forall>t. t \<in># tokens db ps \<longrightarrow> issued n out t"
    using assms(1) by (auto simp: run_inv_def)
  ultimately have "\<exists>out. pool_history G pool R' out \<and> (\<forall>t. t \<in># tokens (db\<lparr>db_pool := pool\<rparr>) ps \<longrightarrow> issued n out t)"
    using assms(2) by auto
  then show ?thesis using assms(1) \<open>tokens (db\<lparr>db_pool := pool\<rparr>) ps = tokens db ps\<close> by (simp add: run_inv_def)
qed

lemma station_run_inv: "station_run G n db ps R \<Longrightarrow> blocks_disjoint G \<Longrightarrow> run_inv G n db ps R"
proof (induction rule: station_run.induct)
  case (start db)
  then show ?case using pool_history.start [of G]
    by (auto simp: run_inv_def tokens_def claims_def stored_def numbers_def views_ok_def)
next
  case (start_box db ps R deps s u)
  then show ?case by (simp add: start_closer_inv)
next
  case (start_pallet db ps R deps s u)
  then show ?case by (simp add: start_closer_inv)
next
  case (closer db ps R i now uuid db' p)
  then show ?case using closer_inv by blast
next
  case (other db ps R op)
  have ok: "views_ok (box_views db)" "views_ok (pallet_views db)" using other.IH [OF other.prems] by (simp_all add: run_inv_def)
  have "stored (apply_op db op) = stored db" using other_numbers [OF ok(1)] other.hyps(2) by (simp add: stored_def)
  moreover have "db_pool (apply_op db op) = db_pool db" by (rule apply_op_pool)
  ultimately show ?case
    using same_numbers_inv [OF other.IH [OF other.prems]] box_step_ok [OF ok(1)] pallet_step_ok [OF ok(2)] by blast
next
  case (codes db ps R cs)
  then have inv: "run_inv G n db ps R" by blast
  then have ok: "views_ok (box_views db)" "views_ok (pallet_views db)" by (simp_all only: run_inv_def)
  show ?case by (rule same_numbers_inv [OF inv]) (simp_all add: ok stored_def)
next
  case (grant db ps R r)
  then show ?case by (intro pool_inv_change [of G n db ps R]) (auto intro: pool_history.grant)
next
  case (revoke db ps R p d fs)
  then show ?case by (intro pool_inv_change [of G n db ps R]) (auto intro: pool_history.revoke)
qed

section \<open>Lemmas: a closer on its own\<close>

definition alone_pallet :: "close_deps \<Rightarrow> jstring \<Rightarrow> jstring option \<Rightarrow> jstring \<Rightarrow> nat \<Rightarrow> station_db \<times> pallet_pc \<Rightarrow> station_db \<times> pallet_pc" where
  "alone_pallet deps s u now k = (\<lambda>(db, pc). pallet_step deps s u now db pc) ^^ k"

definition alone_box ::
    "close_deps \<Rightarrow> jstring \<Rightarrow> jstring option \<Rightarrow> jstring \<Rightarrow> jstring \<Rightarrow> nat \<Rightarrow> station_db \<times> box_pc \<Rightarrow> station_db \<times> box_pc" where
  "alone_box deps s u now uuid k = (\<lambda>(db, pc). box_step deps s u now uuid db pc) ^^ k"

definition pallet_end :: "close_failure + close_pallet_result \<Rightarrow> pallet_pc" where
  "pallet_end r = (case r of Inl e \<Rightarrow> P_throw e | Inr r \<Rightarrow> P_done r)"

definition box_end :: "close_failure + close_box_result \<Rightarrow> box_pc" where
  "box_end r = (case r of Inl e \<Rightarrow> B_throw e | Inr r \<Rightarrow> B_done r)"

lemma alone_pallet_0 [simp]: "alone_pallet deps s u now 0 x = x"
  by (simp add: alone_pallet_def)

lemma alone_pallet_Suc: "alone_pallet deps s u now (Suc k) (db, pc) = alone_pallet deps s u now k (pallet_step deps s u now db pc)"
  by (simp add: alone_pallet_def funpow_swap1)

lemma alone_box_0 [simp]: "alone_box deps s u now uuid 0 x = x"
  by (simp add: alone_box_def)

lemma alone_box_Suc: "alone_box deps s u now uuid (Suc k) (db, pc) = alone_box deps s u now uuid k (box_step deps s u now uuid db pc)"
  by (simp add: alone_box_def funpow_swap1)

lemma alone_box_done [simp]: "alone_box deps s u now uuid k (db, B_done r) = (db, B_done r)"
  by (induction k) (simp_all add: alone_box_Suc box_step_def)

lemma alone_box_throw [simp]: "alone_box deps s u now uuid k (db, B_throw e) = (db, B_throw e)"
  by (induction k) (simp_all add: alone_box_Suc box_step_def)

lemma alone_pallet_done [simp]: "alone_pallet deps s u now k (db, P_done r) = (db, P_done r)"
  by (induction k) (simp_all add: alone_pallet_Suc pallet_step_def)

lemma alone_pallet_throw [simp]: "alone_pallet deps s u now k (db, P_throw e) = (db, P_throw e)"
  by (induction k) (simp_all add: alone_pallet_Suc pallet_step_def)

lemma pallet_alone:
  "alone_pallet deps s u now 4 (db, P_check) = map_prod id pallet_end (closeCurrentPallet deps s u now db)"
proof -
  have four: "4 = Suc (Suc (Suc (Suc 0)))" by simp
  show ?thesis
    unfolding four closeCurrentPallet_def
    by (auto simp: alone_pallet_Suc pallet_step_def pallet_end_def map_prod_def Let_def dest!: burn_None
        split: option.splits prod.splits sum.splits if_splits bool.splits)
qed

lemma nested_alone:
  "alone_box deps s u now uuid k (db, nest c m at pc) = map_prod id (nest c m at) (alone_pallet deps s u now k (db, pc))"
proof (induction k arbitrary: db pc)
  case (Suc k)
  show ?case
  proof (cases pc)
    case (P_done r)
    then show ?thesis by (simp add: nest_def)
  next
    case (P_throw e)
    then show ?thesis by (simp add: nest_def)
  qed (use Suc in \<open>simp_all add: nest_def [of _ _ _ P_check] nest_def [of _ _ _ P_read] nest_def [of _ _ _ "P_burn _"]
        nest_def [of _ _ _ "P_close _ _ _"] alone_box_Suc alone_pallet_Suc box_step_def split_beta\<close>)
qed (simp add: map_prod_def)

lemma pallet_alone_more:
  assumes "4 \<le> k"
  shows "alone_pallet deps s u now k (db, P_check) = map_prod id pallet_end (closeCurrentPallet deps s u now db)"
proof -
  obtain j where j: "k = j + 4" using assms by (metis add.commute le_Suc_ex)
  have "alone_pallet deps s u now k (db, P_check) = alone_pallet deps s u now j (alone_pallet deps s u now 4 (db, P_check))"
    by (simp add: alone_pallet_def j funpow_add)
  also have "\<dots> = map_prod id pallet_end (closeCurrentPallet deps s u now db)"
    unfolding pallet_alone
    by (cases "closeCurrentPallet deps s u now db"; cases "snd (closeCurrentPallet deps s u now db)") (auto simp: pallet_end_def)
  finally show ?thesis .
qed

lemma closing_pallet_alone:
  assumes "4 \<le> k"
  shows "alone_box deps s u now uuid k (db, B_closing_pallet c m at P_check) =
    (case closeCurrentPallet deps s u now db of
       (db', Inl e) \<Rightarrow> (db', B_throw e) | (db', Inr r) \<Rightarrow> (db', B_done (Box_closed c m at (Some r))))"
  using nested_alone [of deps s u now uuid k db c m at P_check] pallet_alone_more [OF assms, of deps s u now db]
  by (auto simp: nest_def pallet_end_def map_prod_def split: prod.splits sum.splits)

lemma close_alone:
  assumes "5 \<le> k"
  shows "alone_box deps s u now uuid k (db, B_close box c now joining) =
    (case closeBox db (db_box_boxId box) c now u (map_option dp_palletId joining) of
       (db, False) \<Rightarrow> (db, B_done Box_already_closed)
     | (db, True) \<Rightarrow>
         (case (joining, cd_palletBoxCapacity deps) of
            (Some pallet, Some capacity) \<Rightarrow>
              if capacity \<le> dp_boxCount pallet + 1
              then (case closeCurrentPallet deps s u now db of
                      (db, Inl e) \<Rightarrow> (db, B_throw e)
                    | (db, Inr r) \<Rightarrow> (db, B_done (Box_closed c (db_box_itemCount box) now (Some r))))
              else (db, B_done (Box_closed c (db_box_itemCount box) now None))
          | _ \<Rightarrow> (db, B_done (Box_closed c (db_box_itemCount box) now None))))"
proof -
  obtain j where j: "k = Suc j" "4 \<le> j" using assms by (cases k) auto
  show ?thesis unfolding j(1) alone_box_Suc
    using closing_pallet_alone [OF j(2), of deps s u now uuid]
    by (auto simp: box_step_def split: prod.splits bool.splits option.splits)
qed

lemma join_alone:
  "alone_box deps s u now uuid 7 (db, if cd_palletBoxCapacity deps = None then B_close box c now None else B_pallet box c now) =
    (case joining_pallet deps s now uuid db of
       (db', Inl e) \<Rightarrow> (db', B_throw e) | (db', Inr joining) \<Rightarrow> alone_box deps s u now uuid 5 (db', B_close box c now joining))"
proof -
  have unroll: "alone_box deps s u now uuid 7 (db, pc) = alone_box deps s u now uuid 6 (box_step deps s u now uuid db pc)"
    "alone_box deps s u now uuid 6 (db, pc) = alone_box deps s u now uuid 5 (box_step deps s u now uuid db pc)" for db pc
    using alone_box_Suc [of deps s u now uuid 6] alone_box_Suc [of deps s u now uuid 5] by simp_all
  have more: "alone_box deps s u now uuid k (db, B_close box c now j) = alone_box deps s u now uuid 5 (db, B_close box c now j)"
    if "5 \<le> k" for k db j using that by (simp add: close_alone)
  show ?thesis
  proof (cases "cd_palletBoxCapacity deps")
    case None
    then show ?thesis using more [of 7] by (simp add: joining_pallet_def)
  next
    case (Some capacity)
    have "alone_box deps s u now uuid 7 (db, B_pallet box c now) = (case currentPallet db s (cd_terminalId deps) of
        None \<Rightarrow> alone_box deps s u now uuid 6 (db, B_open box c now)
      | Some pallet \<Rightarrow> alone_box deps s u now uuid 5 (db, B_close box c now (Some pallet)))"
      unfolding unroll(1) using more [of 6] by (simp add: box_step_def split: option.splits)
    also have "\<dots> = (case joining_pallet deps s now uuid db of
       (db', Inl e) \<Rightarrow> (db', B_throw e) | (db', Inr joining) \<Rightarrow> alone_box deps s u now uuid 5 (db', B_close box c now joining))"
      unfolding unroll(2) using Some by (simp add: box_step_def joining_pallet_def split: option.splits)
    finally show ?thesis using Some by simp
  qed
qed

lemma box_alone:
  "alone_box deps s u now uuid 10 (db, B_check) = map_prod id box_end (closeCurrentBox deps s u now uuid db)"
proof -
  have unroll: "alone_box deps s u now uuid 10 (db, pc) = alone_box deps s u now uuid 9 (box_step deps s u now uuid db pc)"
    "alone_box deps s u now uuid 9 (db, pc) = alone_box deps s u now uuid 8 (box_step deps s u now uuid db pc)"
    "alone_box deps s u now uuid 8 (db, pc) = alone_box deps s u now uuid 7 (box_step deps s u now uuid db pc)" for db pc
    using alone_box_Suc [of deps s u now uuid 9] alone_box_Suc [of deps s u now uuid 8] alone_box_Suc [of deps s u now uuid 7]
    by simp_all
  show ?thesis
  proof (cases "db_grantInstalled db \<or> (case currentBox db s of None \<Rightarrow> True | Some box \<Rightarrow> db_box_itemCount box = 0)")
    case True
    then show ?thesis unfolding closeCurrentBox_def unroll(1)
      by (auto simp: unroll(2) box_step_def box_end_def map_prod_def split: option.splits)
  next
    case False
    then obtain box where b: "currentBox db s = Some box" "db_box_itemCount box \<noteq> 0" "\<not> db_grantInstalled db"
      by (auto split: option.splits)
    then have "alone_box deps s u now uuid 10 (db, B_check) = alone_box deps s u now uuid 7 (box_step deps s u now uuid db (B_burn box))"
      unfolding unroll(1) by (simp add: unroll(2,3) box_step_def)
    also have "\<dots> = (case burnSerial (db_pool db) (cd_issuerPrefix deps) BOX_EXTENSION_DIGIT of
        (pool, None) \<Rightarrow> (db, B_done Box_no_serials)
      | (pool, Some serial) \<Rightarrow>
          (case buildSscc (JInt BOX_EXTENSION_DIGIT) (cd_issuerPrefix deps) (JInt serial) of
             Inl e \<Rightarrow> (db\<lparr>db_pool := pool\<rparr>, if e = DomainError SSCC_RANGE then B_done Box_invalid_serial else B_throw (Not_numbered e))
           | Inr sscc \<Rightarrow> (case joining_pallet deps s now uuid (db\<lparr>db_pool := pool\<rparr>) of
               (db', Inl e) \<Rightarrow> (db', B_throw e)
             | (db', Inr joining) \<Rightarrow> alone_box deps s u now uuid 5 (db', B_close box sscc now joining))))"
      by (auto simp: box_step_def join_alone [symmetric] dest!: burn_None split: prod.splits option.splits sum.splits)
    also have "\<dots> = map_prod id box_end (closeCurrentBox deps s u now uuid db)"
      using b unfolding closeCurrentBox_def close_alone [OF order_refl]
      by (auto simp: box_end_def map_prod_def Let_def split: prod.splits option.splits sum.splits bool.splits if_splits)
    finally show ?thesis .
  qed
qed

lemma burn_pool_ok: "pool_ok rows \<Longrightarrow> burnSerial rows p d = (rows', x) \<Longrightarrow> pool_ok rows'"
  by (auto simp: burnSerial_def advance_row_ok split: option.splits)

lemma burn_other_digit:
  assumes "pool_ok rows" "burnSerial rows p d = (rows', x)" "d' \<noteq> d"
  shows "remaining rows' q d' = remaining rows q d'"
proof (cases "lowest_open p d rows")
  case (Some row)
  have m: "row \<in> set rows" "pr_extensionDigit row = d" using lowest_open_Some [OF Some] by (auto simp: has_room_def)
  have "row_room q d' (if pr_rowid y = pr_rowid row then y\<lparr>pr_nextSerial := pr_nextSerial y + 1\<rparr> else y) = row_room q d' y"
    if "y \<in> set rows" for y
  proof (cases "pr_rowid y = pr_rowid row")
    case True
    then have "y = row" using assms(1) m(1) that by (auto simp: pool_ok_def distinct_map inj_on_def)
    then show ?thesis using m(2) assms(3) by (simp add: row_room_def has_room_def)
  qed simp
  then have "map (row_room q d') (advance_row (pr_rowid row) rows) = map (row_room q d') rows" by (simp add: advance_row_def)
  then show ?thesis using assms(2) Some by (simp add: remaining_room burnSerial_def)
qed (use assms(2) in \<open>simp add: burnSerial_def\<close>)

lemma joining_frame:
  "joining_pallet deps s now uuid db = (db', r) \<Longrightarrow> db_boxes db' = db_boxes db \<and> db_codes db' = db_codes db \<and> db_pool db' = db_pool db"
  by (auto simp: joining_pallet_def openPallet_def split: if_splits option.splits)

lemma pallet_frame:
  assumes "closeCurrentPallet deps s u now db = (db', r)" "pool_ok (db_pool db)"
  shows "db_boxes db' = db_boxes db \<and> db_codes db' = db_codes db \<and> remaining (db_pool db') q 0 = remaining (db_pool db) q 0"
  using assms burn_other_digit [OF assms(2), of _ 1 _ _ 0 q]
  by (auto simp: closeCurrentPallet_def PALLET_EXTENSION_DIGIT_def closePallet_def Let_def
      split: if_splits option.splits prod.splits sum.splits bool.splits)

lemma first_row_mem: "first_row rows = Some r \<Longrightarrow> r \<in> set rows"
  by (cases rows) (simp_all add: first_row_def)

lemma close_current:
  assumes "views_ok (box_views db)" "currentBox db s = Some box" "db_boxes dbj = db_boxes db" "db_codes dbj = db_codes db"
  shows "\<exists>dbc. closeBox dbj (db_box_boxId box) c now u p = (dbc, True)
    \<and> (\<exists>b \<in> set (db_boxes dbc). bx_boxId b = db_box_boxId box \<and> bx_sscc b = Some c \<and> bx_closedAt b = Some now
         \<and> bx_printState b = PS_pending)
    \<and> db_codes dbc = db_codes db \<and> db_pool dbc = db_pool dbj"
proof -
  let ?P = "\<lambda>b. bx_boxId b = db_box_boxId box \<and> bx_closedAt b = None"
  obtain row where row: "row \<in> set (db_boxes db)" "?P row"
    using assms(2) by (fastforce simp: currentBox_def dest: first_row_mem)
  have "one_row ?P (db_boxes db)"
    using resolve_one [where f = bx_boxId and rows = "db_boxes db" and r = row and Q = "\<lambda>b. bx_closedAt b = None" and P = ?P
        and A = "\<lambda>b. bx_closedAt b = None" and g = "\<lambda>b. b\<lparr>bx_closedAt := Some now\<rparr>"] box_keys [OF assms(1)] row
    by simp
  moreover have new: "row\<lparr>bx_sscc := Some c, bx_closedAt := Some now, bx_closedBy := u, bx_palletId := p, bx_printState := PS_pending,
      bx_printErrorCode := None\<rparr> \<in> set (db_boxes (fst (closeBox dbj (db_box_boxId box) c now u p)))"
    using row assms(3) by (auto simp: closeBox_def Let_def update_where_def intro!: image_eqI [of _ _ row])
  ultimately show ?thesis using assms(3,4) row(2)
    by (intro exI [of _ "fst (closeBox dbj (db_box_boxId box) c now u p)"] conjI bexI [OF _ new]) (simp_all add: closeBox_def Let_def)
qed

section \<open>Lemmas: how long a closer runs\<close>

fun pallet_left :: "pallet_pc \<Rightarrow> nat" where
  "pallet_left P_check = 4"
| "pallet_left P_read = 3"
| "pallet_left (P_burn pallet) = 2"
| "pallet_left (P_close pallet c at) = 1"
| "pallet_left _ = 0"

fun box_left :: "box_pc \<Rightarrow> nat" where
  "box_left B_check = 10"
| "box_left B_read = 9"
| "box_left (B_burn box) = 8"
| "box_left (B_pallet box c at) = 7"
| "box_left (B_open box c at) = 6"
| "box_left (B_close box c at j) = 5"
| "box_left (B_closing_pallet c k at pc) = max 1 (pallet_left pc)"
| "box_left _ = 0"

fun steps_left :: "close_proc \<Rightarrow> nat" where
  "steps_left (Box_proc deps s u pc) = box_left pc"
| "steps_left (Pallet_proc deps s u pc) = pallet_left pc"

fun finished :: "close_proc \<Rightarrow> bool" where
  "finished (Box_proc deps s u (B_done r)) = True"
| "finished (Box_proc deps s u (B_throw e)) = True"
| "finished (Pallet_proc deps s u (P_done r)) = True"
| "finished (Pallet_proc deps s u (P_throw e)) = True"
| "finished _ = False"

lemma finished_left: "finished p \<longleftrightarrow> steps_left p = 0"
  by (cases p rule: finished.cases) simp_all

lemma pallet_left_step: "pallet_left (snd (pallet_step deps s u now db pc)) \<le> pallet_left pc - 1"
  by (cases pc) (auto simp: pallet_step_def split: option.splits prod.splits sum.splits)

lemma nest_left: "box_left (nest c k at pc) \<le> pallet_left pc"
  by (cases pc) (simp_all add: nest_def)

lemma box_left_step: "box_left (snd (box_step deps s u now uuid db pc)) \<le> box_left pc - 1"
proof (cases pc)
  case (B_closing_pallet c k at ppc)
  have "box_left (snd (box_step deps s u now uuid db pc)) = box_left (nest c k at (snd (pallet_step deps s u now db ppc)))"
    using B_closing_pallet by (simp add: box_step_def split_beta)
  also have "\<dots> \<le> pallet_left ppc - 1" using nest_left pallet_left_step order_trans by blast
  finally show ?thesis using B_closing_pallet by simp
qed (auto simp: box_step_def split: option.splits prod.splits sum.splits)

lemma steps_left_step: "steps_left (snd (proc_step now uuid db p)) \<le> steps_left p - 1"
  using box_left_step pallet_left_step by (cases p) (simp_all add: map_prod_def split_beta)

lemma atmost_1_distinct: "(\<And>t. count (mset xs) t \<le> 1) \<Longrightarrow> distinct xs"
  by (simp add: distinct_count_atmost_1 le_Suc_eq)

section \<open>Properties\<close>

text \<open>C1: No number is used twice, under any interleaving: whatever closers of boxes and pallets run at the same
  time, stopped between any two statements, with any other work on the station and any grants,
  repeated grants and revocations of serials in between, all SSCCs stored for boxes and pallets are
  valid and different, boxes carry extension digit 0 and pallets 1, and every SSCC that a closer
  reports (and the caller prints) is stored and reported by that closer alone. This relies on the
  server cutting disjoint blocks, not handing out a revoked one again, and on issuer prefixes of one
  length.\<close>

theorem sscc_unique_under_concurrency:
  assumes "station_run G n db ps R" "blocks_disjoint G"
  shows "distinct (numbers (box_views db) @ numbers (pallet_views db))
    \<and> (\<forall>c \<in> set (numbers (box_views db)). isValidSscc c \<and> hd c = 48)
    \<and> (\<forall>c \<in> set (numbers (pallet_views db)). isValidSscc c \<and> hd c = 49)
    \<and> distinct (concat (map claimed ps)) \<and> set (concat (map claimed ps)) \<subseteq> set (stored db)"
proof -
  have inv: "run_inv G n db ps R" by (rule station_run_inv [OF assms])
  obtain out where out: "\<forall>t. t \<in># tokens db ps \<longrightarrow> issued n out t" using inv by (auto simp: run_inv_def)
  have iss: "issued n out t" if "t \<in> set (stored db)" for t
    using out that unfolding tokens_def by (metis set_mset_mset union_iff)
  have "count (mset (stored db)) t \<le> 1" for t
  proof -
    have "count (tokens db ps) t \<le> 1" using inv unfolding run_inv_def by blast
    then show ?thesis by (simp add: tokens_def)
  qed
  then have d: "distinct (stored db)" by (rule atmost_1_distinct)
  have inj: "inj_on snd (set (stored db))"
  proof (rule inj_onI)
    fix x y assume xy: "x \<in> set (stored db)" "y \<in> set (stored db)" "snd x = snd y"
    obtain p s where a: "length p = n" "buildSscc (JInt (fst x)) p (JInt s) = Inr (snd x)"
      using iss [OF xy(1)] by (auto simp: issued_def)
    obtain p' s' where b: "length p' = n" "buildSscc (JInt (fst y)) p' (JInt s') = Inr (snd x)"
      using iss [OF xy(2)] xy(3) by (auto simp: issued_def)
    show "x = y" using buildSscc_inj [OF a(2) b(2)] a(1) b(1) xy(3) by (simp add: prod_eq_iff)
  qed
  have "map snd (stored db) = numbers (box_views db) @ numbers (pallet_views db)"
    by (simp add: stored_def comp_def)
  then have 1: "distinct (numbers (box_views db) @ numbers (pallet_views db))" using d inj by (metis distinct_map)
  have valid: "isValidSscc c \<and> hd c = 48 + nat d" if dc: "(d, c) \<in> set (stored db)" for d c
  proof -
    obtain p s where b: "buildSscc (JInt d) p (JInt s) = Inr c" using iss [OF dc] by (auto simp: issued_def)
    then have "sscc_fields_ok d p s" using buildSscc_InrD by fastforce
    from buildSscc_ok [OF this] b show ?thesis by (auto simp: sscc_body_def)
  qed
  have 2: "isValidSscc c \<and> hd c = 48" if "c \<in> set (numbers (box_views db))" for c
    using valid [of 0 c] that by (simp add: stored_def)
  have 3: "isValidSscc c \<and> hd c = 49" if "c \<in> set (numbers (pallet_views db))" for c
    using valid [of 1 c] that by (simp add: stored_def)
  have cl: "claims ps = mset (concat (map claimed ps))" by (simp add: claims_def mset_concat comp_def) (metis sum_mset_sum_list mset_map)
  have "count (mset (concat (map claimed ps))) t \<le> 1" for t using inv unfolding run_inv_def cl [symmetric] by blast
  then have 4: "distinct (concat (map claimed ps))" by (rule atmost_1_distinct)
  have 5: "set (concat (map claimed ps)) \<subseteq> set (stored db)" using inv unfolding run_inv_def cl set_mset_mset by blast
  show ?thesis using 1 2 3 4 5 by blast
qed

lemma alone_run:
  "station_run G n db [Box_proc deps s u pc] R \<Longrightarrow>
     station_run G n (fst (alone_box deps s u now uuid k (db, pc))) [Box_proc deps s u (snd (alone_box deps s u now uuid k (db, pc)))] R"
proof (induction k arbitrary: db pc)
  case (Suc k)
  obtain db' pc' where st: "box_step deps s u now uuid db pc = (db', pc')" by (cases "box_step deps s u now uuid db pc")
  have "proc_step now uuid db ([Box_proc deps s u pc] ! 0) = (db', Box_proc deps s u pc')" using st by simp
  from station_run.closer [OF Suc.prems _ this] have "station_run G n db' [Box_proc deps s u pc'] R" by simp
  from Suc.IH [OF this] show ?case using st by (simp add: alone_box_Suc)
qed simp

definition sample_deps :: close_deps where
  "sample_deps = \<lparr>cd_issuerPrefix = lit ''460000000'', cd_palletBoxCapacity = None, cd_terminalId = None\<rparr>"

definition sample_ready :: station_db where
  "sample_ready = (apply_op (empty_db\<lparr>db_pool := addRange [] sample_range\<rparr>) (Open_box (lit ''s'') (lit ''b'') (lit ''t1'') None))
     \<lparr>db_codes := [\<lparr>co_codeHash = lit ''h'', co_shiftId = lit ''s'', co_gtin14 = lit ''g'', co_serial = lit ''1'', co_scannedAt = lit ''t1'',
        co_boxId = Some (lit ''b'')\<rparr>]\<rparr>"

lemma sample_ready_run: "station_run {block_of sample_range} 9 sample_ready [Box_proc sample_deps (lit ''s'') None B_check] {}"
proof -
  have 1: "station_run {block_of sample_range} 9 empty_db [] {}" by (rule station_run.start) (simp_all add: empty_db_def)
  have "station_run {block_of sample_range} 9 (empty_db\<lparr>db_pool := addRange [] sample_range\<rparr>) [] {}"
    using station_run.grant [OF 1, of sample_range] by (simp add: empty_db_def range_ok_def sample_range_def)
  from station_run.other [OF this, of "Open_box (lit ''s'') (lit ''b'') (lit ''t1'') None"]
  have "station_run {block_of sample_range} 9 sample_ready [] {}" unfolding sample_ready_def by (intro station_run.codes) simp
  from station_run.start_box [OF this, of sample_deps "lit ''s''" None] show ?thesis by (simp add: sample_deps_def)
qed

lemma sample_number: "\<exists>c. buildSscc (JInt 0) (lit ''460000000'') (JInt 1) = Inr c"
proof -
  have "sscc_fields_ok 0 (lit ''460000000'') 1" by (simp add: sscc_fields_ok_def lit_def is_digit_def)
  from buildSscc_ok [OF this] show ?thesis by blast
qed

lemma sample_close:
  "\<exists>c. snd (closeCurrentBox sample_deps (lit ''s'') None (lit ''t2'') (lit ''u'') sample_ready) = Inr (Box_closed c 1 (lit ''t2'') None)
     \<and> numbers (box_views (fst (closeCurrentBox sample_deps (lit ''s'') None (lit ''t2'') (lit ''u'') sample_ready))) = [c]"
proof -
  obtain c where c: "buildSscc (JInt 0) (lit ''460000000'') (JInt 1) = Inr c" using sample_number by blast
  show ?thesis
    by (rule exI [of _ c])
      (simp add: closeCurrentBox_def sample_ready_def empty_db_def openBox_def or_unchanged_def currentBox_def first_row_def
        item_count_def burnSerial_def addRange_def has_room_def sample_range_def sample_deps_def BOX_EXTENSION_DIGIT_def c
        start_serial_def joining_pallet_def closeBox_def one_row_def update_where_def numbers_def box_view_def)
qed

theorem sscc_unique_under_concurrency_witness:
  "\<exists>db ps c. station_run {block_of sample_range} 9 db ps {} \<and> claimed (hd ps) = [(0, c)] \<and> numbers (box_views db) = [c] \<and> isValidSscc c"
proof -
  obtain db' c where cl: "closeCurrentBox sample_deps (lit ''s'') None (lit ''t2'') (lit ''u'') sample_ready
      = (db', Inr (Box_closed c 1 (lit ''t2'') None))" "numbers (box_views db') = [c]"
    using sample_close by (metis prod.collapse)
  let ?ps = "[Box_proc sample_deps (lit ''s'') None (B_done (Box_closed c 1 (lit ''t2'') None))]"
  have r: "station_run {block_of sample_range} 9 db' ?ps {}"
    using alone_run [OF sample_ready_run, of "lit ''t2''" "lit ''u''" 10] cl(1) by (simp add: box_alone box_end_def)
  have "blocks_disjoint {block_of sample_range}" by (auto simp: blocks_disjoint_def block_of_def)
  from sscc_unique_under_concurrency [OF r this] r cl(2) show ?thesis
    by (intro exI [of _ db'] exI [of _ ?ps] exI [of _ c]) simp
qed

text \<open>A closer always ends: whatever the database looks like at each of its steps, the closing of a box returns
  or throws after at most ten statements of its own and the closing of a pallet after at most four,
  whatever the others do to the database between its statements.\<close>

theorem close_terminates:
  assumes "steps_left p \<le> length schedule"
  shows "finished (foldl (\<lambda>p (now, uuid, db). snd (proc_step now uuid db p)) p schedule)
    \<and> steps_left (Box_proc deps s u B_check) = 10 \<and> steps_left (Pallet_proc deps s u P_check) = 4"
proof -
  have "steps_left (foldl (\<lambda>p (now, uuid, db). snd (proc_step now uuid db p)) p schedule) \<le> steps_left p - length schedule"
  proof (induction schedule arbitrary: p)
    case (Cons x xs)
    obtain now uuid db where x: "x = (now, uuid, db)" by (cases x) auto
    show ?case using Cons.IH [of "snd (proc_step now uuid db p)"] steps_left_step [of now uuid db p] x by simp
  qed simp
  then show ?thesis using assms by (simp add: finished_left)
qed

theorem close_terminates_witness:
  "finished (foldl (\<lambda>p (now, uuid, db). snd (proc_step now uuid db p))
     (Pallet_proc \<lparr>cd_issuerPrefix = lit ''460000000'', cd_palletBoxCapacity = Some 2, cd_terminalId = None\<rparr> (lit ''s'') None P_check)
     (replicate 4 (lit ''t'', lit ''u'', empty_db)))"
  using close_terminates [of "Pallet_proc \<lparr>cd_issuerPrefix = lit ''460000000'', cd_palletBoxCapacity = Some 2, cd_terminalId = None\<rparr>
      (lit ''s'') None P_check" "replicate 4 (lit ''t'', lit ''u'', empty_db)"] by simp

text \<open>What closing a box does, undisturbed: with an empty or missing box, or with no serials left, nothing changes
  at all; otherwise exactly one box serial is spent. On success the box that was current is stored
  closed with the reported SSCC and time, its label pending, and it still has the reported, positive
  number of items; a serial that cannot be numbered leaves every box as it was; and the result is never
  that somebody else closed it.\<close>

theorem close_box_outcomes:
  assumes "views_ok (box_views db)" "pool_ok (db_pool db)" "\<not> db_grantInstalled db"
    and run: "closeCurrentBox deps s u now uuid db = (db', r)"
  shows "case currentBox db s of None \<Rightarrow> db' = db \<and> r = Inr Box_empty
     | Some box \<Rightarrow>
         if db_box_itemCount box = 0 then db' = db \<and> r = Inr Box_empty
         else if remaining (db_pool db) (cd_issuerPrefix deps) 0 = 0 then db' = db \<and> r = Inr Box_no_serials
         else remaining (db_pool db') (cd_issuerPrefix deps) 0 = remaining (db_pool db) (cd_issuerPrefix deps) 0 - 1
           \<and> (case r of
                Inr (Box_closed c k at p) \<Rightarrow> 0 < k \<and> k = db_box_itemCount box \<and> at = now
                  \<and> (\<exists>b \<in> set (db_boxes db'). bx_boxId b = db_box_boxId box \<and> bx_sscc b = Some c \<and> bx_closedAt b = Some now
                       \<and> bx_printState b = PS_pending \<and> item_count db' (bx_boxId b) = k)
              | Inr r' \<Rightarrow> r' = Box_invalid_serial \<and> db' = db\<lparr>db_pool := db_pool db'\<rparr>
              | Inl e \<Rightarrow> True)"
proof (cases "currentBox db s")
  case None
  then show ?thesis using run assms(3) by (auto simp: closeCurrentBox_def)
next
  case (Some box)
  let ?p = "cd_issuerPrefix deps"
  show ?thesis
  proof (cases "db_box_itemCount box = 0 \<or> remaining (db_pool db) ?p 0 = 0")
    case True
    then have "db_box_itemCount box \<noteq> 0 \<Longrightarrow> burnSerial (db_pool db) ?p 0 = (db_pool db, None)" by (simp add: remaining_dry)
    then show ?thesis using run assms(3) Some True by (auto simp: closeCurrentBox_def BOX_EXTENSION_DIGIT_def)
  next
    case False
    obtain pool serial where burn: "burnSerial (db_pool db) ?p 0 = (pool, Some serial)"
      using remaining_dry [of "db_pool db" ?p 0 "db_pool db"] False
      by (cases "burnSerial (db_pool db) ?p 0"; cases "snd (burnSerial (db_pool db) ?p 0)") (auto dest: burn_None)
    have pool: "remaining pool ?p 0 = remaining (db_pool db) ?p 0 - 1" "pool_ok pool"
      using remaining_burn [OF assms(2) burn] burn_pool_ok [OF assms(2) burn] by simp_all
    let ?db = "db\<lparr>db_pool := pool\<rparr>"
    show ?thesis
    proof (cases "buildSscc (JInt 0) ?p (JInt serial)")
      case (Inl e)
      then show ?thesis using run assms(3) Some False burn pool
        by (auto simp: closeCurrentBox_def BOX_EXTENSION_DIGIT_def split: if_splits)
    next
      case (Inr c)
      obtain dbj j where j: "joining_pallet deps s now uuid ?db = (dbj, j)" by (cases "joining_pallet deps s now uuid ?db")
      have fr: "db_boxes dbj = db_boxes db" "db_codes dbj = db_codes db" "db_pool dbj = pool"
        using joining_frame [OF j] by simp_all
      show ?thesis
      proof (cases j)
        case (Inl e)
        then show ?thesis using run assms(3) Some False burn pool Inr j fr
          by (auto simp: closeCurrentBox_def BOX_EXTENSION_DIGIT_def)
      next
        case ji: (Inr joining)
        obtain dbc where cb: "closeBox dbj (db_box_boxId box) c now u (map_option dp_palletId joining) = (dbc, True)"
          and row: "\<exists>b \<in> set (db_boxes dbc). bx_boxId b = db_box_boxId box \<and> bx_sscc b = Some c \<and> bx_closedAt b = Some now
              \<and> bx_printState b = PS_pending"
          and frc: "db_codes dbc = db_codes db" "db_pool dbc = pool"
          using close_current [OF assms(1) Some fr(1,2)] fr(3) by metis
        have cnt: "db_box_itemCount box = item_count db (db_box_boxId box)" using Some by (auto simp: currentBox_def)
        have "remaining (db_pool db') ?p 0 = remaining pool ?p 0 \<and> (case r of Inl e \<Rightarrow> True
            | Inr (Box_closed c' k at p) \<Rightarrow> c' = c \<and> k = db_box_itemCount box \<and> at = now
                \<and> db_boxes db' = db_boxes dbc \<and> db_codes db' = db_codes dbc
            | Inr _ \<Rightarrow> False)"
        proof (cases "\<exists>pallet capacity. joining = Some pallet \<and> cd_palletBoxCapacity deps = Some capacity \<and> capacity \<le> dp_boxCount pallet + 1")
          case True
          obtain dbp rp where cp: "closeCurrentPallet deps s u now dbc = (dbp, rp)" by (cases "closeCurrentPallet deps s u now dbc")
          then show ?thesis using run assms(3) Some False burn Inr j ji cb True pallet_frame [OF cp] frc pool(2)
            by (auto simp: closeCurrentBox_def BOX_EXTENSION_DIGIT_def split: sum.splits)
        next
          case f: False
          then show ?thesis using run assms(3) Some False burn Inr j ji cb frc
            by (auto simp: closeCurrentBox_def BOX_EXTENSION_DIGIT_def Let_def split: option.splits)
        qed
        then show ?thesis using Some False pool(1) row frc cnt
          by (auto simp: item_count_def split: sum.splits close_box_result.splits)
      qed
    qed
  qed
qed

theorem close_box_outcomes_witness:
  "\<exists>db' c. closeCurrentBox sample_deps (lit ''s'') None (lit ''t2'') (lit ''u'') sample_ready = (db', Inr (Box_closed c 1 (lit ''t2'') None))
     \<and> remaining (db_pool db') (lit ''460000000'') 0 = 0"
proof -
  obtain db' c where cl: "closeCurrentBox sample_deps (lit ''s'') None (lit ''t2'') (lit ''u'') sample_ready
      = (db', Inr (Box_closed c 1 (lit ''t2'') None))"
    using sample_close by (metis prod.collapse)
  have ok: "views_ok (box_views sample_ready)" "pool_ok (db_pool sample_ready)" "\<not> db_grantInstalled sample_ready"
    by (simp_all add: sample_ready_def empty_db_def openBox_def or_unchanged_def views_ok_def view_ok_def box_view_def
        pool_ok_def addRange_def)
  have "remaining (db_pool sample_ready) (lit ''460000000'') 0 = 1"
    by (simp add: sample_ready_def empty_db_def openBox_def or_unchanged_def addRange_def remaining_def has_room_def
        sample_range_def start_serial_def)
  moreover obtain box where "currentBox sample_ready (lit ''s'') = Some box" "db_box_itemCount box = 1"
    by (simp add: sample_ready_def empty_db_def openBox_def or_unchanged_def currentBox_def first_row_def item_count_def)
  moreover have "cd_issuerPrefix sample_deps = lit ''460000000''" by (simp add: sample_deps_def)
  ultimately show ?thesis using close_box_outcomes [OF ok cl] cl by simp
qed

end
