(* ===== verification/Closure_Sync.thy ===== *)
theory Closure_Sync
  imports Station_Boxes
begin

text \<open>
  Reporting closed boxes and pallets to the server (\<open>readClosedUnackedBoxes\<close>, \<open>toBoxPayload\<close>,
  \<open>boxSetSignature\<close>, \<open>ackBoxes\<close> and their counterparts for pallets in \<open>apps/station/src/lib/sync.ts\<close>).
  A report reads the closures that are not acknowledged, posts them, and acknowledges each of them
  once the server has answered. Meanwhile the operator verifies or skips labels, which has to reach
  the server as well.
\<close>

section \<open>Reading and acknowledging\<close>

record box_closure =
  bc_boxId :: jstring
  bc_shiftId :: jstring
  bc_terminalId :: "jstring option"
  bc_sscc :: "jstring option"
  bc_closedAt :: "jstring option"
  bc_operatorId :: "jstring option"
  bc_printVerifiedAt :: "jstring option"
  bc_printSkippedAt :: "jstring option"
  bc_devicePalletId :: "jstring option"
  bc_lastCheckedRevision :: nat
  bc_rowid :: nat

definition within :: "nat option \<Rightarrow> nat \<Rightarrow> bool" where
  "within ceilingRowid i \<longleftrightarrow> (case ceilingRowid of None \<Rightarrow> True | Some c \<Rightarrow> i \<le> c)"

definition closure_of_box :: "box_row \<Rightarrow> box_closure" where
  "closure_of_box b = \<lparr>bc_boxId = bx_boxId b, bc_shiftId = bx_shiftId b, bc_terminalId = bx_terminalId b, bc_sscc = bx_sscc b,
     bc_closedAt = bx_closedAt b, bc_operatorId = bx_closedBy b, bc_printVerifiedAt = bx_printVerifiedAt b,
     bc_printSkippedAt = bx_printSkippedAt b, bc_devicePalletId = bx_palletId b,
     bc_lastCheckedRevision = bx_lastCheckedRevision b, bc_rowid = bx_rowid b\<rparr>"

definition readClosedUnackedBoxes :: "station_db \<Rightarrow> nat \<Rightarrow> nat option \<Rightarrow> box_closure list" where
  "readClosedUnackedBoxes db limit ceilingRowid =
     map closure_of_box (take limit (filter (\<lambda>b. bx_closedAt b \<noteq> None \<and> bx_ackedAt b = None
       \<and> within ceilingRowid (bx_rowid b)) (db_boxes db)))"

record pallet_closure =
  pc_palletId :: jstring
  pc_shiftId :: jstring
  pc_terminalId :: "jstring option"
  pc_sscc :: "jstring option"
  pc_closedAt :: "jstring option"
  pc_operatorId :: "jstring option"
  pc_printVerifiedAt :: "jstring option"
  pc_printSkippedAt :: "jstring option"
  pc_rowid :: nat

definition closure_of_pallet :: "pallet_row \<Rightarrow> pallet_closure" where
  "closure_of_pallet p = \<lparr>pc_palletId = pl_palletId p, pc_shiftId = pl_shiftId p, pc_terminalId = pl_terminalId p,
     pc_sscc = pl_sscc p, pc_closedAt = pl_closedAt p, pc_operatorId = pl_closedBy p,
     pc_printVerifiedAt = pl_printVerifiedAt p, pc_printSkippedAt = pl_printSkippedAt p, pc_rowid = pl_rowid p\<rparr>"

definition readClosedUnackedPallets :: "station_db \<Rightarrow> nat \<Rightarrow> nat option \<Rightarrow> pallet_closure list" where
  "readClosedUnackedPallets db limit ceilingRowid =
     map closure_of_pallet (take limit (filter (\<lambda>p. pl_closedAt p \<noteq> None \<and> pl_sscc p \<noteq> None \<and> pl_ackedAt p = None
       \<and> within ceilingRowid (pl_rowid p)) (db_pallets db)))"

definition ackBoxes :: "station_db \<Rightarrow> box_closure list \<Rightarrow> jstring \<Rightarrow> station_db" where
  "ackBoxes db boxes ackedAt =
     foldl (\<lambda>db b. ack_box db ackedAt (bc_boxId b) (bc_printVerifiedAt b) (bc_printSkippedAt b)) db boxes"

definition ackPallets :: "station_db \<Rightarrow> pallet_closure list \<Rightarrow> jstring \<Rightarrow> station_db" where
  "ackPallets db pallets ackedAt =
     foldl (\<lambda>db p. ack_pallet db ackedAt (pc_palletId p) (pc_printVerifiedAt p) (pc_printSkippedAt p)) db pallets"

section \<open>The identity of a set of closures\<close>

definition outcome_char :: "jstring option \<Rightarrow> jstring option \<Rightarrow> jstring" where
  "outcome_char verifiedAt skippedAt =
     (if verifiedAt \<noteq> None then lit ''v'' else if skippedAt \<noteq> None then lit ''s'' else lit ''u'')"

definition boxSetSignature :: "box_closure list \<Rightarrow> jstring" where
  "boxSetSignature boxes =
     (let base = dec (bc_rowid (last boxes)) @ lit '':'' @
            concat (map (\<lambda>b. outcome_char (bc_printVerifiedAt b) (bc_printSkippedAt b)) boxes);
          checkedRevisions = map bc_lastCheckedRevision boxes
      in if list_ex (\<lambda>revision. 0 < revision) checkedRevisions
         then base @ lit '':'' @ join (lit '','') (map dec checkedRevisions) else base)"

definition palletSetSignature :: "pallet_closure list \<Rightarrow> jstring" where
  "palletSetSignature pallets =
     dec (pc_rowid (last pallets)) @ lit '':'' @
       concat (map (\<lambda>p. outcome_char (pc_printVerifiedAt p) (pc_printSkippedAt p)) pallets)"

section \<open>Interface: reports of a labelled table\<close>

text \<open>
  A report in flight is the list of closures that was read; \<open>delivered\<close> collects what has reached the
  server. A request may not arrive, and a response may get lost.
\<close>

record ('t, 'e) reporting =
  rp_store :: 't
  rp_inflight :: "'e list"
  rp_delivered :: "'e list"

datatype 'o report_op = Local 'o | Post nat "nat option" bool | Respond jstring | Lose

definition report_step ::
    "('t \<Rightarrow> 'o \<Rightarrow> 't) \<Rightarrow> ('t \<Rightarrow> nat \<Rightarrow> nat option \<Rightarrow> 'e list) \<Rightarrow> ('t \<Rightarrow> 'e list \<Rightarrow> jstring \<Rightarrow> 't)
       \<Rightarrow> ('t, 'e) reporting \<Rightarrow> 'o report_op \<Rightarrow> ('t, 'e) reporting" where
  "report_step step rd ack s op = (case op of
     Local a \<Rightarrow> s\<lparr>rp_store := step (rp_store s) a\<rparr>
   | Post limit ceilingRowid reached \<Rightarrow>
       (let closures = rd (rp_store s) limit ceilingRowid
        in if reached then s\<lparr>rp_inflight := closures, rp_delivered := rp_delivered s @ closures\<rparr>
           else s\<lparr>rp_inflight := []\<rparr>)
   | Respond ackedAt \<Rightarrow> s\<lparr>rp_store := ack (rp_store s) (rp_inflight s) ackedAt, rp_inflight := []\<rparr>
   | Lose \<Rightarrow> s\<lparr>rp_inflight := []\<rparr>)"

text \<open>Two rows that say the same to the server.\<close>

definition same_report :: "label_view \<Rightarrow> label_view \<Rightarrow> bool" where
  "same_report v w \<longleftrightarrow> lv_rowid v = lv_rowid w \<and> lv_id v = lv_id w \<and> lv_shiftId v = lv_shiftId w
     \<and> lv_terminalId v = lv_terminalId w \<and> lv_sscc v = lv_sscc w \<and> lv_closedAt v = lv_closedAt w
     \<and> lv_closedBy v = lv_closedBy w \<and> lv_verifiedAt v = lv_verifiedAt w \<and> lv_skippedAt v = lv_skippedAt w"

definition unreported :: "nat option \<Rightarrow> label_view \<Rightarrow> bool" where
  "unreported ceilingRowid v \<longleftrightarrow> lv_closedAt v \<noteq> None \<and> lv_ackedAt v = None \<and> within ceilingRowid (lv_rowid v)"

definition same_outcome :: "label_view \<Rightarrow> label_view \<Rightarrow> bool" where
  "same_outcome v w \<longleftrightarrow> lv_id v = lv_id w \<and> lv_verifiedAt v = lv_verifiedAt w \<and> lv_skippedAt v = lv_skippedAt w"

definition acked_closed :: "label_view list \<Rightarrow> bool" where
  "acked_closed vs \<longleftrightarrow> (\<forall>v \<in> set vs. lv_ackedAt v \<noteq> None \<longrightarrow> lv_closedAt v \<noteq> None)"

lemma sorted_subset_eq:
  fixes xs ys :: "nat list"
  assumes "sorted_wrt (<) xs" "sorted_wrt (<) ys" "set xs \<subseteq> set ys" "length xs = length ys"
  shows "xs = ys"
proof -
  have d: "distinct xs" "distinct ys" using assms(1,2) by (simp_all add: strict_sorted_iff)
  then have "set xs = set ys" using assms(3,4) by (metis List.finite_set card_subset_eq distinct_card)
  then show ?thesis using assms(1,2) by (metis strict_sorted_equal)
qed

lemma prefix_below_last:
  assumes "sorted_wrt (<) (map lv_rowid vs)" "take n (filter (unreported c) vs) \<noteq> []"
  shows "take n (filter (unreported c) vs)
    = filter (\<lambda>v. unreported None v \<and> lv_rowid v \<le> lv_rowid (last (take n (filter (unreported c) vs)))) vs"
proof -
  define A where "A = filter (unreported None) vs"
  define rows where "rows = map (\<lambda>v. (lv_rowid v, v)) A"
  have srt: "sorted_wrt (<) (map fst rows)"
    using assms(1) by (auto simp: rows_def A_def comp_def sorted_wrt_map intro: sorted_wrt_filter)
  have "filter (unreported c) vs = filter (\<lambda>v. within c (lv_rowid v)) A"
    by (auto simp: A_def unreported_def within_def filter_filter intro!: filter_cong)
  then have sel: "select_prefix rows n c = map (\<lambda>v. (lv_rowid v, v)) (take n (filter (unreported c) vs))"
    by (cases c) (simp_all add: select_prefix_def rows_def within_def filter_map comp_def take_map)
  then have "select_prefix rows n c \<noteq> []" using assms(2) by simp
  from select_prefix_split(2) [OF srt this]
  have "filter (\<lambda>r. fst r \<le> lv_rowid (last (take n (filter (unreported c) vs)))) rows
      = map (\<lambda>v. (lv_rowid v, v)) (take n (filter (unreported c) vs))"
    using assms(2) by (simp add: sel last_map del: take_eq_Nil filter_empty_conv)
  then have "map snd (filter (\<lambda>r. fst r \<le> lv_rowid (last (take n (filter (unreported c) vs)))) rows)
      = take n (filter (unreported c) vs)" by (simp add: comp_def)
  then show ?thesis by (simp add: rows_def A_def filter_map comp_def conj_commute)
qed

definition outcome_flags :: "label_view \<Rightarrow> bool \<times> bool" where
  "outcome_flags v = (lv_verifiedAt v = None, lv_skippedAt v = None)"

locale reported_table = labelled_table views step
  for views :: "'t \<Rightarrow> label_view list" and step :: "'t \<Rightarrow> 'o \<Rightarrow> 't" +
  fixes view_of :: "'e \<Rightarrow> label_view"
    and rd :: "'t \<Rightarrow> nat \<Rightarrow> nat option \<Rightarrow> 'e list"
    and ack1 :: "'t \<Rightarrow> jstring \<Rightarrow> 'e \<Rightarrow> 't"
    and is_ack :: "'o \<Rightarrow> bool"
  assumes rd_views: "views_ok (views t) \<Longrightarrow> map view_of (rd t n c) = take n (filter (unreported c) (views t))"
    and ack_views: "views (ack1 t at e) =
        map (\<lambda>v. if same_outcome v (view_of e) then v\<lparr>lv_ackedAt := Some at\<rparr> else v) (views t)"
    and local_acked: "\<not> is_ack op \<Longrightarrow> acked_closed (views t) \<Longrightarrow> w \<in> set (views (step t op)) \<Longrightarrow> lv_ackedAt w \<noteq> None
        \<Longrightarrow> \<exists>v \<in> set (views t). lv_ackedAt v \<noteq> None \<and> same_report v w"
begin

definition ack_all :: "'t \<Rightarrow> 'e list \<Rightarrow> jstring \<Rightarrow> 't" where
  "ack_all t es at = foldl (\<lambda>t e. ack1 t at e) t es"

text \<open>
  What the acknowledgement means: the report in flight was delivered, its rows are still there, and
  every acknowledged row was delivered as it stands.
\<close>

definition report_inv :: "('t, 'e) reporting \<Rightarrow> bool" where
  "report_inv s \<longleftrightarrow> views_ok (views (rp_store s)) \<and> acked_closed (views (rp_store s))
     \<and> set (rp_inflight s) \<subseteq> set (rp_delivered s)
     \<and> (\<forall>e \<in> set (rp_inflight s). lv_closedAt (view_of e) \<noteq> None \<and> (\<exists>w \<in> set (views (rp_store s)). evolves (view_of e) w))
     \<and> (\<forall>v \<in> set (views (rp_store s)). lv_ackedAt v \<noteq> None \<longrightarrow> (\<exists>e \<in> set (rp_delivered s). same_report (view_of e) v))"

lemma ack1_inv:
  assumes inv: "report_inv s" and e: "e \<in> set (rp_inflight s)"
  shows "report_inv (s\<lparr>rp_store := ack1 (rp_store s) at e\<rparr>)"
proof -
  let ?g = "\<lambda>v. if same_outcome v (view_of e) then v\<lparr>lv_ackedAt := Some at\<rparr> else v"
  let ?vs = "views (rp_store s)"
  have ok: "views_ok ?vs" using inv by (simp add: report_inv_def)
  have del: "e \<in> set (rp_delivered s)" "lv_closedAt (view_of e) \<noteq> None" using inv e by (auto simp: report_inv_def)
  have ev: "evolves (view_of e) v" if "v \<in> set ?vs" "same_outcome v (view_of e)" for v
  proof -
    obtain w where w: "w \<in> set ?vs" "evolves (view_of e) w" using inv e by (auto simp: report_inv_def)
    then have "w = v" using that ok by (auto simp: views_ok_def distinct_map inj_on_def evolves_def same_outcome_def)
    then show ?thesis using w(2) by simp
  qed
  have "map lv_id (map ?g ?vs) = map lv_id ?vs" "map lv_rowid (map ?g ?vs) = map lv_rowid ?vs" by simp_all
  moreover have "list_all view_ok (map ?g ?vs)" using ok by (auto simp: views_ok_def list_all_iff view_ok_def)
  ultimately have "views_ok (map ?g ?vs)" using ok unfolding views_ok_def by metis
  moreover have "acked_closed (map ?g ?vs)"
    using inv ev del(2) by (auto simp: report_inv_def acked_closed_def evolves_def)
  moreover have "\<exists>w \<in> set (map ?g ?vs). evolves (view_of x) w" if "x \<in> set (rp_inflight s)" for x
  proof -
    obtain w where "w \<in> set ?vs" "evolves (view_of x) w" using inv \<open>x \<in> set (rp_inflight s)\<close> by (auto simp: report_inv_def)
    then show ?thesis by (intro bexI [of _ "?g w"]) (auto simp: evolves_def)
  qed
  moreover have "\<exists>d \<in> set (rp_delivered s). same_report (view_of d) w" if w: "w \<in> set (map ?g ?vs)" "lv_ackedAt w \<noteq> None" for w
  proof -
    obtain v where v: "v \<in> set ?vs" "w = ?g v" using w(1) by auto
    show ?thesis
    proof (cases "same_outcome v (view_of e)")
      case True
      then have "same_report (view_of e) w" using ev [OF v(1) True] v(2)
        by (auto simp: same_report_def evolves_def same_outcome_def)
      then show ?thesis using del(1) by blast
    next
      case False
      then show ?thesis using v w(2) inv by (auto simp: report_inv_def)
    qed
  qed
  ultimately show ?thesis using inv by (simp add: report_inv_def ack_views)
qed

lemma ack_all_inv:
  "report_inv s \<Longrightarrow> set es \<subseteq> set (rp_inflight s) \<Longrightarrow> report_inv (s\<lparr>rp_store := ack_all (rp_store s) es at\<rparr>)"
proof (induction es arbitrary: s)
  case (Cons e es)
  have "report_inv (s\<lparr>rp_store := ack1 (rp_store s) at e\<rparr>)" using Cons.prems ack1_inv by simp
  from Cons.IH [OF this] Cons.prems(2) show ?case by (simp add: ack_all_def)
qed (simp add: ack_all_def)

lemma local_inv:
  assumes inv: "report_inv s" and op: "\<not> is_ack op"
  shows "report_inv (s\<lparr>rp_store := step (rp_store s) op\<rparr>)"
proof -
  let ?vs = "views (rp_store s)" and ?ws = "views (step (rp_store s) op)"
  have ok: "views_ok ?vs" and ac: "acked_closed ?vs" using inv by (simp_all add: report_inv_def)
  have "acked_closed ?ws"
    unfolding acked_closed_def
  proof (intro ballI impI)
    fix w assume "w \<in> set ?ws" "lv_ackedAt w \<noteq> None"
    then obtain v where "v \<in> set ?vs" "lv_ackedAt v \<noteq> None" "same_report v w" using local_acked [OF op ac] by blast
    then show "lv_closedAt w \<noteq> None" using ac by (metis acked_closed_def same_report_def)
  qed
  moreover have "\<exists>w \<in> set ?ws. evolves (view_of e) w" if e: "e \<in> set (rp_inflight s)" for e
  proof -
    obtain v where v: "v \<in> set ?vs" "evolves (view_of e) v" and "lv_closedAt (view_of e) \<noteq> None"
      using inv e by (auto simp: report_inv_def)
    then have "lv_closedAt v \<noteq> None" by (simp add: evolves_def)
    then show ?thesis using step_evolves [OF v(1)] v(2) evolves_trans by blast
  qed
  moreover have "\<exists>e \<in> set (rp_delivered s). same_report (view_of e) w" if w: "w \<in> set ?ws" "lv_ackedAt w \<noteq> None" for w
  proof -
    obtain v where "v \<in> set ?vs" "lv_ackedAt v \<noteq> None" "same_report v w" using local_acked [OF op ac w] by blast
    then show ?thesis using inv by (fastforce simp: report_inv_def same_report_def)
  qed
  ultimately show ?thesis using inv step_ok [OF ok] by (simp add: report_inv_def)
qed

lemma post_inv:
  assumes inv: "report_inv s"
  shows "report_inv (s\<lparr>rp_inflight := rd (rp_store s) n c, rp_delivered := rp_delivered s @ rd (rp_store s) n c\<rparr>)"
proof -
  have "lv_closedAt (view_of e) \<noteq> None \<and> (\<exists>w \<in> set (views (rp_store s)). evolves (view_of e) w)"
    if "e \<in> set (rd (rp_store s) n c)" for e
  proof -
    have "view_of e \<in> set (take n (filter (unreported c) (views (rp_store s))))"
      using that rd_views [of "rp_store s" n c] inv by (metis image_eqI report_inv_def set_map)
    then have "view_of e \<in> set (views (rp_store s))" "unreported c (view_of e)" by (auto dest: in_set_takeD)
    then show ?thesis using evolves_refl unfolding unreported_def by blast
  qed
  then show ?thesis using inv by (auto simp: report_inv_def)
qed

fun no_ack :: "'o report_op \<Rightarrow> bool" where
  "no_ack (Local op) = (\<not> is_ack op)"
| "no_ack _ = True"

lemma no_ackI: "(\<And>op. Local op \<in> set ops \<Longrightarrow> \<not> is_ack op) \<Longrightarrow> list_all no_ack ops"
  unfolding list_all_iff by (metis no_ack.elims(3))

lemma report_step_inv:
  assumes "report_inv s" "no_ack op"
  shows "report_inv (report_step step rd ack_all s op)"
proof (cases op)
  case (Local a)
  then show ?thesis using assms local_inv by (simp add: report_step_def)
next
  case (Post n c reached)
  then show ?thesis using assms post_inv [of s n c] by (auto simp: report_step_def Let_def report_inv_def)
next
  case (Respond at)
  have "report_inv (s\<lparr>rp_store := ack_all (rp_store s) (rp_inflight s) at\<rparr>)" using ack_all_inv assms(1) by simp
  then show ?thesis using Respond by (simp add: report_step_def report_inv_def)
next
  case Lose
  then show ?thesis using assms by (simp add: report_step_def report_inv_def)
qed

lemma report_run_inv:
  "report_inv s \<Longrightarrow> list_all no_ack ops \<Longrightarrow> report_inv (foldl (report_step step rd ack_all) s ops)"
  by (induction ops arbitrary: s) (simp_all add: report_step_inv)

lemma local_run_acked:
  "list_all (\<lambda>op. \<not> is_ack op) ops \<Longrightarrow> acked_closed (views t) \<Longrightarrow> w \<in> set (views (foldl step t ops)) \<Longrightarrow> lv_ackedAt w \<noteq> None
    \<Longrightarrow> \<exists>v \<in> set (views t). lv_ackedAt v \<noteq> None \<and> same_report v w"
proof (induction ops arbitrary: t)
  case (Cons op ops)
  have nop: "\<not> is_ack op" using Cons.prems(1) by simp
  have ac: "acked_closed (views (step t op))"
    unfolding acked_closed_def using local_acked [OF nop Cons.prems(2)] Cons.prems(2)
    by (metis acked_closed_def same_report_def)
  obtain u where u: "u \<in> set (views (step t op))" "lv_ackedAt u \<noteq> None" "same_report u w"
    using Cons.IH [OF _ ac] Cons.prems(1,3,4) by auto
  obtain v where "v \<in> set (views t)" "lv_ackedAt v \<noteq> None" "same_report v u"
    using local_acked [OF nop Cons.prems(2) u(1,2)] by blast
  then show ?case using u(3) by (auto simp: same_report_def)
qed (auto simp: same_report_def)

lemma same_signature:
  assumes ok: "views_ok (views t)" and ac: "acked_closed (views t)" and ops: "list_all (\<lambda>op. \<not> is_ack op) ops"
    and ne: "rd t n c \<noteq> []" "rd (foldl step t ops) n' c' \<noteq> []"
    and last: "lv_rowid (view_of (last (rd t n c))) = lv_rowid (view_of (last (rd (foldl step t ops) n' c')))"
    and flags: "map (\<lambda>e. outcome_flags (view_of e)) (rd t n c)
      = map (\<lambda>e. outcome_flags (view_of e)) (rd (foldl step t ops) n' c')"
  shows "map view_of (rd t n c) = map view_of (rd (foldl step t ops) n' c')"
proof -
  let ?t' = "foldl step t ops"
  define xs where "xs = map view_of (rd t n c)"
  define ys where "ys = map view_of (rd ?t' n' c')"
  define l where "l = lv_rowid (last xs)"
  have ok': "views_ok (views ?t')" using run_ok ok by blast
  have xs': "xs = take n (filter (unreported c) (views t))" and ys': "ys = take n' (filter (unreported c') (views ?t'))"
    unfolding xs_def ys_def using rd_views ok ok' by blast+
  have nexy: "xs \<noteq> []" "ys \<noteq> []" using ne by (simp_all add: xs_def ys_def)
  have l': "lv_rowid (last ys) = l" using last ne by (simp add: l_def xs_def ys_def last_map)
  have s: "sorted_wrt (<) (map lv_rowid (views t))" "sorted_wrt (<) (map lv_rowid (views ?t'))"
    using ok ok' by (simp_all add: views_ok_def)
  have xs: "xs = filter (\<lambda>v. unreported None v \<and> lv_rowid v \<le> l) (views t)"
    using prefix_below_last [OF s(1), of n c] nexy(1) unfolding xs' [symmetric] l_def by simp
  have ys: "ys = filter (\<lambda>v. unreported None v \<and> lv_rowid v \<le> l) (views ?t')"
    using prefix_below_last [OF s(2), of n' c'] nexy(2) unfolding ys' [symmetric] l' by simp
  have ev: "\<exists>w \<in> set ys. evolves v w" if v: "v \<in> set xs" for v
  proof -
    have v': "v \<in> set (views t)" "lv_closedAt v \<noteq> None" "lv_ackedAt v = None" "lv_rowid v \<le> l"
      using v by (auto simp: xs unreported_def)
    obtain w where w: "w \<in> set (views ?t')" "evolves v w" using run_evolves v'(1,2) by blast
    have "lv_ackedAt w = None"
    proof (rule ccontr)
      assume "lv_ackedAt w \<noteq> None"
      then obtain u where "u \<in> set (views t)" "lv_ackedAt u \<noteq> None" "same_report u w"
        using local_run_acked [OF ops ac w(1)] by blast
      then have "u = v" using v'(1) w(2) ok by (auto simp: views_ok_def distinct_map inj_on_def same_report_def evolves_def)
      then show False using v'(3) \<open>lv_ackedAt u \<noteq> None\<close> by simp
    qed
    then have "w \<in> set ys" using w v' by (auto simp: ys unreported_def evolves_def within_def)
    then show ?thesis using w(2) by blast
  qed
  have fl: "map outcome_flags xs = map outcome_flags ys" using flags by (simp add: xs_def ys_def comp_def)
  then have len: "length xs = length ys" by (rule map_eq_imp_length_eq)
  have rid: "map lv_rowid xs = map lv_rowid ys"
  proof (rule sorted_subset_eq)
    show "sorted_wrt (<) (map lv_rowid xs)" "sorted_wrt (<) (map lv_rowid ys)"
      using s unfolding xs ys sorted_wrt_map by (simp_all add: sorted_wrt_filter)
    show "set (map lv_rowid xs) \<subseteq> set (map lv_rowid ys)"
    proof
      fix x assume "x \<in> set (map lv_rowid xs)"
      then obtain v where v: "v \<in> set xs" "x = lv_rowid v" by auto
      then obtain w where "w \<in> set ys" "evolves v w" using ev by blast
      then show "x \<in> set (map lv_rowid ys)" using v(2) evolves_rowid by (metis image_eqI set_map)
    qed
  qed (simp add: len)
  have "xs ! i = ys ! i" if i: "i < length xs" for i
  proof -
    obtain w where w: "w \<in> set ys" "evolves (xs ! i) w" using ev i by (meson nth_mem)
    have "lv_rowid (ys ! i) = lv_rowid (xs ! i)" using rid i len by (metis nth_map)
    moreover have "ys ! i \<in> set ys" using i len by simp
    moreover have "distinct (map lv_rowid ys)" using s(2) by (simp add: ys strict_sorted_iff distinct_map_filter)
    ultimately have "ys ! i = w" using w by (auto simp: distinct_map inj_on_def evolves_def)
    moreover have "outcome_flags (xs ! i) = outcome_flags (ys ! i)" using fl i len by (metis nth_map)
    moreover have "lv_ackedAt (xs ! i) = None" "lv_ackedAt (ys ! i) = None"
      using nth_mem [OF i] \<open>ys ! i \<in> set ys\<close> by (auto simp: xs ys unreported_def)
    ultimately show ?thesis using w(2)
      by (intro label_view.equality) (auto simp: evolves_def outcome_flags_def)
  qed
  then show ?thesis using len unfolding xs_def [symmetric] ys_def [symmetric] by (simp add: nth_equalityI)
qed

end

section \<open>Both tables are reported tables\<close>

definition box_report :: "box_closure \<Rightarrow> label_view" where
  "box_report b = \<lparr>lv_rowid = bc_rowid b, lv_id = bc_boxId b, lv_shiftId = bc_shiftId b, lv_terminalId = bc_terminalId b,
     lv_sscc = bc_sscc b, lv_closedAt = bc_closedAt b, lv_closedBy = bc_operatorId b,
     lv_verifiedAt = bc_printVerifiedAt b, lv_skippedAt = bc_printSkippedAt b, lv_ackedAt = None\<rparr>"

definition pallet_report :: "pallet_closure \<Rightarrow> label_view" where
  "pallet_report p = \<lparr>lv_rowid = pc_rowid p, lv_id = pc_palletId p, lv_shiftId = pc_shiftId p, lv_terminalId = pc_terminalId p,
     lv_sscc = pc_sscc p, lv_closedAt = pc_closedAt p, lv_closedBy = pc_operatorId p,
     lv_verifiedAt = pc_printVerifiedAt p, lv_skippedAt = pc_printSkippedAt p, lv_ackedAt = None\<rparr>"

definition box_ack1 :: "station_db \<Rightarrow> jstring \<Rightarrow> box_closure \<Rightarrow> station_db" where
  "box_ack1 db at b = ack_box db at (bc_boxId b) (bc_printVerifiedAt b) (bc_printSkippedAt b)"

definition pallet_ack1 :: "station_db \<Rightarrow> jstring \<Rightarrow> pallet_closure \<Rightarrow> station_db" where
  "pallet_ack1 db at p = ack_pallet db at (pc_palletId p) (pc_printVerifiedAt p) (pc_printSkippedAt p)"

fun is_box_ack :: "station_op \<Rightarrow> bool" where
  "is_box_ack (Ack_box at b v k) = True"
| "is_box_ack _ = False"

fun is_pallet_ack :: "station_op \<Rightarrow> bool" where
  "is_pallet_ack (Ack_pallet at p v k) = True"
| "is_pallet_ack _ = False"

lemma box_report_closure [simp]: "bx_ackedAt b = None \<Longrightarrow> box_report (closure_of_box b) = box_view b"
  by (simp add: box_report_def closure_of_box_def box_view_def)

lemma pallet_report_closure [simp]: "pl_ackedAt p = None \<Longrightarrow> pallet_report (closure_of_pallet p) = pallet_view p"
  by (simp add: pallet_report_def closure_of_pallet_def pallet_view_def)

lemma box_rd_views:
  "map box_report (readClosedUnackedBoxes db n c) = take n (filter (unreported c) (box_views db))"
proof -
  have f: "filter (unreported c) (box_views db) = map box_view (filter (\<lambda>b. bx_closedAt b \<noteq> None \<and> bx_ackedAt b = None
       \<and> within c (bx_rowid b)) (db_boxes db))"
    by (simp add: filter_map comp_def unreported_def box_view_def)
  show ?thesis unfolding f readClosedUnackedBoxes_def take_map map_map
    by (rule map_cong) (auto dest: in_set_takeD)
qed

lemma pallet_rd_views:
  assumes "views_ok (pallet_views db)"
  shows "map pallet_report (readClosedUnackedPallets db n c) = take n (filter (unreported c) (pallet_views db))"
proof -
  have "pl_sscc p \<noteq> None" if "p \<in> set (db_pallets db)" "pl_closedAt p \<noteq> None" for p
    using that assms by (auto simp: views_ok_def view_ok_def list_all_iff pallet_view_def)
  then have f: "filter (unreported c) (pallet_views db) = map pallet_view (filter (\<lambda>p. pl_closedAt p \<noteq> None \<and> pl_sscc p \<noteq> None
       \<and> pl_ackedAt p = None \<and> within c (pl_rowid p)) (db_pallets db))"
    by (simp add: filter_map comp_def unreported_def pallet_view_def)
      (rule arg_cong [where f = "map pallet_view"], rule filter_cong, auto)
  show ?thesis unfolding f readClosedUnackedPallets_def take_map map_map
    by (rule map_cong) (auto dest: in_set_takeD)
qed

lemma box_ack_views:
  "box_views (box_ack1 db at b) =
     map (\<lambda>v. if same_outcome v (box_report b) then v\<lparr>lv_ackedAt := Some at\<rparr> else v) (box_views db)"
  by (simp add: box_ack1_def ack_box_def update_where_def same_outcome_def box_report_def box_view_def)

lemma pallet_ack_views:
  "pallet_views (pallet_ack1 db at b) =
     map (\<lambda>v. if same_outcome v (pallet_report b) then v\<lparr>lv_ackedAt := Some at\<rparr> else v) (pallet_views db)"
  by (simp add: pallet_ack1_def ack_pallet_def update_where_def same_outcome_def pallet_report_def pallet_view_def)

text \<open>A statement that leaves a row acknowledged has changed nothing the server was told.\<close>

lemma acked_update:
  assumes "w \<in> set (map f (update_where P g rows))" "lv_ackedAt w \<noteq> None"
    and "\<And>r. r \<in> set rows \<Longrightarrow> P r \<Longrightarrow> lv_ackedAt (f (g r)) \<noteq> None \<Longrightarrow> lv_ackedAt (f r) \<noteq> None \<and> same_report (f r) (f (g r))"
  shows "\<exists>v \<in> set (map f rows). lv_ackedAt v \<noteq> None \<and> same_report v w"
proof -
  obtain r where r: "r \<in> set rows" "w = f (if P r then g r else r)" using assms(1) by (auto simp: update_where_def)
  then show ?thesis using assms(2,3) by (intro bexI [of _ "f r"]) (auto simp: same_report_def)
qed

lemma unchanged_acked: "w \<in> set vs \<Longrightarrow> lv_ackedAt w \<noteq> None \<Longrightarrow> \<exists>v \<in> set vs. lv_ackedAt v \<noteq> None \<and> same_report v w"
  by (auto simp: same_report_def)

lemma box_local_acked:
  assumes "\<not> is_box_ack op" "acked_closed (box_views db)" "w \<in> set (box_views (apply_op db op))" "lv_ackedAt w \<noteq> None"
  shows "\<exists>v \<in> set (box_views db). lv_ackedAt v \<noteq> None \<and> same_report v w"
proof (cases op)
  case (Open_box s b at t)
  then have "w \<in> set (box_views db)" using assms(3,4)
    by (auto simp: openBox_def or_unchanged_def box_view_def split: if_splits)
  then show ?thesis using unchanged_acked assms(4) by blast
next
  case (Remove_empty s)
  then have "w \<in> set (box_views db)" using assms(3) by (auto simp: removeEmptyOpenBoxes_def)
  then show ?thesis using unchanged_acked assms(4) by blast
next
  case (Close_box b c at u p)
  show ?thesis
  proof (rule acked_update [OF _ assms(4)])
    show "w \<in> set (map box_view (update_where (\<lambda>x. bx_boxId x = b \<and> bx_closedAt x = None)
        (\<lambda>x. x\<lparr>bx_sscc := Some c, bx_closedAt := Some at, bx_closedBy := u, bx_palletId := p, bx_printState := PS_pending,
          bx_printErrorCode := None\<rparr>) (db_boxes db)))"
      using assms(3) Close_box by (simp add: closeBox_def Let_def)
  qed (use assms(2) in \<open>auto simp: acked_closed_def box_view_def\<close>)
qed ((rule unchanged_acked [OF _ assms(4)], use assms(1,3) in \<open>simp add: station_ops Let_def\<close>; fail)
  | (rule acked_update [OF _ assms(4)], use assms(3) in \<open>simp add: station_ops del: set_map; assumption\<close>,
      simp add: box_view_def same_report_def; fail)
  | (use assms(1) in simp; fail))+

lemma pallet_local_acked:
  assumes "\<not> is_pallet_ack op" "acked_closed (pallet_views db)" "w \<in> set (pallet_views (apply_op db op))" "lv_ackedAt w \<noteq> None"
  shows "\<exists>v \<in> set (pallet_views db). lv_ackedAt v \<noteq> None \<and> same_report v w"
proof (cases op)
  case (Open_pallet p s t at)
  then have "w \<in> set (pallet_views db)" using assms(3,4)
    by (auto simp: openPallet_def or_unchanged_def pallet_view_def split: if_splits)
  then show ?thesis using unchanged_acked assms(4) by blast
next
  case (Close_pallet p c at u)
  show ?thesis
  proof (rule acked_update [OF _ assms(4)])
    show "w \<in> set (map pallet_view (update_where (\<lambda>x. pl_palletId x = p \<and> pl_closedAt x = None)
        (\<lambda>x. x\<lparr>pl_sscc := Some c, pl_closedAt := Some at, pl_closedBy := u, pl_printState := PS_pending,
          pl_printErrorCode := None\<rparr>) (db_pallets db)))"
      using assms(3) Close_pallet by (simp add: closePallet_def Let_def)
  qed (use assms(2) in \<open>auto simp: acked_closed_def pallet_view_def\<close>)
qed ((rule unchanged_acked [OF _ assms(4)], use assms(1,3) in \<open>simp add: station_ops Let_def\<close>; fail)
  | (rule acked_update [OF _ assms(4)], use assms(3) in \<open>simp add: station_ops del: set_map; assumption\<close>,
      simp add: pallet_view_def same_report_def; fail)
  | (use assms(1) in simp; fail))+

interpretation box_reports: reported_table box_views apply_op box_report readClosedUnackedBoxes box_ack1 is_box_ack
  by unfold_locales (rule box_rd_views box_ack_views box_local_acked; assumption)+

interpretation pallet_reports:
    reported_table pallet_views apply_op pallet_report readClosedUnackedPallets pallet_ack1 is_pallet_ack
  by unfold_locales (rule pallet_rd_views pallet_ack_views pallet_local_acked; assumption)+

lemma ackBoxes_all: "ackBoxes = box_reports.ack_all"
  by (simp add: fun_eq_iff ackBoxes_def box_reports.ack_all_def box_ack1_def)

lemma ackPallets_all: "ackPallets = pallet_reports.ack_all"
  by (simp add: fun_eq_iff ackPallets_def pallet_reports.ack_all_def pallet_ack1_def)

section \<open>Lemmas: signatures\<close>

lemma dec_prefix_eq:
  assumes "dec m @ 58 # xs = dec n @ 58 # ys"
  shows "m = n \<and> xs = ys"
proof -
  have d: "58 \<notin> set (dec k)" for k using dec_digits [of k] by (auto simp: list_all_iff is_digit_def)
  have "takeWhile (\<lambda>c. c \<noteq> 58) (dec m @ 58 # xs) = dec m" "takeWhile (\<lambda>c. c \<noteq> 58) (dec n @ 58 # ys) = dec n"
    using d [of m] d [of n] by (subst takeWhile_append2, auto)+
  then have "dec m = dec n" using assms by simp
  then show ?thesis using assms by (simp add: dec_inj)
qed

definition flag_char :: "bool \<times> bool \<Rightarrow> nat" where
  "flag_char f = (if \<not> fst f then 118 else if \<not> snd f then 115 else 117)"

lemma outcome_char_flag: "outcome_char (lv_verifiedAt v) (lv_skippedAt v) = [flag_char (outcome_flags v)]"
  by (simp add: outcome_char_def flag_char_def outcome_flags_def lit_def)

lemma outcome_chars: "concat (map (\<lambda>e. outcome_char (lv_verifiedAt (f e)) (lv_skippedAt (f e))) es)
    = map (\<lambda>e. flag_char (outcome_flags (f e))) es"
  by (induction es) (simp_all add: outcome_char_flag)

lemma flag_char_inj:
  "view_ok v \<Longrightarrow> view_ok w \<Longrightarrow> flag_char (outcome_flags v) = flag_char (outcome_flags w) \<Longrightarrow> outcome_flags v = outcome_flags w"
  by (auto simp: flag_char_def outcome_flags_def view_ok_def split: if_splits)

lemma flag_chars_inj:
  "list_all view_ok vs \<Longrightarrow> list_all view_ok ws \<Longrightarrow> map (\<lambda>v. flag_char (outcome_flags v)) vs = map (\<lambda>v. flag_char (outcome_flags v)) ws
    \<Longrightarrow> map outcome_flags vs = map outcome_flags ws"
proof (induction vs arbitrary: ws)
  case (Cons v vs)
  then show ?case using flag_char_inj by (cases ws) auto
qed simp

lemma flag_char_58: "58 \<notin> set (map (\<lambda>e. flag_char (outcome_flags (f e))) es)"
  by (auto simp: flag_char_def)

lemma append_sep_eq:
  assumes "58 \<notin> set a" "58 \<notin> set b" "a @ x = b @ y" "x = [] \<or> (\<exists>x'. x = 58 # x')" "y = [] \<or> (\<exists>y'. y = 58 # y')"
  shows "a = b"
proof -
  have "takeWhile (\<lambda>c. c \<noteq> 58) (a @ x) = a" "takeWhile (\<lambda>c. c \<noteq> 58) (b @ y) = b"
    using assms by (subst takeWhile_append2; auto)+
  then show ?thesis using assms(3) by simp
qed

lemma box_signature_parts:
  assumes "boxSetSignature xs = boxSetSignature ys" "list_all view_ok (map box_report xs)" "list_all view_ok (map box_report ys)"
  shows "lv_rowid (box_report (last xs)) = lv_rowid (box_report (last ys))
    \<and> map (\<lambda>e. outcome_flags (box_report e)) xs = map (\<lambda>e. outcome_flags (box_report e)) ys"
proof -
  let ?fl = "\<lambda>es. map (\<lambda>e. flag_char (outcome_flags (box_report e))) es"
  have fl: "concat (map (\<lambda>b. outcome_char (bc_printVerifiedAt b) (bc_printSkippedAt b)) es) = ?fl es" for es
    using outcome_chars [of box_report es] by (simp add: box_report_def)
  have sig: "\<exists>x. boxSetSignature es = dec (bc_rowid (last es)) @ 58 # ?fl es @ x \<and> (x = [] \<or> (\<exists>x'. x = 58 # x'))" for es
    by (auto simp: boxSetSignature_def Let_def fl lit_def)
  obtain x where x: "boxSetSignature xs = dec (bc_rowid (last xs)) @ 58 # ?fl xs @ x" "x = [] \<or> (\<exists>x'. x = 58 # x')"
    using sig by blast
  obtain y where y: "boxSetSignature ys = dec (bc_rowid (last ys)) @ 58 # ?fl ys @ y" "y = [] \<or> (\<exists>y'. y = 58 # y')"
    using sig by blast
  have "bc_rowid (last xs) = bc_rowid (last ys) \<and> ?fl xs @ x = ?fl ys @ y"
    using dec_prefix_eq assms(1) x(1) y(1) by metis
  moreover from this have "?fl xs = ?fl ys"
    using append_sep_eq [OF flag_char_58 flag_char_58 _ x(2) y(2)] by blast
  ultimately show ?thesis using flag_chars_inj [OF assms(2,3)] by (simp add: box_report_def comp_def)
qed

lemma pallet_signature_parts:
  assumes "palletSetSignature xs = palletSetSignature ys" "list_all view_ok (map pallet_report xs)"
    "list_all view_ok (map pallet_report ys)"
  shows "lv_rowid (pallet_report (last xs)) = lv_rowid (pallet_report (last ys))
    \<and> map (\<lambda>e. outcome_flags (pallet_report e)) xs = map (\<lambda>e. outcome_flags (pallet_report e)) ys"
proof -
  let ?fl = "\<lambda>es. map (\<lambda>e. flag_char (outcome_flags (pallet_report e))) es"
  have fl: "concat (map (\<lambda>p. outcome_char (pc_printVerifiedAt p) (pc_printSkippedAt p)) es) = ?fl es" for es
    using outcome_chars [of pallet_report es] by (simp add: pallet_report_def)
  have "pc_rowid (last xs) = pc_rowid (last ys) \<and> ?fl xs = ?fl ys"
    using dec_prefix_eq [of "pc_rowid (last xs)" "?fl xs" "pc_rowid (last ys)" "?fl ys"] assms(1)
    by (simp add: palletSetSignature_def fl lit_def)
  then show ?thesis using flag_chars_inj [OF assms(2,3)] by (simp add: pallet_report_def comp_def)
qed

lemma views_ok_take: "views_ok vs \<Longrightarrow> list_all view_ok (take n (filter P vs))"
proof -
  have "set (take n (filter P vs)) \<subseteq> set vs" using set_take_subset [of n "filter P vs"] by auto
  then show "views_ok vs \<Longrightarrow> ?thesis" by (auto simp: views_ok_def list_all_iff)
qed

lemma box_reports_ok: "views_ok (box_views db) \<Longrightarrow> list_all view_ok (map box_report (readClosedUnackedBoxes db n c))"
  unfolding box_rd_views by (rule views_ok_take)

lemma pallet_reports_ok:
  "views_ok (pallet_views db) \<Longrightarrow> list_all view_ok (map pallet_report (readClosedUnackedPallets db n c))"
  by (simp only: pallet_rd_views views_ok_take)

section \<open>Properties\<close>

text \<open>C7: An acknowledged closure is known to the server as it stands: however reports, lost requests, lost
  responses and the operator's work interleave, a box or pallet that is marked acknowledged was
  delivered with its SSCC, the facts of its closure and the outcome its label has now; and a closed one
  that is not marked is still read for the next report. So an outcome recorded while a report is in
  flight is never lost.\<close>

theorem closure_reports_truthful:
  assumes "db_boxes db0 = []" "db_pallets db0 = []"
    and "\<And>op. Local op \<in> set ops \<Longrightarrow> \<not> is_box_ack op" and "\<And>op. Local op \<in> set ops' \<Longrightarrow> \<not> is_pallet_ack op"
    and s: "s = foldl (report_step apply_op readClosedUnackedBoxes ackBoxes)
        \<lparr>rp_store = db0, rp_inflight = [], rp_delivered = []\<rparr> ops"
    and s': "s' = foldl (report_step apply_op readClosedUnackedPallets ackPallets)
        \<lparr>rp_store = db0, rp_inflight = [], rp_delivered = []\<rparr> ops'"
  shows "(\<forall>b \<in> set (db_boxes (rp_store s)). bx_closedAt b \<noteq> None \<longrightarrow>
      (if bx_ackedAt b \<noteq> None then \<exists>e \<in> set (rp_delivered s). same_report (box_report e) (box_view b)
       else closure_of_box b \<in> set (readClosedUnackedBoxes (rp_store s) (length (db_boxes (rp_store s))) None)))
    \<and> (\<forall>p \<in> set (db_pallets (rp_store s')). pl_closedAt p \<noteq> None \<longrightarrow>
      (if pl_ackedAt p \<noteq> None then \<exists>e \<in> set (rp_delivered s'). same_report (pallet_report e) (pallet_view p)
       else closure_of_pallet p \<in> set (readClosedUnackedPallets (rp_store s') (length (db_pallets (rp_store s'))) None)))"
proof -
  have "list_all box_reports.no_ack ops" using assms(3) by (rule box_reports.no_ackI)
  then have b: "box_reports.report_inv s"
    unfolding s ackBoxes_all using assms(1)
    by (intro box_reports.report_run_inv) (simp_all add: box_reports.report_inv_def views_ok_def acked_closed_def)
  have "list_all pallet_reports.no_ack ops'" using assms(4) by (rule pallet_reports.no_ackI)
  then have p: "pallet_reports.report_inv s'"
    unfolding s' ackPallets_all using assms(2)
    by (intro pallet_reports.report_run_inv) (simp_all add: pallet_reports.report_inv_def views_ok_def acked_closed_def)
  have "\<exists>e \<in> set (rp_delivered s). same_report (box_report e) (box_view b)"
    if "b \<in> set (db_boxes (rp_store s))" "bx_ackedAt b \<noteq> None" for b
    using b that by (auto simp: box_reports.report_inv_def box_view_def)
  moreover have "\<exists>e \<in> set (rp_delivered s'). same_report (pallet_report e) (pallet_view p)"
    if "p \<in> set (db_pallets (rp_store s'))" "pl_ackedAt p \<noteq> None" for p
    using p that by (auto simp: pallet_reports.report_inv_def pallet_view_def)
  moreover have "pl_sscc p \<noteq> None" if "p \<in> set (db_pallets (rp_store s'))" "pl_closedAt p \<noteq> None" for p
    using p that by (auto simp: pallet_reports.report_inv_def views_ok_def view_ok_def list_all_iff pallet_view_def)
  ultimately show ?thesis
    by (auto simp: readClosedUnackedBoxes_def readClosedUnackedPallets_def within_def)
qed

definition sample_reports :: "station_op report_op list" where
  "sample_reports = map Local sample_ops @ [Post 10 None True, Local (Box_verified (lit ''b'') (lit ''t4'')), Respond (lit ''t5'')]"

theorem closure_reports_truthful_witness:
  "let s = foldl (report_step apply_op readClosedUnackedBoxes ackBoxes)
       \<lparr>rp_store = sample_start, rp_inflight = [], rp_delivered = []\<rparr> sample_reports
   in \<exists>b \<in> set (db_boxes (rp_store s)). bx_printVerifiedAt b = Some (lit ''t4'')
        \<and> closure_of_box b \<in> set (readClosedUnackedBoxes (rp_store s) (length (db_boxes (rp_store s))) None)"
proof -
  let ?s = "foldl (report_step apply_op readClosedUnackedBoxes ackBoxes)
       \<lparr>rp_store = sample_start, rp_inflight = [], rp_delivered = []\<rparr> sample_reports"
  have l: "Local op \<in> set sample_reports \<Longrightarrow> \<not> is_box_ack op \<and> \<not> is_pallet_ack op" for op
    by (auto simp: sample_reports_def sample_ops_def)
  have "\<exists>b \<in> set (db_boxes (rp_store ?s)). bx_printVerifiedAt b = Some (lit ''t4'') \<and> bx_ackedAt b = None \<and> bx_closedAt b \<noteq> None"
    by (simp add: sample_reports_def sample_box_eval report_step_def readClosedUnackedBoxes_def closure_of_box_def within_def
        ackBoxes_def box_awaits_outcome_def)
  moreover have "db_boxes sample_start = []" "db_pallets sample_start = []" by (simp_all add: sample_start_def empty_db_def)
  ultimately show ?thesis
    using closure_reports_truthful [OF _ _ _ _ refl refl, of sample_start sample_reports sample_reports] l
    unfolding Let_def by metis
qed

end
