(* ===== verification/Station_Journal.thy ===== *)
theory Station_Journal
  imports Station_Tables
begin

text \<open>
  The scan journal of a station (\<open>apps/station/src/lib/journal.ts\<close>). Recording a scan takes up to
  three separate inserts (the code, the journal entry, the outbox entry) that cannot share a
  transaction; when a later one fails the stored code is deleted again and the error is rethrown. Which
  of the statements fail is an input: a statement that fails has no effect. The scan queue runs one
  recording at a time. The path of a device with installed grants is not modelled.
\<close>

section \<open>Recording a scan\<close>

record scan_event =
  se_shiftId :: jstring
  se_terminalId :: "jstring option"
  se_raw :: jstring
  se_verdict :: jstring
  se_scannedAt :: jstring
  se_operatorId :: "jstring option"

record write_faults =
  wf_code :: bool
  wf_event :: bool
  wf_outbox :: bool
  wf_delete :: bool

datatype journal_error = Code_not_written | Event_not_written | Outbox_not_written | Grant_owner_required

record scan_result =
  rs_storedCode :: bool
  rs_alreadyPresent :: bool

definition loadCodeKeys :: "station_db \<Rightarrow> jstring set" where
  "loadCodeKeys db = set (map co_codeHash (db_codes db))"

definition appendScanEvent :: "station_db \<Rightarrow> scan_event \<Rightarrow> station_db" where
  "appendScanEvent db e = db\<lparr>db_events := insert_auto (db_events db) \<lparr>ev_shiftId = se_shiftId e, ev_terminalId = se_terminalId e,
     ev_raw = se_raw e, ev_verdict = se_verdict e, ev_scannedAt = se_scannedAt e, ev_operatorId = se_operatorId e,
     ev_codeHash = None, ev_boxId = None\<rparr>\<rparr>"

definition compensateStoredCode :: "write_faults \<Rightarrow> station_db \<Rightarrow> bool \<Rightarrow> code_row option \<Rightarrow> station_db" where
  "compensateStoredCode faults db storedCode code = (case code of
     Some c \<Rightarrow> if storedCode \<and> \<not> wf_delete faults
               then db\<lparr>db_codes := filter (\<lambda>r. co_codeHash r \<noteq> co_codeHash c) (db_codes db)\<rparr> else db
   | None \<Rightarrow> db)"

definition outbox_entry :: "scan_event \<Rightarrow> bool \<Rightarrow> code_row option \<Rightarrow> outbox_row" where
  "outbox_entry journalled storedCode code =
     (let stored = (if storedCode then code else None)
      in \<lparr>ob_shiftId = se_shiftId journalled, ob_terminalId = se_terminalId journalled, ob_raw = se_raw journalled,
          ob_verdict = se_verdict journalled, ob_scannedAt = se_scannedAt journalled,
          ob_codeHash = map_option co_codeHash stored, ob_gtin14 = map_option co_gtin14 stored,
          ob_serial = map_option co_serial stored, ob_boxId = Option.bind stored co_boxId,
          ob_operatorId = se_operatorId journalled\<rparr>)"

definition journal_scan ::
    "write_faults \<Rightarrow> station_db \<Rightarrow> scan_event \<Rightarrow> code_row option \<Rightarrow> bool \<Rightarrow> bool \<Rightarrow> station_db \<times> (journal_error + scan_result)" where
  "journal_scan faults db e code storedCode alreadyPresent =
     (let journalled = (if alreadyPresent then e\<lparr>se_verdict := lit ''duplicate''\<rparr> else e)
      in if wf_event faults then (compensateStoredCode faults db storedCode code, Inl Event_not_written)
         else (let db = appendScanEvent db journalled
               in if wf_outbox faults then (compensateStoredCode faults db storedCode code, Inl Outbox_not_written)
                  else (enqueue_scan db (outbox_entry journalled storedCode code),
                        Inr \<lparr>rs_storedCode = storedCode, rs_alreadyPresent = alreadyPresent\<rparr>)))"

definition recordScanLegacy ::
    "write_faults \<Rightarrow> station_db \<Rightarrow> scan_event \<Rightarrow> code_row option \<Rightarrow> station_db \<times> (journal_error + scan_result)" where
  "recordScanLegacy faults db e code = (case code of
     None \<Rightarrow> journal_scan faults db e None False False
   | Some c \<Rightarrow>
       if wf_code faults then (db, Inl Code_not_written)
       else if co_codeHash c \<in> set (map co_codeHash (db_codes db)) then journal_scan faults db e code False True
       else journal_scan faults (db\<lparr>db_codes := db_codes db @ [c]\<rparr>) e code True False)"

definition recordScan ::
    "write_faults \<Rightarrow> station_db \<Rightarrow> scan_event \<Rightarrow> code_row option \<Rightarrow> station_db \<times> (journal_error + scan_result)" where
  "recordScan faults db e code =
     (if db_grantInstalled db then (db, Inl Grant_owner_required) else recordScanLegacy faults db e code)"

section \<open>Undoing a scan, and reading\<close>

record undo_input =
  ui_boxId :: jstring
  ui_codeHash :: jstring
  ui_scannedAt :: jstring
  ui_shiftId :: jstring
  ui_terminalId :: "jstring option"
  ui_operatorId :: "jstring option"
  ui_at :: jstring

definition undoLastScan :: "bool \<Rightarrow> station_db \<Rightarrow> undo_input \<Rightarrow> station_db option" where
  "undoLastScan event_fails db input =
     (case insertException db \<lparr>ex_kind = Undo, ex_boxId = ui_boxId input, ex_codeHash = Some (ui_codeHash input),
         ex_targetScannedAt = Some (ui_scannedAt input), ex_shiftId = ui_shiftId input, ex_terminalId = ui_terminalId input,
         ex_operatorId = ui_operatorId input, ex_reason = None, ex_at = ui_at input\<rparr> of
        None \<Rightarrow> None
      | Some db' \<Rightarrow> Some (if event_fails then db' else appendScanEvent db' \<lparr>se_shiftId = ui_shiftId input,
          se_terminalId = ui_terminalId input, se_raw = ui_codeHash input, se_verdict = lit ''undone'',
          se_scannedAt = ui_at input, se_operatorId = ui_operatorId input\<rparr>))"

definition findFirstSeen :: "station_db \<Rightarrow> jstring \<Rightarrow> jstring option" where
  "findFirstSeen db codeHash = map_option co_scannedAt (find (\<lambda>c. co_codeHash c = codeHash) (db_codes db))"

section \<open>Lemmas\<close>

definition codes_ok :: "station_db \<Rightarrow> bool" where
  "codes_ok db \<longleftrightarrow> distinct (map co_codeHash (db_codes db)) \<and> table_wf (db_events db)"

definition new_code :: "station_db \<Rightarrow> code_row option \<Rightarrow> bool" where
  "new_code db code \<longleftrightarrow> (case code of None \<Rightarrow> False | Some c \<Rightarrow> co_codeHash c \<notin> loadCodeKeys db)"

definition codes_after :: "station_db \<Rightarrow> code_row option \<Rightarrow> code_row list" where
  "codes_after db code = db_codes db @ (if new_code db code then [the code] else [])"

lemma compensate_codes:
  assumes "co_codeHash c \<notin> set (map co_codeHash (db_codes db))" "\<not> wf_delete faults"
    and "db_codes db' = db_codes db @ [c]"
  shows "db_codes (compensateStoredCode faults db' True (Some c)) = db_codes db"
proof -
  have "filter (\<lambda>r. co_codeHash r \<noteq> co_codeHash c) (db_codes db) = db_codes db"
    using assms(1) by (metis (mono_tags, lifting) filter_True image_eqI list.set_map)
  then show ?thesis using assms(2,3) by (simp add: compensateStoredCode_def)
qed

text \<open>The trigger finds the entry that was just written.\<close>

lemma annotate_latest:
  assumes "table_wf t" "ob_codeHash r = Some h" "ob_boxId r = Some b" "journal_match r e"
  shows "at_rows (annotate_event (insert_auto t e) r) =
    at_rows t @ [(Suc (at_seq t), e\<lparr>ev_codeHash := Some h, ev_boxId := Some b\<rparr>)]"
proof -
  have "j \<noteq> Suc (at_seq t)" if "(j, x) \<in> set (at_rows t)" for j x
    using assms(1) that by (fastforce simp: table_wf_def)
  then have "map (\<lambda>(j, x). if j = Suc (at_seq t) then (j, x\<lparr>ev_codeHash := ob_codeHash r, ev_boxId := ob_boxId r\<rparr>) else (j, x))
      (at_rows t) = at_rows t" by (auto intro!: map_idI)
  then show ?thesis using assms(2-4) by (simp add: annotate_event_def insert_auto_def)
qed

lemma annotate_ids: "map fst (at_rows (annotate_event t r)) = map fst (at_rows t)" "at_seq (annotate_event t r) = at_seq t"
  by (auto simp: annotate_event_def split_beta split: option.splits)

lemma annotate_wf: "table_wf t \<Longrightarrow> table_wf (annotate_event t r)"
proof -
  have "table_wf t \<longleftrightarrow> sorted_wrt (<) (map fst (at_rows t)) \<and> (\<forall>i \<in> set (map fst (at_rows t)). i \<le> at_seq t)" for t :: "event_row auto_table"
    by (simp add: table_wf_def)
  then show "table_wf t \<Longrightarrow> ?thesis" using annotate_ids by metis
qed

definition journalled_event :: "scan_event \<Rightarrow> bool \<Rightarrow> scan_event" where
  "journalled_event e alreadyPresent = (if alreadyPresent then e\<lparr>se_verdict := lit ''duplicate''\<rparr> else e)"

text \<open>What a journal entry says of a scan; the identity of the code is only known for a code in a box.\<close>

definition records :: "event_row \<Rightarrow> scan_event \<Rightarrow> code_row option \<Rightarrow> bool" where
  "records ev e stored \<longleftrightarrow> ev_shiftId ev = se_shiftId e \<and> ev_terminalId ev = se_terminalId e \<and> ev_raw ev = se_raw e
     \<and> ev_verdict ev = se_verdict e \<and> ev_scannedAt ev = se_scannedAt e \<and> ev_operatorId ev = se_operatorId e
     \<and> (case stored of Some c \<Rightarrow> if co_boxId c = None then ev_codeHash ev = None
            else ev_codeHash ev = Some (co_codeHash c) \<and> ev_boxId ev = co_boxId c
        | None \<Rightarrow> ev_codeHash ev = None)"

lemma journal_entry:
  assumes "table_wf (db_events db)"
  shows "\<exists>i ev. at_rows (db_events (enqueue_scan (appendScanEvent db e) (outbox_entry e st code))) = at_rows (db_events db) @ [(i, ev)]
    \<and> records ev e (if st then code else None)"
proof (cases "st \<and> (\<exists>c b. code = Some c \<and> co_boxId c = Some b)")
  case True
  then obtain c b where c: "st" "code = Some c" "co_boxId c = Some b" by blast
  let ?ev = "\<lparr>ev_shiftId = se_shiftId e, ev_terminalId = se_terminalId e, ev_raw = se_raw e, ev_verdict = se_verdict e,
      ev_scannedAt = se_scannedAt e, ev_operatorId = se_operatorId e, ev_codeHash = None, ev_boxId = None\<rparr>"
  have "journal_match (outbox_entry e st code) ?ev" by (simp add: journal_match_def outbox_entry_def Let_def)
  from annotate_latest [OF assms _ _ this, of "co_codeHash c" b] c
  have "at_rows (annotate_event (insert_auto (db_events db) ?ev) (outbox_entry e st code))
      = at_rows (db_events db) @ [(Suc (at_seq (db_events db)), ?ev\<lparr>ev_codeHash := Some (co_codeHash c), ev_boxId := Some b\<rparr>)]"
    by (simp add: outbox_entry_def Let_def)
  then show ?thesis using c by (simp add: enqueue_scan_def appendScanEvent_def records_def)
next
  case False
  then show ?thesis
    by (cases code) (auto simp: enqueue_scan_def appendScanEvent_def annotate_event_def insert_auto_def outbox_entry_def
        records_def Let_def)
qed

lemma journal_scan_cases:
  "journal_scan faults db e code st ap =
     (if wf_event faults then (compensateStoredCode faults db st code, Inl Event_not_written)
      else if wf_outbox faults
      then (compensateStoredCode faults (appendScanEvent db (journalled_event e ap)) st code, Inl Outbox_not_written)
      else (enqueue_scan (appendScanEvent db (journalled_event e ap)) (outbox_entry (journalled_event e ap) st code),
            Inr \<lparr>rs_storedCode = st, rs_alreadyPresent = ap\<rparr>))"
  by (simp add: journal_scan_def journalled_event_def Let_def)

lemma append_frame [simp]:
  "db_codes (appendScanEvent db e) = db_codes db" "db_outbox (appendScanEvent db e) = db_outbox db"
  "db_codes (enqueue_scan db r) = db_codes db" "db_outbox (enqueue_scan db r) = insert_auto (db_outbox db) r"
  "db_outbox (compensateStoredCode faults db st code) = db_outbox db"
  "db_events (compensateStoredCode faults db st code) = db_events db"
  by (simp_all add: appendScanEvent_def enqueue_scan_def compensateStoredCode_def split: option.splits)

lemma compensate_none [simp]:
  "compensateStoredCode faults db st None = db" "compensateStoredCode faults db False code = db"
  by (simp_all add: compensateStoredCode_def split: option.splits)

definition record_all :: "station_db \<Rightarrow> (write_faults \<times> scan_event \<times> code_row option) list \<Rightarrow> station_db" where
  "record_all = foldl (\<lambda>db (faults, e, code). fst (recordScan faults db e code))"

definition queued_hashes :: "station_db \<Rightarrow> jstring list" where
  "queued_hashes db = concat (map (\<lambda>r. case ob_codeHash (snd r) of None \<Rightarrow> [] | Some h \<Rightarrow> [h]) (at_rows (db_outbox db)))"

lemma record_step:
  assumes "map co_codeHash (db_codes db) = queued_hashes db" "distinct (queued_hashes db)" "\<not> wf_delete faults"
    and run: "recordScan faults db e code = (db', r)"
  shows "map co_codeHash (db_codes db') = queued_hashes db' \<and> distinct (queued_hashes db')"
proof (cases "db_grantInstalled db \<or> (\<exists>c. code = Some c \<and> \<not> wf_code faults \<and> co_codeHash c \<notin> loadCodeKeys db)")
  case True
  show ?thesis
  proof (cases "db_grantInstalled db")
    case False
    then obtain c where c: "code = Some c" "\<not> wf_code faults" "co_codeHash c \<notin> set (map co_codeHash (db_codes db))"
      using True by (auto simp: loadCodeKeys_def)
    have "journal_scan faults (db\<lparr>db_codes := db_codes db @ [c]\<rparr>) e code True False = (db', r)"
      using run False c by (auto simp: recordScan_def recordScanLegacy_def)
    then show ?thesis using c assms(1,2) compensate_codes [OF c(3) assms(3)]
      by (auto simp: journal_scan_cases queued_hashes_def insert_auto_def outbox_entry_def Let_def split: if_splits)
  qed (use run assms in \<open>simp add: recordScan_def\<close>)
next
  case False
  then show ?thesis using run assms(1,2)
    by (auto simp: recordScan_def recordScanLegacy_def journal_scan_cases loadCodeKeys_def queued_hashes_def insert_auto_def
        outbox_entry_def Let_def split: option.splits if_splits)
qed

lemma record_all_step:
  assumes "map co_codeHash (db_codes db) = queued_hashes db" "distinct (queued_hashes db)"
    and "list_all (\<lambda>(faults, e, code). \<not> wf_delete faults) scans"
  shows "map co_codeHash (db_codes (record_all db scans)) = queued_hashes (record_all db scans)
    \<and> distinct (queued_hashes (record_all db scans))"
  using assms
proof (induction scans arbitrary: db)
  case (Cons x scans)
  obtain faults e code where x: "x = (faults, e, code)" by (cases x) auto
  obtain db' r where r: "recordScan faults db e code = (db', r)" by (cases "recordScan faults db e code")
  have "\<not> wf_delete faults" using Cons.prems(3) x by simp
  from record_step [OF Cons.prems(1,2) this r] Cons.IH [of db'] Cons.prems(3) show ?case
    by (simp add: record_all_def x r)
qed (simp add: record_all_def)

section \<open>Properties\<close>

text \<open>C8: Recording a scan is all or nothing for the code it accepts, whichever of its writes fail. If it returns,
  exactly one journal entry and one outbox entry were added, with the verdict \<open>duplicate\<close> exactly when
  the code was already known, and the outbox entry carries the code exactly when it was stored by this
  scan. If it throws, the outbox is untouched and, unless the compensating delete failed as well, the
  stored codes are what they were, so that scanning the same item again accepts it.\<close>

theorem scan_recording_atomic:
  assumes ok: "codes_ok db" and g: "\<not> db_grantInstalled db" and run: "recordScan faults db e code = (db', r)"
  shows "case r of
      Inr res \<Rightarrow> rs_storedCode res = new_code db code \<and> rs_alreadyPresent res = (code \<noteq> None \<and> \<not> new_code db code)
        \<and> db_codes db' = codes_after db code
        \<and> db_outbox db' = insert_auto (db_outbox db) (outbox_entry (journalled_event e (rs_alreadyPresent res)) (rs_storedCode res) code)
        \<and> (\<exists>i ev. at_rows (db_events db') = at_rows (db_events db) @ [(i, ev)]
              \<and> records ev (journalled_event e (rs_alreadyPresent res)) (if rs_storedCode res then code else None))
    | Inl err \<Rightarrow> db_outbox db' = db_outbox db
        \<and> (wf_delete faults \<or> db_codes db' = db_codes db
             \<and> (\<forall>e2. \<exists>db2 res. recordScan \<lparr>wf_code = False, wf_event = False, wf_outbox = False, wf_delete = False\<rparr> db' e2 code = (db2, Inr res)
                   \<and> rs_storedCode res = new_code db code))"
proof -
  have ev: "table_wf (db_events db)" using ok by (simp add: codes_ok_def)
  have leg: "recordScanLegacy faults db e code = (db', r)" using run g by (simp add: recordScan_def)
  have again: "\<exists>db2 res. recordScan \<lparr>wf_code = False, wf_event = False, wf_outbox = False, wf_delete = False\<rparr> db' e2 code = (db2, Inr res)
      \<and> rs_storedCode res = new_code db code" if "db_codes db' = db_codes db" "\<not> db_grantInstalled db'" for e2
    using that by (auto simp: recordScan_def recordScanLegacy_def journal_scan_cases new_code_def loadCodeKeys_def split: option.splits)
  have gi: "\<not> db_grantInstalled db'"
    using leg g by (auto simp: recordScanLegacy_def journal_scan_cases compensateStoredCode_def appendScanEvent_def enqueue_scan_def
        split: option.splits if_splits)
  show ?thesis
  proof (cases code)
    case None
    then show ?thesis using leg journal_entry [OF ev, of e False None] again gi
      by (auto simp: recordScanLegacy_def journal_scan_cases new_code_def codes_after_def journalled_event_def split: if_splits)
  next
    case (Some c)
    show ?thesis
    proof (cases "wf_code faults \<or> co_codeHash c \<in> loadCodeKeys db")
      case True
      then show ?thesis using leg Some journal_entry [OF ev, of "journalled_event e True" False code] again gi
        by (auto simp: recordScanLegacy_def journal_scan_cases new_code_def loadCodeKeys_def codes_after_def split: if_splits)
    next
      case False
      let ?db = "db\<lparr>db_codes := db_codes db @ [c]\<rparr>"
      have fresh: "co_codeHash c \<notin> set (map co_codeHash (db_codes db))" using False by (simp add: loadCodeKeys_def)
      have evs: "db_events ?db = db_events db" by simp
      have rolled: "wf_delete faults \<or> db_codes db' = db_codes db" if "r = Inl err" for err
        using leg Some False that compensate_codes [OF fresh, of faults]
        by (auto simp: recordScanLegacy_def journal_scan_cases loadCodeKeys_def split: if_splits)
      show ?thesis using leg Some False journal_entry [of ?db e True code] ev evs again gi rolled
        by (auto simp: recordScanLegacy_def journal_scan_cases new_code_def loadCodeKeys_def codes_after_def journalled_event_def
            split: if_splits)
    qed
  qed
qed

definition sample_scan :: scan_event where
  "sample_scan = \<lparr>se_shiftId = lit ''s'', se_terminalId = None, se_raw = lit ''raw'', se_verdict = lit ''ok'', se_scannedAt = lit ''t1'',
     se_operatorId = None\<rparr>"

definition sample_code :: code_row where
  "sample_code = \<lparr>co_codeHash = lit ''h'', co_shiftId = lit ''s'', co_gtin14 = lit ''g'', co_serial = lit ''1'', co_scannedAt = lit ''t1'',
     co_boxId = Some (lit ''b'')\<rparr>"

definition outbox_down :: write_faults where
  "outbox_down = \<lparr>wf_code = False, wf_event = False, wf_outbox = True, wf_delete = False\<rparr>"

theorem scan_recording_atomic_witness:
  "\<exists>db' db2 res. recordScan outbox_down empty_db sample_scan (Some sample_code) = (db', Inl Outbox_not_written)
     \<and> recordScan \<lparr>wf_code = False, wf_event = False, wf_outbox = False, wf_delete = False\<rparr> db' sample_scan (Some sample_code)
         = (db2, Inr res) \<and> rs_storedCode res"
proof -
  have ok: "codes_ok empty_db" "\<not> db_grantInstalled empty_db" by (simp_all add: codes_ok_def empty_db_def empty_table_def table_wf_def)
  obtain db' where db': "recordScan outbox_down empty_db sample_scan (Some sample_code) = (db', Inl Outbox_not_written)"
    by (simp add: recordScan_def recordScanLegacy_def journal_scan_cases outbox_down_def empty_db_def)
  have "\<not> wf_delete outbox_down" "new_code empty_db (Some sample_code)"
    by (simp_all add: outbox_down_def new_code_def loadCodeKeys_def empty_db_def)
  then show ?thesis using scan_recording_atomic [OF ok db'] db' by auto
qed

text \<open>C23: Every accepted code is queued for the server, once: after any sequence of scans on a device with no codes
  and an empty outbox, with any of their code, journal and outbox writes failing, the codes stored on the device are exactly the codes carried by
  the outbox, in the same order and each once, as long as no compensating delete fails.\<close>

theorem accepted_codes_queued:
  assumes "db_codes db = []" "at_rows (db_outbox db) = []"
    and "list_all (\<lambda>(faults, e, code). \<not> wf_delete faults) scans"
  shows "map co_codeHash (db_codes (record_all db scans)) = queued_hashes (record_all db scans)
    \<and> distinct (map co_codeHash (db_codes (record_all db scans)))"
proof -
  have "map co_codeHash (db_codes db) = queued_hashes db" "distinct (queued_hashes db)" using assms(1,2) by (simp_all add: queued_hashes_def)
  from record_all_step [OF this assms(3)] show ?thesis by simp
qed

theorem accepted_codes_queued_witness:
  "queued_hashes (record_all empty_db [(outbox_down, sample_scan, Some sample_code),
     (outbox_down\<lparr>wf_outbox := False\<rparr>, sample_scan, Some sample_code), (outbox_down\<lparr>wf_outbox := False\<rparr>, sample_scan, Some sample_code)])
   = [lit ''h'']"
proof -
  let ?scans = "[(outbox_down, sample_scan, Some sample_code),
     (outbox_down\<lparr>wf_outbox := False\<rparr>, sample_scan, Some sample_code), (outbox_down\<lparr>wf_outbox := False\<rparr>, sample_scan, Some sample_code)]"
  have "map co_codeHash (db_codes (record_all empty_db ?scans)) = [lit ''h'']"
    by (simp add: record_all_def recordScan_def recordScanLegacy_def journal_scan_cases outbox_down_def empty_db_def sample_code_def
        compensateStoredCode_def appendScanEvent_def enqueue_scan_def)
  moreover have "map co_codeHash (db_codes (record_all empty_db ?scans)) = queued_hashes (record_all empty_db ?scans)"
    using accepted_codes_queued [of empty_db ?scans]
    by (simp add: empty_db_def empty_table_def outbox_down_def)
  ultimately show ?thesis by simp
qed

end
