(* ===== verification/Scan_Queue.thy ===== *)
theory Scan_Queue
  imports Markiro_Prelude "HOL-Library.Sublist"
begin

text \<open>
  The queue between the scanner and the journal (\<open>apps/station/src/lib/scan-queue.ts\<close>). JavaScript
  runs one callback at a time, so the queue is a machine whose events are the calls of its interface
  and the completion of the entry in flight; each event runs until the next \<open>await\<close>. What the floor
  admission answers, whether an entry fails and whether a callback of the screen throws are inputs
  of the events. A job is named by a number. Promises are named by numbers as well: a waiter is a
  promise of \<open>close\<close> or \<open>idle\<close> that has not been resolved.
\<close>

section \<open>State\<close>

datatype queue_entry = Scan jstring | Job nat

record scan_queue =
  sq_buffer :: "queue_entry list"
  sq_current :: "queue_entry option"
  sq_accepting :: bool
  sq_waiters :: "nat list"
  sq_resolved :: "nat list"
  sq_accepted :: "queue_entry list"
  sq_started :: "queue_entry list"
  sq_finished :: "queue_entry list"

definition createScanQueue :: scan_queue where
  "createScanQueue = \<lparr>sq_buffer = [], sq_current = None, sq_accepting = True, sq_waiters = [], sq_resolved = [],
     sq_accepted = [], sq_started = [], sq_finished = []\<rparr>"

section \<open>The loop\<close>

text \<open>
  The loop takes entries from the head until one has to be awaited; a scan that is not admitted is
  dropped. The field \<open>sq_current\<close> is the entry that is awaited, and \<open>draining\<close> is that there is one.
\<close>

fun next_entry :: "(jstring \<Rightarrow> bool) \<Rightarrow> queue_entry list \<Rightarrow> (queue_entry \<times> queue_entry list) option" where
  "next_entry shouldProcess [] = None"
| "next_entry shouldProcess (Job j # es) = Some (Job j, es)"
| "next_entry shouldProcess (Scan raw # es) =
     (if shouldProcess raw then Some (Scan raw, es) else next_entry shouldProcess es)"

definition settleIdle :: "scan_queue \<Rightarrow> scan_queue" where
  "settleIdle q = q\<lparr>sq_resolved := sq_resolved q @ sq_waiters q, sq_waiters := []\<rparr>"

definition drain_loop :: "(jstring \<Rightarrow> bool) \<Rightarrow> scan_queue \<Rightarrow> scan_queue" where
  "drain_loop shouldProcess q = (case next_entry shouldProcess (sq_buffer q) of
     Some (e, es) \<Rightarrow> q\<lparr>sq_buffer := es, sq_current := Some e, sq_started := sq_started q @ [e]\<rparr>
   | None \<Rightarrow> settleIdle (q\<lparr>sq_buffer := [], sq_current := None\<rparr>))"

definition drain :: "(jstring \<Rightarrow> bool) \<Rightarrow> scan_queue \<Rightarrow> scan_queue" where
  "drain shouldProcess q = (if sq_current q \<noteq> None then q else drain_loop shouldProcess q)"

section \<open>Events\<close>

datatype queue_event =
    Enqueue queue_entry "jstring \<Rightarrow> bool"
  | Open
  | Close nat
  | Idle nat
  | Discard
  | Complete bool "jstring \<Rightarrow> bool"

definition enqueue :: "(jstring \<Rightarrow> bool) \<Rightarrow> scan_queue \<Rightarrow> queue_entry \<Rightarrow> scan_queue \<times> bool" where
  "enqueue shouldProcess q e =
     (if \<not> sq_accepting q then (q, False)
      else (drain shouldProcess (q\<lparr>sq_buffer := sq_buffer q @ [e], sq_accepted := sq_accepted q @ [e]\<rparr>), True))"

definition await_idle :: "scan_queue \<Rightarrow> nat \<Rightarrow> scan_queue" where
  "await_idle q i =
     (if sq_current q = None \<and> length (sq_buffer q) = 0 then q\<lparr>sq_resolved := sq_resolved q @ [i]\<rparr>
      else q\<lparr>sq_waiters := sq_waiters q @ [i]\<rparr>)"

definition close :: "scan_queue \<Rightarrow> nat \<Rightarrow> scan_queue" where
  "close q i = await_idle (q\<lparr>sq_accepting := False\<rparr>) i"

fun is_scan :: "queue_entry \<Rightarrow> bool" where
  "is_scan (Scan raw) = True"
| "is_scan (Job j) = False"

definition discardBufferedScans :: "scan_queue \<Rightarrow> scan_queue" where
  "discardBufferedScans q = q\<lparr>sq_buffer := filter (\<lambda>e. \<not> is_scan e) (sq_buffer q)\<rparr>"

text \<open>
  The awaited entry is over, successfully or not; the callback that follows either returns, and the
  loop goes on, or throws, and the loop ends through its \<open>finally\<close>.
\<close>

definition complete :: "bool \<Rightarrow> (jstring \<Rightarrow> bool) \<Rightarrow> scan_queue \<Rightarrow> scan_queue" where
  "complete callbackThrows shouldProcess q = (case sq_current q of
     None \<Rightarrow> q
   | Some e \<Rightarrow>
       (let q = q\<lparr>sq_current := None, sq_finished := sq_finished q @ [e]\<rparr>
        in if callbackThrows then settleIdle q else drain_loop shouldProcess q))"

fun queue_step :: "scan_queue \<Rightarrow> queue_event \<Rightarrow> scan_queue" where
  "queue_step q (Enqueue e shouldProcess) = fst (enqueue shouldProcess q e)"
| "queue_step q Open = q\<lparr>sq_accepting := True\<rparr>"
| "queue_step q (Close i) = close q i"
| "queue_step q (Idle i) = await_idle q i"
| "queue_step q Discard = discardBufferedScans q"
| "queue_step q (Complete callbackThrows shouldProcess) = complete callbackThrows shouldProcess q"

fun event_throws :: "queue_event \<Rightarrow> bool" where
  "event_throws (Complete callbackThrows shouldProcess) = callbackThrows"
| "event_throws _ = False"

text \<open>Events that admit every scan and discard none.\<close>

fun event_admits :: "queue_event \<Rightarrow> bool" where
  "event_admits (Enqueue e shouldProcess) = (\<forall>raw. shouldProcess raw)"
| "event_admits (Complete callbackThrows shouldProcess) = (\<forall>raw. shouldProcess raw)"
| "event_admits Discard = False"
| "event_admits _ = True"

section \<open>Lemmas\<close>

lemma next_entry_None: "next_entry f es = None \<Longrightarrow> \<forall>e \<in> set es. is_scan e"
  by (induction f es rule: next_entry.induct) (auto split: if_splits)

lemma next_entry_Some:
  "next_entry f es = Some (e, rest) \<Longrightarrow> \<exists>dropped. es = dropped @ e # rest \<and> (\<forall>d \<in> set dropped. is_scan d)"
proof (induction f es rule: next_entry.induct)
  case (3 f raw es)
  show ?case
  proof (cases "f raw")
    case False
    then obtain dropped where "es = dropped @ e # rest" "\<forall>d \<in> set dropped. is_scan d" using 3 by auto
    then show ?thesis by (intro exI [of _ "Scan raw # dropped"]) simp
  qed (use 3 in auto)
qed auto

lemma next_entry_all: "\<forall>raw. f raw \<Longrightarrow> next_entry f es = (case es of [] \<Rightarrow> None | e # rest \<Rightarrow> Some (e, rest))"
proof (cases es)
  case (Cons e rest)
  then show "\<forall>raw. f raw \<Longrightarrow> ?thesis" by (cases e) auto
qed simp

text \<open>
  The started entries and the buffer are what was accepted, in order, without scans that were
  dropped; jobs are never dropped; the finished entries are the started ones except the current.
\<close>

definition jobs :: "queue_entry list \<Rightarrow> queue_entry list" where
  "jobs es = filter (\<lambda>e. \<not> is_scan e) es"

definition queue_inv :: "scan_queue \<Rightarrow> bool" where
  "queue_inv q \<longleftrightarrow> subseq (sq_started q @ sq_buffer q) (sq_accepted q)
     \<and> jobs (sq_started q @ sq_buffer q) = jobs (sq_accepted q)
     \<and> sq_finished q @ (case sq_current q of None \<Rightarrow> [] | Some e \<Rightarrow> [e]) = sq_started q"

definition queue_live :: "scan_queue \<Rightarrow> bool" where
  "queue_live q \<longleftrightarrow> (sq_current q = None \<longrightarrow> sq_buffer q = [] \<and> sq_waiters q = [])"

lemma jobs_append [simp]: "jobs (xs @ ys) = jobs xs @ jobs ys"
  by (simp add: jobs_def)

lemma jobs_scans: "\<forall>e \<in> set es. is_scan e \<Longrightarrow> jobs es = []"
  by (auto simp: jobs_def filter_empty_conv)

lemma drain_loop_inv:
  assumes "queue_inv q" "sq_current q = None"
  shows "queue_inv (drain_loop f q) \<and> queue_live (drain_loop f q)"
proof (cases "next_entry f (sq_buffer q)")
  case None
  have "jobs (sq_buffer q) = []" by (rule jobs_scans [OF next_entry_None [OF None]])
  moreover have "subseq (sq_started q) (sq_started q @ sq_buffer q)" by (rule subseq_rev_drop_many) simp
  ultimately show ?thesis using assms None
    by (auto simp: drain_loop_def queue_inv_def queue_live_def settleIdle_def intro: subseq_order.trans)
next
  case (Some p)
  obtain e rest where p: "p = (e, rest)" by (cases p)
  obtain dropped where d: "sq_buffer q = dropped @ e # rest" "\<forall>d \<in> set dropped. is_scan d"
    using next_entry_Some Some p by blast
  have "subseq (sq_started q @ e # rest) (sq_started q @ sq_buffer q)"
    unfolding d(1) subseq_append' by (rule subseq_drop_many) simp
  then have "subseq (sq_started q @ e # rest) (sq_accepted q)" using assms(1) subseq_order.trans by (auto simp: queue_inv_def)
  then show ?thesis using assms Some p jobs_scans [OF d(2)] d(1)
    by (auto simp: drain_loop_def queue_inv_def queue_live_def)
qed

lemma push_inv:
  assumes "queue_inv q"
  shows "queue_inv (q\<lparr>sq_buffer := sq_buffer q @ [e], sq_accepted := sq_accepted q @ [e]\<rparr>)"
proof -
  have "subseq ((sq_started q @ sq_buffer q) @ [e]) (sq_accepted q @ [e])"
    using assms by (simp only: queue_inv_def subseq_append)
  moreover have "jobs ((sq_started q @ sq_buffer q) @ [e]) = jobs (sq_accepted q @ [e])"
    using assms unfolding queue_inv_def jobs_append [of _ "[e]"] by metis
  ultimately show ?thesis using assms by (auto simp: queue_inv_def)
qed

lemma queue_step_inv:
  assumes "queue_inv q"
  shows "queue_inv (queue_step q ev)"
proof (cases ev)
  case (Enqueue e f)
  let ?q = "q\<lparr>sq_buffer := sq_buffer q @ [e], sq_accepted := sq_accepted q @ [e]\<rparr>"
  have "queue_inv ?q" by (rule push_inv [OF assms])
  then show ?thesis using Enqueue assms drain_loop_inv [of ?q f] by (auto simp: enqueue_def drain_def)
next
  case Discard
  have "subseq (filter (\<lambda>e. \<not> is_scan e) (sq_buffer q)) (sq_buffer q)" by (rule subseq_filter_left)
  then have "subseq (sq_started q @ filter (\<lambda>e. \<not> is_scan e) (sq_buffer q)) (sq_started q @ sq_buffer q)"
    by (simp only: subseq_append')
  then show ?thesis using Discard assms subseq_order.trans
    by (fastforce simp: discardBufferedScans_def queue_inv_def jobs_def)
next
  case (Complete throws f)
  show ?thesis
  proof (cases "sq_current q")
    case (Some e)
    let ?q = "q\<lparr>sq_current := None, sq_finished := sq_finished q @ [e]\<rparr>"
    have "queue_inv ?q" using assms Some by (simp add: queue_inv_def)
    then show ?thesis using Complete Some drain_loop_inv [of ?q f]
      by (auto simp: complete_def Let_def queue_inv_def settleIdle_def)
  qed (use assms Complete in \<open>simp add: complete_def\<close>)
qed (use assms in \<open>auto simp: close_def await_idle_def queue_inv_def\<close>)

lemma queue_step_live:
  assumes "queue_inv q" "queue_live q" "\<not> event_throws ev"
  shows "queue_live (queue_step q ev)"
proof (cases ev)
  case (Enqueue e f)
  let ?q = "q\<lparr>sq_buffer := sq_buffer q @ [e], sq_accepted := sq_accepted q @ [e]\<rparr>"
  have "queue_inv ?q" by (rule push_inv [OF assms(1)])
  then show ?thesis using Enqueue assms(2) drain_loop_inv [of ?q f] by (auto simp: enqueue_def drain_def queue_live_def)
next
  case (Complete throws f)
  show ?thesis
  proof (cases "sq_current q")
    case (Some e)
    let ?q = "q\<lparr>sq_current := None, sq_finished := sq_finished q @ [e]\<rparr>"
    have "queue_inv ?q" using assms(1) Some by (simp add: queue_inv_def)
    then show ?thesis using Complete Some drain_loop_inv [of ?q f] assms(3) by (simp add: complete_def Let_def)
  qed (use assms(2) Complete in \<open>simp add: complete_def\<close>)
qed (use assms(2) in \<open>auto simp: close_def await_idle_def queue_live_def discardBufferedScans_def\<close>)

lemma drain_loop_all:
  assumes "\<forall>raw. f raw" "sq_started q @ sq_buffer q = sq_accepted q"
  shows "sq_started (drain_loop f q) @ sq_buffer (drain_loop f q) = sq_accepted (drain_loop f q)"
proof (cases "sq_buffer q")
  case Nil
  then show ?thesis using assms by (simp add: drain_loop_def settleIdle_def)
next
  case (Cons e rest)
  then have "next_entry f (sq_buffer q) = Some (e, rest)" using next_entry_all [OF assms(1), of "e # rest"] by simp
  then show ?thesis using assms(2) Cons by (simp add: drain_loop_def)
qed

lemma queue_step_all:
  assumes "sq_started q @ sq_buffer q = sq_accepted q" "event_admits ev"
  shows "sq_started (queue_step q ev) @ sq_buffer (queue_step q ev) = sq_accepted (queue_step q ev)"
proof (cases ev)
  case (Enqueue e f)
  let ?q = "q\<lparr>sq_buffer := sq_buffer q @ [e], sq_accepted := sq_accepted q @ [e]\<rparr>"
  have "sq_started ?q @ sq_buffer ?q = sq_accepted ?q" using assms(1) by simp
  then show ?thesis using Enqueue assms drain_loop_all [of f ?q] by (auto simp: enqueue_def drain_def)
next
  case (Complete throws f)
  then show ?thesis using assms drain_loop_all [of f "q\<lparr>sq_current := None, sq_finished := sq_finished q @ [the (sq_current q)]\<rparr>"]
    by (auto simp: complete_def Let_def settleIdle_def split: option.splits)
qed (use assms in \<open>auto simp: close_def await_idle_def\<close>)

lemma queue_run_inv: "queue_inv q \<Longrightarrow> queue_inv (foldl queue_step q evs)"
  by (induction evs arbitrary: q) (simp_all add: queue_step_inv)

lemma queue_run_live:
  "queue_inv q \<Longrightarrow> queue_live q \<Longrightarrow> list_all (\<lambda>ev. \<not> event_throws ev) evs \<Longrightarrow> queue_live (foldl queue_step q evs)"
  by (induction evs arbitrary: q) (simp_all add: queue_step_inv queue_step_live)

lemma queue_run_all:
  "sq_started q @ sq_buffer q = sq_accepted q \<Longrightarrow> list_all event_admits evs \<Longrightarrow>
     sq_started (foldl queue_step q evs) @ sq_buffer (foldl queue_step q evs) = sq_accepted (foldl queue_step q evs)"
  by (induction evs arbitrary: q) (simp_all add: queue_step_all)

lemma created_inv: "queue_inv createScanQueue" "queue_live createScanQueue"
  by (simp_all add: createScanQueue_def queue_inv_def queue_live_def jobs_def)

lemma resolve_drained:
  assumes "i \<notin> set (sq_resolved q)" "i \<in> set (sq_resolved (queue_step q ev))" "\<not> event_throws ev"
  shows "sq_current (queue_step q ev) = None \<and> sq_buffer (queue_step q ev) = []"
  using assms by (cases ev)
    (auto simp: enqueue_def drain_def drain_loop_def settleIdle_def close_def await_idle_def discardBufferedScans_def
      complete_def Let_def split: option.splits if_splits)

lemma next_entry_shorter: "next_entry f es = Some (e, rest) \<Longrightarrow> length rest < length es"
  using next_entry_Some by fastforce

lemma waiter_resolves:
  assumes "i \<in> set (sq_waiters q)" "sq_current q \<noteq> None" "length (sq_buffer q) < n"
  shows "i \<in> set (sq_resolved (foldl queue_step q (replicate n (Complete False f))))"
  using assms
proof (induction n arbitrary: q)
  case (Suc n)
  have keep: "i \<in> set (sq_resolved (foldl queue_step q (replicate k (Complete False f))))" if "i \<in> set (sq_resolved q)" for k q
    using that
  proof (induction k arbitrary: q)
    case (Suc k)
    have "i \<in> set (sq_resolved (queue_step q (Complete False f)))" using Suc.prems
      by (auto simp: complete_def Let_def drain_loop_def settleIdle_def split: option.splits)
    then show ?case using Suc.IH by simp
  qed simp
  obtain e where e: "sq_current q = Some e" using Suc.prems(2) by blast
  show ?case
  proof (cases "next_entry f (sq_buffer q)")
    case None
    then have "i \<in> set (sq_resolved (queue_step q (Complete False f)))"
      using Suc.prems(1) e by (simp add: complete_def Let_def drain_loop_def settleIdle_def)
    then show ?thesis using keep by simp
  next
    case (Some p)
    then have "length (snd p) < length (sq_buffer q)" using next_entry_shorter by (cases p) auto
    then show ?thesis using Some e Suc.prems Suc.IH [of "queue_step q (Complete False f)"]
      by (auto simp: complete_def Let_def drain_loop_def split: prod.splits)
  qed
qed simp

section \<open>Properties\<close>

text \<open>C12: Scans are processed strictly one at a time and in order: after any sequence of scans, jobs, completions,
  closings and discards, the entries that were started and those still buffered are the accepted ones
  in their order, with only scans missing (those refused by floor admission or discarded); all jobs are
  there; and all started entries are finished except the one in flight. If every scan is admitted and
  none is discarded, nothing is missing. As long as no callback of the screen throws, the queue never
  stalls: without an entry in flight the buffer is empty and nobody waits.\<close>

theorem scan_queue_serial:
  fixes evs :: "queue_event list"
  defines "q \<equiv> foldl queue_step createScanQueue evs"
  shows "subseq (sq_started q @ sq_buffer q) (sq_accepted q)
    \<and> jobs (sq_started q @ sq_buffer q) = jobs (sq_accepted q)
    \<and> sq_finished q @ (case sq_current q of None \<Rightarrow> [] | Some e \<Rightarrow> [e]) = sq_started q
    \<and> (list_all event_admits evs \<longrightarrow> sq_started q @ sq_buffer q = sq_accepted q)
    \<and> (list_all (\<lambda>ev. \<not> event_throws ev) evs \<longrightarrow> sq_current q = None \<longrightarrow> sq_buffer q = [] \<and> sq_waiters q = [])"
proof -
  have "queue_inv q" unfolding q_def by (rule queue_run_inv [OF created_inv(1)])
  moreover have "sq_started q @ sq_buffer q = sq_accepted q" if "list_all event_admits evs"
    unfolding q_def by (rule queue_run_all [OF _ that]) (simp add: createScanQueue_def)
  moreover have "queue_live q" if "list_all (\<lambda>ev. \<not> event_throws ev) evs"
    unfolding q_def by (rule queue_run_live [OF created_inv that])
  ultimately show ?thesis unfolding queue_inv_def queue_live_def by blast
qed

definition sample_events :: "queue_event list" where
  "sample_events = [Enqueue (Scan (lit ''a'')) (\<lambda>_. True), Enqueue (Scan (lit ''b'')) (\<lambda>_. True), Enqueue (Job 1) (\<lambda>_. True),
     Complete False (\<lambda>_. True), Close 7]"

theorem scan_queue_serial_witness:
  "sq_started (foldl queue_step createScanQueue sample_events) @ sq_buffer (foldl queue_step createScanQueue sample_events)
     = [Scan (lit ''a''), Scan (lit ''b''), Job 1]"
proof -
  have "list_all event_admits sample_events" by (simp add: sample_events_def)
  moreover have "sq_accepted (foldl queue_step createScanQueue sample_events) = [Scan (lit ''a''), Scan (lit ''b''), Job 1]"
    by (simp add: sample_events_def createScanQueue_def enqueue_def drain_def drain_loop_def complete_def close_def await_idle_def)
  ultimately show ?thesis using scan_queue_serial [of sample_events] by simp
qed

text \<open>C26: Closing waits for the accepted work and for nothing else: as long as no callback of the screen throws, a
  promise of \<open>close\<close> or \<open>idle\<close> is resolved only at a moment when nothing is in flight and the buffer is
  empty; and after \<open>close\<close> it is resolved after at most as many completions as there are entries left,
  whatever they answer, while no further entry is accepted.\<close>

theorem scan_queue_close_drains:
  assumes "list_all (\<lambda>ev. \<not> event_throws ev) evs" "q = foldl queue_step createScanQueue evs"
  shows "(\<forall>ev i. \<not> event_throws ev \<longrightarrow> i \<notin> set (sq_resolved q) \<longrightarrow> i \<in> set (sq_resolved (queue_step q ev)) \<longrightarrow>
        sq_current (queue_step q ev) = None \<and> sq_buffer (queue_step q ev) = [])
    \<and> (\<forall>i f. i \<in> set (sq_resolved (foldl queue_step (close q i) (replicate (Suc (length (sq_buffer q))) (Complete False f)))))
    \<and> (\<forall>i e f. enqueue f (close q i) e = (close q i, False))"
proof -
  have live: "queue_live q" unfolding assms(2) by (rule queue_run_live [OF created_inv assms(1)])
  have "i \<in> set (sq_resolved (foldl queue_step (close q i) (replicate (Suc (length (sq_buffer q))) (Complete False f))))" for i f
  proof (cases "sq_current q")
    case None
    then have "sq_buffer q = []" using live by (simp add: queue_live_def)
    then show ?thesis using None by (simp add: close_def await_idle_def complete_def)
  next
    case (Some e)
    then show ?thesis by (intro waiter_resolves) (simp_all add: close_def await_idle_def)
  qed
  moreover have "enqueue f (close q i) e = (close q i, False)" for i e f by (simp add: enqueue_def close_def await_idle_def)
  ultimately show ?thesis using resolve_drained by blast
qed

theorem scan_queue_close_drains_witness:
  "7 \<in> set (sq_resolved (foldl queue_step (close (foldl queue_step createScanQueue (butlast sample_events)) 7)
     (replicate 2 (Complete False (\<lambda>_. True)))))"
proof -
  let ?q = "foldl queue_step createScanQueue (butlast sample_events)"
  have "list_all (\<lambda>ev. \<not> event_throws ev) (butlast sample_events)" by (simp add: sample_events_def)
  moreover have "length (sq_buffer ?q) = 1"
    by (simp add: sample_events_def createScanQueue_def enqueue_def drain_def drain_loop_def complete_def)
  ultimately show ?thesis using scan_queue_close_drains [OF _ refl, of "butlast sample_events"] by (simp add: numeral_2_eq_2)
qed

text \<open>
  With a callback that throws, the waiters are resolved although accepted entries are still
  buffered; they stay there until the next entry arrives.
\<close>

lemma callback_throw_settles_early:
  "let q = foldl queue_step createScanQueue [Enqueue (Scan (lit ''a'')) (\<lambda>_. True), Enqueue (Scan (lit ''b'')) (\<lambda>_. True), Close 7,
     Complete True (\<lambda>_. True)]
   in 7 \<in> set (sq_resolved q) \<and> sq_current q = None \<and> sq_buffer q = [Scan (lit ''b'')]"
  by (simp add: createScanQueue_def enqueue_def drain_def drain_loop_def complete_def close_def await_idle_def settleIdle_def)

end
