(* ===== verification/Shift_Close.thy ===== *)
theory Shift_Close
  imports Station_Boxes
begin

text \<open>
  Closing a shift at an offline station: \<open>packages/domain/src/shift-close.ts\<close>, the close without an offline
  grant of \<open>apps/station/src/lib/shift-close.ts\<close>, and what \<open>migrations.ts\<close> defines for it: the outbox of closes
  with its unique index, the triggers on it and the view of processed codes.

  The statements of the routine are separate transactions, so an attempt is a program counter that
  advances by one statement; attempts, scans and box operations interleave, and an attempt that is
  never stepped again is one that crashed.
\<close>

section \<open>Model\<close>

subsection \<open>Tables\<close>

record mirror_shift =
  ms_id :: jstring
  ms_status :: jstring
  ms_productId :: jstring
  ms_productName :: "jstring option"
  ms_plannedQty :: "int option"
  ms_duplicatePrint :: bool

record occurrence =
  vo_shiftId :: jstring
  vo_codeHash :: jstring
  vo_scannedAt :: jstring
  vo_ownershipReleased :: bool
  vo_outcome :: jstring
  vo_sourceShiftId :: "jstring option"
  vo_receiptOutcome :: "jstring option"

record label_job =
  jb_jobId :: jstring
  jb_shiftId :: jstring
  jb_ownership :: jstring
  jb_status :: jstring

record close_row =
  cl_eventId :: jstring
  cl_shiftId :: jstring
  cl_deviceId :: jstring
  cl_operatorId :: "jstring option"
  cl_productId :: jstring
  cl_productName :: jstring
  cl_plannedQty :: "int option"
  cl_actualQty :: int
  cl_closedBoxCount :: int
  cl_reasonCode :: "jstring option"
  cl_closedAt :: jstring
  cl_state :: jstring
  cl_conflictCode :: "jstring option"
  cl_lastCheckedAt :: "jstring option"

record shift_db =
  sd_station :: station_db
  sd_shifts :: "mirror_shift list"
  sd_occurrences :: "occurrence list"
  sd_jobs :: "label_job list"
  sd_closes :: "close_row list"

subsection \<open>Reasons\<close>

definition SHIFT_CLOSE_REASON_CODES :: "jstring list" where
  "SHIFT_CLOSE_REASON_CODES = map lit [''production_defect'', ''material_shortage'', ''equipment_stop'',
     ''production_order_changed'', ''planned_quantity_error'', ''other_production_deviation'']"

definition shiftCloseReasonRequired :: "int option \<Rightarrow> int \<Rightarrow> bool" where
  "shiftCloseReasonRequired plannedQty actualQty \<longleftrightarrow> plannedQty \<noteq> None \<and> plannedQty \<noteq> Some actualQty"

definition isShiftCloseReasonCode :: "jstring \<Rightarrow> bool" where
  "isShiftCloseReasonCode v \<longleftrightarrow> v \<in> set SHIFT_CLOSE_REASON_CODES"

subsection \<open>Queries\<close>

text \<open>The view \<open>station_processed_codes\<close>, restricted to one shift and counted.\<close>

definition counts_occurrence :: "code_row list \<Rightarrow> occurrence \<Rightarrow> bool" where
  "counts_occurrence codes v \<longleftrightarrow> \<not> vo_ownershipReleased v \<and> vo_outcome v \<noteq> lit ''conflict''
     \<and> (vo_sourceShiftId v \<noteq> None \<or> vo_outcome v = lit ''reprocessed'' \<or> vo_receiptOutcome v = Some (lit ''reprocessed'')
        \<or> list_ex (\<lambda>c. co_shiftId c = vo_shiftId v \<and> co_codeHash c = vo_codeHash v \<and> co_scannedAt c = vo_scannedAt v) codes)"

definition processed_count :: "shift_db \<Rightarrow> jstring \<Rightarrow> int" where
  "processed_count db shiftId =
     (let codes = db_codes (sd_station db); occ = sd_occurrences db
      in int (length (filter (\<lambda>c. co_shiftId c = shiftId
                \<and> \<not> list_ex (\<lambda>v. vo_shiftId v = co_shiftId c \<and> vo_codeHash v = co_codeHash c) occ) codes)
            + length (filter (\<lambda>v. vo_shiftId v = shiftId \<and> counts_occurrence codes v) occ)))"

definition closed_box_count :: "shift_db \<Rightarrow> jstring \<Rightarrow> int" where
  "closed_box_count db shiftId = int (length (filter (\<lambda>b. bx_shiftId b = shiftId \<and> bx_closedAt b \<noteq> None) (db_boxes (sd_station db))))"

definition open_box_count :: "shift_db \<Rightarrow> jstring \<Rightarrow> nat" where
  "open_box_count db shiftId = length (filter (\<lambda>b. bx_shiftId b = shiftId \<and> bx_closedAt b = None
     \<and> item_count (sd_station db) (bx_boxId b) \<noteq> 0) (db_boxes (sd_station db)))"

definition find_shift :: "shift_db \<Rightarrow> jstring \<Rightarrow> mirror_shift option" where
  "find_shift db shiftId = List.find (\<lambda>m. ms_id m = shiftId) (sd_shifts db)"

definition loadStoredClose :: "shift_db \<Rightarrow> jstring \<Rightarrow> close_row option" where
  "loadStoredClose db shiftId =
     (case sort_key cl_closedAt (filter (\<lambda>r. cl_shiftId r = shiftId) (sd_closes db)) of [] \<Rightarrow> None | r # _ \<Rightarrow> Some r)"

definition prints_duplicates :: "shift_db \<Rightarrow> jstring \<Rightarrow> bool" where
  "prints_duplicates db shiftId \<longleftrightarrow> (case find_shift db shiftId of Some m \<Rightarrow> ms_duplicatePrint m | None \<Rightarrow> False)"

definition unresolved_job :: "shift_db \<Rightarrow> jstring \<Rightarrow> bool" where
  "unresolved_job db shiftId = list_ex (\<lambda>j. jb_shiftId j = shiftId \<and> jb_status j \<noteq> lit ''completed'') (sd_jobs db)"

record close_summary =
  cs_eventId :: jstring
  cs_shiftId :: jstring
  cs_productId :: jstring
  cs_productName :: jstring
  cs_plannedQty :: "int option"
  cs_actualQty :: int
  cs_closedBoxCount :: int
  cs_reasonCode :: "jstring option"
  cs_closedAt :: jstring

definition presentStoredClose :: "close_row \<Rightarrow> close_summary" where
  "presentStoredClose r =
     \<lparr>cs_eventId = cl_eventId r, cs_shiftId = cl_shiftId r, cs_productId = cl_productId r, cs_productName = cl_productName r,
      cs_plannedQty = cl_plannedQty r, cs_actualQty = cl_actualQty r, cs_closedBoxCount = cl_closedBoxCount r,
      cs_reasonCode = (case cl_reasonCode r of Some c \<Rightarrow> if c \<noteq> [] \<and> isShiftCloseReasonCode c then Some c else None | None \<Rightarrow> None),
      cs_closedAt = cl_closedAt r\<rparr>"

subsection \<open>Statements\<close>

definition set_closed :: "shift_db \<Rightarrow> jstring \<Rightarrow> shift_db" where
  "set_closed db shiftId =
     db\<lparr>sd_shifts := map (\<lambda>m. if ms_id m = shiftId then m\<lparr>ms_status := lit ''closed''\<rparr> else m) (sd_shifts db)\<rparr>"

definition remove_empty :: "shift_db \<Rightarrow> jstring \<Rightarrow> shift_db" where
  "remove_empty db shiftId = db\<lparr>sd_station := removeEmptyOpenBoxes (sd_station db) shiftId\<rparr>"

datatype close_error =
    Shift_not_available | Credential_required | Credential_mismatch | Label_unresolved | Already_closed
  | Open_box | Reason_required | Unknown_reason | Close_changed | Event_exists | Unique_conflict

text \<open>The insert into \<open>shift_close_outbox\<close>: the two guards before it, the primary key and the unique index, and the
  trigger after it that closes a shift that prints duplicates.\<close>

definition insert_close :: "shift_db \<Rightarrow> close_row \<Rightarrow> close_error + shift_db" where
  "insert_close db row =
     (if unresolved_job db (cl_shiftId row) then Inl Label_unresolved
      else if prints_duplicates db (cl_shiftId row)
           \<and> (cl_actualQty row \<noteq> processed_count db (cl_shiftId row)
              \<or> cl_plannedQty row \<noteq> Option.bind (find_shift db (cl_shiftId row)) ms_plannedQty) then Inl Close_changed
      else if list_ex (\<lambda>r. cl_eventId r = cl_eventId row) (sd_closes db) then Inl Event_exists
      else if list_ex (\<lambda>r. cl_shiftId r = cl_shiftId row) (sd_closes db) then Inl Unique_conflict
      else let db' = db\<lparr>sd_closes := sd_closes db @ [row]\<rparr>
           in Inr (if prints_duplicates db (cl_shiftId row) then set_closed db' (cl_shiftId row) else db'))"

subsection \<open>The routine\<close>

record close_input =
  sc_shiftId :: jstring
  sc_deviceId :: jstring
  sc_operatorId :: "jstring option"
  sc_reasonCode :: "jstring option"
  sc_credentialOwnership :: "jstring option"
  sc_eventId :: jstring
  sc_closedAt :: jstring

datatype close_pc =
    Read_shift | Read_policy mirror_shift | Read_foreign mirror_shift | Read_pending mirror_shift | Read_stored mirror_shift
  | Count_actual mirror_shift | Count_closed mirror_shift int | Count_open mirror_shift int int
  | Insert close_row | Load_concurrent
  | Remove_boxes close_summary | Set_status close_summary
  | Closed close_summary | Failed close_error

definition close_row_of :: "close_input \<Rightarrow> mirror_shift \<Rightarrow> int \<Rightarrow> int \<Rightarrow> close_row" where
  "close_row_of inp shift actualQty closedBoxCount =
     \<lparr>cl_eventId = sc_eventId inp, cl_shiftId = sc_shiftId inp, cl_deviceId = sc_deviceId inp, cl_operatorId = sc_operatorId inp,
      cl_productId = ms_productId shift, cl_productName = (case ms_productName shift of Some n \<Rightarrow> n | None \<Rightarrow> []),
      cl_plannedQty = ms_plannedQty shift, cl_actualQty = actualQty, cl_closedBoxCount = closedBoxCount,
      cl_reasonCode = sc_reasonCode inp, cl_closedAt = sc_closedAt inp, cl_state = lit ''pending'', cl_conflictCode = None,
      cl_lastCheckedAt = None\<rparr>"

text \<open>The summary of a fresh close.\<close>

definition close_result :: "close_row \<Rightarrow> close_summary" where
  "close_result r =
     \<lparr>cs_eventId = cl_eventId r, cs_shiftId = cl_shiftId r, cs_productId = cl_productId r, cs_productName = cl_productName r,
      cs_plannedQty = cl_plannedQty r, cs_actualQty = cl_actualQty r, cs_closedBoxCount = cl_closedBoxCount r,
      cs_reasonCode = cl_reasonCode r, cs_closedAt = cl_closedAt r\<rparr>"

text \<open>The checks on the open boxes and the reason, made without a further statement.\<close>

definition check_reason :: "close_input \<Rightarrow> mirror_shift \<Rightarrow> int \<Rightarrow> nat \<Rightarrow> close_error option" where
  "check_reason inp shift actualQty openBoxCount =
     (if 0 < openBoxCount then Some Open_box
      else if shiftCloseReasonRequired (ms_plannedQty shift) actualQty
           \<and> (case sc_reasonCode inp of None \<Rightarrow> True | Some r \<Rightarrow> r = [] \<or> \<not> isShiftCloseReasonCode r) then Some Reason_required
      else if (case sc_reasonCode inp of None \<Rightarrow> False | Some r \<Rightarrow> \<not> isShiftCloseReasonCode r) then Some Unknown_reason
      else None)"

fun close_step :: "close_input \<Rightarrow> shift_db \<Rightarrow> close_pc \<Rightarrow> shift_db \<times> close_pc" where
  "close_step inp db Read_shift =
     (db, case find_shift db (sc_shiftId inp) of None \<Rightarrow> Failed Shift_not_available | Some m \<Rightarrow> Read_policy m)"
| "close_step inp db (Read_policy m) =
     (db, if prints_duplicates db (sc_shiftId inp)
          then if sc_credentialOwnership inp = None \<or> sc_credentialOwnership inp = Some [] then Failed Credential_required else Read_foreign m
          else Read_stored m)"
| "close_step inp db (Read_foreign m) =
     (db, if list_ex (\<lambda>j. jb_shiftId j = sc_shiftId inp \<and> Some (jb_ownership j) \<noteq> sc_credentialOwnership inp) (sd_jobs db)
          then Failed Credential_mismatch else Read_pending m)"
| "close_step inp db (Read_pending m) =
     (db, if unresolved_job db (sc_shiftId inp) then Failed Label_unresolved else Read_stored m)"
| "close_step inp db (Read_stored m) =
     (db, case loadStoredClose db (sc_shiftId inp) of
            Some r \<Rightarrow> Remove_boxes (presentStoredClose r)
          | None \<Rightarrow> if ms_status m = lit ''closed'' then Failed Already_closed else Count_actual m)"
| "close_step inp db (Count_actual m) = (db, Count_closed m (processed_count db (sc_shiftId inp)))"
| "close_step inp db (Count_closed m n) = (db, Count_open m n (closed_box_count db (sc_shiftId inp)))"
| "close_step inp db (Count_open m n k) =
     (db, case check_reason inp m n (open_box_count db (sc_shiftId inp)) of
            Some e \<Rightarrow> Failed e | None \<Rightarrow> Insert (close_row_of inp m n k))"
| "close_step inp db (Insert row) =
     (case insert_close db row of
        Inr db' \<Rightarrow> (db', Remove_boxes (close_result row))
      | Inl Unique_conflict \<Rightarrow> (db, Load_concurrent)
      | Inl e \<Rightarrow> (db, Failed e))"
| "close_step inp db Load_concurrent =
     (db, case loadStoredClose db (sc_shiftId inp) of Some r \<Rightarrow> Remove_boxes (presentStoredClose r) | None \<Rightarrow> Failed Unique_conflict)"
| "close_step inp db (Remove_boxes r) = (remove_empty db (sc_shiftId inp), Set_status r)"
| "close_step inp db (Set_status r) = (set_closed db (sc_shiftId inp), Closed r)"
| "close_step inp db (Closed r) = (db, Closed r)"
| "close_step inp db (Failed e) = (db, Failed e)"

definition readPendingShiftCloses :: "shift_db \<Rightarrow> close_row list" where
  "readPendingShiftCloses db = sort_key cl_closedAt (filter (\<lambda>r. cl_state r = lit ''pending'') (sd_closes db))"

definition markShiftCloseAccepted :: "shift_db \<Rightarrow> jstring \<Rightarrow> shift_db" where
  "markShiftCloseAccepted db eventId =
     (let repaired = (case List.find (\<lambda>r. cl_eventId r = eventId) (sd_closes db) of Some r \<Rightarrow> set_closed db (cl_shiftId r) | None \<Rightarrow> db)
      in repaired\<lparr>sd_closes := filter (\<lambda>r. cl_eventId r \<noteq> eventId) (sd_closes repaired)\<rparr>)"

definition markShiftCloseConflict :: "shift_db \<Rightarrow> jstring \<Rightarrow> jstring \<Rightarrow> jstring \<Rightarrow> shift_db" where
  "markShiftCloseConflict db eventId code now =
     db\<lparr>sd_closes := map (\<lambda>r. if cl_eventId r = eventId
          then r\<lparr>cl_state := lit ''conflict'', cl_conflictCode := Some code, cl_lastCheckedAt := Some now\<rparr> else r) (sd_closes db)\<rparr>"


text \<open>The same routine without interruption.\<close>

definition label_guard :: "close_input \<Rightarrow> shift_db \<Rightarrow> close_error option" where
  "label_guard inp db =
     (if \<not> prints_duplicates db (sc_shiftId inp) then None
      else if sc_credentialOwnership inp = None \<or> sc_credentialOwnership inp = Some [] then Some Credential_required
      else if list_ex (\<lambda>j. jb_shiftId j = sc_shiftId inp \<and> Some (jb_ownership j) \<noteq> sc_credentialOwnership inp) (sd_jobs db)
      then Some Credential_mismatch
      else if unresolved_job db (sc_shiftId inp) then Some Label_unresolved else None)"

definition finish_close :: "shift_db \<Rightarrow> jstring \<Rightarrow> close_summary \<Rightarrow> shift_db \<times> (close_error + close_summary)" where
  "finish_close db shiftId r = (set_closed (remove_empty db shiftId) shiftId, Inr r)"

definition closeShiftOfflineLegacy :: "close_input \<Rightarrow> shift_db \<Rightarrow> shift_db \<times> (close_error + close_summary)" where
  "closeShiftOfflineLegacy inp db =
     (case find_shift db (sc_shiftId inp) of
        None \<Rightarrow> (db, Inl Shift_not_available)
      | Some m \<Rightarrow>
          (case label_guard inp db of
             Some e \<Rightarrow> (db, Inl e)
           | None \<Rightarrow>
               (case loadStoredClose db (sc_shiftId inp) of
                  Some r \<Rightarrow> finish_close db (sc_shiftId inp) (presentStoredClose r)
                | None \<Rightarrow>
                    if ms_status m = lit ''closed'' then (db, Inl Already_closed)
                    else let n = processed_count db (sc_shiftId inp); k = closed_box_count db (sc_shiftId inp);
                             row = close_row_of inp m n k
                         in case check_reason inp m n (open_box_count db (sc_shiftId inp)) of
                              Some e \<Rightarrow> (db, Inl e)
                            | None \<Rightarrow>
                                (case insert_close db row of
                                   Inr db' \<Rightarrow> finish_close db' (sc_shiftId inp) (close_result row)
                                 | Inl e \<Rightarrow> (db, Inl e)))))"

datatype shift_close_failure = Grant_owner_required | Close_failed close_error

definition closeShiftOffline :: "close_input \<Rightarrow> shift_db \<Rightarrow> shift_db \<times> (shift_close_failure + close_summary)" where
  "closeShiftOffline inp db =
     (if db_grantInstalled (sd_station db) then (db, Inl Grant_owner_required)
      else case closeShiftOfflineLegacy inp db of (db', Inl e) \<Rightarrow> (db', Inl (Close_failed e)) | (db', Inr r) \<Rightarrow> (db', Inr r))"

section \<open>Attempts that interleave\<close>

text \<open>Any number of attempts over one database; between two statements the rest of the station may store
  codes, open, fill and close boxes and resolve labels in any way, and the server may refuse a close.\<close>

inductive close_attempts :: "shift_db \<Rightarrow> (close_input \<times> close_pc) list \<Rightarrow> bool" where
  start: "sd_closes db = [] \<Longrightarrow> close_attempts db []"
| attempt: "close_attempts db ps \<Longrightarrow> close_attempts db (ps @ [(inp, Read_shift)])"
| statement: "close_attempts db ps \<Longrightarrow> i < length ps \<Longrightarrow> ps ! i = (inp, pc) \<Longrightarrow> close_step inp db pc = (db', pc')
    \<Longrightarrow> close_attempts db' (ps[i := (inp, pc')])"
| work: "close_attempts db ps \<Longrightarrow> close_attempts (db\<lparr>sd_station := st, sd_occurrences := occ, sd_jobs := js\<rparr>) ps"
| refused: "close_attempts db ps \<Longrightarrow> close_attempts (markShiftCloseConflict db ev code now) ps"

section \<open>Lemmas\<close>

definition reason_valid :: "jstring option \<Rightarrow> bool" where
  "reason_valid r = (case r of None \<Rightarrow> True | Some c \<Rightarrow> isShiftCloseReasonCode c)"

lemma reason_codes_nonempty: "isShiftCloseReasonCode c \<Longrightarrow> c \<noteq> []"
  by (auto simp: isShiftCloseReasonCode_def SHIFT_CLOSE_REASON_CODES_def lit_def)

lemma check_reason_valid: "check_reason inp m n k = None \<Longrightarrow> reason_valid (sc_reasonCode inp)"
  by (auto simp: check_reason_def reason_valid_def split: if_splits option.splits)

lemma present_result: "reason_valid (cl_reasonCode row) \<Longrightarrow> presentStoredClose row = close_result row"
  using reason_codes_nonempty by (auto simp: presentStoredClose_def close_result_def reason_valid_def split: option.splits)

lemma loadStored_Some:
  assumes "loadStoredClose db s = Some r"
  shows "r \<in> set (sd_closes db) \<and> cl_shiftId r = s"
proof -
  obtain xs where xs: "sort_key cl_closedAt (filter (\<lambda>r. cl_shiftId r = s) (sd_closes db)) = r # xs"
    using assms unfolding loadStoredClose_def by (cases "sort_key cl_closedAt (filter (\<lambda>r. cl_shiftId r = s) (sd_closes db))") auto
  have "r \<in> set (sort_key cl_closedAt (filter (\<lambda>r. cl_shiftId r = s) (sd_closes db)))" unfolding xs by simp
  then show ?thesis unfolding set_sort by simp
qed

lemma loadStored_None: "loadStoredClose db s = None \<longleftrightarrow> s \<notin> cl_shiftId ` set (sd_closes db)"
proof -
  have "set (sort_key cl_closedAt (filter (\<lambda>r. cl_shiftId r = s) (sd_closes db))) = {} \<longleftrightarrow> s \<notin> cl_shiftId ` set (sd_closes db)"
    unfolding set_sort by auto
  then show ?thesis unfolding loadStoredClose_def set_empty by (auto split: list.split)
qed

lemma one_row_of_shift:
  "distinct (map cl_shiftId rows) \<Longrightarrow> a \<in> set rows \<Longrightarrow> b \<in> set rows \<Longrightarrow> cl_shiftId a = cl_shiftId b \<Longrightarrow> a = b"
  by (simp add: distinct_map inj_on_def)

lemma set_closed_frame [simp]:
  "sd_closes (set_closed db s) = sd_closes db" "sd_jobs (set_closed db s) = sd_jobs db" "sd_station (set_closed db s) = sd_station db"
  "sd_occurrences (set_closed db s) = sd_occurrences db"
  by (simp_all add: set_closed_def)

lemma remove_empty_frame [simp]:
  "sd_closes (remove_empty db s) = sd_closes db" "sd_jobs (remove_empty db s) = sd_jobs db" "sd_shifts (remove_empty db s) = sd_shifts db"
  by (simp_all add: remove_empty_def)

lemma insert_close_rows:
  assumes "insert_close db row = Inr db'"
  shows "sd_closes db' = sd_closes db @ [row] \<and> cl_shiftId row \<notin> cl_shiftId ` set (sd_closes db)
    \<and> sd_jobs db' = sd_jobs db \<and> (db' = db\<lparr>sd_closes := sd_closes db @ [row]\<rparr> \<or> db' = set_closed (db\<lparr>sd_closes := sd_closes db @ [row]\<rparr>) (cl_shiftId row))"
  using assms by (auto simp: insert_close_def Let_def list_ex_iff split: if_splits)

lemma insert_no_conflict: "loadStoredClose db (cl_shiftId row) = None \<Longrightarrow> insert_close db row \<noteq> Inl Unique_conflict"
  by (auto simp: insert_close_def Let_def loadStored_None list_ex_iff image_iff)


definition stored_as :: "shift_db \<Rightarrow> jstring \<Rightarrow> close_summary \<Rightarrow> bool" where
  "stored_as db s r \<longleftrightarrow> (\<exists>row\<in>set (sd_closes db). cl_shiftId row = s \<and> presentStoredClose row = r)"

definition mirror_closed :: "shift_db \<Rightarrow> jstring \<Rightarrow> bool" where
  "mirror_closed db s \<longleftrightarrow> (\<forall>m\<in>set (sd_shifts db). ms_id m = s \<longrightarrow> ms_status m = lit ''closed'')"

fun attempt_ok :: "shift_db \<Rightarrow> close_input \<Rightarrow> close_pc \<Rightarrow> bool" where
  "attempt_ok db inp (Insert row) = (cl_shiftId row = sc_shiftId inp \<and> reason_valid (cl_reasonCode row))"
| "attempt_ok db inp (Remove_boxes r) = stored_as db (sc_shiftId inp) r"
| "attempt_ok db inp (Set_status r) = stored_as db (sc_shiftId inp) r"
| "attempt_ok db inp (Closed r) = (stored_as db (sc_shiftId inp) r \<and> mirror_closed db (sc_shiftId inp))"
| "attempt_ok db inp _ = True"

text \<open>What every statement and every other piece of work keeps: a stored close stays with its snapshot, a closed
  shift stays closed.\<close>

definition later :: "shift_db \<Rightarrow> shift_db \<Rightarrow> bool" where
  "later db db' \<longleftrightarrow> (\<forall>s r. stored_as db s r \<longrightarrow> stored_as db' s r) \<and> (\<forall>s. mirror_closed db s \<longrightarrow> mirror_closed db' s)"

lemma later_ok: "later db db' \<Longrightarrow> attempt_ok db inp pc \<Longrightarrow> attempt_ok db' inp pc"
  by (cases pc) (auto simp: later_def)

lemma later_same [simp]: "later db db"
  by (simp add: later_def)

lemma later_rows:
  "set (sd_closes db) \<subseteq> set (sd_closes db') \<Longrightarrow> sd_shifts db' = sd_shifts db \<or> (\<exists>s. sd_shifts db' = sd_shifts (set_closed db s)) \<Longrightarrow> later db db'"
  by (auto simp: later_def stored_as_def mirror_closed_def set_closed_def)

lemma later_conflict: "later db (markShiftCloseConflict db ev code now)"
proof -
  define f where "f r = (if cl_eventId r = ev then r\<lparr>cl_state := lit ''conflict'', cl_conflictCode := Some code, cl_lastCheckedAt := Some now\<rparr> else r)" for r :: close_row
  have f: "presentStoredClose (f r) = presentStoredClose r" "cl_shiftId (f r) = cl_shiftId r" for r
    by (simp_all add: f_def presentStoredClose_def)
  have "sd_closes (markShiftCloseConflict db ev code now) = map f (sd_closes db)" "sd_shifts (markShiftCloseConflict db ev code now) = sd_shifts db"
    by (simp_all add: markShiftCloseConflict_def f_def)
  then show ?thesis using f by (simp add: later_def stored_as_def mirror_closed_def)
qed

lemma stored_loaded: "loadStoredClose db s = Some r \<Longrightarrow> stored_as db s (presentStoredClose r)"
  using loadStored_Some [of db s r] by (auto simp: stored_as_def)

lemma close_step_later: "close_step inp db pc = (db', pc') \<Longrightarrow> later db db'"
proof (cases pc)
  case (Insert row)
  assume step: "close_step inp db pc = (db', pc')"
  show ?thesis
  proof (cases "insert_close db row")
    case (Inl e)
    then show ?thesis using step Insert by (cases e) auto
  next
    case (Inr d)
    then show ?thesis using step Insert insert_close_rows [OF Inr] by (auto intro!: later_rows simp: set_closed_def)
  qed
qed (auto intro!: later_rows split: option.splits if_splits simp: set_closed_def)

lemma close_step_ok:
  assumes "close_step inp db pc = (db', pc')" "attempt_ok db inp pc"
  shows "attempt_ok db' inp pc'"
proof (cases pc)
  case (Insert row)
  show ?thesis
  proof (cases "insert_close db row")
    case (Inl e)
    then show ?thesis using assms Insert by (cases e) auto
  next
    case (Inr d)
    then have "pc' = Remove_boxes (close_result row)" "db' = d" using assms(1) Insert by auto
    moreover have "row \<in> set (sd_closes d)" using insert_close_rows [OF Inr] by simp
    ultimately show ?thesis using assms(2) Insert present_result [of row] by (auto simp: stored_as_def)
  qed
next
  case (Count_open m n k)
  then show ?thesis using assms check_reason_valid [of inp m n] by (auto simp: close_row_of_def split: option.splits)
next
  case (Set_status r)
  then show ?thesis using assms by (auto simp: stored_as_def mirror_closed_def set_closed_def)
next
  case (Remove_boxes r)
  then show ?thesis using assms by (auto simp: stored_as_def)
qed (use assms in \<open>auto simp: stored_loaded split: option.splits if_splits\<close>)

lemma close_step_distinct:
  assumes "close_step inp db pc = (db', pc')" "distinct (map cl_shiftId (sd_closes db))"
  shows "distinct (map cl_shiftId (sd_closes db'))"
proof (cases pc)
  case (Insert row)
  show ?thesis
  proof (cases "insert_close db row")
    case (Inl e)
    then show ?thesis using assms Insert by (cases e) auto
  next
    case (Inr d)
    then show ?thesis using assms Insert insert_close_rows [OF Inr] by auto
  qed
qed (use assms in \<open>auto split: option.splits if_splits\<close>)

lemma close_attempts_inv:
  "close_attempts db ps \<Longrightarrow> distinct (map cl_shiftId (sd_closes db)) \<and> (\<forall>(inp, pc)\<in>set ps. attempt_ok db inp pc)"
proof (induction rule: close_attempts.induct)
  case (statement db ps i inp pc db' pc')
  have old: "attempt_ok db inp pc" using statement.IH nth_mem [OF statement.hyps(2)] statement.hyps(3) by auto
  have "attempt_ok db' i' c" if "(i', c) \<in> set (ps[i := (inp, pc')])" for i' c
    using set_update_subset_insert [of ps i "(inp, pc')"] that close_step_ok [OF statement.hyps(4) old]
      later_ok [OF close_step_later [OF statement.hyps(4)]] statement.IH by blast
  then show ?case using close_step_distinct [OF statement.hyps(4)] statement.IH by blast
next
  case (work db ps js occ st)
  then show ?case using later_ok [OF later_rows [of db "db\<lparr>sd_station := st, sd_occurrences := occ, sd_jobs := js\<rparr>"]] by fastforce
next
  case (refused db ps ev code now)
  have "map cl_shiftId (sd_closes (markShiftCloseConflict db ev code now)) = map cl_shiftId (sd_closes db)"
    by (simp add: markShiftCloseConflict_def comp_def if_distrib)
  then show ?case using refused.IH later_ok [OF later_conflict] by fastforce
qed auto

text \<open>C15: A shift is closed once: however many attempts to close it run at the same time, interleaved with scans,
  box work and refusals of the server, stopped anywhere and started again, the outbox holds at most one
  close per shift; every attempt that returns for a shift returns the event and the counts stored
  there, so all of them return the same, and from then on the mirror shows the shift as closed. (The server's
  acceptance, after which a close is no longer queued, is not a step of these runs.)\<close>

theorem shift_closed_once:
  assumes "close_attempts db ps"
  shows "distinct (map cl_shiftId (sd_closes db))
    \<and> (\<forall>inp r. (inp, Closed r) \<in> set ps \<longrightarrow>
         (\<exists>row\<in>set (sd_closes db). cl_shiftId row = sc_shiftId inp \<and> presentStoredClose row = r)
         \<and> (\<forall>m\<in>set (sd_shifts db). ms_id m = sc_shiftId inp \<longrightarrow> ms_status m = lit ''closed'')
         \<and> (\<forall>inp' r'. (inp', Closed r') \<in> set ps \<longrightarrow> sc_shiftId inp' = sc_shiftId inp \<longrightarrow> r' = r))"
proof -
  have d: "distinct (map cl_shiftId (sd_closes db))" and ok: "\<And>inp pc. (inp, pc) \<in> set ps \<Longrightarrow> attempt_ok db inp pc"
    using close_attempts_inv [OF assms] by auto
  have stored: "stored_as db (sc_shiftId inp) r" "mirror_closed db (sc_shiftId inp)" if "(inp, Closed r) \<in> set ps" for inp r
    using ok [OF that] by simp_all
  have same: "r' = r" if a: "(inp, Closed r) \<in> set ps" "(inp', Closed r') \<in> set ps" "sc_shiftId inp' = sc_shiftId inp" for inp inp' r r'
    using stored(1) [OF a(1)] stored(1) [OF a(2)] a(3) one_row_of_shift [OF d] unfolding stored_as_def by metis
  show ?thesis using d stored same unfolding stored_as_def mirror_closed_def by blast
qed


section \<open>An attempt alone\<close>

fun close_run :: "close_input \<Rightarrow> nat \<Rightarrow> shift_db \<times> close_pc \<Rightarrow> shift_db \<times> close_pc" where
  "close_run inp 0 st = st"
| "close_run inp (Suc n) (db, pc) = close_run inp n (close_step inp db pc)"

fun statements_left :: "close_pc \<Rightarrow> nat" where
  "statements_left Read_shift = 12" | "statements_left (Read_policy _) = 11" | "statements_left (Read_foreign _) = 10"
| "statements_left (Read_pending _) = 9" | "statements_left (Read_stored _) = 8" | "statements_left (Count_actual _) = 7"
| "statements_left (Count_closed _ _) = 6" | "statements_left (Count_open _ _ _) = 5" | "statements_left (Insert _) = 4"
| "statements_left Load_concurrent = 3" | "statements_left (Remove_boxes _) = 2" | "statements_left (Set_status _) = 1"
| "statements_left (Closed _) = 0" | "statements_left (Failed _) = 0"

lemma close_step_decreases:
  assumes "statements_left pc \<noteq> 0"
  shows "statements_left (snd (close_step inp db pc)) < statements_left pc"
proof (cases pc)
  case (Insert row)
  then show ?thesis
  proof (cases "insert_close db row")
    case (Inl e)
    then show ?thesis using Insert by (cases e) auto
  qed simp
qed (use assms in \<open>auto split: option.split\<close>)

lemma close_run_final: "statements_left pc = 0 \<Longrightarrow> close_run inp n (db, pc) = (db, pc)"
proof (induction n)
  case (Suc n)
  then show ?case by (cases pc) auto
qed simp

lemma close_run_add: "close_run inp (m + n) st = close_run inp n (close_run inp m st)"
proof (induction m arbitrary: st)
  case (Suc m)
  then show ?case by (cases st) simp
qed simp

lemma close_run_enough: "statements_left pc \<le> n \<Longrightarrow> close_run inp n (db, pc) = close_run inp (statements_left pc) (db, pc)"
  and close_run_ends: "statements_left (snd (close_run inp (statements_left pc) (db, pc))) = 0"
proof -
  have e: "statements_left pc \<le> n \<Longrightarrow> statements_left (snd (close_run inp n (db, pc))) = 0" for n pc db
  proof (induction n arbitrary: db pc)
    case (Suc n)
    show ?case
    proof (cases "statements_left pc = 0")
      case False
      obtain d c where dc: "close_step inp db pc = (d, c)" by (cases "close_step inp db pc")
      then have "statements_left c \<le> n" using close_step_decreases [OF False, of inp db] Suc.prems by simp
      then show ?thesis using Suc.IH dc by simp
    qed (simp add: close_run_final del: close_run.simps)
  qed simp
  from e show "statements_left (snd (close_run inp (statements_left pc) (db, pc))) = 0" by blast
  assume "statements_left pc \<le> n"
  then obtain k where "n = statements_left pc + k" by (auto simp: le_iff_add)
  moreover obtain d c where "close_run inp (statements_left pc) (db, pc) = (d, c)" by (cases "close_run inp (statements_left pc) (db, pc)")
  moreover have "statements_left c = 0" using e [of pc "statements_left pc" db] calculation(2) by simp
  ultimately show "close_run inp n (db, pc) = close_run inp (statements_left pc) (db, pc)" by (simp add: close_run_add close_run_final)
qed

definition as_pc :: "shift_db \<times> (close_error + close_summary) \<Rightarrow> shift_db \<times> close_pc" where
  "as_pc res = (fst res, case snd res of Inr r \<Rightarrow> Closed r | Inl e \<Rightarrow> Failed e)"

lemma as_pc_simps [simp]: "as_pc (d, Inr r) = (d, Closed r)" "as_pc (d, Inl e) = (d, Failed e)"
  by (simp_all add: as_pc_def)

lemma run_finish: "close_run inp (Suc (Suc n)) (d, Remove_boxes r) = as_pc (finish_close d (sc_shiftId inp) r)"
  by (simp add: finish_close_def close_run_final)

lemma run_failed: "close_run inp n (d, Failed e) = (d, Failed e)"
  by (simp add: close_run_final)

lemma run_from_stored:
  assumes "8 \<le> n"
  shows "close_run inp n (db, Read_stored m) = as_pc
    (case loadStoredClose db (sc_shiftId inp) of
                  Some r \<Rightarrow> finish_close db (sc_shiftId inp) (presentStoredClose r)
                | None \<Rightarrow>
                    if ms_status m = lit ''closed'' then (db, Inl Already_closed)
                    else let n = processed_count db (sc_shiftId inp); k = closed_box_count db (sc_shiftId inp);
                             row = close_row_of inp m n k
                         in case check_reason inp m n (open_box_count db (sc_shiftId inp)) of
                              Some e \<Rightarrow> (db, Inl e)
                            | None \<Rightarrow>
                                (case insert_close db row of
                                   Inr db' \<Rightarrow> finish_close db' (sc_shiftId inp) (close_result row)
                                 | Inl e \<Rightarrow> (db, Inl e)))"
proof -
  have eight: "(8::nat) = Suc (Suc (Suc (Suc (Suc (Suc (Suc (Suc 0)))))))" by simp
  have n8: "close_run inp n (db, Read_stored m) = close_run inp (Suc (Suc (Suc (Suc (Suc (Suc (Suc (Suc 0)))))))) (db, Read_stored m)"
    using close_run_enough [of "Read_stored m" n inp db] assms unfolding statements_left.simps eight [symmetric] by blast
  show ?thesis
  proof (cases "loadStoredClose db (sc_shiftId inp)")
    case (Some r)
    then show ?thesis unfolding n8 by (simp add: run_finish [simplified] close_run_final finish_close_def)
  next
    case None
    define row where "row = close_row_of inp m (processed_count db (sc_shiftId inp)) (closed_box_count db (sc_shiftId inp))"
    have nc: "insert_close db row \<noteq> Inl Unique_conflict"
      using None insert_no_conflict [of db row] by (simp add: row_def close_row_of_def)
    show ?thesis
    proof (cases "insert_close db row")
      case (Inl e)
      then show ?thesis using None nc unfolding n8 row_def [symmetric]
        by (cases e) (auto simp: Let_def row_def [symmetric] run_failed split: option.split)
    next
      case (Inr d)
      then show ?thesis using None unfolding n8
        by (auto simp: Let_def row_def [symmetric] run_failed finish_close_def split: option.split)
    qed
  qed
qed

lemma run_from_start: "close_run inp 12 (db, Read_shift) = as_pc (closeShiftOfflineLegacy inp db)"
proof (cases "find_shift db (sc_shiftId inp)")
  case None
  then show ?thesis by (simp add: numeral_eq_Suc run_failed closeShiftOfflineLegacy_def)
next
  case (Some m)
  have u: "close_run inp 12 (db, Read_shift) = close_run inp 10 (close_step inp db (Read_policy m))"
    using Some by (simp add: numeral_eq_Suc)
  show ?thesis
  proof (cases "prints_duplicates db (sc_shiftId inp)")
    case False
    then have "close_run inp 12 (db, Read_shift) = close_run inp 10 (db, Read_stored m)" unfolding u by simp
    then show ?thesis using Some False run_from_stored [of 10 inp db m] by (simp add: closeShiftOfflineLegacy_def label_guard_def)
  next
    case True
    have v: "close_run inp 10 (db, Read_foreign m) = close_run inp 8 (close_step inp db (Read_pending m))"
      if "\<not> list_ex (\<lambda>j. jb_shiftId j = sc_shiftId inp \<and> Some (jb_ownership j) \<noteq> sc_credentialOwnership inp) (sd_jobs db)"
      using that by (simp add: numeral_eq_Suc)
    have w: "close_run inp 10 (db, Read_foreign m) = (db, Failed Credential_mismatch)"
      if "list_ex (\<lambda>j. jb_shiftId j = sc_shiftId inp \<and> Some (jb_ownership j) \<noteq> sc_credentialOwnership inp) (sd_jobs db)"
      using that by (simp add: numeral_eq_Suc run_failed)
    show ?thesis unfolding u using True Some v w run_from_stored [of 8 inp db m]
      by (auto simp: closeShiftOfflineLegacy_def label_guard_def run_failed)
  qed
qed

section \<open>An attempt that stops and is made again\<close>

lemma find_map_keys:
  assumes "\<And>x. P (f x) = P x"
  shows "List.find P (map f xs) = map_option f (List.find P xs)"
  using assms by (induction xs) auto

lemma find_set_closed:
  "find_shift (set_closed db s) t = map_option (\<lambda>m. if ms_id m = s then m\<lparr>ms_status := lit ''closed''\<rparr> else m) (find_shift db t)"
  unfolding find_shift_def set_closed_def by (simp add: find_map_keys)

lemma find_shift_frame [simp]:
  "find_shift (remove_empty db s) t = find_shift db t" "find_shift (db\<lparr>sd_closes := rows\<rparr>) t = find_shift db t"
  "find_shift (set_closed db s) t = None \<longleftrightarrow> find_shift db t = None"
  by (simp_all add: find_shift_def remove_empty_def find_set_closed [unfolded find_shift_def])

lemma prints_frame [simp]:
  "prints_duplicates (remove_empty db s) t = prints_duplicates db t" "prints_duplicates (db\<lparr>sd_closes := rows\<rparr>) t = prints_duplicates db t"
  "prints_duplicates (set_closed db s) t = prints_duplicates db t"
  by (auto simp: prints_duplicates_def find_set_closed split: option.split)

lemma label_guard_frame [simp]:
  "label_guard inp (remove_empty db s) = label_guard inp db" "label_guard inp (db\<lparr>sd_closes := rows\<rparr>) = label_guard inp db"
  "label_guard inp (set_closed db s) = label_guard inp db"
  by (simp_all add: label_guard_def unresolved_job_def)

lemma loadStored_frame [simp]:
  "loadStoredClose (remove_empty db s) t = loadStoredClose db t" "loadStoredClose (set_closed db s) t = loadStoredClose db t"
  by (simp_all add: loadStoredClose_def)

lemma set_closed_idem: "set_closed (set_closed db s) s = set_closed db s"
  by (simp add: set_closed_def comp_def if_distrib cong: if_cong)

lemma remove_empty_idem: "remove_empty (remove_empty db s) s = remove_empty db s"
  by (simp add: remove_empty_def removeEmptyOpenBoxes_def item_count_def)

lemma remove_set_commute: "remove_empty (set_closed db s) s = set_closed (remove_empty db s) s"
  by (simp add: remove_empty_def set_closed_def)

lemma loadStored_inserted:
  assumes "insert_close db row = Inr db'" "loadStoredClose db (cl_shiftId row) = None"
  shows "loadStoredClose db' (cl_shiftId row) = Some row"
proof -
  have "filter (\<lambda>r. cl_shiftId r = cl_shiftId row) (sd_closes db) = []"
    using assms(2) unfolding loadStored_None filter_empty_conv by (metis imageI)
  then show ?thesis using insert_close_rows [OF assms(1)] by (simp add: loadStoredClose_def)
qed

text \<open>Where an attempt that runs alone can be: before the insert the database is as it was, after it the shift
  and the guards still pass and the stored close is the one the attempt will return.\<close>

definition passes :: "close_input \<Rightarrow> shift_db \<Rightarrow> bool" where
  "passes inp d \<longleftrightarrow> find_shift d (sc_shiftId inp) \<noteq> None \<and> label_guard inp d = None"

definition resumable :: "close_input \<Rightarrow> shift_db \<Rightarrow> close_summary \<Rightarrow> bool" where
  "resumable inp d r \<longleftrightarrow> passes inp d \<and> map_option presentStoredClose (loadStoredClose d (sc_shiftId inp)) = Some r"

fun alone_ok :: "close_input \<Rightarrow> shift_db \<Rightarrow> shift_db \<Rightarrow> close_pc \<Rightarrow> bool" where
  "alone_ok inp db d (Read_policy m) = (d = db \<and> find_shift db (sc_shiftId inp) = Some m)"
| "alone_ok inp db d (Read_foreign m) = (d = db \<and> find_shift db (sc_shiftId inp) = Some m
     \<and> sc_credentialOwnership inp \<noteq> None \<and> sc_credentialOwnership inp \<noteq> Some [])"
| "alone_ok inp db d (Read_pending m) = (d = db \<and> find_shift db (sc_shiftId inp) = Some m
     \<and> sc_credentialOwnership inp \<noteq> None \<and> sc_credentialOwnership inp \<noteq> Some []
     \<and> \<not> list_ex (\<lambda>j. jb_shiftId j = sc_shiftId inp \<and> Some (jb_ownership j) \<noteq> sc_credentialOwnership inp) (sd_jobs db))"
| "alone_ok inp db d (Read_stored m) = (d = db \<and> passes inp db)"
| "alone_ok inp db d (Count_actual m) = (d = db \<and> passes inp db \<and> loadStoredClose db (sc_shiftId inp) = None)"
| "alone_ok inp db d (Count_closed m n) = (d = db \<and> passes inp db \<and> loadStoredClose db (sc_shiftId inp) = None)"
| "alone_ok inp db d (Count_open m n k) = (d = db \<and> passes inp db \<and> loadStoredClose db (sc_shiftId inp) = None)"
| "alone_ok inp db d (Insert row) = (d = db \<and> passes inp db \<and> loadStoredClose db (sc_shiftId inp) = None
     \<and> cl_shiftId row = sc_shiftId inp \<and> reason_valid (cl_reasonCode row))"
| "alone_ok inp db d Load_concurrent = False"
| "alone_ok inp db d (Remove_boxes r) = resumable inp d r"
| "alone_ok inp db d (Set_status r) = (resumable inp d r \<and> remove_empty d (sc_shiftId inp) = d)"
| "alone_ok inp db d (Closed r) = (resumable inp d r \<and> remove_empty d (sc_shiftId inp) = d \<and> set_closed d (sc_shiftId inp) = d)"
| "alone_ok inp db d _ = (d = db)"

lemma insert_alone:
  assumes "alone_ok inp db d (Insert row)" "close_step inp d (Insert row) = (d', pc')"
  shows "alone_ok inp db d' pc'"
proof (cases "insert_close d row")
  case (Inl e)
  then show ?thesis using assms insert_no_conflict [of d row] by (cases e) auto
next
  case (Inr e)
  have "resumable inp e (close_result row)"
    using assms(1) insert_close_rows [OF Inr] loadStored_inserted [OF Inr] present_result [of row]
    by (auto simp: resumable_def passes_def)
  moreover have "d' = e" "pc' = Remove_boxes (close_result row)" using Inr assms(2) by auto
  ultimately show ?thesis by simp
qed

lemma close_step_alone:
  assumes "alone_ok inp db d pc" "close_step inp d pc = (d', pc')"
  shows "alone_ok inp db d' pc'"
proof (cases pc)
  case (Insert row)
  then show ?thesis using insert_alone [of inp db d row d' pc'] assms by blast
next
  case (Count_open m n k)
  then show ?thesis using assms check_reason_valid [of inp m n] by (auto simp: close_row_of_def split: option.splits)
next
  case (Remove_boxes r)
  then show ?thesis using assms by (auto simp: resumable_def passes_def remove_empty_idem)
next
  case (Set_status r)
  then show ?thesis using assms by (auto simp: resumable_def passes_def set_closed_idem remove_set_commute)
qed (use assms in \<open>auto simp: passes_def label_guard_def resumable_def split: option.splits if_splits\<close>)

lemma close_run_alone:
  "alone_ok inp db d pc \<Longrightarrow> close_run inp n (d, pc) = (d', pc') \<Longrightarrow> alone_ok inp db d' pc'"
proof (induction n arbitrary: d pc)
  case (Suc n)
  obtain e c where ec: "close_step inp d pc = (e, c)" by (cases "close_step inp d pc")
  then show ?case using Suc.IH [OF close_step_alone [OF Suc.prems(1) ec]] Suc.prems(2) by simp
qed simp

lemma resumable_again:
  assumes "resumable inp d r" "sc_shiftId inp' = sc_shiftId inp" "sc_credentialOwnership inp' = sc_credentialOwnership inp"
  shows "closeShiftOfflineLegacy inp' d = finish_close d (sc_shiftId inp) r"
proof -
  have "label_guard inp' d = label_guard inp d" using assms(2,3) by (simp add: label_guard_def)
  then show ?thesis using assms(1,2) by (auto simp: closeShiftOfflineLegacy_def resumable_def passes_def)
qed

lemma alone_again:
  assumes "alone_ok inp db d pc" "sc_shiftId inp' = sc_shiftId inp" "sc_credentialOwnership inp' = sc_credentialOwnership inp"
  shows "d = db \<or> (\<exists>r. as_pc (closeShiftOfflineLegacy inp' d) = close_run inp 12 (d, pc)
           \<and> snd (closeShiftOfflineLegacy inp' d) = Inr r)"
proof -
  have again: "closeShiftOfflineLegacy inp' d = finish_close d (sc_shiftId inp) r" if "resumable inp d r" for r
    using resumable_again [OF that assms(2,3)] .
  show ?thesis
  proof (cases pc)
    case (Remove_boxes r)
    then show ?thesis using assms(1) again run_finish [of inp 10 d r] by (simp add: numeral_eq_Suc finish_close_def)
  next
    case (Set_status r)
    then have "closeShiftOfflineLegacy inp' d = (set_closed d (sc_shiftId inp), Inr r)"
      using assms(1) again [of r] by (simp add: finish_close_def)
    then show ?thesis using Set_status by (simp add: numeral_eq_Suc)
  next
    case (Closed r)
    then have "closeShiftOfflineLegacy inp' d = (d, Inr r)" using assms(1) again [of r] by (simp add: finish_close_def)
    then show ?thesis using Closed by (simp add: close_run_final)
  qed (use assms(1) in auto)
qed

text \<open>C16: An attempt alone takes at most twelve statements and does what the routine written in one piece does. If
  it is stopped after any number of statements, then either nothing has changed, or closing the same shift again
  with the same credential, by whatever operator and with whatever fresh event id, reason and time, succeeds and
  leaves the database and returns the summary the stopped attempt would have.\<close>

theorem shift_close_resumes:
  assumes "close_run inp k (db, Read_shift) = (d, pc)"
    "sc_shiftId inp' = sc_shiftId inp" "sc_credentialOwnership inp' = sc_credentialOwnership inp"
  shows "close_run inp 12 (db, Read_shift) = as_pc (closeShiftOfflineLegacy inp db)
    \<and> (d = db \<or> (\<exists>r. closeShiftOfflineLegacy inp' d = closeShiftOfflineLegacy inp db
                  \<and> snd (closeShiftOfflineLegacy inp db) = Inr r))"
proof -
  have "alone_ok inp db db Read_shift" by simp
  then have ok: "alone_ok inp db d pc" using close_run_alone assms(1) by blast
  have "close_run inp 12 (d, pc) = close_run inp (k + 12) (db, Read_shift)" using assms(1) by (simp only: close_run_add)
  also have "\<dots> = close_run inp 12 (db, Read_shift)" using close_run_enough [of Read_shift "k + 12" inp db] unfolding statements_left.simps by (simp only: le_add2)
  finally have fin: "close_run inp 12 (d, pc) = as_pc (closeShiftOfflineLegacy inp db)" using run_from_start by simp
  have "as_pc a = as_pc b \<Longrightarrow> a = b" for a b by (cases a; cases b; cases "snd a"; cases "snd b") auto
  then show ?thesis using alone_again [OF ok assms(2,3)] fin run_from_start by metis
qed

text \<open>Closing always ends: whatever the rest of the station does to the database between its statements, an
  attempt has returned a summary or an error after at most twelve of them.\<close>

theorem shift_close_ends:
  assumes "12 \<le> length dbs"
  shows "\<exists>r e. foldl (\<lambda>pc db. snd (close_step inp db pc)) Read_shift dbs \<in> {Closed r, Failed e}"
proof -
  have "statements_left pc \<le> length dbs \<Longrightarrow> statements_left (foldl (\<lambda>pc db. snd (close_step inp db pc)) pc dbs) = 0" for pc
  proof (induction dbs arbitrary: pc)
    case (Cons db dbs)
    have "statements_left (snd (close_step inp db pc)) \<le> length dbs"
      using close_step_decreases [of pc inp db] Cons.prems by (cases pc) auto
    then show ?case using Cons.IH by simp
  qed simp
  then have "statements_left (foldl (\<lambda>pc db. snd (close_step inp db pc)) Read_shift dbs) = 0" using assms by simp
  then show ?thesis by (cases "foldl (\<lambda>pc db. snd (close_step inp db pc)) Read_shift dbs") auto
qed

section \<open>Witnesses\<close>

definition sample_shift_db :: shift_db where
  "sample_shift_db =
     \<lparr>sd_station = empty_db, sd_shifts = [\<lparr>ms_id = lit ''s1'', ms_status = lit ''active'', ms_productId = lit ''p1'', ms_productName = None,
        ms_plannedQty = Some 2, ms_duplicatePrint = False\<rparr>], sd_occurrences = [], sd_jobs = [], sd_closes = []\<rparr>"

definition sample_closing :: close_input where
  "sample_closing = \<lparr>sc_shiftId = lit ''s1'', sc_deviceId = lit ''d1'', sc_operatorId = None,
     sc_reasonCode = Some (lit ''material_shortage''), sc_credentialOwnership = None, sc_eventId = lit ''e1'', sc_closedAt = lit ''t1''\<rparr>"

definition sample_summary :: close_summary where
  "sample_summary = \<lparr>cs_eventId = lit ''e1'', cs_shiftId = lit ''s1'', cs_productId = lit ''p1'', cs_productName = [],
     cs_plannedQty = Some 2, cs_actualQty = 0, cs_closedBoxCount = 0, cs_reasonCode = Some (lit ''material_shortage''),
     cs_closedAt = lit ''t1''\<rparr>"

lemma sample_closing_result:
  "closeShiftOfflineLegacy sample_closing sample_shift_db
   = (set_closed (sample_shift_db\<lparr>sd_closes := [close_row_of sample_closing (hd (sd_shifts sample_shift_db)) 0 0]\<rparr>) (lit ''s1''), Inr sample_summary)"
proof -
  have "isShiftCloseReasonCode (lit ''material_shortage'')" by (simp add: isShiftCloseReasonCode_def SHIFT_CLOSE_REASON_CODES_def)
  moreover have "lit ''material_shortage'' \<noteq> []" "lit ''active'' \<noteq> lit ''closed''" by code_simp+
  ultimately show ?thesis
    by (simp add: closeShiftOfflineLegacy_def sample_closing_def sample_shift_db_def find_shift_def label_guard_def prints_duplicates_def
        loadStoredClose_def processed_count_def closed_box_count_def open_box_count_def empty_db_def check_reason_def
        insert_close_def unresolved_job_def close_row_of_def finish_close_def remove_empty_def removeEmptyOpenBoxes_def
        close_result_def sample_summary_def set_closed_def)
qed

lemma close_attempts_alone:
  "close_attempts db [(inp, pc)] \<Longrightarrow> close_run inp n (db, pc) = (d, c) \<Longrightarrow> close_attempts d [(inp, c)]"
proof (induction n arbitrary: db pc)
  case (Suc n)
  obtain e c' where ec: "close_step inp db pc = (e, c')" by (cases "close_step inp db pc")
  have "close_attempts e [(inp, c')]" using close_attempts.statement [OF Suc.prems(1), of 0 inp pc e c'] ec by simp
  then show ?case using Suc.IH ec Suc.prems(2) by simp
qed simp

theorem shift_closed_once_witness:
  "\<exists>db. close_attempts db [(sample_closing, Closed sample_summary)]
     \<and> (\<exists>row\<in>set (sd_closes db). cl_shiftId row = lit ''s1'' \<and> presentStoredClose row = sample_summary)
     \<and> (\<forall>m\<in>set (sd_shifts db). ms_id m = lit ''s1'' \<longrightarrow> ms_status m = lit ''closed'')"
proof -
  have "close_attempts sample_shift_db ([] @ [(sample_closing, Read_shift)])"
    by (intro close_attempts.attempt close_attempts.start) (simp add: sample_shift_db_def)
  then obtain db where db: "close_attempts db [(sample_closing, Closed sample_summary)]"
    using close_attempts_alone [of sample_shift_db sample_closing Read_shift 12] sample_closing_result by (auto simp: run_from_start)
  have "sc_shiftId sample_closing = lit ''s1''" by (simp add: sample_closing_def)
  then show ?thesis using db shift_closed_once [OF db] by auto
qed

theorem shift_close_resumes_witness:
  "\<exists>d pc. close_run sample_closing 10 (sample_shift_db, Read_shift) = (d, pc)
     \<and> (d = sample_shift_db
        \<or> closeShiftOfflineLegacy (sample_closing\<lparr>sc_eventId := lit ''e2''\<rparr>) d = closeShiftOfflineLegacy sample_closing sample_shift_db)"
proof -
  obtain d pc where dp: "close_run sample_closing 10 (sample_shift_db, Read_shift) = (d, pc)"
    by (cases "close_run sample_closing 10 (sample_shift_db, Read_shift)")
  show ?thesis using dp shift_close_resumes [OF dp, of "sample_closing\<lparr>sc_eventId := lit ''e2''\<rparr>"] by auto
qed

theorem shift_close_ends_witness:
  "\<exists>r e. foldl (\<lambda>pc db. snd (close_step sample_closing db pc)) Read_shift (replicate 12 sample_shift_db) \<in> {Closed r, Failed e}"
  using shift_close_ends [of "replicate 12 sample_shift_db" sample_closing] by simp

end
