(* ===== verification/Kiosk_Cart.thy ===== *)
theory Kiosk_Cart
  imports Scan_Rules
begin

text \<open>
  The cart of the pickup kiosk: \<open>domain-guard/classify.ts\<close>, \<open>session/cart.ts\<close>, \<open>session/day-count.ts\<close>,
  \<open>session/box-resolution.ts\<close> and \<open>screens/money.ts\<close> of \<open>apps/kiosk/src\<close>.

  The bootstrap snapshot and the records read back from IndexedDB are not validated by the app, so a
  field the code tests with \<open>typeof\<close> or \<open>Number.isInteger\<close> is an option whose \<open>None\<close> is a missing value
  or one of another type. Amounts of money are doubles: \<open>js_round\<close> rounds a natural number to the
  nearest one (ties to even), \<open>js_num\<close> the same on integers. \<open>Date.parse\<close> and \<open>toISOString\<close> are arguments.
\<close>

section \<open>Model\<close>

subsection \<open>Numbers\<close>

fun bit_length :: "nat \<Rightarrow> nat" where
  "bit_length n = (if n = 0 then 0 else Suc (bit_length (n div 2)))"

declare bit_length.simps [simp del]

definition js_round :: "nat \<Rightarrow> nat" where
  "js_round n =
     (if n \<le> 2 ^ 53 then n
      else let e = bit_length n - 53; q = n div 2 ^ e; r = n mod 2 ^ e; half = 2 ^ (e - 1)
           in (if half < r \<or> half = r \<and> odd q then q + 1 else q) * 2 ^ e)"

definition js_num :: "int \<Rightarrow> int" where
  "js_num i = sgn i * int (js_round (nat \<bar>i\<bar>))"

lemma js_num_exact: "\<bar>i\<bar> \<le> 2 ^ 53 \<Longrightarrow> js_num i = i"
  by (simp add: js_num_def js_round_def nat_le_iff mult_sgn_abs)

subsection \<open>The bootstrap snapshot and the policy of the day\<close>

record product_image =
  img_checksum :: jstring
  img_byteSize :: int
  img_width :: int
  img_height :: int

text \<open>\<open>image\<close> is absent in the payload of an old server, null after a deletion.\<close>

datatype image_slot = ImageAbsent | ImageNull | Image product_image

record kiosk_product =
  kp_id :: jstring
  kp_gtin14 :: jstring
  kp_name :: jstring
  kp_unitPrice :: "jstring option"
  kp_image :: image_slot

record bootstrap_employee =
  be_id :: jstring
  be_limitMode :: "jstring option"
  be_dayLimit :: "jnum option"
  be_canWriteoff :: "bool option"
  be_takenTodayElsewhere :: "jnum option"

record kiosk_bootstrap =
  kb_limitsEnabled :: "bool option"
  kb_dayLimitPerEmployee :: "jnum option"
  kb_products :: "kiosk_product list"
  kb_employees :: "bootstrap_employee list option"

record pickup_policy =
  pp_limited :: bool
  pp_dayLimit :: int
  pp_canWriteoff :: bool

fun positive_int :: "jnum option \<Rightarrow> bool" where
  "positive_int (Some n) = (is_integer n \<and> 0 < jint n)"
| "positive_int None = False"

definition isCompleteCurrentPickupPolicy ::
    "bool option \<Rightarrow> jstring option \<Rightarrow> jnum option \<Rightarrow> bool option \<Rightarrow> bool" where
  "isCompleteCurrentPickupPolicy limitsEnabled limitMode dayLimit canWriteoff \<longleftrightarrow>
     limitsEnabled \<noteq> None \<and> (limitMode = Some (lit ''limited'') \<or> limitMode = Some (lit ''unlimited''))
     \<and> positive_int dayLimit \<and> canWriteoff \<noteq> None"

definition find_employee :: "kiosk_bootstrap \<Rightarrow> jstring \<Rightarrow> bootstrap_employee option" where
  "find_employee bootstrap employeeId =
     Option.bind (kb_employees bootstrap) (List.find (\<lambda>one. be_id one = employeeId))"

definition effectivePickupPolicy :: "kiosk_bootstrap \<Rightarrow> jstring \<Rightarrow> pickup_policy option" where
  "effectivePickupPolicy bootstrap employeeId =
     (case find_employee bootstrap employeeId of
        None \<Rightarrow> None
      | Some e \<Rightarrow>
          if isCompleteCurrentPickupPolicy (kb_limitsEnabled bootstrap) (be_limitMode e) (be_dayLimit e) (be_canWriteoff e)
          then Some \<lparr>pp_limited = (the (kb_limitsEnabled bootstrap) \<and> be_limitMode e = Some (lit ''limited'')),
                     pp_dayLimit = jint (the (be_dayLimit e)), pp_canWriteoff = the (be_canWriteoff e)\<rparr>
          else Some \<lparr>pp_limited = True,
                     pp_dayLimit = (if positive_int (kb_dayLimitPerEmployee bootstrap)
                                    then jint (the (kb_dayLimitPerEmployee bootstrap)) else 0),
                     pp_canWriteoff = False\<rparr>)"

definition takenTodayElsewhere :: "kiosk_bootstrap option \<Rightarrow> jstring \<Rightarrow> int" where
  "takenTodayElsewhere bootstrap employeeId =
     (case Option.bind (Option.bind bootstrap (\<lambda>b. find_employee b employeeId)) be_takenTodayElsewhere of
        Some n \<Rightarrow> if \<not> is_integer n \<or> jint n < 0 then 0 else jint n
      | None \<Rightarrow> 0)"

subsection \<open>What was taken today\<close>

record create_order =
  co_deviceSeq :: int
  co_badgeDigest :: jstring
  co_reason :: jstring
  co_writeoffReasonId :: "jstring option"
  co_items :: "jstring list option"
  co_boxes :: "jstring list option"
  co_createdAt :: "jstring option"
  co_admissionNonce :: "jstring option"
  co_admissionProof :: "jstring option"

record queued_order =
  qo_deviceSeq :: int
  qo_employeeId :: "jstring option"
  qo_body :: create_order
  qo_pendingAttestation :: bool
  qo_admissionNonce :: "jstring option"
  qo_estimatedBottleCount :: "jnum option"

record box_verdict =
  bv_sscc :: jstring
  bv_bottleCount :: "jnum option"
  bv_reason :: jstring

record kiosk_journal_entry =
  je_at :: jstring
  je_createdAt :: "jstring option"
  je_kioskId :: "jstring option"
  je_deviceSeq :: "int option"
  je_orderNo :: jstring
  je_employeeId :: "jstring option"
  je_acceptedCount :: "jnum option"
  je_conflicts :: "(jstring \<times> jstring) list"
  je_acceptedBoxes :: "(jstring \<times> int) list"
  je_boxConflicts :: "box_verdict list"

record withdrawal =
  wd_deviceSeq :: int
  wd_employeeId :: jstring
  wd_takenAt :: jstring
  wd_items :: int

fun kioskIdOf :: "jstring option \<Rightarrow> jstring option" where
  "kioskIdOf (Some k) = (if k \<noteq> [] then Some k else None)"
| "kioskIdOf None = None"

definition attributedEntry :: "kiosk_journal_entry \<Rightarrow> withdrawal option" where
  "attributedEntry r =
     (case (je_deviceSeq r, je_employeeId r, je_createdAt r, je_acceptedCount r) of
        (Some s, Some emp, Some t, Some n) \<Rightarrow>
          if emp = [] \<or> \<not> is_integer n \<or> jint n < 0 then None
          else Some \<lparr>wd_deviceSeq = s, wd_employeeId = emp, wd_takenAt = t, wd_items = jint n\<rparr>
      | _ \<Rightarrow> None)"

definition estimate_ok :: "jnum option \<Rightarrow> bool" where
  "estimate_ok estimate = (case estimate of Some n \<Rightarrow> is_integer n \<and> 0 \<le> jint n \<and> jint n \<le> 1500 | None \<Rightarrow> False)"

definition attributedOrder :: "queued_order \<Rightarrow> withdrawal option" where
  "attributedOrder r =
     (case (qo_employeeId r, co_items (qo_body r), co_createdAt (qo_body r)) of
        (Some emp, Some items, Some t) \<Rightarrow>
          if emp = [] then None
          else Some \<lparr>wd_deviceSeq = qo_deviceSeq r, wd_employeeId = emp, wd_takenAt = t,
                     wd_items = (if estimate_ok (qo_estimatedBottleCount r) then jint (the (qo_estimatedBottleCount r))
                                 else int (length items))\<rparr>
      | _ \<Rightarrow> None)"

definition utcDayOf :: "(int \<Rightarrow> jstring) \<Rightarrow> int \<Rightarrow> jstring" where
  "utcDayOf toISOString ms = take 10 (toISOString ms)"

definition utcDayOfStamp :: "(jstring \<Rightarrow> int option) \<Rightarrow> (int \<Rightarrow> jstring) \<Rightarrow> jstring \<Rightarrow> jstring option" where
  "utcDayOfStamp date_parse toISOString stamp = map_option (utcDayOf toISOString) (date_parse stamp)"

text \<open>One iteration of either loop of \<open>countTakenToday\<close>: the record counts if it is attributed to the
  employee and the day, and only the first record of an order counts.\<close>

definition count_withdrawal ::
    "(jstring \<Rightarrow> jstring option) \<Rightarrow> jstring \<Rightarrow> jstring \<Rightarrow> withdrawal option \<Rightarrow> (int \<times> int) list \<Rightarrow> (int \<times> int) list" where
  "count_withdrawal day_of employeeId today taken perOrder =
     (case taken of
        None \<Rightarrow> perOrder
      | Some w \<Rightarrow>
          if wd_employeeId w \<noteq> employeeId \<or> day_of (wd_takenAt w) \<noteq> Some today then perOrder
          else if map_of perOrder (wd_deviceSeq w) \<noteq> None then perOrder
          else perOrder @ [(wd_deviceSeq w, wd_items w)])"

definition countTakenToday ::
    "(jstring \<Rightarrow> jstring option) \<Rightarrow> jstring \<Rightarrow> jstring \<Rightarrow> jstring option \<Rightarrow> kiosk_journal_entry list \<Rightarrow> queued_order list \<Rightarrow> int" where
  "countTakenToday day_of employeeId today boundKioskId journal queued =
     (let count = (\<lambda>perOrder w. count_withdrawal day_of employeeId today w perOrder);
          perOrder = foldl (\<lambda>m e. if kioskIdOf (je_kioskId e) \<noteq> boundKioskId then m else count m (attributedEntry e)) [] journal;
          perOrder = foldl (\<lambda>m q. count m (attributedOrder q)) perOrder queued
      in sum_list (map snd perOrder))"

subsection \<open>Scans at the kiosk\<close>

datatype kiosk_scan =
    KBadge jstring
  | KKm (ks_rawKm: jstring) (ks_gtin14: jstring) (ks_serial: jstring) (ks_kmKey: jstring)
  | KSscc jstring | KIncomplete jstring | KUnknown jstring

definition classifyKioskScan :: "jstring \<Rightarrow> kiosk_scan" where
  "classifyKioskScan raw =
     (case validatePickupKm raw None of
        PickupOk km key \<Rightarrow> KKm raw (km_gtin14 km) (km_serial km) key
      | PickupIncomplete _ \<Rightarrow> KIncomplete raw
      | PickupNotKm _ \<Rightarrow>
          if length (js_trim raw) = 0 then KUnknown raw
          else (case classifyScan raw of
                  ScanSscc sscc \<Rightarrow> KSscc sscc
                | ScanGtin _ \<Rightarrow> KUnknown raw
                | _ \<Rightarrow> KBadge raw))"

subsection \<open>Cart lines\<close>

record loose_line =
  ll_rawKm :: jstring
  ll_kmKey :: jstring
  ll_gtin14 :: jstring
  ll_serial :: jstring
  ll_productId :: jstring
  ll_name :: jstring
  ll_unitPrice :: "jstring option"
  ll_image :: image_slot

record box_line =
  bl_boxId :: jstring
  bl_sscc :: jstring
  bl_productId :: jstring
  bl_name :: jstring
  bl_bottleCount :: int
  bl_unitPrice :: "jstring option"
  bl_contentKeys :: "jstring list"
  bl_registryVersion :: jstring

datatype cart_line = Loose loose_line | Box box_line

fun line_bottles :: "cart_line \<Rightarrow> int" where
  "line_bottles (Loose _) = 1"
| "line_bottles (Box b) = bl_bottleCount b"

fun line_price :: "cart_line \<Rightarrow> jstring option" where
  "line_price (Loose l) = ll_unitPrice l"
| "line_price (Box b) = bl_unitPrice b"

datatype pickup_reason = Buy | Writeoff

datatype cart_notice =
    Notice_duplicate | Notice_duplicate_box | Notice_duplicate_sscc
  | Notice_limit int int
  | Notice_unknown_product | Notice_unknown_box | Notice_registry_unavailable | Notice_registry_blocked
  | Notice_incomplete | Notice_not_a_code

record cart_state =
  ca_lines :: "cart_line list"
  ca_reason :: pickup_reason
  ca_writeoffReasonId :: "jstring option"
  ca_notice :: "cart_notice option"

datatype cart_action =
    CartScan kiosk_scan | CartScanBox box_line | CartBoxRejected cart_notice | CartRemove jstring
  | CartRemoveBox jstring | CartReason pickup_reason | CartWriteoffReason jstring | CartDismissNotice | CartReset

record cart_context =
  cc_bootstrap :: kiosk_bootstrap
  cc_employeeId :: jstring
  cc_alreadyTakenToday :: int

definition DENY_ALL_POLICY :: pickup_policy where
  "DENY_ALL_POLICY = \<lparr>pp_limited = True, pp_dayLimit = 0, pp_canWriteoff = False\<rparr>"

definition cartPickupPolicy :: "cart_context \<Rightarrow> pickup_policy" where
  "cartPickupPolicy ctx =
     (case effectivePickupPolicy (cc_bootstrap ctx) (cc_employeeId ctx) of Some p \<Rightarrow> p | None \<Rightarrow> DENY_ALL_POLICY)"

definition initialCartState :: cart_state where
  "initialCartState = \<lparr>ca_lines = [], ca_reason = Buy, ca_writeoffReasonId = None, ca_notice = None\<rparr>"

definition bottleCount :: "cart_state \<Rightarrow> int" where
  "bottleCount state = sum_list (map line_bottles (ca_lines state))"

definition looseLines :: "cart_state \<Rightarrow> loose_line list" where
  "looseLines state = concat (map (\<lambda>l. case l of Loose x \<Rightarrow> [x] | Box _ \<Rightarrow> []) (ca_lines state))"

definition boxLines :: "cart_state \<Rightarrow> box_line list" where
  "boxLines state = concat (map (\<lambda>l. case l of Box x \<Rightarrow> [x] | Loose _ \<Rightarrow> []) (ca_lines state))"

definition remainingToday :: "cart_state \<Rightarrow> cart_context \<Rightarrow> int option" where
  "remainingToday state ctx =
     (let policy = cartPickupPolicy ctx
      in if \<not> pp_limited policy then None
         else Some (max 0 (pp_dayLimit policy - cc_alreadyTakenToday ctx - bottleCount state)))"

fun line_keys :: "cart_line \<Rightarrow> jstring set" where
  "line_keys (Loose l) = {ll_kmKey l}"
| "line_keys (Box b) = set (bl_contentKeys b)"

definition contentKeys :: "cart_line list \<Rightarrow> jstring set" where
  "contentKeys lines = (\<Union>l \<in> set lines. line_keys l)"

definition below_limit :: "int option \<Rightarrow> int \<Rightarrow> bool" where
  "below_limit remaining n = (case remaining of None \<Rightarrow> False | Some r \<Rightarrow> r < n)"

subsection \<open>The reducer\<close>

definition applyScan :: "cart_state \<Rightarrow> kiosk_scan \<Rightarrow> cart_context \<Rightarrow> cart_state" where
  "applyScan state scan ctx =
     (case scan of
        KIncomplete _ \<Rightarrow> state\<lparr>ca_notice := Some Notice_incomplete\<rparr>
      | KUnknown _ \<Rightarrow> state\<lparr>ca_notice := Some Notice_not_a_code\<rparr>
      | KKm rawKm gtin14 serial key \<Rightarrow>
          (case List.find (\<lambda>p. kp_gtin14 p = gtin14) (kb_products (cc_bootstrap ctx)) of
             None \<Rightarrow> state\<lparr>ca_notice := Some Notice_unknown_product\<rparr>
           | Some product \<Rightarrow>
               if key \<in> contentKeys (ca_lines state) then state\<lparr>ca_notice := Some Notice_duplicate\<rparr>
               else if below_limit (remainingToday state ctx) 1
               then state\<lparr>ca_notice := Some (Notice_limit 1 (the (remainingToday state ctx)))\<rparr>
               else state\<lparr>ca_lines := ca_lines state @ [Loose \<lparr>ll_rawKm = rawKm, ll_kmKey = key, ll_gtin14 = gtin14,
                      ll_serial = serial, ll_productId = kp_id product, ll_name = kp_name product,
                      ll_unitPrice = kp_unitPrice product, ll_image = kp_image product\<rparr>], ca_notice := None\<rparr>)
      | _ \<Rightarrow> state)"

definition applyBox :: "cart_state \<Rightarrow> box_line \<Rightarrow> cart_context \<Rightarrow> cart_state" where
  "applyBox state box ctx =
     (if list_ex (\<lambda>l. case l of Box b \<Rightarrow> bl_sscc b = bl_sscc box | Loose _ \<Rightarrow> False) (ca_lines state)
      then state\<lparr>ca_notice := Some Notice_duplicate_sscc\<rparr>
      else if list_ex (\<lambda>key. key \<in> contentKeys (ca_lines state)) (bl_contentKeys box)
      then state\<lparr>ca_notice := Some Notice_duplicate_box\<rparr>
      else if below_limit (remainingToday state ctx) (bl_bottleCount box)
      then state\<lparr>ca_notice := Some (Notice_limit (bl_bottleCount box) (the (remainingToday state ctx)))\<rparr>
      else state\<lparr>ca_lines := ca_lines state @ [Box box], ca_notice := None\<rparr>)"

fun keeps_km :: "jstring \<Rightarrow> cart_line \<Rightarrow> bool" where
  "keeps_km key (Loose l) = (ll_kmKey l \<noteq> key)"
| "keeps_km key (Box _) = True"

fun keeps_box :: "jstring \<Rightarrow> cart_line \<Rightarrow> bool" where
  "keeps_box sscc (Box b) = (bl_sscc b \<noteq> sscc)"
| "keeps_box sscc (Loose _) = True"

fun cartReducer :: "cart_state \<Rightarrow> cart_action \<Rightarrow> cart_context \<Rightarrow> cart_state" where
  "cartReducer state (CartScan scan) ctx = applyScan state scan ctx"
| "cartReducer state (CartScanBox box) ctx = applyBox state box ctx"
| "cartReducer state (CartBoxRejected kind) ctx = state\<lparr>ca_notice := Some kind\<rparr>"
| "cartReducer state (CartRemove key) ctx = state\<lparr>ca_lines := filter (keeps_km key) (ca_lines state), ca_notice := None\<rparr>"
| "cartReducer state (CartRemoveBox sscc) ctx = state\<lparr>ca_lines := filter (keeps_box sscc) (ca_lines state), ca_notice := None\<rparr>"
| "cartReducer state (CartReason reason) ctx =
     (if reason = Writeoff \<and> \<not> pp_canWriteoff (cartPickupPolicy ctx) then state
      else state\<lparr>ca_reason := reason,
                 ca_writeoffReasonId := (if reason = Buy then None else ca_writeoffReasonId state)\<rparr>)"
| "cartReducer state (CartWriteoffReason i) ctx =
     (if pp_canWriteoff (cartPickupPolicy ctx) then state\<lparr>ca_writeoffReasonId := Some i\<rparr> else state)"
| "cartReducer state CartDismissNotice ctx = state\<lparr>ca_notice := None\<rparr>"
| "cartReducer state CartReset ctx = initialCartState"

definition canSubmit :: "cart_state \<Rightarrow> cart_context \<Rightarrow> bool" where
  "canSubmit state ctx \<longleftrightarrow>
     ca_lines state \<noteq> [] \<and>
     (ca_reason state = Writeoff \<longrightarrow> pp_canWriteoff (cartPickupPolicy ctx) \<and> ca_writeoffReasonId state \<noteq> None)"

subsection \<open>Boxes\<close>

record registry_row =
  rr_boxId :: jstring
  rr_sscc :: jstring
  rr_productId :: jstring
  rr_bottleCount :: int
  rr_contentKeys :: "jstring list"
  rr_version :: jstring

datatype cache_age = Fresh | Warn | Blocked

text \<open>The registry has been read when \<open>hasMeta\<close> holds; \<open>rows\<close> is its active cut, keyed by SSCC.\<close>

definition resolveBoxScan ::
    "jstring \<Rightarrow> kiosk_bootstrap \<Rightarrow> cache_age \<Rightarrow> bool \<Rightarrow> registry_row list \<Rightarrow> cart_notice + box_line" where
  "resolveBoxScan sscc bootstrap registryAge hasMeta rows =
     (if \<not> hasMeta then Inl Notice_registry_unavailable
      else if registryAge = Blocked then Inl Notice_registry_blocked
      else case List.find (\<lambda>r. rr_sscc r = sscc) rows of
        None \<Rightarrow> Inl Notice_unknown_box
      | Some row \<Rightarrow>
          (case List.find (\<lambda>p. kp_id p = rr_productId row) (kb_products bootstrap) of
             None \<Rightarrow> Inl Notice_unknown_box
           | Some product \<Rightarrow>
               Inr \<lparr>bl_boxId = rr_boxId row, bl_sscc = rr_sscc row, bl_productId = rr_productId row,
                    bl_name = kp_name product, bl_bottleCount = rr_bottleCount row, bl_unitPrice = kp_unitPrice product,
                    bl_contentKeys = rr_contentKeys row, bl_registryVersion = rr_version row\<rparr>))"

subsection \<open>Money\<close>

definition unsigned_parts :: "bool \<Rightarrow> jstring \<Rightarrow> (bool \<times> jstring \<times> jstring) option" where
  "unsigned_parts neg u =
     (let whole = takeWhile is_digit u
      in if whole = [] then None
         else case dropWhile is_digit u of
           [] \<Rightarrow> Some (neg, whole, [])
         | c # digits \<Rightarrow> if c = 46 \<and> all_digits digits then Some (neg, whole, digits) else None)"

definition decimal_parts :: "jstring \<Rightarrow> (bool \<times> jstring \<times> jstring) option" where
  "decimal_parts v = (if starts_with v [45] then unsigned_parts True (drop 1 v) else unsigned_parts False v)"

definition pad_end :: "nat \<Rightarrow> nat \<Rightarrow> jstring \<Rightarrow> jstring" where
  "pad_end n c s = s @ replicate (n - length s) c"

definition kopecks_of :: "jstring \<Rightarrow> jstring \<Rightarrow> nat" where
  "kopecks_of whole digits =
     (let kopecks = js_round (js_round (js_round (num whole) * 100) + num (pad_end 2 48 (slice 0 2 digits)))
      in if 2 < length digits \<and> 5 \<le> num [digits ! 2] then js_round (kopecks + 1) else kopecks)"

definition toKopecks :: "jstring \<Rightarrow> int option" where
  "toKopecks value =
     map_option (\<lambda>(neg, whole, digits). (if neg then -1 else 1) * int (kopecks_of whole digits)) (decimal_parts (js_trim value))"

fun total_from :: "int \<Rightarrow> cart_line list \<Rightarrow> int option" where
  "total_from acc [] = Some acc"
| "total_from acc (item # items) =
     (case Option.bind (line_price item) toKopecks of
        None \<Rightarrow> None
      | Some kopecks \<Rightarrow> total_from (js_num (acc + js_num (kopecks * line_bottles item))) items)"

definition totalKopecks :: "cart_line list \<Rightarrow> int option" where
  "totalKopecks items = total_from 0 items"

section \<open>Lemmas: amounts\<close>

lemma num_append: "num (s @ t) = num s * 10 ^ length t + num t"
proof (induction t rule: rev_induct)
  case (snoc c t)
  then show ?case by (simp only: append.assoc [symmetric] num_snoc) (simp add: algebra_simps)
qed simp

lemma js_round_exact: "n \<le> 2 ^ 53 \<Longrightarrow> js_round n = n"
  by (simp add: js_round_def)

lemma digit_unit_not_ws: "is_digit c \<Longrightarrow> \<not> js_ws c"
  by (auto simp: is_digit_def js_ws_def)

definition decimal_text :: "bool \<Rightarrow> jstring \<Rightarrow> jstring \<Rightarrow> jstring" where
  "decimal_text neg whole digits = (if neg then [45] else []) @ whole @ (if digits = [] then [] else 46 # digits)"

lemma unsigned_parts_text:
  assumes "all_digits whole" "list_all is_digit digits"
  shows "unsigned_parts neg (whole @ (if digits = [] then [] else 46 # digits)) = Some (neg, whole, digits)"
proof -
  have d: "\<And>x. x \<in> set whole \<Longrightarrow> is_digit x" and ne: "whole \<noteq> []"
    using assms(1) by (auto simp: all_digits_def list_all_iff)
  have "\<not> is_digit 46" by (simp add: is_digit_def)
  then have "takeWhile is_digit (whole @ (if digits = [] then [] else 46 # digits)) = whole"
    "dropWhile is_digit (whole @ (if digits = [] then [] else 46 # digits)) = (if digits = [] then [] else 46 # digits)"
    using d by (simp_all add: takeWhile_append2 dropWhile_append2)
  then show ?thesis using ne assms(2) by (simp add: unsigned_parts_def all_digits_def)
qed

lemma decimal_parts_text:
  assumes "all_digits whole" "list_all is_digit digits"
  shows "decimal_parts (decimal_text neg whole digits) = Some (neg, whole, digits)"
proof (cases neg)
  case True
  then show ?thesis using unsigned_parts_text [OF assms, of True]
    by (simp add: decimal_parts_def decimal_text_def starts_with_def)
next
  case False
  have "\<not> starts_with (whole @ t) [45]" for t
    using assms(1) by (cases whole) (auto simp: all_digits_def starts_with_def is_digit_def)
  then show ?thesis using False unsigned_parts_text [OF assms, of False]
    by (simp add: decimal_parts_def decimal_text_def)
qed

lemma decimal_text_trim:
  assumes "all_digits whole" "list_all is_digit digits" "list_all js_ws a" "list_all js_ws b"
  shows "js_trim (a @ decimal_text neg whole digits @ b) = decimal_text neg whole digits"
proof (rule js_trim_fixed [OF _ _ _ assms(3,4)])
  have w: "whole \<noteq> []" "is_digit (hd whole)" "is_digit (last whole)"
    using assms(1) by (auto simp: all_digits_def list_all_iff)
  have "\<not> js_ws 45" by (simp add: js_ws_def)
  moreover have "digits \<noteq> [] \<Longrightarrow> is_digit (last digits)" using assms(2) by (simp add: list_all_iff)
  ultimately show "decimal_text neg whole digits \<noteq> []" "\<not> js_ws (hd (decimal_text neg whole digits))"
    "\<not> js_ws (last (decimal_text neg whole digits))"
    using w by (auto simp: decimal_text_def digit_unit_not_ws)
qed

lemma half_up_digit:
  assumes "P > 0" "r < P" "c \<le> (9::nat)"
  shows "(200 * ((m * 10 + c) * P + r) + 1000 * P) div (2000 * P) = (m + (if 5 \<le> c then 1 else 0) :: nat)"
proof (rule div_nat_eqI)
  define q where "q = c * P"
  define k where "k = m * P"
  have q: "q \<le> 9 * P" "5 \<le> c \<Longrightarrow> 5 * P \<le> q" "\<not> 5 \<le> c \<Longrightarrow> q \<le> 4 * P" using assms(3) by (simp_all add: q_def)
  have e: "200 * ((m * 10 + c) * P + r) + 1000 * P = 2000 * k + 200 * q + 200 * r + 1000 * P"
    "(2000 * P) * (m + (if 5 \<le> c then 1 else 0)) = 2000 * k + (if 5 \<le> c then 2000 * P else 0)"
    "(2000 * P) * Suc (m + (if 5 \<le> c then 1 else 0)) = 2000 * k + (if 5 \<le> c then 4000 * P else 2000 * P)"
    by (simp_all add: q_def k_def algebra_simps)
  show "(2000 * P) * (m + (if 5 \<le> c then 1 else 0)) \<le> 200 * ((m * 10 + c) * P + r) + 1000 * P"
    unfolding e using q by (cases "5 \<le> c") auto
  show "200 * ((m * 10 + c) * P + r) + 1000 * P < (2000 * P) * Suc (m + (if 5 \<le> c then 1 else 0))"
    unfolding e using q assms(1,2) by (cases "5 \<le> c") auto
qed

text \<open>A price is read exactly: for any decimal text, with any number of fraction digits, with or without a
  sign and with white space around it, \<open>toKopecks\<close> gives the amount times a hundred rounded half away
  from zero, with no drift of binary fractions, as long as the amount in kopecks is below 2^53.\<close>

theorem toKopecks_rounds:
  assumes whole: "all_digits whole" and digits: "list_all is_digit digits"
    and ws: "list_all js_ws a" "list_all js_ws b" and small: "num whole * 100 + 100 \<le> 2 ^ 53"
  shows "toKopecks (a @ decimal_text neg whole digits @ b)
    = Some ((if neg then -1 else 1) * int ((200 * num (whole @ digits) + 10 ^ length digits) div (2 * 10 ^ length digits)))"
proof -
  let ?ab = "pad_end 2 48 (slice 0 2 digits)"
  have ab: "num ?ab \<le> 99"
  proof -
    have "list_all is_digit ?ab" using digits by (auto simp: pad_end_def slice_def list_all_iff is_digit_def dest: in_set_takeD)
    from num_bound [OF this] show ?thesis by (auto simp: pad_end_def slice_def min_def split: if_splits)
  qed
  have exact: "js_round (js_round (js_round (num whole) * 100) + num ?ab) = num whole * 100 + num ?ab"
    "js_round (num whole * 100 + num ?ab + 1) = num whole * 100 + num ?ab + 1"
    using small ab by (simp_all add: js_round_exact)
  have "kopecks_of whole digits = (200 * num (whole @ digits) + 10 ^ length digits) div (2 * 10 ^ length digits)"
  proof (cases "2 < length digits")
    case True
    then obtain x y c rest where d: "digits = [x, y, c] @ rest"
      by (cases digits; cases "tl digits"; cases "tl (tl digits)") auto
    then have c: "c - 48 \<le> 9" "num rest < 10 ^ length rest" using digits num_bound [of rest] by (auto simp: is_digit_def)
    have n: "num (whole @ digits) = ((num whole * 100 + num [x, y]) * 10 + num [c]) * 10 ^ length rest + num rest"
      unfolding d by (simp only: num_append append.assoc [symmetric]) (simp add: num_def algebra_simps)
    have p: "10 ^ length digits = 1000 * (10 ^ length rest :: nat)" unfolding d by simp
    show ?thesis using half_up_digit [OF _ c(2) c(1), of "num whole * 100 + num [x, y]"] exact True d
      unfolding n p by (simp add: kopecks_of_def Let_def pad_end_def slice_def num_def)
  next
    case False
    then consider "digits = []" | x where "digits = [x]" | x y where "digits = [x, y]"
      by (cases digits; cases "tl digits"; cases "tl (tl digits)") auto
    then show ?thesis
    proof cases
      case 1
      moreover have "num (replicate 2 48) = 0" using num_replicate0 [of 2 "[]"] by simp
      ultimately show ?thesis using exact by (simp add: kopecks_of_def Let_def pad_end_def slice_def)
    next
      case 2
      then show ?thesis using exact False by (simp add: kopecks_of_def Let_def pad_end_def slice_def num_append) (simp add: num_def)
    next
      case 3
      then show ?thesis using exact False by (simp add: kopecks_of_def Let_def pad_end_def slice_def num_append)
    qed
  qed
  then show ?thesis by (simp add: toKopecks_def decimal_text_trim [OF whole digits ws] decimal_parts_text [OF whole digits])
qed


text \<open>The price list's text 1.005 is 101 kopecks, not 100.\<close>

theorem toKopecks_rounds_witness:
  "toKopecks (lit '' 1.005'') = Some 101 \<and> toKopecks (lit ''-89.9'') = Some (-8990)"
proof -
  have "all_digits (lit ''1'')" "list_all is_digit (lit ''005'')" "list_all js_ws (lit '' '')" "list_all js_ws []"
    "all_digits (lit ''89'')" "list_all is_digit (lit ''9'')" "num (lit ''1'') * 100 + 100 \<le> 2 ^ 53" "num (lit ''89'') * 100 + 100 \<le> 2 ^ 53"
    by (simp_all add: lit_def all_digits_def is_digit_def js_ws_def num_def)
  note a = toKopecks_rounds [OF this(1-4) this(7), of False] and b = toKopecks_rounds [OF this(5,6,4,4) this(8), of True]
  have "lit '' '' @ decimal_text False (lit ''1'') (lit ''005'') @ [] = lit '' 1.005''"
    "[] @ decimal_text True (lit ''89'') (lit ''9'') @ [] = lit ''-89.9''" by (simp_all add: lit_def decimal_text_def)
  moreover have "(200 * num (lit ''1'' @ lit ''005'') + 10 ^ length (lit ''005'')) div (2 * 10 ^ length (lit ''005'')) = 101"
    "(200 * num (lit ''89'' @ lit ''9'') + 10 ^ length (lit ''9'')) div (2 * 10 ^ length (lit ''9'')) = 8990" by (simp_all add: lit_def num_def)
  ultimately show ?thesis using a b by simp
qed

section \<open>Lemmas: the cart\<close>

definition disjoint_lines :: "cart_line list \<Rightarrow> bool" where
  "disjoint_lines ls \<longleftrightarrow> sorted_wrt (\<lambda>l m. line_keys l \<inter> line_keys m = {}) ls"

definition boxes_in :: "cart_line list \<Rightarrow> box_line list" where
  "boxes_in ls = concat (map (\<lambda>l. case l of Box x \<Rightarrow> [x] | Loose _ \<Rightarrow> []) ls)"

lemma boxes_in_simps [simp]:
  "boxes_in [] = []" "boxes_in (Box b # ls) = b # boxes_in ls" "boxes_in (Loose l # ls) = boxes_in ls"
  "boxes_in (xs @ ys) = boxes_in xs @ boxes_in ys"
  by (simp_all add: boxes_in_def)

lemma boxLines_eq: "boxLines state = boxes_in (ca_lines state)"
  by (simp add: boxLines_def boxes_in_def)

lemma in_boxes_in: "b \<in> set (boxes_in ls) \<longleftrightarrow> Box b \<in> set ls"
proof (induction ls)
  case (Cons l ls)
  then show ?case by (cases l) auto
qed simp

lemma distinct_boxes_filter: "distinct (map bl_sscc (boxes_in ls)) \<Longrightarrow> distinct (map bl_sscc (boxes_in (filter P ls)))"
proof (induction ls)
  case (Cons l ls)
  then show ?case by (cases l) (auto simp: in_boxes_in)
qed simp

definition cart_inv :: "cart_state \<Rightarrow> bool" where
  "cart_inv state \<longleftrightarrow> disjoint_lines (ca_lines state) \<and> distinct (map bl_sscc (boxes_in (ca_lines state)))"

lemma cart_inv_lines: "ca_lines s = ca_lines t \<Longrightarrow> cart_inv s = cart_inv t"
  by (simp add: cart_inv_def)

lemma cart_inv_filter: "cart_inv s \<Longrightarrow> ca_lines t = filter P (ca_lines s) \<Longrightarrow> cart_inv t"
  by (simp add: cart_inv_def disjoint_lines_def sorted_wrt_filter distinct_boxes_filter)

lemma cart_inv_snoc:
  assumes "cart_inv s" "ca_lines t = ca_lines s @ [l]" "contentKeys (ca_lines s) \<inter> line_keys l = {}"
    "\<forall>b. l = Box b \<longrightarrow> bl_sscc b \<notin> bl_sscc ` set (boxes_in (ca_lines s))"
  shows "cart_inv t"
  using assms by (cases l) (auto simp: cart_inv_def disjoint_lines_def sorted_wrt_append contentKeys_def)

text \<open>What a scan and a box can do to the lines: nothing, or append one line that was not refused.\<close>

lemma applyScan_lines:
  obtains "ca_lines (applyScan s scan ctx) = ca_lines s"
  | l where "ca_lines (applyScan s scan ctx) = ca_lines s @ [Loose l]" "ll_kmKey l \<notin> contentKeys (ca_lines s)"
      "\<not> below_limit (remainingToday s ctx) 1"
proof (cases scan)
  case (KKm raw g n key)
  show ?thesis
  proof (cases "List.find (\<lambda>p. kp_gtin14 p = g) (kb_products (cc_bootstrap ctx)) = None
      \<or> key \<in> contentKeys (ca_lines s) \<or> below_limit (remainingToday s ctx) 1")
    case True
    then show ?thesis using KKm by (intro that(1)) (auto simp: applyScan_def split: option.splits)
  next
    case False
    then show ?thesis using KKm by (auto simp: applyScan_def intro: that(2))
  qed
qed (auto simp: applyScan_def intro: that(1))

lemma applyBox_lines:
  obtains "ca_lines (applyBox s box ctx) = ca_lines s"
  | "ca_lines (applyBox s box ctx) = ca_lines s @ [Box box]" "contentKeys (ca_lines s) \<inter> set (bl_contentKeys box) = {}"
      "bl_sscc box \<notin> bl_sscc ` set (boxes_in (ca_lines s))" "\<not> below_limit (remainingToday s ctx) (bl_bottleCount box)"
proof (cases "ca_lines (applyBox s box ctx) = ca_lines s")
  case False
  have "bl_sscc box \<notin> bl_sscc ` set (boxes_in (ca_lines s))"
    if "\<not> list_ex (\<lambda>l. case l of Box b \<Rightarrow> bl_sscc b = bl_sscc box | Loose _ \<Rightarrow> False) (ca_lines s)"
    using that by (fastforce simp: list_ex_iff in_boxes_in split: cart_line.splits)
  then show ?thesis using False that(2) by (auto simp: applyBox_def list_ex_iff split: if_splits)
qed (rule that(1))

lemma cartReducer_inv:
  assumes "cart_inv s"
  shows "cart_inv (cartReducer s a ctx)"
proof (cases a)
  case (CartScan scan)
  show ?thesis
  proof (cases rule: applyScan_lines [of s scan ctx])
    case 1
    then show ?thesis using assms CartScan by (simp add: cart_inv_def)
  next
    case (2 l)
    then show ?thesis using cart_inv_snoc [OF assms 2(1)] CartScan by simp
  qed
next
  case (CartScanBox box)
  show ?thesis
  proof (cases rule: applyBox_lines [of s box ctx])
    case 1
    then show ?thesis using assms CartScanBox by (simp add: cart_inv_def)
  next
    case 2
    then show ?thesis using cart_inv_snoc [OF assms 2(1)] CartScanBox by simp
  qed
next
  case (CartRemove key)
  then show ?thesis using cart_inv_filter [OF assms] by simp
next
  case (CartRemoveBox sscc)
  then show ?thesis using cart_inv_filter [OF assms] by simp
qed (use assms in \<open>auto simp: cart_inv_def initialCartState_def disjoint_lines_def\<close>)


definition cart_run :: "(cart_action \<times> cart_context) list \<Rightarrow> cart_state" where
  "cart_run acts = foldl (\<lambda>s (a, ctx). cartReducer s a ctx) initialCartState acts"

lemma cart_run_snoc [simp]: "cart_run (acts @ [(a, ctx)]) = cartReducer (cart_run acts) a ctx"
  by (simp add: cart_run_def)

lemma cart_run_inv: "cart_inv (cart_run acts)"
proof (induction acts rule: rev_induct)
  case Nil
  then show ?case by (simp add: cart_run_def initialCartState_def cart_inv_def disjoint_lines_def)
next
  case (snoc x acts)
  then show ?case by (cases x) (simp add: cartReducer_inv)
qed

lemma loose_distinct: "disjoint_lines (ca_lines s) \<Longrightarrow> distinct (map ll_kmKey (looseLines s))"
proof -
  have "ll_kmKey x \<in> (\<Union>l \<in> set ls. line_keys l)" if "x \<in> set (concat (map (\<lambda>l. case l of Loose x \<Rightarrow> [x] | Box _ \<Rightarrow> []) ls))" for x ls
    using that by (fastforce split: cart_line.splits)
  then have "disjoint_lines ls \<Longrightarrow> distinct (map ll_kmKey (concat (map (\<lambda>l. case l of Loose x \<Rightarrow> [x] | Box _ \<Rightarrow> []) ls)))" for ls
  proof (induction ls)
    case (Cons l ls)
    then show ?case by (cases l) (fastforce simp: disjoint_lines_def)+
  qed simp
  then show "disjoint_lines (ca_lines s) \<Longrightarrow> distinct (map ll_kmKey (looseLines s))" by (simp add: looseLines_def)
qed

text \<open>C19: One bottle is in a cart once: after any sequence of scans, boxes, removals and resets, under any
  snapshots of the product list and the policy, no two lines of the cart share a marking code, so a
  loose bottle is not also counted through the box that holds it, and no box and no loose code is
  listed twice.\<close>

theorem cart_units_once:
  "sorted_wrt (\<lambda>l m. line_keys l \<inter> line_keys m = {}) (ca_lines (cart_run acts))
   \<and> distinct (map bl_sscc (boxLines (cart_run acts))) \<and> distinct (map ll_kmKey (looseLines (cart_run acts)))"
  using cart_run_inv [of acts] loose_distinct [of "cart_run acts"]
  by (simp add: cart_inv_def boxLines_eq disjoint_lines_def)

section \<open>Lemmas: the day limit\<close>

definition sane_action :: "cart_action \<Rightarrow> bool" where
  "sane_action a = (case a of CartScanBox b \<Rightarrow> 0 \<le> bl_bottleCount b | _ \<Rightarrow> True)"

definition allowance :: "cart_context \<Rightarrow> int" where
  "allowance ctx = max 0 (pp_dayLimit (cartPickupPolicy ctx) - cc_alreadyTakenToday ctx)"

definition limit_inv :: "int \<Rightarrow> cart_state \<Rightarrow> bool" where
  "limit_inv M s \<longleftrightarrow> bottleCount s \<le> M \<and> list_all (\<lambda>l. 0 \<le> line_bottles l) (ca_lines s)"

lemma filter_bottles:
  "list_all (\<lambda>l. 0 \<le> line_bottles l) ls \<Longrightarrow> sum_list (map line_bottles (filter P ls)) \<le> sum_list (map line_bottles ls)"
  by (induction ls) auto

lemma not_below_limit:
  assumes "pp_limited (cartPickupPolicy ctx)" "\<not> below_limit (remainingToday s ctx) n" "bottleCount s \<le> M" "allowance ctx \<le> M" "0 \<le> n"
  shows "bottleCount s + n \<le> M"
  using assms by (auto simp: below_limit_def remainingToday_def allowance_def Let_def split: if_splits)

lemma limit_inv_snoc:
  assumes "limit_inv M s" "pp_limited (cartPickupPolicy ctx)" "allowance ctx \<le> M" "ca_lines t = ca_lines s @ [l]" "0 \<le> line_bottles l"
    "\<not> below_limit (remainingToday s ctx) (line_bottles l)"
  shows "limit_inv M t"
  using not_below_limit [OF assms(2,6) _ assms(3,5)] assms(1,4,5) by (simp add: limit_inv_def bottleCount_def)

lemma limit_inv_lines: "ca_lines t = ca_lines s \<Longrightarrow> limit_inv M s \<Longrightarrow> limit_inv M t"
  by (simp add: limit_inv_def bottleCount_def)

lemma limit_inv_filter: "ca_lines t = filter P (ca_lines s) \<Longrightarrow> limit_inv M s \<Longrightarrow> limit_inv M t"
  using filter_bottles [of "ca_lines s" P] by (auto simp: limit_inv_def bottleCount_def list_all_iff)

lemma limit_inv_empty: "ca_lines s = [] \<Longrightarrow> 0 \<le> M \<Longrightarrow> limit_inv M s"
  by (simp add: limit_inv_def bottleCount_def)

lemma initial_lines [simp]: "ca_lines initialCartState = []"
  by (simp add: initialCartState_def)

lemma cartReducer_limit:
  assumes "limit_inv M s" "pp_limited (cartPickupPolicy ctx)" "allowance ctx \<le> M" "sane_action a"
  shows "limit_inv M (cartReducer s a ctx)"
proof (cases a)
  case (CartScan scan)
  then show ?thesis using assms(1) limit_inv_snoc [OF assms(1-3)] limit_inv_lines
    by (cases rule: applyScan_lines [of s scan ctx]) auto
next
  case (CartScanBox box)
  then have "0 \<le> bl_bottleCount box" using assms(4) by (simp add: sane_action_def)
  then show ?thesis using CartScanBox assms(1) limit_inv_snoc [OF assms(1-3)] limit_inv_lines
    by (cases rule: applyBox_lines [of s box ctx]) auto
next
  case (CartRemove key)
  then show ?thesis using limit_inv_filter [OF _ assms(1)] by simp
next
  case (CartRemoveBox sscc)
  then show ?thesis using limit_inv_filter [OF _ assms(1)] by simp
next
  case CartReset
  have "0 \<le> M" using assms(3) by (simp add: allowance_def)
  then show ?thesis using CartReset by (simp add: limit_inv_empty)
qed (use assms(1) in \<open>simp_all add: limit_inv_def bottleCount_def\<close>)

lemma cart_steps_limit:
  assumes "limit_inv M s" "list_all (\<lambda>(a, ctx). sane_action a \<and> pp_limited (cartPickupPolicy ctx) \<and> allowance ctx \<le> M) acts"
  shows "limit_inv M (foldl (\<lambda>s (a, ctx). cartReducer s a ctx) s acts)"
  using assms by (induction acts arbitrary: s) (auto simp: cartReducer_limit)

text \<open>The actions that add a line.\<close>

fun scans :: "cart_action \<Rightarrow> bool" where
  "scans (CartScan _) = True"
| "scans (CartScanBox _) = True"
| "scans _ = False"

lemma scanless_empty: "\<not> scans a \<Longrightarrow> ca_lines s = [] \<Longrightarrow> ca_lines (cartReducer s a ctx) = []"
  by (cases a) simp_all

lemma scanless_steps_empty:
  "\<not> list_ex (\<lambda>(a, ctx). scans a) acts \<Longrightarrow> ca_lines s = [] \<Longrightarrow> ca_lines (foldl (\<lambda>s (a, ctx). cartReducer s a ctx) s acts) = []"
  by (induction acts arbitrary: s) (auto simp: scanless_empty)

text \<open>A run that first scans nothing and then acts within one allowance, or acts within a bound throughout.\<close>

lemma cart_run_limit:
  assumes "list_all (\<lambda>(a, ctx). sane_action a \<and> pp_limited (cartPickupPolicy ctx) \<and> allowance ctx \<le> M) late" "0 \<le> M"
    and "\<not> list_ex (\<lambda>(a, ctx). scans a) early
       \<or> list_all (\<lambda>(a, ctx). sane_action a \<and> pp_limited (cartPickupPolicy ctx) \<and> allowance ctx \<le> M) early"
  shows "bottleCount (cart_run (early @ late)) \<le> M"
proof -
  have "limit_inv M (foldl (\<lambda>s (a, ctx). cartReducer s a ctx) initialCartState early)" using assms(3)
  proof
    assume "\<not> list_ex (\<lambda>(a, ctx). scans a) early"
    then show ?thesis using scanless_steps_empty by (intro limit_inv_empty assms(2)) simp
  next
    assume "list_all (\<lambda>(a, ctx). sane_action a \<and> pp_limited (cartPickupPolicy ctx) \<and> allowance ctx \<le> M) early"
    then show ?thesis by (rule cart_steps_limit [OF limit_inv_empty [OF initial_lines assms(2)]])
  qed
  then have "limit_inv M (cart_run (early @ late))" using cart_steps_limit [OF _ assms(1)] by (simp add: cart_run_def)
  then show ?thesis by (simp add: limit_inv_def)
qed


section \<open>Lemmas: the count of the day\<close>

text \<open>The orders a store contributes: the sequence number and the bottles of each record that counts.\<close>

definition counted :: "(jstring \<Rightarrow> jstring option) \<Rightarrow> jstring \<Rightarrow> jstring \<Rightarrow> withdrawal option \<Rightarrow> (int \<times> int) list" where
  "counted day_of employeeId today taken =
     (case taken of
        Some w \<Rightarrow> if wd_employeeId w = employeeId \<and> day_of (wd_takenAt w) = Some today then [(wd_deviceSeq w, wd_items w)] else []
      | None \<Rightarrow> [])"

definition journal_orders ::
    "(jstring \<Rightarrow> jstring option) \<Rightarrow> jstring \<Rightarrow> jstring \<Rightarrow> jstring option \<Rightarrow> kiosk_journal_entry list \<Rightarrow> (int \<times> int) list" where
  "journal_orders day_of employeeId today boundKioskId journal =
     concat (map (\<lambda>e. if kioskIdOf (je_kioskId e) \<noteq> boundKioskId then [] else counted day_of employeeId today (attributedEntry e)) journal)"

definition queue_orders :: "(jstring \<Rightarrow> jstring option) \<Rightarrow> jstring \<Rightarrow> jstring \<Rightarrow> queued_order list \<Rightarrow> (int \<times> int) list" where
  "queue_orders day_of employeeId today queued = concat (map (\<lambda>q. counted day_of employeeId today (attributedOrder q)) queued)"

definition add_first :: "(int \<times> int) list \<Rightarrow> int \<times> int \<Rightarrow> (int \<times> int) list" where
  "add_first m kv = (if map_of m (fst kv) \<noteq> None then m else m @ [kv])"

lemma count_withdrawal_fold: "count_withdrawal day_of emp today w m = foldl add_first m (counted day_of emp today w)"
  by (auto simp: count_withdrawal_def counted_def add_first_def split: option.splits)

lemma foldl_concat: "foldl (\<lambda>m x. foldl f m (g x)) m xs = foldl f m (concat (map g xs))"
  by (induction xs arbitrary: m) simp_all

lemma foldl_guarded: "foldl (\<lambda>m x. if P x then m else foldl f m (g x)) m xs = foldl f m (concat (map (\<lambda>x. if P x then [] else g x) xs))"
  by (induction xs arbitrary: m) simp_all

lemma countTakenToday_fold:
  "countTakenToday day_of emp today kiosk journal queued =
     sum_list (map snd (foldl add_first [] (journal_orders day_of emp today kiosk journal @ queue_orders day_of emp today queued)))"
  by (simp only: countTakenToday_def count_withdrawal_fold foldl_concat foldl_guarded journal_orders_def queue_orders_def Let_def foldl_append)

lemma add_first_fold:
  "distinct (map fst m) \<Longrightarrow> distinct (map fst (foldl add_first m kvs)) \<and> map_of (foldl add_first m kvs) = map_of (m @ kvs)"
proof (induction kvs arbitrary: m)
  case (Cons kv kvs)
  obtain k v where kv: "kv = (k, v)" by (cases kv)
  have d: "distinct (map fst (add_first m kv))" using Cons.prems by (auto simp: add_first_def map_of_eq_None_iff)
  have "map_of (add_first m kv @ kvs) = map_of (m @ kv # kvs)"
    by (auto simp: add_first_def kv fun_eq_iff map_add_def split: option.splits)
  with Cons.IH [OF d] show ?case by simp
qed simp

definition per_order :: "(int \<times> int) list \<Rightarrow> int" where
  "per_order kvs = (\<Sum>s\<in>fst ` set kvs. the (map_of kvs s))"

lemma per_order_cong: "fst ` set xs = fst ` set ys \<Longrightarrow> map_of xs = map_of ys \<Longrightarrow> per_order xs = per_order ys"
  by (simp add: per_order_def)

lemma sum_list_per_order: "distinct (map fst m) \<Longrightarrow> sum_list (map snd m) = per_order m"
proof (induction m)
  case (Cons kv m)
  obtain k v where kv: "kv = (k, v)" by (cases kv)
  have "(\<Sum>s\<in>fst ` set m. the (map_of (kv # m) s)) = per_order m"
    unfolding per_order_def by (rule sum.cong [OF refl]) (use Cons.prems kv in auto)
  then show ?case using Cons kv by (simp add: per_order_def)
qed (simp add: per_order_def)

lemma countTakenToday_per_order:
  "countTakenToday day_of emp today kiosk journal queued
    = per_order (journal_orders day_of emp today kiosk journal @ queue_orders day_of emp today queued)"
proof -
  let ?kvs = "journal_orders day_of emp today kiosk journal @ queue_orders day_of emp today queued"
  have f: "distinct (map fst (foldl add_first [] ?kvs))" "map_of (foldl add_first [] ?kvs) = map_of ?kvs"
    using add_first_fold [of "[]" ?kvs] by simp_all
  then have "fst ` set (foldl add_first [] ?kvs) = fst ` set ?kvs" by (metis dom_map_of_conv_image_fst)
  with f show ?thesis unfolding countTakenToday_fold sum_list_per_order [OF f(1)] by (intro per_order_cong)
qed

lemma counted_nonneg: "x \<in> set (counted d emp today w) \<Longrightarrow> (\<And>v. w = Some v \<Longrightarrow> 0 \<le> wd_items v) \<Longrightarrow> 0 \<le> snd x"
  by (auto simp: counted_def split: option.splits if_splits)

lemma attributed_nonneg: "attributedEntry e = Some w \<Longrightarrow> 0 \<le> wd_items w" "attributedOrder q = Some w \<Longrightarrow> 0 \<le> wd_items w"
  by (auto simp: attributedEntry_def attributedOrder_def estimate_ok_def split: option.splits if_splits)

lemma countTakenToday_nonneg: "0 \<le> countTakenToday day_of emp today kiosk journal queued"
proof -
  let ?kvs = "journal_orders day_of emp today kiosk journal @ queue_orders day_of emp today queued"
  have nonneg: "0 \<le> snd x" if "x \<in> set ?kvs" for x
  proof -
    from that consider e where "x \<in> set (counted day_of emp today (attributedEntry e))" | q where "x \<in> set (counted day_of emp today (attributedOrder q))"
      by (auto simp: journal_orders_def queue_orders_def split: if_splits)
    then show ?thesis by cases (erule counted_nonneg, erule attributed_nonneg)+
  qed
  have "0 \<le> the (map_of ?kvs k)" if "k \<in> fst ` set ?kvs" for k
  proof -
    from that obtain v where v: "map_of ?kvs k = Some v" by (cases "map_of ?kvs k") (simp_all only: map_of_eq_None_iff not_True_eq_False simp_thms)
    show ?thesis using nonneg [OF map_of_SomeD [OF v]] unfolding v by simp
  qed
  then show ?thesis unfolding countTakenToday_per_order per_order_def by (rule sum_nonneg)
qed

lemma per_order_drop:
  assumes "fst ` set ys \<subseteq> fst ` set xs"
  shows "per_order (xs @ ys @ zs) = per_order (xs @ zs)"
proof (rule per_order_cong)
  show "fst ` set (xs @ ys @ zs) = fst ` set (xs @ zs)" using assms by auto
  show "map_of (xs @ ys @ zs) = map_of (xs @ zs)"
  proof
    fix k
    have "map_of ys k = None \<or> (\<exists>v. map_of xs k = Some v)" using assms by (force simp: map_of_eq_None_iff)
    then show "map_of (xs @ ys @ zs) k = map_of (xs @ zs) k" by (auto simp: map_add_def split: option.splits)
  qed
qed

lemma per_order_snoc:
  assumes "k \<notin> fst ` set xs"
  shows "per_order (xs @ [(k, v)]) = per_order xs + v"
proof -
  have "(\<Sum>s\<in>fst ` set xs. the (map_of (xs @ [(k, v)]) s)) = per_order xs"
    unfolding per_order_def using assms by (intro sum.cong) (auto simp: map_add_def split: option.splits)
  moreover have "map_of xs k = None" using assms by (simp add: map_of_eq_None_iff)
  ultimately show ?thesis using assms by (simp add: per_order_def map_add_def)
qed

text \<open>The day count charges every order once: it is the sum, over the sequence numbers of the employee's
  orders of the day at this kiosk, of the first record of each, the journal's before the queue's. So an
  answer that is journalled again after a crash changes nothing, and neither does an order that is
  still queued although its answer is already in the journal.\<close>

theorem day_count_per_order:
  fixes day_of emp today kiosk journal queued
  defines "J \<equiv> journal_orders day_of emp today kiosk" and "Q \<equiv> queue_orders day_of emp today"
  shows "countTakenToday day_of emp today kiosk journal queued
      = (\<Sum>s\<in>fst ` set (J journal @ Q queued). the (map_of (J journal @ Q queued) s))
    \<and> (\<forall>e\<in>set journal. countTakenToday day_of emp today kiosk (journal @ [e]) queued = countTakenToday day_of emp today kiosk journal queued)
    \<and> (\<forall>q rest. fst ` set (Q [q]) \<subseteq> fst ` set (J journal) \<longrightarrow>
          countTakenToday day_of emp today kiosk journal (queued @ q # rest) = countTakenToday day_of emp today kiosk journal (queued @ rest))"
proof (intro conjI ballI allI impI)
  show "countTakenToday day_of emp today kiosk journal queued
      = (\<Sum>s\<in>fst ` set (J journal @ Q queued). the (map_of (J journal @ Q queued) s))"
    by (simp add: countTakenToday_per_order per_order_def J_def Q_def)
  fix e assume "e \<in> set journal"
  then have "fst ` set (J [e]) \<subseteq> fst ` set (J journal)" by (auto simp: J_def journal_orders_def)
  from per_order_drop [OF this, of "Q queued"]
  show "countTakenToday day_of emp today kiosk (journal @ [e]) queued = countTakenToday day_of emp today kiosk journal queued"
    by (simp add: countTakenToday_per_order J_def Q_def journal_orders_def)
next
  fix q rest assume "fst ` set (Q [q]) \<subseteq> fst ` set (J journal)"
  then have "fst ` set (Q [q]) \<subseteq> fst ` set (J journal @ Q queued)" by auto
  from per_order_drop [OF this, of "Q rest"]
  show "countTakenToday day_of emp today kiosk journal (queued @ q # rest) = countTakenToday day_of emp today kiosk journal (queued @ rest)"
    by (simp add: countTakenToday_per_order J_def Q_def queue_orders_def)
qed

lemma count_after_enqueue:
  assumes "wd_deviceSeq w \<notin> fst ` set (journal_orders day_of emp today kiosk journal @ queue_orders day_of emp today queued)"
    "attributedOrder q = Some w" "wd_employeeId w = emp" "day_of (wd_takenAt w) = Some today"
  shows "countTakenToday day_of emp today kiosk journal (queued @ [q]) = countTakenToday day_of emp today kiosk journal queued + wd_items w"
proof -
  let ?kvs = "journal_orders day_of emp today kiosk journal @ queue_orders day_of emp today queued"
  have new: "queue_orders day_of emp today (queued @ [q]) = queue_orders day_of emp today queued @ [(wd_deviceSeq w, wd_items w)]"
    using assms(2-4) by (simp add: queue_orders_def counted_def)
  show ?thesis using per_order_snoc [OF assms(1), of "wd_items w"] by (simp add: countTakenToday_per_order new)
qed


definition sample_entry :: kiosk_journal_entry where
  "sample_entry = \<lparr>je_at = lit ''b'', je_createdAt = Some (lit ''a''), je_kioskId = Some (lit ''gate''), je_deviceSeq = Some 7,
     je_orderNo = lit ''1'', je_employeeId = Some (lit ''emp''), je_acceptedCount = Some (JInt 2), je_conflicts = [],
     je_acceptedBoxes = [], je_boxConflicts = []\<rparr>"

definition sample_order :: "int \<Rightarrow> int \<Rightarrow> queued_order" where
  "sample_order s n = \<lparr>qo_deviceSeq = s, qo_employeeId = Some (lit ''emp''),
     qo_body = \<lparr>co_deviceSeq = s, co_badgeDigest = lit ''d'', co_reason = lit ''buy'', co_writeoffReasonId = None,
       co_items = Some [], co_boxes = None, co_createdAt = Some (lit ''a''), co_admissionNonce = None, co_admissionProof = None\<rparr>,
     qo_pendingAttestation = False, qo_admissionNonce = None, qo_estimatedBottleCount = Some (JInt n)\<rparr>"

text \<open>Order 7 is journalled with two bottles and still queued with an estimate of three; order 8 is queued.\<close>

theorem day_count_per_order_witness:
  "countTakenToday (\<lambda>t. Some (lit ''day'')) (lit ''emp'') (lit ''day'') (Some (lit ''gate'')) [sample_entry, sample_entry]
     [sample_order 7 3, sample_order 8 4] = 6"
proof -
  let ?c = "countTakenToday (\<lambda>t. Some (lit ''day'')) (lit ''emp'') (lit ''day'') (Some (lit ''gate''))"
  have "?c ([sample_entry] @ [sample_entry]) [sample_order 7 3, sample_order 8 4] = ?c [sample_entry] [sample_order 7 3, sample_order 8 4]"
    using day_count_per_order [of "\<lambda>t. Some (lit ''day'')" "lit ''emp''" "lit ''day''" "Some (lit ''gate'')" "[sample_entry]"
        "[sample_order 7 3, sample_order 8 4]"] by simp
  moreover have "?c [sample_entry] ([] @ sample_order 7 3 # [sample_order 8 4]) = ?c [sample_entry] ([] @ [sample_order 8 4])"
    using day_count_per_order [of "\<lambda>t. Some (lit ''day'')" "lit ''emp''" "lit ''day''" "Some (lit ''gate'')" "[sample_entry]" "[]"]
    by (simp add: queue_orders_def journal_orders_def counted_def attributedOrder_def attributedEntry_def sample_order_def
        sample_entry_def lit_def estimate_ok_def)
  moreover have "?c [sample_entry] [sample_order 8 4] = 6"
    by (simp add: countTakenToday_def count_withdrawal_def attributedOrder_def attributedEntry_def sample_order_def
        sample_entry_def lit_def estimate_ok_def)
  ultimately show ?thesis by simp
qed

section \<open>Lemmas: scans and totals\<close>

text \<open>A payload is offered as a badge only when it is no product code of any kind.\<close>

lemma badge_is_no_code: "classifyKioskScan raw = KBadge b \<Longrightarrow> b = raw \<and> js_trim raw \<noteq> [] \<and> classifyScan raw = ScanUnknown raw"
proof -
  assume "classifyKioskScan raw = KBadge b"
  moreover have "classifyScan raw = ScanUnknown u \<Longrightarrow> u = raw" for u
    by (auto simp: classifyScan_def Let_def split: option.splits sum.splits)
  ultimately show ?thesis
    by (auto simp: classifyKioskScan_def validatePickupKm_def Let_def split: scan_input.splits if_splits pickup_result.splits)
qed

definition line_amount :: "cart_line \<Rightarrow> int" where
  "line_amount l = the (Option.bind (line_price l) toKopecks) * line_bottles l"

definition priced :: "cart_line \<Rightarrow> bool" where
  "priced l \<longleftrightarrow> Option.bind (line_price l) toKopecks \<noteq> None"

lemma total_from_exact:
  assumes "list_all priced ls" "\<bar>acc\<bar> + sum_list (map (\<lambda>l. \<bar>line_amount l\<bar>) ls) \<le> 2 ^ 53"
  shows "total_from acc ls = Some (acc + sum_list (map line_amount ls))"
  using assms
proof (induction ls arbitrary: acc)
  case (Cons l ls)
  obtain k where k: "Option.bind (line_price l) toKopecks = Some k" using Cons.prems(1) by (auto simp: priced_def)
  have rest: "0 \<le> sum_list (map (\<lambda>l. \<bar>line_amount l\<bar>) ls)" by (rule sum_list_nonneg) auto
  then have b: "\<bar>line_amount l\<bar> \<le> 2 ^ 53" "\<bar>acc + line_amount l\<bar> \<le> 2 ^ 53"
    "\<bar>acc + line_amount l\<bar> + sum_list (map (\<lambda>l. \<bar>line_amount l\<bar>) ls) \<le> 2 ^ 53" using Cons.prems(2) by simp_all
  have "line_amount l = k * line_bottles l" using k by (simp add: line_amount_def)
  then have "js_num (acc + js_num (k * line_bottles l)) = acc + line_amount l" using b js_num_exact by metis
  then show ?case using Cons.IH [OF _ b(3)] Cons.prems(1) k by simp
qed simp

lemma total_from_unpriced: "\<not> list_all priced ls \<Longrightarrow> total_from acc ls = None"
  by (induction ls arbitrary: acc) (auto simp: priced_def split: option.splits)

lemma totalKopecks_spec:
  assumes "sum_list (map (\<lambda>l. \<bar>line_amount l\<bar>) ls) \<le> 2 ^ 53"
  shows "totalKopecks ls = (if list_all priced ls then Some (sum_list (map line_amount ls)) else None)"
  using assms total_from_exact [of ls 0] total_from_unpriced [of ls 0] by (simp add: totalKopecks_def)

end
