(* ===== verification/Kiosk_Flow.thy ===== *)
theory Kiosk_Flow
  imports Kiosk_Cart
begin

text \<open>
  The screens of the pickup kiosk as the state machine of \<open>apps/kiosk/src/session/flow.ts\<close>: the reducer,
  the reading of the server's answer, the sum that is charged, and the order a confirmed session sends.
  A screen with its data is one constructor of \<open>kiosk_flow\<close>, an action one of \<open>flow_action\<close>.
\<close>

section \<open>Model\<close>

record kiosk_employee =
  ke_id :: jstring
  ke_fullName :: jstring
  ke_limitMode :: jstring
  ke_dayLimit :: int
  ke_canWriteoff :: bool

record kiosk_session =
  kn_id :: nat
  kn_badgeDigest :: jstring
  kn_employee :: kiosk_employee
  kn_cart :: cart_state

record order_result =
  or_orderNo :: jstring
  or_itemCount :: int
  or_conflicts :: "(jstring \<times> jstring) list"
  or_boxConflicts :: "box_verdict list option"
  or_acceptedBoxes :: "(jstring \<times> int) list option"

datatype kiosk_outcome =
    OutcomeAccepted jstring int "int option"
  | OutcomeQueued int int
  | OutcomeRejected jstring jstring "int option"
  | OutcomePartial jstring int "cart_line list"

datatype stored_kind = Stored_accepted | Stored_partial | Stored_rejected

datatype rejected_line = RejectedLoose jstring jstring | RejectedBox jstring int jstring

record outcome_owner =
  oo_serverUrl :: jstring
  oo_kioskId :: jstring
  oo_credentialGeneration :: jstring

record stored_outcome =
  so_owner :: outcome_owner
  so_deviceSeq :: int
  so_employeeId :: "jstring option"
  so_at :: jstring
  so_viewedAt :: "jstring option"
  so_kind :: stored_kind
  so_orderNo :: "jstring option"
  so_acceptedCount :: int
  so_acceptedBoxes :: "(jstring \<times> int) list"
  so_rejected :: "rejected_line list"

datatype kiosk_flow =
    Pairing | Login
  | CartScreen kiosk_session | OperationScreen kiosk_session | ReasonScreen kiosk_session
  | Confirmation kiosk_session bool
  | OutcomeScreen kiosk_session int "order_result option" kiosk_outcome "stored_outcome option"

datatype flow_action =
    Paired | Unpaired | SessionStarted kiosk_session | DraftRecovered kiosk_session
  | OutcomeRecovered kiosk_session stored_outcome
  | CartChanged cart_state | LegacySubmit cart_state | SubmissionStarted | SubmitFailed | Continue
  | ChooseOperation pickup_reason | ChooseWriteoffReason jstring | InvalidateWriteoffReason | Back
  | Submitted int "order_result option" kiosk_outcome "stored_outcome option"
  | Finish | CancelConfirmed | LogoutConfirmed | IdleReset

definition initialKioskFlowState :: kiosk_flow where
  "initialKioskFlowState = Pairing"

subsection \<open>The server's answer\<close>

definition rejected_loose :: "order_result \<Rightarrow> jstring set" where
  "rejected_loose result = fst ` set (or_conflicts result)"

definition rejected_boxes :: "order_result \<Rightarrow> jstring set" where
  "rejected_boxes result = bv_sscc ` set (case or_boxConflicts result of Some cs \<Rightarrow> cs | None \<Rightarrow> [])"

definition kioskOutcomeOf :: "int \<Rightarrow> order_result option \<Rightarrow> cart_state \<Rightarrow> kiosk_outcome" where
  "kioskOutcomeOf deviceSeq result cart =
     (case result of
        None \<Rightarrow> OutcomeQueued deviceSeq (bottleCount cart)
      | Some r \<Rightarrow>
          if or_orderNo r = [] then
            OutcomeRejected (lit ''Order rejected'') (lit ''The server rejected every line'') (Some (bottleCount cart))
          else if rejected_loose r \<noteq> {} \<or> rejected_boxes r \<noteq> {} then
            OutcomePartial (or_orderNo r) (or_itemCount r)
              (filter (\<lambda>l. case l of Loose x \<Rightarrow> ll_rawKm x \<in> rejected_loose r | Box b \<Rightarrow> bl_sscc b \<in> rejected_boxes r) (ca_lines cart))
          else OutcomeAccepted (or_orderNo r) (or_itemCount r) (totalKopecks (ca_lines cart)))"

text \<open>\<open>new Map(pairs)\<close> keeps the last value of a key.\<close>

definition accepted_boxes :: "order_result \<Rightarrow> jstring \<rightharpoonup> int" where
  "accepted_boxes result = map_of (rev (case or_acceptedBoxes result of Some bs \<Rightarrow> bs | None \<Rightarrow> []))"

fun accepted_bottles :: "order_result \<Rightarrow> cart_line \<Rightarrow> int option" where
  "accepted_bottles r (Loose l) = (if ll_rawKm l \<in> rejected_loose r then None else Some 1)"
| "accepted_bottles r (Box b) = accepted_boxes r (bl_sscc b)"

fun accepted_from :: "order_result \<Rightarrow> cart_line list \<Rightarrow> int \<Rightarrow> int \<Rightarrow> (int \<times> int) option" where
  "accepted_from r [] acc n = Some (acc, n)"
| "accepted_from r (l # ls) acc n =
     (case Option.bind (line_price l) toKopecks of
        None \<Rightarrow> None
      | Some unit \<Rightarrow>
          (case accepted_bottles r l of
             None \<Rightarrow> accepted_from r ls acc n
           | Some k \<Rightarrow> accepted_from r ls (js_num (acc + js_num (unit * k))) (n + k)))"

definition acceptedTotalKopecks :: "order_result option \<Rightarrow> cart_line list \<Rightarrow> int option" where
  "acceptedTotalKopecks result lines =
     (case result of
        None \<Rightarrow> totalKopecks lines
      | Some r \<Rightarrow>
          if or_orderNo r = [] \<or> or_itemCount r = 0 then None
          else case accepted_from r lines 0 0 of
            None \<Rightarrow> None
          | Some (total_sum, acceptedCount) \<Rightarrow> if acceptedCount = or_itemCount r then Some total_sum else None)"

fun reason_name :: "pickup_reason \<Rightarrow> jstring" where
  "reason_name Buy = lit ''buy''"
| "reason_name Writeoff = lit ''writeoff''"

definition createConfirmedOrderBody :: "kiosk_session \<Rightarrow> int \<Rightarrow> jstring \<Rightarrow> create_order" where
  "createConfirmedOrderBody session deviceSeq createdAt =
     \<lparr>co_deviceSeq = deviceSeq, co_badgeDigest = kn_badgeDigest session, co_reason = reason_name (ca_reason (kn_cart session)),
      co_writeoffReasonId = ca_writeoffReasonId (kn_cart session),
      co_items = Some (map ll_rawKm (looseLines (kn_cart session))),
      co_boxes = (if boxLines (kn_cart session) \<noteq> [] then Some (map bl_sscc (boxLines (kn_cart session))) else None),
      co_createdAt = Some createdAt, co_admissionNonce = None, co_admissionProof = None\<rparr>"

subsection \<open>The reducer\<close>

fun session_of :: "kiosk_flow \<Rightarrow> kiosk_session option" where
  "session_of (CartScreen s) = Some s"
| "session_of (OperationScreen s) = Some s"
| "session_of (ReasonScreen s) = Some s"
| "session_of (Confirmation s _) = Some s"
| "session_of (OutcomeScreen s _ _ _ _) = Some s"
| "session_of _ = None"

abbreviation with_cart :: "kiosk_session \<Rightarrow> cart_state \<Rightarrow> kiosk_session" where
  "with_cart s cart \<equiv> s\<lparr>kn_cart := cart\<rparr>"

definition as_purchase :: "cart_state \<Rightarrow> cart_state" where
  "as_purchase cart = cart\<lparr>ca_reason := Buy, ca_writeoffReasonId := None\<rparr>"

definition recovered_outcome :: "stored_outcome \<Rightarrow> kiosk_outcome" where
  "recovered_outcome o' =
     (case so_kind o' of
        Stored_accepted \<Rightarrow> OutcomeAccepted (case so_orderNo o' of Some n \<Rightarrow> n | None \<Rightarrow> []) (so_acceptedCount o') None
      | Stored_partial \<Rightarrow> OutcomePartial (case so_orderNo o' of Some n \<Rightarrow> n | None \<Rightarrow> []) (so_acceptedCount o') []
      | Stored_rejected \<Rightarrow> OutcomeRejected (lit ''Rejected'') (lit ''Rejected'') (Some 0))"

definition legacy_submit :: "kiosk_session \<Rightarrow> cart_state \<Rightarrow> kiosk_flow option" where
  "legacy_submit s submitted =
     (if ca_lines submitted = [] then None
      else let cart = (if ke_canWriteoff (kn_employee s) then submitted else as_purchase submitted)
           in if ca_reason cart = Writeoff \<and> ca_writeoffReasonId cart = None then None
              else Some (Confirmation (with_cart s (if ca_reason cart = Buy \<and> ca_writeoffReasonId cart \<noteq> None
                           then cart\<lparr>ca_writeoffReasonId := None\<rparr> else cart)) False))"

fun continue_from :: "kiosk_flow \<Rightarrow> kiosk_flow" where
  "continue_from (CartScreen s) =
     (if ca_lines (kn_cart s) = [] then CartScreen s
      else if ke_canWriteoff (kn_employee s) then OperationScreen s
      else Confirmation (with_cart s (as_purchase (kn_cart s))) False)"
| "continue_from (ReasonScreen s) =
     (if ca_reason (kn_cart s) \<noteq> Writeoff \<or> ca_writeoffReasonId (kn_cart s) = None then ReasonScreen s
      else Confirmation s False)"
| "continue_from state = state"

fun back_from :: "kiosk_flow \<Rightarrow> kiosk_flow" where
  "back_from (OperationScreen s) = CartScreen s"
| "back_from (ReasonScreen s) = OperationScreen s"
| "back_from (Confirmation s _) =
     (if ca_reason (kn_cart s) = Writeoff then ReasonScreen s
      else if ke_canWriteoff (kn_employee s) then OperationScreen s else CartScreen s)"
| "back_from state = state"

definition choose_operation :: "pickup_reason \<Rightarrow> kiosk_session \<Rightarrow> kiosk_flow" where
  "choose_operation reason s =
     (if reason = Writeoff
      then if \<not> ke_canWriteoff (kn_employee s) then OperationScreen s
           else ReasonScreen (with_cart s ((kn_cart s)\<lparr>ca_reason := Writeoff, ca_writeoffReasonId := None\<rparr>))
      else Confirmation (with_cart s (as_purchase (kn_cart s))) False)"

definition invalidate_reason :: "kiosk_session \<Rightarrow> kiosk_flow option" where
  "invalidate_reason s =
     (if ca_reason (kn_cart s) \<noteq> Writeoff then None
      else Some (ReasonScreen (with_cart s ((kn_cart s)\<lparr>ca_writeoffReasonId := None\<rparr>))))"

fun flow_switch :: "kiosk_flow \<Rightarrow> flow_action \<Rightarrow> kiosk_flow" where
  "flow_switch state Unpaired = Pairing"
| "flow_switch state Paired = (if state = Pairing then Login else state)"
| "flow_switch state (DraftRecovered s) = (if state = Login then Confirmation s False else state)"
| "flow_switch state (SessionStarted s) = (if state = Login then CartScreen s else state)"
| "flow_switch state (OutcomeRecovered s o') =
     (if state = Login then OutcomeScreen s (so_deviceSeq o') None (recovered_outcome o') (Some o') else state)"
| "flow_switch state (CartChanged cart) = (case state of CartScreen s \<Rightarrow> CartScreen (with_cart s cart) | _ \<Rightarrow> state)"
| "flow_switch state (LegacySubmit cart) =
     (case state of CartScreen s \<Rightarrow> (case legacy_submit s cart of Some state' \<Rightarrow> state' | None \<Rightarrow> state) | _ \<Rightarrow> state)"
| "flow_switch state SubmissionStarted = (case state of Confirmation s False \<Rightarrow> Confirmation s True | _ \<Rightarrow> state)"
| "flow_switch state SubmitFailed = (case state of Confirmation s True \<Rightarrow> CartScreen s | _ \<Rightarrow> state)"
| "flow_switch state Continue = continue_from state"
| "flow_switch state (ChooseOperation reason) = (case state of OperationScreen s \<Rightarrow> choose_operation reason s | _ \<Rightarrow> state)"
| "flow_switch state (ChooseWriteoffReason i) =
     (case state of
        ReasonScreen s \<Rightarrow> if i = [] then state else ReasonScreen (with_cart s ((kn_cart s)\<lparr>ca_writeoffReasonId := Some i\<rparr>))
      | _ \<Rightarrow> state)"
| "flow_switch state InvalidateWriteoffReason =
     (case state of
        ReasonScreen s \<Rightarrow> (case invalidate_reason s of Some state' \<Rightarrow> state' | None \<Rightarrow> state)
      | Confirmation s _ \<Rightarrow> (case invalidate_reason s of Some state' \<Rightarrow> state' | None \<Rightarrow> state)
      | _ \<Rightarrow> state)"
| "flow_switch state Back = back_from state"
| "flow_switch state (Submitted deviceSeq result outcome stored) =
     (case state of Confirmation s True \<Rightarrow> OutcomeScreen s deviceSeq result outcome stored | _ \<Rightarrow> state)"
| "flow_switch state Finish = (case state of OutcomeScreen _ _ _ _ _ \<Rightarrow> Login | _ \<Rightarrow> state)"
| "flow_switch state CancelConfirmed = (if session_of state \<noteq> None then Login else state)"
| "flow_switch state LogoutConfirmed = (if session_of state \<noteq> None then Login else state)"
| "flow_switch state IdleReset = (if session_of state \<noteq> None then Login else state)"

fun settles :: "flow_action \<Rightarrow> bool" where
  "settles (Submitted _ _ _ _) = True"
| "settles SubmitFailed = True"
| "settles _ = False"

definition kioskFlowReducer :: "kiosk_flow \<Rightarrow> flow_action \<Rightarrow> kiosk_flow" where
  "kioskFlowReducer state action =
     (if action = Unpaired then Pairing
      else case state of
        Confirmation s True \<Rightarrow> if settles action then flow_switch state action else state
      | _ \<Rightarrow> flow_switch state action)"

section \<open>Lemmas\<close>

text \<open>A cart that may be confirmed: it has lines, a write-off has a reason, a purchase has none.\<close>

definition cart_ok :: "cart_state \<Rightarrow> bool" where
  "cart_ok cart \<longleftrightarrow> ca_lines cart \<noteq> [] \<and> (ca_reason cart = Writeoff \<longleftrightarrow> ca_writeoffReasonId cart \<noteq> None)"

fun flow_inv :: "kiosk_flow \<Rightarrow> bool" where
  "flow_inv (OperationScreen s) = (ca_lines (kn_cart s) \<noteq> [])"
| "flow_inv (ReasonScreen s) = (ca_lines (kn_cart s) \<noteq> [] \<and> ca_reason (kn_cart s) = Writeoff)"
| "flow_inv (Confirmation s _) = cart_ok (kn_cart s)"
| "flow_inv _ = True"

lemma purchase_ok: "cart_ok (as_purchase cart) \<longleftrightarrow> ca_lines cart \<noteq> []"
  by (simp add: cart_ok_def as_purchase_def)

lemma legacy_submit_inv: "legacy_submit s cart = Some state \<Longrightarrow> flow_inv state"
  by (cases "ca_reason cart") (auto simp: legacy_submit_def Let_def cart_ok_def as_purchase_def split: if_splits)

lemma continue_inv: "flow_inv state \<Longrightarrow> flow_inv (continue_from state)"
  by (cases state rule: continue_from.cases) (auto simp: purchase_ok, auto simp: cart_ok_def)

lemma back_inv: "flow_inv state \<Longrightarrow> flow_inv (back_from state)"
  by (cases state rule: back_from.cases) (auto simp: cart_ok_def)

lemma flow_switch_inv:
  assumes "flow_inv state" "\<And>s. action = DraftRecovered s \<Longrightarrow> cart_ok (kn_cart s)"
  shows "flow_inv (flow_switch state action)"
  using assms
  by (cases action)
    (auto simp: continue_inv back_inv choose_operation_def as_purchase_def invalidate_reason_def cart_ok_def
      split: kiosk_flow.splits option.splits if_splits bool.splits dest: legacy_submit_inv)

lemma reducer_inv:
  assumes "flow_inv state" "\<And>s. action = DraftRecovered s \<Longrightarrow> cart_ok (kn_cart s)"
  shows "flow_inv (kioskFlowReducer state action)"
  using assms(1) flow_switch_inv [OF assms] by (auto simp: kioskFlowReducer_def split: kiosk_flow.splits bool.splits)

lemma line_split: "looseLines c = [] \<Longrightarrow> boxLines c = [] \<Longrightarrow> ca_lines c = []"
  by (cases "ca_lines c") (auto simp: looseLines_def boxLines_def split: cart_line.splits)

lemma submitting_stuck: "\<not> settles a \<Longrightarrow> a \<noteq> Unpaired \<Longrightarrow> kioskFlowReducer (Confirmation s True) a = Confirmation s True"
  by (simp add: kioskFlowReducer_def)

lemma submitting_run:
  "list_all (\<lambda>a. \<not> settles a \<and> a \<noteq> Unpaired) actions \<Longrightarrow> foldl kioskFlowReducer (Confirmation s True) actions = Confirmation s True"
  by (induction actions) (auto simp: submitting_stuck)

lemma outcome_stays:
  "kioskFlowReducer (OutcomeScreen s n r out st) a \<in> {OutcomeScreen s n r out st, Login, Pairing}"
  by (cases a) (auto simp: kioskFlowReducer_def)

text \<open>C17: A confirmed order is submitted once and as it was confirmed: once the submission has started, no
  action but its own answer or the loss of the pairing changes the session, whatever the screen, the
  scanner or the idle timer dispatches in between; an answer shows exactly that session, and from the
  outcome the only ways on are to the login and the pairing screen. A second answer, or one that comes when nothing was submitted, changes nothing.\<close>

theorem kiosk_submission_locked:
  assumes "list_all (\<lambda>a. \<not> settles a \<and> a \<noteq> Unpaired) between"
  shows "foldl kioskFlowReducer (kioskFlowReducer (Confirmation s False) SubmissionStarted) between = Confirmation s True
    \<and> foldl kioskFlowReducer (Confirmation s True) (between @ [Submitted n r out st]) = OutcomeScreen s n r out st
    \<and> foldl kioskFlowReducer (Confirmation s True) (between @ [SubmitFailed]) = CartScreen s
    \<and> kioskFlowReducer (OutcomeScreen s n r out st) a \<in> {OutcomeScreen s n r out st, Login, Pairing}
    \<and> ((\<nexists>s'. state = Confirmation s' True) \<longrightarrow> settles b \<longrightarrow> kioskFlowReducer state b = state)"
proof (intro conjI impI)
  have start: "kioskFlowReducer (Confirmation s False) SubmissionStarted = Confirmation s True" by (simp add: kioskFlowReducer_def)
  show "foldl kioskFlowReducer (kioskFlowReducer (Confirmation s False) SubmissionStarted) between = Confirmation s True"
    unfolding start by (rule submitting_run [OF assms])
  show "foldl kioskFlowReducer (Confirmation s True) (between @ [Submitted n r out st]) = OutcomeScreen s n r out st"
    "foldl kioskFlowReducer (Confirmation s True) (between @ [SubmitFailed]) = CartScreen s"
    using submitting_run [OF assms, of s] by (simp_all add: kioskFlowReducer_def)
  show "kioskFlowReducer (OutcomeScreen s n r out st) a \<in> {OutcomeScreen s n r out st, Login, Pairing}" by (rule outcome_stays)
  assume "\<nexists>s'. state = Confirmation s' True" "settles b"
  then show "kioskFlowReducer state b = state"
    by (cases b) (auto simp: kioskFlowReducer_def split: kiosk_flow.splits bool.splits)
qed


subsection \<open>What is charged\<close>

definition charged :: "order_result \<Rightarrow> cart_line \<Rightarrow> int" where
  "charged r l = (case accepted_bottles r l of None \<Rightarrow> 0 | Some k \<Rightarrow> k)"

definition charged_amount :: "order_result \<Rightarrow> cart_line \<Rightarrow> int" where
  "charged_amount r l = the (Option.bind (line_price l) toKopecks) * charged r l"

lemma accepted_from_exact:
  assumes "accepted_from r ls acc n = Some (t, m)" "\<bar>acc\<bar> + sum_list (map (\<lambda>l. \<bar>charged_amount r l\<bar>) ls) \<le> 2 ^ 53"
  shows "list_all priced ls \<and> t = acc + sum_list (map (charged_amount r) ls) \<and> m = n + sum_list (map (charged r) ls)"
  using assms
proof (induction ls arbitrary: acc n)
  case (Cons l ls)
  obtain u where u: "Option.bind (line_price l) toKopecks = Some u" using Cons.prems(1) by (auto split: option.splits)
  have rest: "0 \<le> sum_list (map (\<lambda>l. \<bar>charged_amount r l\<bar>) ls)" by (rule sum_list_nonneg) auto
  have b: "\<bar>charged_amount r l\<bar> \<le> 2 ^ 53" "\<bar>acc + charged_amount r l\<bar> \<le> 2 ^ 53"
    "\<bar>acc + charged_amount r l\<bar> + sum_list (map (\<lambda>l. \<bar>charged_amount r l\<bar>) ls) \<le> 2 ^ 53" using Cons.prems(2) rest by simp_all
  show ?case
  proof (cases "accepted_bottles r l")
    case None
    then have "charged r l = 0" "charged_amount r l = 0" by (simp_all add: charged_def charged_amount_def)
    then show ?thesis using Cons.IH [of acc n] Cons.prems u None by (simp add: priced_def)
  next
    case (Some k)
    then have "charged r l = k" "charged_amount r l = u * k" using u by (simp_all add: charged_def charged_amount_def)
    moreover from this have "js_num (acc + js_num (u * k)) = acc + charged_amount r l" using b js_num_exact by metis
    ultimately show ?thesis using Cons.IH [OF _ b(3), of "n + k"] Cons.prems(1) u Some by (simp add: priced_def add.assoc)
  qed
qed simp

lemma accepted_from_all:
  assumes "list_all (\<lambda>l. accepted_bottles r l = Some (line_bottles l)) ls"
  shows "accepted_from r ls acc n = map_option (\<lambda>t. (t, n + sum_list (map line_bottles ls))) (total_from acc ls)"
  using assms by (induction ls arbitrary: acc n) (auto split: option.splits simp: add.assoc)

text \<open>C37: The sum a kiosk states is the price of what the server accepted: when a total is shown for an answered
  order, every line had a readable price, the bottles accepted line by line add up to the number the
  server counted, and the total is the sum of price times accepted bottles, rounded nowhere, as long as the
  amounts of the lines together stay within 2^53 kopecks; and an
  order accepted in full is stated with the very total of the cart.\<close>

theorem accepted_total_exact:
  "(acceptedTotalKopecks (Some r) lines = Some t \<longrightarrow> sum_list (map (\<lambda>l. \<bar>charged_amount r l\<bar>) lines) \<le> 2 ^ 53 \<longrightarrow>
      list_all priced lines \<and> sum_list (map (charged r) lines) = or_itemCount r \<and> t = sum_list (map (charged_amount r) lines))
   \<and> (list_all (\<lambda>l. accepted_bottles r l = Some (line_bottles l)) lines \<and> or_orderNo r \<noteq> [] \<and> or_itemCount r \<noteq> 0
        \<and> or_itemCount r = sum_list (map line_bottles lines) \<longrightarrow>
      acceptedTotalKopecks (Some r) lines = acceptedTotalKopecks None lines)"
proof (intro conjI impI)
  assume t: "acceptedTotalKopecks (Some r) lines = Some t" and b: "sum_list (map (\<lambda>l. \<bar>charged_amount r l\<bar>) lines) \<le> 2 ^ 53"
  obtain m where m: "accepted_from r lines 0 0 = Some (t, m)" "m = or_itemCount r"
    using t by (auto simp: acceptedTotalKopecks_def split: if_splits option.splits)
  from accepted_from_exact [OF m(1)] b m(2)
  show "list_all priced lines" "sum_list (map (charged r) lines) = or_itemCount r" "t = sum_list (map (charged_amount r) lines)" by simp_all
next
  assume "list_all (\<lambda>l. accepted_bottles r l = Some (line_bottles l)) lines \<and> or_orderNo r \<noteq> [] \<and> or_itemCount r \<noteq> 0
        \<and> or_itemCount r = sum_list (map line_bottles lines)"
  then show "acceptedTotalKopecks (Some r) lines = acceptedTotalKopecks None lines"
    using accepted_from_all [of r lines 0 0] by (auto simp: acceptedTotalKopecks_def totalKopecks_def split: option.splits)
qed

section \<open>A concrete session\<close>

definition sample_line :: cart_line where
  "sample_line = Box \<lparr>bl_boxId = lit ''b'', bl_sscc = lit ''s'', bl_productId = lit ''p'', bl_name = lit ''n'', bl_bottleCount = 6,
     bl_unitPrice = Some (lit ''1.5''), bl_contentKeys = [], bl_registryVersion = lit ''v''\<rparr>"

definition sample_cart :: cart_state where
  "sample_cart = \<lparr>ca_lines = [sample_line], ca_reason = Buy, ca_writeoffReasonId = None, ca_notice = None\<rparr>"

definition sample_session :: kiosk_session where
  "sample_session = \<lparr>kn_id = 1, kn_badgeDigest = lit ''d'', kn_employee = \<lparr>ke_id = lit ''e'', ke_fullName = lit ''E'',
     ke_limitMode = lit ''limited'', ke_dayLimit = 9, ke_canWriteoff = True\<rparr>, kn_cart = initialCartState\<rparr>"

definition sample_run :: "flow_action list" where
  "sample_run = [Paired, SessionStarted sample_session, CartChanged sample_cart, Continue, ChooseOperation Writeoff,
     ChooseWriteoffReason (lit ''r''), Continue]"

definition sample_confirmed :: kiosk_session where
  "sample_confirmed = with_cart sample_session (sample_cart\<lparr>ca_reason := Writeoff, ca_writeoffReasonId := Some (lit ''r'')\<rparr>)"

lemma reducer_steps:
  "a \<noteq> Unpaired \<Longrightarrow> kioskFlowReducer Pairing a = flow_switch Pairing a"
  "a \<noteq> Unpaired \<Longrightarrow> kioskFlowReducer Login a = flow_switch Login a"
  "a \<noteq> Unpaired \<Longrightarrow> kioskFlowReducer (CartScreen s) a = flow_switch (CartScreen s) a"
  "a \<noteq> Unpaired \<Longrightarrow> kioskFlowReducer (OperationScreen s) a = flow_switch (OperationScreen s) a"
  "a \<noteq> Unpaired \<Longrightarrow> kioskFlowReducer (ReasonScreen s) a = flow_switch (ReasonScreen s) a"
  by (simp_all add: kioskFlowReducer_def)

lemma sample_facts:
  "ke_canWriteoff (kn_employee sample_session)" "ca_lines sample_cart = [sample_line]"
  "boxLines sample_cart \<noteq> []" "lit ''r'' \<noteq> []"
  by (simp_all add: sample_session_def sample_cart_def boxLines_def sample_line_def lit_def)

lemma sample_run_confirms: "foldl kioskFlowReducer initialKioskFlowState sample_run = Confirmation sample_confirmed False"
  by (simp add: sample_run_def reducer_steps initialKioskFlowState_def choose_operation_def sample_facts sample_confirmed_def)

theorem kiosk_submission_locked_witness:
  "foldl kioskFlowReducer (Confirmation sample_confirmed True) ([IdleReset, Back, SubmissionStarted] @ [Submitted 3 None (OutcomeQueued 3 6) None])
     = OutcomeScreen sample_confirmed 3 None (OutcomeQueued 3 6) None"
  using kiosk_submission_locked [of "[IdleReset, Back, SubmissionStarted]" sample_confirmed 3 None "OutcomeQueued 3 6" None] by simp

definition sample_answer :: order_result where
  "sample_answer = \<lparr>or_orderNo = lit ''7'', or_itemCount = 6, or_conflicts = [], or_boxConflicts = None,
     or_acceptedBoxes = Some [(lit ''s'', 6)]\<rparr>"

lemma sample_price: "toKopecks (lit ''1.5'') = Some 150"
proof -
  have p: "decimal_text False (lit ''1'') (lit ''5'') = lit ''1.5''" by (simp add: decimal_text_def lit_def)
  have d: "all_digits (lit ''1'')" "list_all is_digit (lit ''5'')" by (simp_all add: lit_def all_digits_def is_digit_def)
  have t: "js_trim (lit ''1.5'') = lit ''1.5''" using decimal_text_trim [OF d, of "[]" "[]" False] unfolding p by simp
  have q: "decimal_parts (lit ''1.5'') = Some (False, lit ''1'', lit ''5'')" using decimal_parts_text [OF d, of False] unfolding p .
  have "num (lit ''1'') = 1" "pad_end 2 48 (slice 0 2 (lit ''5'')) = lit ''50''" "num (lit ''50'') = 50" "length (lit ''5'') = 1"
    by (simp_all add: lit_def num_def pad_end_def slice_def)
  then have "kopecks_of (lit ''1'') (lit ''5'') = 150" by (simp add: kopecks_of_def Let_def js_round_exact)
  then show ?thesis unfolding toKopecks_def t q by simp
qed

lemma sample_line_facts:
  "line_price sample_line = Some (lit ''1.5'')" "line_bottles sample_line = 6"
  "accepted_bottles sample_answer sample_line = Some 6" "or_itemCount sample_answer = 6" "or_orderNo sample_answer \<noteq> []"
  by (simp_all add: sample_line_def sample_answer_def accepted_boxes_def lit_def)

theorem accepted_total_exact_witness:
  "acceptedTotalKopecks (Some sample_answer) [sample_line] = Some 900 \<and> sum_list (map (charged sample_answer) [sample_line]) = 6"
proof -
  have full: "acceptedTotalKopecks (Some sample_answer) [sample_line] = acceptedTotalKopecks None [sample_line]"
    using accepted_total_exact [of sample_answer "[sample_line]" 0] sample_line_facts by simp
  have total: "acceptedTotalKopecks None [sample_line] = Some 900"
    using sample_price sample_line_facts by (simp add: acceptedTotalKopecks_def totalKopecks_def js_num_exact)
  have "sum_list (map (\<lambda>l. \<bar>charged_amount sample_answer l\<bar>) [sample_line]) \<le> 2 ^ 53"
    using sample_price sample_line_facts by (simp add: charged_amount_def charged_def)
  then have "sum_list (map (charged sample_answer) [sample_line]) = or_itemCount sample_answer"
    using full total accepted_total_exact [of sample_answer "[sample_line]" 900] by (simp only: simp_thms)
  then show ?thesis using full total sample_line_facts(4) by (simp only: simp_thms)
qed

end
