(* ===== verification/Kiosk_Delivery.thy ===== *)
theory Kiosk_Delivery
  imports Kiosk_Flow Document_Text
begin

text \<open>
  From the confirmed cart to the server: the order queue, the quarantine, the journal and the outcomes the
  kiosk keeps in IndexedDB (\<open>store/queue.ts\<close>, \<open>store/journal.ts\<close>, \<open>store/outcomes.ts\<close> of \<open>apps/kiosk/src\<close>) and the
  pass that delivers the queue (\<open>drainOnce\<close> of \<open>sync/worker.ts\<close>).

  An object store with a key path is a list in ascending key order, the autoincrement journal a list
  in insertion order. What a pass meets is an \<open>attempt\<close> per order: the answers of the wire and, for each
  single write, whether it throws (the storage refuses it, the outcome is not a valid one, or the app
  dies at that point). Modelled is an installation that has received no offline grant, so that no
  order carries grant evidence; the evidence protocol of \<open>grants/evidence.ts\<close> is not modelled.
\<close>

section \<open>Model\<close>

subsection \<open>The stores\<close>

record quarantined_order = queued_order +
  qq_at :: jstring
  qq_status :: nat
  qq_message :: jstring
  qq_boxConflicts :: "box_verdict list"

record kiosk_config =
  kc_serverUrl :: jstring
  kc_kioskId :: "jstring option"
  kc_credentialGeneration :: "jstring option"
  kc_hasToken :: bool
  kc_nextDeviceSeq :: int

record kiosk_store =
  kt_queue :: "queued_order list"
  kt_quarantine :: "quarantined_order list"
  kt_journal :: "kiosk_journal_entry list"
  kt_outcomes :: "stored_outcome list"
  kt_config :: "kiosk_config option"

text \<open>\<open>put\<close> on a store with a key path: the record takes the place of the one with its key.\<close>

fun put_by :: "('a \<Rightarrow> int) \<Rightarrow> 'a \<Rightarrow> 'a list \<Rightarrow> 'a list" where
  "put_by key x [] = [x]"
| "put_by key x (y # ys) = (if key x < key y then x # y # ys else if key x = key y then x # ys else y # put_by key x ys)"

definition dequeueOrder :: "kiosk_store \<Rightarrow> int \<Rightarrow> kiosk_store" where
  "dequeueOrder store deviceSeq = store\<lparr>kt_queue := filter (\<lambda>q. qo_deviceSeq q \<noteq> deviceSeq) (kt_queue store)\<rparr>"

definition quarantineOrder :: "kiosk_store \<Rightarrow> quarantined_order \<Rightarrow> kiosk_store" where
  "quarantineOrder store order = store\<lparr>kt_quarantine := put_by qo_deviceSeq order (kt_quarantine store)\<rparr>"

definition set_aside :: "queued_order \<Rightarrow> jstring \<Rightarrow> nat \<Rightarrow> jstring \<Rightarrow> box_verdict list \<Rightarrow> quarantined_order" where
  "set_aside order at status message boxConflicts =
     queued_order.extend order \<lparr>qq_at = at, qq_status = status, qq_message = message, qq_boxConflicts = boxConflicts\<rparr>"

definition pending_record :: "int \<Rightarrow> queued_order \<Rightarrow> bool" where
  "pending_record deviceSeq q \<longleftrightarrow> qo_deviceSeq q = deviceSeq \<and> qo_pendingAttestation q"

definition attestQueuedOrder :: "kiosk_store \<Rightarrow> int \<Rightarrow> create_order \<Rightarrow> kiosk_store \<times> bool" where
  "attestQueuedOrder store deviceSeq body =
     (store\<lparr>kt_queue := map (\<lambda>q. if pending_record deviceSeq q then q\<lparr>qo_body := body, qo_pendingAttestation := False\<rparr> else q)
         (kt_queue store)\<rparr>,
      length (filter (pending_record deviceSeq) (kt_queue store)) = 1)"

definition persistAdmissionNonce :: "kiosk_store \<Rightarrow> int \<Rightarrow> jstring \<Rightarrow> kiosk_store \<times> bool" where
  "persistAdmissionNonce store deviceSeq nonce =
     (store\<lparr>kt_queue := map (\<lambda>q. if pending_record deviceSeq q then q\<lparr>qo_admissionNonce := Some nonce\<rparr> else q) (kt_queue store)\<rparr>,
      length (filter (pending_record deviceSeq) (kt_queue store)) = 1)"

fun quarantine_all :: "jstring \<Rightarrow> jstring \<Rightarrow> queued_order list \<Rightarrow> kiosk_store \<Rightarrow> kiosk_store" where
  "quarantine_all stamp message [] store = store"
| "quarantine_all stamp message (order # orders) store =
     quarantine_all stamp message orders
       (dequeueOrder (quarantineOrder store (set_aside order stamp 0 message [])) (qo_deviceSeq order))"

definition quarantineQueue :: "kiosk_store \<Rightarrow> jstring \<Rightarrow> jstring \<Rightarrow> kiosk_store \<times> nat" where
  "quarantineQueue store stamp message = (quarantine_all stamp message (kt_queue store) store, length (kt_queue store))"

definition JOURNAL_RETENTION_MS :: int where
  "JOURNAL_RETENTION_MS = 14 * 24 * 60 * 60000"

definition expired_before :: "(jstring \<Rightarrow> int option) \<Rightarrow> int \<Rightarrow> kiosk_journal_entry \<Rightarrow> bool" where
  "expired_before date_parse horizon e = (case date_parse (je_at e) of Some t \<Rightarrow> t < horizon | None \<Rightarrow> False)"

definition pruneJournal :: "(jstring \<Rightarrow> int option) \<Rightarrow> int option \<Rightarrow> kiosk_journal_entry list \<Rightarrow> kiosk_journal_entry list" where
  "pruneJournal date_parse now journal =
     (case now of None \<Rightarrow> journal | Some t \<Rightarrow> dropWhile (expired_before date_parse (t - JOURNAL_RETENTION_MS)) journal)"

definition appendJournal :: "(jstring \<Rightarrow> int option) \<Rightarrow> bool \<Rightarrow> kiosk_store \<Rightarrow> kiosk_journal_entry \<Rightarrow> kiosk_store" where
  "appendJournal date_parse pruneFails store entry =
     (let journal = kt_journal store @ [entry]
      in store\<lparr>kt_journal := (if pruneFails then journal else pruneJournal date_parse (date_parse (je_at entry)) journal)\<rparr>)"

definition readJournalSince :: "(jstring \<Rightarrow> int option) \<Rightarrow> int option \<Rightarrow> kiosk_journal_entry list \<Rightarrow> kiosk_journal_entry list" where
  "readJournalSince date_parse since journal =
     (case since of
        None \<Rightarrow> []
      | Some floor_ms \<Rightarrow>
          let inside = (\<lambda>e. case date_parse (je_at e) of Some t \<Rightarrow> floor_ms \<le> t | None \<Rightarrow> False); newest = rev journal
          in takeWhile inside newest @ take 1 (dropWhile inside newest))"

definition MAX_OUTCOMES_PER_OWNER :: nat where
  "MAX_OUTCOMES_PER_OWNER = 100"

definition strip_slashes :: "jstring \<Rightarrow> jstring" where
  "strip_slashes s = rev (dropWhile (\<lambda>c. c = 47) (rev s))"

definition normalizedOwner :: "outcome_owner \<Rightarrow> outcome_owner" where
  "normalizedOwner owner = \<lparr>oo_serverUrl = strip_slashes (js_trim (oo_serverUrl owner)), oo_kioskId = js_trim (oo_kioskId owner),
     oo_credentialGeneration = to_lower (oo_credentialGeneration owner)\<rparr>"

definition same_outcome_slot :: "stored_outcome \<Rightarrow> stored_outcome \<Rightarrow> bool" where
  "same_outcome_slot a b \<longleftrightarrow> so_owner a = so_owner b \<and> so_deviceSeq a = so_deviceSeq b"

definition putOutcome :: "(jstring \<Rightarrow> jstring \<Rightarrow> int) \<Rightarrow> kiosk_store \<Rightarrow> stored_outcome \<Rightarrow> kiosk_store" where
  "putOutcome collate store outcome =
     (let stored = outcome\<lparr>so_owner := normalizedOwner (so_owner outcome)\<rparr>;
          replacement = (case List.find (same_outcome_slot stored) (kt_outcomes store) of
            Some existing \<Rightarrow> stored\<lparr>so_at := so_at existing, so_viewedAt := so_viewedAt existing\<rparr>
          | None \<Rightarrow> stored);
          all = filter (\<lambda>x. \<not> same_outcome_slot stored x) (kt_outcomes store) @ [replacement];
          owned = js_sort (\<lambda>l r. collate (so_at r) (so_at l)) (filter (\<lambda>x. so_owner x = so_owner stored) all);
          expired = drop MAX_OUTCOMES_PER_OWNER owned
      in store\<lparr>kt_outcomes := filter (\<lambda>x. \<not> list_ex (same_outcome_slot x) expired) all\<rparr>)"

subsection \<open>Answers\<close>

record api_error =
  ae_status :: nat
  ae_code :: "jstring option"
  ae_message :: jstring
  ae_conflicts :: "(jstring \<times> jstring) list option"
  ae_boxConflicts :: "box_verdict list option"

datatype failure = Api api_error | Unanswered | StoreFailed

datatype 'a wire = Answer 'a | Refused api_error | Lost

record admission =
  ad_claimedAt :: jstring
  ad_admissionProof :: jstring

definition isTerminalRejection :: "failure \<Rightarrow> bool" where
  "isTerminalRejection err = (case err of
     Api e \<Rightarrow> ae_status e \<in> {400, 409, 413, 422} \<or> ae_status e = 403 \<and> ae_code e = Some (lit ''subscription_read_only'')
   | _ \<Rightarrow> False)"

definition maySubmitWithoutAttestation :: "api_error \<Rightarrow> bool" where
  "maySubmitWithoutAttestation e \<longleftrightarrow> ae_status e = 404
     \<or> ae_status e = 403 \<and> ae_code e = Some (lit ''subscription_read_only'')
     \<or> ae_status e = 409 \<and> ae_code e = Some (lit ''kiosk_admission_not_required'')"

definition isUnreachable :: "failure \<Rightarrow> bool" where
  "isUnreachable err = (case err of Api e \<Rightarrow> ae_status e \<in> {502, 503, 504} | _ \<Rightarrow> True)"

definition BOX_CONFLICT_REASONS :: "jstring list" where
  "BOX_CONFLICT_REASONS = map lit [''unknown_box'', ''box_not_closed'', ''box_disassembled'', ''box_contents_changed'',
     ''mixed_product_box'', ''duplicate'', ''over_limit'']"

definition LOOSE_CONFLICT_REASONS :: "jstring list" where
  "LOOSE_CONFLICT_REASONS = map lit [''not_km'', ''incomplete'', ''unknown_product'', ''not_allowed'', ''duplicate'', ''over_limit'']"

definition box_count_ok :: "jnum \<Rightarrow> bool" where
  "box_count_ok n \<longleftrightarrow> is_integer n \<and> 0 < jint n \<and> jint n \<le> 500"

definition safe_box_conflict :: "box_verdict \<Rightarrow> bool" where
  "safe_box_conflict c \<longleftrightarrow> isValidSscc (bv_sscc c) \<and> (case bv_bottleCount c of None \<Rightarrow> True | Some n \<Rightarrow> box_count_ok n)
     \<and> bv_reason c \<in> set BOX_CONFLICT_REASONS"

definition safeBoxConflicts :: "box_verdict list option \<Rightarrow> box_verdict list" where
  "safeBoxConflicts raw = (case raw of
     None \<Rightarrow> []
   | Some cs \<Rightarrow> if 100 < length cs \<or> \<not> list_all safe_box_conflict cs then [] else cs)"

definition safe_loose_conflict :: "jstring \<times> jstring \<Rightarrow> bool" where
  "safe_loose_conflict c \<longleftrightarrow> fst c \<noteq> [] \<and> length (fst c) \<le> 4096 \<and> snd c \<in> set LOOSE_CONFLICT_REASONS"

definition code_tail :: "jstring \<Rightarrow> jstring" where
  "code_tail raw = 8230 # drop (length raw - 6) raw"

definition safeLooseConflicts :: "(jstring \<times> jstring) list option \<Rightarrow> rejected_line list" where
  "safeLooseConflicts raw = (case raw of
     None \<Rightarrow> []
   | Some cs \<Rightarrow> if 100 < length cs \<or> \<not> list_all safe_loose_conflict cs then []
               else map (\<lambda>(rawKm, reason). RejectedLoose (code_tail rawKm) reason) cs)"

definition safeAcceptedBoxes :: "(jstring \<times> int) list \<Rightarrow> (jstring \<times> int) list" where
  "safeAcceptedBoxes boxes =
     (if 100 < length boxes \<or> \<not> list_all (\<lambda>(sscc, n). isValidSscc sscc \<and> box_count_ok (JInt n)) boxes then [] else boxes)"

definition rejected_of_box :: "box_verdict \<Rightarrow> rejected_line" where
  "rejected_of_box c = RejectedBox (bv_sscc c) (case bv_bottleCount c of Some n \<Rightarrow> jint n | None \<Rightarrow> 1) (bv_reason c)"

definition rejectedOfResult :: "order_result \<Rightarrow> rejected_line list" where
  "rejectedOfResult result =
     safeLooseConflicts (Some (or_conflicts result))
     @ map rejected_of_box (safeBoxConflicts (Some (case or_boxConflicts result of Some cs \<Rightarrow> cs | None \<Rightarrow> [])))"

definition outcomeOwnerOf :: "kiosk_config \<Rightarrow> outcome_owner option" where
  "outcomeOwnerOf config = (case (kc_kioskId config, kc_credentialGeneration config) of
     (Some k, Some g) \<Rightarrow> if k \<noteq> [] \<and> g \<noteq> []
       then Some \<lparr>oo_serverUrl = kc_serverUrl config, oo_kioskId = k, oo_credentialGeneration = g\<rparr> else None
   | _ \<Rightarrow> None)"

subsection \<open>One order of a pass\<close>

record attempt =
  at_now :: jstring
  at_nonce :: jstring
  at_nonceFails :: bool
  at_attest :: "admission wire"
  at_attestFails :: bool
  at_submit :: "order_result wire"
  at_outcomeFails :: bool
  at_journalFails :: bool
  at_pruneFails :: bool
  at_quarantineFails :: bool
  at_dequeueFails :: bool

datatype attest_result = Skipped | Stopped failure | Ready queued_order

definition admissionRequest :: "create_order \<Rightarrow> create_order" where
  "admissionRequest body = body\<lparr>co_admissionProof := None, co_createdAt := None\<rparr>"

definition needs_nonce :: "queued_order \<Rightarrow> bool" where
  "needs_nonce order \<longleftrightarrow> qo_admissionNonce order = None \<or> qo_admissionNonce order = Some []"

definition attested_body :: "queued_order \<Rightarrow> admission wire \<Rightarrow> failure + create_order" where
  "attested_body order answer = (case answer of
     Answer a \<Rightarrow> Inr ((admissionRequest (qo_body order))\<lparr>co_admissionNonce := None, co_createdAt := Some (ad_claimedAt a),
                       co_admissionProof := Some (ad_admissionProof a)\<rparr>)
   | Refused e \<Rightarrow> if maySubmitWithoutAttestation e then Inr (qo_body order) else Inl (Api e)
   | Lost \<Rightarrow> Inl Unanswered)"

definition attest_phase :: "attempt \<Rightarrow> kiosk_store \<Rightarrow> queued_order \<Rightarrow> kiosk_store \<times> attest_result" where
  "attest_phase at store order =
     (if \<not> qo_pendingAttestation order then (store, Ready order)
      else if needs_nonce order \<and> at_nonceFails at then (store, Stopped StoreFailed)
      else
        let (store, present) = (if needs_nonce order then persistAdmissionNonce store (qo_deviceSeq order) (at_nonce at) else (store, True))
        in if \<not> present then (store, Skipped)
           else case attested_body order (at_attest at) of
             Inl err \<Rightarrow> (store, Stopped err)
           | Inr body \<Rightarrow>
               if at_attestFails at then (store, Stopped StoreFailed)
               else let (store', found) = attestQueuedOrder store (qo_deviceSeq order) body
                    in if found then (store', Ready (order\<lparr>qo_body := body, qo_pendingAttestation := False\<rparr>))
                       else (store', Skipped))"

definition outcome_of_result :: "outcome_owner \<Rightarrow> queued_order \<Rightarrow> jstring \<Rightarrow> order_result \<Rightarrow> stored_outcome" where
  "outcome_of_result owner order at result =
     \<lparr>so_owner = owner, so_deviceSeq = qo_deviceSeq order, so_employeeId = qo_employeeId order, so_at = at, so_viewedAt = None,
      so_kind = (if or_orderNo result = [] \<or> or_itemCount result = 0 then Stored_rejected
                 else if rejectedOfResult result \<noteq> [] then Stored_partial else Stored_accepted),
      so_orderNo = (if or_orderNo result = [] then None else Some (or_orderNo result)), so_acceptedCount = or_itemCount result,
      so_acceptedBoxes = safeAcceptedBoxes (case or_acceptedBoxes result of Some bs \<Rightarrow> bs | None \<Rightarrow> []),
      so_rejected = rejectedOfResult result\<rparr>"

definition answer_entry :: "jstring option \<Rightarrow> queued_order \<Rightarrow> queued_order \<Rightarrow> jstring \<Rightarrow> order_result \<Rightarrow> kiosk_journal_entry" where
  "answer_entry kioskId order submittedOrder at result =
     \<lparr>je_at = at, je_createdAt = Some (case co_createdAt (qo_body submittedOrder) of Some t \<Rightarrow> t | None \<Rightarrow> at),
      je_kioskId = kioskId, je_deviceSeq = Some (qo_deviceSeq order), je_orderNo = or_orderNo result,
      je_employeeId = qo_employeeId order, je_acceptedCount = Some (JInt (or_itemCount result)), je_conflicts = or_conflicts result,
      je_acceptedBoxes = safeAcceptedBoxes (case or_acceptedBoxes result of Some bs \<Rightarrow> bs | None \<Rightarrow> []),
      je_boxConflicts = safeBoxConflicts (Some (case or_boxConflicts result of Some cs \<Rightarrow> cs | None \<Rightarrow> []))\<rparr>"

definition refusal_entry :: "jstring option \<Rightarrow> queued_order \<Rightarrow> jstring \<Rightarrow> box_verdict list \<Rightarrow> kiosk_journal_entry" where
  "refusal_entry kioskId order at boxConflicts =
     \<lparr>je_at = at, je_createdAt = Some (case co_createdAt (qo_body order) of Some t \<Rightarrow> t | None \<Rightarrow> at), je_kioskId = kioskId,
      je_deviceSeq = Some (qo_deviceSeq order), je_orderNo = [], je_employeeId = qo_employeeId order,
      je_acceptedCount = Some (JInt 0), je_conflicts = [], je_acceptedBoxes = [], je_boxConflicts = boxConflicts\<rparr>"

definition outcome_of_refusal :: "outcome_owner \<Rightarrow> queued_order \<Rightarrow> jstring \<Rightarrow> api_error \<Rightarrow> stored_outcome" where
  "outcome_of_refusal owner order at err =
     \<lparr>so_owner = owner, so_deviceSeq = qo_deviceSeq order, so_employeeId = qo_employeeId order, so_at = at, so_viewedAt = None,
      so_kind = Stored_rejected, so_orderNo = None, so_acceptedCount = 0, so_acceptedBoxes = [],
      so_rejected = safeLooseConflicts (ae_conflicts err) @ map rejected_of_box (safeBoxConflicts (ae_boxConflicts err))\<rparr>"

record host =
  ho_parse :: "jstring \<Rightarrow> int option"
  ho_collate :: "jstring \<Rightarrow> jstring \<Rightarrow> int"

definition quarantine ::
    "host \<Rightarrow> attempt \<Rightarrow> jstring option \<Rightarrow> outcome_owner option \<Rightarrow> kiosk_store \<Rightarrow> queued_order \<Rightarrow> api_error \<Rightarrow> kiosk_store \<times> bool" where
  "quarantine h at kioskId owner store order err =
     (let boxConflicts = safeBoxConflicts (ae_boxConflicts err)
      in if at_quarantineFails at then (store, False)
         else
           let store = quarantineOrder store (set_aside order (at_now at) (ae_status err) (ae_message err) boxConflicts);
               store = (if at_journalFails at then store
                        else appendJournal (ho_parse h) (at_pruneFails at) store (refusal_entry kioskId order (at_now at) boxConflicts))
           in if owner \<noteq> None \<and> at_outcomeFails at then (store, False)
              else
                let store = (case owner of None \<Rightarrow> store
                      | Some ow \<Rightarrow> putOutcome (ho_collate h) store (outcome_of_refusal ow order (at_now at) err))
                in if at_dequeueFails at then (store, False) else (dequeueOrder store (qo_deviceSeq order), True))"

definition submit_phase ::
    "host \<Rightarrow> attempt \<Rightarrow> jstring option \<Rightarrow> outcome_owner option \<Rightarrow> kiosk_store \<Rightarrow> queued_order \<Rightarrow> queued_order \<Rightarrow> kiosk_store \<times> failure option" where
  "submit_phase h at kioskId owner store order submittedOrder =
     (case at_submit at of
        Refused e \<Rightarrow> (store, Some (Api e))
      | Lost \<Rightarrow> (store, Some Unanswered)
      | Answer result \<Rightarrow>
          if owner \<noteq> None \<and> at_outcomeFails at then (store, Some StoreFailed)
          else
            let store = (case owner of None \<Rightarrow> store
                  | Some ow \<Rightarrow> putOutcome (ho_collate h) store (outcome_of_result ow order (at_now at) result))
            in if at_journalFails at then (store, Some StoreFailed)
               else (appendJournal (ho_parse h) (at_pruneFails at) store (answer_entry kioskId order submittedOrder (at_now at) result), None))"

text \<open>What the loop does after an order: take the next one, or end the pass, with the flag that arms a retry.\<close>

datatype drain_next = Next | Halt bool

definition answered :: "attempt \<Rightarrow> bool" where
  "answered at = (case at_submit at of Answer _ \<Rightarrow> True | _ \<Rightarrow> False)"

definition after_failure ::
    "host \<Rightarrow> attempt \<Rightarrow> bool \<Rightarrow> jstring option \<Rightarrow> outcome_owner option \<Rightarrow> kiosk_store \<Rightarrow> queued_order \<Rightarrow> failure \<Rightarrow> kiosk_store \<times> drain_next" where
  "after_failure h at ans kioskId owner store order err =
     (case err of
        Api e \<Rightarrow>
          if isTerminalRejection err
          then (let (store, parked) = quarantine h at kioskId owner store order e
                in (store, if parked then Next else Halt (\<not> ans \<and> isUnreachable err)))
          else (store, Halt (\<not> ans \<and> isUnreachable err))
      | _ \<Rightarrow> (store, Halt (\<not> ans \<and> isUnreachable err)))"

definition drain_order ::
    "host \<Rightarrow> attempt \<Rightarrow> jstring option \<Rightarrow> outcome_owner option \<Rightarrow> kiosk_store \<Rightarrow> queued_order \<Rightarrow> kiosk_store \<times> drain_next" where
  "drain_order h at kioskId owner store order =
     (case attest_phase at store order of
        (store, Skipped) \<Rightarrow> (store, Next)
      | (store, Stopped err) \<Rightarrow> after_failure h at False kioskId owner store order err
      | (store, Ready submittedOrder) \<Rightarrow>
          (case submit_phase h at kioskId owner store order submittedOrder of
             (store, Some err) \<Rightarrow> after_failure h at (answered at) kioskId owner store order err
           | (store, None) \<Rightarrow>
               if at_dequeueFails at then (store, Halt False) else (dequeueOrder store (qo_deviceSeq order), Next)))"

fun drain_orders ::
    "host \<Rightarrow> (queued_order \<Rightarrow> attempt) \<Rightarrow> jstring option \<Rightarrow> outcome_owner option \<Rightarrow> kiosk_store \<Rightarrow> queued_order list \<Rightarrow> kiosk_store \<times> queued_order list" where
  "drain_orders h env kioskId owner store [] = (store, [])"
| "drain_orders h env kioskId owner store (order # orders) =
     (case drain_order h (env order) kioskId owner store order of
        (store', Next) \<Rightarrow> (let (s, offered) = drain_orders h env kioskId owner store' orders in (s, order # offered))
      | (store', Halt _) \<Rightarrow> (store', [order]))"

definition drainOnce :: "host \<Rightarrow> (queued_order \<Rightarrow> attempt) \<Rightarrow> kiosk_store \<Rightarrow> kiosk_store \<times> queued_order list" where
  "drainOnce h env store =
     drain_orders h env (Option.bind (kt_config store) kc_kioskId) (Option.bind (kt_config store) outcomeOwnerOf) store (kt_queue store)"


subsection \<open>Filing an order\<close>

record credential_owner =
  cw_serverUrl :: jstring
  cw_kioskId :: jstring
  cw_credentialGeneration :: jstring

definition boxRegistryBindingOf :: "kiosk_config \<Rightarrow> (jstring \<times> jstring) option" where
  "boxRegistryBindingOf config =
     (case kc_kioskId config of
        None \<Rightarrow> None
      | Some k \<Rightarrow>
          let serverUrl = strip_slashes (js_trim (kc_serverUrl config)); kioskId = js_trim k
          in if length serverUrl = 0 \<or> 2048 < length serverUrl \<or> length kioskId = 0 \<or> 128 < length kioskId then None
             else Some (serverUrl, kioskId))"

definition credentialGenerationOf :: "kiosk_config \<Rightarrow> jstring option" where
  "credentialGenerationOf config =
     (case kc_credentialGeneration config of
        Some g \<Rightarrow> if matches uuid_classes (to_lower g) then Some (to_lower g) else None
      | None \<Rightarrow> None)"

definition boxRegistryCredentialOwnerOf :: "kiosk_config \<Rightarrow> credential_owner option" where
  "boxRegistryCredentialOwnerOf config =
     (case (boxRegistryBindingOf config, credentialGenerationOf config) of
        (Some (url, k), Some g) \<Rightarrow> Some \<lparr>cw_serverUrl = url, cw_kioskId = k, cw_credentialGeneration = g\<rparr>
      | _ \<Rightarrow> None)"

definition context_owner :: "kiosk_store \<Rightarrow> credential_owner option" where
  "context_owner store =
     Option.bind (kt_config store) (\<lambda>config. if kc_hasToken config then boxRegistryCredentialOwnerOf config else None)"

text \<open>Two orders are compared as the JSON texts of these values; lists are sorted only when the body names boxes.\<close>

definition orderContent ::
    "create_order \<Rightarrow> int \<times> jstring \<times> jstring \<times> jstring option \<times> jstring list \<times> jstring list option" where
  "orderContent body =
     (let items = (case co_items body of Some xs \<Rightarrow> xs | None \<Rightarrow> [])
      in (co_deviceSeq body, co_badgeDigest body, co_reason body, co_writeoffReasonId body,
          (if co_boxes body = None then items else sort items), map_option sort (co_boxes body)))"

datatype enqueue_error = Bad_estimate | Wrong_owner | Sequence_conflict

definition acceptLegacy :: "kiosk_store \<Rightarrow> queued_order \<Rightarrow> credential_owner option \<Rightarrow> enqueue_error + kiosk_store" where
  "acceptLegacy store order expectedOwner =
     (let added = store\<lparr>kt_queue := put_by qo_deviceSeq order (kt_queue store)\<rparr>
      in if expectedOwner = None then Inr added
         else (case kt_config store of
                 None \<Rightarrow> Inl Sequence_conflict
               | Some config \<Rightarrow>
                   if kc_nextDeviceSeq config \<noteq> qo_deviceSeq order \<or> \<not> is_safe_integer (JInt (qo_deviceSeq order + 1))
                   then Inl Sequence_conflict
                   else Inr (added\<lparr>kt_config := Some (config\<lparr>kc_nextDeviceSeq := qo_deviceSeq order + 1\<rparr>)\<rparr>)))"

definition enqueueOrder ::
    "kiosk_store \<Rightarrow> create_order \<Rightarrow> jstring \<Rightarrow> bool \<Rightarrow> jnum option \<Rightarrow> credential_owner option \<Rightarrow> enqueue_error + kiosk_store" where
  "enqueueOrder store body employeeId pendingAttestation estimatedBottleCount expectedOwner =
     (if estimatedBottleCount \<noteq> None \<and> \<not> estimate_ok estimatedBottleCount then Inl Bad_estimate
      else if expectedOwner \<noteq> None \<and> context_owner store \<noteq> expectedOwner then Inl Wrong_owner
      else
        let order = \<lparr>qo_deviceSeq = co_deviceSeq body, qo_employeeId = Some employeeId, qo_body = body,
                     qo_pendingAttestation = pendingAttestation, qo_admissionNonce = None,
                     qo_estimatedBottleCount = estimatedBottleCount\<rparr>
        in case List.find (\<lambda>q. qo_deviceSeq q = co_deviceSeq body) (kt_queue store) of
             Some old \<Rightarrow>
               if orderContent (qo_body old) \<noteq> orderContent body \<or> qo_employeeId old \<noteq> Some employeeId
               then Inl Sequence_conflict else Inr store
           | None \<Rightarrow> acceptLegacy store order expectedOwner)"

text \<open>Submitting a confirmed session (\<open>submitCart\<close> of \<open>ui/KioskShell.tsx\<close>) up to the moment the order is
  durable; \<open>None\<close> is the action \<open>submitFailed\<close>. The count is the one the effect of a session computes.\<close>

definition submitCart :: "kiosk_store \<Rightarrow> kiosk_bootstrap option \<Rightarrow> kiosk_session \<Rightarrow> jstring \<Rightarrow> kiosk_store option" where
  "submitCart store bootstrap session createdAt =
     (case kt_config store of
        None \<Rightarrow> None
      | Some config \<Rightarrow>
          let policy = Option.bind bootstrap (\<lambda>b. effectivePickupPolicy b (ke_id (kn_employee session)))
          in if ca_reason (kn_cart session) = Writeoff \<and> \<not> (case policy of Some p \<Rightarrow> pp_canWriteoff p | None \<Rightarrow> False) then None
             else case boxRegistryCredentialOwnerOf config of
               None \<Rightarrow> None
             | Some owner \<Rightarrow>
                 (case enqueueOrder store (createConfirmedOrderBody session (kc_nextDeviceSeq config) createdAt)
                         (ke_id (kn_employee session)) True (Some (JInt (bottleCount (kn_cart session)))) (Some owner) of
                    Inl _ \<Rightarrow> None
                  | Inr store' \<Rightarrow> Some store'))"

definition takenToday ::
    "(jstring \<Rightarrow> int option) \<Rightarrow> (jstring \<Rightarrow> jstring option) \<Rightarrow> int option \<Rightarrow> jstring \<Rightarrow> kiosk_store \<Rightarrow> kiosk_bootstrap option \<Rightarrow> jstring \<Rightarrow> int" where
  "takenToday date_parse day_of dayStart today store bootstrap employeeId =
     countTakenToday day_of employeeId today (Option.bind (kt_config store) kc_kioskId)
       (readJournalSince date_parse dayStart (kt_journal store)) (kt_queue store)
     + takenTodayElsewhere bootstrap employeeId"

text \<open>The count belongs to a session. The effect stores it under the session's number when its read succeeds and leaves
  what was stored when the read fails; the cart is given the stored count if it is its own session's, and zero otherwise.\<close>

definition stored_count :: "bool \<Rightarrow> nat \<Rightarrow> int \<Rightarrow> (nat \<times> int) option \<Rightarrow> (nat \<times> int) option" where
  "stored_count landed sessionId n stored = (if landed then Some (sessionId, n) else stored)"

definition alreadyTakenToday :: "(nat \<times> int) option \<Rightarrow> nat \<Rightarrow> int" where
  "alreadyTakenToday stored sessionId =
     (case stored of Some (i, n) \<Rightarrow> if i = sessionId then n else 0 | None \<Rightarrow> 0)"

section \<open>Lemmas: one order\<close>

definition same_order :: "queued_order \<Rightarrow> queued_order \<Rightarrow> bool" where
  "same_order o1 o2 \<longleftrightarrow> qo_deviceSeq o1 = qo_deviceSeq o2 \<and> qo_employeeId o1 = qo_employeeId o2
     \<and> qo_estimatedBottleCount o1 = qo_estimatedBottleCount o2 \<and> orderContent (qo_body o1) = orderContent (qo_body o2)"

lemma same_order_refl [simp]: "same_order x x"
  by (simp add: same_order_def)

lemma attested_content: "attested_body order answer = Inr body \<Longrightarrow> orderContent body = orderContent (qo_body order)"
  by (auto simp: attested_body_def admissionRequest_def orderContent_def split: wire.splits if_splits)

lemma map_pending_other:
  "k \<notin> qo_deviceSeq ` set qs \<Longrightarrow> map (\<lambda>q. if pending_record k q then f q else q) qs = qs"
  "k \<notin> qo_deviceSeq ` set qs \<Longrightarrow> filter (pending_record k) qs = []"
  by (induction qs) (auto simp: pending_record_def)

text \<open>The order at the head of the queue, with the rest behind it, is found by the two conditional updates.\<close>

lemma nonce_head:
  assumes "kt_queue s = q # rest" "qo_deviceSeq q \<notin> qo_deviceSeq ` set rest" "qo_pendingAttestation q"
  shows "persistAdmissionNonce s (qo_deviceSeq q) n = (s\<lparr>kt_queue := q\<lparr>qo_admissionNonce := Some n\<rparr> # rest\<rparr>, True)"
  using assms map_pending_other [OF assms(2)] by (simp add: persistAdmissionNonce_def pending_record_def [of _ q])

lemma attest_head:
  assumes "kt_queue s = q # rest" "qo_deviceSeq q \<notin> qo_deviceSeq ` set rest" "qo_pendingAttestation q"
  shows "attestQueuedOrder s (qo_deviceSeq q) b = (s\<lparr>kt_queue := q\<lparr>qo_body := b, qo_pendingAttestation := False\<rparr> # rest\<rparr>, True)"
  using assms map_pending_other [OF assms(2)] by (simp add: attestQueuedOrder_def pending_record_def [of _ q])

lemma attest_phase_head:
  assumes q: "kt_queue s = order # rest" "qo_deviceSeq order \<notin> qo_deviceSeq ` set rest"
    and run: "attest_phase at s order = (s', r)"
  shows "\<exists>x. s' = s\<lparr>kt_queue := x # rest\<rparr> \<and> same_order order x \<and> r \<noteq> Skipped
    \<and> (\<forall>y. r = Ready y \<longrightarrow> same_order order y)"
proof (cases "qo_pendingAttestation order")
  case False
  then have "s' = s\<lparr>kt_queue := order # rest\<rparr>" "r = Ready order" using run q(1) by (auto simp: attest_phase_def)
  then show ?thesis by (intro exI [of _ order]) simp
next
  case True
  define o1 where "o1 = (if needs_nonce order then order\<lparr>qo_admissionNonce := Some (at_nonce at)\<rparr> else order)"
  define s1 where "s1 = s\<lparr>kt_queue := o1 # rest\<rparr>"
  have o1: "same_order order o1" "qo_deviceSeq o1 = qo_deviceSeq order" "qo_pendingAttestation o1"
    using True by (simp_all add: o1_def same_order_def)
  have s1: "(if needs_nonce order then persistAdmissionNonce s (qo_deviceSeq order) (at_nonce at) else (s, True)) = (s1, True)"
    using nonce_head [OF q True, of "at_nonce at"] q(1) by (simp add: s1_def o1_def)
  have upd: "attestQueuedOrder s1 (qo_deviceSeq order) b = (s\<lparr>kt_queue := o1\<lparr>qo_body := b, qo_pendingAttestation := False\<rparr> # rest\<rparr>, True)" for b
    using attest_head [of s1 o1 rest b] q(2) o1 by (simp add: s1_def)
  consider (nonce) "s' = s" "r = Stopped StoreFailed" | (stop) err where "s' = s1" "r = Stopped err"
    | (ready) body where "s' = s\<lparr>kt_queue := o1\<lparr>qo_body := body, qo_pendingAttestation := False\<rparr> # rest\<rparr>"
        "r = Ready (order\<lparr>qo_body := body, qo_pendingAttestation := False\<rparr>)" "attested_body order (at_attest at) = Inr body"
    using run True upd unfolding attest_phase_def s1
    by (cases "attested_body order (at_attest at)") (auto split: if_splits)
  then show ?thesis
  proof cases
    case nonce
    then show ?thesis using q(1) by (intro exI [of _ order]) simp
  next
    case stop
    then show ?thesis using o1 by (intro exI [of _ o1]) (simp add: s1_def)
  next
    case ready
    then show ?thesis using o1(1) attested_content [OF ready(3)]
      by (intro exI [of _ "o1\<lparr>qo_body := body, qo_pendingAttestation := False\<rparr>"]) (simp add: same_order_def)
  qed
qed


lemma putOutcome_frame [simp]:
  "kt_queue (putOutcome c s x) = kt_queue s" "kt_quarantine (putOutcome c s x) = kt_quarantine s"
  "kt_journal (putOutcome c s x) = kt_journal s" "kt_config (putOutcome c s x) = kt_config s"
  by (simp_all add: putOutcome_def Let_def)

lemma appendJournal_frame [simp]:
  "kt_queue (appendJournal p b s e) = kt_queue s" "kt_quarantine (appendJournal p b s e) = kt_quarantine s"
  "kt_config (appendJournal p b s e) = kt_config s"
  by (simp_all add: appendJournal_def Let_def)

lemma quarantineOrder_frame [simp]:
  "kt_queue (quarantineOrder s x) = kt_queue s" "kt_journal (quarantineOrder s x) = kt_journal s"
  "kt_quarantine (quarantineOrder s x) = put_by qo_deviceSeq x (kt_quarantine s)"
  by (simp_all add: quarantineOrder_def)

lemma dequeueOrder_frame [simp]:
  "kt_quarantine (dequeueOrder s k) = kt_quarantine s" "kt_journal (dequeueOrder s k) = kt_journal s"
  "kt_queue (dequeueOrder s k) = filter (\<lambda>q. qo_deviceSeq q \<noteq> k) (kt_queue s)"
  by (simp_all add: dequeueOrder_def)

lemma put_by_in [simp]: "x \<in> set (put_by key x ys)"
  by (induction ys) auto

lemma put_by_keeps: "y \<in> set ys \<Longrightarrow> key y \<noteq> key x \<Longrightarrow> y \<in> set (put_by key x ys)"
  by (induction ys) auto

lemma dropWhile_keeps: "x \<in> set xs \<Longrightarrow> \<not> P x \<Longrightarrow> x \<in> set (dropWhile P xs)"
  by (induction xs) auto

text \<open>An entry survives the housekeeping of an append unless it is older than the retention window.\<close>

definition outdated :: "host \<Rightarrow> jstring \<Rightarrow> kiosk_journal_entry \<Rightarrow> bool" where
  "outdated h now e = (case ho_parse h now of Some t \<Rightarrow> expired_before (ho_parse h) (t - JOURNAL_RETENTION_MS) e | None \<Rightarrow> False)"

lemma append_keeps:
  "e \<in> set (kt_journal s @ [x]) \<Longrightarrow> \<not> outdated h (je_at x) e \<Longrightarrow> e \<in> set (kt_journal (appendJournal (ho_parse h) b s x))"
  by (auto simp: appendJournal_def pruneJournal_def outdated_def Let_def intro: dropWhile_keeps split: option.splits)

lemma append_writes: "x \<in> set (kt_journal (appendJournal (ho_parse h) b s x))" for h :: host
proof (rule append_keeps)
  show "\<not> outdated h (je_at x) x" by (simp add: outdated_def expired_before_def JOURNAL_RETENTION_MS_def split: option.splits)
qed simp

definition grows :: "host \<Rightarrow> jstring \<Rightarrow> int \<Rightarrow> kiosk_store \<Rightarrow> kiosk_store \<Rightarrow> bool" where
  "grows h now k s s' \<longleftrightarrow>
     (\<forall>x\<in>set (kt_quarantine s). qo_deviceSeq x \<noteq> k \<longrightarrow> x \<in> set (kt_quarantine s'))
     \<and> (\<forall>e\<in>set (kt_journal s). \<not> outdated h now e \<longrightarrow> e \<in> set (kt_journal s'))"

lemma grows_refl: "kt_quarantine s' = kt_quarantine s \<Longrightarrow> kt_journal s' = kt_journal s \<Longrightarrow> grows h now k s s'"
  by (simp add: grows_def)

lemma grows_trans: "grows h now k s t \<Longrightarrow> grows h now k t u \<Longrightarrow> grows h now k s u"
  by (simp add: grows_def)

lemma grows_append: "je_at x = now \<Longrightarrow> kt_quarantine s' = kt_quarantine s \<Longrightarrow> kt_journal s' = kt_journal s
    \<Longrightarrow> grows h now k s (appendJournal (ho_parse h) b s' x)"
  using append_keeps [of _ s' x h b] by (auto simp: grows_def)

lemma set_aside_seq [simp]: "qo_deviceSeq (set_aside q a b c d) = qo_deviceSeq q"
  by (simp add: set_aside_def queued_order.defs)

lemma quarantine_step:
  assumes "quarantine h at kioskId owner s order e = (s', parked)"
  shows "grows h (at_now at) (qo_deviceSeq order) s s'
    \<and> kt_queue s' = (if parked then filter (\<lambda>q. qo_deviceSeq q \<noteq> qo_deviceSeq order) (kt_queue s) else kt_queue s)
    \<and> (parked \<longrightarrow> set_aside order (at_now at) (ae_status e) (ae_message e) (safeBoxConflicts (ae_boxConflicts e)) \<in> set (kt_quarantine s'))"
proof (cases "at_quarantineFails at")
  case True
  then show ?thesis using assms by (auto simp: quarantine_def grows_def)
next
  case False
  define x where "x = set_aside order (at_now at) (ae_status e) (ae_message e) (safeBoxConflicts (ae_boxConflicts e))"
  define s1 where "s1 = quarantineOrder s x"
  define s2 where "s2 = (if at_journalFails at then s1
      else appendJournal (ho_parse h) (at_pruneFails at) s1 (refusal_entry kioskId order (at_now at) (safeBoxConflicts (ae_boxConflicts e))))"
  have g1: "grows h (at_now at) (qo_deviceSeq order) s s1" by (auto simp: grows_def s1_def x_def intro: put_by_keeps)
  have "grows h (at_now at) (qo_deviceSeq order) s1 s2"
    by (auto simp: s2_def refusal_entry_def intro: grows_append grows_refl)
  then have g2: "grows h (at_now at) (qo_deviceSeq order) s s2" by (rule grows_trans [OF g1])
  have f2: "kt_queue s2 = kt_queue s" "x \<in> set (kt_quarantine s2)" by (simp_all add: s2_def s1_def)
  have out: "kt_quarantine s' = kt_quarantine s2 \<and> kt_journal s' = kt_journal s2
      \<and> kt_queue s' = (if parked then filter (\<lambda>q. qo_deviceSeq q \<noteq> qo_deviceSeq order) (kt_queue s2) else kt_queue s2)"
    using assms False unfolding quarantine_def Let_def x_def [symmetric] s1_def [symmetric] s2_def [symmetric]
    by (auto split: if_splits option.splits)
  then show ?thesis using g2 f2 by (simp add: grows_def x_def)
qed

lemma submit_phase_step:
  assumes "submit_phase h at kioskId owner s order sub = (s', r)"
  shows "grows h (at_now at) (qo_deviceSeq order) s s' \<and> kt_queue s' = kt_queue s
    \<and> (r = None \<longrightarrow> (\<exists>res. at_submit at = Answer res \<and> answer_entry kioskId order sub (at_now at) res \<in> set (kt_journal s')))"
proof (cases "at_submit at")
  case (Answer res)
  define s1 where "s1 = (case owner of None \<Rightarrow> s | Some ow \<Rightarrow> putOutcome (ho_collate h) s (outcome_of_result ow order (at_now at) res))"
  have f: "kt_queue s1 = kt_queue s" "kt_quarantine s1 = kt_quarantine s" "kt_journal s1 = kt_journal s"
    by (simp_all add: s1_def split: option.splits)
  have "s' = s \<and> r \<noteq> None \<or> s' = s1 \<and> r \<noteq> None
      \<or> s' = appendJournal (ho_parse h) (at_pruneFails at) s1 (answer_entry kioskId order sub (at_now at) res) \<and> r = None"
    using assms Answer unfolding submit_phase_def s1_def by (auto simp: Let_def split: if_splits)
  then show ?thesis using f Answer
    by (auto simp: grows_refl intro: grows_append append_writes simp add: answer_entry_def)
qed (use assms in \<open>auto simp: submit_phase_def grows_def\<close>)


text \<open>How an order can leave the queue: set aside after a terminal refusal, or answered and journalled.\<close>

definition parked_in :: "attempt \<Rightarrow> queued_order \<Rightarrow> kiosk_store \<Rightarrow> bool" where
  "parked_in at order s \<longleftrightarrow> (\<exists>e. isTerminalRejection (Api e)
     \<and> set_aside order (at_now at) (ae_status e) (ae_message e) (safeBoxConflicts (ae_boxConflicts e)) \<in> set (kt_quarantine s))"

definition journalled_in :: "attempt \<Rightarrow> jstring option \<Rightarrow> queued_order \<Rightarrow> kiosk_store \<Rightarrow> bool" where
  "journalled_in at kioskId order s \<longleftrightarrow> (\<exists>res sub. at_submit at = Answer res \<and> same_order order sub
     \<and> answer_entry kioskId order sub (at_now at) res \<in> set (kt_journal s))"

lemma after_failure_step:
  assumes "after_failure h at ans kioskId owner s order err = (s', n)"
  shows "grows h (at_now at) (qo_deviceSeq order) s s'
    \<and> (n = Next \<and> parked_in at order s' \<and> kt_queue s' = filter (\<lambda>q. qo_deviceSeq q \<noteq> qo_deviceSeq order) (kt_queue s)
       \<or> (\<exists>b. n = Halt b) \<and> kt_queue s' = kt_queue s)"
proof (cases "\<exists>e. err = Api e \<and> isTerminalRejection err")
  case True
  then obtain e where e: "err = Api e" "isTerminalRejection (Api e)" by blast
  obtain s1 parked where q: "quarantine h at kioskId owner s order e = (s1, parked)" by (cases "quarantine h at kioskId owner s order e")
  then show ?thesis using assms quarantine_step [OF q] e by (cases parked) (auto simp: after_failure_def parked_in_def)
next
  case False
  then show ?thesis using assms by (auto simp: after_failure_def grows_refl split: failure.splits if_splits)
qed

lemma drain_head:
  assumes q: "kt_queue s = order # rest" "qo_deviceSeq order \<notin> qo_deviceSeq ` set rest"
    and run: "drain_order h at kioskId owner s order = (s', n)"
  shows "grows h (at_now at) (qo_deviceSeq order) s s'
    \<and> (n = Next \<and> kt_queue s' = rest \<and> (parked_in at order s' \<or> journalled_in at kioskId order s')
       \<or> (\<exists>b x. n = Halt b \<and> kt_queue s' = x # rest \<and> same_order order x))"
proof -
  obtain s1 r where a: "attest_phase at s order = (s1, r)" by (cases "attest_phase at s order")
  obtain x where x: "s1 = s\<lparr>kt_queue := x # rest\<rparr>" "same_order order x" "r \<noteq> Skipped" "\<And>y. r = Ready y \<Longrightarrow> same_order order y"
    using attest_phase_head [OF q a] by blast
  have g1: "grows h (at_now at) (qo_deviceSeq order) s s1" by (simp add: x(1) grows_refl)
  have rest: "filter (\<lambda>q. qo_deviceSeq q \<noteq> qo_deviceSeq order) (x # rest) = rest"
    using x(2) q(2) by (simp add: same_order_def filter_id_conv) (metis image_eqI)
  have fail: ?thesis if "after_failure h at ans kioskId owner t order err = (s', n)" "grows h (at_now at) (qo_deviceSeq order) s t" "kt_queue t = x # rest" for ans t err
    using after_failure_step [OF that(1)] grows_trans [OF that(2)] that(3) x(2) rest by auto
  show ?thesis
  proof (cases r)
    case Skipped
    then show ?thesis using x(3) by simp
  next
    case (Stopped err)
    then show ?thesis using run a fail [of False s1 err] g1 x(1) by (simp add: drain_order_def)
  next
    case (Ready sub)
    obtain s2 f where sp: "submit_phase h at kioskId owner s1 order sub = (s2, f)" by (cases "submit_phase h at kioskId owner s1 order sub")
    note step = submit_phase_step [OF sp]
    have g2: "grows h (at_now at) (qo_deviceSeq order) s s2" using grows_trans [OF g1] step by blast
    have q2: "kt_queue s2 = x # rest" using step x(1) by simp
    show ?thesis
    proof (cases f)
      case (Some err)
      then show ?thesis using run a Ready sp fail [OF _ g2 q2] by (simp add: drain_order_def)
    next
      case None
      then have j: "journalled_in at kioskId order s2" using step x(4) [OF Ready] unfolding journalled_in_def by blast
      show ?thesis
      proof (cases "at_dequeueFails at")
        case True
        then show ?thesis using run a Ready sp None g2 q2 x(2) by (auto simp: drain_order_def)
      next
        case False
        then have s': "s' = dequeueOrder s2 (qo_deviceSeq order)" "n = Next" using run a Ready sp None by (simp_all add: drain_order_def)
        then have "kt_queue s' = rest" using q2 rest by simp
        moreover have "journalled_in at kioskId order s'" using j s' by (simp add: journalled_in_def)
        moreover have "grows h (at_now at) (qo_deviceSeq order) s s'" using g2 s' by (simp add: grows_def)
        ultimately show ?thesis using s'(2) by blast
      qed
    qed
  qed
qed

section \<open>Lemmas: a pass\<close>

text \<open>The clock readings of a pass lie within the retention window of the journal.\<close>

definition pass_within :: "host \<Rightarrow> (queued_order \<Rightarrow> attempt) \<Rightarrow> queued_order list \<Rightarrow> bool" where
  "pass_within h env orders \<longleftrightarrow> (\<exists>t0. \<forall>q\<in>set orders. \<exists>t. ho_parse h (at_now (env q)) = Some t \<and> t0 \<le> t \<and> t \<le> t0 + JOURNAL_RETENTION_MS)"

lemma within_not_outdated:
  assumes "pass_within h env orders" "p \<in> set orders" "q \<in> set orders" "je_at e = at_now (env p)"
  shows "\<not> outdated h (at_now (env q)) e"
proof -
  obtain t0 where t0: "\<And>x. x \<in> set orders \<Longrightarrow> \<exists>t. ho_parse h (at_now (env x)) = Some t \<and> t0 \<le> t \<and> t \<le> t0 + JOURNAL_RETENTION_MS"
    using assms(1) unfolding pass_within_def by blast
  obtain tp tq where "ho_parse h (at_now (env p)) = Some tp" "t0 \<le> tp" "ho_parse h (at_now (env q)) = Some tq" "tq \<le> t0 + JOURNAL_RETENTION_MS"
    using t0 [OF assms(2)] t0 [OF assms(3)] by blast
  then show ?thesis using assms(4) by (simp add: outdated_def expired_before_def)
qed

lemma answer_entry_at [simp]: "je_at (answer_entry k o1 o2 at r) = at"
  by (simp add: answer_entry_def)

lemma drain_orders_step:
  assumes "kt_queue s = orders" "sorted_wrt (<) (map qo_deviceSeq orders)" "drain_orders h env kioskId owner s orders = (s', offered)"
    "pass_within h env all" "set orders \<subseteq> set all"
  shows "(\<forall>q\<in>set all. qo_deviceSeq q \<notin> qo_deviceSeq ` set orders \<longrightarrow>
            (parked_in (env q) q s \<longrightarrow> parked_in (env q) q s') \<and> (journalled_in (env q) kioskId q s \<longrightarrow> journalled_in (env q) kioskId q s'))
    \<and> (\<exists>kept rest. orders = offered @ rest \<and> kt_queue s' = kept @ rest
       \<and> (kept = [] \<or> (\<exists>x. kept = [x] \<and> offered \<noteq> [] \<and> same_order (last offered) x))
       \<and> (\<forall>q\<in>set (if kept = [] then offered else butlast offered). parked_in (env q) q s' \<or> journalled_in (env q) kioskId q s'))"
  using assms
proof (induction orders arbitrary: s s' offered)
  case Nil
  then show ?case by simp
next
  case (Cons order orders)
  have new: "qo_deviceSeq order \<notin> qo_deviceSeq ` set orders" using Cons.prems(2) by force
  obtain s1 n where d: "drain_order h (env order) kioskId owner s order = (s1, n)" by (cases "drain_order h (env order) kioskId owner s order")
  note head = drain_head [OF Cons.prems(1) new d]
  have keep: "(parked_in (env q) q s \<longrightarrow> parked_in (env q) q s1) \<and> (journalled_in (env q) kioskId q s \<longrightarrow> journalled_in (env q) kioskId q s1)"
    if "q \<in> set all" "qo_deviceSeq q \<noteq> qo_deviceSeq order" for q
  proof -
    have "\<not> outdated h (at_now (env order)) (answer_entry kioskId q sub (at_now (env q)) res)" for sub res
      by (rule within_not_outdated [OF Cons.prems(4) that(1)]) (use Cons.prems(5) in auto)
    then show ?thesis using head that(2) unfolding grows_def parked_in_def journalled_in_def by (metis set_aside_seq)
  qed
  show ?case
  proof (cases n)
    case (Halt b)
    then obtain x where "kt_queue s1 = x # orders" "same_order order x" using head by auto
    moreover have "s' = s1" "offered = [order]" using Cons.prems(3) d Halt by simp_all
    ultimately show ?thesis using keep by (intro conjI ballI impI exI [of _ "[x]"] exI [of _ orders]) (auto simp: image_iff)
  next
    case Next
    then have q1: "kt_queue s1 = orders" "parked_in (env order) order s1 \<or> journalled_in (env order) kioskId order s1" using head by auto
    obtain off where off: "drain_orders h env kioskId owner s1 orders = (s', off)" "offered = order # off"
      using Cons.prems(3) d Next by (auto split: prod.splits)
    have ih: "(\<forall>q\<in>set all. qo_deviceSeq q \<notin> qo_deviceSeq ` set orders \<longrightarrow>
            (parked_in (env q) q s1 \<longrightarrow> parked_in (env q) q s') \<and> (journalled_in (env q) kioskId q s1 \<longrightarrow> journalled_in (env q) kioskId q s'))"
      and "\<exists>kept rest. orders = off @ rest \<and> kt_queue s' = kept @ rest
       \<and> (kept = [] \<or> (\<exists>x. kept = [x] \<and> off \<noteq> [] \<and> same_order (last off) x))
       \<and> (\<forall>q\<in>set (if kept = [] then off else butlast off). parked_in (env q) q s' \<or> journalled_in (env q) kioskId q s')"
      using Cons.IH [OF q1(1) _ off(1) Cons.prems(4)] Cons.prems(2,5) by auto
    then obtain kept rest where kr: "orders = off @ rest" "kt_queue s' = kept @ rest"
       "kept = [] \<or> (\<exists>x. kept = [x] \<and> off \<noteq> [] \<and> same_order (last off) x)"
       "\<forall>q\<in>set (if kept = [] then off else butlast off). parked_in (env q) q s' \<or> journalled_in (env q) kioskId q s'" by blast
    have own: "parked_in (env order) order s' \<or> journalled_in (env order) kioskId order s'"
      using ih q1(2) new Cons.prems(5) by auto
    have "order # orders = offered @ rest \<and> kt_queue s' = kept @ rest
       \<and> (kept = [] \<or> (\<exists>x. kept = [x] \<and> offered \<noteq> [] \<and> same_order (last offered) x))
       \<and> (\<forall>q\<in>set (if kept = [] then offered else butlast offered). parked_in (env q) q s' \<or> journalled_in (env q) kioskId q s')"
      using kr own off(2) by (auto split: if_splits)
    moreover have "(parked_in (env q) q s \<longrightarrow> parked_in (env q) q s') \<and> (journalled_in (env q) kioskId q s \<longrightarrow> journalled_in (env q) kioskId q s')"
      if "q \<in> set all" "qo_deviceSeq q \<notin> qo_deviceSeq ` set (order # orders)" for q
      using ih keep [OF that(1)] that by auto
    ultimately show ?thesis by blast
  qed
qed

text \<open>C13: Nothing a worker took is lost and nothing overtakes: a pass offers the server a prefix of the queue in
  sequence order; every order it offered before the last one, and the last one too unless the pass
  stopped on it, has left the queue, and each of these is either in the quarantine with its whole
  record after a refusal that can never change, or it was answered and the answer, with the employee and
  the number of accepted bottles, is in the journal. The order the pass stopped on is still queued with
  the same content and for the same employee, and all the others are untouched. This holds whatever
  the server answers and whichever of the writes fails, for a pass whose clock readings lie within the retention period
  of the journal.\<close>

theorem kiosk_delivery_custody:
  assumes "sorted_wrt (<) (map qo_deviceSeq (kt_queue s))" "drainOnce h env s = (s', offered)" "pass_within h env (kt_queue s)"
  shows "\<exists>kept rest. kt_queue s = offered @ rest \<and> kt_queue s' = kept @ rest
    \<and> (kept = [] \<or> (\<exists>q. kept = [q] \<and> offered \<noteq> [] \<and> same_order (last offered) q))
    \<and> (\<forall>q\<in>set (if kept = [] then offered else butlast offered).
         (\<exists>e. isTerminalRejection (Api e) \<and>
            set_aside q (at_now (env q)) (ae_status e) (ae_message e) (safeBoxConflicts (ae_boxConflicts e)) \<in> set (kt_quarantine s'))
         \<or> (\<exists>res entry. at_submit (env q) = Answer res \<and> entry \<in> set (kt_journal s') \<and> je_deviceSeq entry = Some (qo_deviceSeq q)
              \<and> je_employeeId entry = qo_employeeId q \<and> je_acceptedCount entry = Some (JInt (or_itemCount res))))"
proof -
  have entry: "\<exists>res entry. at_submit (env q) = Answer res \<and> entry \<in> set (kt_journal s') \<and> je_deviceSeq entry = Some (qo_deviceSeq q)
              \<and> je_employeeId entry = qo_employeeId q \<and> je_acceptedCount entry = Some (JInt (or_itemCount res))"
    if "journalled_in (env q) k q s'" for q k
    using that unfolding journalled_in_def by (force simp: answer_entry_def)
  obtain kept rest where "kt_queue s = offered @ rest" "kt_queue s' = kept @ rest"
       "kept = [] \<or> (\<exists>x. kept = [x] \<and> offered \<noteq> [] \<and> same_order (last offered) x)"
       "\<forall>q\<in>set (if kept = [] then offered else butlast offered). parked_in (env q) q s'
          \<or> journalled_in (env q) (Option.bind (kt_config s) kc_kioskId) q s'"
    using drain_orders_step [OF refl assms(1) _ assms(3) subset_refl] assms(2) unfolding drainOnce_def by blast
  then show ?thesis using entry unfolding parked_in_def by (intro exI [of _ kept] exI [of _ rest] conjI ballI) blast+
qed


section \<open>The day limit over a whole day\<close>

lemma put_by_last: "\<forall>y\<in>set ys. key y < key x \<Longrightarrow> put_by key x ys = ys @ [x]"
  by (induction ys) auto

text \<open>The sequence counter is above every order of this kiosk the device knows.\<close>

definition fresh_counter :: "kiosk_store \<Rightarrow> bool" where
  "fresh_counter s \<longleftrightarrow> (case kt_config s of
     None \<Rightarrow> True
   | Some c \<Rightarrow> (\<forall>q\<in>set (kt_queue s). qo_deviceSeq q < kc_nextDeviceSeq c)
       \<and> (\<forall>e\<in>set (kt_journal s). kioskIdOf (je_kioskId e) = kc_kioskId c \<longrightarrow> (\<forall>k. je_deviceSeq e = Some k \<longrightarrow> k < kc_nextDeviceSeq c)))"

lemma readJournalSince_subset: "set (readJournalSince p t js) \<subseteq> set js"
proof -
  have "x \<in> set (takeWhile P (rev js)) \<Longrightarrow> x \<in> set js" "x \<in> set (take 1 (dropWhile P (rev js))) \<Longrightarrow> x \<in> set js" for x P
    using set_takeWhileD [of x P "rev js"] set_dropWhileD [of x P "rev js"] in_set_takeD [of x 1 "dropWhile P (rev js)"] by auto
  then show ?thesis unfolding readJournalSince_def Let_def by (cases t) (simp_all add: subset_iff del: One_nat_def)
qed

lemma counted_seq: "x \<in> set (counted d emp today w) \<Longrightarrow> \<exists>v. w = Some v \<and> fst x = wd_deviceSeq v"
  by (auto simp: counted_def split: option.splits if_splits)

lemma attributed_seq:
  "attributedEntry e = Some w \<Longrightarrow> je_deviceSeq e = Some (wd_deviceSeq w)"
  "attributedOrder q = Some w \<Longrightarrow> wd_deviceSeq w = qo_deviceSeq q"
  by (auto simp: attributedEntry_def attributedOrder_def split: option.splits if_splits)

lemma counted_below:
  assumes "kt_config s = Some c" "fresh_counter s"
    "x \<in> set (journal_orders d emp today (kc_kioskId c) (readJournalSince p t (kt_journal s)) @ queue_orders d emp today (kt_queue s))"
  shows "fst x < kc_nextDeviceSeq c"
proof -
  from assms(3) consider
      e where "e \<in> set (kt_journal s)" "kioskIdOf (je_kioskId e) = kc_kioskId c" "x \<in> set (counted d emp today (attributedEntry e))"
    | q where "q \<in> set (kt_queue s)" "x \<in> set (counted d emp today (attributedOrder q))"
    using readJournalSince_subset [of p t "kt_journal s"] by (auto simp: journal_orders_def queue_orders_def split: if_splits)
  then show ?thesis
  proof cases
    case (1 e)
    from counted_seq [OF 1(3)] obtain v where "attributedEntry e = Some v" "fst x = wd_deviceSeq v" by blast
    then show ?thesis using 1(1,2) assms(1,2) attributed_seq(1) [of e v] by (simp add: fresh_counter_def)
  next
    case (2 q)
    from counted_seq [OF 2(2)] obtain v where "attributedOrder q = Some v" "fst x = wd_deviceSeq v" by blast
    then show ?thesis using 2(1) assms(1,2) attributed_seq(2) [of q v] by (simp add: fresh_counter_def)
  qed
qed

lemma submitCart_files:
  assumes "submitCart s b session t = Some s'" "fresh_counter s"
  obtains c where "kt_config s = Some c" "kt_journal s' = kt_journal s" "fresh_counter s'"
    "kt_config s' = Some (c\<lparr>kc_nextDeviceSeq := kc_nextDeviceSeq c + 1\<rparr>)"
    "kt_queue s' = kt_queue s @ [\<lparr>qo_deviceSeq = kc_nextDeviceSeq c, qo_employeeId = Some (ke_id (kn_employee session)),
        qo_body = createConfirmedOrderBody session (kc_nextDeviceSeq c) t, qo_pendingAttestation = True, qo_admissionNonce = None,
        qo_estimatedBottleCount = Some (JInt (bottleCount (kn_cart session)))\<rparr>]"
    "0 \<le> bottleCount (kn_cart session)" "bottleCount (kn_cart session) \<le> 1500"
proof -
  obtain c owner where c: "kt_config s = Some c"
    "enqueueOrder s (createConfirmedOrderBody session (kc_nextDeviceSeq c) t)
       (ke_id (kn_employee session)) True (Some (JInt (bottleCount (kn_cart session)))) (Some owner) = Inr s'"
    using assms(1) by (auto simp: submitCart_def Let_def split: option.splits if_splits sum.splits)
  let ?o = "\<lparr>qo_deviceSeq = kc_nextDeviceSeq c, qo_employeeId = Some (ke_id (kn_employee session)),
        qo_body = createConfirmedOrderBody session (kc_nextDeviceSeq c) t, qo_pendingAttestation = True, qo_admissionNonce = None,
        qo_estimatedBottleCount = Some (JInt (bottleCount (kn_cart session)))\<rparr>"
  have below: "\<forall>q\<in>set (kt_queue s). qo_deviceSeq q < kc_nextDeviceSeq c" using assms(2) c(1) by (simp add: fresh_counter_def)
  then have none: "List.find (\<lambda>q. qo_deviceSeq q = kc_nextDeviceSeq c) (kt_queue s) = None" by (auto simp: find_None_iff)
  have put: "put_by qo_deviceSeq ?o (kt_queue s) = kt_queue s @ [?o]" using below by (intro put_by_last) simp
  have seq: "co_deviceSeq (createConfirmedOrderBody session (kc_nextDeviceSeq c) t) = kc_nextDeviceSeq c"
    by (simp add: createConfirmedOrderBody_def)
  have s': "s' = s\<lparr>kt_queue := kt_queue s @ [?o], kt_config := Some (c\<lparr>kc_nextDeviceSeq := kc_nextDeviceSeq c + 1\<rparr>)\<rparr>"
    "estimate_ok (Some (JInt (bottleCount (kn_cart session))))"
    using c(2) unfolding enqueueOrder_def acceptLegacy_def Let_def seq none put by (auto simp: c(1) split: if_splits)
  have "fresh_counter s'" using assms(2) c(1) by (auto simp: fresh_counter_def s'(1) less_Suc_eq)
  then show ?thesis using that c(1) s' by (simp add: estimate_ok_def)
qed

lemma submitCart_count:
  assumes "submitCart s b session t = Some s'" "fresh_counter s" "day_of t = Some today" "ke_id (kn_employee session) = emp" "emp \<noteq> []"
  shows "takenToday p day_of dayStart today s' b emp = takenToday p day_of dayStart today s b emp + bottleCount (kn_cart session)"
proof -
  let ?n = "bottleCount (kn_cart session)"
  obtain c where c: "kt_config s = Some c" "kt_journal s' = kt_journal s"
    "kt_config s' = Some (c\<lparr>kc_nextDeviceSeq := kc_nextDeviceSeq c + 1\<rparr>)"
    "kt_queue s' = kt_queue s @ [\<lparr>qo_deviceSeq = kc_nextDeviceSeq c, qo_employeeId = Some emp,
        qo_body = createConfirmedOrderBody session (kc_nextDeviceSeq c) t, qo_pendingAttestation = True, qo_admissionNonce = None,
        qo_estimatedBottleCount = Some (JInt ?n)\<rparr>]" "0 \<le> ?n" "?n \<le> 1500"
    using submitCart_files [OF assms(1,2)] assms(4) by metis
  let ?q = "last (kt_queue s')"
  let ?w = "\<lparr>wd_deviceSeq = kc_nextDeviceSeq c, wd_employeeId = emp, wd_takenAt = t, wd_items = ?n\<rparr>"
  have w: "attributedOrder ?q = Some ?w"
    using assms(5) c(5,6) by (simp add: c(4) attributedOrder_def createConfirmedOrderBody_def estimate_ok_def)
  have fresh: "wd_deviceSeq ?w \<notin> fst ` set (journal_orders day_of emp today (kc_kioskId c) (readJournalSince p dayStart (kt_journal s))
      @ queue_orders day_of emp today (kt_queue s))"
    using counted_below [OF c(1) assms(2)] by fastforce
  have "kt_queue s' = kt_queue s @ [?q]" by (simp add: c(4))
  then show ?thesis using count_after_enqueue [OF fresh w] assms(3) by (simp add: takenToday_def c(1-3))
qed

lemma takenToday_nonneg: "0 \<le> takenToday p day_of dayStart today s b emp"
proof -
  have "0 \<le> takenTodayElsewhere b emp" by (auto simp: takenTodayElsewhere_def split: option.splits)
  then show ?thesis using countTakenToday_nonneg unfolding takenToday_def by (simp add: add_nonneg_nonneg)
qed

lemma dayLimit_nonneg: "effectivePickupPolicy b emp = Some pol \<Longrightarrow> 0 \<le> pp_dayLimit pol"
proof -
  have pos: "positive_int n \<Longrightarrow> 0 < jint (the n)" for n by (cases n) simp_all
  assume "effectivePickupPolicy b emp = Some pol"
  then show ?thesis
    by (auto simp: effectivePickupPolicy_def isCompleteCurrentPickupPolicy_def split: option.splits if_splits dest!: pos)
qed

text \<open>A session of an employee: what is done at the cart before the read of the day count ends and after it, whether the
  read succeeded, and the time of the order. A session is blind when something was scanned while its count stood at zero
  for want of the read.\<close>

record day_session =
  ds_early :: "cart_action list"
  ds_landed :: bool
  ds_late :: "cart_action list"
  ds_at :: jstring

definition blind :: "day_session \<Rightarrow> bool" where
  "blind ds \<longleftrightarrow> list_ex scans (ds_early ds @ (if ds_landed ds then [] else ds_late ds))"

definition session_cart :: "kiosk_bootstrap \<Rightarrow> jstring \<Rightarrow> nat \<Rightarrow> int \<Rightarrow> (nat \<times> int) option \<Rightarrow> day_session \<Rightarrow> cart_state" where
  "session_cart b emp i n stored ds =
     (let ctx = (\<lambda>st. \<lparr>cc_bootstrap = b, cc_employeeId = emp, cc_alreadyTakenToday = alreadyTakenToday st i\<rparr>)
      in cart_run (map (\<lambda>a. (a, ctx stored)) (ds_early ds)
           @ map (\<lambda>a. (a, ctx (stored_count (ds_landed ds) i n stored))) (ds_late ds)))"

lemma session_cart_bound:
  assumes "effectivePickupPolicy b emp = Some pol" "pp_limited pol" "list_all sane_action (ds_early ds @ ds_late ds)"
    and "alreadyTakenToday stored i = 0" "0 \<le> n"
  shows "bottleCount (session_cart b emp i n stored ds) \<le> (if blind ds then pp_dayLimit pol else max 0 (pp_dayLimit pol - n))"
proof -
  let ?ctx = "\<lambda>st. \<lparr>cc_bootstrap = b, cc_employeeId = emp, cc_alreadyTakenToday = alreadyTakenToday st i\<rparr>"
  let ?early = "map (\<lambda>a. (a, ?ctx stored)) (ds_early ds)"
  let ?late = "map (\<lambda>a. (a, ?ctx (stored_count (ds_landed ds) i n stored))) (ds_late ds)"
  have pol: "cartPickupPolicy \<lparr>cc_bootstrap = b, cc_employeeId = emp, cc_alreadyTakenToday = k\<rparr> = pol" for k
    using assms(1) by (simp add: cartPickupPolicy_def)
  have L: "0 \<le> pp_dayLimit pol" by (rule dayLimit_nonneg [OF assms(1)])
  have early: "allowance (?ctx stored) = pp_dayLimit pol" using assms(4) L by (simp add: allowance_def pol)
  have late: "allowance (?ctx (stored_count (ds_landed ds) i n stored))
      = (if ds_landed ds then max 0 (pp_dayLimit pol - n) else pp_dayLimit pol)"
    using early by (simp add: allowance_def pol stored_count_def alreadyTakenToday_def)
  have within: "list_all (\<lambda>(a, ctx). sane_action a \<and> pp_limited (cartPickupPolicy ctx) \<and> allowance ctx \<le> M) (map (\<lambda>a. (a, ?ctx st)) acts)"
    if "allowance (?ctx st) \<le> M" "list_all sane_action acts" for M st acts
    using that assms(2) by (simp add: list_all_iff pol)
  have scanless: "list_ex (\<lambda>(a, ctx). scans a) (map (\<lambda>a. (a, ctx)) acts) = list_ex scans acts" for acts ctx
    by (simp add: list_ex_iff)
  consider (blind) "blind ds" | (read) "\<not> blind ds" "ds_landed ds" | (none) "\<not> blind ds" "\<not> ds_landed ds" by blast
  then show ?thesis
  proof cases
    case blind
    have "bottleCount (cart_run (?early @ ?late)) \<le> pp_dayLimit pol"
      by (rule cart_run_limit [OF within L disjI2 [OF within]]) (use assms(3,5) early late L in \<open>auto split: if_splits\<close>)
    then show ?thesis using blind by (simp add: session_cart_def)
  next
    case read
    have "bottleCount (cart_run (?early @ ?late)) \<le> max 0 (pp_dayLimit pol - n)"
      by (rule cart_run_limit [OF within _ disjI1]) (use assms(3) late read in \<open>auto simp: scanless blind_def\<close>)
    then show ?thesis using read by (simp add: session_cart_def)
  next
    case none
    then have "\<not> list_ex (\<lambda>(a, ctx). scans a) (?early @ ?late)" by (simp add: scanless blind_def)
    then have "bottleCount (cart_run ((?early @ ?late) @ [])) \<le> 0" by (intro cart_run_limit disjI1) simp_all
    then show ?thesis using none by (simp add: session_cart_def)
  qed
qed

text \<open>One employee's sessions of a day at a kiosk that delivers nothing and reads no new snapshot meanwhile: each has a
  fresh number, reads the count of the moment or fails to, fills a cart by any actions and is submitted.\<close>

fun day_of_sessions ::
    "(jstring \<Rightarrow> int option) \<Rightarrow> (jstring \<Rightarrow> jstring option) \<Rightarrow> int option \<Rightarrow> jstring \<Rightarrow> kiosk_bootstrap \<Rightarrow> kiosk_session
       \<Rightarrow> nat \<Rightarrow> (nat \<times> int) option \<Rightarrow> day_session list \<Rightarrow> kiosk_store \<Rightarrow> kiosk_store" where
  "day_of_sessions p day_of dayStart today b base i stored [] s = s"
| "day_of_sessions p day_of dayStart today b base i stored (ds # sessions) s =
     (let emp = ke_id (kn_employee base);
          n = takenToday p day_of dayStart today s (Some b) emp;
          session = with_cart base (session_cart b emp (Suc i) n stored ds)
      in day_of_sessions p day_of dayStart today b base (Suc i) (stored_count (ds_landed ds) (Suc i) n stored) sessions
           (case submitCart s (Some b) session (ds_at ds) of Some s' \<Rightarrow> s' | None \<Rightarrow> s))"

text \<open>C14: The local day limit over a whole day, as good as its reads: take the sessions of an employee with a limit at a
  kiosk that delivers nothing and refreshes nothing meanwhile, each filled by any scans (of boxes with a bottle count
  that is not negative), removals and resets and then submitted. What the device counts as taken at the end, its own
  orders and those of the other kiosks together, is at most the limit, or what was counted at the start if that is more,
  plus one limit for every session in which something was scanned while the count still stood at zero because its read
  had not ended, or had failed. So if every session's read succeeds before its first scan, the count stays within the
  limit, or where it started.\<close>

theorem kiosk_day_limit:
  assumes "effectivePickupPolicy b (ke_id (kn_employee base)) = Some pol" "pp_limited pol" "ke_id (kn_employee base) \<noteq> []"
    and "fresh_counter s" "list_all (\<lambda>ds. list_all sane_action (ds_early ds @ ds_late ds) \<and> day_of (ds_at ds) = Some today) sessions"
    and "case stored of Some (j, n) \<Rightarrow> j \<le> i | None \<Rightarrow> True"
  shows "takenToday p day_of dayStart today (day_of_sessions p day_of dayStart today b base i stored sessions s) (Some b) (ke_id (kn_employee base))
    \<le> max (pp_dayLimit pol) (takenToday p day_of dayStart today s (Some b) (ke_id (kn_employee base)))
      + pp_dayLimit pol * int (length (filter blind sessions))"
  using assms(4-6)
proof (induction sessions arbitrary: i stored s)
  case Nil
  then show ?case by simp
next
  case (Cons ds sessions)
  let ?emp = "ke_id (kn_employee base)"
  let ?taken = "\<lambda>s. takenToday p day_of dayStart today s (Some b) ?emp"
  let ?L = "pp_dayLimit pol"
  define stored' where "stored' = stored_count (ds_landed ds) (Suc i) (?taken s) stored"
  define cart where "cart = session_cart b ?emp (Suc i) (?taken s) stored ds"
  define s1 where "s1 = (case submitCart s (Some b) (with_cart base cart) (ds_at ds) of Some s' \<Rightarrow> s' | None \<Rightarrow> s)"
  have L: "0 \<le> ?L" by (rule dayLimit_nonneg [OF assms(1)])
  have zero: "alreadyTakenToday stored (Suc i) = 0" and next_id: "case stored' of Some (j, n) \<Rightarrow> j \<le> Suc i | None \<Rightarrow> True"
    using Cons.prems(3) by (auto simp: alreadyTakenToday_def stored'_def stored_count_def split: option.splits)
  have cart: "bottleCount cart \<le> (if blind ds then ?L else max 0 (?L - ?taken s))"
    unfolding cart_def using Cons.prems(2) by (intro session_cart_bound [OF assms(1,2) _ zero takenToday_nonneg]) simp
  have fresh: "fresh_counter s1"
    using Cons.prems(1) by (auto simp: s1_def split: option.splits elim: submitCart_files)
  have s1: "max ?L (?taken s1) \<le> max ?L (?taken s) + (if blind ds then ?L else 0)"
  proof (cases "submitCart s (Some b) (with_cart base cart) (ds_at ds)")
    case (Some s')
    then have "?taken s1 = ?taken s + bottleCount cart"
      using submitCart_count [OF Some Cons.prems(1), of day_of today ?emp p dayStart] Cons.prems(2) assms(3) by (simp add: s1_def)
    then show ?thesis using cart L by (auto split: if_splits)
  qed (use L in \<open>simp add: s1_def\<close>)
  have "day_of_sessions p day_of dayStart today b base i stored (ds # sessions) s
      = day_of_sessions p day_of dayStart today b base (Suc i) stored' sessions s1"
    by (simp add: s1_def cart_def stored'_def Let_def)
  then have "?taken (day_of_sessions p day_of dayStart today b base i stored (ds # sessions) s)
      \<le> max ?L (?taken s1) + ?L * int (length (filter blind sessions))"
    using Cons.IH [OF fresh _ next_id] Cons.prems(2) by simp
  then show ?case using s1 by (auto simp: algebra_simps split: if_splits)
qed


section \<open>Concrete passes\<close>

definition sample_host :: host where
  "sample_host = \<lparr>ho_parse = (\<lambda>t. Some 0), ho_collate = (\<lambda>a b. 0)\<rparr>"

definition sample_store :: kiosk_store where
  "sample_store = \<lparr>kt_queue = [sample_order 7 3, sample_order 8 4], kt_quarantine = [], kt_journal = [], kt_outcomes = [], kt_config = None\<rparr>"

definition sample_attempt :: "order_result wire \<Rightarrow> attempt" where
  "sample_attempt answer = \<lparr>at_now = lit ''n'', at_nonce = lit ''x'', at_nonceFails = False, at_attest = Lost, at_attestFails = False,
     at_submit = answer, at_outcomeFails = False, at_journalFails = False, at_pruneFails = False, at_quarantineFails = False,
     at_dequeueFails = False\<rparr>"

definition sample_env :: "queued_order \<Rightarrow> attempt" where
  "sample_env q = sample_attempt (if qo_deviceSeq q = 7 then Answer sample_answer else Lost)"

definition sample_after :: kiosk_store where
  "sample_after = fst (drainOnce sample_host sample_env sample_store)"

lemma sample_order_facts [simp]: "qo_deviceSeq (sample_order k n) = k" "\<not> qo_pendingAttestation (sample_order k n)"
  by (simp_all add: sample_order_def)

lemma sample_pass: "drainOnce sample_host sample_env sample_store = (sample_after, [sample_order 7 3, sample_order 8 4])"
  "kt_queue sample_after = [sample_order 8 4]"
  by (simp_all add: sample_after_def drainOnce_def sample_store_def sample_env_def drain_order_def attest_phase_def submit_phase_def
      sample_attempt_def after_failure_def)

text \<open>Order 7 is answered, the link then fails on order 8: 7 is in the journal with six bottles, 8 is still queued.\<close>

theorem kiosk_delivery_custody_witness:
  "\<exists>entry. entry \<in> set (kt_journal sample_after) \<and> je_deviceSeq entry = Some 7 \<and> je_acceptedCount entry = Some (JInt 6)"
proof -
  have sorted: "sorted_wrt (<) (map qo_deviceSeq (kt_queue sample_store))" by (simp add: sample_store_def)
  have within: "pass_within sample_host sample_env (kt_queue sample_store)"
    unfolding pass_within_def by (rule exI [of _ 0]) (simp add: sample_host_def JOURNAL_RETENTION_MS_def)
  obtain kept rest where k: "kt_queue sample_store = [sample_order 7 3, sample_order 8 4] @ rest" "kt_queue sample_after = kept @ rest"
    and fate: "\<forall>q\<in>set (if kept = [] then [sample_order 7 3, sample_order 8 4] else butlast [sample_order 7 3, sample_order 8 4]).
         (\<exists>e. isTerminalRejection (Api e) \<and>
            set_aside q (at_now (sample_env q)) (ae_status e) (ae_message e) (safeBoxConflicts (ae_boxConflicts e)) \<in> set (kt_quarantine sample_after))
         \<or> (\<exists>res entry. at_submit (sample_env q) = Answer res \<and> entry \<in> set (kt_journal sample_after) \<and> je_deviceSeq entry = Some (qo_deviceSeq q)
              \<and> je_employeeId entry = qo_employeeId q \<and> je_acceptedCount entry = Some (JInt (or_itemCount res)))"
    using kiosk_delivery_custody [OF sorted sample_pass(1) within] by blast
  have q: "sample_order 7 3 \<in> set (if kept = [] then [sample_order 7 3, sample_order 8 4] else butlast [sample_order 7 3, sample_order 8 4])" by simp
  have "kt_quarantine sample_after = []"
    by (simp add: sample_after_def drainOnce_def sample_store_def sample_env_def drain_order_def attest_phase_def submit_phase_def
      sample_attempt_def after_failure_def)
  with bspec [OF fate q] obtain res entry where "at_submit (sample_env (sample_order 7 3)) = Answer res" "entry \<in> set (kt_journal sample_after)"
    "je_deviceSeq entry = Some 7" "je_acceptedCount entry = Some (JInt (or_itemCount res))" by auto
  moreover from this(1) have "or_itemCount res = 6" by (auto simp: sample_env_def sample_attempt_def sample_answer_def)
  ultimately show ?thesis by auto
qed

definition sample_bootstrap :: kiosk_bootstrap where
  "sample_bootstrap = \<lparr>kb_limitsEnabled = Some True, kb_dayLimitPerEmployee = None,
     kb_products = [\<lparr>kp_id = lit ''p'', kp_gtin14 = lit ''g'', kp_name = lit ''n'', kp_unitPrice = None, kp_image = ImageNull\<rparr>],
     kb_employees = Some [\<lparr>be_id = lit ''e'', be_limitMode = Some (lit ''limited''), be_dayLimit = Some (JInt 2),
        be_canWriteoff = Some False, be_takenTodayElsewhere = None\<rparr>]\<rparr>"

definition offline_store :: kiosk_store where
  "offline_store = \<lparr>kt_queue = [], kt_quarantine = [], kt_journal = [], kt_outcomes = [],
     kt_config = Some \<lparr>kc_serverUrl = lit ''https://m'', kc_kioskId = Some (lit ''k''),
       kc_credentialGeneration = Some (lit ''00000000-0000-4000-8000-000000000000''), kc_hasToken = True, kc_nextDeviceSeq = 0\<rparr>\<rparr>"

definition sample_sessions :: "day_session list" where
  "sample_sessions =
     [\<lparr>ds_early = [], ds_landed = True, ds_late = [CartScan (KKm (lit ''r'') (lit ''g'') (lit ''s'') [1])], ds_at = lit ''t''\<rparr>,
      \<lparr>ds_early = [CartScan (KKm (lit ''r'') (lit ''g'') (lit ''s'') [2])], ds_landed = False,
        ds_late = [CartScan (KKm (lit ''r'') (lit ''g'') (lit ''s'') [3])], ds_at = lit ''t''\<rparr>,
      \<lparr>ds_early = [CartReset], ds_landed = True, ds_late = [CartScan (KKm (lit ''r'') (lit ''g'') (lit ''s'') [4])], ds_at = lit ''t''\<rparr>]"

lemma sample_policy:
  "effectivePickupPolicy sample_bootstrap (lit ''e'') = Some \<lparr>pp_limited = True, pp_dayLimit = 2, pp_canWriteoff = False\<rparr>"
  by (simp add: effectivePickupPolicy_def find_employee_def sample_bootstrap_def isCompleteCurrentPickupPolicy_def)

text \<open>Three sessions against a limit of two; the read of the second fails, and it takes two more.\<close>

theorem kiosk_day_limit_witness:
  "takenToday (\<lambda>t. Some 0) (\<lambda>t. Some (lit ''d'')) (Some 0) (lit ''d'')
     (day_of_sessions (\<lambda>t. Some 0) (\<lambda>t. Some (lit ''d'')) (Some 0) (lit ''d'') sample_bootstrap sample_session 0 None sample_sessions offline_store)
     (Some sample_bootstrap) (lit ''e'') \<le> 4"
proof -
  have emp: "ke_id (kn_employee sample_session) = lit ''e''" "lit ''e'' \<noteq> []" by (simp_all add: sample_session_def lit_def)
  have fresh: "fresh_counter offline_store" by (simp add: fresh_counter_def offline_store_def)
  have sane: "list_all (\<lambda>ds. list_all sane_action (ds_early ds @ ds_late ds) \<and> (\<lambda>t. Some (lit ''d'')) (ds_at ds) = Some (lit ''d'')) sample_sessions"
    by (simp add: sample_sessions_def sane_action_def)
  have zero: "takenToday (\<lambda>t. Some 0) (\<lambda>t. Some (lit ''d'')) (Some 0) (lit ''d'') offline_store (Some sample_bootstrap) (lit ''e'') = 0"
    by (simp add: takenToday_def offline_store_def countTakenToday_def readJournalSince_def takenTodayElsewhere_def find_employee_def
        sample_bootstrap_def)
  have blind: "length (filter blind sample_sessions) = 1" by (simp add: sample_sessions_def blind_def)
  show ?thesis using kiosk_day_limit [of sample_bootstrap sample_session, unfolded emp(1), OF sample_policy _ emp(2) fresh sane,
      of 0 None "\<lambda>t. Some 0" "Some 0"] zero blind by simp
qed

end
