(* ===== verification/Box_Registry.thy ===== *)
theory Box_Registry
  imports Kiosk_Delivery "HOL-Library.Product_Lexorder"
begin

text \<open>
  The registry of closed boxes the server publishes: \<open>modules/kiosk/box-registry.service.ts\<close>, the window of
  \<open>modules/kiosk/box-registry.dto.ts\<close> and the revision counter of \<open>modules/boxes/box-registry-version.ts\<close>
  (\<open>apps/api/src\<close>).

  Every query carries the tenant of the caller, so the tables hold the rows of one tenant; each is a
  list of records, an inner join a comprehension and a left join one whose missing side is \<open>None\<close>. A
  timestamp is the number of its milliseconds and a revision a natural number; on the wire they are an ISO
  text and a decimal text. The cursor is the record whose base64url JSON text the wire carries.
\<close>

section \<open>Model\<close>

subsection \<open>Tables\<close>

record box_record =
  br_id :: jstring
  br_shiftId :: jstring
  br_terminalId :: "jstring option"
  br_sscc :: "jstring option"
  br_closedAt :: "int option"
  br_closureReceivedAt :: "int option"
  br_disassembledAt :: "int option"
  br_palletId :: "jstring option"
  br_registryVersion :: nat
  br_updatedAt :: int

record shift_record =
  rs_id :: jstring
  rs_productId :: jstring
  rs_productionDate :: "jstring option"
  rs_plannedDate :: "jstring option"

record product_record =
  rp_id :: jstring
  rp_gtin14 :: jstring
  rp_unitPrice :: "jstring option"
  rp_archived :: bool

record pallet_record =
  rl_id :: jstring
  rl_sscc :: "jstring option"
  rl_disassembledAt :: "int option"

record box_item =
  bi_boxId :: jstring
  bi_codeHash :: jstring
  bi_addedAt :: int
  bi_displacedAt :: "int option"
  bi_removedAt :: "int option"

record code_owner =
  cg_codeHash :: jstring
  cg_shiftId :: jstring
  cg_terminalId :: "jstring option"
  cg_scannedAt :: int
  cg_updatedAt :: int

record code_record =
  cd_codeHash :: jstring
  cd_scannedAt :: int
  cd_canonicalRaw :: "jstring option"
  cd_gtin14 :: jstring

record registry_db =
  rg_boxes :: "box_record list"
  rg_shifts :: "shift_record list"
  rg_products :: "product_record list"
  rg_pallets :: "pallet_record list"
  rg_boxItems :: "box_item list"
  rg_codeRegistry :: "code_owner list"
  rg_codes :: "code_record list"
  rg_currentVersion :: "nat option"

definition left_join :: "('b \<Rightarrow> bool) \<Rightarrow> 'b list \<Rightarrow> 'b option list" where
  "left_join on rows = (case filter on rows of [] \<Rightarrow> [None] | hits \<Rightarrow> map Some hits)"

subsection \<open>Revisions\<close>

definition currentVersion :: "registry_db \<Rightarrow> nat" where
  "currentVersion db = (case rg_currentVersion db of Some v \<Rightarrow> v | None \<Rightarrow> 0)"

definition allocateBoxRegistryVersion :: "registry_db \<Rightarrow> registry_db \<times> nat" where
  "allocateBoxRegistryVersion db =
     (let v = (case rg_currentVersion db of None \<Rightarrow> 1 | Some n \<Rightarrow> n + 1) in (db\<lparr>rg_currentVersion := Some v\<rparr>, v))"

definition advanceBoxRegistryVersion :: "registry_db \<Rightarrow> int \<Rightarrow> jstring list \<Rightarrow> registry_db \<times> nat option" where
  "advanceBoxRegistryVersion db clock boxIds =
     (if boxIds = [] then (db, None)
      else let (db', v) = allocateBoxRegistryVersion db
           in (db'\<lparr>rg_boxes := map (\<lambda>b. if br_id b \<in> set boxIds
                 then b\<lparr>br_registryVersion := v, br_updatedAt := max clock (br_updatedAt b + 1)\<rparr> else b) (rg_boxes db')\<rparr>, Some v))"

subsection \<open>Facts about a box\<close>

definition MAX_BOX_REGISTRY_MEMBERS :: nat where "MAX_BOX_REGISTRY_MEMBERS = 500"

definition MAX_REGISTRY_PAGE_MEMBER_KEYS :: nat where "MAX_REGISTRY_PAGE_MEMBER_KEYS = 1000"

record registry_candidate =
  rc_id :: jstring
  rc_shiftId :: jstring
  rc_terminalId :: "jstring option"
  rc_sscc :: "jstring option"
  rc_productId :: jstring
  rc_productGtin14 :: jstring
  rc_closedAt :: "int option"
  rc_closureReceivedAt :: "int option"
  rc_disassembledAt :: "int option"
  rc_palletId :: "jstring option"
  rc_palletSscc :: "jstring option"
  rc_palletDisassembledAt :: "int option"
  rc_productionDate :: "jstring option"
  rc_registryVersion :: nat
  rc_updatedAt :: int

record member_fact =
  mf_boxId :: jstring
  mf_codeHash :: jstring
  mf_addedAt :: int
  mf_displacedAt :: "int option"
  mf_removedAt :: "int option"
  mf_registryShiftId :: "jstring option"
  mf_registryTerminalId :: "jstring option"
  mf_registryScannedAt :: "int option"
  mf_registryUpdatedAt :: "int option"
  mf_canonicalRaw :: "jstring option"
  mf_canonicalGtin14 :: "jstring option"
  mf_totalMembershipCount :: nat

text \<open>The count of the members of one box, zero when the grouped query has no row for it.\<close>

definition membership_count :: "registry_db \<Rightarrow> jstring \<Rightarrow> nat" where
  "membership_count db boxId =
     min (length (filter (\<lambda>i. bi_boxId i = boxId) (rg_boxItems db))) (MAX_BOX_REGISTRY_MEMBERS + 1)"

definition fact_row :: "nat \<Rightarrow> box_item \<Rightarrow> code_owner option \<Rightarrow> code_record option \<Rightarrow> member_fact" where
  "fact_row members i owner code =
     \<lparr>mf_boxId = bi_boxId i, mf_codeHash = bi_codeHash i, mf_addedAt = bi_addedAt i, mf_displacedAt = bi_displacedAt i,
      mf_removedAt = bi_removedAt i, mf_registryShiftId = map_option cg_shiftId owner,
      mf_registryTerminalId = Option.bind owner cg_terminalId, mf_registryScannedAt = map_option cg_scannedAt owner,
      mf_registryUpdatedAt = map_option cg_updatedAt owner, mf_canonicalRaw = Option.bind code cd_canonicalRaw,
      mf_canonicalGtin14 = map_option cd_gtin14 code, mf_totalMembershipCount = members\<rparr>"

definition oversized_fact :: "jstring \<Rightarrow> nat \<Rightarrow> member_fact" where
  "oversized_fact boxId members =
     \<lparr>mf_boxId = boxId, mf_codeHash = [], mf_addedAt = 0, mf_displacedAt = None, mf_removedAt = None, mf_registryShiftId = None,
      mf_registryTerminalId = None, mf_registryScannedAt = None, mf_registryUpdatedAt = None, mf_canonicalRaw = None,
      mf_canonicalGtin14 = None, mf_totalMembershipCount = members\<rparr>"

definition joined_facts :: "registry_db \<Rightarrow> jstring \<Rightarrow> nat \<Rightarrow> member_fact list" where
  "joined_facts db boxId members =
     [fact_row members i owner code.
        i \<leftarrow> sort_key bi_codeHash (filter (\<lambda>i. bi_boxId i = boxId) (rg_boxItems db)),
        owner \<leftarrow> left_join (\<lambda>o'. cg_codeHash o' = bi_codeHash i) (rg_codeRegistry db),
        code \<leftarrow> left_join (\<lambda>c. cd_codeHash c = bi_codeHash i \<and> Some (cd_scannedAt c) = map_option cg_scannedAt owner) (rg_codes db)]"

text \<open>The entry of one box in the map of facts, with the counts the caller read before.\<close>

definition resolveBoxRegistryFacts :: "registry_db \<Rightarrow> (jstring \<Rightarrow> nat) \<Rightarrow> jstring \<Rightarrow> member_fact list" where
  "resolveBoxRegistryFacts db counts boxId =
     (let members = counts boxId
      in if MAX_BOX_REGISTRY_MEMBERS < members then [oversized_fact boxId members]
         else if 0 < members then joined_facts db boxId members else [])"

definition box_facts :: "registry_db \<Rightarrow> jstring \<Rightarrow> member_fact list" where
  "box_facts db = resolveBoxRegistryFacts db (membership_count db)"

subsection \<open>Evaluation\<close>

record registry_upsert =
  ru_boxId :: jstring
  ru_sscc :: jstring
  ru_productId :: jstring
  ru_bottleCount :: nat
  ru_contentKeys :: "jstring list"
  ru_updatedAt :: int
  ru_palletId :: "jstring option"
  ru_palletSscc :: "jstring option"
  ru_palletActive :: bool
  ru_closedAt :: int
  ru_productionDate :: "jstring option"

datatype registry_change = Upsert registry_upsert | Remove jstring int

definition ineligibleChange :: "registry_candidate \<Rightarrow> bool \<Rightarrow> registry_change option" where
  "ineligibleChange c delta =
     (case rc_sscc c of
        Some sscc \<Rightarrow> if delta \<and> isValidSscc sscc then Some (Remove sscc (rc_updatedAt c)) else None
      | None \<Rightarrow> None)"

definition later_than :: "int option \<Rightarrow> int \<Rightarrow> bool" where
  "later_than t received = (case t of Some x \<Rightarrow> received < x | None \<Rightarrow> False)"

fun active_facts :: "int \<Rightarrow> member_fact list \<Rightarrow> member_fact list option" where
  "active_facts received [] = Some []"
| "active_facts received (f # fs) =
     (if later_than (mf_removedAt f) received \<or> later_than (mf_displacedAt f) received then None
      else if mf_removedAt f \<noteq> None \<or> mf_displacedAt f \<noteq> None then active_facts received fs
      else map_option ((#) f) (active_facts received fs))"

definition fact_ok :: "registry_candidate \<Rightarrow> int \<Rightarrow> member_fact \<Rightarrow> bool" where
  "fact_ok c received f \<longleftrightarrow> mf_registryShiftId f = Some (rc_shiftId c) \<and> mf_registryTerminalId f = rc_terminalId c
     \<and> (case mf_registryUpdatedAt f of Some u \<Rightarrow> u \<le> received | None \<Rightarrow> False)
     \<and> mf_registryScannedAt f = Some (mf_addedAt f) \<and> mf_canonicalRaw f \<noteq> None
     \<and> mf_canonicalGtin14 f = Some (rc_productGtin14 c)"

fun member_keys :: "registry_candidate \<Rightarrow> int \<Rightarrow> jstring set \<Rightarrow> jstring set \<Rightarrow> member_fact list \<Rightarrow> jstring list option" where
  "member_keys c received seenHashes seenKeys [] = Some []"
| "member_keys c received seenHashes seenKeys (f # fs) =
     (if mf_codeHash f \<in> seenHashes \<or> \<not> fact_ok c received f then None
      else case canonicalizeKm (the (mf_canonicalRaw f)) of
             Inl _ \<Rightarrow> None
           | Inr parsed \<Rightarrow>
               if km_gtin14 parsed \<noteq> rc_productGtin14 c \<or> kmKey parsed \<in> seenKeys then None
               else map_option ((#) (kmKey parsed))
                      (member_keys c received (insert (mf_codeHash f) seenHashes) (insert (kmKey parsed) seenKeys) fs))"

definition total_members :: "member_fact list \<Rightarrow> nat" where
  "total_members facts = (case facts of f # _ \<Rightarrow> mf_totalMembershipCount f | [] \<Rightarrow> 0)"

definition evaluateBoxRegistryCandidate :: "registry_candidate \<Rightarrow> member_fact list \<Rightarrow> bool \<Rightarrow> registry_change option" where
  "evaluateBoxRegistryCandidate c facts delta =
     (case (rc_sscc c, rc_closedAt c, rc_closureReceivedAt c, rc_disassembledAt c) of
        (Some sscc, Some closedAt, Some received, None) \<Rightarrow>
          if \<not> isValidSscc sscc then ineligibleChange c delta
          else if total_members facts = 0 \<or> MAX_BOX_REGISTRY_MEMBERS < total_members facts \<or> length facts \<noteq> total_members facts
          then ineligibleChange c delta
          else (case active_facts received facts of
                  None \<Rightarrow> ineligibleChange c delta
                | Some active \<Rightarrow>
                    if active = [] then ineligibleChange c delta
                    else (case member_keys c received {} {} active of
                            None \<Rightarrow> ineligibleChange c delta
                          | Some keys \<Rightarrow>
                              Some (Upsert \<lparr>ru_boxId = rc_id c, ru_sscc = sscc, ru_productId = rc_productId c,
                                ru_bottleCount = length active, ru_contentKeys = sort keys, ru_updatedAt = rc_updatedAt c,
                                ru_palletId = rc_palletId c, ru_palletSscc = rc_palletSscc c,
                                ru_palletActive = (rc_palletId c \<noteq> None \<and> rc_palletDisassembledAt c = None),
                                ru_closedAt = closedAt, ru_productionDate = rc_productionDate c\<rparr>)))
      | _ \<Rightarrow> ineligibleChange c delta)"

subsection \<open>Pages\<close>

record registry_cursor =
  rk_since :: "nat option"
  rk_until :: nat
  rk_registryVersion :: nat
  rk_id :: jstring

record registry_query =
  rq_since :: "nat option"
  rq_until :: "nat option"
  rq_cursor :: "registry_cursor option"
  rq_limit :: nat

record registry_window =
  rw_since :: "nat option"
  rw_until :: nat
  rw_after :: "(nat \<times> jstring) option"
  rw_limit :: nat

datatype box_registry_error =
    Until_on_first_page | Since_beyond_until | Bounds_mismatch | Bad_cursor | Registry_snapshot_changed

definition resolveBoxRegistryWindow :: "registry_query \<Rightarrow> nat \<Rightarrow> box_registry_error + registry_window" where
  "resolveBoxRegistryWindow query current =
     (case rq_cursor query of
        None \<Rightarrow>
          if rq_until query \<noteq> None then Inl Until_on_first_page
          else if (case rq_since query of Some s \<Rightarrow> current < s | None \<Rightarrow> False) then Inl Since_beyond_until
          else Inr \<lparr>rw_since = rq_since query, rw_until = current, rw_after = None, rw_limit = rq_limit query\<rparr>
      | Some cursor \<Rightarrow>
          if rq_until query \<noteq> Some (rk_until cursor) \<or> rq_since query \<noteq> rk_since cursor then Inl Bounds_mismatch
          else if current < rk_until cursor \<or> rk_until cursor < rk_registryVersion cursor
                  \<or> (case rk_since cursor of Some s \<Rightarrow> rk_registryVersion cursor < s | None \<Rightarrow> False) then Inl Bad_cursor
          else Inr \<lparr>rw_since = rk_since cursor, rw_until = rk_until cursor,
                    rw_after = Some (rk_registryVersion cursor, rk_id cursor), rw_limit = rq_limit query\<rparr>)"

definition assertBoxRegistrySnapshotCurrent :: "nat \<Rightarrow> nat \<Rightarrow> box_registry_error + unit" where
  "assertBoxRegistrySnapshotCurrent current until = (if current \<noteq> until then Inl Registry_snapshot_changed else Inr ())"

fun prefix_from :: "(jstring \<Rightarrow> nat) \<Rightarrow> bool \<Rightarrow> nat \<Rightarrow> registry_candidate list \<Rightarrow> registry_candidate list" where
  "prefix_from counts started budget [] = []"
| "prefix_from counts started budget (c # cs) =
     (let count = counts (rc_id c); cost = (if MAX_BOX_REGISTRY_MEMBERS < count then 0 else count)
      in if started \<and> MAX_REGISTRY_PAGE_MEMBER_KEYS < budget + cost then []
         else c # prefix_from counts True (budget + cost) cs)"

definition selectBoxRegistryCandidatePrefix :: "registry_candidate list \<Rightarrow> (jstring \<Rightarrow> nat) \<Rightarrow> bool \<Rightarrow> registry_candidate list \<times> bool" where
  "selectBoxRegistryCandidatePrefix candidates counts databaseHasMore =
     (let selected = prefix_from counts False 0 candidates
      in (selected, databaseHasMore \<or> length selected < length candidates))"

definition candidate_row :: "box_record \<Rightarrow> shift_record \<Rightarrow> product_record \<Rightarrow> pallet_record option \<Rightarrow> registry_candidate" where
  "candidate_row b s p l =
     \<lparr>rc_id = br_id b, rc_shiftId = br_shiftId b, rc_terminalId = br_terminalId b, rc_sscc = br_sscc b, rc_productId = rs_productId s,
      rc_productGtin14 = rp_gtin14 p, rc_closedAt = br_closedAt b, rc_closureReceivedAt = br_closureReceivedAt b,
      rc_disassembledAt = br_disassembledAt b, rc_palletId = br_palletId b, rc_palletSscc = Option.bind l rl_sscc,
      rc_palletDisassembledAt = Option.bind l rl_disassembledAt,
      rc_productionDate = (case rs_productionDate s of Some d \<Rightarrow> Some d | None \<Rightarrow> rs_plannedDate s),
      rc_registryVersion = br_registryVersion b, rc_updatedAt = br_updatedAt b\<rparr>"

definition box_candidates :: "registry_db \<Rightarrow> box_record \<Rightarrow> registry_candidate list" where
  "box_candidates db b =
     [candidate_row b s p l.
        s \<leftarrow> filter (\<lambda>s. rs_id s = br_shiftId b) (rg_shifts db),
        p \<leftarrow> filter (\<lambda>p. rp_id p = rs_productId s) (rg_products db),
        l \<leftarrow> left_join (\<lambda>l. Some (rl_id l) = br_palletId b) (rg_pallets db)]"

definition position :: "registry_candidate \<Rightarrow> nat \<times> jstring" where
  "position c = (rc_registryVersion c, rc_id c)"

definition in_window :: "registry_window \<Rightarrow> registry_candidate \<Rightarrow> bool" where
  "in_window w c \<longleftrightarrow> rc_sscc c \<noteq> None \<and> rc_registryVersion c \<le> rw_until w
     \<and> (case rw_after w of Some a \<Rightarrow> a < position c
        | None \<Rightarrow> (case rw_since w of Some s \<Rightarrow> s < rc_registryVersion c | None \<Rightarrow> True))"

definition window_rows :: "registry_db \<Rightarrow> registry_window \<Rightarrow> registry_candidate list" where
  "window_rows db w = sort_key position (filter (in_window w) (concat (map (box_candidates db) (rg_boxes db))))"

record registry_page =
  pg_until :: nat
  pg_items :: "registry_change list"
  pg_nextCursor :: "registry_cursor option"

definition shapeBoxRegistryPage :: "registry_candidate list \<Rightarrow> (jstring \<Rightarrow> member_fact list) \<Rightarrow> registry_window \<Rightarrow> bool \<Rightarrow> registry_page" where
  "shapeBoxRegistryPage candidates facts w hasMore =
     \<lparr>pg_until = rw_until w,
      pg_items = List.map_filter (\<lambda>c. evaluateBoxRegistryCandidate c (facts (rc_id c)) (rw_since w \<noteq> None)) candidates,
      pg_nextCursor = (if hasMore \<and> candidates \<noteq> [] then Some \<lparr>rk_since = rw_since w, rk_until = rw_until w,
         rk_registryVersion = rc_registryVersion (last candidates), rk_id = rc_id (last candidates)\<rparr> else None)\<rparr>"

text \<open>\<open>list\<close>: its statements see the states of the database at which they run, the revision first and last.\<close>

definition list_registry :: "registry_db \<Rightarrow> registry_db \<Rightarrow> registry_db \<Rightarrow> registry_db \<Rightarrow> registry_db \<Rightarrow> registry_query \<Rightarrow> box_registry_error + registry_page" where
  "list_registry db0 db1 db2 db3 db4 query =
     (case resolveBoxRegistryWindow query (currentVersion db0) of
        Inl e \<Rightarrow> Inl e
      | Inr w \<Rightarrow>
          (case assertBoxRegistrySnapshotCurrent (currentVersion db0) (rw_until w) of
             Inl e \<Rightarrow> Inl e
           | Inr _ \<Rightarrow>
               let rows = take (rw_limit w + 1) (window_rows db1 w);
                   candidateWindow = take (rw_limit w) rows;
                   counts = membership_count db2;
                   (selected, hasMore) = selectBoxRegistryCandidatePrefix candidateWindow counts (rw_limit w < length rows);
                   facts = resolveBoxRegistryFacts db3 counts
               in case assertBoxRegistrySnapshotCurrent (currentVersion db4) (rw_until w) of
                    Inl e \<Rightarrow> Inl e
                  | Inr _ \<Rightarrow> Inr (shapeBoxRegistryPage selected facts w hasMore)))"

section \<open>Lemmas: what is published\<close>

lemma active_facts_spec:
  "active_facts received facts = Some active \<Longrightarrow>
     active = filter (\<lambda>f. mf_removedAt f = None \<and> mf_displacedAt f = None) facts
     \<and> (\<forall>f\<in>set facts. \<not> later_than (mf_removedAt f) received \<and> \<not> later_than (mf_displacedAt f) received)"
  by (induction facts arbitrary: active) (auto split: if_splits)

lemma member_keys_spec:
  "member_keys c received H K facts = Some keys \<Longrightarrow>
     length keys = length facts \<and> distinct keys \<and> set keys \<inter> K = {}
     \<and> list_all2 (\<lambda>f k. fact_ok c received f \<and> (\<exists>parsed. canonicalizeKm (the (mf_canonicalRaw f)) = Inr parsed
           \<and> km_gtin14 parsed = rc_productGtin14 c \<and> k = kmKey parsed)) facts keys"
proof (induction facts arbitrary: H K keys)
  case (Cons f fs)
  from Cons.prems obtain parsed where p: "\<not> (mf_codeHash f \<in> H \<or> \<not> fact_ok c received f)"
      "canonicalizeKm (the (mf_canonicalRaw f)) = Inr parsed" "km_gtin14 parsed = rc_productGtin14 c" "kmKey parsed \<notin> K"
    by (auto split: if_splits sum.splits)
  then obtain ks where ks: "member_keys c received (insert (mf_codeHash f) H) (insert (kmKey parsed) K) fs = Some ks"
      "keys = kmKey parsed # ks"
    using Cons.prems by auto
  show ?case using Cons.IH [OF ks(1)] p ks(2) by auto
qed simp

lemma evaluate_upsert:
  assumes "evaluateBoxRegistryCandidate c facts delta = Some (Upsert u)"
  obtains sscc received keys where "rc_sscc c = Some sscc" "isValidSscc sscc" "rc_closedAt c \<noteq> None"
    "rc_closureReceivedAt c = Some received" "rc_disassembledAt c = None"
    "0 < length facts" "length facts \<le> MAX_BOX_REGISTRY_MEMBERS" "length facts = total_members facts"
    "active_facts received facts = Some (filter (\<lambda>f. mf_removedAt f = None \<and> mf_displacedAt f = None) facts)"
    "filter (\<lambda>f. mf_removedAt f = None \<and> mf_displacedAt f = None) facts \<noteq> []"
    "member_keys c received {} {} (filter (\<lambda>f. mf_removedAt f = None \<and> mf_displacedAt f = None) facts) = Some keys"
    "ru_boxId u = rc_id c" "ru_sscc u = sscc" "ru_contentKeys u = sort keys"
    "ru_bottleCount u = length (filter (\<lambda>f. mf_removedAt f = None \<and> mf_displacedAt f = None) facts)"
proof -
  have no: "ineligibleChange c delta \<noteq> Some (Upsert u)" by (auto simp: ineligibleChange_def split: option.splits)
  obtain sscc closedAt received where h: "rc_sscc c = Some sscc" "rc_closedAt c = Some closedAt"
      "rc_closureReceivedAt c = Some received" "rc_disassembledAt c = None"
    using assms no unfolding evaluateBoxRegistryCandidate_def by (auto split: option.splits)
  have g: "isValidSscc sscc" "total_members facts \<noteq> 0" "total_members facts \<le> MAX_BOX_REGISTRY_MEMBERS" "length facts = total_members facts"
    using assms no h unfolding evaluateBoxRegistryCandidate_def by (auto split: if_splits)
  obtain active where a: "active_facts received facts = Some active" "active \<noteq> []"
    using assms no h g unfolding evaluateBoxRegistryCandidate_def by (auto split: if_splits option.splits)
  obtain keys where k: "member_keys c received {} {} active = Some keys"
    using assms no h g a unfolding evaluateBoxRegistryCandidate_def by (auto split: if_splits option.splits)
  have act: "active = filter (\<lambda>f. mf_removedAt f = None \<and> mf_displacedAt f = None) facts" using active_facts_spec [OF a(1)] by blast
  show ?thesis
    using that [OF h(1) g(1) _ h(3,4), of keys] assms no h g a k unfolding act evaluateBoxRegistryCandidate_def by auto
qed

text \<open>C33: What the registry publishes of a box can be trusted: an entry names a valid SSCC of a box that was closed, whose
  closure the server has received and that was not taken apart, with between 1 and 500 bottles. Its keys are
  sorted, without repetition and as many as the bottles, and each is the key of a canonical code of the
  box's product that the box's own shift and terminal own by exactly the scan that put it into the box, at a
  time no later than the server received the closure; no member was removed or displaced after that.\<close>

theorem registry_upsert_sound:
  assumes "evaluateBoxRegistryCandidate c (box_facts db (rc_id c)) delta = Some (Upsert u)"
  shows "isValidSscc (ru_sscc u) \<and> rc_sscc c = Some (ru_sscc u) \<and> rc_closedAt c \<noteq> None \<and> rc_disassembledAt c = None
    \<and> 1 \<le> ru_bottleCount u \<and> ru_bottleCount u \<le> 500 \<and> length (ru_contentKeys u) = ru_bottleCount u
    \<and> sorted (ru_contentKeys u) \<and> distinct (ru_contentKeys u)
    \<and> (\<exists>received. rc_closureReceivedAt c = Some received
        \<and> (\<forall>f\<in>set (box_facts db (rc_id c)). \<not> later_than (mf_removedAt f) received \<and> \<not> later_than (mf_displacedAt f) received)
        \<and> (\<forall>k\<in>set (ru_contentKeys u). \<exists>f\<in>set (box_facts db (rc_id c)). \<exists>parsed.
             fact_ok c received f \<and> mf_removedAt f = None \<and> mf_displacedAt f = None
             \<and> canonicalizeKm (the (mf_canonicalRaw f)) = Inr parsed \<and> km_gtin14 parsed = rc_productGtin14 c \<and> k = kmKey parsed))"
proof -
  define facts where "facts = box_facts db (rc_id c)"
  define active where "active = filter (\<lambda>f. mf_removedAt f = None \<and> mf_displacedAt f = None) facts"
  obtain sscc received keys where h: "rc_sscc c = Some sscc" "isValidSscc sscc" "rc_closedAt c \<noteq> None"
      "rc_closureReceivedAt c = Some received" "rc_disassembledAt c = None" "length facts \<le> MAX_BOX_REGISTRY_MEMBERS"
      "active_facts received facts = Some active" "active \<noteq> []" "member_keys c received {} {} active = Some keys"
      "ru_sscc u = sscc" "ru_contentKeys u = sort keys" "ru_bottleCount u = length active"
    unfolding facts_def active_def by (rule evaluate_upsert [OF assms]) blast
  have k: "length keys = length active" "distinct keys"
      "list_all2 (\<lambda>f k. fact_ok c received f \<and> (\<exists>parsed. canonicalizeKm (the (mf_canonicalRaw f)) = Inr parsed
           \<and> km_gtin14 parsed = rc_productGtin14 c \<and> k = kmKey parsed)) active keys"
    using member_keys_spec [OF h(9)] by auto
  have "length active \<le> length facts" unfolding active_def by (rule length_filter_le)
  then have len: "1 \<le> length active" "length active \<le> 500" using h(6,8) by (cases active; simp add: MAX_BOX_REGISTRY_MEMBERS_def)+
  have src: "\<exists>f\<in>set facts. \<exists>parsed. fact_ok c received f \<and> mf_removedAt f = None \<and> mf_displacedAt f = None
             \<and> canonicalizeKm (the (mf_canonicalRaw f)) = Inr parsed \<and> km_gtin14 parsed = rc_productGtin14 c \<and> k = kmKey parsed"
    if "k \<in> set keys" for k
  proof -
    obtain n where n: "n < length keys" "k = keys ! n" using \<open>k \<in> set keys\<close> by (auto simp: in_set_conv_nth)
    have "active ! n \<in> set active" using n(1) k(1) by simp
    then have mem: "active ! n \<in> set facts" "mf_removedAt (active ! n) = None" "mf_displacedAt (active ! n) = None"
      unfolding active_def by auto
    show ?thesis using list_all2_nthD2 [OF k(3) n(1)] mem n(2) by blast
  qed
  show ?thesis unfolding facts_def [symmetric]
    using h len k src active_facts_spec [OF h(7)] by (auto simp: distinct_sort)
qed

definition sample_uuid :: jstring where
  "sample_uuid = lit ''0b9f0a4e-7c1d-4e2b-9a3f-1122334455aa''"

definition box_sample_sscc :: jstring where
  "box_sample_sscc = lit ''346070200000123459''"

definition sample_gtin14 :: jstring where
  "sample_gtin14 = lit ''04607028394256''"

text \<open>A registry with one closed box that holds one bottle.\<close>

definition sample_registry :: registry_db where
  "sample_registry = \<lparr>
     rg_boxes = [\<lparr>br_id = sample_uuid, br_shiftId = [1], br_terminalId = None, br_sscc = Some box_sample_sscc, br_closedAt = Some 2,
       br_closureReceivedAt = Some 3, br_disassembledAt = None, br_palletId = None, br_registryVersion = 1, br_updatedAt = 3\<rparr>],
     rg_shifts = [\<lparr>rs_id = [1], rs_productId = sample_uuid, rs_productionDate = None, rs_plannedDate = None\<rparr>],
     rg_products = [\<lparr>rp_id = sample_uuid, rp_gtin14 = sample_gtin14, rp_unitPrice = None, rp_archived = False\<rparr>],
     rg_pallets = [],
     rg_boxItems = [\<lparr>bi_boxId = sample_uuid, bi_codeHash = [7], bi_addedAt = 1, bi_displacedAt = None, bi_removedAt = None\<rparr>],
     rg_codeRegistry = [\<lparr>cg_codeHash = [7], cg_shiftId = [1], cg_terminalId = None, cg_scannedAt = 1, cg_updatedAt = 2\<rparr>],
     rg_codes = [\<lparr>cd_codeHash = [7], cd_scannedAt = 1, cd_canonicalRaw = Some km_sample, cd_gtin14 = sample_gtin14\<rparr>],
     rg_currentVersion = Some 1\<rparr>"

definition box_sample_row :: registry_candidate where
  "box_sample_row = \<lparr>rc_id = sample_uuid, rc_shiftId = [1], rc_terminalId = None, rc_sscc = Some box_sample_sscc, rc_productId = sample_uuid,
     rc_productGtin14 = sample_gtin14, rc_closedAt = Some 2, rc_closureReceivedAt = Some 3, rc_disassembledAt = None, rc_palletId = None,
     rc_palletSscc = None, rc_palletDisassembledAt = None, rc_productionDate = None, rc_registryVersion = 1, rc_updatedAt = 3\<rparr>"

definition sample_key :: jstring where
  "sample_key = kmKey (km_of (sample_segs sample_tail) km_sample)"

definition sample_upsert :: registry_upsert where
  "sample_upsert = \<lparr>ru_boxId = sample_uuid, ru_sscc = box_sample_sscc, ru_productId = sample_uuid, ru_bottleCount = 1, ru_contentKeys = [sample_key],
     ru_updatedAt = 3, ru_palletId = None, ru_palletSscc = None, ru_palletActive = False, ru_closedAt = 2, ru_productionDate = None\<rparr>"

lemma sample_rows: "concat (map (box_candidates sample_registry) (rg_boxes sample_registry)) = [box_sample_row]"
  by (simp add: sample_registry_def box_sample_row_def box_candidates_def candidate_row_def left_join_def)

lemma sample_evaluate: "evaluateBoxRegistryCandidate box_sample_row (box_facts sample_registry (rc_id box_sample_row)) delta = Some (Upsert sample_upsert)"
proof -
  have v: "isValidSscc box_sample_sscc" unfolding box_sample_sscc_def by code_simp
  have facts: "box_facts sample_registry (rc_id box_sample_row) =
      [fact_row 1 \<lparr>bi_boxId = sample_uuid, bi_codeHash = [7], bi_addedAt = 1, bi_displacedAt = None, bi_removedAt = None\<rparr>
        (Some \<lparr>cg_codeHash = [7], cg_shiftId = [1], cg_terminalId = None, cg_scannedAt = 1, cg_updatedAt = 2\<rparr>)
        (Some \<lparr>cd_codeHash = [7], cd_scannedAt = 1, cd_canonicalRaw = Some km_sample, cd_gtin14 = sample_gtin14\<rparr>)]"
    by (simp add: box_facts_def resolveBoxRegistryFacts_def membership_count_def joined_facts_def left_join_def sample_registry_def box_sample_row_def
        MAX_BOX_REGISTRY_MEMBERS_def)
  have g: "seg_gtin14 (sample_segs sample_tail) = sample_gtin14" by (simp add: sample_segs_def sample_gtin14_def)
  show ?thesis unfolding facts
    by (simp add: evaluateBoxRegistryCandidate_def box_sample_row_def fact_row_def total_members_def MAX_BOX_REGISTRY_MEMBERS_def later_than_def
        fact_ok_def sample_canonical g v sample_upsert_def sample_key_def)
qed

theorem registry_upsert_sound_witness:
  "sorted (ru_contentKeys sample_upsert) \<and> ru_bottleCount sample_upsert \<le> 500 \<and> isValidSscc (ru_sscc sample_upsert)"
  using registry_upsert_sound [OF sample_evaluate] by blast

section \<open>Lemmas: pages\<close>

text \<open>Keys of the tables and the positions of the published rows.\<close>

definition registry_keys :: "registry_db \<Rightarrow> bool" where
  "registry_keys db \<longleftrightarrow> distinct (map br_id (rg_boxes db)) \<and> distinct (map rs_id (rg_shifts db))
     \<and> distinct (map rp_id (rg_products db)) \<and> distinct (map rl_id (rg_pallets db))
     \<and> (\<forall>a\<in>set (rg_boxes db). \<forall>b\<in>set (rg_boxes db). br_sscc a \<noteq> None \<and> br_sscc a = br_sscc b \<longrightarrow> a = b)"

definition registry_rows :: "registry_db \<Rightarrow> registry_candidate list" where
  "registry_rows db = concat (map (box_candidates db) (rg_boxes db))"

lemma filter_key_short: "distinct (map f xs) \<Longrightarrow> length (filter (\<lambda>x. f x = k) xs) \<le> 1"
proof (induction xs)
  case (Cons x xs)
  have "f x = k \<Longrightarrow> filter (\<lambda>x. f x = k) xs = []" using Cons.prems by (auto simp: filter_empty_conv image_iff)
  then show ?case using Cons by auto
qed simp

lemma left_join_length: "length (filter on rows) \<le> 1 \<Longrightarrow> length (left_join on rows) = 1"
  by (cases "filter on rows") (auto simp: left_join_def)

lemma sum_list_one: "(\<And>x. x \<in> set xs \<Longrightarrow> f x \<le> (1::nat)) \<Longrightarrow> length xs \<le> 1 \<Longrightarrow> sum_list (map f xs) \<le> 1"
  by (cases xs) auto

lemma box_candidates_short:
  assumes "registry_keys db"
  shows "length (box_candidates db b) \<le> 1"
proof -
  have l: "length (left_join (\<lambda>l. Some (rl_id l) = br_palletId b) (rg_pallets db)) = 1"
  proof (intro left_join_length)
    show "length (filter (\<lambda>l. Some (rl_id l) = br_palletId b) (rg_pallets db)) \<le> 1"
      using assms filter_key_short [of rl_id "rg_pallets db"] by (cases "br_palletId b") (auto simp: registry_keys_def)
  qed
  have p: "length (filter (\<lambda>p. rp_id p = k) (rg_products db)) \<le> 1" for k
    using assms filter_key_short [of rp_id "rg_products db"] by (simp add: registry_keys_def)
  have s: "length (filter (\<lambda>s. rs_id s = br_shiftId b) (rg_shifts db)) \<le> 1"
    using assms filter_key_short [of rs_id "rg_shifts db"] by (simp add: registry_keys_def)
  show ?thesis unfolding box_candidates_def length_concat map_map comp_def
    by (intro sum_list_one) (use p s in \<open>auto simp: length_concat comp_def l intro!: sum_list_one\<close>)
qed

lemma box_candidates_of: "c \<in> set (box_candidates db b) \<Longrightarrow> rc_id c = br_id b \<and> rc_sscc c = br_sscc b \<and> rc_registryVersion c = br_registryVersion b"
  by (auto simp: box_candidates_def candidate_row_def)

lemma distinct_short_concat:
  assumes "distinct (map key xs)" "\<And>x. length (f x) \<le> 1" "\<And>x y. y \<in> set (f x) \<Longrightarrow> key' y = key x"
  shows "distinct (map key' (concat (map f xs)))"
  using assms(1)
proof (induction xs)
  case (Cons x xs)
  have "distinct (map key' (f x))" using assms(2) [of x] by (cases "f x") auto
  moreover have "key' y \<notin> key' ` (\<Union>z\<in>set xs. set (f z))" if "y \<in> set (f x)" for y
    using Cons.prems assms(3) that by (auto simp: image_iff)
  ultimately show ?case using Cons by auto
qed simp

lemma registry_rows_ids: "registry_keys db \<Longrightarrow> distinct (map rc_id (registry_rows db))"
  unfolding registry_rows_def
  using box_candidates_short [of db] box_candidates_of [of _ db]
  by (intro distinct_short_concat [of br_id]) (auto simp: registry_keys_def)

lemma registry_rows_positions: "registry_keys db \<Longrightarrow> distinct (map position (registry_rows db))"
  using registry_rows_ids [of db] by (auto simp: distinct_map position_def inj_on_def)

lemma window_rows_alt: "window_rows db w = sort_key position (filter (in_window w) (registry_rows db))"
  by (simp add: window_rows_def registry_rows_def)

lemma window_rows_sorted:
  assumes "registry_keys db"
  shows "sorted_wrt (<) (map position (window_rows db w))"
proof -
  have d: "distinct (map position (filter (in_window w) (registry_rows db)))"
    using distinct_map_filter [OF registry_rows_positions [OF assms]] .
  have "distinct (map position (window_rows db w))"
    using d unfolding window_rows_alt distinct_map by (simp add: distinct_sort)
  moreover have "sorted (map position (window_rows db w))" unfolding window_rows_alt by simp
  ultimately show ?thesis by (simp add: strict_sorted_iff)
qed

definition window_after :: "registry_window \<Rightarrow> registry_candidate \<Rightarrow> registry_window" where
  "window_after w c = w\<lparr>rw_after := Some (position c)\<rparr>"

lemma in_window_after:
  assumes "in_window w c"
  shows "in_window (window_after w c) x \<longleftrightarrow> in_window w x \<and> position c < position x"
  using assms by (auto simp: in_window_def window_after_def position_def less_prod_def' split: option.splits)

lemma split_sorted_after:
  assumes "sorted_wrt (<) (map f (xs @ ys))" "xs \<noteq> []"
  shows "filter (\<lambda>c. f (last xs) < (f c :: 'k :: linorder)) (xs @ ys) = ys"
proof -
  have "f x \<le> f (last xs)" if "x \<in> set xs" for x
  proof (cases "x = last xs")
    case False
    obtain zs where zs: "xs = zs @ [last xs]" using assms(2) by (metis append_butlast_last_id)
    then have "x \<in> set zs" using False \<open>x \<in> set xs\<close> by (metis in_set_conv_decomp rotate1.simps(2) set_ConsD set_rotate1)
    moreover have "sorted_wrt (<) (map f (zs @ [last xs]))" using assms(1) zs by (metis map_append sorted_wrt_append)
    ultimately show ?thesis by (auto simp: sorted_wrt_append)
  qed simp
  then have "filter (\<lambda>c. f (last xs) < f c) xs = []" by (auto simp: filter_empty_conv not_less)
  moreover have "f (last xs) < f y" if "y \<in> set ys" for y
    using assms that by (auto simp: sorted_wrt_append)
  then have "filter (\<lambda>c. f (last xs) < f c) ys = ys" by (simp add: filter_id_conv)
  ultimately show ?thesis by simp
qed

lemma window_rows_after:
  assumes "registry_keys db" "window_rows db w = xs @ ys" "xs \<noteq> []"
  shows "window_rows db (window_after w (last xs)) = ys"
proof -
  have "last xs \<in> set (window_rows db w)" using assms(2,3) by simp
  then have "in_window w (last xs)" by (simp add: window_rows_alt)
  then have "filter (in_window (window_after w (last xs))) (registry_rows db)
      = filter (\<lambda>x. position (last xs) < position x) (filter (in_window w) (registry_rows db))"
    by (auto simp: in_window_after intro: filter_cong)
  then have "window_rows db (window_after w (last xs)) = filter (\<lambda>x. position (last xs) < position x) (window_rows db w)"
    by (simp add: window_rows_alt filter_sort)
  then show ?thesis using split_sorted_after [of position xs ys] window_rows_sorted [OF assms(1), of w] assms(2,3) by simp
qed

lemma prefix_from_prefix: "\<exists>ys. cs = prefix_from counts started budget cs @ ys"
  by (induction cs arbitrary: started budget) (auto simp: Let_def)

lemma prefix_from_start: "cs \<noteq> [] \<Longrightarrow> prefix_from counts False budget cs \<noteq> []"
  by (cases cs) (auto simp: Let_def)

definition page_of :: "registry_db \<Rightarrow> registry_window \<Rightarrow> registry_candidate list \<Rightarrow> registry_change list" where
  "page_of db w cs = List.map_filter (\<lambda>c. evaluateBoxRegistryCandidate c (box_facts db (rc_id c)) (rw_since w \<noteq> None)) cs"

text \<open>One page is a non-empty prefix of what is left, and the cursor leads to the rest.\<close>

lemma list_registry_page:
  assumes "registry_keys db" "list_registry db db db db db' query = Inr page" "resolveBoxRegistryWindow query (currentVersion db) = Inr w" "0 < rw_limit w"
  obtains xs ys where "window_rows db w = xs @ ys" "pg_items page = page_of db w xs" "pg_until page = rw_until w"
    "currentVersion db = rw_until w" "xs \<noteq> [] \<or> ys = []"
    "pg_nextCursor page = None \<longleftrightarrow> ys = []"
    "\<forall>k. pg_nextCursor page = Some k \<longrightarrow> xs \<noteq> [] \<and> k = \<lparr>rk_since = rw_since w, rk_until = rw_until w,
         rk_registryVersion = rc_registryVersion (last xs), rk_id = rc_id (last xs)\<rparr> \<and> window_rows db (window_after w (last xs)) = ys"
proof -
  define rows where "rows = window_rows db w"
  define cs where "cs = take (rw_limit w) (take (rw_limit w + 1) rows)"
  define xs where "xs = prefix_from (membership_count db) False 0 cs"
  define hasMore where "hasMore \<longleftrightarrow> rw_limit w < length (take (rw_limit w + 1) rows) \<or> length xs < length cs"
  have page: "page = shapeBoxRegistryPage xs (box_facts db) w hasMore" "currentVersion db = rw_until w"
    using assms(2,3) by (auto simp: list_registry_def assertBoxRegistrySnapshotCurrent_def selectBoxRegistryCandidatePrefix_def
        box_facts_def Let_def rows_def cs_def xs_def hasMore_def split: if_splits)
  obtain zs where zs: "cs = xs @ zs" using prefix_from_prefix xs_def by blast
  have cs: "cs = take (rw_limit w) rows" by (simp add: cs_def min_def)
  define ys where "ys = zs @ drop (rw_limit w) rows"
  have rows: "window_rows db w = xs @ ys" using zs cs by (metis append.assoc append_take_drop_id rows_def ys_def)
  have more: "hasMore \<longleftrightarrow> ys \<noteq> []" using zs by (auto simp: hasMore_def ys_def min_def not_le)
  have nonempty: "xs \<noteq> [] \<or> ys = []"
  proof (cases "cs = []")
    case True
    then have "rows = []" using assms(4) cs by simp
    then show ?thesis using rows rows_def by simp
  qed (simp add: prefix_from_start xs_def)
  show ?thesis
  proof (rule that [OF rows])
    show "\<forall>k. pg_nextCursor page = Some k \<longrightarrow> xs \<noteq> [] \<and> k = \<lparr>rk_since = rw_since w, rk_until = rw_until w,
         rk_registryVersion = rc_registryVersion (last xs), rk_id = rc_id (last xs)\<rparr> \<and> window_rows db (window_after w (last xs)) = ys"
      using page(1) window_rows_after [OF assms(1) rows] by (auto simp: shapeBoxRegistryPage_def split: if_splits)
  qed (use page more nonempty in \<open>auto simp: shapeBoxRegistryPage_def page_of_def split: if_splits\<close>)
qed

end
