(* ===== verification/Registry_Sync.thy ===== *)
theory Registry_Sync
  imports Box_Registry
begin

text \<open>
  The copy of the box registry a kiosk keeps: \<open>store/box-registry.ts\<close> and \<open>refreshBoxRegistry\<close> of
  \<open>sync/worker.ts\<close> (\<open>apps/kiosk/src\<close>), against the pages of \<open>Box_Registry\<close>.

  A refresh is a program counter: one step is one answer of the server or one transaction of the stores.
  The servers commit between the steps, refreshes run at the same time, the kiosk is paired anew, and a
  refresh that is never stepped again is one that was interrupted. A transaction that throws or is
  aborted leaves the stores as they were.
\<close>

section \<open>Model\<close>

subsection \<open>Changes\<close>

record kiosk_upsert =
  ku_boxId :: jstring
  ku_sscc :: jstring
  ku_productId :: jstring
  ku_bottleCount :: nat
  ku_contentKeys :: "jstring list"
  ku_updatedAt :: int

datatype kiosk_change = KUpsert kiosk_upsert | KRemove jstring int

fun toKioskChange :: "registry_change \<Rightarrow> kiosk_change" where
  "toKioskChange (Remove sscc at) = KRemove sscc at"
| "toKioskChange (Upsert u) = KUpsert \<lparr>ku_boxId = ru_boxId u, ku_sscc = ru_sscc u, ku_productId = ru_productId u,
     ku_bottleCount = ru_bottleCount u, ku_contentKeys = ru_contentKeys u, ku_updatedAt = ru_updatedAt u\<rparr>"

fun change_sscc :: "kiosk_change \<Rightarrow> jstring" where
  "change_sscc (KUpsert u) = ku_sscc u"
| "change_sscc (KRemove sscc _) = sscc"

definition MAX_STRING_BYTES :: nat where "MAX_STRING_BYTES = 1024"

definition MAX_PAGE_BYTES :: nat where "MAX_PAGE_BYTES = 1024 * 1024"

definition MAX_PAGE_ITEMS :: nat where "MAX_PAGE_ITEMS = 500"

definition MAX_CONTENT_KEYS :: nat where "MAX_CONTENT_KEYS = 1000"

text \<open>The texts a change is counted by; \<open>to_iso\<close> prints a timestamp.\<close>

fun change_texts :: "(int \<Rightarrow> jstring) \<Rightarrow> kiosk_change \<Rightarrow> jstring list" where
  "change_texts to_iso (KRemove sscc at) = [lit ''remove'', sscc, to_iso at]"
| "change_texts to_iso (KUpsert u) = [lit ''upsert'', ku_sscc u, to_iso (ku_updatedAt u), ku_boxId u, ku_productId u] @ ku_contentKeys u"

fun change_keys :: "kiosk_change \<Rightarrow> jstring list" where
  "change_keys (KRemove _ _) = []"
| "change_keys (KUpsert u) = ku_contentKeys u"

definition preflightPage :: "(int \<Rightarrow> jstring) \<Rightarrow> kiosk_change list \<Rightarrow> bool" where
  "preflightPage to_iso values \<longleftrightarrow> length values \<le> MAX_PAGE_ITEMS
     \<and> list_all (\<lambda>s. length s \<le> MAX_STRING_BYTES \<and> length (utf8 s) \<le> MAX_STRING_BYTES) (concat (map (change_texts to_iso) values))
     \<and> sum_list (map (\<lambda>s. length (utf8 s)) (concat (map (change_texts to_iso) values))) \<le> MAX_PAGE_BYTES
     \<and> sum_list (map (\<lambda>c. length (change_keys c)) values) \<le> MAX_CONTENT_KEYS"

definition is_uuid :: "jstring \<Rightarrow> bool" where
  "is_uuid s = matches uuid_classes (to_lower s)"

fun checkedChange :: "kiosk_change \<Rightarrow> bool" where
  "checkedChange (KRemove sscc at) = isValidSscc sscc"
| "checkedChange (KUpsert u) = (isValidSscc (ku_sscc u) \<and> is_uuid (ku_boxId u) \<and> is_uuid (ku_productId u)
     \<and> 1 \<le> ku_bottleCount u \<and> ku_bottleCount u \<le> 500 \<and> length (ku_contentKeys u) = ku_bottleCount u
     \<and> [] \<notin> set (ku_contentKeys u) \<and> distinct (ku_contentKeys u))"

definition checkedChanges :: "(int \<Rightarrow> jstring) \<Rightarrow> kiosk_change list \<Rightarrow> bool" where
  "checkedChanges to_iso values \<longleftrightarrow> preflightPage to_iso values \<and> list_all checkedChange values \<and> distinct (map change_sscc values)"

subsection \<open>The stores\<close>

record cached_row = registry_row +
  cr_updatedAt :: int

record registry_meta =
  mt_owner :: credential_owner
  mt_version :: nat
  mt_generatedAt :: jstring

record registry_cut =
  ct_owner :: credential_owner
  ct_token :: jstring
  ct_since :: "nat option"
  ct_until :: nat

record registry_store =
  rt_config :: "kiosk_config option"
  rt_active :: "cached_row list"
  rt_staging :: "(jstring \<times> kiosk_change) list"
  rt_activeMeta :: "registry_meta option"
  rt_stagingMeta :: "registry_cut option"

fun put_key :: "('a \<Rightarrow> 'k::linorder) \<Rightarrow> 'a \<Rightarrow> 'a list \<Rightarrow> 'a list" where
  "put_key key x [] = [x]"
| "put_key key x (y # ys) = (if key x < key y then x # y # ys else if key x = key y then x # ys else y # put_key key x ys)"

datatype store_error =
    Ownership_changed | Staging_lost | Older_snapshot | Active_changed | Invalid_cut | Invalid_page | Invalid_generatedAt

definition MAX_REVISION :: nat where "MAX_REVISION = 9223372036854775807"

definition currentCredentialOwner :: "kiosk_config option \<Rightarrow> credential_owner option" where
  "currentCredentialOwner config = Option.bind config (\<lambda>c. if kc_hasToken c then boxRegistryCredentialOwnerOf c else None)"

definition checkedCut :: "registry_cut \<Rightarrow> bool" where
  "checkedCut stage \<longleftrightarrow> ct_token stage \<noteq> [] \<and> length (ct_token stage) \<le> 128 \<and> ct_until stage \<le> MAX_REVISION
     \<and> (case ct_since stage of Some s \<Rightarrow> s \<le> MAX_REVISION \<and> s \<le> ct_until stage | None \<Rightarrow> True)"

definition checkedMeta :: "(jstring \<Rightarrow> int option) \<Rightarrow> registry_meta \<Rightarrow> bool" where
  "checkedMeta date_parse meta \<longleftrightarrow> date_parse (mt_generatedAt meta) \<noteq> None \<and> mt_version meta \<le> MAX_REVISION"

definition clearRegistry :: "registry_store \<Rightarrow> registry_store" where
  "clearRegistry store = store\<lparr>rt_active := [], rt_staging := [], rt_activeMeta := None, rt_stagingMeta := None\<rparr>"

definition readBoxRegistryMeta :: "(jstring \<Rightarrow> int option) \<Rightarrow> credential_owner \<Rightarrow> registry_store \<Rightarrow> registry_store \<times> registry_meta option" where
  "readBoxRegistryMeta date_parse binding store =
     (case currentCredentialOwner (rt_config store) of
        None \<Rightarrow> (store, None)
      | Some current \<Rightarrow>
          if cw_serverUrl current \<noteq> cw_serverUrl binding \<or> cw_kioskId current \<noteq> cw_kioskId binding then (store, None)
          else case rt_activeMeta store of
            None \<Rightarrow> (store, None)
          | Some meta \<Rightarrow>
              if \<not> checkedMeta date_parse meta \<or> mt_owner meta \<noteq> current then (clearRegistry store, None) else (store, Some meta))"

definition beginBoxRegistryStage :: "registry_cut \<Rightarrow> registry_store \<Rightarrow> store_error + registry_store" where
  "beginBoxRegistryStage stage store =
     (if \<not> checkedCut stage then Inl Invalid_cut
      else if currentCredentialOwner (rt_config store) \<noteq> Some (ct_owner stage) then Inl Ownership_changed
      else Inr (store\<lparr>rt_staging := [], rt_stagingMeta := Some stage\<rparr>))"

definition discardBoxRegistryStage :: "registry_cut \<Rightarrow> registry_store \<Rightarrow> registry_store" where
  "discardBoxRegistryStage stage store =
     (if checkedCut stage \<and> currentCredentialOwner (rt_config store) = Some (ct_owner stage) \<and> rt_stagingMeta store = Some stage
      then store\<lparr>rt_staging := [], rt_stagingMeta := None\<rparr> else store)"

definition stageBoxRegistryPage :: "(int \<Rightarrow> jstring) \<Rightarrow> registry_cut \<Rightarrow> kiosk_change list \<Rightarrow> registry_store \<Rightarrow> store_error + registry_store" where
  "stageBoxRegistryPage to_iso stage changes store =
     (if \<not> checkedCut stage then Inl Invalid_cut
      else if \<not> checkedChanges to_iso changes then Inl Invalid_page
      else if currentCredentialOwner (rt_config store) \<noteq> Some (ct_owner stage) then Inl Ownership_changed
      else if rt_stagingMeta store \<noteq> Some stage then Inl Staging_lost
      else Inr (store\<lparr>rt_staging := foldl (\<lambda>rows c. put_key fst (change_sscc c, c) rows) (rt_staging store) changes\<rparr>))"

definition row_of :: "nat \<Rightarrow> kiosk_upsert \<Rightarrow> cached_row" where
  "row_of until u = \<lparr>rr_boxId = ku_boxId u, rr_sscc = ku_sscc u, rr_productId = ku_productId u, rr_bottleCount = int (ku_bottleCount u),
     rr_contentKeys = ku_contentKeys u, rr_version = dec until, cr_updatedAt = ku_updatedAt u\<rparr>"

fun apply_change :: "nat \<Rightarrow> cached_row list \<Rightarrow> kiosk_change \<Rightarrow> cached_row list" where
  "apply_change until rows (KRemove sscc _) = filter (\<lambda>r. rr_sscc r \<noteq> sscc) rows"
| "apply_change until rows (KUpsert u) = put_key rr_sscc (row_of until u) rows"

definition activateBoxRegistryPage ::
    "(jstring \<Rightarrow> int option) \<Rightarrow> (int \<Rightarrow> jstring) \<Rightarrow> registry_cut \<Rightarrow> kiosk_change list \<Rightarrow> jstring \<Rightarrow> registry_store \<Rightarrow> store_error + registry_store" where
  "activateBoxRegistryPage date_parse to_iso stage final_changes generatedAt store =
     (let activeMeta = (case rt_activeMeta store of Some m \<Rightarrow> if checkedMeta date_parse m then Some m else None | None \<Rightarrow> None)
      in if \<not> checkedCut stage then Inl Invalid_cut
         else if date_parse generatedAt = None then Inl Invalid_generatedAt
         else if \<not> checkedChanges to_iso final_changes then Inl Invalid_page
         else if currentCredentialOwner (rt_config store) \<noteq> Some (ct_owner stage) then Inl Ownership_changed
         else if rt_stagingMeta store \<noteq> Some stage then Inl Staging_lost
         else if (case activeMeta of Some m \<Rightarrow> mt_owner m \<noteq> ct_owner stage | None \<Rightarrow> False) then Inl Ownership_changed
         else if ct_since stage = None \<and> (case activeMeta of Some m \<Rightarrow> ct_until stage \<le> mt_version m | None \<Rightarrow> False) then Inl Older_snapshot
         else if ct_since stage \<noteq> None \<and> map_option mt_version activeMeta \<noteq> ct_since stage then Inl Active_changed
         else
           let rows = foldl (apply_change (ct_until stage)) (if ct_since stage = None then [] else rt_active store)
                        (map snd (rt_staging store) @ final_changes)
           in Inr (store\<lparr>rt_active := rows, rt_activeMeta := Some \<lparr>mt_owner = ct_owner stage, mt_version = ct_until stage, mt_generatedAt = generatedAt\<rparr>,
                         rt_staging := [], rt_stagingMeta := None\<rparr>))"

text \<open>\<open>lookupBox\<close>: a row that does not pass the checks of a change is not returned.\<close>

definition upsert_of_row :: "cached_row \<Rightarrow> kiosk_upsert" where
  "upsert_of_row r = \<lparr>ku_boxId = rr_boxId r, ku_sscc = rr_sscc r, ku_productId = rr_productId r,
     ku_bottleCount = nat (rr_bottleCount r), ku_contentKeys = rr_contentKeys r, ku_updatedAt = cr_updatedAt r\<rparr>"

definition change_of_row :: "cached_row \<Rightarrow> kiosk_change" where
  "change_of_row r = KUpsert (upsert_of_row r)"

definition lookupBox ::
    "(jstring \<Rightarrow> int option) \<Rightarrow> (int \<Rightarrow> jstring) \<Rightarrow> credential_owner \<Rightarrow> jstring \<Rightarrow> registry_store \<Rightarrow> registry_store \<times> cached_row option" where
  "lookupBox date_parse to_iso binding sscc store =
     (if \<not> isValidSscc sscc then (store, None)
      else case currentCredentialOwner (rt_config store) of
        None \<Rightarrow> (store, None)
      | Some current \<Rightarrow>
          if cw_serverUrl current \<noteq> cw_serverUrl binding \<or> cw_kioskId current \<noteq> cw_kioskId binding then (store, None)
          else case rt_activeMeta store of
            None \<Rightarrow> (clearRegistry store, None)
          | Some meta \<Rightarrow>
              if \<not> checkedMeta date_parse meta \<or> mt_owner meta \<noteq> current then (clearRegistry store, None)
              else (store, (case List.find (\<lambda>r. rr_sscc r = sscc) (rt_active store) of
                     Some r \<Rightarrow> if preflightPage to_iso [change_of_row r] \<and> checkedChange (change_of_row r) then Some r else None
                   | None \<Rightarrow> None)))"

subsection \<open>The refresh\<close>

definition BOX_REGISTRY_RESTARTS :: nat where "BOX_REGISTRY_RESTARTS = 3"

definition BOX_REGISTRY_PAGE_LIMIT :: nat where "BOX_REGISTRY_PAGE_LIMIT = 250"

definition BOX_REGISTRY_MAX_PAGES :: nat where "BOX_REGISTRY_MAX_PAGES = 10000"

record refresh_input =
  ri_owner :: credential_owner
  ri_generatedAt :: jstring
  ri_maxPages :: nat
  ri_token :: "nat \<Rightarrow> jstring"

text \<open>An answer is a page, a refusal of the server, or \<open>None\<close> for any other failure.\<close>

type_synonym registry_answer = "(box_registry_error + registry_page) option"

datatype refresh_pc =
    Refresh_start nat
  | Refresh_page nat "nat option" "registry_cut option" "registry_cursor option" "registry_cursor list" nat
  | Refresh_store nat "nat option" registry_cut "registry_cursor list" nat registry_page
  | Refresh_done | Refresh_failed

definition refresh_query :: "nat option \<Rightarrow> registry_cut option \<Rightarrow> registry_cursor option \<Rightarrow> registry_query" where
  "refresh_query since stage cursor =
     \<lparr>rq_since = since, rq_until = map_option ct_until stage, rq_cursor = cursor, rq_limit = BOX_REGISTRY_PAGE_LIMIT\<rparr>"

definition after_error :: "nat \<Rightarrow> registry_cut option \<Rightarrow> bool \<Rightarrow> registry_store \<Rightarrow> registry_store \<times> refresh_pc" where
  "after_error n stage changed store =
     ((case stage of Some c \<Rightarrow> discardBoxRegistryStage c store | None \<Rightarrow> store),
      if changed \<and> n + 1 < BOX_REGISTRY_RESTARTS then Refresh_start (n + 1) else Refresh_failed)"

definition page_step ::
    "(jstring \<Rightarrow> int option) \<Rightarrow> (int \<Rightarrow> jstring) \<Rightarrow> refresh_input \<Rightarrow> nat \<Rightarrow> nat option \<Rightarrow> registry_cut \<Rightarrow> registry_cursor list \<Rightarrow> nat
     \<Rightarrow> registry_page \<Rightarrow> registry_store \<Rightarrow> registry_store \<times> refresh_pc" where
  "page_step date_parse to_iso inp n since stage seen pages page store =
     (let items = map toKioskChange (pg_items page)
      in case pg_nextCursor page of
           Some k \<Rightarrow>
             if k \<in> set seen then after_error n (Some stage) False store
             else (case stageBoxRegistryPage to_iso stage items store of
                     Inl _ \<Rightarrow> after_error n (Some stage) False store
                   | Inr store' \<Rightarrow> (store', Refresh_page n since (Some stage) (Some k) (k # seen) pages))
         | None \<Rightarrow>
             (case activateBoxRegistryPage date_parse to_iso stage items (ri_generatedAt inp) store of
                Inl _ \<Rightarrow> after_error n (Some stage) False store
              | Inr store' \<Rightarrow> (store', Refresh_done)))"

fun refresh_step ::
    "(jstring \<Rightarrow> int option) \<Rightarrow> (int \<Rightarrow> jstring) \<Rightarrow> refresh_input \<Rightarrow> registry_answer \<Rightarrow> registry_store \<Rightarrow> refresh_pc \<Rightarrow> registry_store \<times> refresh_pc" where
  "refresh_step date_parse to_iso inp answer store (Refresh_start n) =
     (case readBoxRegistryMeta date_parse (ri_owner inp) store of
        (store', meta) \<Rightarrow> (store', Refresh_page n (map_option mt_version meta) None None [] 0))"
| "refresh_step date_parse to_iso inp answer store (Refresh_page n since stage cursor seen pages) =
     (if ri_maxPages inp < pages + 1 then after_error n stage False store
      else case answer of
        None \<Rightarrow> after_error n stage False store
      | Some (Inl e) \<Rightarrow> after_error n stage (e = Registry_snapshot_changed) store
      | Some (Inr page) \<Rightarrow>
          if MAX_REVISION < pg_until page then after_error n stage False store
          else case stage of
            None \<Rightarrow>
              (let c = \<lparr>ct_owner = ri_owner inp, ct_token = ri_token inp n, ct_since = since, ct_until = pg_until page\<rparr>
               in case beginBoxRegistryStage c store of
                    Inl _ \<Rightarrow> after_error n (Some c) False store
                  | Inr store' \<Rightarrow> (store', Refresh_store n since c seen (pages + 1) page))
          | Some c \<Rightarrow>
              if pg_until page \<noteq> ct_until c then after_error n stage False store
              else (store, Refresh_store n since c seen (pages + 1) page))"
| "refresh_step date_parse to_iso inp answer store (Refresh_store n since stage seen pages page) =
     page_step date_parse to_iso inp n since stage seen pages page store"
| "refresh_step date_parse to_iso inp answer store Refresh_done = (store, Refresh_done)"
| "refresh_step date_parse to_iso inp answer store Refresh_failed = (store, Refresh_failed)"

section \<open>The history of the registry\<close>

text \<open>What the registry says: the rows with a number and the facts about them.\<close>

definition registry_view :: "registry_db \<Rightarrow> (registry_candidate \<times> member_fact list) set" where
  "registry_view db = {(c, box_facts db (rc_id c)) | c. c \<in> set (registry_rows db) \<and> rc_sscc c \<noteq> None}"

text \<open>A transaction of the server: it changes the tables and stamps every box about which something changed; a
  box that has a number keeps it.\<close>

definition registry_commit :: "registry_db \<Rightarrow> registry_db \<Rightarrow> bool" where
  "registry_commit db db' \<longleftrightarrow> registry_keys db' \<and> (\<exists>mid clock ids. db' = fst (advanceBoxRegistryVersion mid clock ids)
     \<and> rg_currentVersion mid = rg_currentVersion db
     \<and> (\<forall>c f. rc_id c \<notin> set ids \<longrightarrow> ((c, f) \<in> registry_view mid \<longleftrightarrow> (c, f) \<in> registry_view db))
     \<and> (\<forall>c f. (c, f) \<in> registry_view db \<longrightarrow> (\<exists>c' f'. (c', f') \<in> registry_view mid \<and> rc_id c' = rc_id c \<and> rc_sscc c' = rc_sscc c)))"

definition versions_ok :: "registry_db \<Rightarrow> bool" where
  "versions_ok db \<longleftrightarrow> (\<forall>c f. (c, f) \<in> registry_view db \<longrightarrow> rc_registryVersion c \<le> currentVersion db)"

text \<open>What a later state owes to an earlier one: a row that was not stamped since is the same, no number is lost.\<close>

definition succeeds :: "registry_db \<Rightarrow> registry_db \<Rightarrow> bool" where
  "succeeds d0 d \<longleftrightarrow> (\<forall>c f. (c, f) \<in> registry_view d \<and> rc_registryVersion c \<le> currentVersion d0 \<longrightarrow> (c, f) \<in> registry_view d0)
     \<and> (\<forall>c f. (c, f) \<in> registry_view d0 \<longrightarrow> (\<exists>c' f'. (c', f') \<in> registry_view d \<and> rc_id c' = rc_id c \<and> rc_sscc c' = rc_sscc c))"

definition stamp_row :: "jstring list \<Rightarrow> nat \<Rightarrow> int \<Rightarrow> registry_candidate \<Rightarrow> registry_candidate" where
  "stamp_row ids v clock c = (if rc_id c \<in> set ids then c\<lparr>rc_registryVersion := v, rc_updatedAt := max clock (rc_updatedAt c + 1)\<rparr> else c)"

lemma stamp_row_frame [simp]: "rc_id (stamp_row ids v clock c) = rc_id c" "rc_sscc (stamp_row ids v clock c) = rc_sscc c"
  by (simp_all add: stamp_row_def)

lemma advance_view:
  assumes "ids \<noteq> []"
  shows "currentVersion (fst (advanceBoxRegistryVersion db clock ids)) = currentVersion db + 1
    \<and> registry_view (fst (advanceBoxRegistryVersion db clock ids))
       = (\<lambda>(c, f). (stamp_row ids (currentVersion db + 1) clock c, f)) ` registry_view db"
proof -
  define v where "v = currentVersion db + 1"
  define stamp where "stamp b = (if br_id b \<in> set ids then b\<lparr>br_registryVersion := v, br_updatedAt := max clock (br_updatedAt b + 1)\<rparr> else b)"
    for b :: box_record
  define db' where "db' = db\<lparr>rg_currentVersion := Some v, rg_boxes := map stamp (rg_boxes db)\<rparr>"
  have v: "(case rg_currentVersion db of None \<Rightarrow> 1 | Some n \<Rightarrow> n + 1) = v" by (simp add: v_def currentVersion_def split: option.split)
  have adv: "fst (advanceBoxRegistryVersion db clock ids) = db'"
    using assms v unfolding advanceBoxRegistryVersion_def allocateBoxRegistryVersion_def db'_def stamp_def [abs_def]
    by (simp add: Let_def)
  have "box_candidates db' (stamp b) = map (stamp_row ids v clock) (box_candidates db b)" for b
    by (auto simp: box_candidates_def db'_def stamp_def stamp_row_def candidate_row_def map_concat comp_def)
  then have rows: "registry_rows db' = map (stamp_row ids v clock) (registry_rows db)"
    by (simp add: registry_rows_def db'_def map_concat comp_def)
  have "membership_count db' = membership_count db" "joined_facts db' = joined_facts db"
    by (simp_all add: fun_eq_iff membership_count_def joined_facts_def db'_def)
  then have "box_facts db' = box_facts db" by (simp add: fun_eq_iff box_facts_def resolveBoxRegistryFacts_def Let_def)
  then have "registry_view db' = (\<lambda>(c, f). (stamp_row ids v clock c, f)) ` registry_view db"
    by (auto simp: registry_view_def rows image_iff)
  moreover have "currentVersion db' = v" by (simp add: db'_def currentVersion_def)
  ultimately show ?thesis unfolding adv v_def by simp
qed

lemma commit_step:
  assumes "versions_ok db" "registry_commit db db'"
  shows "currentVersion db \<le> currentVersion db' \<and> versions_ok db' \<and> succeeds db db'"
proof -
  obtain mid clock ids where c: "db' = fst (advanceBoxRegistryVersion mid clock ids)" "rg_currentVersion mid = rg_currentVersion db"
      "\<And>c f. rc_id c \<notin> set ids \<Longrightarrow> (c, f) \<in> registry_view mid \<longleftrightarrow> (c, f) \<in> registry_view db"
      "\<And>c f. (c, f) \<in> registry_view db \<Longrightarrow> \<exists>c' f'. (c', f') \<in> registry_view mid \<and> rc_id c' = rc_id c \<and> rc_sscc c' = rc_sscc c"
    using assms(2) unfolding registry_commit_def by blast
  have cur: "currentVersion mid = currentVersion db" using c(2) by (simp add: currentVersion_def)
  show ?thesis
  proof (cases "ids = []")
    case True
    then have "db' = mid" using c(1) by (simp add: advanceBoxRegistryVersion_def)
    moreover have "registry_view mid = registry_view db" using c(3) True by auto
    ultimately show ?thesis using assms(1) cur by (auto simp: versions_ok_def succeeds_def)
  next
    case False
    have v: "currentVersion db' = currentVersion db + 1"
        "registry_view db' = (\<lambda>(c, f). (stamp_row ids (currentVersion db + 1) clock c, f)) ` registry_view mid"
      using advance_view [OF False, of mid clock] c(1) cur by simp_all
    have old: "(x, f) \<in> registry_view db' \<Longrightarrow> rc_id x \<notin> set ids \<Longrightarrow> (x, f) \<in> registry_view db" for x f
      unfolding v(2) by (auto simp: c(3) stamp_row_def)
    have new: "(x, f) \<in> registry_view db' \<Longrightarrow> rc_id x \<in> set ids \<Longrightarrow> rc_registryVersion x = currentVersion db + 1" for x f
      unfolding v(2) by (auto simp: stamp_row_def)
    have "versions_ok db'" unfolding versions_ok_def v(1) using old new assms(1) unfolding versions_ok_def by (metis le_SucI Suc_eq_plus1 order_refl)
    moreover have "succeeds db db'" unfolding succeeds_def
    proof (intro conjI allI impI)
      fix x f assume "(x, f) \<in> registry_view db' \<and> rc_registryVersion x \<le> currentVersion db"
      then show "(x, f) \<in> registry_view db" using old new by fastforce
    next
      fix x f assume "(x, f) \<in> registry_view db"
      then obtain x' f' where x': "(x', f') \<in> registry_view mid" "rc_id x' = rc_id x" "rc_sscc x' = rc_sscc x" using c(4) by blast
      then have "(stamp_row ids (currentVersion db + 1) clock x', f') \<in> registry_view db'" unfolding v(2) by force
      then show "\<exists>c' f'. (c', f') \<in> registry_view db' \<and> rc_id c' = rc_id x \<and> rc_sscc c' = rc_sscc x" using x'(2,3) stamp_row_frame by metis
    qed
    ultimately show ?thesis using v(1) by simp
  qed
qed

inductive registry_history :: "registry_db list \<Rightarrow> bool" where
  first: "registry_keys db \<Longrightarrow> versions_ok db \<Longrightarrow> registry_history [db]"
| commit: "registry_history (db # h) \<Longrightarrow> registry_commit db db' \<Longrightarrow> registry_history (db' # db # h)"

lemma succeeds_refl: "succeeds d d"
  unfolding succeeds_def by blast

lemma succeeds_trans: "succeeds a b \<Longrightarrow> succeeds b c \<Longrightarrow> currentVersion a \<le> currentVersion b \<Longrightarrow> succeeds a c"
  unfolding succeeds_def
proof (elim conjE, intro conjI allI impI)
  fix x f
  assume old: "\<forall>c f. (c, f) \<in> registry_view b \<and> rc_registryVersion c \<le> currentVersion a \<longrightarrow> (c, f) \<in> registry_view a"
      "\<forall>x f. (x, f) \<in> registry_view c \<and> rc_registryVersion x \<le> currentVersion b \<longrightarrow> (x, f) \<in> registry_view b"
    and le: "currentVersion a \<le> currentVersion b" and x: "(x, f) \<in> registry_view c \<and> rc_registryVersion x \<le> currentVersion a"
  then have "(x, f) \<in> registry_view b" by auto
  then show "(x, f) \<in> registry_view a" using old(1) x by blast
next
  fix x f
  assume keep: "\<forall>x f. (x, f) \<in> registry_view a \<longrightarrow> (\<exists>c' f'. (c', f') \<in> registry_view b \<and> rc_id c' = rc_id x \<and> rc_sscc c' = rc_sscc x)"
      "\<forall>x f. (x, f) \<in> registry_view b \<longrightarrow> (\<exists>c' f'. (c', f') \<in> registry_view c \<and> rc_id c' = rc_id x \<and> rc_sscc c' = rc_sscc x)"
    and x: "(x, f) \<in> registry_view a"
  obtain y g where y: "(y, g) \<in> registry_view b" "rc_id y = rc_id x" "rc_sscc y = rc_sscc x" using keep(1) x by blast
  obtain z k where "(z, k) \<in> registry_view c" "rc_id z = rc_id y" "rc_sscc z = rc_sscc y" using keep(2) y(1) by blast
  then show "\<exists>c' f'. (c', f') \<in> registry_view c \<and> rc_id c' = rc_id x \<and> rc_sscc c' = rc_sscc x" using y(2,3) by auto
qed

lemma view_id_unique: "registry_keys db \<Longrightarrow> (c, f) \<in> registry_view db \<Longrightarrow> (c', f') \<in> registry_view db \<Longrightarrow> rc_id c = rc_id c' \<Longrightarrow> c = c' \<and> f = f'"
  using registry_rows_ids [of db] by (auto simp: registry_view_def distinct_map inj_on_def)

lemma same_view:
  assumes "succeeds a b" "currentVersion a = currentVersion b" "versions_ok b" "registry_keys a"
  shows "registry_view a = registry_view b"
proof -
  have sub: "(c, f) \<in> registry_view b \<Longrightarrow> (c, f) \<in> registry_view a" for c f
    using assms(1-3) unfolding succeeds_def versions_ok_def by auto
  have "(c, f) \<in> registry_view b" if a: "(c, f) \<in> registry_view a" for c f
  proof -
    obtain c' f' where b: "(c', f') \<in> registry_view b" "rc_id c' = rc_id c" using assms(1) a unfolding succeeds_def by blast
    then have "c' = c \<and> f' = f" using view_id_unique [OF assms(4) sub [OF b(1)] a] by simp
    then show ?thesis using b(1) by simp
  qed
  then show ?thesis using sub by auto
qed

lemma history_facts:
  "registry_history h \<Longrightarrow> (\<forall>d\<in>set h. registry_keys d \<and> versions_ok d \<and> currentVersion d \<le> currentVersion (hd h) \<and> succeeds d (hd h))"
proof (induction rule: registry_history.induct)
  case (commit db h db')
  have k: "registry_keys db'" using commit.hyps(2) by (simp add: registry_commit_def)
  have s: "currentVersion db \<le> currentVersion db'" "versions_ok db'" "succeeds db db'"
    using commit_step [of db db'] commit by auto
  show ?case
  proof
    fix d assume "d \<in> set (db' # db # h)"
    then consider "d = db'" | "d \<in> set (db # h)" by auto
    then show "registry_keys d \<and> versions_ok d \<and> currentVersion d \<le> currentVersion (hd (db' # db # h)) \<and> succeeds d (hd (db' # db # h))"
    proof cases
      case 2
      then have "registry_keys d" "versions_ok d" "currentVersion d \<le> currentVersion db" "succeeds d db" using commit.IH by auto
      then show ?thesis using s succeeds_trans by auto
    qed (simp add: k s succeeds_refl)
  qed
qed (auto simp: succeeds_refl)

lemma history_succeeds: "registry_history h \<Longrightarrow> a \<in> set h \<Longrightarrow> b \<in> set h \<Longrightarrow> currentVersion a \<le> currentVersion b \<Longrightarrow> succeeds a b"
proof (induction rule: registry_history.induct)
  case (commit db h db')
  note all = history_facts [OF registry_history.commit [OF commit.hyps]]
  show ?case
  proof (cases "b = db'")
    case True
    then show ?thesis using all commit.prems by auto
  next
    case False
    show ?thesis
    proof (cases "a = db'")
      case True
      have "b \<in> set (db' # db # h)" using commit.prems by simp
      then have b: "succeeds b db'" "currentVersion b \<le> currentVersion db'" "registry_keys b" "versions_ok db'" using all by auto
      then have "registry_view b = registry_view db'" using same_view commit.prems True by simp
      then show ?thesis using True unfolding succeeds_def by metis
    qed (use False commit in auto)
  qed
qed (simp add: succeeds_refl)

lemma history_view:
  "registry_history h \<Longrightarrow> a \<in> set h \<Longrightarrow> b \<in> set h \<Longrightarrow> currentVersion a = currentVersion b \<Longrightarrow> registry_view a = registry_view b"
  using same_view [of a b] history_succeeds [of h a b] history_facts [of h] by auto

section \<open>What a kiosk should hold\<close>

text \<open>The abstract registry: the entry of each number.\<close>

definition published_entry :: "registry_db \<Rightarrow> bool \<Rightarrow> registry_candidate \<Rightarrow> kiosk_change option" where
  "published_entry db delta c = map_option toKioskChange (evaluateBoxRegistryCandidate c (box_facts db (rc_id c)) delta)"

fun effect :: "kiosk_change \<Rightarrow> kiosk_upsert option" where
  "effect (KUpsert u) = Some u"
| "effect (KRemove _ _) = None"

definition published :: "registry_db \<Rightarrow> jstring \<Rightarrow> kiosk_upsert option" where
  "published db sscc = Option.bind (List.find (\<lambda>c. rc_sscc c = Some sscc) (registry_rows db)) (\<lambda>c. Option.bind (published_entry db False c) effect)"

definition cached :: "cached_row list \<Rightarrow> jstring \<Rightarrow> kiosk_upsert option" where
  "cached rows sscc = map_option upsert_of_row (List.find (\<lambda>r. rr_sscc r = sscc) rows)"

lemma evaluate_sscc: "evaluateBoxRegistryCandidate c facts delta = Some ch \<Longrightarrow> rc_sscc c = Some (change_sscc (toKioskChange ch)) \<and> isValidSscc (the (rc_sscc c))"
  by (auto simp: evaluateBoxRegistryCandidate_def ineligibleChange_def split: option.splits if_splits)

lemma entry_sscc: "published_entry db delta c = Some ch \<Longrightarrow> rc_sscc c = Some (change_sscc ch) \<and> isValidSscc (change_sscc ch)"
  using evaluate_sscc by (fastforce simp: published_entry_def)

lemma evaluate_delta:
  "evaluateBoxRegistryCandidate c facts delta = (case evaluateBoxRegistryCandidate c facts False of Some (Upsert u) \<Rightarrow> Some (Upsert u) | _ \<Rightarrow> ineligibleChange c delta)"
  by (auto simp: evaluateBoxRegistryCandidate_def ineligibleChange_def split: option.splits if_splits)

lemma entry_delta_effect:
  assumes "rc_sscc c = Some s" "isValidSscc s"
  shows "\<exists>ch. published_entry db True c = Some ch \<and> effect ch = Option.bind (published_entry db False c) effect"
proof (cases "\<exists>u. evaluateBoxRegistryCandidate c (box_facts db (rc_id c)) False = Some (Upsert u)")
  case True
  then show ?thesis using evaluate_delta [of c "box_facts db (rc_id c)" True] by (auto simp: published_entry_def)
next
  case False
  have no: "evaluateBoxRegistryCandidate c (box_facts db (rc_id c)) False = None"
  proof (cases "evaluateBoxRegistryCandidate c (box_facts db (rc_id c)) False")
    case (Some ch)
    then show ?thesis using False evaluate_delta [of c "box_facts db (rc_id c)" False]
      by (cases ch) (auto simp: ineligibleChange_def split: option.splits)
  qed
  then have "evaluateBoxRegistryCandidate c (box_facts db (rc_id c)) True = Some (Remove s (rc_updatedAt c))"
    using evaluate_delta [of c "box_facts db (rc_id c)" True] assms by (simp add: ineligibleChange_def)
  then show ?thesis using no by (simp add: published_entry_def)
qed

lemma rows_sscc_unique:
  assumes "registry_keys db" "c \<in> set (registry_rows db)" "c' \<in> set (registry_rows db)" "rc_sscc c = Some s" "rc_sscc c' = Some s"
  shows "c = c'"
proof -
  obtain b b' where b: "b \<in> set (rg_boxes db)" "c \<in> set (box_candidates db b)" "b' \<in> set (rg_boxes db)" "c' \<in> set (box_candidates db b')"
    using assms(2,3) by (auto simp: registry_rows_def)
  then have "br_sscc b = Some s" "br_sscc b' = Some s" using assms(4,5) box_candidates_of by metis+
  then have "b = b'" using assms(1) b(1,3) unfolding registry_keys_def by (metis option.distinct(1))
  then have "rc_id c = rc_id c'" using b box_candidates_of by metis
  then show ?thesis using registry_rows_ids [OF assms(1)] assms(2,3) by (auto simp: distinct_map inj_on_def)
qed

lemma find_unique:
  assumes "x \<in> set xs" "P x" "\<And>y. y \<in> set xs \<Longrightarrow> P y \<Longrightarrow> y = x"
  shows "List.find P xs = Some x"
proof (cases "List.find P xs")
  case None
  then show ?thesis using assms(1,2) by (auto simp: find_None_iff)
next
  case (Some y)
  then have "y \<in> set xs" "P y" by (auto simp: find_Some_iff)
  then show ?thesis using assms(3) Some by blast
qed

lemma find_None: "(\<And>y. y \<in> set xs \<Longrightarrow> \<not> P y) \<Longrightarrow> List.find P xs = None"
  by (simp add: find_None_iff)

lemma published_row:
  assumes "registry_keys db" "c \<in> set (registry_rows db)" "rc_sscc c = Some s"
  shows "published db s = Option.bind (published_entry db False c) effect"
proof -
  have "List.find (\<lambda>c. rc_sscc c = Some s) (registry_rows db) = Some c"
    by (intro find_unique assms(2,3)) (rule rows_sscc_unique [OF assms(1) _ assms(2) _ assms(3)])
  then show ?thesis by (simp add: published_def)
qed

lemma published_none: "(\<And>c. c \<in> set (registry_rows db) \<Longrightarrow> rc_sscc c \<noteq> Some s) \<Longrightarrow> published db s = None"
  by (simp add: published_def find_None)

lemma published_valid:
  assumes "published db s = Some u"
  shows "isValidSscc s"
proof -
  obtain c ch where "List.find (\<lambda>c. rc_sscc c = Some s) (registry_rows db) = Some c" "published_entry db False c = Some ch"
    using assms unfolding published_def by (auto simp: Option.bind_eq_Some_conv)
  then show ?thesis using entry_sscc [of db False c ch] by (auto simp: find_Some_iff)
qed

text \<open>Equal views have equal rows and entries.\<close>

lemma view_entry: "(c, box_facts a (rc_id c)) \<in> registry_view b \<Longrightarrow> published_entry a delta c = published_entry b delta c"
  by (auto simp: registry_view_def published_entry_def)

lemma in_view: "c \<in> set (registry_rows db) \<Longrightarrow> rc_sscc c \<noteq> None \<Longrightarrow> (c, box_facts db (rc_id c)) \<in> registry_view db"
  by (auto simp: registry_view_def)

lemma set_window_rows: "set (window_rows db w) = {c \<in> fst ` registry_view db. in_window w c}"
  by (auto simp: window_rows_alt registry_view_def image_iff in_window_def)

lemma view_window:
  assumes "registry_keys a" "registry_keys b" "registry_view a = registry_view b"
  shows "window_rows a w = window_rows b w" "c \<in> set (window_rows a w) \<Longrightarrow> published_entry a delta c = published_entry b delta c"
proof -
  have s: "sorted_wrt (<) (map position (window_rows a w))" "sorted_wrt (<) (map position (window_rows b w))"
    using window_rows_sorted assms(1,2) by auto
  have eq: "set (window_rows a w) = set (window_rows b w)" unfolding set_window_rows assms(3) ..
  have "inj_on position (set (window_rows a w) \<union> set (window_rows b w))"
    using s(1) eq unfolding strict_sorted_iff distinct_map by simp
  then show "window_rows a w = window_rows b w"
    using map_sorted_distinct_set_unique [of position "window_rows a w" "window_rows b w"] s eq by (simp add: strict_sorted_iff)
  assume "c \<in> set (window_rows a w)"
  then have "(c, box_facts a (rc_id c)) \<in> registry_view b"
    unfolding assms(3) [symmetric] by (intro in_view) (auto simp: window_rows_alt in_window_def)
  then show "published_entry a delta c = published_entry b delta c" by (rule view_entry)
qed

text \<open>The statements of one page that is answered saw one revision, and so one view.\<close>

lemma left_join_not_empty [simp]: "left_join on rows \<noteq> []"
  by (simp add: left_join_def split: list.split)

lemma total_members_facts: "total_members (box_facts db boxId) = membership_count db boxId"
proof -
  define members where "members = membership_count db boxId"
  have total: "f \<in> set (joined_facts db boxId members) \<Longrightarrow> mf_totalMembershipCount f = members" for f
    by (auto simp: joined_facts_def fact_row_def)
  have "joined_facts db boxId members \<noteq> []" if "0 < members"
  proof -
    have "\<exists>i\<in>set (rg_boxItems db). bi_boxId i = boxId"
      using that unfolding members_def membership_count_def by (auto simp: filter_empty_conv)
    then show ?thesis by (auto simp: joined_facts_def)
  qed
  then show ?thesis using total
    by (cases "joined_facts db boxId members")
      (auto simp: box_facts_def resolveBoxRegistryFacts_def Let_def total_members_def oversized_fact_def members_def)
qed

lemma prefix_from_same: "(\<And>c. c \<in> set cs \<Longrightarrow> f (rc_id c) = g (rc_id c)) \<Longrightarrow> prefix_from f started budget cs = prefix_from g started budget cs"
  by (induction cs arbitrary: started budget) (simp_all add: Let_def)

section \<open>Applying the changes\<close>

lemma find_put_key: "List.find (\<lambda>r. key r = k) (put_key key x rows) = (if key x = k then Some x else List.find (\<lambda>r. key r = k) rows)"
  by (induction rows) auto

lemma find_filter_other: "List.find (\<lambda>r. key r = k) (filter (\<lambda>r. key r \<noteq> k') rows) = (if k = k' then None else List.find (\<lambda>r. key r = k) rows)"
  by (induction rows) auto

lemma cached_apply: "cached (apply_change until rows ch) s = (if s = change_sscc ch then effect ch else cached rows s)"
proof (cases ch)
  case (KUpsert u)
  have "upsert_of_row (row_of until u) = u" "rr_sscc (row_of until u) = ku_sscc u" by (simp_all add: upsert_of_row_def row_of_def)
  then show ?thesis using KUpsert by (simp add: cached_def find_put_key)
qed (auto simp: cached_def find_filter_other)

definition tagged :: "kiosk_change list \<Rightarrow> (jstring \<times> kiosk_change) list" where
  "tagged chs = map (\<lambda>c. (change_sscc c, c)) chs"

lemma cached_fold:
  "distinct (map change_sscc chs) \<Longrightarrow>
     cached (foldl (apply_change until) rows chs) s = (case map_of (tagged chs) s of Some ch \<Rightarrow> effect ch | None \<Rightarrow> cached rows s)"
proof (induction chs arbitrary: rows)
  case (Cons ch chs)
  have "map_of (tagged chs) s = None" if "s = change_sscc ch"
    using Cons.prems that by (auto simp: tagged_def map_of_eq_None_iff comp_def)
  then show ?case using Cons by (auto simp: cached_apply tagged_def split: option.split)
qed (simp add: tagged_def)

lemma map_of_put_key: "map_of (put_key fst (k, v) rows) = (map_of rows)(k \<mapsto> v)"
  by (induction rows) (auto simp: fun_eq_iff)

lemma set_put_key: "set (map fst (put_key fst (k, v) rows)) = insert k (set (map fst rows))"
  by (induction rows) (auto simp: fun_eq_iff)

lemma sorted_put_key: "sorted_wrt (<) (map fst rows) \<Longrightarrow> sorted_wrt (<) (map fst (put_key fst (k :: 'k :: linorder, v) rows))"
proof (induction rows)
  case (Cons y ys)
  then have y: "\<forall>z\<in>set (map fst ys). fst y < z" "sorted_wrt (<) (map fst (put_key fst (k, v) ys))" by auto
  consider "k < fst y" | "k = fst y" | "fst y < k" by fastforce
  then show ?case
  proof cases
    case 1
    then have "\<forall>z\<in>set (map fst ys). k < z" using y(1) by fastforce
    then show ?thesis using 1 Cons.prems by simp
  next
    case 3
    then have "\<forall>z\<in>set (map fst (put_key fst (k, v) ys)). fst y < z" using y(1) unfolding set_put_key by blast
    then show ?thesis using 3 less_asym [OF 3] y(2) by auto
  qed (use Cons.prems in simp)
qed simp

text \<open>The staging store holds each change under its number, in key order.\<close>

definition staging_ok :: "(jstring \<times> kiosk_change) list \<Rightarrow> bool" where
  "staging_ok rows \<longleftrightarrow> sorted_wrt (<) (map fst rows) \<and> rows = tagged (map snd rows)"

lemma put_key_tagged: "rows = tagged (map snd rows) \<Longrightarrow> put_key fst (change_sscc c, c) rows = tagged (map snd (put_key fst (change_sscc c, c) rows))"
  by (induction rows) (auto simp: tagged_def)

lemma staged_fold:
  assumes "staging_ok rows" "distinct (map change_sscc chs)"
  shows "staging_ok (foldl (\<lambda>rows c. put_key fst (change_sscc c, c) rows) rows chs)
    \<and> map_of (foldl (\<lambda>rows c. put_key fst (change_sscc c, c) rows) rows chs) = map_of rows ++ map_of (tagged chs)"
  using assms
proof (induction chs arbitrary: rows)
  case (Cons c chs)
  have ok: "staging_ok (put_key fst (change_sscc c, c) rows)"
    using Cons.prems(1) sorted_put_key put_key_tagged by (auto simp: staging_ok_def)
  have "change_sscc c \<notin> dom (map_of (tagged chs))" using Cons.prems(2) by (auto simp: dom_map_of_conv_image_fst tagged_def)
  then have "map_of (put_key fst (change_sscc c, c) rows) ++ map_of (tagged chs) = map_of rows ++ map_of (tagged (c # chs))"
    unfolding map_of_put_key by (auto simp: fun_eq_iff map_add_def tagged_def split: option.splits)
  then show ?case using Cons.IH [OF ok] Cons.prems(2) by simp
qed (simp add: tagged_def)

section \<open>One cut\<close>

lemma map_filter_Cons: "List.map_filter f (x # xs) = (case f x of Some y \<Rightarrow> y # List.map_filter f xs | None \<Rightarrow> List.map_filter f xs)"
  by (simp add: List.map_filter_def split: option.split)

lemma map_filter_Nil: "List.map_filter f [] = []"
  by (simp add: List.map_filter_def)

lemma map_filter_append: "List.map_filter f (xs @ ys) = List.map_filter f xs @ List.map_filter f ys"
  by (simp add: List.map_filter_def)

lemma map_filter_same: "(\<And>x. x \<in> set xs \<Longrightarrow> f x = g x) \<Longrightarrow> List.map_filter f xs = List.map_filter g xs"
  by (induction xs) (simp_all add: map_filter_Cons map_filter_Nil split: option.split)

lemma page_items: "map toKioskChange (page_of db w cs) = List.map_filter (published_entry db (rw_since w \<noteq> None)) cs"
  by (induction cs) (auto simp: page_of_def published_entry_def map_filter_Cons map_filter_Nil split: option.split)

lemma entries_sscc: "ch \<in> set (List.map_filter (published_entry db delta) cs) \<Longrightarrow> Some (change_sscc ch) \<in> rc_sscc ` set cs"
proof (induction cs)
  case (Cons c cs)
  then show ?case using entry_sscc [of db delta c] by (cases "published_entry db delta c") (auto simp: map_filter_Cons)
qed (simp add: map_filter_Nil)

lemma entries_distinct:
  "distinct (map rc_sscc cs) \<Longrightarrow> distinct (map change_sscc (List.map_filter (published_entry db delta) cs))"
proof (induction cs)
  case (Cons c cs)
  show ?case
  proof (cases "published_entry db delta c")
    case (Some ch)
    have "rc_sscc c = Some (change_sscc ch)" using entry_sscc Some by blast
    then have "change_sscc ch \<notin> change_sscc ` set (List.map_filter (published_entry db delta) cs)"
      using entries_sscc [of _ db delta cs] Cons.prems by force
    then show ?thesis using Cons Some by (simp add: map_filter_Cons)
  qed (use Cons in \<open>simp add: map_filter_Cons\<close>)
qed (simp add: map_filter_Nil)

lemma entries_map:
  "distinct (map rc_sscc cs) \<Longrightarrow>
     map_of (tagged (List.map_filter (published_entry db delta) cs)) s = Option.bind (List.find (\<lambda>c. rc_sscc c = Some s) cs) (published_entry db delta)"
proof (induction cs)
  case (Cons c cs)
  have rest: "map_of (tagged (List.map_filter (published_entry db delta) cs)) s = None" if "rc_sscc c = Some s"
    using entries_sscc [of _ db delta cs] Cons.prems that by (force simp: tagged_def map_of_eq_None_iff)
  show ?case
  proof (cases "published_entry db delta c")
    case None
    then show ?thesis using Cons rest by (simp add: map_filter_Cons)
  next
    case (Some ch)
    then have "rc_sscc c = Some (change_sscc ch)" using entry_sscc by blast
    then show ?thesis using Cons Some by (auto simp: map_filter_Cons tagged_def)
  qed
qed (simp add: map_filter_Nil tagged_def)

lemma window_sscc_distinct:
  assumes "registry_keys db"
  shows "distinct (map rc_sscc (window_rows db w))"
proof -
  have "distinct (window_rows db w)" using window_rows_sorted [OF assms, of w] by (simp add: strict_sorted_iff distinct_map)
  moreover have "inj_on rc_sscc (set (window_rows db w))"
    using rows_sscc_unique [OF assms] by (intro inj_onI) (auto simp: window_rows_alt in_window_def)
  ultimately show ?thesis by (simp add: distinct_map)
qed

definition first_window :: "registry_cut \<Rightarrow> registry_window" where
  "first_window stage = \<lparr>rw_since = ct_since stage, rw_until = ct_until stage, rw_after = None, rw_limit = BOX_REGISTRY_PAGE_LIMIT\<rparr>"

definition cursor_at :: "registry_cut \<Rightarrow> registry_candidate \<Rightarrow> registry_cursor" where
  "cursor_at stage c = \<lparr>rk_since = ct_since stage, rk_until = ct_until stage, rk_registryVersion = rc_registryVersion c, rk_id = rc_id c\<rparr>"

abbreviation stage_entries :: "registry_db \<Rightarrow> registry_cut \<Rightarrow> registry_candidate list \<Rightarrow> kiosk_change list" where
  "stage_entries d stage cs \<equiv> List.map_filter (published_entry d (ct_since stage \<noteq> None)) cs"

text \<open>Applied to what was right at the start of the cut, its changes give what is right at its end.\<close>

lemma stage_content:
  assumes d: "registry_keys d" "versions_ok d" "currentVersion d = ct_until stage"
    and base: "case ct_since stage of None \<Rightarrow> base = (\<lambda>_. None)
      | Some v \<Rightarrow> \<exists>d0. registry_keys d0 \<and> currentVersion d0 = v \<and> succeeds d0 d \<and> base = published d0"
  shows "(case map_of (tagged (stage_entries d stage (window_rows d (first_window stage)))) s of Some ch \<Rightarrow> effect ch | None \<Rightarrow> base s)
    = published d s"
proof -
  let ?rows = "window_rows d (first_window stage)"
  have m: "map_of (tagged (stage_entries d stage ?rows)) s = Option.bind (List.find (\<lambda>c. rc_sscc c = Some s) ?rows) (published_entry d (ct_since stage \<noteq> None))"
    using entries_map window_sscc_distinct [OF d(1)] by blast
  show ?thesis
  proof (cases "\<exists>c\<in>set (registry_rows d). rc_sscc c = Some s")
    case True
    then obtain c where c: "c \<in> set (registry_rows d)" "rc_sscc c = Some s" by blast
    have view: "(c, box_facts d (rc_id c)) \<in> registry_view d" using in_view c by simp
    have le: "rc_registryVersion c \<le> ct_until stage" using d(2,3) view unfolding versions_ok_def by metis
    have only: "y \<in> set ?rows \<Longrightarrow> rc_sscc y = Some s \<Longrightarrow> y = c" for y
      using rows_sscc_unique [OF d(1) _ c(1) _ c(2)] by (simp add: window_rows_alt)
    have pub: "published d s = Option.bind (published_entry d False c) effect" by (rule published_row [OF d(1) c])
    show ?thesis
    proof (cases "ct_since stage")
      case None
      then have "c \<in> set ?rows" using c le by (simp add: window_rows_alt in_window_def first_window_def)
      then have "List.find (\<lambda>c. rc_sscc c = Some s) ?rows = Some c" using c(2) only by (intro find_unique)
      then show ?thesis using m pub None base by (cases "published_entry d False c") auto
    next
      case (Some v)
      then obtain d0 where d0: "registry_keys d0" "currentVersion d0 = v" "succeeds d0 d" "base = published d0" using base by auto
      show ?thesis
      proof (cases "v < rc_registryVersion c")
        case True
        then have "c \<in> set ?rows" using c le Some by (simp add: window_rows_alt in_window_def first_window_def)
        then have f: "List.find (\<lambda>c. rc_sscc c = Some s) ?rows = Some c" using c(2) only by (intro find_unique)
        show ?thesis
        proof (cases "isValidSscc s")
          case True
          then show ?thesis using entry_delta_effect [OF c(2) True, of d] m f pub Some by auto
        next
          case False
          then have "published_entry d True c = None" "published d s = None" "base s = None"
            using entry_sscc [of d True c] c(2) published_valid d0(4) by (cases "published_entry d True c"; fastforce)+
          then show ?thesis using m f Some by simp
        qed
      next
        case False
        then have "List.find (\<lambda>c. rc_sscc c = Some s) ?rows = None"
          using only Some by (intro find_None) (auto simp: window_rows_alt in_window_def first_window_def)
        moreover have old: "(c, box_facts d (rc_id c)) \<in> registry_view d0"
          using d0(2,3) view False unfolding succeeds_def by auto
        then have "c \<in> set (registry_rows d0)" by (auto simp: registry_view_def)
        then have "published d0 s = published d s" using published_row [OF d0(1) _ c(2)] pub view_entry [OF old] by simp
        ultimately show ?thesis using m d0(4) by simp
      qed
    qed
  next
    case False
    then have "List.find (\<lambda>c. rc_sscc c = Some s) ?rows = None" by (intro find_None) (auto simp: window_rows_alt)
    moreover have "published d s = None" using False by (intro published_none) auto
    moreover have "base s = None"
    proof (cases "ct_since stage")
      case (Some v)
      then obtain d0 where d0: "succeeds d0 d" "base = published d0" using base by auto
      have "\<not> (\<exists>c\<in>set (registry_rows d0). rc_sscc c = Some s)"
      proof
        assume "\<exists>c\<in>set (registry_rows d0). rc_sscc c = Some s"
        then obtain c where "c \<in> set (registry_rows d0)" "rc_sscc c = Some s" by blast
        then have "(c, box_facts d0 (rc_id c)) \<in> registry_view d0" "rc_sscc c = Some s" using in_view by auto
        then obtain c' f' where "(c', f') \<in> registry_view d" "rc_sscc c' = Some s" using d0(1) unfolding succeeds_def by metis
        then show False using False by (auto simp: registry_view_def)
      qed
      then show ?thesis using d0(2) published_none [of d0 s] by auto
    qed (use base in simp)
    ultimately show ?thesis using m by simp
  qed
qed

section \<open>Refreshes\<close>

definition covers :: "registry_db list \<Rightarrow> registry_cut \<Rightarrow> registry_db \<Rightarrow> registry_candidate list \<Rightarrow> registry_candidate list \<Rightarrow> bool" where
  "covers h c d xs ys \<longleftrightarrow> d \<in> set h \<and> currentVersion d = ct_until c \<and> window_rows d (first_window c) = xs @ ys"

text \<open>While the staging store belongs to the cut, it holds the changes of the rows the pages went through.\<close>

definition staged :: "registry_store \<Rightarrow> registry_cut \<Rightarrow> registry_db \<Rightarrow> registry_candidate list \<Rightarrow> bool" where
  "staged st c d xs \<longleftrightarrow> (rt_stagingMeta st = Some c \<longrightarrow> map_of (rt_staging st) = map_of (tagged (stage_entries d c xs)))"

definition cut_of :: "refresh_input \<Rightarrow> nat option \<Rightarrow> registry_cut \<Rightarrow> bool" where
  "cut_of inp since c \<longleftrightarrow> ct_owner c = ri_owner inp \<and> ct_token c \<in> range (ri_token inp) \<and> ct_since c = since"

definition page_ok :: "registry_db \<Rightarrow> registry_cut \<Rightarrow> registry_candidate list \<Rightarrow> registry_candidate list \<Rightarrow> registry_candidate list \<Rightarrow> registry_page \<Rightarrow> bool" where
  "page_ok d c xs ys zs page \<longleftrightarrow> map toKioskChange (pg_items page) = stage_entries d c ys \<and> (pg_nextCursor page = None \<longleftrightarrow> zs = [])
     \<and> (\<forall>k. pg_nextCursor page = Some k \<longrightarrow> ys \<noteq> [] \<and> k = cursor_at c (last (xs @ ys)))"

fun session_ok :: "registry_db list \<Rightarrow> registry_store \<Rightarrow> refresh_input \<Rightarrow> refresh_pc \<Rightarrow> bool" where
  "session_ok h st inp (Refresh_page n since None cursor seen pages) = (cursor = None)"
| "session_ok h st inp (Refresh_page n since (Some c) cursor seen pages) = (cut_of inp since c
     \<and> (\<exists>d xs ys. covers h c d xs ys \<and> xs \<noteq> [] \<and> cursor = Some (cursor_at c (last xs)) \<and> staged st c d xs))"
| "session_ok h st inp (Refresh_store n since c seen pages page) = (cut_of inp since c
     \<and> (\<exists>d xs ys zs. covers h c d xs (ys @ zs) \<and> page_ok d c xs ys zs page \<and> staged st c d xs))"
| "session_ok h st inp pc = True"

definition active_ok :: "(credential_owner \<Rightarrow> registry_db list) \<Rightarrow> registry_store \<Rightarrow> bool" where
  "active_ok h st \<longleftrightarrow> (\<forall>m. rt_activeMeta st = Some m \<longrightarrow>
     (\<exists>d\<in>set (h (mt_owner m)). currentVersion d = mt_version m \<and> (\<forall>s. cached (rt_active st) s = published d s)))"

text \<open>What is left of a cut when it is not the one that was worked on.\<close>

definition keeps_cut :: "registry_store \<Rightarrow> registry_store \<Rightarrow> registry_cut \<Rightarrow> bool" where
  "keeps_cut st st' c \<longleftrightarrow> (rt_stagingMeta st' = Some c \<longrightarrow> rt_stagingMeta st = Some c \<and> rt_staging st' = rt_staging st)"

definition quiet :: "registry_store \<Rightarrow> registry_store \<Rightarrow> bool" where
  "quiet st st' \<longleftrightarrow> (\<forall>c. keeps_cut st st' c) \<and> (staging_ok (rt_staging st) \<longrightarrow> staging_ok (rt_staging st'))
     \<and> (rt_activeMeta st' = None \<or> rt_activeMeta st' = rt_activeMeta st \<and> rt_active st' = rt_active st)"

lemma staging_ok_Nil [simp]: "staging_ok []"
  by (simp add: staging_ok_def tagged_def)

lemma quiet_refl [simp]: "quiet st st"
  by (simp add: quiet_def keeps_cut_def)

lemma quiet_clear: "quiet st (clearRegistry st)"
  by (simp add: quiet_def keeps_cut_def clearRegistry_def)

lemma quiet_read: "quiet st (fst (readBoxRegistryMeta dp b st))"
  using quiet_clear by (auto simp: readBoxRegistryMeta_def split: option.split)

lemma quiet_lookup: "quiet st (fst (lookupBox dp to_iso b s st))"
  using quiet_clear by (auto simp: lookupBox_def split: option.split)

lemma quiet_discard: "quiet st (discardBoxRegistryStage c st)"
  by (simp add: quiet_def keeps_cut_def discardBoxRegistryStage_def)

lemma quiet_after_error: "quiet st (fst (after_error n stage changed st))"
  using quiet_discard by (auto simp: after_error_def split: option.split)

lemma quiet_config: "quiet st (st\<lparr>rt_config := cfg\<rparr>)"
  by (simp add: quiet_def keeps_cut_def)

lemma active_ok_quiet: "active_ok h st \<Longrightarrow> quiet st st' \<Longrightarrow> active_ok h st'"
  unfolding active_ok_def quiet_def by auto

lemma session_ok_keep:
  assumes "session_ok h st inp pc" "\<And>c since. cut_of inp since c \<Longrightarrow> keeps_cut st st' c" "set h \<subseteq> set h'"
  shows "session_ok h' st' inp pc"
proof -
  have s: "cut_of inp since c \<Longrightarrow> staged st c d xs \<Longrightarrow> staged st' c d xs" for since c d xs
    using assms(2) by (auto simp: staged_def keeps_cut_def)
  have c: "covers h c d xs ys \<Longrightarrow> covers h' c d xs ys" for c d xs ys
    using assms(3) by (auto simp: covers_def)
  show ?thesis using assms(1) s c
    by (cases "(h, st, inp, pc)" rule: session_ok.cases) (simp, (simp, blast)+, simp_all)
qed

lemma session_ok_error: "session_ok h st inp (snd (after_error n stage changed st'))"
  by (simp add: after_error_def)

text \<open>The fence around the statements of \<open>list\<close>: an answered page is the page of one state.\<close>

lemma fenced_page:
  assumes h: "registry_history h" "{d0, d1, d2, d3, d4} \<subseteq> set h"
    and le: "sorted (map currentVersion [d0, d1, d2, d3, d4])"
    and page: "list_registry d0 d1 d2 d3 d4 query = Inr page"
  shows "list_registry d0 d0 d0 d0 d4 query = Inr page"
proof -
  obtain w where w: "resolveBoxRegistryWindow query (currentVersion d0) = Inr w"
    using page by (auto simp: list_registry_def split: sum.splits)
  have v: "currentVersion d0 = rw_until w" "currentVersion d4 = rw_until w"
    using page w by (auto simp: list_registry_def assertBoxRegistrySnapshotCurrent_def Let_def split: if_splits prod.splits)
  have same: "currentVersion d1 = currentVersion d0" "currentVersion d2 = currentVersion d0" "currentVersion d3 = currentVersion d0"
    using le v by auto
  have view: "registry_view d1 = registry_view d0" "registry_view d2 = registry_view d0" "registry_view d3 = registry_view d0"
    by (rule history_view [OF h(1) _ _ same(1)] history_view [OF h(1) _ _ same(2)] history_view [OF h(1) _ _ same(3)]; use h(2) in simp)+
  have keys: "registry_keys d0" "registry_keys d1" using history_facts [OF h(1)] h(2) by auto
  have rows: "window_rows d1 w = window_rows d0 w" by (rule view_window(1) [OF keys(2,1) view(1)])
  have facts: "box_facts d (rc_id c) = box_facts d0 (rc_id c)" if "registry_view d = registry_view d0" "c \<in> set (window_rows d0 w)" for d c
  proof -
    have "(c, box_facts d0 (rc_id c)) \<in> registry_view d" using that by (auto simp: window_rows_alt in_window_def intro: in_view)
    then show ?thesis by (auto simp: registry_view_def)
  qed
  then have counts: "membership_count d (rc_id c) = membership_count d0 (rc_id c)" if "registry_view d = registry_view d0" "c \<in> set (window_rows d0 w)" for d c
    using that total_members_facts by metis
  define cs where "cs = take (rw_limit w) (take (rw_limit w + 1) (window_rows d0 w))"
  have cs: "c \<in> set (window_rows d0 w)" if "c \<in> set cs" for c using that unfolding cs_def by (metis in_set_takeD)
  have p: "prefix_from (membership_count d2) False 0 cs = prefix_from (membership_count d0) False 0 cs"
    using counts [OF view(2)] cs by (intro prefix_from_same) blast
  have sel: "c \<in> set (window_rows d0 w)" if "c \<in> set (prefix_from (membership_count d0) False 0 cs)" for c
    using that prefix_from_prefix [of cs "membership_count d0" False 0] cs by (metis UnCI set_append)
  have "resolveBoxRegistryFacts d3 (membership_count d2) (rc_id c) = resolveBoxRegistryFacts d0 (membership_count d0) (rc_id c)"
    if "c \<in> set (window_rows d0 w)" for c
    using facts [OF view(3) that] counts [OF view(2) that] counts [OF view(3) that] by (simp add: box_facts_def resolveBoxRegistryFacts_def Let_def)
  then have items: "shapeBoxRegistryPage (prefix_from (membership_count d0) False 0 cs) (resolveBoxRegistryFacts d3 (membership_count d2)) w more
      = shapeBoxRegistryPage (prefix_from (membership_count d0) False 0 cs) (resolveBoxRegistryFacts d0 (membership_count d0)) w more" for more
    using sel by (auto simp: shapeBoxRegistryPage_def intro!: map_filter_same)
  show ?thesis using page w v rows p items
    by (simp add: list_registry_def assertBoxRegistrySnapshotCurrent_def selectBoxRegistryCandidatePrefix_def Let_def cs_def)
qed

text \<open>The page that follows the rows already gone through, read from any state of the cut's revision.\<close>

lemma list_window:
  assumes "list_registry d d d d v query = Inr page"
  obtains w where "resolveBoxRegistryWindow query (currentVersion d) = Inr w"
  using assms by (auto simp: list_registry_def split: sum.splits)

lemma next_page:
  assumes h: "registry_history h" "d' \<in> set h" and c: "covers h c d xs ys" "xs \<noteq> []"
    and page: "list_registry d' d' d' d' v (refresh_query (ct_since c) (Some c) (Some (cursor_at c (last xs)))) = Inr page"
  obtains us vs where "ys = us @ vs" "page_ok d c xs us vs page"
proof -
  define w where "w = window_after (first_window c) (last xs)"
  obtain w' where w': "resolveBoxRegistryWindow (refresh_query (ct_since c) (Some c) (Some (cursor_at c (last xs)))) (currentVersion d') = Inr w'"
    using list_window [OF page] by blast
  then have "w' = w" by (auto simp: resolveBoxRegistryWindow_def refresh_query_def cursor_at_def w_def window_after_def first_window_def position_def
        split: if_splits)
  note w = w' [unfolded this]
  have wd: "rw_since w = ct_since c" "rw_until w = ct_until c" "0 < rw_limit w"
    by (simp_all add: w_def window_after_def first_window_def BOX_REGISTRY_PAGE_LIMIT_def)
  have keys: "registry_keys d" "registry_keys d'" using history_facts [OF h(1)] h(2) c(1) by (auto simp: covers_def)
  obtain us vs where p: "window_rows d' w = us @ vs" "pg_items page = page_of d' w us" "pg_until page = rw_until w" "currentVersion d' = rw_until w"
      "us \<noteq> [] \<or> vs = []" "pg_nextCursor page = None \<longleftrightarrow> vs = []"
      "\<forall>k. pg_nextCursor page = Some k \<longrightarrow> us \<noteq> [] \<and> k = \<lparr>rk_since = rw_since w, rk_until = rw_until w,
         rk_registryVersion = rc_registryVersion (last us), rk_id = rc_id (last us)\<rparr> \<and> window_rows d' (window_after w (last us)) = vs"
    by (rule list_registry_page [OF keys(2) page w wd(3)])
  have view: "registry_view d' = registry_view d"
    using history_view [OF h(1,2), of d] c(1) p(4) wd(2) by (simp add: covers_def)
  note same = view_window [OF keys(2,1) view]
  have ys: "ys = us @ vs"
    using window_rows_after [OF keys(1), of "first_window c" xs ys] c p(1) same(1) [of w] by (simp add: covers_def w_def)
  have "set us \<subseteq> set (window_rows d' (first_window c))" using same(1) c(1) ys by (auto simp: covers_def)
  then have e: "x \<in> set us \<Longrightarrow> published_entry d' delta x = published_entry d delta x" for x delta using same(2) by blast
  have "map toKioskChange (pg_items page) = stage_entries d' c us" using p(2) page_items wd(1) by simp
  also have "\<dots> = stage_entries d c us" using e by (intro map_filter_same)
  finally have items: "map toKioskChange (pg_items page) = stage_entries d c us" .
  show ?thesis
  proof (rule that [OF ys])
    show "page_ok d c xs us vs page" unfolding page_ok_def
      using items p(6,7) wd by (auto simp: cursor_at_def)
  qed
qed

lemma first_page:
  assumes h: "registry_history h" "d \<in> set h" and page: "list_registry d d d d v (refresh_query since None None) = Inr page"
    and c: "ct_since c = since" "ct_until c = pg_until page"
  obtains us vs where "covers h c d [] (us @ vs)" "page_ok d c [] us vs page"
proof -
  define w where "w = \<lparr>rw_since = since, rw_until = currentVersion d, rw_after = None, rw_limit = BOX_REGISTRY_PAGE_LIMIT\<rparr>"
  obtain w' where w': "resolveBoxRegistryWindow (refresh_query since None None) (currentVersion d) = Inr w'"
    using list_window [OF page] by blast
  then have "w' = w" by (auto simp: resolveBoxRegistryWindow_def refresh_query_def w_def split: if_splits)
  note w = w' [unfolded this]
  have wd: "rw_since w = since" "0 < rw_limit w" by (simp_all add: w_def BOX_REGISTRY_PAGE_LIMIT_def)
  have keys: "registry_keys d" using history_facts [OF h(1)] h(2) by auto
  obtain us vs where p: "window_rows d w = us @ vs" "pg_items page = page_of d w us" "pg_until page = rw_until w" "currentVersion d = rw_until w"
      "us \<noteq> [] \<or> vs = []" "pg_nextCursor page = None \<longleftrightarrow> vs = []"
      "\<forall>k. pg_nextCursor page = Some k \<longrightarrow> us \<noteq> [] \<and> k = \<lparr>rk_since = rw_since w, rk_until = rw_until w,
         rk_registryVersion = rc_registryVersion (last us), rk_id = rc_id (last us)\<rparr> \<and> window_rows d (window_after w (last us)) = vs"
    by (rule list_registry_page [OF keys page w wd(2)])
  have fw: "first_window c = w" using c p(3) by (simp add: first_window_def w_def)
  show ?thesis
  proof (rule that)
    show "covers h c d [] (us @ vs)" using h(2) c(2) p(1,3,4) fw by (simp add: covers_def)
    show "page_ok d c [] us vs page" unfolding page_ok_def
      using p(2,3,6,7) page_items wd(1) c by (auto simp: cursor_at_def)
  qed
qed

lemma tagged_append: "tagged (xs @ ys) = tagged xs @ tagged ys"
  by (simp add: tagged_def)

lemma dom_tagged: "dom (map_of (tagged chs)) = change_sscc ` set chs"
  by (auto simp: dom_map_of_conv_image_fst tagged_def image_iff)

lemma entries_append:
  assumes "registry_keys d" "covers h c d xs (ys @ zs)"
  shows "distinct (map change_sscc (stage_entries d c xs @ stage_entries d c ys))"
    and "map_of (tagged (stage_entries d c xs)) ++ map_of (tagged (stage_entries d c ys)) = map_of (tagged (stage_entries d c (xs @ ys)))"
proof -
  have "distinct (map rc_sscc (xs @ ys))" using window_sscc_distinct [OF assms(1), of "first_window c"] assms(2) by (auto simp: covers_def)
  then show d: "distinct (map change_sscc (stage_entries d c xs @ stage_entries d c ys))"
    using entries_distinct [of "xs @ ys" d] by (simp only: map_filter_append)
  then have "dom (map_of (tagged (stage_entries d c xs))) \<inter> dom (map_of (tagged (stage_entries d c ys))) = {}"
    unfolding dom_tagged by auto
  then show "map_of (tagged (stage_entries d c xs)) ++ map_of (tagged (stage_entries d c ys)) = map_of (tagged (stage_entries d c (xs @ ys)))"
    unfolding map_filter_append tagged_append map_of_append by (rule map_add_comm)
qed

lemma stage_page_ok:
  assumes st: "staging_ok (rt_staging st)" "stageBoxRegistryPage to_iso c items st = Inr st'"
    and d: "registry_keys d" "covers h c d xs (ys @ zs)" "staged st c d xs" "items = stage_entries d c ys"
  shows "staging_ok (rt_staging st') \<and> staged st' c d (xs @ ys) \<and> rt_activeMeta st' = rt_activeMeta st \<and> rt_active st' = rt_active st
    \<and> rt_stagingMeta st' = Some c"
proof -
  have g: "rt_stagingMeta st = Some c" "rt_stagingMeta st' = Some c"
      "rt_staging st' = foldl (\<lambda>rows c. put_key fst (change_sscc c, c) rows) (rt_staging st) items"
      "rt_activeMeta st' = rt_activeMeta st" "rt_active st' = rt_active st"
    using st(2) by (auto simp: stageBoxRegistryPage_def split: if_splits)
  note e = entries_append [OF d(1,2)]
  have "distinct (map change_sscc items)" using e(1) d(4) by simp
  note f = staged_fold [OF st(1) this, folded g(3)]
  have "map_of (rt_staging st) = map_of (tagged (stage_entries d c xs))" using d(3) g(1) by (simp add: staged_def)
  then have "map_of (rt_staging st') = map_of (tagged (stage_entries d c (xs @ ys)))" using f e(2) d(4) by simp
  then show ?thesis using f g by (simp add: staged_def)
qed

lemma activate_page_ok:
  assumes st: "staging_ok (rt_staging st)" "active_ok h st" "activateBoxRegistryPage dp to_iso c items t st = Inr st'"
    and h: "registry_history (h (ct_owner c))"
    and d: "covers (h (ct_owner c)) c d xs ys" "staged st c d xs" "items = stage_entries d c ys"
  shows "active_ok h st' \<and> rt_staging st' = [] \<and> rt_stagingMeta st' = None"
proof -
  define meta where "meta = (case rt_activeMeta st of Some m \<Rightarrow> if checkedMeta dp m then Some m else None | None \<Rightarrow> None)"
  define base where "base = (if ct_since c = None then [] else rt_active st)"
  define rows where "rows = foldl (apply_change (ct_until c)) base (map snd (rt_staging st) @ items)"
  define m' where "m' = \<lparr>mt_owner = ct_owner c, mt_version = ct_until c, mt_generatedAt = t\<rparr>"
  have g: "rt_stagingMeta st = Some c" "case meta of Some m \<Rightarrow> mt_owner m = ct_owner c | None \<Rightarrow> True"
      "ct_since c \<noteq> None \<longrightarrow> map_option mt_version meta = ct_since c"
      "st' = st\<lparr>rt_active := rows, rt_activeMeta := Some m', rt_staging := [], rt_stagingMeta := None\<rparr>"
    using st(3) unfolding activateBoxRegistryPage_def meta_def [symmetric] Let_def base_def [symmetric] rows_def [symmetric] m'_def [symmetric]
    by (auto split: if_splits option.splits)
  have facts: "registry_keys d" "versions_ok d" "currentVersion d = ct_until c"
    using history_facts [OF h] d(1) by (auto simp: covers_def)
  have d1: "covers (h (ct_owner c)) c d xs (ys @ [])" using d(1) by simp
  note e = entries_append [OF facts(1) d1]
  have m: "map_of (rt_staging st) = map_of (tagged (stage_entries d c xs))" using d(2) g(1) by (simp add: staged_def)
  have tag: "rt_staging st = tagged (map snd (rt_staging st))" using st(1) by (simp add: staging_ok_def)
  have "distinct (map fst (rt_staging st))" using st(1) by (simp add: staging_ok_def strict_sorted_iff)
  then have ds: "distinct (map change_sscc (map snd (rt_staging st)))" by (subst (asm) tag) (simp add: tagged_def comp_def)
  have "change_sscc ` set (map snd (rt_staging st)) = change_sscc ` set (stage_entries d c xs)"
    using m tag dom_tagged by metis
  then have dist: "distinct (map change_sscc (map snd (rt_staging st) @ items))" using ds e(1) d(3) by auto
  have dj: "dom (map_of (rt_staging st)) \<inter> dom (map_of (tagged items)) = {}"
    using e(1) unfolding m d(3) dom_tagged by auto
  have "map_of (tagged (map snd (rt_staging st) @ items)) = map_of (rt_staging st) ++ map_of (tagged items)"
    unfolding tagged_append map_of_append tag [symmetric] using map_add_comm [OF dj] by simp
  then have all: "map_of (tagged (map snd (rt_staging st) @ items)) = map_of (tagged (stage_entries d c (window_rows d (first_window c))))"
    using e(2) m d(1,3) by (simp add: covers_def)
  have b: "case ct_since c of None \<Rightarrow> cached base = (\<lambda>_. None)
      | Some v \<Rightarrow> \<exists>d0. registry_keys d0 \<and> currentVersion d0 = v \<and> succeeds d0 d \<and> cached base = published d0"
  proof (cases "ct_since c")
    case None
    then show ?thesis by (simp add: base_def cached_def fun_eq_iff)
  next
    case (Some v)
    then obtain m where m: "rt_activeMeta st = Some m" "mt_version m = v" "mt_owner m = ct_owner c" "ct_since c \<noteq> None"
      using g(2,3) by (auto simp: meta_def split: option.splits if_splits)
    then obtain d0 where d0: "d0 \<in> set (h (ct_owner c))" "currentVersion d0 = v" "\<forall>s. cached (rt_active st) s = published d0 s"
      using st(2) unfolding active_ok_def by metis
    have "checkedCut c" using st(3) by (auto simp: activateBoxRegistryPage_def Let_def split: if_splits)
    then have "v \<le> ct_until c" using Some by (simp add: checkedCut_def)
    then have "succeeds d0 d" using history_succeeds [OF h d0(1), of d] d(1) d0(2) by (simp add: covers_def)
    then show ?thesis using Some d0 history_facts [OF h] by (auto simp: base_def fun_eq_iff)
  qed
  have "cached rows s = published d s" for s
    unfolding rows_def cached_fold [OF dist] all using stage_content [OF facts b] .
  then show ?thesis using g(4) d(1) by (auto simp: active_ok_def m'_def covers_def)
qed

definition server_answers :: "registry_db list \<Rightarrow> refresh_pc \<Rightarrow> registry_answer \<Rightarrow> bool" where
  "server_answers h pc answer \<longleftrightarrow> (\<forall>n since stage cursor seen pages. pc = Refresh_page n since stage cursor seen pages \<longrightarrow>
     answer = None \<or> (\<exists>d0 d1 d2 d3 d4. {d0, d1, d2, d3, d4} \<subseteq> set h \<and> sorted (map currentVersion [d0, d1, d2, d3, d4])
       \<and> answer = Some (list_registry d0 d1 d2 d3 d4 (refresh_query since stage cursor))))"

definition store_ok :: "(credential_owner \<Rightarrow> registry_db list) \<Rightarrow> registry_store \<Rightarrow> bool" where
  "store_ok h st \<longleftrightarrow> staging_ok (rt_staging st) \<and> active_ok h st"

definition step_result :: "(credential_owner \<Rightarrow> registry_db list) \<Rightarrow> refresh_input \<Rightarrow> registry_store \<Rightarrow> registry_store \<times> refresh_pc \<Rightarrow> bool" where
  "step_result h inp st out \<longleftrightarrow> store_ok h (fst out) \<and> session_ok (h (ri_owner inp)) (fst out) inp (snd out)
     \<and> (\<forall>c. ct_token c \<notin> range (ri_token inp) \<longrightarrow> keeps_cut st (fst out) c)"

lemma store_ok_quiet: "store_ok h st \<Longrightarrow> quiet st st' \<Longrightarrow> store_ok h st'"
  using active_ok_quiet by (auto simp: store_ok_def quiet_def)

lemma quiet_result: "store_ok h st \<Longrightarrow> quiet st (fst out) \<Longrightarrow> session_ok (h (ri_owner inp)) (fst out) inp (snd out) \<Longrightarrow> step_result h inp st out"
  using store_ok_quiet [of h st "fst out"] by (simp add: step_result_def quiet_def)

lemma error_result: "store_ok h st \<Longrightarrow> step_result h inp st (after_error n stage changed st)"
  using quiet_after_error session_ok_error by (intro quiet_result)

lemma page_step_ok:
  assumes st: "store_ok h st" and h: "\<And>w. registry_history (h w)"
    and s: "session_ok (h (ri_owner inp)) st inp (Refresh_store n since c seen pages page)"
  shows "step_result h inp st (page_step dp to_iso inp n since c seen pages page st)"
proof -
  obtain d xs ys zs where d: "cut_of inp since c" "covers (h (ri_owner inp)) c d xs (ys @ zs)" "page_ok d c xs ys zs page" "staged st c d xs"
    using s by auto
  have own: "ri_owner inp = ct_owner c" "ct_token c \<in> range (ri_token inp)" using d(1) by (simp_all add: cut_of_def)
  have keys: "registry_keys d" using history_facts [OF h] d(2) by (auto simp: covers_def)
  define items where "items = map toKioskChange (pg_items page)"
  have items: "items = stage_entries d c ys" using d(3) by (simp add: page_ok_def items_def)
  have ok: "staging_ok (rt_staging st)" "active_ok h st" using st by (simp_all add: store_ok_def)
  show ?thesis
  proof (cases "pg_nextCursor page")
    case None
    then have "zs = []" using d(3) by (simp add: page_ok_def)
    then have cov: "covers (h (ct_owner c)) c d xs ys" using d(2) own(1) by simp
    show ?thesis
    proof (cases "activateBoxRegistryPage dp to_iso c items (ri_generatedAt inp) st")
      case (Inl e)
      then show ?thesis using None error_result [OF st] by (simp add: page_step_def items_def)
    next
      case (Inr st')
      then have "active_ok h st' \<and> rt_staging st' = [] \<and> rt_stagingMeta st' = None"
        using activate_page_ok [OF ok Inr h cov d(4) items] by simp
      then show ?thesis using None Inr by (simp add: page_step_def items_def step_result_def store_ok_def keeps_cut_def)
    qed
  next
    case (Some k)
    then have k: "xs @ ys \<noteq> []" "k = cursor_at c (last (xs @ ys))" using d(3) by (simp_all add: page_ok_def)
    show ?thesis
    proof (cases "k \<in> set seen")
      case True
      then show ?thesis using Some error_result [OF st] by (simp add: page_step_def)
    next
      case new: False
      show ?thesis
      proof (cases "stageBoxRegistryPage to_iso c items st")
        case (Inl e)
        then show ?thesis using Some new error_result [OF st] by (simp add: page_step_def items_def)
      next
        case (Inr st')
        then have st': "staging_ok (rt_staging st')" "staged st' c d (xs @ ys)" "rt_activeMeta st' = rt_activeMeta st" "rt_active st' = rt_active st"
            "rt_stagingMeta st' = Some c"
          using stage_page_ok [OF ok(1) Inr keys d(2,4) items] by auto
        have "covers (h (ri_owner inp)) c d (xs @ ys) zs" using d(2) by (simp add: covers_def)
        then have "session_ok (h (ri_owner inp)) st' inp (Refresh_page n since (Some c) (Some k) (k # seen) pages)"
          using d(1) k st'(2) unfolding session_ok.simps by blast
        moreover have "store_ok h st'" using st' ok(2) by (simp add: store_ok_def active_ok_def)
        moreover have "keeps_cut st st' c'" if "ct_token c' \<notin> range (ri_token inp)" for c'
          using st'(5) own(2) that by (auto simp: keeps_cut_def)
        ultimately show ?thesis using Some new Inr by (simp add: page_step_def items_def step_result_def)
      qed
    qed
  qed
qed

lemma begin_ok:
  assumes "store_ok h st" "beginBoxRegistryStage c st = Inr st'" "cut_of inp since c"
  shows "store_ok h st' \<and> staged st' c d [] \<and> (\<forall>c'. ct_token c' \<notin> range (ri_token inp) \<longrightarrow> keeps_cut st st' c')"
proof -
  have "st' = st\<lparr>rt_staging := [], rt_stagingMeta := Some c\<rparr>" using assms(2) by (simp add: beginBoxRegistryStage_def split: if_splits)
  moreover have "ct_token c \<in> range (ri_token inp)" using assms(3) by (simp add: cut_of_def)
  ultimately show ?thesis using assms(1)
    by (auto simp: store_ok_def active_ok_def staged_def keeps_cut_def tagged_def map_filter_Nil)
qed

lemma page_arrives:
  assumes st: "store_ok h st" and h: "\<And>w. registry_history (h w)" "d \<in> set (h (ri_owner inp))"
    and s: "session_ok (h (ri_owner inp)) st inp (Refresh_page n since stage cursor seen pages)"
    and page: "list_registry d d d d v (refresh_query since stage cursor) = Inr page"
  shows "step_result h inp st (refresh_step dp to_iso inp (Some (Inr page)) st (Refresh_page n since stage cursor seen pages))"
proof (cases "ri_maxPages inp < pages + 1 \<or> MAX_REVISION < pg_until page")
  case True
  then show ?thesis using error_result [OF st] by auto
next
  case go: False
  show ?thesis
  proof (cases stage)
    case None
    define c where "c = \<lparr>ct_owner = ri_owner inp, ct_token = ri_token inp n, ct_since = since, ct_until = pg_until page\<rparr>"
    have c: "cut_of inp since c" "ct_since c = since" "ct_until c = pg_until page" by (simp_all add: c_def cut_of_def)
    have p: "list_registry d d d d v (refresh_query since None None) = Inr page" using page s None by simp
    obtain us vs where uv: "covers (h (ri_owner inp)) c d [] (us @ vs)" "page_ok d c [] us vs page"
      by (rule first_page [OF h(1,2) p c(2,3)])
    show ?thesis
    proof (cases "beginBoxRegistryStage c st")
      case (Inl e)
      then show ?thesis using None go error_result [OF st] by (simp add: Let_def c_def)
    next
      case (Inr st')
      note b = begin_ok [OF st Inr c(1), of d]
      have "session_ok (h (ri_owner inp)) st' inp (Refresh_store n since c seen (pages + 1) page)"
        using c(1) uv b unfolding session_ok.simps by blast
      then show ?thesis using None go Inr b by (simp add: Let_def c_def step_result_def)
    qed
  next
    case (Some c)
    then obtain d' xs ys where x: "cut_of inp since c" "covers (h (ri_owner inp)) c d' xs ys" "xs \<noteq> []" "cursor = Some (cursor_at c (last xs))" "staged st c d' xs"
      using s by auto
    have p: "list_registry d d d d v (refresh_query (ct_since c) (Some c) (Some (cursor_at c (last xs)))) = Inr page"
      using page Some x(1,4) by (simp add: cut_of_def)
    obtain us vs where uv: "ys = us @ vs" "page_ok d' c xs us vs page"
      by (rule next_page [OF h(1,2) x(2,3) p])
    have "session_ok (h (ri_owner inp)) st inp (Refresh_store n since c seen (pages + 1) page)"
      using x(1,2,5) uv unfolding session_ok.simps by blast
    then have "step_result h inp st (st, Refresh_store n since c seen (pages + 1) page)" by (intro quiet_result [OF st]) simp_all
    then show ?thesis using Some go error_result [OF st] by simp
  qed
qed

lemma refresh_step_ok:
  assumes st: "store_ok h st" and h: "\<And>w. registry_history (h w)"
    and s: "session_ok (h (ri_owner inp)) st inp pc" "server_answers (h (ri_owner inp)) pc answer"
  shows "step_result h inp st (refresh_step dp to_iso inp answer st pc)"
proof (cases pc)
  case (Refresh_start n)
  then show ?thesis using quiet_read [of st dp "ri_owner inp"] by (auto intro!: quiet_result [OF st] split: prod.split)
next
  case (Refresh_page n since stage cursor seen pages)
  consider "answer = None" | d0 d1 d2 d3 d4 where "{d0, d1, d2, d3, d4} \<subseteq> set (h (ri_owner inp))"
      "sorted (map currentVersion [d0, d1, d2, d3, d4])" "answer = Some (list_registry d0 d1 d2 d3 d4 (refresh_query since stage cursor))"
    using s(2) Refresh_page unfolding server_answers_def by blast
  then show ?thesis
  proof cases
    case 1
    then show ?thesis using Refresh_page error_result [OF st] by simp
  next
    case 2
    show ?thesis
    proof (cases "list_registry d0 d1 d2 d3 d4 (refresh_query since stage cursor)")
      case (Inl e)
      then show ?thesis using 2 Refresh_page error_result [OF st] by simp
    next
      case (Inr page)
      have d0: "d0 \<in> set (h (ri_owner inp))" using 2(1) by simp
      show ?thesis using page_arrives [OF st h d0 _ fenced_page [OF h 2(1,2) Inr]] s(1) 2(3) Inr unfolding Refresh_page by simp
    qed
  qed
next
  case (Refresh_store n since c seen pages page)
  then show ?thesis using page_step_ok [OF st h] s(1) by simp
qed (auto intro: quiet_result [OF st])

section \<open>Runs\<close>

text \<open>The servers the kiosk was ever paired with, each under the owner of the credential it gave, and the refreshes
  that were started. An answer may be late: it is any page of any state the server was in.\<close>

definition other_tokens :: "refresh_input \<Rightarrow> refresh_input \<Rightarrow> bool" where
  "other_tokens a b \<longleftrightarrow> range (ri_token a) \<inter> range (ri_token b) = {}"

inductive sync_run ::
    "(jstring \<Rightarrow> int option) \<Rightarrow> (int \<Rightarrow> jstring) \<Rightarrow> (credential_owner \<Rightarrow> registry_db list) \<Rightarrow> registry_store \<Rightarrow> (refresh_input \<times> refresh_pc) list \<Rightarrow> bool"
  for dp :: "jstring \<Rightarrow> int option" and to_iso :: "int \<Rightarrow> jstring" where
  start: "(\<And>w. registry_keys (d w) \<and> versions_ok (d w)) \<Longrightarrow>
     sync_run dp to_iso (\<lambda>w. [d w]) \<lparr>rt_config = cfg, rt_active = [], rt_staging = [], rt_activeMeta = None, rt_stagingMeta = None\<rparr> []"
| commit: "sync_run dp to_iso h st ss \<Longrightarrow> h w = db # older \<Longrightarrow> registry_commit db db' \<Longrightarrow> sync_run dp to_iso (h(w := db' # db # older)) st ss"
| pair: "sync_run dp to_iso h st ss \<Longrightarrow> sync_run dp to_iso h (st\<lparr>rt_config := cfg\<rparr>) ss"
| refresh: "sync_run dp to_iso h st ss \<Longrightarrow> (\<forall>s\<in>set ss. other_tokens inp (fst s)) \<Longrightarrow> sync_run dp to_iso h st (ss @ [(inp, Refresh_start 0)])"
| progress: "sync_run dp to_iso h st ss \<Longrightarrow> i < length ss \<Longrightarrow> ss ! i = (inp, pc) \<Longrightarrow> server_answers (h (ri_owner inp)) pc answer
     \<Longrightarrow> refresh_step dp to_iso inp answer st pc = (st', pc') \<Longrightarrow> sync_run dp to_iso h st' (ss[i := (inp, pc')])"
| lookup: "sync_run dp to_iso h st ss \<Longrightarrow> lookupBox dp to_iso b sscc st = (st', r) \<Longrightarrow> sync_run dp to_iso h st' ss"

definition sync_inv :: "(credential_owner \<Rightarrow> registry_db list) \<Rightarrow> registry_store \<Rightarrow> (refresh_input \<times> refresh_pc) list \<Rightarrow> bool" where
  "sync_inv h st ss \<longleftrightarrow> (\<forall>w. registry_history (h w)) \<and> store_ok h st \<and> sorted_wrt (\<lambda>a b. other_tokens (fst a) (fst b)) ss
     \<and> (\<forall>(inp, pc)\<in>set ss. session_ok (h (ri_owner inp)) st inp pc)"

lemma sync_inv_quiet:
  assumes "sync_inv h st ss" "quiet st st'"
  shows "sync_inv h st' ss"
proof -
  have "session_ok (h (ri_owner inp)) st' inp pc" if "(inp, pc) \<in> set ss" for inp pc
    using assms that session_ok_keep [of "h (ri_owner inp)" st inp pc st' "h (ri_owner inp)"] by (auto simp: sync_inv_def quiet_def)
  then show ?thesis using assms store_ok_quiet by (auto simp: sync_inv_def)
qed

lemma sync_inv_commit:
  assumes "sync_inv h st ss" "h w = db # older" "registry_commit db db'"
  shows "sync_inv (h(w := db' # db # older)) st ss"
proof -
  define h' where "h' = h(w := db' # db # older)"
  have sub: "set (h x) \<subseteq> set (h' x)" for x using assms(2) by (auto simp: h'_def)
  have "registry_history (db # older)" using assms(1,2) unfolding sync_inv_def by metis
  then have hist: "registry_history (h' x)" for x using assms registry_history.commit by (auto simp: h'_def sync_inv_def)
  have "active_ok h' st" using assms(1) sub unfolding sync_inv_def store_ok_def active_ok_def by blast
  moreover have "session_ok (h' (ri_owner inp)) st inp pc" if "(inp, pc) \<in> set ss" for inp pc
    using assms(1) that session_ok_keep [OF _ _ sub, of "ri_owner inp" st inp pc st] by (auto simp: sync_inv_def keeps_cut_def)
  ultimately show ?thesis using assms(1) hist unfolding h'_def [symmetric] by (auto simp: sync_inv_def store_ok_def)
qed

lemma sorted_wrt_update:
  assumes "sorted_wrt (\<lambda>a b. R (f a) (f b)) xs" "i < length xs" "f x = f (xs ! i)"
  shows "sorted_wrt (\<lambda>a b. R (f a) (f b)) (xs[i := x])"
proof -
  have "map f (xs[i := x]) = map f xs" using assms(2,3) by (metis list_update_id map_update nth_map)
  then show ?thesis using assms(1) sorted_wrt_map [of R f] by metis
qed

lemma other_tokens_sym: "other_tokens a b \<Longrightarrow> other_tokens b a"
  by (auto simp: other_tokens_def)

lemma sync_inv_progress:
  assumes inv: "sync_inv h st ss" and i: "i < length ss" "ss ! i = (inp, pc)" and out: "step_result h inp st (st', pc')"
  shows "sync_inv h st' (ss[i := (inp, pc')])"
proof -
  have "session_ok (h (ri_owner inp')) st' inp' pc''" if mem: "(inp', pc'') \<in> set (ss[i := (inp, pc')])" for inp' pc''
  proof -
    obtain j where j: "j < length ss" "ss[i := (inp, pc')] ! j = (inp', pc'')" using mem by (auto simp: in_set_conv_nth)
    show ?thesis
    proof (cases "j = i")
      case True
      then show ?thesis using out j i(1) by (simp add: step_result_def)
    next
      case False
      then have nth: "ss ! j = (inp', pc'')" using j(2) by simp
      then have "(inp', pc'') \<in> set ss" using j(1) by (metis nth_mem)
      then have old: "session_ok (h (ri_owner inp')) st inp' pc''" using inv by (auto simp: sync_inv_def)
      have "other_tokens (fst (ss ! i)) (fst (ss ! j))"
      proof (cases "i < j")
        case True
        then show ?thesis using inv j(1) sorted_wrt_nth_less [of _ ss i j] unfolding sync_inv_def by blast
      next
        case ji: False
        then have "j < i" using \<open>j \<noteq> i\<close> by simp
        then have "other_tokens (fst (ss ! j)) (fst (ss ! i))" using inv i(1) sorted_wrt_nth_less [of _ ss j i] unfolding sync_inv_def by blast
        then show ?thesis by (rule other_tokens_sym)
      qed
      then have "range (ri_token inp) \<inter> range (ri_token inp') = {}" using i(2) nth by (simp add: other_tokens_def)
      then have apart: "t \<in> range (ri_token inp') \<Longrightarrow> t \<notin> range (ri_token inp)" for t by blast
      have "keeps_cut st st' c" if "cut_of inp' since c" for since c
        using out apart [of "ct_token c"] that unfolding step_result_def cut_of_def by simp
      then show ?thesis using session_ok_keep [OF old] by blast
    qed
  qed
  moreover have "sorted_wrt (\<lambda>a b. other_tokens (fst a) (fst b)) (ss[i := (inp, pc')])"
    using inv i by (intro sorted_wrt_update) (simp_all add: sync_inv_def)
  ultimately show ?thesis using inv out by (auto simp: sync_inv_def step_result_def)
qed

lemma sync_run_inv: "sync_run dp to_iso h st ss \<Longrightarrow> sync_inv h st ss"
proof (induction rule: sync_run.induct)
  case (start d cfg)
  then show ?case by (auto simp: sync_inv_def store_ok_def active_ok_def intro: registry_history.first)
next
  case (commit h st ss w db older db')
  then show ?case by (intro sync_inv_commit)
next
  case (pair h st ss cfg)
  then show ?case using sync_inv_quiet quiet_config by blast
next
  case (refresh h st ss inp)
  then show ?case by (auto simp: sync_inv_def sorted_wrt_append intro: other_tokens_sym)
next
  case (progress h st ss i inp pc answer st' pc')
  have "session_ok (h (ri_owner inp)) st inp pc" using progress.IH progress.hyps(2,3) nth_mem by (fastforce simp: sync_inv_def)
  then have "step_result h inp st (refresh_step dp to_iso inp answer st pc)"
    using progress.IH progress.hyps(4) by (intro refresh_step_ok) (auto simp: sync_inv_def)
  then show ?case using sync_inv_progress [OF progress.IH progress.hyps(2,3)] progress.hyps(5) by simp
next
  case (lookup h st ss b sscc st' r)
  then show ?case using sync_inv_quiet quiet_lookup [of st dp to_iso b sscc] by simp
qed

section \<open>Property\<close>

text \<open>C6: The kiosk's copy of the box registry is exact. However the refreshes interleave, are answered late, refused or cut
  off, whatever the servers commit between or during the pages (each commit stamping the boxes it changes with a new
  revision, as the server's write paths do) and however often the kiosk is paired anew, the active copy
  is, entry by entry, what the server of the recorded credential published at one of its states of the
  recorded revision: nothing is lost, invented, mixed from two revisions or carried over from another
  pairing. So a row the scan screen looks up is the box that server published under that number.\<close>

theorem registry_replicated:
  assumes "sync_run dp to_iso h st ss"
  shows "(\<forall>m. rt_activeMeta st = Some m \<longrightarrow>
      (\<exists>d\<in>set (h (mt_owner m)). currentVersion d = mt_version m \<and> (\<forall>s. cached (rt_active st) s = published d s)))
    \<and> (\<forall>b sscc st' r. lookupBox dp to_iso b sscc st = (st', Some r) \<longrightarrow>
      (\<exists>w. currentCredentialOwner (rt_config st) = Some w \<and> (\<exists>d\<in>set (h w). published d sscc = Some (upsert_of_row r))))"
proof -
  have a: "\<forall>m. rt_activeMeta st = Some m \<longrightarrow>
      (\<exists>d\<in>set (h (mt_owner m)). currentVersion d = mt_version m \<and> (\<forall>s. cached (rt_active st) s = published d s))"
    using sync_run_inv [OF assms] by (simp add: sync_inv_def store_ok_def active_ok_def)
  have "\<exists>w. currentCredentialOwner (rt_config st) = Some w \<and> (\<exists>d\<in>set (h w). published d sscc = Some (upsert_of_row r))"
    if l: "lookupBox dp to_iso b sscc st = (st', Some r)" for b sscc st' r
  proof -
    obtain w m where m: "currentCredentialOwner (rt_config st) = Some w" "rt_activeMeta st = Some m" "mt_owner m = w"
        "List.find (\<lambda>r. rr_sscc r = sscc) (rt_active st) = Some r"
      using l by (auto simp: lookupBox_def split: option.splits if_splits)
    then obtain d where "d \<in> set (h w)" "cached (rt_active st) sscc = published d sscc" using a by blast
    then show ?thesis using m by (auto simp: cached_def)
  qed
  then show ?thesis using a by blast
qed

text \<open>A kiosk that refreshes once from the registry with one box.\<close>

definition sample_config :: kiosk_config where
  "sample_config = \<lparr>kc_serverUrl = [104], kc_kioskId = Some [107], kc_credentialGeneration = Some sample_uuid, kc_hasToken = True, kc_nextDeviceSeq = 0\<rparr>"

definition sample_owner :: credential_owner where
  "sample_owner = \<lparr>cw_serverUrl = [104], cw_kioskId = [107], cw_credentialGeneration = sample_uuid\<rparr>"

definition sample_input :: refresh_input where
  "sample_input = \<lparr>ri_owner = sample_owner, ri_generatedAt = [50], ri_maxPages = BOX_REGISTRY_MAX_PAGES, ri_token = (\<lambda>n. [n + 1])\<rparr>"

definition sample_registry_store :: registry_store where
  "sample_registry_store = \<lparr>rt_config = Some sample_config, rt_active = [], rt_staging = [], rt_activeMeta = None, rt_stagingMeta = None\<rparr>"

definition sample_date :: "jstring \<Rightarrow> int option" where
  "sample_date s = Some 0"

definition sample_page :: registry_page where
  "sample_page = \<lparr>pg_until = 1, pg_items = [Upsert sample_upsert], pg_nextCursor = None\<rparr>"

definition sample_cut :: registry_cut where
  "sample_cut = \<lparr>ct_owner = sample_owner, ct_token = [1], ct_since = None, ct_until = 1\<rparr>"

definition sample_kiosk_upsert :: kiosk_upsert where
  "sample_kiosk_upsert = \<lparr>ku_boxId = sample_uuid, ku_sscc = box_sample_sscc, ku_productId = sample_uuid, ku_bottleCount = 1, ku_contentKeys = [sample_key],
     ku_updatedAt = 3\<rparr>"

lemma sample_uuid_ok: "matches uuid_classes sample_uuid" "to_lower sample_uuid = sample_uuid"
  by (simp_all add: sample_uuid_def to_lower_def matches_def uuid_classes_def lit_def is_hex_def is_digit_def is_hyphen_def numeral_eq_Suc)

lemma sample_own: "currentCredentialOwner (Some sample_config) = Some sample_owner"
proof -
  have "js_trim [104] = [104]" "js_trim [107] = [107]" "strip_slashes [104] = [104]"
    by (simp_all add: js_trim_def strip_def js_ws_def strip_slashes_def)
  then show ?thesis
    by (simp add: currentCredentialOwner_def sample_config_def boxRegistryCredentialOwnerOf_def boxRegistryBindingOf_def credentialGenerationOf_def
      sample_uuid_ok sample_owner_def Let_def)
qed

lemma sample_list: "list_registry sample_registry sample_registry sample_registry sample_registry sample_registry (refresh_query None None None) = Inr sample_page"
proof -
  define w where "w = \<lparr>rw_since = None, rw_until = 1, rw_after = None, rw_limit = BOX_REGISTRY_PAGE_LIMIT\<rparr>"
  have v: "currentVersion sample_registry = 1" by (simp add: currentVersion_def sample_registry_def)
  have w: "resolveBoxRegistryWindow (refresh_query None None None) 1 = Inr w" by (simp add: resolveBoxRegistryWindow_def refresh_query_def w_def)
  have "in_window w box_sample_row" by (simp add: in_window_def w_def box_sample_row_def)
  then have rows: "window_rows sample_registry w = [box_sample_row]" unfolding window_rows_def sample_rows by simp
  have "shapeBoxRegistryPage [box_sample_row] (box_facts sample_registry) w False = sample_page"
    by (simp add: shapeBoxRegistryPage_def sample_evaluate map_filter_Cons map_filter_Nil sample_page_def w_def)
  then show ?thesis unfolding list_registry_def v w using rows v
    by (simp add: assertBoxRegistrySnapshotCurrent_def selectBoxRegistryCandidatePrefix_def box_facts_def Let_def w_def BOX_REGISTRY_PAGE_LIMIT_def)
qed

lemma sample_checked: "checkedChange (KUpsert sample_kiosk_upsert)" "checkedChanges (\<lambda>_. []) [KUpsert sample_kiosk_upsert]"
proof -
  have v: "isValidSscc box_sample_sscc" unfolding box_sample_sscc_def by code_simp
  have k: "sample_key \<noteq> []" by (simp add: sample_key_def kmKey_def lit_def)
  show c: "checkedChange (KUpsert sample_kiosk_upsert)" using v k by (simp add: sample_kiosk_upsert_def is_uuid_def sample_uuid_ok)
  have "preflightPage (\<lambda>_. []) [KUpsert sample_kiosk_upsert]"
    by (simp add: preflightPage_def sample_kiosk_upsert_def sample_uuid_def box_sample_sscc_def sample_key_def kmKey_def sample_segs_def lit_def utf8_def utf8_point_def
        MAX_PAGE_ITEMS_def MAX_STRING_BYTES_def MAX_PAGE_BYTES_def MAX_CONTENT_KEYS_def high_surrogate_def low_surrogate_def)
  then show "checkedChanges (\<lambda>_. []) [KUpsert sample_kiosk_upsert]" using c by (simp add: checkedChanges_def)
qed

definition sample_synced :: registry_store where
  "sample_synced = sample_registry_store\<lparr>rt_active := [row_of 1 sample_kiosk_upsert],
     rt_activeMeta := Some \<lparr>mt_owner = sample_owner, mt_version = 1, mt_generatedAt = [50]\<rparr>\<rparr>"

lemma sample_refresh_start: "refresh_step sample_date (\<lambda>_. []) sample_input a sample_registry_store (Refresh_start 0) = (sample_registry_store, Refresh_page 0 None None None [] 0)"
  using sample_own by (simp add: readBoxRegistryMeta_def sample_registry_store_def)

lemma sample_receive:
  "refresh_step sample_date (\<lambda>_. []) sample_input (Some (Inr sample_page)) sample_registry_store (Refresh_page 0 None None None [] 0)
     = (sample_registry_store\<lparr>rt_stagingMeta := Some sample_cut\<rparr>, Refresh_store 0 None sample_cut [] 1 sample_page)"
proof -
  have c: "\<lparr>ct_owner = ri_owner sample_input, ct_token = ri_token sample_input 0, ct_since = None, ct_until = pg_until sample_page\<rparr> = sample_cut"
    by (simp add: sample_cut_def sample_input_def sample_page_def)
  have "checkedCut sample_cut" by (simp add: checkedCut_def sample_cut_def MAX_REVISION_def)
  then have "beginBoxRegistryStage sample_cut sample_registry_store = Inr (sample_registry_store\<lparr>rt_stagingMeta := Some sample_cut\<rparr>)"
    using sample_own by (simp add: beginBoxRegistryStage_def sample_registry_store_def sample_cut_def)
  moreover have "\<not> ri_maxPages sample_input < Suc 0" "\<not> MAX_REVISION < pg_until sample_page"
    by (simp_all add: sample_input_def sample_page_def BOX_REGISTRY_MAX_PAGES_def MAX_REVISION_def)
  ultimately show ?thesis using c by (simp add: Let_def)
qed

lemma sample_activate:
  "refresh_step sample_date (\<lambda>_. []) sample_input a (sample_registry_store\<lparr>rt_stagingMeta := Some sample_cut\<rparr>) (Refresh_store 0 None sample_cut [] 1 sample_page)
     = (sample_synced, Refresh_done)"
proof -
  have items: "map toKioskChange (pg_items sample_page) = [KUpsert sample_kiosk_upsert]"
    by (simp add: sample_page_def sample_upsert_def sample_kiosk_upsert_def)
  have "checkedCut sample_cut" by (simp add: checkedCut_def sample_cut_def MAX_REVISION_def)
  then have "activateBoxRegistryPage sample_date (\<lambda>_. []) sample_cut [KUpsert sample_kiosk_upsert] [50] (sample_registry_store\<lparr>rt_stagingMeta := Some sample_cut\<rparr>)
      = Inr sample_synced"
    using sample_own sample_checked(2)
    by (simp add: activateBoxRegistryPage_def Let_def sample_date_def sample_synced_def sample_registry_store_def sample_cut_def)
  then show ?thesis using items by (simp add: page_step_def Let_def sample_page_def sample_input_def)
qed

lemma sample_sync_run: "sync_run sample_date (\<lambda>_. []) (\<lambda>_. [sample_registry]) sample_synced [(sample_input, Refresh_done)]"
proof -
  let ?run = "sync_run sample_date (\<lambda>_. []) (\<lambda>_. [sample_registry])"
  have rows: "registry_rows sample_registry = [box_sample_row]" using sample_rows by (simp add: registry_rows_def)
  have "registry_keys sample_registry" by (simp add: registry_keys_def sample_registry_def)
  moreover have "versions_ok sample_registry"
    by (simp add: versions_ok_def registry_view_def rows box_sample_row_def) (simp add: currentVersion_def sample_registry_def)
  ultimately have "?run sample_registry_store []" unfolding sample_registry_store_def by (intro sync_run.start) simp
  then have "?run sample_registry_store [(sample_input, Refresh_start 0)]" using sync_run.refresh by fastforce
  then have "?run sample_registry_store [(sample_input, Refresh_page 0 None None None [] 0)]"
    using sync_run.progress [of sample_date "\<lambda>_. []" _ sample_registry_store "[(sample_input, Refresh_start 0)]" 0, OF _ _ _ _ sample_refresh_start]
    by (simp add: server_answers_def)
  moreover have "server_answers [sample_registry] (Refresh_page 0 None None None [] 0) (Some (Inr sample_page))"
    unfolding server_answers_def using sample_list by auto
  ultimately have "?run (sample_registry_store\<lparr>rt_stagingMeta := Some sample_cut\<rparr>) [(sample_input, Refresh_store 0 None sample_cut [] 1 sample_page)]"
    using sync_run.progress [of sample_date "\<lambda>_. []" _ sample_registry_store "[(sample_input, Refresh_page 0 None None None [] 0)]" 0, OF _ _ _ _ sample_receive]
    by simp
  then show ?thesis
    using sync_run.progress [of sample_date "\<lambda>_. []" _ _ "[(sample_input, Refresh_store 0 None sample_cut [] 1 sample_page)]" 0, OF _ _ _ _ sample_activate]
    by (simp add: server_answers_def)
qed

theorem registry_replicated_witness: "published sample_registry box_sample_sscc = Some sample_kiosk_upsert"
proof -
  have r: "upsert_of_row (row_of 1 sample_kiosk_upsert) = sample_kiosk_upsert" "rr_sscc (row_of 1 sample_kiosk_upsert) = box_sample_sscc"
    by (simp_all add: upsert_of_row_def row_of_def sample_kiosk_upsert_def)
  have v: "isValidSscc box_sample_sscc" unfolding box_sample_sscc_def by code_simp
  have "lookupBox sample_date (\<lambda>_. []) sample_owner box_sample_sscc sample_synced = (sample_synced, Some (row_of 1 sample_kiosk_upsert))"
    using sample_own sample_checked v r
    by (simp add: lookupBox_def sample_synced_def sample_registry_store_def checkedMeta_def sample_date_def MAX_REVISION_def change_of_row_def checkedChanges_def)
  then show ?thesis using registry_replicated [OF sample_sync_run] r(1) by auto
qed

section \<open>A refresh ends\<close>

definition attempt_steps :: "refresh_input \<Rightarrow> nat" where
  "attempt_steps inp = 2 * ri_maxPages inp + 4"

fun refresh_rank :: "refresh_input \<Rightarrow> refresh_pc \<Rightarrow> nat" where
  "refresh_rank inp (Refresh_start n) = (3 - n) * attempt_steps inp"
| "refresh_rank inp (Refresh_page n since stage cursor seen pages) = (2 - n) * attempt_steps inp + 2 * (ri_maxPages inp + 1 - pages) + 1"
| "refresh_rank inp (Refresh_store n since c seen pages page) = (2 - n) * attempt_steps inp + 2 * (ri_maxPages inp + 1 - pages) + 2"
| "refresh_rank inp _ = 0"

fun restart_ok :: "refresh_input \<Rightarrow> refresh_pc \<Rightarrow> bool" where
  "restart_ok inp (Refresh_start n) = (n < BOX_REGISTRY_RESTARTS)"
| "restart_ok inp (Refresh_page n since stage cursor seen pages) = (n < BOX_REGISTRY_RESTARTS)"
| "restart_ok inp (Refresh_store n since c seen pages page) = (n < BOX_REGISTRY_RESTARTS)"
| "restart_ok inp _ = True"

lemma error_rank:
  "restart_ok inp (snd (after_error n stage changed st)) \<and> refresh_rank inp (snd (after_error n stage changed st)) \<le> (2 - n) * attempt_steps inp"
  by (simp add: after_error_def BOX_REGISTRY_RESTARTS_def numeral_eq_Suc)

lemma refresh_step_rank:
  assumes "restart_ok inp pc" "0 < refresh_rank inp pc"
  shows "restart_ok inp (snd (refresh_step dp to_iso inp answer st pc))
    \<and> refresh_rank inp (snd (refresh_step dp to_iso inp answer st pc)) < refresh_rank inp pc"
proof (cases pc)
  case (Refresh_start n)
  have "3 - n = Suc (2 - n)" using assms(1) Refresh_start by (simp add: BOX_REGISTRY_RESTARTS_def)
  then have "(3 - n) * attempt_steps inp = (2 - n) * attempt_steps inp + attempt_steps inp" by simp
  then show ?thesis using assms(1) Refresh_start by (simp add: attempt_steps_def split: prod.split)
next
  case (Refresh_page n since stage cursor seen pages)
  have e: "restart_ok inp (snd (after_error n stage' changed st)) \<and> refresh_rank inp (snd (after_error n stage' changed st)) < refresh_rank inp pc"
    for stage' changed
    using error_rank [of inp n stage' changed st] Refresh_page by simp
  have s: "restart_ok inp (Refresh_store n since c seen (Suc pages) page) \<and> refresh_rank inp (Refresh_store n since c seen (Suc pages) page) < refresh_rank inp pc"
    if "\<not> ri_maxPages inp < pages + 1" for c page
    using assms(1) Refresh_page that by (simp add: Suc_diff_le)
  show ?thesis using e s unfolding Refresh_page by (auto simp: Let_def split: option.split sum.split)
next
  case (Refresh_store n since c seen pages page)
  have e: "restart_ok inp (snd (after_error n stage' changed st)) \<and> refresh_rank inp (snd (after_error n stage' changed st)) < refresh_rank inp pc"
    for stage' changed
    using error_rank [of inp n stage' changed st] Refresh_store by simp
  show ?thesis using e assms(1) unfolding Refresh_store by (auto simp: page_step_def Let_def split: option.split sum.split)
qed (use assms in simp_all)

text \<open>C34: A refresh ends. Whatever the server answers and whatever happens to the stores between its steps, after at most
  three attempts of at most the allowed pages each the refresh has activated a copy or given up: neither a
  cursor that never ends nor a registry that changes all the time can hold it.\<close>

theorem refresh_ends:
  assumes "pcs 0 = Refresh_start 0" "\<forall>k. pcs (Suc k) = snd (refresh_step dp to_iso inp (answers k) (stores k) (pcs k))"
  shows "\<exists>k\<le>3 * (2 * ri_maxPages inp + 4). pcs k \<in> {Refresh_done, Refresh_failed}"
proof (rule ccontr)
  assume never: "\<not> (\<exists>k\<le>3 * (2 * ri_maxPages inp + 4). pcs k \<in> {Refresh_done, Refresh_failed})"
  have run: "restart_ok inp (pcs k) \<and> refresh_rank inp (pcs k) + k \<le> 3 * (2 * ri_maxPages inp + 4)" if "k \<le> 3 * (2 * ri_maxPages inp + 4)" for k
    using that
  proof (induction k)
    case (Suc k)
    have "pcs k \<noteq> Refresh_done" "pcs k \<noteq> Refresh_failed" using never Suc.prems by auto
    then have "0 < refresh_rank inp (pcs k)" using Suc by (cases "pcs k") (auto simp: attempt_steps_def BOX_REGISTRY_RESTARTS_def)
    then show ?case using refresh_step_rank [of inp "pcs k" dp to_iso "answers k" "stores k"] Suc assms(2) by fastforce
  qed (simp add: assms(1) attempt_steps_def BOX_REGISTRY_RESTARTS_def)
  let ?k = "3 * (2 * ri_maxPages inp + 4)"
  have "refresh_rank inp (pcs ?k) = 0" "restart_ok inp (pcs ?k)" using run [of ?k] by simp_all
  then have "pcs ?k \<in> {Refresh_done, Refresh_failed}" by (cases "pcs ?k") (auto simp: attempt_steps_def BOX_REGISTRY_RESTARTS_def)
  then show False using never by blast
qed

theorem refresh_ends_witness:
  "\<exists>k\<le>3 * (2 * ri_maxPages sample_input + 4).
     ((\<lambda>pc. snd (refresh_step sample_date (\<lambda>_. []) sample_input None sample_registry_store pc)) ^^ k) (Refresh_start 0) \<in> {Refresh_done, Refresh_failed}"
  by (rule refresh_ends [where stores = "\<lambda>_. sample_registry_store" and answers = "\<lambda>_. None" and dp = sample_date and to_iso = "\<lambda>_. []"]) simp_all

end
