(* ===== verification/Pickup_Rules.thy ===== *)
theory Pickup_Rules
  imports Box_Registry "HOL-Library.Multiset" "HOL-Library.Sublist"
begin

text \<open>
  The rules the server judges a kiosk's order by: the canonical lines of a body (\<open>kiosk-admission-proof.ts\<close>), the
  boxes and the allowance (\<open>box-order-resolver.ts\<close>), the loose lines, the stored conflicts and the time of an
  order (\<open>pickup-orders.service.ts\<close>, all in \<open>apps/api/src/modules/pickup-orders\<close>), the order number and the total
  price (\<open>apps/api/src/pickup\<close>).

  A body is the object the schema of \<open>dto.ts\<close> has accepted. Reasons are the texts the wire carries.
\<close>

section \<open>Model\<close>

subsection \<open>The body\<close>

datatype presented_badge = Badge_digest jstring | Badge_code jstring

record order_dto =
  od_deviceSeq :: int
  od_badge :: presented_badge
  od_reason :: pickup_reason
  od_writeoffReasonId :: "jstring option"
  od_items :: "jstring list"
  od_boxes :: "jstring list option"
  od_createdAt :: "jstring option"
  od_admissionProof :: "jstring option"
  od_admissionNonce :: "jstring option"

definition MAX_KIOSK_ORDER_ITEMS :: nat where "MAX_KIOSK_ORDER_ITEMS = 500"

definition MAX_KIOSK_ORDER_BOXES :: nat where "MAX_KIOSK_ORDER_BOXES = 100"

definition MAX_KIOSK_RAW_SCAN_BYTES :: nat where "MAX_KIOSK_RAW_SCAN_BYTES = 1024"

definition MAX_KIOSK_DEVICE_SEQ :: int where "MAX_KIOSK_DEVICE_SEQ = 2147483647"

text \<open>The schema of the lines and the sequence number; the format of the badge and of the identifiers is left out.\<close>

definition createOrderSchema :: "order_dto \<Rightarrow> bool" where
  "createOrderSchema dto \<longleftrightarrow> 0 \<le> od_deviceSeq dto \<and> od_deviceSeq dto \<le> MAX_KIOSK_DEVICE_SEQ
     \<and> length (od_items dto) \<le> MAX_KIOSK_ORDER_ITEMS
     \<and> list_all (\<lambda>raw. raw \<noteq> [] \<and> length raw \<le> MAX_KIOSK_RAW_SCAN_BYTES \<and> length (utf8 raw) \<le> MAX_KIOSK_RAW_SCAN_BYTES) (od_items dto)
     \<and> (case od_boxes dto of None \<Rightarrow> True | Some bs \<Rightarrow> length bs \<le> MAX_KIOSK_ORDER_BOXES \<and> list_all isValidSscc bs \<and> distinct bs)
     \<and> od_items dto @ (case od_boxes dto of None \<Rightarrow> [] | Some bs \<Rightarrow> bs) \<noteq> []"

definition kioskOrderProcessingLines :: "order_dto \<Rightarrow> jstring list \<times> jstring list \<times> bool" where
  "kioskOrderProcessingLines dto = (case od_boxes dto of None \<Rightarrow> (od_items dto, [], False) | Some bs \<Rightarrow> (sort (od_items dto), sort bs, True))"

record order_content =
  oc_deviceSeq :: int
  oc_badgeDigest :: "jstring option"
  oc_badgeCode :: "jstring option"
  oc_reason :: pickup_reason
  oc_writeoffReasonId :: "jstring option"
  oc_items :: "jstring list"
  oc_boxes :: "jstring list option"

definition canonicalKioskOrderContent :: "order_dto \<Rightarrow> order_content" where
  "canonicalKioskOrderContent dto = (case kioskOrderProcessingLines dto of (items, boxes, vNext) \<Rightarrow>
     \<lparr>oc_deviceSeq = od_deviceSeq dto, oc_badgeDigest = (case od_badge dto of Badge_digest d \<Rightarrow> Some d | _ \<Rightarrow> None),
      oc_badgeCode = (case od_badge dto of Badge_code c \<Rightarrow> Some c | _ \<Rightarrow> None), oc_reason = od_reason dto,
      oc_writeoffReasonId = od_writeoffReasonId dto, oc_items = items, oc_boxes = (if vNext then Some boxes else None)\<rparr>)"

definition MAX_OUTSTANDING_KIOSK_ADMISSIONS :: nat where "MAX_OUTSTANDING_KIOSK_ADMISSIONS = 128"

definition admissionSequenceWithinWindow :: "nat \<Rightarrow> bool" where
  "admissionSequenceWithinWindow outstandingCount \<longleftrightarrow> outstandingCount < MAX_OUTSTANDING_KIOSK_ADMISSIONS"

subsection \<open>Stored conflicts\<close>

datatype stored_conflict =
    Stored_loose jstring jstring
  | Stored_box box_verdict
  | Stored_request jstring

definition kioskOrderRequestMarker :: "jstring list option \<Rightarrow> jstring \<Rightarrow> stored_conflict list" where
  "kioskOrderRequestMarker boxes terminalReason = (case boxes of None \<Rightarrow> [] | Some _ \<Rightarrow> [Stored_request terminalReason])"

definition isOrderConflictReason :: "jstring \<Rightarrow> bool" where
  "isOrderConflictReason reason \<longleftrightarrow> reason \<in> lit ` set [''not_km'', ''incomplete'', ''unknown_product'', ''not_allowed'', ''duplicate'', ''over_limit'']"

definition isBoxConflictReason :: "jstring \<Rightarrow> bool" where
  "isBoxConflictReason reason \<longleftrightarrow> reason \<in> lit ` set [''unknown_box'', ''box_not_closed'', ''box_disassembled'', ''box_contents_changed'',
     ''mixed_product_box'', ''duplicate'', ''over_limit'']"

definition isKioskRejectionTerminalReason :: "jstring \<Rightarrow> bool" where
  "isKioskRejectionTerminalReason reason \<longleftrightarrow> reason \<in> lit ` set [''order_rejected'', ''unknown_badge'', ''writeoff_forbidden'',
     ''writeoff_reason_required'', ''unknown_reason'']"

definition legacyBoxTerminalReason :: "jstring option \<Rightarrow> jstring option" where
  "legacyBoxTerminalReason reason = (case reason of
     None \<Rightarrow> None
   | Some r \<Rightarrow> if r = [] then None
       else if isKioskRejectionTerminalReason r \<and> r \<noteq> lit ''order_rejected'' then Some r
       else if isBoxConflictReason r then Some (lit ''order_rejected'') else None)"

fun splitStoredConflicts :: "stored_conflict list \<Rightarrow> (jstring \<times> jstring) list \<times> box_verdict list" where
  "splitStoredConflicts [] = ([], [])"
| "splitStoredConflicts (c # cs) = (case splitStoredConflicts cs of (conflicts, boxConflicts) \<Rightarrow>
     (case c of
        Stored_box v \<Rightarrow> (conflicts, if isBoxConflictReason (bv_reason v) then v # boxConflicts else boxConflicts)
      | Stored_request _ \<Rightarrow> (conflicts, boxConflicts)
      | Stored_loose rawKm reason \<Rightarrow> (if isOrderConflictReason reason then (rawKm, reason) # conflicts else conflicts, boxConflicts)))"

definition joinStoredConflicts :: "(jstring \<times> jstring) list \<Rightarrow> box_verdict list \<Rightarrow> stored_conflict list" where
  "joinStoredConflicts conflicts boxConflicts = map (\<lambda>(rawKm, reason). Stored_loose rawKm reason) conflicts @ map Stored_box boxConflicts"

definition box_refusal :: "jstring \<Rightarrow> nat option \<Rightarrow> jstring \<Rightarrow> box_verdict" where
  "box_refusal sscc n reason = \<lparr>bv_sscc = sscc, bv_bottleCount = map_option (\<lambda>n. JInt (int n)) n, bv_reason = reason\<rparr>"

definition auditSubmittedLines :: "order_dto \<Rightarrow> jstring \<Rightarrow> stored_conflict list" where
  "auditSubmittedLines dto reason = (case kioskOrderProcessingLines dto of (items, boxes, _) \<Rightarrow>
     map (\<lambda>rawKm. Stored_loose rawKm reason) items @ map (\<lambda>sscc. Stored_box (box_refusal sscc None reason)) boxes
     @ (if isKioskRejectionTerminalReason reason then kioskOrderRequestMarker (od_boxes dto) reason else []))"

subsection \<open>Refusals\<close>

definition refusal :: "nat \<Rightarrow> jstring option \<Rightarrow> jstring \<Rightarrow> api_error" where
  "refusal status code msg = \<lparr>ae_status = status, ae_code = code, ae_message = msg, ae_conflicts = None, ae_boxConflicts = None\<rparr>"

definition unknown_badge :: api_error where
  "unknown_badge = refusal 422 None (lit ''Unknown or inactive badge'')"

definition writeoff_forbidden :: api_error where
  "writeoff_forbidden = refusal 422 (Some (lit ''writeoff_forbidden'')) (lit ''Employee is not allowed to create writeoffs'')"

definition writeoff_reason_required :: api_error where
  "writeoff_reason_required = refusal 400 None (lit ''writeoffReasonId is required when reason is writeoff'')"

definition unknown_reason :: api_error where
  "unknown_reason = refusal 400 None (lit ''Unknown or archived writeoff reason'')"

definition subscription_read_only :: api_error where
  "subscription_read_only = refusal 403 (Some (lit ''subscription_read_only'')) []"

definition box_request_too_large :: api_error where
  "box_request_too_large = refusal 413 (Some (lit ''box_request_too_large'')) []"

definition retry_exhausted :: api_error where
  "retry_exhausted = refusal 409 (Some (lit ''pickup_order_retry_exhausted'')) []"

definition internal_error :: "string \<Rightarrow> api_error" where
  "internal_error msg = refusal 500 None (lit msg)"

definition orderRejectedResponse :: "(jstring \<times> jstring) list \<Rightarrow> box_verdict list \<Rightarrow> api_error" where
  "orderRejectedResponse conflicts boxConflicts =
     \<lparr>ae_status = 422, ae_code = Some (lit ''order_rejected''), ae_message = lit ''No submitted order lines were accepted'',
      ae_conflicts = Some conflicts, ae_boxConflicts = Some boxConflicts\<rparr>"

subsection \<open>Loose lines\<close>

record resolved_item =
  li_rawKm :: jstring
  li_productId :: jstring
  li_gtin14 :: jstring
  li_serial :: jstring
  li_kmKey :: jstring
  li_unitPrice :: "jstring option"

fun resolve_lines ::
    "(jstring \<rightharpoonup> jstring \<times> jstring option) \<Rightarrow> (jstring \<Rightarrow> bool) \<Rightarrow> jstring set \<Rightarrow> jstring list \<Rightarrow> (jstring \<times> jstring) list \<times> resolved_item list" where
  "resolve_lines allowlist existing seenKeys [] = ([], [])"
| "resolve_lines allowlist existing seenKeys (rawKm # items) =
     (let refuse = (\<lambda>reason. case resolve_lines allowlist existing seenKeys items of (cs, rs) \<Rightarrow> ((rawKm, reason) # cs, rs))
      in case validatePickupKm rawKm None of
           PickupNotKm _ \<Rightarrow> refuse (lit ''not_km'')
         | PickupIncomplete _ \<Rightarrow> refuse (lit ''incomplete'')
         | PickupOk km key \<Rightarrow>
             (case allowlist (km_gtin14 km) of
                None \<Rightarrow> refuse (if existing (km_gtin14 km) then lit ''not_allowed'' else lit ''unknown_product'')
              | Some (productId, unitPrice) \<Rightarrow>
                  if key \<in> seenKeys then refuse (lit ''duplicate'')
                  else (case resolve_lines allowlist existing (insert key seenKeys) items of (cs, rs) \<Rightarrow>
                     (cs, \<lparr>li_rawKm = rawKm, li_productId = productId, li_gtin14 = km_gtin14 km, li_serial = km_serial km,
                           li_kmKey = key, li_unitPrice = unitPrice\<rparr> # rs))))"

subsection \<open>Boxes\<close>

record order_member =
  om_rawKm :: jstring
  om_kmKey :: jstring
  om_gtin14 :: jstring
  om_serial :: jstring

record resolved_box =
  ox_boxId :: jstring
  ox_sscc :: jstring
  ox_productId :: jstring
  ox_bottleCount :: nat
  ox_unitPrice :: "jstring option"
  ox_members :: "order_member list"

definition order_candidates :: "registry_db \<Rightarrow> jstring list \<Rightarrow> (registry_candidate \<times> jstring option) list" where
  "order_candidates db ssccs = sort_key (rc_id \<circ> fst)
     [(candidate_row b s p None, rp_unitPrice p).
        b \<leftarrow> filter (\<lambda>b. br_sscc b \<in> Some ` set ssccs) (rg_boxes db),
        s \<leftarrow> filter (\<lambda>s. rs_id s = br_shiftId b) (rg_shifts db),
        p \<leftarrow> filter (\<lambda>p. rp_id p = rs_productId s) (rg_products db)]"

definition is_active :: "member_fact \<Rightarrow> bool" where
  "is_active f \<longleftrightarrow> mf_removedAt f = None \<and> mf_displacedAt f = None"

definition ineligibleReason :: "registry_candidate \<Rightarrow> member_fact list \<Rightarrow> jstring" where
  "ineligibleReason c facts =
     (if rc_closedAt c = None \<or> rc_closureReceivedAt c = None then lit ''box_not_closed''
      else if rc_disassembledAt c \<noteq> None then lit ''box_disassembled''
      else let gtins = remdups (filter (\<lambda>g. g \<noteq> []) (List.map_filter mf_canonicalGtin14 (filter is_active facts)))
           in if 1 < length gtins \<or> length gtins = 1 \<and> rc_productGtin14 c \<notin> set gtins then lit ''mixed_product_box''
              else lit ''box_contents_changed'')"

definition member_of :: "member_fact \<Rightarrow> order_member option" where
  "member_of f = Option.bind (mf_canonicalRaw f) (\<lambda>raw. case canonicalizeKm raw of
     Inl _ \<Rightarrow> None
   | Inr parsed \<Rightarrow> Some \<lparr>om_rawKm = raw, om_kmKey = kmKey parsed, om_gtin14 = km_gtin14 parsed, om_serial = km_serial parsed\<rparr>)"

definition resolve_box :: "registry_db \<Rightarrow> (registry_candidate \<times> jstring option) list \<Rightarrow> jstring \<Rightarrow> api_error + resolved_box + box_verdict" where
  "resolve_box db candidates sscc =
     (case map_of (rev (map (\<lambda>c. (rc_sscc (fst c), c)) candidates)) (Some sscc) of
        None \<Rightarrow> Inr (Inr (box_refusal sscc None (lit ''unknown_box'')))
      | Some (c, unitPrice) \<Rightarrow>
          let facts = box_facts db (rc_id c); cnt = membership_count db (rc_id c)
          in case evaluateBoxRegistryCandidate c facts False of
               Some (Upsert _) \<Rightarrow>
                 (case those (map member_of (filter is_active facts)) of
                    None \<Rightarrow> Inl (internal_error ''Internal server error'')
                  | Some members \<Rightarrow> Inr (Inl \<lparr>ox_boxId = rc_id c, ox_sscc = sscc, ox_productId = rc_productId c,
                      ox_bottleCount = length members, ox_unitPrice = unitPrice, ox_members = members\<rparr>))
             | _ \<Rightarrow> Inr (Inr (box_refusal sscc (if 0 < cnt \<and> cnt \<le> MAX_BOX_REGISTRY_MEMBERS then Some cnt else None)
                      (ineligibleReason c facts))))"

fun resolve_boxes :: "registry_db \<Rightarrow> (registry_candidate \<times> jstring option) list \<Rightarrow> jstring list \<Rightarrow> api_error + (resolved_box list \<times> box_verdict list)" where
  "resolve_boxes db candidates [] = Inr ([], [])"
| "resolve_boxes db candidates (sscc # inputs) =
     (case resolve_box db candidates sscc of
        Inl e \<Rightarrow> Inl e
      | Inr r \<Rightarrow> (case resolve_boxes db candidates inputs of
          Inl e \<Rightarrow> Inl e
        | Inr (boxes, conflicts) \<Rightarrow> (case r of Inl box \<Rightarrow> Inr (box # boxes, conflicts) | Inr v \<Rightarrow> Inr (boxes, v # conflicts))))"

definition assertOrderBoxMemberBudget :: "nat \<Rightarrow> api_error + unit" where
  "assertOrderBoxMemberBudget memberCount = (if MAX_REGISTRY_PAGE_MEMBER_KEYS < memberCount then Inl box_request_too_large else Inr ())"

definition resolveOrderBoxes :: "registry_db \<Rightarrow> jstring list \<Rightarrow> api_error + (resolved_box list \<times> box_verdict list)" where
  "resolveOrderBoxes db inputs =
     (if inputs = [] then Inr ([], [])
      else let candidates = order_candidates db inputs
           in case assertOrderBoxMemberBudget (sum_list (map (membership_count db) (remdups (map (rc_id \<circ> fst) candidates)))) of
                Inl e \<Rightarrow> Inl e
              | Inr _ \<Rightarrow> resolve_boxes db candidates inputs)"

definition member_keys_of :: "resolved_box \<Rightarrow> jstring set" where
  "member_keys_of box = om_kmKey ` set (ox_members box)"

fun classifyResolvedBoxConflicts :: "jstring set \<Rightarrow> resolved_box list \<Rightarrow> resolved_box list \<times> box_verdict list" where
  "classifyResolvedBoxConflicts claimed [] = ([], [])"
| "classifyResolvedBoxConflicts claimed (box # boxes) =
     (if list_ex (\<lambda>m. om_kmKey m \<in> claimed) (ox_members box)
      then (case classifyResolvedBoxConflicts claimed boxes of (accepted, conflicts) \<Rightarrow>
        (accepted, box_refusal (ox_sscc box) (Some (ox_bottleCount box)) (lit ''duplicate'') # conflicts))
      else (case classifyResolvedBoxConflicts (claimed \<union> member_keys_of box) boxes of (accepted, conflicts) \<Rightarrow> (box # accepted, conflicts)))"

fun limit_loose :: "nat \<Rightarrow> bool \<Rightarrow> nat \<Rightarrow> resolved_item list \<Rightarrow> resolved_item list \<times> (jstring \<times> jstring) list" where
  "limit_loose dayLimit limited cnt [] = ([], [])"
| "limit_loose dayLimit limited cnt (item # items) =
     (if \<not> limited \<or> cnt < dayLimit
      then (case limit_loose dayLimit limited (cnt + 1) items of (accepted, conflicts) \<Rightarrow> (item # accepted, conflicts))
      else (case limit_loose dayLimit limited cnt items of (accepted, conflicts) \<Rightarrow>
        (accepted, (li_rawKm item, lit ''over_limit'') # conflicts)))"

fun limit_boxes :: "nat \<Rightarrow> bool \<Rightarrow> nat \<Rightarrow> resolved_box list \<Rightarrow> resolved_box list \<times> box_verdict list" where
  "limit_boxes dayLimit limited cnt [] = ([], [])"
| "limit_boxes dayLimit limited cnt (box # boxes) =
     (if \<not> limited \<or> cnt + ox_bottleCount box \<le> dayLimit
      then (case limit_boxes dayLimit limited (cnt + ox_bottleCount box) boxes of (accepted, conflicts) \<Rightarrow> (box # accepted, conflicts))
      else (case limit_boxes dayLimit limited cnt boxes of (accepted, conflicts) \<Rightarrow>
        (accepted, box_refusal (ox_sscc box) (Some (ox_bottleCount box)) (lit ''over_limit'') # conflicts)))"

record limited_lines =
  ls_acceptedLoose :: "resolved_item list"
  ls_looseConflicts :: "(jstring \<times> jstring) list"
  ls_acceptedBoxes :: "resolved_box list"
  ls_boxConflicts :: "box_verdict list"

definition applyOrderLineLimit :: "nat \<Rightarrow> nat \<Rightarrow> bool \<Rightarrow> resolved_item list \<Rightarrow> resolved_box list \<Rightarrow> limited_lines" where
  "applyOrderLineLimit existingCount dayLimit limited loose boxes =
     (let (acceptedLoose, looseConflicts) = limit_loose dayLimit limited existingCount loose;
          (acceptedBoxes, boxConflicts) = limit_boxes dayLimit limited (existingCount + length acceptedLoose) boxes
      in \<lparr>ls_acceptedLoose = acceptedLoose, ls_looseConflicts = looseConflicts, ls_acceptedBoxes = acceptedBoxes, ls_boxConflicts = boxConflicts\<rparr>)"

text \<open>After a lost race: the lines whose unit is in an open order meanwhile become conflicts.\<close>

definition raced_box :: "resolved_box list \<Rightarrow> jstring set \<Rightarrow> jstring \<Rightarrow> box_verdict option" where
  "raced_box attemptedBoxes conflictingKeys sscc =
     Option.bind (map_of (rev (map (\<lambda>b. (ox_sscc b, b)) attemptedBoxes)) sscc)
       (\<lambda>b. if list_ex (\<lambda>m. om_kmKey m \<in> conflictingKeys) (ox_members b)
            then Some (box_refusal (ox_sscc b) (Some (ox_bottleCount b)) (lit ''duplicate'')) else None)"

definition reclassifyOrderKmKeyRace ::
    "resolved_item list \<Rightarrow> jstring list \<Rightarrow> resolved_box list \<Rightarrow> jstring set
     \<Rightarrow> (resolved_item list \<times> (jstring \<times> jstring) list) \<times> (jstring list \<times> box_verdict list)" where
  "reclassifyOrderKmKeyRace loose requestedBoxes attemptedBoxes conflictingKeys =
     ((filter (\<lambda>i. li_kmKey i \<notin> conflictingKeys) loose,
       map (\<lambda>i. (li_rawKm i, lit ''duplicate'')) (filter (\<lambda>i. li_kmKey i \<in> conflictingKeys) loose)),
      (filter (\<lambda>s. raced_box attemptedBoxes conflictingKeys s = None) requestedBoxes,
       List.map_filter (raced_box attemptedBoxes conflictingKeys) requestedBoxes))"

subsection \<open>Time, number and price\<close>

definition CLIENT_CLOCK_AHEAD_TOLERANCE_MS :: int where "CLIENT_CLOCK_AHEAD_TOLERANCE_MS = 5 * 60000"

definition CLIENT_CLOCK_BEHIND_TOLERANCE_MS :: int where "CLIENT_CLOCK_BEHIND_TOLERANCE_MS = 7 * 24 * 60 * 60000"

definition resolveScanTime :: "(jstring \<Rightarrow> int option) \<Rightarrow> jstring option \<Rightarrow> int \<Rightarrow> int" where
  "resolveScanTime date_parse createdAt now =
     (case createdAt of
        None \<Rightarrow> now
      | Some text \<Rightarrow>
          if text = [] then now
          else (case date_parse text of
            None \<Rightarrow> now
          | Some claimed \<Rightarrow>
              let skew = claimed - now
              in if CLIENT_CLOCK_AHEAD_TOLERANCE_MS < skew \<or> CLIENT_CLOCK_BEHIND_TOLERANCE_MS < - skew then now else claimed))"

definition utc_day :: "int \<Rightarrow> int" where
  "utc_day t = t div 86400000"

definition formatOrderNo :: "(int \<Rightarrow> nat) \<Rightarrow> nat \<Rightarrow> int \<Rightarrow> jstring" where
  "formatOrderNo year seq now = lit ''ORD-'' @ pad_start 2 48 (dec (year now mod 100)) @ lit ''-'' @ pad_start 4 48 (dec seq)"

definition price_kopecks :: "jstring \<Rightarrow> int option" where
  "price_kopecks value =
     map_option (\<lambda>(neg, whole, digits). (if neg then -1 else 1) * int (kopecks_of whole digits)) (decimal_parts (js_trim value))"

fun sum_prices :: "int \<Rightarrow> jstring option list \<Rightarrow> int option" where
  "sum_prices cents [] = Some cents"
| "sum_prices cents (price # prices) = (case Option.bind price price_kopecks of
     None \<Rightarrow> None | Some kopecks \<Rightarrow> sum_prices (js_num (cents + kopecks)) prices)"

definition computeTotalPrice :: "jstring option list \<Rightarrow> jstring option" where
  "computeTotalPrice prices =
     (if prices = [] then None
      else map_option (\<lambda>cents. (if cents < 0 then [45] else []) @ dec (nat \<bar>cents\<bar> div 100) @ [46] @ pad_start 2 48 (dec (nat \<bar>cents\<bar> mod 100)))
             (sum_prices 0 prices))"

section \<open>Lemmas\<close>

subsection \<open>Stored conflicts\<close>

definition loose_reasons :: "(jstring \<times> jstring) list \<Rightarrow> bool" where
  "loose_reasons cs \<longleftrightarrow> list_all (isOrderConflictReason \<circ> snd) cs"

definition box_reasons :: "box_verdict list \<Rightarrow> bool" where
  "box_reasons vs \<longleftrightarrow> list_all (isBoxConflictReason \<circ> bv_reason) vs"

lemma loose_reasons_simps [simp]:
  "loose_reasons []" "loose_reasons (c # cs) \<longleftrightarrow> isOrderConflictReason (snd c) \<and> loose_reasons cs"
  "loose_reasons (cs @ ds) \<longleftrightarrow> loose_reasons cs \<and> loose_reasons ds"
  by (simp_all add: loose_reasons_def)

lemma box_reasons_simps [simp]:
  "box_reasons []" "box_reasons (v # vs) \<longleftrightarrow> isBoxConflictReason (bv_reason v) \<and> box_reasons vs"
  "box_reasons (vs @ ws) \<longleftrightarrow> box_reasons vs \<and> box_reasons ws"
  by (simp_all add: box_reasons_def)

lemma reason_texts [simp]:
  "isOrderConflictReason (lit ''not_km'')" "isOrderConflictReason (lit ''incomplete'')" "isOrderConflictReason (lit ''unknown_product'')"
  "isOrderConflictReason (lit ''not_allowed'')" "isOrderConflictReason (lit ''duplicate'')" "isOrderConflictReason (lit ''over_limit'')"
  "isBoxConflictReason (lit ''unknown_box'')" "isBoxConflictReason (lit ''box_not_closed'')" "isBoxConflictReason (lit ''box_disassembled'')"
  "isBoxConflictReason (lit ''box_contents_changed'')" "isBoxConflictReason (lit ''mixed_product_box'')"
  "isBoxConflictReason (lit ''duplicate'')" "isBoxConflictReason (lit ''over_limit'')"
  by (simp_all add: isOrderConflictReason_def isBoxConflictReason_def)

lemma box_refusal_simps [simp]: "bv_sscc (box_refusal s n r) = s" "bv_reason (box_refusal s n r) = r"
  by (simp_all add: box_refusal_def)

lemma split_box_conflicts: "box_reasons vs \<Longrightarrow> splitStoredConflicts (map Stored_box vs @ rest) = (fst (splitStoredConflicts rest), vs @ snd (splitStoredConflicts rest))"
  by (induction vs) (auto split: prod.split)

lemma split_join:
  "loose_reasons cs \<Longrightarrow> box_reasons vs \<Longrightarrow> splitStoredConflicts rest = ([], []) \<Longrightarrow> splitStoredConflicts (joinStoredConflicts cs vs @ rest) = (cs, vs)"
proof (induction cs)
  case Nil
  then show ?case using split_box_conflicts [of vs rest] by (simp add: joinStoredConflicts_def)
next
  case (Cons c cs)
  then show ?case by (cases c) (simp add: joinStoredConflicts_def)
qed

lemma split_marker [simp]: "splitStoredConflicts (kioskOrderRequestMarker boxes t) = ([], [])"
  by (simp add: kioskOrderRequestMarker_def split: option.split)

subsection \<open>Loose lines\<close>

lemma resolve_lines_spec:
  "resolve_lines allow existing seen items = (cs, rs) \<Longrightarrow>
     mset items = mset (map fst cs) + mset (map li_rawKm rs) \<and> distinct (map li_kmKey rs) \<and> li_kmKey ` set rs \<inter> seen = {} \<and> loose_reasons cs"
proof (induction items arbitrary: seen cs rs)
  case (Cons rawKm items)
  obtain cs0 rs0 where r: "resolve_lines allow existing seen items = (cs0, rs0)" by force
  have refuse: ?case if "cs = (rawKm, reason) # cs0" "rs = rs0" "isOrderConflictReason reason" for reason
    using Cons.IH [OF r] that by simp
  show ?case
  proof (cases "validatePickupKm rawKm None")
    case (PickupOk km key)
    show ?thesis
    proof (cases "allow (km_gtin14 km)")
      case None
      then have "cs = (rawKm, if existing (km_gtin14 km) then lit ''not_allowed'' else lit ''unknown_product'') # cs0" "rs = rs0"
        using Cons.prems PickupOk r by (simp_all add: Let_def)
      then show ?thesis by (rule refuse) simp
    next
      case (Some a)
      obtain productId unitPrice where a: "a = (productId, unitPrice)" by force
      show ?thesis
      proof (cases "key \<in> seen")
        case True
        then have "cs = (rawKm, lit ''duplicate'') # cs0" "rs = rs0" using Cons.prems PickupOk Some a r by (simp_all add: Let_def)
        then show ?thesis by (rule refuse) simp
      next
        case False
        obtain cs1 rs1 where r1: "resolve_lines allow existing (insert key seen) items = (cs1, rs1)" by force
        then have "cs = cs1" "rs = \<lparr>li_rawKm = rawKm, li_productId = productId, li_gtin14 = km_gtin14 km, li_serial = km_serial km,
            li_kmKey = key, li_unitPrice = unitPrice\<rparr> # rs1"
          using Cons.prems PickupOk Some a False by (simp_all add: Let_def)
        then show ?thesis using Cons.IH [OF r1] False by simp
      qed
    qed
  next
    case (PickupNotKm x)
    then have "cs = (rawKm, lit ''not_km'') # cs0" "rs = rs0" using Cons.prems r by (simp_all add: Let_def)
    then show ?thesis by (rule refuse) simp
  next
    case (PickupIncomplete x)
    then have "cs = (rawKm, lit ''incomplete'') # cs0" "rs = rs0" using Cons.prems r by (simp_all add: Let_def)
    then show ?thesis by (rule refuse) simp
  qed
qed simp

subsection \<open>Boxes\<close>

definition box_ok :: "resolved_box \<Rightarrow> bool" where
  "box_ok box \<longleftrightarrow> distinct (map om_kmKey (ox_members box)) \<and> ox_bottleCount box = length (ox_members box) \<and> ox_members box \<noteq> []"

lemma those_map_spec: "those (map f xs) = Some ys \<Longrightarrow> map f xs = map Some ys"
  by (induction xs arbitrary: ys) (auto split: option.splits)

lemma member_keys_members:
  "member_keys c received H K facts = Some keys \<Longrightarrow> those (map member_of facts) = Some ms \<Longrightarrow> map om_kmKey ms = keys"
proof (induction facts arbitrary: H K keys ms)
  case (Cons f facts)
  from Cons.prems(1) have ok: "\<not> (mf_codeHash f \<in> H \<or> \<not> fact_ok c received f)" by (auto split: if_splits)
  obtain raw where raw: "mf_canonicalRaw f = Some raw" using ok by (auto simp: fact_ok_def)
  obtain parsed where p: "canonicalizeKm raw = Inr parsed" using Cons.prems(1) ok raw by (auto split: sum.splits)
  obtain ks where ks: "member_keys c received (insert (mf_codeHash f) H) (insert (kmKey parsed) K) facts = Some ks" "keys = kmKey parsed # ks"
    using Cons.prems(1) ok raw p by (auto split: if_splits)
  have f: "member_of f = Some \<lparr>om_rawKm = raw, om_kmKey = kmKey parsed, om_gtin14 = km_gtin14 parsed, om_serial = km_serial parsed\<rparr>"
    using raw p by (simp add: member_of_def)
  obtain ms' where ms': "those (map member_of facts) = Some ms'" "ms = \<lparr>om_rawKm = raw, om_kmKey = kmKey parsed, om_gtin14 = km_gtin14 parsed, om_serial = km_serial parsed\<rparr> # ms'"
    using Cons.prems(2) f by (auto split: option.splits)
  then show ?case using Cons.IH [OF ks(1) ms'(1)] ks(2) by simp
qed simp

lemma resolve_box_ok:
  assumes "resolve_box db candidates sscc = Inr (Inl box)"
  shows "box_ok box \<and> ox_sscc box = sscc"
proof -
  obtain c unitPrice where c: "map_of (rev (map (\<lambda>c. (rc_sscc (fst c), c)) candidates)) (Some sscc) = Some (c, unitPrice)"
    using assms by (auto simp: resolve_box_def split: option.splits)
  define facts where "facts = box_facts db (rc_id c)"
  obtain u where u: "evaluateBoxRegistryCandidate c facts False = Some (Upsert u)"
    using assms c by (auto simp: resolve_box_def Let_def facts_def split: option.splits registry_change.splits)
  obtain ms where ms: "those (map member_of (filter is_active facts)) = Some ms"
      "box = \<lparr>ox_boxId = rc_id c, ox_sscc = sscc, ox_productId = rc_productId c, ox_bottleCount = length ms, ox_unitPrice = unitPrice, ox_members = ms\<rparr>"
    using assms c u by (auto simp: resolve_box_def Let_def facts_def split: option.splits)
  have act: "filter is_active facts = filter (\<lambda>f. mf_removedAt f = None \<and> mf_displacedAt f = None) facts" by (simp add: is_active_def [abs_def])
  obtain received keys where k: "member_keys c received {} {} (filter is_active facts) = Some keys" "filter is_active facts \<noteq> []"
    using evaluate_upsert [OF u] unfolding act by blast
  have "map om_kmKey ms = keys" by (rule member_keys_members [OF k(1) ms(1)])
  moreover have "distinct keys" using member_keys_spec [OF k(1)] by blast
  moreover have "ms \<noteq> []" using those_map_spec [OF ms(1)] k(2) by auto
  ultimately show ?thesis using ms(2) by (auto simp: box_ok_def)
qed

lemma resolve_box_refused:
  assumes "resolve_box db candidates sscc = Inr (Inr v)"
  shows "bv_sscc v = sscc \<and> isBoxConflictReason (bv_reason v)"
proof -
  have "isBoxConflictReason (ineligibleReason c facts)" for c facts by (simp add: ineligibleReason_def Let_def)
  then show ?thesis using assms by (auto simp: resolve_box_def Let_def split: option.splits registry_change.splits)
qed

lemma resolve_boxes_spec:
  "resolve_boxes db candidates inputs = Inr (bs, vs) \<Longrightarrow>
     mset inputs = mset (map ox_sscc bs) + mset (map bv_sscc vs) \<and> list_all box_ok bs \<and> box_reasons vs"
proof (induction inputs arbitrary: bs vs)
  case (Cons sscc inputs)
  obtain r bs0 vs0 where r: "resolve_box db candidates sscc = Inr r" "resolve_boxes db candidates inputs = Inr (bs0, vs0)"
    using Cons.prems by (auto split: sum.splits)
  show ?case using Cons.IH [OF r(2)] Cons.prems r resolve_box_ok [of db candidates sscc] resolve_box_refused [of db candidates sscc]
    by (cases r) auto
qed simp

lemma resolveOrderBoxes_spec:
  "resolveOrderBoxes db inputs = Inr (bs, vs) \<Longrightarrow>
     mset inputs = mset (map ox_sscc bs) + mset (map bv_sscc vs) \<and> list_all box_ok bs \<and> box_reasons vs"
  using resolve_boxes_spec by (auto simp: resolveOrderBoxes_def Let_def split: if_splits sum.splits)

lemma classify_spec:
  "classifyResolvedBoxConflicts claimed boxes = (acc, vs) \<Longrightarrow>
     mset (map ox_sscc boxes) = mset (map ox_sscc acc) + mset (map bv_sscc vs) \<and> set acc \<subseteq> set boxes
     \<and> sorted_wrt (\<lambda>a b. member_keys_of a \<inter> member_keys_of b = {}) acc \<and> (\<forall>b\<in>set acc. member_keys_of b \<inter> claimed = {}) \<and> box_reasons vs"
proof (induction boxes arbitrary: claimed acc vs)
  case (Cons box boxes)
  show ?case
  proof (cases "list_ex (\<lambda>m. om_kmKey m \<in> claimed) (ox_members box)")
    case True
    obtain acc0 vs0 where r: "classifyResolvedBoxConflicts claimed boxes = (acc0, vs0)" by force
    then show ?thesis using Cons.prems True Cons.IH [OF r] by auto
  next
    case False
    obtain acc0 vs0 where r: "classifyResolvedBoxConflicts (claimed \<union> member_keys_of box) boxes = (acc0, vs0)" by force
    have free: "member_keys_of box \<inter> claimed = {}" using False by (auto simp: member_keys_of_def list_ex_iff)
    have "acc = box # acc0" "vs = vs0" using Cons.prems False r by simp_all
    then show ?thesis using Cons.IH [OF r] free by auto
  qed
qed simp

subsection \<open>The allowance\<close>

lemma limit_loose_spec:
  "limit_loose L limited n items = (acc, cs) \<Longrightarrow>
     mset (map li_rawKm items) = mset (map li_rawKm acc) + mset (map fst cs) \<and> subseq acc items \<and> loose_reasons cs
     \<and> (limited \<longrightarrow> n + length acc \<le> max n L)"
proof (induction items arbitrary: n acc cs)
  case (Cons i items)
  show ?case
  proof (cases "\<not> limited \<or> n < L")
    case True
    obtain acc0 cs0 where r: "limit_loose L limited (n + 1) items = (acc0, cs0)" by force
    then show ?thesis using Cons.prems True Cons.IH [OF r] by auto
  next
    case False
    obtain acc0 cs0 where r: "limit_loose L limited n items = (acc0, cs0)" by force
    then show ?thesis using Cons.prems False Cons.IH [OF r] by auto
  qed
qed simp

lemma limit_boxes_spec:
  "limit_boxes L limited n boxes = (acc, vs) \<Longrightarrow>
     mset (map ox_sscc boxes) = mset (map ox_sscc acc) + mset (map bv_sscc vs) \<and> subseq acc boxes \<and> box_reasons vs
     \<and> (limited \<longrightarrow> n + sum_list (map ox_bottleCount acc) \<le> max n L)"
proof (induction boxes arbitrary: n acc vs)
  case (Cons b boxes)
  show ?case
  proof (cases "\<not> limited \<or> n + ox_bottleCount b \<le> L")
    case True
    obtain acc0 vs0 where r: "limit_boxes L limited (n + ox_bottleCount b) boxes = (acc0, vs0)" by force
    then show ?thesis using Cons.prems True Cons.IH [OF r] by auto
  next
    case False
    obtain acc0 vs0 where r: "limit_boxes L limited n boxes = (acc0, vs0)" by force
    then show ?thesis using Cons.prems False Cons.IH [OF r] by auto
  qed
qed simp

subsection \<open>Number, price and time\<close>

lemma num_zeros [simp]: "num (replicate n 48 @ s) = num s"
  by (induction n) (simp_all add: num_def)

lemma num_pad [simp]: "num (pad_start n 48 (dec m)) = m"
  by (simp add: pad_start_def)

lemma dec_two: "m < 100 \<Longrightarrow> length (pad_start 2 48 (dec m)) = 2"
  by (subst dec.simps, subst dec.simps) (auto simp: pad_start_def)

lemma formatOrderNo_inj: "formatOrderNo year a s = formatOrderNo year b t \<Longrightarrow> a = b"
proof -
  assume eq: "formatOrderNo year a s = formatOrderNo year b t"
  have y: "length (pad_start 2 48 (dec (year u mod 100))) = 2" for u by (rule dec_two) simp
  have "drop 7 (formatOrderNo year n u) = pad_start 4 48 (dec n)" for n u
    using y [of u] by (simp add: formatOrderNo_def lit_def)
  then have "pad_start 4 48 (dec a) = pad_start 4 48 (dec b)" using eq by metis
  then show ?thesis using num_pad by metis
qed

lemma price_kopecks_eq: "price_kopecks = toKopecks"
  by (simp add: fun_eq_iff price_kopecks_def toKopecks_def)

lemma sum_prices_exact:
  assumes "sum_prices cents prices = Some total_cents" "\<bar>cents\<bar> + sum_list (map (\<lambda>p. \<bar>the (price_kopecks (the p))\<bar>) prices) \<le> 2 ^ 53"
  shows "total_cents = cents + sum_list (map (\<lambda>p. the (price_kopecks (the p))) prices) \<and> list_all (\<lambda>p. p \<noteq> None \<and> price_kopecks (the p) \<noteq> None) prices"
  using assms
proof (induction prices arbitrary: cents)
  case (Cons p prices)
  then obtain v k where p: "p = Some v" "price_kopecks v = Some k" by (cases p) (auto split: option.splits)
  have nonneg: "0 \<le> sum_list (map (\<lambda>p. \<bar>the (price_kopecks (the p))\<bar>) prices)" by (rule sum_list_nonneg) auto
  have small: "\<bar>cents + k\<bar> + sum_list (map (\<lambda>p. \<bar>the (price_kopecks (the p))\<bar>) prices) \<le> 2 ^ 53" using Cons.prems(2) p by simp
  then have "js_num (cents + k) = cents + k" using nonneg by (intro js_num_exact) linarith
  then have s: "sum_prices (cents + k) prices = Some total_cents" using Cons.prems(1) p by simp
  show ?case using Cons.IH [OF s small] p by simp
qed simp

text \<open>C36: The total of an order is exact and reads back: when every line has a price the stored text is the decimal amount
  that \<open>toKopecks\<close> reads as the sum of the prices in kopecks, negative corrections included, as long as
  the amounts of the prices together stay at least 100 kopecks below 2^53; when there are no lines, or a line has no price or one that cannot be read, there is
  no total at all rather than a wrong one.\<close>

theorem total_price_exact:
  "(computeTotalPrice prices = None \<longleftrightarrow> prices = [] \<or> (\<exists>p\<in>set prices. Option.bind p price_kopecks = None))
    \<and> (\<forall>printed. computeTotalPrice prices = Some printed \<longrightarrow>
        sum_list (map (\<lambda>p. \<bar>the (price_kopecks (the p))\<bar>) prices) + 100 \<le> 2 ^ 53 \<longrightarrow> toKopecks printed = Some (sum_list (map (\<lambda>p. the (price_kopecks (the p))) prices)))"
proof (intro conjI allI impI)
  have "sum_prices cents prices = None \<longleftrightarrow> (\<exists>p\<in>set prices. Option.bind p price_kopecks = None)" for cents
    by (induction prices arbitrary: cents) (auto split: option.split)
  then show "computeTotalPrice prices = None \<longleftrightarrow> prices = [] \<or> (\<exists>p\<in>set prices. Option.bind p price_kopecks = None)"
    by (auto simp: computeTotalPrice_def)
next
  fix printed assume t: "computeTotalPrice prices = Some printed"
    and small: "sum_list (map (\<lambda>p. \<bar>the (price_kopecks (the p))\<bar>) prices) + 100 \<le> 2 ^ 53"
  then obtain cents where c: "sum_prices 0 prices = Some cents"
      "printed = (if cents < 0 then [45] else []) @ dec (nat \<bar>cents\<bar> div 100) @ [46] @ pad_start 2 48 (dec (nat \<bar>cents\<bar> mod 100))"
    unfolding computeTotalPrice_def by (cases "prices = []"; cases "sum_prices 0 prices") simp_all
  have e: "cents = sum_list (map (\<lambda>p. the (price_kopecks (the p))) prices)" using sum_prices_exact [OF c(1)] small by simp
  define m where "m = nat \<bar>cents\<bar>"
  define digits where "digits = pad_start 2 48 (dec (m mod 100))"
  have len: "length digits = 2" unfolding digits_def by (rule dec_two) simp
  have dig: "list_all is_digit digits" using dec_digits [of "m mod 100"] by (auto simp: digits_def pad_start_def list_all_iff is_digit_def)
  have whole: "all_digits (dec (m div 100))" using dec_digits by (simp add: all_digits_def)
  have "\<bar>sum_list (map (\<lambda>p. the (price_kopecks (the p))) prices)\<bar> \<le> sum_list (map (\<lambda>p. \<bar>the (price_kopecks (the p))\<bar>) prices)"
    by (induction prices) auto
  then have bound: "num (dec (m div 100)) * 100 + 100 \<le> 2 ^ 53" using small e by (simp add: m_def)
  have num: "num (dec (m div 100) @ digits) = m" using len by (simp add: num_append digits_def)
  have "printed = [] @ decimal_text (cents < 0) (dec (m div 100)) digits @ []"
  proof -
    have "digits \<noteq> []" using len by auto
    then show ?thesis using c(2) unfolding m_def [symmetric] digits_def [symmetric] by (simp add: decimal_text_def)
  qed
  then have "toKopecks printed = Some ((if cents < 0 then -1 else 1) * int ((200 * m + 100) div 200))"
    using toKopecks_rounds [OF whole dig _ _ bound, of "[]" "[]" "cents < 0"] num len by simp
  moreover have "(200 * m + 100) div 200 = m" by simp
  moreover have "(if cents < 0 then -1 else 1) * int m = cents" by (simp add: m_def)
  ultimately show "toKopecks printed = Some (sum_list (map (\<lambda>p. the (price_kopecks (the p))) prices))" using e by simp
qed

theorem total_price_exact_witness:
  "\<exists>printed. computeTotalPrice [Some (lit ''89.90''), Some (lit ''1.005''), Some (lit ''-0.01'')] = Some printed \<and> toKopecks printed = Some 9090"
proof -
  have d: "all_digits (lit ''89'')" "all_digits (lit ''1'')" "all_digits (lit ''0'')"
      "list_all is_digit (lit ''90'')" "list_all is_digit (lit ''005'')" "list_all is_digit (lit ''01'')"
    by (simp_all add: lit_def all_digits_def is_digit_def)
  have n: "num (lit ''89'') * 100 + 100 \<le> 2 ^ 53" "num (lit ''1'') * 100 + 100 \<le> 2 ^ 53" "num (lit ''0'') * 100 + 100 \<le> 2 ^ 53"
      "num (lit ''89'' @ lit ''90'') = 8990" "num (lit ''1'' @ lit ''005'') = 1005" "num (lit ''0'' @ lit ''01'') = 1"
    by (simp_all add: lit_def num_def)
  have t: "[] @ decimal_text False (lit ''89'') (lit ''90'') @ [] = lit ''89.90''" "[] @ decimal_text False (lit ''1'') (lit ''005'') @ [] = lit ''1.005''"
      "[] @ decimal_text True (lit ''0'') (lit ''01'') @ [] = lit ''-0.01''" "length (lit ''90'') = 2" "length (lit ''005'') = 3" "length (lit ''01'') = 2"
    by (simp_all add: lit_def decimal_text_def)
  have p: "price_kopecks (lit ''89.90'') = Some 8990" "price_kopecks (lit ''1.005'') = Some 101" "price_kopecks (lit ''-0.01'') = Some (-1)"
    using toKopecks_rounds [OF d(1,4) _ _ n(1), of "[]" "[]" False, unfolded t n] toKopecks_rounds [OF d(2,5) _ _ n(2), of "[]" "[]" False, unfolded t n]
      toKopecks_rounds [OF d(3,6) _ _ n(3), of "[]" "[]" True, unfolded t n]
    unfolding price_kopecks_eq by simp_all
  let ?ps = "[Some (lit ''89.90''), Some (lit ''1.005''), Some (lit ''-0.01'')]"
  have "computeTotalPrice ?ps \<noteq> None" using total_price_exact [of ?ps] p by simp
  then show ?thesis using total_price_exact [of ?ps] p by auto
qed

text \<open>The time an order is filed under is never far from the server's clock: at most five minutes ahead of it and seven
  days behind it, whatever the device claims.\<close>

theorem scan_time_bounded:
  "now - 7 * 86400000 \<le> resolveScanTime dp createdAt now \<and> resolveScanTime dp createdAt now \<le> now + 300000"
  by (auto simp: resolveScanTime_def CLIENT_CLOCK_AHEAD_TOLERANCE_MS_def CLIENT_CLOCK_BEHIND_TOLERANCE_MS_def Let_def split: option.split)

end
