(* ===== verification/Pickup_Orders.thy ===== *)
theory Pickup_Orders
  imports Pickup_Rules
begin

text \<open>
  The server's side of a pickup: \<open>pickup-orders.service.ts\<close> (\<open>apps/api/src/modules/pickup-orders\<close>) over the tables of
  \<open>packages/db/src/schema/pickup.ts\<close>.

  The tables hold the rows of one tenant. A request is a program counter whose steps are the awaited
  statements; the order transaction is two steps, its reads and its writes, between which it holds the
  tenant's lock and the lock on the row of its kiosk, and a failed write leaves the tables as they were.
  Requests, cancellations, resolutions, reservations and changes of the master data interleave freely.
  Resolving and cancelling are single steps: their updates are guarded by the status they read, so an order
  settled meanwhile is only refused. Modelled are requests of a kiosk that carry no grant evidence; documents of a handheld are not.
\<close>

section \<open>Model\<close>

subsection \<open>Tables\<close>

datatype order_status = Pending | Punched | Written_off | Cancelled

record pickup_order =
  po_id :: jstring
  po_orderNo :: jstring
  po_kioskId :: jstring
  po_employeeId :: jstring
  po_reason :: pickup_reason
  po_writeoffReasonId :: "jstring option"
  po_status :: order_status
  po_itemCount :: nat
  po_totalPrice :: "jstring option"
  po_receiptNo :: "jstring option"
  po_actNo :: "jstring option"
  po_deviceSeq :: int
  po_syncConflicts :: "stored_conflict list option"
  po_createdAt :: int
  po_resolvedAt :: "int option"
  po_resolvedByUserId :: "jstring option"

record order_box =
  ob_id :: jstring
  ob_orderId :: jstring
  ob_boxId :: jstring
  ob_sscc :: jstring
  ob_productId :: jstring
  ob_bottleCount :: nat
  ob_unitPrice :: "jstring option"

record order_item =
  oi_orderId :: jstring
  oi_orderBoxId :: "jstring option"
  oi_productId :: jstring
  oi_gtin14 :: jstring
  oi_serial :: jstring
  oi_rawKm :: jstring
  oi_kmKey :: jstring
  oi_unitPrice :: "jstring option"
  oi_voided :: bool
  oi_scannedAt :: int

record scan_rejection =
  sr_kioskId :: jstring
  sr_employeeId :: "jstring option"
  sr_badgeCode :: "jstring option"
  sr_orderId :: "jstring option"
  sr_deviceSeq :: int
  sr_codes :: "stored_conflict list"
  sr_scannedAt :: int

record admission_row =
  am_kioskId :: jstring
  am_deviceSeq :: int
  am_subscriptionId :: jstring
  am_tokenHash :: jstring
  am_payloadDigest :: jstring
  am_claimedAt :: int
  am_notAfter :: int

record employee_badge =
  bd_employeeId :: jstring
  bd_badgeCode :: jstring
  bd_badgeHash :: "jstring option"
  bd_revokedAt :: "int option"

record employee_policy =
  pp_employeeId :: jstring
  pp_limited :: bool
  pp_dayLimit :: nat
  pp_canWriteoff :: bool

record pickup_db =
  pk_registry :: registry_db
  pk_orders :: "pickup_order list"
  pk_orderBoxes :: "order_box list"
  pk_items :: "order_item list"
  pk_rejections :: "scan_rejection list"
  pk_admissions :: "admission_row list"
  pk_counter :: "nat option"
  pk_activeEmployees :: "jstring list"
  pk_badges :: "employee_badge list"
  pk_policies :: "employee_policy list"
  pk_limitsEnabled :: "bool option"
  pk_reasons :: "(jstring \<times> bool) list"
  pk_kioskProducts :: "(jstring \<times> jstring) list"
  pk_badgeSalt :: "jstring option"

text \<open>The host: dates, SHA-256 of a text and of the JSON text of a body's content, and the collation.\<close>

record server_host =
  sv_parse :: "jstring \<Rightarrow> int option"
  sv_iso :: "int \<Rightarrow> jstring"
  sv_year :: "int \<Rightarrow> nat"
  sv_tokenHash :: "jstring \<Rightarrow> jstring"
  sv_digest :: "order_content \<Rightarrow> jstring"
  sv_collate :: "jstring \<Rightarrow> jstring \<Rightarrow> int"

subsection \<open>Outcomes\<close>

record order_outcome =
  ou_orderNo :: jstring
  ou_itemCount :: nat
  ou_conflicts :: "(jstring \<times> jstring) list"
  ou_boxConflicts :: "box_verdict list"
  ou_acceptedBoxes :: "(jstring \<times> int) list"
  ou_rejected :: bool
  ou_terminalReason :: "jstring option"
  ou_writeoffForbidden :: bool

definition by_sscc :: "server_host \<Rightarrow> (jstring \<times> int) list \<Rightarrow> (jstring \<times> int) list" where
  "by_sscc h bs = js_sort (\<lambda>l r. sv_collate h (fst l) (fst r)) bs"

definition findOrderOutcome :: "server_host \<Rightarrow> pickup_db \<Rightarrow> jstring \<Rightarrow> int \<Rightarrow> order_outcome option" where
  "findOrderOutcome h db kioskId deviceSeq =
     map_option (\<lambda>o'.
       let (conflicts, boxConflicts) = splitStoredConflicts (case po_syncConflicts o' of Some cs \<Rightarrow> cs | None \<Rightarrow> []);
           boxes = sort_key ob_id (filter (\<lambda>b. ob_orderId b = po_id o') (pk_orderBoxes db))
       in \<lparr>ou_orderNo = po_orderNo o', ou_itemCount = po_itemCount o', ou_conflicts = conflicts, ou_boxConflicts = boxConflicts,
           ou_acceptedBoxes = by_sscc h (map (\<lambda>b. (ob_sscc b, int (ob_bottleCount b))) boxes), ou_rejected = False,
           ou_terminalReason = None, ou_writeoffForbidden = False\<rparr>)
       (List.find (\<lambda>o'. po_kioskId o' = kioskId \<and> po_deviceSeq o' = deviceSeq) (pk_orders db))"

fun request_marker :: "stored_conflict list \<Rightarrow> jstring option" where
  "request_marker [] = None"
| "request_marker (c # cs) = (case c of
     Stored_request t \<Rightarrow> if isKioskRejectionTerminalReason t then Some t else request_marker cs
   | _ \<Rightarrow> request_marker cs)"

fun first_box_reason :: "stored_conflict list \<Rightarrow> jstring option" where
  "first_box_reason [] = None"
| "first_box_reason (c # cs) = (case c of Stored_box v \<Rightarrow> Some (bv_reason v) | _ \<Rightarrow> first_box_reason cs)"

definition findRejectionOutcome :: "pickup_db \<Rightarrow> jstring \<Rightarrow> int \<Rightarrow> order_outcome option" where
  "findRejectionOutcome db kioskId deviceSeq =
     Option.bind (List.find (\<lambda>r. sr_kioskId r = kioskId \<and> sr_deviceSeq r = deviceSeq) (pk_rejections db)) (\<lambda>rejection.
       let stored = sr_codes rejection; (conflicts, boxConflicts) = splitStoredConflicts stored
       in case (case request_marker stored of Some t \<Rightarrow> Some t | None \<Rightarrow> legacyBoxTerminalReason (first_box_reason stored)) of
            None \<Rightarrow> None
          | Some t \<Rightarrow> Some \<lparr>ou_orderNo = [], ou_itemCount = 0, ou_conflicts = conflicts, ou_boxConflicts = boxConflicts, ou_acceptedBoxes = [],
              ou_rejected = True, ou_terminalReason = Some t, ou_writeoffForbidden = False\<rparr>)"

definition throwPersistedKioskRejection :: "order_outcome \<Rightarrow> api_error" where
  "throwPersistedKioskRejection outcome =
     (if ou_terminalReason outcome = Some (lit ''unknown_badge'') then unknown_badge
      else if ou_terminalReason outcome = Some (lit ''writeoff_forbidden'') then writeoff_forbidden
      else if ou_terminalReason outcome = Some (lit ''writeoff_reason_required'') then writeoff_reason_required
      else if ou_terminalReason outcome = Some (lit ''unknown_reason'') then unknown_reason
      else orderRejectedResponse (ou_conflicts outcome) (ou_boxConflicts outcome))"

definition kioskResultFromOutcome :: "order_outcome \<Rightarrow> api_error + order_result" where
  "kioskResultFromOutcome outcome =
     (if ou_rejected outcome then Inl (throwPersistedKioskRejection outcome)
      else Inr \<lparr>or_orderNo = ou_orderNo outcome, or_itemCount = int (ou_itemCount outcome), or_conflicts = ou_conflicts outcome,
                or_boxConflicts = Some (ou_boxConflicts outcome), or_acceptedBoxes = Some (ou_acceptedBoxes outcome)\<rparr>)"

subsection \<open>Rejections and reservations\<close>

definition consumeKioskAdmission :: "pickup_db \<Rightarrow> jstring \<Rightarrow> int \<Rightarrow> pickup_db" where
  "consumeKioskAdmission db kioskId deviceSeq =
     db\<lparr>pk_admissions := filter (\<lambda>a. \<not> (am_kioskId a = kioskId \<and> am_deviceSeq a = deviceSeq)) (pk_admissions db)\<rparr>"

definition recordScanRejection :: "pickup_db \<Rightarrow> scan_rejection \<Rightarrow> pickup_db" where
  "recordScanRejection db row =
     (if list_ex (\<lambda>r. sr_kioskId r = sr_kioskId row \<and> sr_deviceSeq r = sr_deviceSeq row) (pk_rejections db) then db
      else db\<lparr>pk_rejections := pk_rejections db @ [row]\<rparr>)"

definition persistLegacyEarlyRejection :: "pickup_db \<Rightarrow> scan_rejection \<Rightarrow> bool \<Rightarrow> pickup_db" where
  "persistLegacyEarlyRejection db row hasLines =
     consumeKioskAdmission (if hasLines then recordScanRejection db row else db) (sr_kioskId row) (sr_deviceSeq row)"

definition persistSerializedEarlyRejection :: "server_host \<Rightarrow> pickup_db \<Rightarrow> scan_rejection \<Rightarrow> bool \<Rightarrow> pickup_db \<times> order_outcome option" where
  "persistSerializedEarlyRejection h db row hasLines =
     (case findOrderOutcome h db (sr_kioskId row) (sr_deviceSeq row) of
        Some order \<Rightarrow> (consumeKioskAdmission db (sr_kioskId row) (sr_deviceSeq row), Some order)
      | None \<Rightarrow>
          (case findRejectionOutcome db (sr_kioskId row) (sr_deviceSeq row) of
             Some rejection \<Rightarrow> (consumeKioskAdmission db (sr_kioskId row) (sr_deviceSeq row), Some rejection)
           | None \<Rightarrow> (consumeKioskAdmission (if hasLines then recordScanRejection db row else db) (sr_kioskId row) (sr_deviceSeq row), None)))"

text \<open>\<open>attestKioskOrder\<close> without a grant owner; \<open>write\<close> is the subscription with its end while write access is live, and
  \<open>token\<close> the random token.\<close>

definition attestKioskOrder ::
    "server_host \<Rightarrow> pickup_db \<Rightarrow> jstring \<Rightarrow> order_dto \<Rightarrow> int \<Rightarrow> (jstring \<times> int option) option option \<Rightarrow> jstring \<Rightarrow> api_error + pickup_db \<times> admission" where
  "attestKioskOrder h db kioskId dto claimedAt access token =
     (let digest = sv_digest h (canonicalKioskOrderContent dto);
          slot = (\<lambda>a. am_kioskId a = kioskId \<and> am_deviceSeq a = od_deviceSeq dto);
          existing = Option.bind (od_admissionNonce dto) (\<lambda>nonce. if nonce = [] then None
            else map_option (\<lambda>a. (a, nonce)) (List.find (\<lambda>a. slot a \<and> am_tokenHash a = sv_tokenHash h nonce \<and> am_payloadDigest a = digest) (pk_admissions db)))
      in case existing of
           Some (a, nonce) \<Rightarrow> Inr (db, \<lparr>ad_claimedAt = sv_iso h (am_claimedAt a), ad_admissionProof = nonce\<rparr>)
         | None \<Rightarrow>
             (case access of
                None \<Rightarrow> Inl subscription_read_only
              | Some subscription \<Rightarrow>
                  (case subscription of
                     Some (subscriptionId, Some endsAt) \<Rightarrow>
                       if endsAt \<le> claimedAt then Inl (refusal 409 (Some (lit ''kiosk_admission_not_required'')) [])
                       else if \<not> admissionSequenceWithinWindow (length (filter (\<lambda>a. am_kioskId a = kioskId) (pk_admissions db)))
                       then Inl (refusal 409 (Some (lit ''kiosk_admission_sequence_gap'')) [])
                       else let bearer = (case od_admissionNonce dto of Some nonce \<Rightarrow> nonce | None \<Rightarrow> token);
                                row = \<lparr>am_kioskId = kioskId, am_deviceSeq = od_deviceSeq dto, am_subscriptionId = subscriptionId,
                                       am_tokenHash = sv_tokenHash h bearer, am_payloadDigest = digest, am_claimedAt = claimedAt, am_notAfter = endsAt\<rparr>
                            in Inr (db\<lparr>pk_admissions := filter (\<lambda>a. \<not> slot a) (pk_admissions db) @ [row]\<rparr>,
                                    \<lparr>ad_claimedAt = sv_iso h claimedAt, ad_admissionProof = bearer\<rparr>)
                   | _ \<Rightarrow> Inl (refusal 409 (Some (lit ''kiosk_admission_not_required'')) []))))"

subsection \<open>The employee and the lines\<close>

record live_policy =
  lv_limited :: bool
  lv_dayLimit :: nat
  lv_canWriteoff :: bool

definition formatPhc :: "nat \<Rightarrow> jstring \<Rightarrow> jstring \<Rightarrow> jstring" where
  "formatPhc iterations saltB64 digestB64 = lit ''pbkdf2$sha256$'' @ dec iterations @ lit ''$'' @ saltB64 @ lit ''$'' @ digestB64"

definition PHC_ITERATIONS :: nat where "PHC_ITERATIONS = 100000"

definition badgeHashFor :: "pickup_db \<Rightarrow> jstring \<Rightarrow> jstring" where
  "badgeHashFor db digestB64 = (case pk_badgeSalt db of None \<Rightarrow> [] | Some salt \<Rightarrow> formatPhc PHC_ITERATIONS salt digestB64)"

fun badge_matches :: "pickup_db \<Rightarrow> presented_badge \<Rightarrow> employee_badge \<Rightarrow> bool" where
  "badge_matches db (Badge_digest d) b = (bd_badgeHash b = Some (badgeHashFor db d))"
| "badge_matches db (Badge_code c) b = (bd_badgeCode b = c)"

definition policy_of :: "pickup_db \<Rightarrow> jstring \<Rightarrow> api_error + live_policy" where
  "policy_of db employeeId =
     (case List.find (\<lambda>p. pp_employeeId p = employeeId) (pk_policies db) of
        None \<Rightarrow> Inl (internal_error ''Employee pickup policy is not configured'')
      | Some p \<Rightarrow>
          (case pk_limitsEnabled db of
             None \<Rightarrow> Inl (internal_error ''Tenant pickup policy is not configured'')
           | Some enabled \<Rightarrow> Inr \<lparr>lv_limited = (enabled \<and> pp_limited p), lv_dayLimit = pp_dayLimit p, lv_canWriteoff = pp_canWriteoff p\<rparr>))"

definition resolveActiveEmployee :: "pickup_db \<Rightarrow> order_dto \<Rightarrow> api_error + (jstring \<times> live_policy) option" where
  "resolveActiveEmployee db dto =
     (case List.find (\<lambda>b. badge_matches db (od_badge dto) b \<and> bd_revokedAt b = None \<and> bd_employeeId b \<in> set (pk_activeEmployees db)) (pk_badges db) of
        None \<Rightarrow> Inr None
      | Some badge \<Rightarrow>
          (case policy_of db (bd_employeeId badge) of
             Inl e \<Rightarrow> Inl e
           | Inr policy \<Rightarrow> Inr (Some (bd_employeeId badge, policy))))"

definition resolveLivePickupPolicy :: "pickup_db \<Rightarrow> jstring \<Rightarrow> api_error + live_policy" where
  "resolveLivePickupPolicy db employeeId = policy_of db employeeId"

definition auditBadgeValue :: "pickup_db \<Rightarrow> order_dto \<Rightarrow> jstring" where
  "auditBadgeValue db dto = (case od_badge dto of
     Badge_code c \<Rightarrow> c
   | Badge_digest d \<Rightarrow> (case List.find (badge_matches db (Badge_digest d)) (pk_badges db) of Some b \<Rightarrow> bd_badgeCode b | None \<Rightarrow> d))"

definition resolveWriteoffReasonId :: "pickup_db \<Rightarrow> order_dto \<Rightarrow> api_error + jstring option" where
  "resolveWriteoffReasonId db dto =
     (if od_reason dto \<noteq> Writeoff then Inr None
      else case od_writeoffReasonId dto of
        None \<Rightarrow> Inl writeoff_reason_required
      | Some r \<Rightarrow> if r = [] then Inl writeoff_reason_required
          else if (r, False) \<in> set (pk_reasons db) then Inr (Some r) else Inl unknown_reason)"

definition kioskAllowlist :: "pickup_db \<Rightarrow> jstring \<Rightarrow> jstring \<rightharpoonup> jstring \<times> jstring option" where
  "kioskAllowlist db kioskId = map_of (rev
     [(rp_gtin14 p, (rp_id p, rp_unitPrice p)).
        (k, productId) \<leftarrow> pk_kioskProducts db, k = kioskId,
        p \<leftarrow> filter (\<lambda>p. rp_id p = productId \<and> \<not> rp_archived p) (rg_products (pk_registry db))])"

definition existingProductGtins :: "pickup_db \<Rightarrow> jstring \<Rightarrow> bool" where
  "existingProductGtins db gtin = list_ex (\<lambda>p. rp_gtin14 p = gtin) (rg_products (pk_registry db))"

definition resolveItems :: "pickup_db \<Rightarrow> jstring \<Rightarrow> jstring list \<Rightarrow> (jstring \<times> jstring) list \<times> resolved_item list" where
  "resolveItems db kioskId items = resolve_lines (kioskAllowlist db kioskId) (existingProductGtins db) {} items"

definition counted_items :: "pickup_db \<Rightarrow> (pickup_order \<Rightarrow> bool) \<Rightarrow> order_item list" where
  "counted_items db sel = [i. i \<leftarrow> pk_items db, \<not> oi_voided i, o' \<leftarrow> pk_orders db, po_id o' = oi_orderId i \<and> sel o']"

definition counts_for :: "jstring \<Rightarrow> int \<Rightarrow> pickup_order \<Rightarrow> bool" where
  "counts_for employeeId day o' \<longleftrightarrow> po_employeeId o' = employeeId \<and> po_status o' \<noteq> Cancelled \<and> po_reason o' \<noteq> Writeoff
     \<and> utc_day (po_createdAt o') = day"

definition count_taken_today :: "pickup_db \<Rightarrow> jstring \<Rightarrow> int \<Rightarrow> nat" where
  "count_taken_today db employeeId now = length (counted_items db (counts_for employeeId (utc_day now)))"

text \<open>\<open>takenTodayElsewhereByEmployee\<close> at one employee: what the other kiosks contribute.\<close>

definition taken_elsewhere :: "pickup_db \<Rightarrow> jstring \<Rightarrow> int \<Rightarrow> jstring \<Rightarrow> nat" where
  "taken_elsewhere db kioskId now employeeId =
     length (counted_items db (\<lambda>o'. counts_for employeeId (utc_day now) o' \<and> po_kioskId o' \<noteq> kioskId))"

subsection \<open>The order transaction\<close>

record order_request =
  oq_kioskId :: jstring
  oq_dto :: order_dto
  oq_orderId :: "nat \<Rightarrow> jstring"
  oq_boxRowId :: "nat \<Rightarrow> jstring \<Rightarrow> jstring"

definition oq_seq :: "order_request \<Rightarrow> int" where
  "oq_seq rq = od_deviceSeq (oq_dto rq)"

definition oq_items :: "order_request \<Rightarrow> jstring list" where
  "oq_items rq = fst (kioskOrderProcessingLines (oq_dto rq))"

definition oq_boxes :: "order_request \<Rightarrow> jstring list" where
  "oq_boxes rq = fst (snd (kioskOrderProcessingLines (oq_dto rq)))"

definition vNext :: "order_request \<Rightarrow> bool" where
  "vNext rq = snd (snd (kioskOrderProcessingLines (oq_dto rq)))"

record order_job =
  jb_employeeId :: jstring
  jb_writeoffReasonId :: "jstring option"
  jb_when :: int
  jb_attempt :: nat
  jb_maxAttempts :: nat
  jb_remaining :: "resolved_item list"
  jb_conflicts :: "(jstring \<times> jstring) list"
  jb_boxes :: "jstring list"
  jb_boxConflicts :: "box_verdict list"

datatype order_plan =
    Plan_winner order_outcome
  | Plan_forbidden
  | Plan_lines limited_lines "(jstring \<times> jstring) list" "box_verdict list"

definition open_keys :: "pickup_db \<Rightarrow> jstring list" where
  "open_keys db = map oi_kmKey (filter (\<lambda>i. \<not> oi_voided i) (pk_items db))"

definition findSerializedKioskWinner :: "server_host \<Rightarrow> pickup_db \<Rightarrow> order_request \<Rightarrow> order_outcome option" where
  "findSerializedKioskWinner h db rq =
     (case findOrderOutcome h db (oq_kioskId rq) (oq_seq rq) of
        Some order \<Rightarrow> Some order
      | None \<Rightarrow> if vNext rq then findRejectionOutcome db (oq_kioskId rq) (oq_seq rq) else None)"

definition decide_lines :: "pickup_db \<Rightarrow> order_request \<Rightarrow> order_job \<Rightarrow> live_policy \<Rightarrow> resolved_box list \<Rightarrow> box_verdict list \<Rightarrow> order_plan" where
  "decide_lines db rq jb policy boxes conflicts =
     (let keysToCheck = map li_kmKey (jb_remaining jb) @ concat (map (\<lambda>b. map om_kmKey (ox_members b)) boxes);
          usedKeys = set (filter (\<lambda>k. k \<in> set keysToCheck) (open_keys db));
          uniqueLoose = filter (\<lambda>i. li_kmKey i \<notin> usedKeys) (jb_remaining jb);
          duplicates = map (\<lambda>i. (li_rawKm i, lit ''duplicate'')) (filter (\<lambda>i. li_kmKey i \<in> usedKeys) (jb_remaining jb));
          (free, taken) = classifyResolvedBoxConflicts (li_kmKey ` set uniqueLoose \<union> usedKeys) boxes;
          isWriteoff = (od_reason (oq_dto rq) = Writeoff);
          existingCount = (if isWriteoff then 0 else count_taken_today db (jb_employeeId jb) (jb_when jb));
          split = applyOrderLineLimit existingCount (lv_dayLimit policy) (lv_limited policy \<and> \<not> isWriteoff) uniqueLoose free
      in Plan_lines split (jb_conflicts jb @ duplicates @ ls_looseConflicts split) (jb_boxConflicts jb @ conflicts @ taken @ ls_boxConflicts split))"

definition decide :: "server_host \<Rightarrow> pickup_db \<Rightarrow> order_request \<Rightarrow> order_job \<Rightarrow> api_error + order_plan" where
  "decide h db rq jb =
     (case findSerializedKioskWinner h db rq of
        Some winner \<Rightarrow> Inr (Plan_winner winner)
      | None \<Rightarrow>
          (case resolveLivePickupPolicy db (jb_employeeId jb) of
             Inl e \<Rightarrow> Inl e
           | Inr policy \<Rightarrow>
               if od_reason (oq_dto rq) = Writeoff \<and> \<not> lv_canWriteoff policy then Inr Plan_forbidden
               else (case resolveOrderBoxes (pk_registry db) (jb_boxes jb) of
                       Inl e \<Rightarrow> Inl e
                     | Inr (boxes, conflicts) \<Rightarrow> Inr (decide_lines db rq jb policy boxes conflicts))))"

definition accepted_bottles_of :: "limited_lines \<Rightarrow> nat" where
  "accepted_bottles_of split = length (ls_acceptedLoose split) + sum_list (map ox_bottleCount (ls_acceptedBoxes split))"

definition rejection_row :: "order_request \<Rightarrow> order_job \<Rightarrow> jstring option \<Rightarrow> stored_conflict list \<Rightarrow> scan_rejection" where
  "rejection_row rq jb orderId codes =
     \<lparr>sr_kioskId = oq_kioskId rq, sr_employeeId = Some (jb_employeeId jb), sr_badgeCode = None, sr_orderId = orderId,
      sr_deviceSeq = oq_seq rq, sr_codes = codes, sr_scannedAt = jb_when jb\<rparr>"

definition vnext_marker :: "order_request \<Rightarrow> string \<Rightarrow> stored_conflict list" where
  "vnext_marker rq terminalReason = (if vNext rq then kioskOrderRequestMarker (Some (oq_boxes rq)) (lit terminalReason) else [])"

definition loose_row :: "jstring \<Rightarrow> int \<Rightarrow> resolved_item \<Rightarrow> order_item" where
  "loose_row orderId at i =
     \<lparr>oi_orderId = orderId, oi_orderBoxId = None, oi_productId = li_productId i, oi_gtin14 = li_gtin14 i, oi_serial = li_serial i,
      oi_rawKm = li_rawKm i, oi_kmKey = li_kmKey i, oi_unitPrice = li_unitPrice i, oi_voided = False, oi_scannedAt = at\<rparr>"

definition member_row :: "jstring \<Rightarrow> jstring \<Rightarrow> int \<Rightarrow> resolved_box \<Rightarrow> order_member \<Rightarrow> order_item" where
  "member_row orderId orderBoxId at box m =
     \<lparr>oi_orderId = orderId, oi_orderBoxId = Some orderBoxId, oi_productId = ox_productId box, oi_gtin14 = om_gtin14 m, oi_serial = om_serial m,
      oi_rawKm = om_rawKm m, oi_kmKey = om_kmKey m, oi_unitPrice = ox_unitPrice box, oi_voided = False, oi_scannedAt = at\<rparr>"

definition item_rows :: "jstring \<Rightarrow> (jstring \<Rightarrow> jstring) \<Rightarrow> int \<Rightarrow> limited_lines \<Rightarrow> order_item list" where
  "item_rows orderId boxRowId at split = map (loose_row orderId at) (ls_acceptedLoose split)
     @ concat (map (\<lambda>b. map (member_row orderId (boxRowId (ox_boxId b)) at b) (ox_members b)) (ls_acceptedBoxes split))"

definition box_row_of :: "jstring \<Rightarrow> (jstring \<Rightarrow> jstring) \<Rightarrow> resolved_box \<Rightarrow> order_box" where
  "box_row_of orderId boxRowId b = \<lparr>ob_id = boxRowId (ox_boxId b), ob_orderId = orderId, ob_boxId = ox_boxId b, ob_sscc = ox_sscc b,
     ob_productId = ox_productId b, ob_bottleCount = ox_bottleCount b, ob_unitPrice = ox_unitPrice b\<rparr>"

definition nextOrderNo :: "server_host \<Rightarrow> pickup_db \<Rightarrow> int \<Rightarrow> pickup_db \<times> jstring" where
  "nextOrderNo h db now =
     (let seq = (case pk_counter db of None \<Rightarrow> 1 | Some n \<Rightarrow> n + 1) in (db\<lparr>pk_counter := Some seq\<rparr>, formatOrderNo (sv_year h) seq now))"

definition order_row :: "order_request \<Rightarrow> order_job \<Rightarrow> limited_lines \<Rightarrow> stored_conflict list \<Rightarrow> jstring \<Rightarrow> pickup_order" where
  "order_row rq jb split stored orderNo =
     \<lparr>po_id = oq_orderId rq (jb_attempt jb), po_orderNo = orderNo, po_kioskId = oq_kioskId rq, po_employeeId = jb_employeeId jb,
      po_reason = od_reason (oq_dto rq), po_writeoffReasonId = jb_writeoffReasonId jb, po_status = Pending,
      po_itemCount = accepted_bottles_of split,
      po_totalPrice = computeTotalPrice (map li_unitPrice (ls_acceptedLoose split)
        @ concat (map (\<lambda>b. map (\<lambda>_. ox_unitPrice b) (ox_members b)) (ls_acceptedBoxes split))),
      po_receiptNo = None, po_actNo = None, po_deviceSeq = oq_seq rq, po_syncConflicts = (if stored = [] then None else Some stored),
      po_createdAt = jb_when jb, po_resolvedAt = None, po_resolvedByUserId = None\<rparr>"

text \<open>The violations of a unique index the writes can meet.\<close>

datatype write_failure = Device_seq_race | Km_key_race | Other_violation

definition insert_order ::
    "server_host \<Rightarrow> pickup_db \<Rightarrow> order_request \<Rightarrow> order_job \<Rightarrow> limited_lines \<Rightarrow> stored_conflict list \<Rightarrow> write_failure + pickup_db \<times> pickup_order" where
  "insert_order h db rq jb split stored =
     (let (db', orderNo) = nextOrderNo h db (jb_when jb);
          row = order_row rq jb split stored orderNo;
          boxes = map (box_row_of (po_id row) (oq_boxRowId rq (jb_attempt jb))) (ls_acceptedBoxes split);
          items = item_rows (po_id row) (oq_boxRowId rq (jb_attempt jb)) (jb_when jb) split
      in if list_ex (\<lambda>o'. po_kioskId o' = po_kioskId row \<and> po_deviceSeq o' = po_deviceSeq row) (pk_orders db) then Inl Device_seq_race
         else if list_ex (\<lambda>o'. po_id o' = po_id row \<or> po_orderNo o' = orderNo) (pk_orders db) then Inl Other_violation
         else if \<not> distinct (map ob_id boxes) \<or> list_ex (\<lambda>b. ob_id b \<in> ob_id ` set boxes) (pk_orderBoxes db) then Inl Other_violation
         else if \<not> distinct (open_keys db @ map oi_kmKey items) then Inl Km_key_race
         else Inr (db'\<lparr>pk_orders := pk_orders db @ [row], pk_orderBoxes := pk_orderBoxes db @ boxes, pk_items := pk_items db @ items\<rparr>, row))"

definition apply_plan :: "server_host \<Rightarrow> pickup_db \<Rightarrow> order_request \<Rightarrow> order_job \<Rightarrow> order_plan \<Rightarrow> write_failure + pickup_db \<times> order_outcome" where
  "apply_plan h db rq jb plan =
     (let consume = (\<lambda>d. consumeKioskAdmission d (oq_kioskId rq) (oq_seq rq));
          nothing = \<lparr>ou_orderNo = [], ou_itemCount = 0, ou_conflicts = [], ou_boxConflicts = [], ou_acceptedBoxes = [], ou_rejected = False,
                     ou_terminalReason = None, ou_writeoffForbidden = False\<rparr>
      in case plan of
           Plan_winner winner \<Rightarrow> Inr (consume db, winner)
         | Plan_forbidden \<Rightarrow>
             (let codes = map (\<lambda>raw. Stored_loose raw (lit ''writeoff_forbidden'')) (oq_items rq)
                    @ map (\<lambda>s. Stored_box (box_refusal s None (lit ''writeoff_forbidden''))) (oq_boxes rq) @ vnext_marker rq ''writeoff_forbidden''
              in Inr (consume (if oq_items rq @ oq_boxes rq \<noteq> [] then recordScanRejection db (rejection_row rq jb None codes) else db),
                      nothing\<lparr>ou_writeoffForbidden := True\<rparr>))
         | Plan_lines split conflicts boxConflicts \<Rightarrow>
             (let stored = joinStoredConflicts conflicts boxConflicts
              in if accepted_bottles_of split = 0 \<and> oq_items rq @ oq_boxes rq \<noteq> []
                 then Inr (consume (recordScanRejection db (rejection_row rq jb None (stored @ vnext_marker rq ''order_rejected''))),
                           nothing\<lparr>ou_conflicts := conflicts, ou_boxConflicts := boxConflicts, ou_rejected := vNext rq\<rparr>)
                 else (case insert_order h db rq jb split stored of
                         Inl e \<Rightarrow> Inl e
                       | Inr (db', row) \<Rightarrow>
                           Inr (consume (if stored \<noteq> [] then recordScanRejection db' (rejection_row rq jb (Some (po_id row)) stored) else db'),
                                nothing\<lparr>ou_orderNo := po_orderNo row, ou_itemCount := po_itemCount row, ou_conflicts := conflicts,
                                        ou_boxConflicts := boxConflicts,
                                        ou_acceptedBoxes := by_sscc h (map (\<lambda>b. (ox_sscc b, int (ox_bottleCount b))) (ls_acceptedBoxes split))\<rparr>))))"

definition finish_order :: "order_outcome \<Rightarrow> api_error + order_result" where
  "finish_order outcome = (if ou_writeoffForbidden outcome then Inl writeoff_forbidden else kioskResultFromOutcome outcome)"

subsection \<open>A request\<close>

text \<open>Whether the subscription lets work in, as \<open>resolveRecovery\<close> answers: write access, or read-only with or without a subscription.\<close>

datatype recovery_access = Write_access | Read_only bool

datatype order_pc =
    Q_start
  | Q_consume order_outcome
  | Q_rejection
  | Q_access
  | Q_employee int
  | Q_audit int
  | Q_reason int jstring
  | Q_early scan_rejection bool api_error
  | Q_items int jstring "jstring option"
  | Q_wait order_job
  | Q_decide order_job
  | Q_commit order_job order_plan
  | Q_race order_job limited_lines
  | Q_lost
  | Q_done "api_error + order_result"

definition early_row :: "order_request \<Rightarrow> int \<Rightarrow> jstring option \<Rightarrow> jstring option \<Rightarrow> string \<Rightarrow> scan_rejection" where
  "early_row rq now employeeId badgeCode reason =
     \<lparr>sr_kioskId = oq_kioskId rq, sr_employeeId = employeeId, sr_badgeCode = badgeCode, sr_orderId = None, sr_deviceSeq = oq_seq rq,
      sr_codes = auditSubmittedLines (oq_dto rq) (lit reason), sr_scannedAt = now\<rparr>"

definition access_step :: "server_host \<Rightarrow> pickup_db \<Rightarrow> order_request \<Rightarrow> recovery_access \<Rightarrow> int \<Rightarrow> order_pc" where
  "access_step h db rq access serverNow =
     (case access of
        Write_access \<Rightarrow> Q_employee (resolveScanTime (sv_parse h) (od_createdAt (oq_dto rq)) serverNow)
      | Read_only subscription \<Rightarrow>
          (case (od_createdAt (oq_dto rq), od_admissionProof (oq_dto rq)) of
             (Some createdAt, Some proof) \<Rightarrow>
               if \<not> subscription \<or> createdAt = [] \<or> proof = [] then Q_done (Inl subscription_read_only)
               else (case List.find (\<lambda>a. am_kioskId a = oq_kioskId rq \<and> am_deviceSeq a = oq_seq rq \<and> am_tokenHash a = sv_tokenHash h proof
                           \<and> am_payloadDigest a = sv_digest h (canonicalKioskOrderContent (oq_dto rq)) \<and> Some (am_claimedAt a) = sv_parse h createdAt)
                         (pk_admissions db) of
                       None \<Rightarrow> Q_done (Inl subscription_read_only)
                     | Some a \<Rightarrow> Q_employee (am_claimedAt a))
           | _ \<Rightarrow> Q_done (Inl subscription_read_only)))"

definition has_lines :: "order_request \<Rightarrow> bool" where
  "has_lines rq \<longleftrightarrow> oq_items rq @ oq_boxes rq \<noteq> []"

definition race_step :: "pickup_db \<Rightarrow> order_job \<Rightarrow> limited_lines \<Rightarrow> order_pc" where
  "race_step db jb split =
     (let keys = map li_kmKey (ls_acceptedLoose split) @ concat (map (\<lambda>b. map om_kmKey (ox_members b)) (ls_acceptedBoxes split));
          conflictingKeys = set (filter (\<lambda>k. k \<in> set keys) (open_keys db))
      in if conflictingKeys = {} then Q_done (Inl (internal_error ''Internal server error''))
         else case reclassifyOrderKmKeyRace (jb_remaining jb) (jb_boxes jb) (ls_acceptedBoxes split) conflictingKeys of
                ((loose, conflicts), (boxes, boxConflicts)) \<Rightarrow>
                  if jb_attempt jb + 1 < jb_maxAttempts jb
                  then Q_wait (jb\<lparr>jb_attempt := jb_attempt jb + 1, jb_remaining := loose, jb_conflicts := jb_conflicts jb @ conflicts,
                                  jb_boxes := boxes, jb_boxConflicts := jb_boxConflicts jb @ boxConflicts\<rparr>)
                  else Q_done (Inl retry_exhausted))"

text \<open>One statement of a request: \<open>lock\<close> names the request whose transaction is open, and its kiosk; a request that has to
  wait stays where it is.\<close>

type_synonym order_lock = "(nat \<times> jstring) option"

fun request_step ::
    "server_host \<Rightarrow> recovery_access \<Rightarrow> int \<Rightarrow> nat \<Rightarrow> order_request \<Rightarrow> pickup_db \<Rightarrow> order_lock \<Rightarrow> order_pc \<Rightarrow> pickup_db \<times> order_lock \<times> order_pc" where
  "request_step h access now me rq db lock Q_start =
     (db, lock, (case findOrderOutcome h db (oq_kioskId rq) (oq_seq rq) of
        Some existing \<Rightarrow> Q_consume existing | None \<Rightarrow> if vNext rq then Q_rejection else Q_access))"
| "request_step h access now me rq db lock (Q_consume outcome) =
     (consumeKioskAdmission db (oq_kioskId rq) (oq_seq rq), lock, Q_done (kioskResultFromOutcome outcome))"
| "request_step h access now me rq db lock Q_rejection =
     (db, lock, (case findRejectionOutcome db (oq_kioskId rq) (oq_seq rq) of
        Some rejection \<Rightarrow> Q_done (Inl (throwPersistedKioskRejection rejection)) | None \<Rightarrow> Q_access))"
| "request_step h access now me rq db lock Q_access = (db, lock, access_step h db rq access now)"
| "request_step h access now me rq db lock (Q_employee at) =
     (db, lock, (case resolveActiveEmployee db (oq_dto rq) of
        Inl e \<Rightarrow> Q_done (Inl e)
      | Inr None \<Rightarrow> Q_audit at
      | Inr (Some (employeeId, policy)) \<Rightarrow>
          if od_reason (oq_dto rq) = Writeoff \<and> \<not> lv_canWriteoff policy
          then Q_early (early_row rq at (Some employeeId) None ''writeoff_forbidden'') True writeoff_forbidden
          else Q_reason at employeeId))"
| "request_step h access now me rq db lock (Q_audit at) =
     (db, lock, Q_early (early_row rq at None (if has_lines rq then Some (auditBadgeValue db (oq_dto rq)) else None) ''unknown_badge'')
                  (has_lines rq) unknown_badge)"
| "request_step h access now me rq db lock (Q_reason at employeeId) =
     (db, lock, (case resolveWriteoffReasonId db (oq_dto rq) of
        Inl e \<Rightarrow> Q_early (early_row rq at (Some employeeId) None
                   (if od_writeoffReasonId (oq_dto rq) = None \<or> od_writeoffReasonId (oq_dto rq) = Some [] then ''writeoff_reason_required''
                    else ''unknown_reason'')) True e
      | Inr reasonId \<Rightarrow> Q_items at employeeId reasonId))"
| "request_step h access now me rq db lock (Q_early row hasLines e) =
     (if \<not> vNext rq then (persistLegacyEarlyRejection db row hasLines, lock, Q_done (Inl e))
      else if map_option snd lock = Some (oq_kioskId rq) then (db, lock, Q_early row hasLines e)
      else case persistSerializedEarlyRejection h db row hasLines of
             (db', winner) \<Rightarrow> (db', lock, Q_done (case winner of Some w \<Rightarrow> kioskResultFromOutcome w | None \<Rightarrow> Inl e)))"
| "request_step h access now me rq db lock (Q_items at employeeId reasonId) =
     (db, lock, (case resolveItems db (oq_kioskId rq) (oq_items rq) of (conflicts, candidates) \<Rightarrow>
        Q_wait \<lparr>jb_employeeId = employeeId, jb_writeoffReasonId = reasonId, jb_when = at, jb_attempt = 0,
                jb_maxAttempts = length candidates + length (oq_boxes rq) + 1, jb_remaining = candidates, jb_conflicts = conflicts,
                jb_boxes = oq_boxes rq, jb_boxConflicts = []\<rparr>))"
| "request_step h access now me rq db lock (Q_wait jb) =
     (if lock = None then (db, Some (me, oq_kioskId rq), Q_decide jb) else (db, lock, Q_wait jb))"
| "request_step h access now me rq db lock (Q_decide jb) =
     (case decide h db rq jb of
        Inl e \<Rightarrow> (db, None, Q_done (Inl e))
      | Inr plan \<Rightarrow> (db, lock, Q_commit jb plan))"
| "request_step h access now me rq db lock (Q_commit jb plan) =
     (case apply_plan h db rq jb plan of
        Inr (db', outcome) \<Rightarrow> (db', None, Q_done (finish_order outcome))
      | Inl Device_seq_race \<Rightarrow> (db, None, Q_lost)
      | Inl Km_key_race \<Rightarrow> (db, None, (case plan of Plan_lines split _ _ \<Rightarrow> Q_race jb split | _ \<Rightarrow> Q_done (Inl (internal_error ''Internal server error''))))
      | Inl Other_violation \<Rightarrow> (db, None, Q_done (Inl (internal_error ''Internal server error''))))"
| "request_step h access now me rq db lock (Q_race jb split) = (db, lock, race_step db jb split)"
| "request_step h access now me rq db lock Q_lost =
     (db, lock, (case findOrderOutcome h db (oq_kioskId rq) (oq_seq rq) of
        Some winner \<Rightarrow> Q_consume winner | None \<Rightarrow> Q_done (Inl (internal_error ''Internal server error''))))"
| "request_step h access now me rq db lock (Q_done r) = (db, lock, Q_done r)"

subsection \<open>Resolving and cancelling\<close>

definition set_order :: "pickup_db \<Rightarrow> jstring \<Rightarrow> (pickup_order \<Rightarrow> pickup_order) \<Rightarrow> pickup_db" where
  "set_order db orderId f = db\<lparr>pk_orders := map (\<lambda>o'. if po_id o' = orderId \<and> po_status o' = Pending then f o' else o') (pk_orders db)\<rparr>"

definition void_items :: "pickup_db \<Rightarrow> jstring \<Rightarrow> pickup_db" where
  "void_items db orderId = db\<lparr>pk_items := map (\<lambda>i. if oi_orderId i = orderId then i\<lparr>oi_voided := True\<rparr> else i) (pk_items db)\<rparr>"

definition find_row :: "pickup_db \<Rightarrow> jstring \<Rightarrow> pickup_order option" where
  "find_row db orderId = List.find (\<lambda>o'. po_id o' = orderId) (pk_orders db)"

datatype resolve_action = Punch "jstring option" | Write_off "jstring option" "jstring option"

definition not_pending :: api_error where
  "not_pending = refusal 409 None (lit ''Order can only be resolved while pending'')"

definition resolve_order :: "pickup_db \<Rightarrow> jstring \<Rightarrow> resolve_action \<Rightarrow> jstring \<Rightarrow> int \<Rightarrow> api_error + pickup_db" where
  "resolve_order db orderId action userId now =
     (case find_row db orderId of
        None \<Rightarrow> Inl (refusal 404 None [])
      | Some current \<Rightarrow>
          if po_status current \<noteq> Pending then Inl not_pending
          else case action of
            Punch receiptNo \<Rightarrow>
              Inr (set_order db orderId (\<lambda>o'. o'\<lparr>po_status := Punched, po_receiptNo := receiptNo, po_resolvedAt := Some now, po_resolvedByUserId := Some userId\<rparr>))
          | Write_off reasonId actNo \<Rightarrow>
              (case (case reasonId of Some r \<Rightarrow> Some r | None \<Rightarrow> po_writeoffReasonId current) of
                 None \<Rightarrow> Inl (refusal 400 None (lit ''writeoffReasonId is required to write off this order''))
               | Some r \<Rightarrow>
                   if reasonId \<noteq> None \<and> (r, False) \<notin> set (pk_reasons db) then Inl (refusal 400 None (lit ''Unknown or archived writeoff reason for this organization''))
                   else Inr (set_order db orderId (\<lambda>o'. o'\<lparr>po_status := Written_off, po_actNo := actNo, po_writeoffReasonId := Some r,
                          po_resolvedAt := Some now, po_resolvedByUserId := Some userId\<rparr>))))"

definition cancel_order :: "pickup_db \<Rightarrow> jstring \<Rightarrow> api_error + pickup_db" where
  "cancel_order db orderId =
     (case find_row db orderId of
        None \<Rightarrow> Inl (refusal 404 None [])
      | Some current \<Rightarrow>
          if po_status current \<noteq> Pending then Inl (refusal 409 None (lit ''Order can only be cancelled while pending''))
          else Inr (void_items (set_order db orderId (\<lambda>o'. o'\<lparr>po_status := Cancelled\<rparr>)) orderId))"

datatype external_outcome = Applied | Not_found | Not_pending | Missing_writeoff_reason

definition applyExternalStatus :: "pickup_db \<Rightarrow> jstring \<Rightarrow> order_status \<Rightarrow> int \<Rightarrow> pickup_db \<times> external_outcome" where
  "applyExternalStatus db orderId mappedStatus now =
     (case find_row db orderId of
        None \<Rightarrow> (db, Not_found)
      | Some current \<Rightarrow>
          if po_status current \<noteq> Pending then (db, Not_pending)
          else if mappedStatus = Cancelled then (void_items (set_order db orderId (\<lambda>o'. o'\<lparr>po_status := Cancelled\<rparr>)) orderId, Applied)
          else if mappedStatus = Written_off \<and> po_writeoffReasonId current = None then (db, Missing_writeoff_reason)
          else (set_order db orderId (\<lambda>o'. o'\<lparr>po_status := mappedStatus, po_resolvedAt := Some now, po_resolvedByUserId := None\<rparr>), Applied))"

end
