(* ===== verification/Pickup_Tables.thy ===== *)
theory Pickup_Tables
  imports Pickup_Orders
begin

text \<open>
  The runs of the server's pickup requests (\<open>Pickup_Orders\<close>) in every interleaving, and the invariants of the tables: what an
  order's rows account for, and what filing, resolving and cancelling an order and changing the master
  data do to them.
\<close>

section \<open>Runs\<close>

text \<open>The bound of each employee whose allowance is watched: as long as the policies in force respect it.\<close>

definition policies_ok :: "(jstring \<rightharpoonup> nat) \<Rightarrow> pickup_db \<Rightarrow> bool" where
  "policies_ok lim db \<longleftrightarrow> (\<forall>e n. lim e = Some n \<longrightarrow> pk_limitsEnabled db = Some True
     \<and> (\<forall>p\<in>set (pk_policies db). pp_employeeId p = e \<longrightarrow> pp_limited p \<and> pp_dayLimit p \<le> n))"

definition same_orders :: "pickup_db \<Rightarrow> pickup_db \<Rightarrow> bool" where
  "same_orders db db' \<longleftrightarrow> pk_orders db' = pk_orders db \<and> pk_orderBoxes db' = pk_orderBoxes db \<and> pk_items db' = pk_items db
     \<and> pk_counter db' = pk_counter db"

text \<open>A device files one content under one of its numbers.\<close>

definition faithful :: "(jstring \<Rightarrow> int \<Rightarrow> order_content) \<Rightarrow> order_request \<Rightarrow> bool" where
  "faithful body rq \<longleftrightarrow> createOrderSchema (oq_dto rq) \<and> canonicalKioskOrderContent (oq_dto rq) = body (oq_kioskId rq) (oq_seq rq)"

inductive pickup_run ::
    "server_host \<Rightarrow> (jstring \<rightharpoonup> nat) \<Rightarrow> (jstring \<Rightarrow> int \<Rightarrow> order_content) \<Rightarrow> pickup_db \<Rightarrow> order_lock \<Rightarrow> (order_request \<times> order_pc) list \<Rightarrow> bool"
  for h :: server_host and lim :: "jstring \<rightharpoonup> nat" and body :: "jstring \<Rightarrow> int \<Rightarrow> order_content" where
  start: "policies_ok lim db \<Longrightarrow> pk_orders db = [] \<Longrightarrow> pk_orderBoxes db = [] \<Longrightarrow> pk_items db = [] \<Longrightarrow> pk_rejections db = []
     \<Longrightarrow> pickup_run h lim body db None []"
| request: "pickup_run h lim body db lock ss \<Longrightarrow> faithful body rq \<Longrightarrow> pickup_run h lim body db lock (ss @ [(rq, Q_start)])"
| progress: "pickup_run h lim body db lock ss \<Longrightarrow> i < length ss \<Longrightarrow> ss ! i = (rq, pc)
     \<Longrightarrow> request_step h access now i rq db lock pc = (db', lock', pc') \<Longrightarrow> pickup_run h lim body db' lock' (ss[i := (rq, pc')])"
| die: "pickup_run h lim body db lock ss \<Longrightarrow> i < length ss \<Longrightarrow> ss ! i = (rq, pc)
     \<Longrightarrow> pickup_run h lim body db (if map_option fst lock = Some i then None else lock) (ss[i := (rq, Q_done (Inl (internal_error ''Internal server error'')))])"
| reserve: "pickup_run h lim body db lock ss \<Longrightarrow> attestKioskOrder h db kioskId dto now access token = Inr (db', a) \<Longrightarrow> pickup_run h lim body db' lock ss"
| resolve: "pickup_run h lim body db lock ss \<Longrightarrow> resolve_order db orderId action userId now = Inr db' \<Longrightarrow> pickup_run h lim body db' lock ss"
| cancel: "pickup_run h lim body db lock ss \<Longrightarrow> cancel_order db orderId = Inr db' \<Longrightarrow> pickup_run h lim body db' lock ss"
| external: "pickup_run h lim body db lock ss \<Longrightarrow> status \<noteq> Pending \<Longrightarrow> applyExternalStatus db orderId status now = (db', r) \<Longrightarrow> pickup_run h lim body db' lock ss"
| master_data: "pickup_run h lim body db lock ss \<Longrightarrow> same_orders db db' \<Longrightarrow> pk_rejections db' = pk_rejections db \<Longrightarrow> pk_admissions db' = pk_admissions db
     \<Longrightarrow> policies_ok lim db' \<Longrightarrow> pickup_run h lim body db' lock ss"

section \<open>Invariants of the tables\<close>

definition stored_of :: "pickup_order \<Rightarrow> stored_conflict list" where
  "stored_of o' = (case po_syncConflicts o' of Some cs \<Rightarrow> cs | None \<Rightarrow> [])"

definition content_boxes :: "order_content \<Rightarrow> jstring list" where
  "content_boxes c = (case oc_boxes c of None \<Rightarrow> [] | Some bs \<Rightarrow> bs)"

text \<open>Every line of the content is a row of the order or one of its conflicts.\<close>

definition order_ok :: "server_host \<Rightarrow> (jstring \<Rightarrow> int \<Rightarrow> order_content) \<Rightarrow> pickup_db \<Rightarrow> pickup_order \<Rightarrow> bool" where
  "order_ok h body db o' \<longleftrightarrow>
     (\<exists>n m t. pk_counter db = Some m \<and> n \<le> m \<and> po_orderNo o' = formatOrderNo (sv_year h) n t)
     \<and> 0 < po_itemCount o' \<and> po_itemCount o' = length (filter (\<lambda>i. oi_orderId i = po_id o') (pk_items db))
     \<and> mset (oc_items (body (po_kioskId o') (po_deviceSeq o')))
         = mset (map oi_rawKm (filter (\<lambda>i. oi_orderId i = po_id o' \<and> oi_orderBoxId i = None) (pk_items db)))
           + mset (map fst (fst (splitStoredConflicts (stored_of o'))))
     \<and> mset (content_boxes (body (po_kioskId o') (po_deviceSeq o')))
         = mset (map ob_sscc (filter (\<lambda>b. ob_orderId b = po_id o') (pk_orderBoxes db)))
           + mset (map bv_sscc (snd (splitStoredConflicts (stored_of o'))))
     \<and> (\<exists>cs vs. stored_of o' = joinStoredConflicts cs vs \<and> loose_reasons cs \<and> box_reasons vs)"

definition orders_ok :: "server_host \<Rightarrow> (jstring \<Rightarrow> int \<Rightarrow> order_content) \<Rightarrow> pickup_db \<Rightarrow> bool" where
  "orders_ok h body db \<longleftrightarrow> distinct (map po_id (pk_orders db)) \<and> distinct (map (\<lambda>o'. (po_kioskId o', po_deviceSeq o')) (pk_orders db))
     \<and> distinct (open_keys db) \<and> oi_orderId ` set (pk_items db) \<subseteq> po_id ` set (pk_orders db)
     \<and> ob_orderId ` set (pk_orderBoxes db) \<subseteq> po_id ` set (pk_orders db) \<and> (\<forall>o'\<in>set (pk_orders db). order_ok h body db o')"

definition filed_conflicts :: "pickup_db \<Rightarrow> (jstring \<times> int \<times> stored_conflict list) set" where
  "filed_conflicts db = (\<lambda>o'. (po_kioskId o', po_deviceSeq o', stored_of o')) ` set (pk_orders db)"

text \<open>The units an employee took on a day: the open items of the orders bought under that day and not cancelled.\<close>

definition bought_on :: "jstring \<Rightarrow> int \<Rightarrow> pickup_order \<Rightarrow> bool" where
  "bought_on e day o' \<longleftrightarrow> po_employeeId o' = e \<and> po_reason o' = Buy \<and> po_status o' \<noteq> Cancelled \<and> po_createdAt o' div 86400000 = day"

definition taken_on :: "pickup_db \<Rightarrow> jstring \<Rightarrow> int \<Rightarrow> nat" where
  "taken_on db e day = length [i. i \<leftarrow> pk_items db, \<not> oi_voided i, o' \<leftarrow> pk_orders db, po_id o' = oi_orderId i \<and> bought_on e day o']"

lemma counts_for_bought: "counts_for = bought_on"
  by (auto simp: fun_eq_iff counts_for_def bought_on_def utc_day_def intro: pickup_reason.exhaust)

lemma taken_on_counted: "taken_on db e day = length (counted_items db (counts_for e day))"
  by (simp only: taken_on_def counted_items_def counts_for_bought)

definition within_limits :: "(jstring \<rightharpoonup> nat) \<Rightarrow> pickup_db \<Rightarrow> bool" where
  "within_limits lim db \<longleftrightarrow> (\<forall>e n day. lim e = Some n \<longrightarrow> taken_on db e day \<le> n)"

lemma counted_items_alt:
  "counted_items db sel = concat (map (\<lambda>i. if oi_voided i then [] else map (\<lambda>_. i) (filter (\<lambda>o'. po_id o' = oi_orderId i \<and> sel o') (pk_orders db))) (pk_items db))"
proof -
  have "concat (map (\<lambda>o'. if po_id o' = oi_orderId i \<and> sel o' then [i] else []) os) = map (\<lambda>_. i) (filter (\<lambda>o'. po_id o' = oi_orderId i \<and> sel o') os)" for i os
    by (induction os) auto
  then show ?thesis unfolding counted_items_def by (intro arg_cong [of _ _ concat] map_cong) auto
qed

subsection \<open>What leaves the orders alone\<close>

lemma same_orders_refl [simp]: "same_orders db db"
  by (simp add: same_orders_def)

lemma same_orders_trans: "same_orders a b \<Longrightarrow> same_orders b c \<Longrightarrow> same_orders a c"
  by (simp add: same_orders_def)

lemma same_orders_consume [simp]: "same_orders db (consumeKioskAdmission db k q)" "pk_rejections (consumeKioskAdmission db k q) = pk_rejections db"
  by (simp_all add: consumeKioskAdmission_def same_orders_def)

lemma same_orders_record [simp]: "same_orders db (recordScanRejection db row)"
  by (simp add: recordScanRejection_def same_orders_def)

lemma same_orders_facts:
  assumes "same_orders db db'"
  shows "orders_ok h body db' = orders_ok h body db" "taken_on db' = taken_on db" "open_keys db' = open_keys db"
    "findOrderOutcome h db' = findOrderOutcome h db"
  using assms by (auto simp: same_orders_def orders_ok_def order_ok_def open_keys_def taken_on_def counted_items_def findOrderOutcome_def fun_eq_iff cong: if_cong)

subsection \<open>What settles an order\<close>

definition keeps_order :: "pickup_order \<Rightarrow> pickup_order \<Rightarrow> bool" where
  "keeps_order a b \<longleftrightarrow> po_id b = po_id a \<and> po_orderNo b = po_orderNo a \<and> po_kioskId b = po_kioskId a \<and> po_employeeId b = po_employeeId a
     \<and> po_reason b = po_reason a \<and> po_itemCount b = po_itemCount a \<and> po_deviceSeq b = po_deviceSeq a \<and> po_syncConflicts b = po_syncConflicts a
     \<and> po_createdAt b = po_createdAt a \<and> (po_status b \<noteq> Cancelled \<longrightarrow> po_status a \<noteq> Cancelled)"

definition settled :: "pickup_db \<Rightarrow> pickup_db \<Rightarrow> bool" where
  "settled db db' \<longleftrightarrow> (\<exists>f v. db' = db\<lparr>pk_orders := map f (pk_orders db), pk_items := map (\<lambda>i. i\<lparr>oi_voided := oi_voided i \<or> v i\<rparr>) (pk_items db)\<rparr>
     \<and> (\<forall>o'. keeps_order o' (f o')))"

lemma keeps_order_refl [simp]: "keeps_order a a"
  by (simp add: keeps_order_def)

lemma settled_set:
  assumes "\<And>o'. po_status o' = Pending \<Longrightarrow> keeps_order o' (f o')"
  shows "settled db (set_order db orderId f)" "settled db (void_items (set_order db orderId f) orderId)"
proof -
  let ?f = "\<lambda>o'. if po_id o' = orderId \<and> po_status o' = Pending then f o' else o'"
  have k: "\<forall>o'. keeps_order o' (?f o')" using assms by simp
  have i: "map (\<lambda>i. i\<lparr>oi_voided := oi_voided i \<or> False\<rparr>) xs = xs" for xs :: "order_item list"
    by (induction xs) simp_all
  have v: "map (\<lambda>i. if oi_orderId i = orderId then i\<lparr>oi_voided := True\<rparr> else i) xs = map (\<lambda>i. i\<lparr>oi_voided := oi_voided i \<or> oi_orderId i = orderId\<rparr>) xs"
    for xs :: "order_item list"
    by (induction xs) auto
  show "settled db (set_order db orderId f)" unfolding settled_def set_order_def
    using k i by (intro exI [of _ ?f] exI [of _ "\<lambda>_. False"]) simp
  show "settled db (void_items (set_order db orderId f) orderId)" unfolding settled_def set_order_def void_items_def
    using k v by (intro exI [of _ ?f] exI [of _ "\<lambda>i. oi_orderId i = orderId"]) simp
qed

lemma settled_refl [simp]: "settled db db"
  by (rule settled_set(1) [of "\<lambda>o'. o'" db "[]", unfolded set_order_def, simplified])

lemma resolve_settled: "resolve_order db orderId action userId now = Inr db' \<Longrightarrow> settled db db'"
  by (auto simp: resolve_order_def keeps_order_def intro!: settled_set split: option.splits if_splits resolve_action.splits)

lemma cancel_settled: "cancel_order db orderId = Inr db' \<Longrightarrow> settled db db'"
  by (auto simp: cancel_order_def keeps_order_def intro!: settled_set split: option.splits if_splits)

lemma external_settled: "status \<noteq> Pending \<Longrightarrow> applyExternalStatus db orderId status now = (db', r) \<Longrightarrow> settled db db'"
  by (auto simp: applyExternalStatus_def keeps_order_def intro!: settled_set split: option.splits if_splits)

lemma find_map: "(\<And>x. P (f x) = P x) \<Longrightarrow> List.find P (map f xs) = map_option f (List.find P xs)"
  by (induction xs) auto

lemma settled_elim:
  assumes "settled db db'"
  obtains f v where "db' = db\<lparr>pk_orders := map f (pk_orders db), pk_items := map (\<lambda>i. i\<lparr>oi_voided := oi_voided i \<or> v i\<rparr>) (pk_items db)\<rparr>"
    "\<forall>o'. keeps_order o' (f o')"
  using assms by (auto simp: settled_def)

lemma settled_facts:
  assumes "settled db db'"
  shows "findOrderOutcome h db' = findOrderOutcome h db" "pk_rejections db' = pk_rejections db" "policies_ok lim db' = policies_ok lim db"
    "(\<lambda>o'. (po_kioskId o', po_deviceSeq o')) ` set (pk_orders db') = (\<lambda>o'. (po_kioskId o', po_deviceSeq o')) ` set (pk_orders db)"
    "filed_conflicts db' = filed_conflicts db"
proof -
  obtain f v where d: "db' = db\<lparr>pk_orders := map f (pk_orders db), pk_items := map (\<lambda>i. i\<lparr>oi_voided := oi_voided i \<or> v i\<rparr>) (pk_items db)\<rparr>"
      and f: "\<forall>o'. keeps_order o' (f o')" by (rule settled_elim [OF assms])
  have p: "po_id (f o') = po_id o'" "po_orderNo (f o') = po_orderNo o'" "po_itemCount (f o') = po_itemCount o'" "po_kioskId (f o') = po_kioskId o'"
      "po_deviceSeq (f o') = po_deviceSeq o'" "po_syncConflicts (f o') = po_syncConflicts o'" for o'
    using f by (auto simp: keeps_order_def)
  show "findOrderOutcome h db' = findOrderOutcome h db"
    unfolding d by (simp add: fun_eq_iff findOrderOutcome_def find_map p option.map_comp comp_def Let_def split_def)
  show "pk_rejections db' = pk_rejections db" "policies_ok lim db' = policies_ok lim db" unfolding d by (simp_all add: policies_ok_def)
  show "(\<lambda>o'. (po_kioskId o', po_deviceSeq o')) ` set (pk_orders db') = (\<lambda>o'. (po_kioskId o', po_deviceSeq o')) ` set (pk_orders db)"
    unfolding d by (simp add: image_image p)
  show "filed_conflicts db' = filed_conflicts db" unfolding d by (simp add: filed_conflicts_def stored_of_def image_image p)
qed

lemma open_keys_voided:
  "distinct (map oi_kmKey (filter (\<lambda>i. \<not> oi_voided i) is))
     \<Longrightarrow> distinct (map oi_kmKey (filter (\<lambda>i. \<not> oi_voided i) (map (\<lambda>i. i\<lparr>oi_voided := oi_voided i \<or> v i\<rparr>) is)))"
  by (induction "is") (auto split: if_splits)

lemma settled_orders_ok:
  assumes "settled db db'" "orders_ok h body db"
  shows "orders_ok h body db'"
proof -
  obtain f v where d: "db' = db\<lparr>pk_orders := map f (pk_orders db), pk_items := map (\<lambda>i. i\<lparr>oi_voided := oi_voided i \<or> v i\<rparr>) (pk_items db)\<rparr>"
      and f: "\<forall>o'. keeps_order o' (f o')" by (rule settled_elim [OF assms(1)])
  have p: "po_id (f o') = po_id o'" "po_orderNo (f o') = po_orderNo o'" "po_itemCount (f o') = po_itemCount o'" "po_kioskId (f o') = po_kioskId o'"
      "po_deviceSeq (f o') = po_deviceSeq o'" "stored_of (f o') = stored_of o'" for o'
    using f by (auto simp: keeps_order_def stored_of_def)
  have o: "order_ok h body db' (f o') = order_ok h body db o'" for o'
    unfolding d by (simp add: order_ok_def p filter_map comp_def)
  have "distinct (open_keys db')"
    using open_keys_voided [of "pk_items db" v] assms(2) unfolding d by (simp add: orders_ok_def open_keys_def)
  moreover have "map po_id (pk_orders db') = map po_id (pk_orders db)" "map (\<lambda>o'. (po_kioskId o', po_deviceSeq o')) (pk_orders db')
      = map (\<lambda>o'. (po_kioskId o', po_deviceSeq o')) (pk_orders db)" "po_id ` set (pk_orders db') = po_id ` set (pk_orders db)"
      "oi_orderId ` set (pk_items db') = oi_orderId ` set (pk_items db)" "pk_orderBoxes db' = pk_orderBoxes db"
    unfolding d by (simp_all add: p image_image)
  moreover have "\<forall>o'\<in>set (pk_orders db'). order_ok h body db' o'"
  proof
    fix x assume "x \<in> set (pk_orders db')"
    then obtain o' where "x = f o'" "o' \<in> set (pk_orders db)" unfolding d by auto
    then show "order_ok h body db' x" using o assms(2) by (simp add: orders_ok_def)
  qed
  ultimately show ?thesis using assms(2) by (simp add: orders_ok_def)
qed

lemma filter_map_le: "(\<And>x. P (f x) \<Longrightarrow> P x) \<Longrightarrow> length (filter P (map f xs)) \<le> length (filter P xs)"
  by (induction xs) (auto simp: le_SucI)

lemma taken_on_alt:
  "taken_on db e day = sum_list (map (\<lambda>i. if oi_voided i then 0 else length (filter (\<lambda>o'. po_id o' = oi_orderId i \<and> counts_for e day o') (pk_orders db))) (pk_items db))"
  unfolding taken_on_counted counted_items_alt by (simp add: length_concat comp_def if_distrib cong: if_cong)

lemma settled_taken_on:
  assumes "settled db db'"
  shows "taken_on db' e day \<le> taken_on db e day"
proof -
  obtain f v where d: "db' = db\<lparr>pk_orders := map f (pk_orders db), pk_items := map (\<lambda>i. i\<lparr>oi_voided := oi_voided i \<or> v i\<rparr>) (pk_items db)\<rparr>"
      and f: "\<forall>o'. keeps_order o' (f o')" by (rule settled_elim [OF assms])
  have "length (filter (\<lambda>o'. po_id o' = x \<and> counts_for e day o') (map f (pk_orders db)))
      \<le> length (filter (\<lambda>o'. po_id o' = x \<and> counts_for e day o') (pk_orders db))" for x
    using f by (intro filter_map_le) (auto simp: keeps_order_def counts_for_def)
  then show ?thesis unfolding taken_on_alt d by (auto intro!: sum_list_mono simp: comp_def)
qed

subsection \<open>What files an order\<close>

definition new_boxes :: "order_request \<Rightarrow> order_job \<Rightarrow> limited_lines \<Rightarrow> order_box list" where
  "new_boxes rq jb split = map (box_row_of (oq_orderId rq (jb_attempt jb)) (oq_boxRowId rq (jb_attempt jb))) (ls_acceptedBoxes split)"

definition new_items :: "order_request \<Rightarrow> order_job \<Rightarrow> limited_lines \<Rightarrow> order_item list" where
  "new_items rq jb split = item_rows (oq_orderId rq (jb_attempt jb)) (oq_boxRowId rq (jb_attempt jb)) (jb_when jb) split"

lemma insert_order_elim:
  assumes "insert_order h db rq jb split stored = Inr (db', row)"
  obtains n where "row = order_row rq jb split stored (formatOrderNo (sv_year h) n (jb_when jb))"
    "db' = db\<lparr>pk_counter := Some n, pk_orders := pk_orders db @ [row], pk_orderBoxes := pk_orderBoxes db @ new_boxes rq jb split,
      pk_items := pk_items db @ new_items rq jb split\<rparr>"
    "\<forall>m. pk_counter db = Some m \<longrightarrow> m \<le> n" "po_id row \<notin> po_id ` set (pk_orders db)"
    "(oq_kioskId rq, oq_seq rq) \<notin> (\<lambda>o'. (po_kioskId o', po_deviceSeq o')) ` set (pk_orders db)"
    "distinct (open_keys db @ map oi_kmKey (new_items rq jb split))"
proof -
  define n where "n = (case pk_counter db of None \<Rightarrow> 1 | Some n \<Rightarrow> n + 1)"
  define new where "new = order_row rq jb split stored (formatOrderNo (sv_year h) n (jb_when jb))"
  have ids: "po_id new = oq_orderId rq (jb_attempt jb)" "po_kioskId new = oq_kioskId rq" "po_deviceSeq new = oq_seq rq" by (simp_all add: new_def order_row_def)
  have eq: "insert_order h db rq jb split stored =
      (if list_ex (\<lambda>o'. po_kioskId o' = oq_kioskId rq \<and> po_deviceSeq o' = oq_seq rq) (pk_orders db) then Inl Device_seq_race
       else if list_ex (\<lambda>o'. po_id o' = po_id new \<or> po_orderNo o' = formatOrderNo (sv_year h) n (jb_when jb)) (pk_orders db) then Inl Other_violation
       else if \<not> distinct (map ob_id (new_boxes rq jb split)) \<or> list_ex (\<lambda>b. ob_id b \<in> ob_id ` set (new_boxes rq jb split)) (pk_orderBoxes db) then Inl Other_violation
       else if \<not> distinct (open_keys db @ map oi_kmKey (new_items rq jb split)) then Inl Km_key_race
       else Inr (db\<lparr>pk_counter := Some n, pk_orders := pk_orders db @ [new], pk_orderBoxes := pk_orderBoxes db @ new_boxes rq jb split,
         pk_items := pk_items db @ new_items rq jb split\<rparr>, new))"
    unfolding insert_order_def nextOrderNo_def Let_def n_def [symmetric] prod.case new_def [symmetric] ids new_boxes_def new_items_def by simp
  show ?thesis
  proof (rule that)
    show "row = order_row rq jb split stored (formatOrderNo (sv_year h) n (jb_when jb))"
      using assms unfolding eq new_def by (simp split: if_splits)
    show "db' = db\<lparr>pk_counter := Some n, pk_orders := pk_orders db @ [row], pk_orderBoxes := pk_orderBoxes db @ new_boxes rq jb split,
        pk_items := pk_items db @ new_items rq jb split\<rparr>"
      using assms unfolding eq by (auto split: if_splits)
    show "\<forall>m. pk_counter db = Some m \<longrightarrow> m \<le> n" by (simp add: n_def)
    show "po_id row \<notin> po_id ` set (pk_orders db)" using assms unfolding eq by (auto simp: list_ex_iff split: if_splits)
    show "(oq_kioskId rq, oq_seq rq) \<notin> (\<lambda>o'. (po_kioskId o', po_deviceSeq o')) ` set (pk_orders db)"
      using assms unfolding eq by (auto simp: list_ex_iff split: if_splits)
    show "distinct (open_keys db @ map oi_kmKey (new_items rq jb split))" using assms unfolding eq by (simp split: if_splits)
  qed
qed

lemma order_row_simps [simp]:
  "po_id (order_row rq jb split stored no) = oq_orderId rq (jb_attempt jb)" "po_kioskId (order_row rq jb split stored no) = oq_kioskId rq"
  "po_deviceSeq (order_row rq jb split stored no) = oq_seq rq" "po_orderNo (order_row rq jb split stored no) = no"
  "po_itemCount (order_row rq jb split stored no) = accepted_bottles_of split" "stored_of (order_row rq jb split stored no) = stored"
  "counts_for e day (order_row rq jb split stored no) \<longleftrightarrow> jb_employeeId jb = e \<and> od_reason (oq_dto rq) \<noteq> Writeoff \<and> utc_day (jb_when jb) = day"
  by (simp_all add: order_row_def stored_of_def counts_for_def)

lemma new_items_facts:
  "i \<in> set (new_items rq jb split) \<Longrightarrow> oi_orderId i = oq_orderId rq (jb_attempt jb) \<and> \<not> oi_voided i"
  "map oi_rawKm (filter (\<lambda>i. oi_orderBoxId i = None) (new_items rq jb split)) = map li_rawKm (ls_acceptedLoose split)"
proof -
  show "i \<in> set (new_items rq jb split) \<Longrightarrow> oi_orderId i = oq_orderId rq (jb_attempt jb) \<and> \<not> oi_voided i"
    by (auto simp: new_items_def item_rows_def loose_row_def member_row_def)
  have "filter (\<lambda>i. oi_orderBoxId i = None) (concat (map (\<lambda>b. map (member_row x (y b) t b) (ox_members b)) bs)) = []" for x y t bs
    by (auto simp: filter_empty_conv member_row_def)
  moreover have "filter (\<lambda>i. oi_orderBoxId i = None) (map (loose_row x t) ls) = map (loose_row x t) ls" for x t ls
    by (auto simp: filter_id_conv loose_row_def)
  ultimately show "map oi_rawKm (filter (\<lambda>i. oi_orderBoxId i = None) (new_items rq jb split)) = map li_rawKm (ls_acceptedLoose split)"
    by (simp add: new_items_def item_rows_def comp_def) (simp add: loose_row_def)
qed

lemma new_items_length:
  assumes "list_all box_ok (ls_acceptedBoxes split)"
  shows "length (new_items rq jb split) = accepted_bottles_of split"
proof -
  have "sum_list (map (\<lambda>b. length (ox_members b)) bs) = sum_list (map ox_bottleCount bs)" if "list_all box_ok bs" for bs
    using that by (induction bs) (auto simp: box_ok_def)
  then show ?thesis using assms by (simp add: new_items_def item_rows_def accepted_bottles_of_def length_concat comp_def)
qed

lemma new_boxes_facts:
  "b \<in> set (new_boxes rq jb split) \<Longrightarrow> ob_orderId b = oq_orderId rq (jb_attempt jb)"
  "map ob_sscc (new_boxes rq jb split) = map ox_sscc (ls_acceptedBoxes split)"
  "map (\<lambda>b. (ob_sscc b, int (ob_bottleCount b))) (new_boxes rq jb split) = map (\<lambda>b. (ox_sscc b, int (ox_bottleCount b))) (ls_acceptedBoxes split)"
  by (auto simp: new_boxes_def box_row_of_def)

lemma filter_none: "(\<And>x. x \<in> set xs \<Longrightarrow> \<not> P x) \<Longrightarrow> filter P xs = []"
  by (simp add: filter_empty_conv)

lemma faithful_content:
  assumes "faithful body rq"
  shows "oc_items (body (oq_kioskId rq) (oq_seq rq)) = oq_items rq" "content_boxes (body (oq_kioskId rq) (oq_seq rq)) = oq_boxes rq"
    "oc_boxes (body (oq_kioskId rq) (oq_seq rq)) \<noteq> None \<longleftrightarrow> vNext rq" "has_lines rq"
proof -
  have c: "body (oq_kioskId rq) (oq_seq rq) = canonicalKioskOrderContent (oq_dto rq)" using assms by (simp add: faithful_def)
  show "oc_items (body (oq_kioskId rq) (oq_seq rq)) = oq_items rq" "content_boxes (body (oq_kioskId rq) (oq_seq rq)) = oq_boxes rq"
      "oc_boxes (body (oq_kioskId rq) (oq_seq rq)) \<noteq> None \<longleftrightarrow> vNext rq"
    unfolding c by (simp_all add: canonicalKioskOrderContent_def oq_items_def oq_boxes_def vNext_def content_boxes_def kioskOrderProcessingLines_def split: option.split)
  have "od_items (oq_dto rq) @ (case od_boxes (oq_dto rq) of None \<Rightarrow> [] | Some bs \<Rightarrow> bs) \<noteq> []"
    using assms unfolding faithful_def createOrderSchema_def by blast
  moreover have "sort xs = [] \<longleftrightarrow> xs = []" for xs :: "jstring list" by (metis length_sort length_0_conv)
  ultimately show "has_lines rq" by (auto simp: has_lines_def oq_items_def oq_boxes_def kioskOrderProcessingLines_def split: option.splits)
qed

definition lines_ok :: "order_request \<Rightarrow> limited_lines \<Rightarrow> (jstring \<times> jstring) list \<Rightarrow> box_verdict list \<Rightarrow> bool" where
  "lines_ok rq split cs vs \<longleftrightarrow> loose_reasons cs \<and> box_reasons vs \<and> list_all box_ok (ls_acceptedBoxes split)
     \<and> mset (oq_items rq) = mset (map li_rawKm (ls_acceptedLoose split)) + mset (map fst cs)
     \<and> mset (oq_boxes rq) = mset (map ox_sscc (ls_acceptedBoxes split)) + mset (map bv_sscc vs)"

lemma lines_ok_split: "lines_ok rq split cs vs \<Longrightarrow> splitStoredConflicts (joinStoredConflicts cs vs) = (cs, vs)"
  using split_join [of cs vs "[]"] by (simp add: lines_ok_def)

lemma insert_orders_ok:
  assumes ins: "insert_order h db rq jb split (joinStoredConflicts cs vs) = Inr (db', row)" and ok: "orders_ok h body db"
    and f: "faithful body rq" and l: "lines_ok rq split cs vs" and pos: "0 < accepted_bottles_of split"
  shows "orders_ok h body db'"
proof -
  let ?row = "\<lambda>n. order_row rq jb split (joinStoredConflicts cs vs) (formatOrderNo (sv_year h) n (jb_when jb))"
  let ?id = "oq_orderId rq (jb_attempt jb)"
  obtain n where row: "row = ?row n" and d: "db' = db\<lparr>pk_counter := Some n, pk_orders := pk_orders db @ [row],
        pk_orderBoxes := pk_orderBoxes db @ new_boxes rq jb split, pk_items := pk_items db @ new_items rq jb split\<rparr>"
      and n: "\<forall>m. pk_counter db = Some m \<longrightarrow> m \<le> n" and fresh: "po_id row \<notin> po_id ` set (pk_orders db)"
        "(oq_kioskId rq, oq_seq rq) \<notin> (\<lambda>o'. (po_kioskId o', po_deviceSeq o')) ` set (pk_orders db)"
      and keys: "distinct (open_keys db @ map oi_kmKey (new_items rq jb split))"
    by (rule insert_order_elim [OF ins])
  have id: "?id \<notin> po_id ` set (pk_orders db)" using fresh(1) row by simp
  have sub: "oi_orderId ` set (pk_items db) \<subseteq> po_id ` set (pk_orders db)" "ob_orderId ` set (pk_orderBoxes db) \<subseteq> po_id ` set (pk_orders db)"
    using ok by (simp_all add: orders_ok_def)
  have old_items: "filter (\<lambda>i. oi_orderId i = ?id \<and> P i) (pk_items db) = []" for P
    using sub(1) id unfolding filter_empty_conv by (metis imageI subsetD)
  have old_boxes: "filter (\<lambda>b. ob_orderId b = ?id) (pk_orderBoxes db) = []"
    using sub(2) id unfolding filter_empty_conv by (metis imageI subsetD)
  have new: "filter (\<lambda>i. oi_orderId i = ?id \<and> P i) (new_items rq jb split) = filter P (new_items rq jb split)"
      "filter (\<lambda>b. ob_orderId b = ?id) (new_boxes rq jb split) = new_boxes rq jb split" for P
    using new_items_facts(1) new_boxes_facts(1) by (auto intro!: filter_cong simp: filter_id_conv)
  have others: "filter (\<lambda>i. oi_orderId i = x \<and> P i) (new_items rq jb split) = []" "filter (\<lambda>b. ob_orderId b = x) (new_boxes rq jb split) = []" if "x \<noteq> ?id" for x P
    using that new_items_facts(1) new_boxes_facts(1) by (auto simp: filter_empty_conv)
  have len: "length (new_items rq jb split) = accepted_bottles_of split" using l by (intro new_items_length) (simp add: lines_ok_def)
  have "\<exists>cs' vs'. joinStoredConflicts cs vs = joinStoredConflicts cs' vs' \<and> loose_reasons cs' \<and> box_reasons vs'"
    using l unfolding lines_ok_def by blast
  then have "order_ok h body db' row"
    using l pos len new_items_facts(2) [of rq jb split] new_boxes_facts(2) [of rq jb split] old_items [of "\<lambda>_. True"] new(1) [of "\<lambda>_. True"] old_boxes
    unfolding d row by (auto simp: order_ok_def faithful_content [OF f] lines_ok_split [OF l] lines_ok_def old_items new)
  moreover have "order_ok h body db' o'" if "o' \<in> set (pk_orders db)" for o'
  proof -
    have "po_id o' \<noteq> ?id" using that id by (metis imageI)
    note ot = others [OF this]
    have same: "filter (\<lambda>i. oi_orderId i = po_id o' \<and> oi_orderBoxId i = None) (pk_items db') = filter (\<lambda>i. oi_orderId i = po_id o' \<and> oi_orderBoxId i = None) (pk_items db)"
        "filter (\<lambda>i. oi_orderId i = po_id o') (pk_items db') = filter (\<lambda>i. oi_orderId i = po_id o') (pk_items db)"
        "filter (\<lambda>b. ob_orderId b = po_id o') (pk_orderBoxes db') = filter (\<lambda>b. ob_orderId b = po_id o') (pk_orderBoxes db)"
      using ot(1) [of "\<lambda>_. True"] by (simp_all add: d ot)
    have o: "order_ok h body db o'" using that ok by (simp add: orders_ok_def)
    then obtain k m t where k: "pk_counter db = Some m" "k \<le> m" "po_orderNo o' = formatOrderNo (sv_year h) k t" unfolding order_ok_def by blast
    have "pk_counter db' = Some n" "k \<le> n" using n k by (auto simp: d)
    then have no: "\<exists>k m t. pk_counter db' = Some m \<and> k \<le> m \<and> po_orderNo o' = formatOrderNo (sv_year h) k t" using k(3) by blast
    show ?thesis using o no unfolding order_ok_def same by blast
  qed
  moreover have "distinct (open_keys db')"
  proof -
    have "filter (\<lambda>i. \<not> oi_voided i) (new_items rq jb split) = new_items rq jb split" using new_items_facts(1) by (auto simp: filter_id_conv)
    then show ?thesis using keys unfolding d by (simp add: open_keys_def)
  qed
  moreover have "oi_orderId ` set (new_items rq jb split) \<subseteq> {po_id row}" "ob_orderId ` set (new_boxes rq jb split) \<subseteq> {po_id row}"
    using new_items_facts(1) new_boxes_facts(1) row by auto
  ultimately show ?thesis using ok fresh row unfolding d orders_ok_def by auto
qed

lemma find_append: "List.find P (xs @ ys) = (case List.find P xs of None \<Rightarrow> List.find P ys | r \<Rightarrow> r)"
  by (induction xs) auto

definition filed :: "server_host \<Rightarrow> order_outcome \<Rightarrow> order_outcome \<Rightarrow> bool" where
  "filed h a b \<longleftrightarrow> ou_orderNo a = ou_orderNo b \<and> ou_itemCount a = ou_itemCount b \<and> ou_conflicts a = ou_conflicts b
     \<and> ou_boxConflicts a = ou_boxConflicts b \<and> mset (ou_acceptedBoxes a) = mset (ou_acceptedBoxes b) \<and> \<not> ou_rejected a \<and> \<not> ou_rejected b"

lemma mset_insert_by [simp]: "mset (insert_by cmp x xs) = add_mset x (mset xs)"
  by (induction xs) auto

lemma mset_by_sscc [simp]: "mset (by_sscc h bs) = mset bs"
  by (induction bs) (simp_all add: by_sscc_def js_sort_def)

definition new_outcome :: "server_host \<Rightarrow> pickup_order \<Rightarrow> limited_lines \<Rightarrow> (jstring \<times> jstring) list \<Rightarrow> box_verdict list \<Rightarrow> order_outcome" where
  "new_outcome h row split cs vs =
     \<lparr>ou_orderNo = po_orderNo row, ou_itemCount = po_itemCount row, ou_conflicts = cs, ou_boxConflicts = vs,
      ou_acceptedBoxes = by_sscc h (map (\<lambda>b. (ox_sscc b, int (ox_bottleCount b))) (ls_acceptedBoxes split)), ou_rejected = False,
      ou_terminalReason = None, ou_writeoffForbidden = False\<rparr>"

lemma insert_outcome:
  assumes ins: "insert_order h db rq jb split (joinStoredConflicts cs vs) = Inr (db', row)" and ok: "orders_ok h body db" and l: "lines_ok rq split cs vs"
  shows "\<exists>w. findOrderOutcome h db' (oq_kioskId rq) (oq_seq rq) = Some w \<and> filed h (new_outcome h row split cs vs) w"
    "(k, q) \<noteq> (oq_kioskId rq, oq_seq rq) \<Longrightarrow> findOrderOutcome h db' k q = findOrderOutcome h db k q"
    "findOrderOutcome h db (oq_kioskId rq) (oq_seq rq) = None" "pk_rejections db' = pk_rejections db" "policies_ok lim db' = policies_ok lim db"
    "(\<lambda>o'. (po_kioskId o', po_deviceSeq o')) ` set (pk_orders db') = insert (oq_kioskId rq, oq_seq rq) ((\<lambda>o'. (po_kioskId o', po_deviceSeq o')) ` set (pk_orders db))"
    "filed_conflicts db' = insert (oq_kioskId rq, oq_seq rq, joinStoredConflicts cs vs) (filed_conflicts db)"
proof -
  let ?row = "\<lambda>n. order_row rq jb split (joinStoredConflicts cs vs) (formatOrderNo (sv_year h) n (jb_when jb))"
  let ?id = "oq_orderId rq (jb_attempt jb)"
  obtain n where row: "row = ?row n" and d: "db' = db\<lparr>pk_counter := Some n, pk_orders := pk_orders db @ [row],
        pk_orderBoxes := pk_orderBoxes db @ new_boxes rq jb split, pk_items := pk_items db @ new_items rq jb split\<rparr>"
      and fresh: "po_id row \<notin> po_id ` set (pk_orders db)" "(oq_kioskId rq, oq_seq rq) \<notin> (\<lambda>o'. (po_kioskId o', po_deviceSeq o')) ` set (pk_orders db)"
    by (rule insert_order_elim [OF ins])
  have id: "?id \<notin> po_id ` set (pk_orders db)" using fresh(1) row by simp
  have sub: "ob_orderId ` set (pk_orderBoxes db) \<subseteq> po_id ` set (pk_orders db)" using ok by (simp add: orders_ok_def)
  have old: "filter (\<lambda>b. ob_orderId b = ?id) (pk_orderBoxes db) = []"
    using sub id unfolding filter_empty_conv by (metis imageI subsetD)
  have new: "filter (\<lambda>b. ob_orderId b = ?id) (new_boxes rq jb split) = new_boxes rq jb split" "x \<noteq> ?id \<Longrightarrow> filter (\<lambda>b. ob_orderId b = x) (new_boxes rq jb split) = []" for x
    using new_boxes_facts(1) by (auto simp: filter_id_conv filter_empty_conv)
  have none: "List.find (\<lambda>o'. po_kioskId o' = oq_kioskId rq \<and> po_deviceSeq o' = oq_seq rq) (pk_orders db) = None"
    using fresh(2) unfolding find_None_iff by (metis (no_types, lifting) image_eqI)
  then show "findOrderOutcome h db (oq_kioskId rq) (oq_seq rq) = None" by (simp add: findOrderOutcome_def)
  have stored: "(case po_syncConflicts row of None \<Rightarrow> [] | Some cs \<Rightarrow> cs) = joinStoredConflicts cs vs" by (simp add: row order_row_def)
  let ?new = "mset (map (\<lambda>b. (ob_sscc b, int (ob_bottleCount b))) (new_boxes rq jb split))"
  have "mset (map (\<lambda>b. (ob_sscc b, int (ob_bottleCount b))) (sort_key ob_id (new_boxes rq jb split))) = ?new" by simp
  then show "\<exists>w. findOrderOutcome h db' (oq_kioskId rq) (oq_seq rq) = Some w \<and> filed h (new_outcome h row split cs vs) w"
    unfolding d using none row stored old new(1) lines_ok_split [OF l] new_boxes_facts(3) [of rq jb split]
    by (simp add: findOrderOutcome_def find_append filed_def new_outcome_def Let_def)
  show "findOrderOutcome h db' k q = findOrderOutcome h db k q" if "(k, q) \<noteq> (oq_kioskId rq, oq_seq rq)"
  proof -
    have "List.find (\<lambda>o'. po_kioskId o' = k \<and> po_deviceSeq o' = q) [row] = None" using that row by auto
    then have f: "List.find (\<lambda>o'. po_kioskId o' = k \<and> po_deviceSeq o' = q) (pk_orders db') = List.find (\<lambda>o'. po_kioskId o' = k \<and> po_deviceSeq o' = q) (pk_orders db)"
      by (simp add: d find_append split: option.split)
    have "filter (\<lambda>b. ob_orderId b = po_id o') (pk_orderBoxes db') = filter (\<lambda>b. ob_orderId b = po_id o') (pk_orderBoxes db)" if "o' \<in> set (pk_orders db)" for o'
    proof -
      have "po_id o' \<noteq> ?id" using that id by (metis imageI)
      then show ?thesis by (simp add: d new(2))
    qed
    then show ?thesis unfolding findOrderOutcome_def f
      by (intro option.map_cong) (auto simp: find_Some_iff)
  qed
  show "pk_rejections db' = pk_rejections db" "policies_ok lim db' = policies_ok lim db" by (simp_all add: d policies_ok_def)
  show "(\<lambda>o'. (po_kioskId o', po_deviceSeq o')) ` set (pk_orders db') = insert (oq_kioskId rq, oq_seq rq) ((\<lambda>o'. (po_kioskId o', po_deviceSeq o')) ` set (pk_orders db))"
    by (simp add: d row)
  show "filed_conflicts db' = insert (oq_kioskId rq, oq_seq rq, joinStoredConflicts cs vs) (filed_conflicts db)" by (simp add: filed_conflicts_def d row)
qed

lemma insert_taken_on:
  assumes ins: "insert_order h db rq jb split (joinStoredConflicts cs vs) = Inr (db', row)" and ok: "orders_ok h body db" and l: "lines_ok rq split cs vs"
  shows "taken_on db' e day = taken_on db e day
    + (if jb_employeeId jb = e \<and> od_reason (oq_dto rq) \<noteq> Writeoff \<and> utc_day (jb_when jb) = day then accepted_bottles_of split else 0)"
proof -
  let ?row = "\<lambda>n. order_row rq jb split (joinStoredConflicts cs vs) (formatOrderNo (sv_year h) n (jb_when jb))"
  let ?id = "oq_orderId rq (jb_attempt jb)"
  obtain n where row: "row = ?row n" and d: "db' = db\<lparr>pk_counter := Some n, pk_orders := pk_orders db @ [row],
        pk_orderBoxes := pk_orderBoxes db @ new_boxes rq jb split, pk_items := pk_items db @ new_items rq jb split\<rparr>"
      and fresh: "po_id row \<notin> po_id ` set (pk_orders db)"
    by (rule insert_order_elim [OF ins])
  have id: "?id \<notin> po_id ` set (pk_orders db)" using fresh row by simp
  have sub: "oi_orderId ` set (pk_items db) \<subseteq> po_id ` set (pk_orders db)" using ok by (simp add: orders_ok_def)
  let ?c = "\<lambda>os i. if oi_voided i then 0 else length (filter (\<lambda>o'. po_id o' = oi_orderId i \<and> counts_for e day o') os)"
  have old: "?c (pk_orders db @ [row]) i = ?c (pk_orders db) i" if "i \<in> set (pk_items db)" for i
  proof -
    have "oi_orderId i \<noteq> ?id" using that sub id by (metis imageI subsetD)
    then show ?thesis by (simp add: row)
  qed
  have new: "?c (pk_orders db @ [row]) i = (if counts_for e day row then 1 else 0)" if "i \<in> set (new_items rq jb split)" for i
  proof -
    have "filter (\<lambda>o'. po_id o' = ?id \<and> counts_for e day o') (pk_orders db) = []" using id unfolding filter_empty_conv by (metis imageI)
    then show ?thesis using new_items_facts(1) [OF that] by (simp add: row)
  qed
  have "taken_on db' e day = sum_list (map (?c (pk_orders db @ [row])) (pk_items db)) + sum_list (map (?c (pk_orders db @ [row])) (new_items rq jb split))"
    by (simp add: taken_on_alt d cong: if_cong)
  also have "map (?c (pk_orders db @ [row])) (pk_items db) = map (?c (pk_orders db)) (pk_items db)" using old by (intro map_cong refl)
  also have "map (?c (pk_orders db @ [row])) (new_items rq jb split) = map (\<lambda>_. if counts_for e day row then 1 else 0) (new_items rq jb split)"
    using new by (intro map_cong refl)
  also have "sum_list (map (\<lambda>_. if counts_for e day row then 1 else 0) (new_items rq jb split)) = (if counts_for e day row then accepted_bottles_of split else 0)"
    using new_items_length [of split rq jb] l by (simp add: sum_list_triv lines_ok_def)
  finally show ?thesis by (simp add: taken_on_alt row)
qed

end
