(* ===== verification/Pickup_Runs.thy ===== *)
theory Pickup_Runs
  imports Pickup_Tables
begin

text \<open>
  What every run of \<open>Pickup_Tables\<close> keeps: the verdicts the tables hold, what each request may rely on at each of its
  statements, and what the requests that hold the locks may rely on while others move. A unit is in one open order at
  most, an order accounts for every line of its body, an employee's daily allowance holds over all kiosks, and any two
  answers that name an order for one number of a kiosk name the same one. For a body of the current format the refusals
  agree as well, up to the refusal that repeats the conflicts of an order with a refused box.
\<close>

section \<open>Invariants of the requests\<close>

subsection \<open>Verdicts\<close>

text \<open>A rejection of a current body carries the marker of its reason, or repeats the conflicts of the order it was written with.\<close>

definition rejection_ok :: "(jstring \<Rightarrow> int \<Rightarrow> order_content) \<Rightarrow> pickup_db \<Rightarrow> scan_rejection \<Rightarrow> bool" where
  "rejection_ok body db r \<longleftrightarrow> (oc_boxes (body (sr_kioskId r) (sr_deviceSeq r)) \<noteq> None \<longrightarrow>
     (sr_kioskId r, sr_deviceSeq r, sr_codes r) \<in> filed_conflicts db
     \<or> request_marker (sr_codes r) \<noteq> None \<and> (sr_kioskId r, sr_deviceSeq r) \<notin> (\<lambda>o'. (po_kioskId o', po_deviceSeq o')) ` set (pk_orders db))"

definition rejections_ok :: "(jstring \<Rightarrow> int \<Rightarrow> order_content) \<Rightarrow> pickup_db \<Rightarrow> bool" where
  "rejections_ok body db \<longleftrightarrow> (\<forall>r\<in>set (pk_rejections db). rejection_ok body db r)"

lemma filed_keys: "(k, q, c) \<in> filed_conflicts db \<Longrightarrow> (k, q) \<in> (\<lambda>o'. (po_kioskId o', po_deviceSeq o')) ` set (pk_orders db)"
  by (auto simp: filed_conflicts_def)

definition lasting :: "server_host \<Rightarrow> (jstring \<Rightarrow> int \<Rightarrow> order_content) \<Rightarrow> pickup_db \<Rightarrow> pickup_db \<Rightarrow> bool" where
  "lasting h body db db' \<longleftrightarrow> (\<forall>rq w. faithful body rq \<longrightarrow> findSerializedKioskWinner h db rq = Some w \<longrightarrow> findSerializedKioskWinner h db' rq = Some w)
     \<and> (\<forall>k q w. findOrderOutcome h db k q = Some w \<longrightarrow> findOrderOutcome h db' k q = Some w)"

lemma lasting_refl [simp]: "lasting h body db db"
  by (simp add: lasting_def)

lemma lasting_trans: "lasting h body a b \<Longrightarrow> lasting h body b c \<Longrightarrow> lasting h body a c"
  by (simp add: lasting_def)

lemma rejection_cong: "pk_rejections db' = pk_rejections db \<Longrightarrow> findRejectionOutcome db' = findRejectionOutcome db"
  by (simp add: findRejectionOutcome_def fun_eq_iff)

lemma lasting_same:
  assumes "findOrderOutcome h db' = findOrderOutcome h db" "pk_rejections db' = pk_rejections db"
  shows "lasting h body db db'"
proof -
  have "findSerializedKioskWinner h db' = findSerializedKioskWinner h db"
    using rejection_cong [OF assms(2)] by (simp add: fun_eq_iff findSerializedKioskWinner_def assms(1) split: option.split)
  then show ?thesis by (simp add: lasting_def assms(1))
qed

lemma record_rejection_lasting:
  "findRejectionOutcome db k q = Some w \<Longrightarrow> findRejectionOutcome (recordScanRejection db row) k q = Some w"
  by (auto simp: findRejectionOutcome_def recordScanRejection_def find_append split: bind_splits option.splits)

lemma lasting_record [simp]: "lasting h body db (recordScanRejection db row)"
proof -
  have "findOrderOutcome h (recordScanRejection db row) = findOrderOutcome h db" by (rule same_orders_facts(4)) simp
  then show ?thesis using record_rejection_lasting by (auto simp: lasting_def findSerializedKioskWinner_def split: option.splits if_splits)
qed

lemma lasting_consume [simp]: "lasting h body db (consumeKioskAdmission db k q)"
  by (rule lasting_same) (simp_all add: same_orders_facts(4))

subsection \<open>Jobs and plans\<close>

definition job_ok :: "order_request \<Rightarrow> order_job \<Rightarrow> bool" where
  "job_ok rq jb \<longleftrightarrow> loose_reasons (jb_conflicts jb) \<and> box_reasons (jb_boxConflicts jb)
     \<and> mset (oq_items rq) = mset (map fst (jb_conflicts jb)) + mset (map li_rawKm (jb_remaining jb))
     \<and> mset (oq_boxes rq) = mset (map bv_sscc (jb_boxConflicts jb)) + mset (jb_boxes jb)"

definition allowance_left :: "(jstring \<rightharpoonup> nat) \<Rightarrow> pickup_db \<Rightarrow> order_request \<Rightarrow> order_job \<Rightarrow> limited_lines \<Rightarrow> bool" where
  "allowance_left lim db rq jb split \<longleftrightarrow> (\<forall>n. lim (jb_employeeId jb) = Some n \<longrightarrow> od_reason (oq_dto rq) \<noteq> Writeoff \<longrightarrow>
     taken_on db (jb_employeeId jb) (utc_day (jb_when jb)) + accepted_bottles_of split \<le> n)"

fun plan_ok :: "server_host \<Rightarrow> (jstring \<rightharpoonup> nat) \<Rightarrow> pickup_db \<Rightarrow> order_request \<Rightarrow> order_job \<Rightarrow> order_plan \<Rightarrow> bool" where
  "plan_ok h lim db rq jb (Plan_winner w) \<longleftrightarrow> findSerializedKioskWinner h db rq = Some w"
| "plan_ok h lim db rq jb Plan_forbidden \<longleftrightarrow> findSerializedKioskWinner h db rq = None"
| "plan_ok h lim db rq jb (Plan_lines split cs vs) \<longleftrightarrow> findSerializedKioskWinner h db rq = None \<and> lines_ok rq split cs vs
     \<and> allowance_left lim db rq jb split"

lemma split_filter: "mset (map f xs) = mset (map f (filter P xs)) + mset (map f (filter (\<lambda>x. \<not> P x) xs))"
  by (induction xs) auto

lemma line_limit_spec:
  assumes "s = applyOrderLineLimit n L limited loose boxes"
  shows "mset (map li_rawKm loose) = mset (map li_rawKm (ls_acceptedLoose s)) + mset (map fst (ls_looseConflicts s))"
    "mset (map ox_sscc boxes) = mset (map ox_sscc (ls_acceptedBoxes s)) + mset (map bv_sscc (ls_boxConflicts s))"
    "loose_reasons (ls_looseConflicts s)" "box_reasons (ls_boxConflicts s)" "subseq (ls_acceptedBoxes s) boxes"
    "limited \<Longrightarrow> n + accepted_bottles_of s \<le> max n L"
proof -
  obtain acc cs where a: "limit_loose L limited n loose = (acc, cs)" by force
  obtain bacc vs where b: "limit_boxes L limited (n + length acc) boxes = (bacc, vs)" by force
  have s: "s = \<lparr>ls_acceptedLoose = acc, ls_looseConflicts = cs, ls_acceptedBoxes = bacc, ls_boxConflicts = vs\<rparr>"
    by (simp add: assms applyOrderLineLimit_def a b)
  show "mset (map li_rawKm loose) = mset (map li_rawKm (ls_acceptedLoose s)) + mset (map fst (ls_looseConflicts s))" "loose_reasons (ls_looseConflicts s)"
    using limit_loose_spec [OF a] unfolding s limited_lines.simps by blast+
  show "mset (map ox_sscc boxes) = mset (map ox_sscc (ls_acceptedBoxes s)) + mset (map bv_sscc (ls_boxConflicts s))" "box_reasons (ls_boxConflicts s)"
      "subseq (ls_acceptedBoxes s) boxes"
    using limit_boxes_spec [OF b] unfolding s limited_lines.simps by blast+
  have "limited \<Longrightarrow> n + length acc \<le> max n L" "limited \<Longrightarrow> n + length acc + sum_list (map ox_bottleCount bacc) \<le> max (n + length acc) L"
    using limit_loose_spec [OF a] limit_boxes_spec [OF b] by blast+
  then show "limited \<Longrightarrow> n + accepted_bottles_of s \<le> max n L" by (simp add: s accepted_bottles_of_def)
qed

lemma decide_lines_ok:
  assumes j: "job_ok rq jb" and b: "mset (jb_boxes jb) = mset (map ox_sscc boxes) + mset (map bv_sscc vs)" "list_all box_ok boxes" "box_reasons vs"
    and p: "\<And>n. lim (jb_employeeId jb) = Some n \<Longrightarrow> lv_limited policy \<and> lv_dayLimit policy \<le> n" and w: "within_limits lim db"
    and d: "decide_lines db rq jb policy boxes vs = Plan_lines split cs ws"
  shows "lines_ok rq split cs ws \<and> allowance_left lim db rq jb split"
proof -
  define used where "used = set (filter (\<lambda>k. k \<in> set (map li_kmKey (jb_remaining jb) @ concat (map (\<lambda>b. map om_kmKey (ox_members b)) boxes))) (open_keys db))"
  define loose where "loose = filter (\<lambda>i. li_kmKey i \<notin> used) (jb_remaining jb)"
  define dups where "dups = filter (\<lambda>i. li_kmKey i \<in> used) (jb_remaining jb)"
  obtain free taken where c: "classifyResolvedBoxConflicts (li_kmKey ` set loose \<union> used) boxes = (free, taken)" by force
  define wo where "wo \<longleftrightarrow> od_reason (oq_dto rq) = Writeoff"
  define n where "n = (if wo then 0 else count_taken_today db (jb_employeeId jb) (jb_when jb))"
  define s where "s = applyOrderLineLimit n (lv_dayLimit policy) (lv_limited policy \<and> \<not> wo) loose free"
  note ll = line_limit_spec [OF s_def]
  have eq: "split = s" "cs = jb_conflicts jb @ map (\<lambda>i. (li_rawKm i, lit ''duplicate'')) dups @ ls_looseConflicts s"
      "ws = jb_boxConflicts jb @ vs @ taken @ ls_boxConflicts s"
    using d unfolding decide_lines_def Let_def used_def [symmetric] loose_def [symmetric] dups_def [symmetric] c prod.case wo_def [symmetric]
      n_def [symmetric] s_def [symmetric] by auto
  note cl = classify_spec [OF c]
  have rem: "mset (map li_rawKm (jb_remaining jb)) = mset (map li_rawKm dups) + mset (map li_rawKm loose)"
    unfolding dups_def loose_def by (rule split_filter)
  have "list_all box_ok (ls_acceptedBoxes s)" using ll(5) cl b(2) list_emb_set [OF ll(5)] by (auto simp: list_all_iff)
  moreover have "loose_reasons (map (\<lambda>i. (li_rawKm i, lit ''duplicate'')) dups)" by (simp add: loose_reasons_def list_all_iff)
  moreover have "map fst (map (\<lambda>i. (li_rawKm i, lit ''duplicate'')) dups) = map li_rawKm dups" by (simp add: comp_def)
  ultimately have "lines_ok rq split cs ws"
    using j b cl ll(1,2,3,4) rem unfolding eq lines_ok_def job_ok_def map_append mset_append by (simp add: ac_simps multiset.map_comp comp_def)
  moreover have "allowance_left lim db rq jb split"
    unfolding allowance_left_def
  proof (intro allI impI)
    fix m assume m: "lim (jb_employeeId jb) = Some m" "od_reason (oq_dto rq) \<noteq> Writeoff"
    have t: "n = taken_on db (jb_employeeId jb) (utc_day (jb_when jb))" using m(2) by (simp add: n_def wo_def count_taken_today_def taken_on_counted)
    then have "n \<le> m" using w m(1) by (auto simp: within_limits_def)
    then show "taken_on db (jb_employeeId jb) (utc_day (jb_when jb)) + accepted_bottles_of split \<le> m"
      using p [OF m(1)] ll(6) m(2) t unfolding eq wo_def by (simp add: max_def split: if_splits)
  qed
  ultimately show ?thesis by blast
qed

lemma decide_ok:
  assumes "decide h db rq jb = Inr plan" "job_ok rq jb" "policies_ok lim db" "within_limits lim db"
  shows "plan_ok h lim db rq jb plan"
proof (cases "findSerializedKioskWinner h db rq")
  case (Some w)
  then show ?thesis using assms(1) by (auto simp: decide_def)
next
  case None
  obtain policy where p: "policy_of db (jb_employeeId jb) = Inr policy"
    using assms(1) None by (auto simp: decide_def resolveLivePickupPolicy_def split: sum.splits)
  show ?thesis
  proof (cases "od_reason (oq_dto rq) = Writeoff \<and> \<not> lv_canWriteoff policy")
    case True
    then show ?thesis using assms(1) None p by (auto simp: decide_def resolveLivePickupPolicy_def)
  next
    case False
    obtain boxes vs where b: "resolveOrderBoxes (pk_registry db) (jb_boxes jb) = Inr (boxes, vs)" and plan: "plan = decide_lines db rq jb policy boxes vs"
      using assms(1) None p False by (auto simp: decide_def resolveLivePickupPolicy_def split: sum.splits)
    obtain split cs ws where pl: "plan = Plan_lines split cs ws" unfolding plan decide_lines_def Let_def by (metis (no_types, lifting) case_prod_unfold)
    have "lv_limited policy \<and> lv_dayLimit policy \<le> n" if "lim (jb_employeeId jb) = Some n" for n
      using p that assms(3) by (auto simp: policy_of_def policies_ok_def find_Some_iff split: option.splits)
    then show ?thesis using decide_lines_ok [OF assms(2) _ _ _ _ assms(4) trans [OF plan [symmetric] pl]] resolveOrderBoxes_spec [OF b] None
      unfolding pl plan_ok.simps by blast
  qed
qed

lemma map_filter_split:
  "(\<And>s v. f s = Some v \<Longrightarrow> bv_sscc v = s) \<Longrightarrow> mset ss = mset (map bv_sscc (List.map_filter f ss)) + mset (filter (\<lambda>s. f s = None) ss)"
  by (induction ss) (auto simp: List.map_filter_def)

lemma raced_box_spec: "raced_box boxes keys sscc = Some v \<Longrightarrow> bv_sscc v = sscc \<and> bv_reason v = lit ''duplicate''"
  by (auto simp: raced_box_def dest!: map_of_SomeD split: bind_splits if_splits)

lemma race_step_ok:
  assumes "job_ok rq jb" "race_step db jb split = Q_wait jb'"
  shows "job_ok rq jb'"
proof -
  define keys where "keys = set (filter (\<lambda>k. k \<in> set (map li_kmKey (ls_acceptedLoose split) @ concat (map (\<lambda>b. map om_kmKey (ox_members b)) (ls_acceptedBoxes split)))) (open_keys db))"
  define f where "f = raced_box (ls_acceptedBoxes split) keys"
  have f: "f s = Some v \<Longrightarrow> bv_sscc v = s" "f s = Some v \<Longrightarrow> bv_reason v = lit ''duplicate''" for s v using raced_box_spec unfolding f_def by blast+
  define loose where "loose = filter (\<lambda>i. li_kmKey i \<notin> keys) (jb_remaining jb)"
  define dups where "dups = filter (\<lambda>i. li_kmKey i \<in> keys) (jb_remaining jb)"
  define bs where "bs = filter (\<lambda>s. f s = None) (jb_boxes jb)"
  define vs where "vs = List.map_filter f (jb_boxes jb)"
  have jb': "jb' = jb\<lparr>jb_attempt := jb_attempt jb + 1, jb_remaining := loose, jb_conflicts := jb_conflicts jb @ map (\<lambda>i. (li_rawKm i, lit ''duplicate'')) dups,
      jb_boxes := bs, jb_boxConflicts := jb_boxConflicts jb @ vs\<rparr>"
    using assms(2) unfolding race_step_def Let_def keys_def [symmetric] reclassifyOrderKmKeyRace_def prod.case f_def [symmetric] loose_def [symmetric]
      dups_def [symmetric] bs_def [symmetric] vs_def [symmetric] by (auto split: if_splits)
  have l: "mset (map li_rawKm (jb_remaining jb)) = mset (map li_rawKm dups) + mset (map li_rawKm loose)" unfolding dups_def loose_def by (rule split_filter)
  have b: "mset (jb_boxes jb) = mset (map bv_sscc vs) + mset bs" unfolding vs_def bs_def by (rule map_filter_split) (rule f(1))
  have "box_reasons vs" using f(2) unfolding vs_def by (auto simp: box_reasons_def list_all_iff List.map_filter_def)
  moreover have "loose_reasons (map (\<lambda>i. (li_rawKm i, lit ''duplicate'')) dups)" by (simp add: loose_reasons_def list_all_iff)
  ultimately show ?thesis using assms(1) l b unfolding jb' job_ok_def by (simp add: ac_simps multiset.map_comp comp_def)
qed

subsection \<open>Answers\<close>

definition answers :: "order_result \<Rightarrow> order_outcome \<Rightarrow> bool" where
  "answers res w \<longleftrightarrow> or_orderNo res = ou_orderNo w \<and> or_itemCount res = int (ou_itemCount w) \<and> or_conflicts res = ou_conflicts w
     \<and> or_boxConflicts res = Some (ou_boxConflicts w) \<and> map_option mset (or_acceptedBoxes res) = Some (mset (ou_acceptedBoxes w))"

definition refused_with :: "order_outcome \<Rightarrow> api_error \<Rightarrow> bool" where
  "refused_with w e \<longleftrightarrow> (if ou_rejected w then e = throwPersistedKioskRejection w
     else ou_boxConflicts w \<noteq> [] \<and> e = orderRejectedResponse (ou_conflicts w) (ou_boxConflicts w))"

fun answer_ok :: "server_host \<Rightarrow> pickup_db \<Rightarrow> order_request \<Rightarrow> api_error + order_result \<Rightarrow> bool" where
  "answer_ok h db rq (Inr res) \<longleftrightarrow> (if or_orderNo res = [] then \<not> vNext rq
     else \<exists>w. findOrderOutcome h db (oq_kioskId rq) (oq_seq rq) = Some w \<and> answers res w)"
| "answer_ok h db rq (Inl e) \<longleftrightarrow> (vNext rq \<and> ae_status e \<in> {400, 422} \<longrightarrow>
     (\<exists>w. findSerializedKioskWinner h db rq = Some w \<and> refused_with w e))"

lemma answer_lasts: "answer_ok h db rq r \<Longrightarrow> lasting h body db db' \<Longrightarrow> faithful body rq \<Longrightarrow> answer_ok h db' rq r"
  by (cases r) (auto simp: lasting_def split: if_splits)

lemma formatOrderNo_nonempty [simp]: "formatOrderNo y n t \<noteq> []"
  by (simp add: formatOrderNo_def lit_def)

lemma order_outcome_facts:
  assumes "findOrderOutcome h db k q = Some w"
  shows "\<not> ou_rejected w \<and> \<not> ou_writeoffForbidden w \<and> (orders_ok h body db \<longrightarrow> ou_orderNo w \<noteq> [])"
proof -
  obtain o' where f: "List.find (\<lambda>o'. po_kioskId o' = k \<and> po_deviceSeq o' = q) (pk_orders db) = Some o'" using assms by (auto simp: findOrderOutcome_def)
  then have "o' \<in> set (pk_orders db)" by (auto simp: find_Some_iff)
  then have "orders_ok h body db \<longrightarrow> po_orderNo o' \<noteq> []" by (auto simp: orders_ok_def order_ok_def)
  then show ?thesis using assms f by (auto simp: findOrderOutcome_def Let_def split: prod.splits)
qed

lemma order_outcome_iff:
  "findOrderOutcome h db k q \<noteq> None \<longleftrightarrow> (k, q) \<in> (\<lambda>o'. (po_kioskId o', po_deviceSeq o')) ` set (pk_orders db)"
  by (auto simp: findOrderOutcome_def find_None_iff)

lemma rejection_outcome_facts: "findRejectionOutcome db k q = Some w \<Longrightarrow> ou_rejected w \<and> \<not> ou_writeoffForbidden w"
  by (auto simp: findRejectionOutcome_def Let_def split: bind_splits prod.splits option.splits)

lemma order_answer:
  assumes "findOrderOutcome h db (oq_kioskId rq) (oq_seq rq) = Some w" "orders_ok h body db"
  shows "answer_ok h db rq (kioskResultFromOutcome w)"
  using order_outcome_facts [OF assms(1), of body] assms by (auto simp: kioskResultFromOutcome_def answers_def)

lemma winner_answer:
  assumes "findSerializedKioskWinner h db rq = Some w" "orders_ok h body db"
  shows "answer_ok h db rq (kioskResultFromOutcome w) \<and> \<not> ou_writeoffForbidden w"
proof (cases "findOrderOutcome h db (oq_kioskId rq) (oq_seq rq)")
  case None
  then have "findRejectionOutcome db (oq_kioskId rq) (oq_seq rq) = Some w" using assms(1) by (simp add: findSerializedKioskWinner_def split: if_splits)
  then show ?thesis using rejection_outcome_facts assms(1) by (auto simp: kioskResultFromOutcome_def refused_with_def)
next
  case (Some w')
  then have "w' = w" using assms(1) by (simp add: findSerializedKioskWinner_def)
  then show ?thesis using order_answer [OF _ assms(2)] order_outcome_facts Some by blast
qed

subsection \<open>Writing a rejection\<close>

definition tables_ok :: "server_host \<Rightarrow> (jstring \<rightharpoonup> nat) \<Rightarrow> (jstring \<Rightarrow> int \<Rightarrow> order_content) \<Rightarrow> pickup_db \<Rightarrow> bool" where
  "tables_ok h lim body db \<longleftrightarrow> orders_ok h body db \<and> within_limits lim db \<and> policies_ok lim db \<and> rejections_ok body db"

text \<open>A change that leaves the orders to the invariant and the policies alone.\<close>

definition rows_kept :: "pickup_db \<Rightarrow> pickup_db \<Rightarrow> bool" where
  "rows_kept db db' \<longleftrightarrow> same_orders db db' \<and> pk_policies db' = pk_policies db \<and> pk_limitsEnabled db' = pk_limitsEnabled db"

lemma rows_kept_simps [simp]: "rows_kept db db" "rows_kept db (consumeKioskAdmission db k q)" "rows_kept db (recordScanRejection db row)"
  by (simp_all add: rows_kept_def consumeKioskAdmission_def recordScanRejection_def same_orders_def)

lemma rows_kept_trans: "rows_kept a b \<Longrightarrow> rows_kept b c \<Longrightarrow> rows_kept a c"
  by (simp add: rows_kept_def same_orders_def)

lemma rows_kept_tables_ok: "rows_kept db db' \<Longrightarrow> tables_ok h lim body db \<Longrightarrow> rejections_ok body db' \<Longrightarrow> tables_ok h lim body db'"
  using same_orders_facts [of db db'] by (auto simp: rows_kept_def tables_ok_def within_limits_def policies_ok_def)

lemma rejections_ok_consume [simp]: "rejections_ok body (consumeKioskAdmission db k q) = rejections_ok body db"
  by (simp add: rejections_ok_def rejection_ok_def filed_conflicts_def consumeKioskAdmission_def)

lemma consume_ok [simp]: "tables_ok h lim body db \<Longrightarrow> tables_ok h lim body (consumeKioskAdmission db k q)"
  by (rule rows_kept_tables_ok) (simp_all add: tables_ok_def)

lemma set_record: "set (pk_rejections (recordScanRejection db row)) \<subseteq> insert row (set (pk_rejections db))"
  by (auto simp: recordScanRejection_def)

lemma record_ok:
  assumes "tables_ok h lim body db" "rejection_ok body db row"
  shows "tables_ok h lim body (recordScanRejection db row)"
proof -
  have o: "pk_orders (recordScanRejection db row) = pk_orders db" by (simp add: recordScanRejection_def)
  have "rejections_ok body db" using assms(1) by (simp add: tables_ok_def)
  then have "rejections_ok body (recordScanRejection db row)"
    using assms(2) set_record [of db row] unfolding rejections_ok_def rejection_ok_def filed_conflicts_def o by blast
  then show ?thesis by (rule rows_kept_tables_ok [OF rows_kept_simps(3) assms(1)])
qed

lemma marked_rejection:
  assumes "findSerializedKioskWinner h db rq = None" "sr_kioskId row = oq_kioskId rq" "sr_deviceSeq row = oq_seq rq"
    "vNext rq \<Longrightarrow> request_marker (sr_codes row) \<noteq> None" "faithful body rq"
  shows "rejection_ok body db row"
proof -
  have "findOrderOutcome h db (oq_kioskId rq) (oq_seq rq) = None" using assms(1) by (simp add: findSerializedKioskWinner_def split: option.splits)
  then show ?thesis using order_outcome_iff [of h db "oq_kioskId rq" "oq_seq rq"] faithful_content(3) [OF assms(5)] assms(2,3,4)
    by (auto simp: rejection_ok_def)
qed

lemma no_rejection:
  assumes "rejections_ok body db" "faithful body rq" "vNext rq" "findSerializedKioskWinner h db rq = None"
  shows "\<not> list_ex (\<lambda>r. sr_kioskId r = oq_kioskId rq \<and> sr_deviceSeq r = oq_seq rq) (pk_rejections db)"
proof
  assume "list_ex (\<lambda>r. sr_kioskId r = oq_kioskId rq \<and> sr_deviceSeq r = oq_seq rq) (pk_rejections db)"
  then obtain r where r: "List.find (\<lambda>r. sr_kioskId r = oq_kioskId rq \<and> sr_deviceSeq r = oq_seq rq) (pk_rejections db) = Some r"
    by (cases "List.find (\<lambda>r. sr_kioskId r = oq_kioskId rq \<and> sr_deviceSeq r = oq_seq rq) (pk_rejections db)") (auto simp: find_None_iff list_ex_iff)
  then have m: "r \<in> set (pk_rejections db)" "sr_kioskId r = oq_kioskId rq" "sr_deviceSeq r = oq_seq rq" by (auto simp: find_Some_iff)
  have w: "findOrderOutcome h db (oq_kioskId rq) (oq_seq rq) = None" "findRejectionOutcome db (oq_kioskId rq) (oq_seq rq) = None"
    using assms(3,4) by (auto simp: findSerializedKioskWinner_def split: option.splits)
  have "oc_boxes (body (sr_kioskId r) (sr_deviceSeq r)) \<noteq> None" "(sr_kioskId r, sr_deviceSeq r) \<notin> (\<lambda>o'. (po_kioskId o', po_deviceSeq o')) ` set (pk_orders db)"
    using m w(1) order_outcome_iff [of h db "oq_kioskId rq" "oq_seq rq"] faithful_content(3) [OF assms(2)] assms(3) by simp_all
  then have "request_marker (sr_codes r) \<noteq> None" using assms(1) m(1) filed_keys unfolding rejections_ok_def rejection_ok_def by blast
  then show False using w(2) r by (auto simp: findRejectionOutcome_def Let_def split: prod.splits)
qed

lemma recorded_verdict:
  assumes "rejections_ok body db" "faithful body rq" "vNext rq" "findSerializedKioskWinner h db rq = None"
    and row: "sr_kioskId row = oq_kioskId rq" "sr_deviceSeq row = oq_seq rq" "request_marker (sr_codes row) = Some t"
  shows "\<exists>w. findSerializedKioskWinner h (consumeKioskAdmission (recordScanRejection db row) k q) rq = Some w \<and> ou_rejected w
    \<and> ou_terminalReason w = Some t \<and> (ou_conflicts w, ou_boxConflicts w) = splitStoredConflicts (sr_codes row)"
proof -
  let ?P = "\<lambda>r. sr_kioskId r = oq_kioskId rq \<and> sr_deviceSeq r = oq_seq rq"
  let ?db = "consumeKioskAdmission (recordScanRejection db row) k q"
  note none = no_rejection [OF assms(1-4)]
  then have rej: "pk_rejections ?db = pk_rejections db @ [row]" using row by (simp add: recordScanRejection_def)
  have "List.find ?P (pk_rejections db) = None" using none by (auto simp: find_None_iff list_ex_iff)
  then have "List.find ?P (pk_rejections ?db) = Some row" unfolding rej by (simp add: find_append row)
  then have r: "findRejectionOutcome ?db (oq_kioskId rq) (oq_seq rq) = Some \<lparr>ou_orderNo = [], ou_itemCount = 0, ou_conflicts = fst (splitStoredConflicts (sr_codes row)),
      ou_boxConflicts = snd (splitStoredConflicts (sr_codes row)), ou_acceptedBoxes = [], ou_rejected = True, ou_terminalReason = Some t, ou_writeoffForbidden = False\<rparr>"
    unfolding findRejectionOutcome_def by (simp add: Let_def row(3) split_def)
  have "same_orders db ?db" by (rule same_orders_trans [OF same_orders_record same_orders_consume(1)])
  then have "findOrderOutcome h ?db = findOrderOutcome h db" by (rule same_orders_facts(4))
  moreover have "findOrderOutcome h db (oq_kioskId rq) (oq_seq rq) = None" using assms(4) by (auto simp: findSerializedKioskWinner_def split: option.splits)
  ultimately show ?thesis using r assms(3) by (simp add: findSerializedKioskWinner_def)
qed

fun is_marker :: "stored_conflict \<Rightarrow> bool" where
  "is_marker (Stored_request _) = True" | "is_marker _ = False"

lemma marker_after: "list_all (\<lambda>c. \<not> is_marker c) cs \<Longrightarrow> request_marker (cs @ ds) = request_marker ds"
proof (induction cs)
  case (Cons c cs)
  then show ?case by (cases c) auto
qed simp

lemma marker_join: "request_marker (joinStoredConflicts cs vs @ ds) = request_marker ds"
  by (rule marker_after) (auto simp: joinStoredConflicts_def list_all_iff)

lemma terminal_reasons [simp]:
  "isKioskRejectionTerminalReason (lit ''order_rejected'')" "isKioskRejectionTerminalReason (lit ''unknown_badge'')"
  "isKioskRejectionTerminalReason (lit ''writeoff_forbidden'')" "isKioskRejectionTerminalReason (lit ''writeoff_reason_required'')"
  "isKioskRejectionTerminalReason (lit ''unknown_reason'')"
  by (simp_all add: isKioskRejectionTerminalReason_def)

subsection \<open>Early rejections\<close>

definition throws :: "jstring \<Rightarrow> api_error \<Rightarrow> bool" where
  "throws t e \<longleftrightarrow> (\<forall>w. ou_terminalReason w = Some t \<longrightarrow> throwPersistedKioskRejection w = e)"

definition early_ok :: "order_request \<Rightarrow> scan_rejection \<Rightarrow> api_error \<Rightarrow> bool" where
  "early_ok rq row e \<longleftrightarrow> sr_kioskId row = oq_kioskId rq \<and> sr_deviceSeq row = oq_seq rq
     \<and> (vNext rq \<longrightarrow> (\<exists>t. request_marker (sr_codes row) = Some t \<and> throws t e))"

lemma throws_reasons [simp]:
  "throws (lit ''unknown_badge'') unknown_badge" "throws (lit ''writeoff_forbidden'') writeoff_forbidden"
  "throws (lit ''writeoff_reason_required'') writeoff_reason_required" "throws (lit ''unknown_reason'') unknown_reason"
  by (simp_all add: throws_def throwPersistedKioskRejection_def lit_def)

lemma early_row_ok:
  assumes "isKioskRejectionTerminalReason (lit reason)" "throws (lit reason) e"
  shows "early_ok rq (early_row rq at emp badge reason) e"
proof -
  have "request_marker (auditSubmittedLines (oq_dto rq) (lit reason)) = Some (lit reason)" if v: "vNext rq"
  proof -
    obtain bs where bs: "od_boxes (oq_dto rq) = Some bs" using v by (cases "od_boxes (oq_dto rq)") (simp_all add: vNext_def kioskOrderProcessingLines_def)
    have "auditSubmittedLines (oq_dto rq) (lit reason) = (map (\<lambda>rawKm. Stored_loose rawKm (lit reason)) (sort (od_items (oq_dto rq)))
        @ map (\<lambda>sscc. Stored_box (box_refusal sscc None (lit reason))) (sort bs)) @ [Stored_request (lit reason)]"
      using assms(1) bs by (simp add: auditSubmittedLines_def kioskOrderProcessingLines_def kioskOrderRequestMarker_def)
    then show ?thesis using assms(1) by (simp only:) (subst marker_after, auto simp: list_all_iff)
  qed
  then show ?thesis using assms(2) by (auto simp: early_ok_def early_row_def)
qed

text \<open>What another request may rely on while it holds the locks.\<close>

definition undisturbed :: "server_host \<Rightarrow> (jstring \<Rightarrow> int \<Rightarrow> order_content) \<Rightarrow> order_lock \<Rightarrow> pickup_db \<Rightarrow> pickup_db \<Rightarrow> bool" where
  "undisturbed h body lock db db' \<longleftrightarrow> lasting h body db db' \<and> (\<forall>e day. taken_on db' e day \<le> taken_on db e day)
     \<and> (\<forall>rq. faithful body rq \<longrightarrow> map_option snd lock = Some (oq_kioskId rq) \<longrightarrow> findSerializedKioskWinner h db rq = None
          \<longrightarrow> findSerializedKioskWinner h db' rq = None)"

lemma undisturbed_refl [simp]: "undisturbed h body lock db db"
  by (simp add: undisturbed_def)

lemma undisturbed_trans: "undisturbed h body lock a b \<Longrightarrow> undisturbed h body lock b c \<Longrightarrow> undisturbed h body lock a c"
  unfolding undisturbed_def using lasting_trans by (meson order_trans)

lemma undisturbed_same:
  assumes "findOrderOutcome h db' = findOrderOutcome h db" "pk_rejections db' = pk_rejections db" "\<And>e day. taken_on db' e day \<le> taken_on db e day"
  shows "undisturbed h body lock db db'"
  using lasting_same [OF assms(1,2)] rejection_cong [OF assms(2)] assms(1,3) by (simp add: undisturbed_def findSerializedKioskWinner_def split: option.split)

lemma undisturbed_consume [simp]: "undisturbed h body lock db (consumeKioskAdmission db k q)"
  by (rule undisturbed_same) (simp_all add: same_orders_facts(2,4) [OF same_orders_consume(1)])

lemma record_other:
  "(k, q) \<noteq> (sr_kioskId row, sr_deviceSeq row) \<Longrightarrow> findRejectionOutcome (recordScanRejection db row) k q = findRejectionOutcome db k q"
proof -
  assume "(k, q) \<noteq> (sr_kioskId row, sr_deviceSeq row)"
  then have "List.find (\<lambda>r. sr_kioskId r = k \<and> sr_deviceSeq r = q) (pk_rejections (recordScanRejection db row))
      = List.find (\<lambda>r. sr_kioskId r = k \<and> sr_deviceSeq r = q) (pk_rejections db)"
    by (auto simp: recordScanRejection_def find_append split: option.split)
  then show ?thesis by (simp add: findRejectionOutcome_def)
qed

lemma undisturbed_record:
  assumes "\<And>rq. faithful body rq \<Longrightarrow> map_option snd lock = Some (oq_kioskId rq) \<Longrightarrow> vNext rq \<Longrightarrow> (oq_kioskId rq, oq_seq rq) \<noteq> (sr_kioskId row, sr_deviceSeq row)"
  shows "undisturbed h body lock db (recordScanRejection db row)"
proof -
  have so: "findOrderOutcome h (recordScanRejection db row) = findOrderOutcome h db" "taken_on (recordScanRejection db row) = taken_on db"
    by (simp_all add: same_orders_facts(2,4) [OF same_orders_record])
  have "findSerializedKioskWinner h (recordScanRejection db row) rq = None"
    if "faithful body rq" "map_option snd lock = Some (oq_kioskId rq)" "findSerializedKioskWinner h db rq = None" for rq
    using that assms record_other [of "oq_kioskId rq" "oq_seq rq" row db] so(1) by (auto simp: findSerializedKioskWinner_def split: option.splits if_splits)
  then show ?thesis using so by (simp add: undisturbed_def)
qed

lemma legacy_early:
  assumes "tables_ok h lim body db" "faithful body rq" "\<not> vNext rq" "early_ok rq row e"
  shows "tables_ok h lim body (persistLegacyEarlyRejection db row b) \<and> undisturbed h body lock db (persistLegacyEarlyRejection db row b)
    \<and> answer_ok h (persistLegacyEarlyRejection db row b) rq (Inl e)"
proof -
  have k: "sr_kioskId row = oq_kioskId rq" "sr_deviceSeq row = oq_seq rq" using assms(4) by (simp_all add: early_ok_def)
  have old: "oc_boxes (body (oq_kioskId rq) (oq_seq rq)) = None" using faithful_content(3) [OF assms(2)] assms(3) by simp
  have "tables_ok h lim body (recordScanRejection db row)" by (rule record_ok [OF assms(1)]) (simp add: k old rejection_ok_def)
  moreover have "undisturbed h body lock db (recordScanRejection db row)"
  proof (rule undisturbed_record)
    fix rq' assume "faithful body rq'" "vNext rq'"
    then show "(oq_kioskId rq', oq_seq rq') \<noteq> (sr_kioskId row, sr_deviceSeq row)" using faithful_content(3) [of body rq'] old k by auto
  qed
  ultimately show ?thesis using assms(1,3) undisturbed_trans [OF _ undisturbed_consume]
    by (cases b) (simp_all add: persistLegacyEarlyRejection_def)
qed

lemma serialized_early:
  assumes t: "tables_ok h lim body db" and f: "faithful body rq" and v: "vNext rq" and e: "early_ok rq row e" and free: "map_option snd lock \<noteq> Some (oq_kioskId rq)"
    and p: "persistSerializedEarlyRejection h db row True = (db', winner)"
  shows "tables_ok h lim body db' \<and> undisturbed h body lock db db'
    \<and> answer_ok h db' rq (case winner of Some w \<Rightarrow> kioskResultFromOutcome w | None \<Rightarrow> Inl e)"
proof -
  have k: "sr_kioskId row = oq_kioskId rq" "sr_deviceSeq row = oq_seq rq" using e by (simp_all add: early_ok_def)
  obtain m where m: "request_marker (sr_codes row) = Some m" "throws m e" using e v by (auto simp: early_ok_def)
  let ?c = "\<lambda>d. consumeKioskAdmission d (oq_kioskId rq) (oq_seq rq)"
  have ok: "orders_ok h body db" "rejections_ok body db" using t by (simp_all add: tables_ok_def)
  show ?thesis
  proof (cases "findSerializedKioskWinner h db rq")
    case (Some w)
    have d: "db' = ?c db" "winner = Some w"
      using p Some v by (auto simp: persistSerializedEarlyRejection_def findSerializedKioskWinner_def k split: option.splits)
    show ?thesis using t answer_lasts [OF conjunct1 [OF winner_answer [OF Some ok(1)]] lasting_consume f] unfolding d by simp
  next
    case None
    then have d: "db' = ?c (recordScanRejection db row)" "winner = None"
      using p v by (auto simp: persistSerializedEarlyRejection_def findSerializedKioskWinner_def k split: option.splits)
    have "tables_ok h lim body (recordScanRejection db row)" by (rule record_ok [OF t marked_rejection [OF None k _ f]]) (simp add: m)
    moreover have "undisturbed h body lock db (recordScanRejection db row)" using free k by (intro undisturbed_record) auto
    moreover have "answer_ok h db' rq (Inl e)" unfolding d
      using recorded_verdict [OF ok(2) f v None k m(1), of "oq_kioskId rq" "oq_seq rq"] m(2) unfolding answer_ok.simps throws_def refused_with_def by metis
    ultimately show ?thesis using undisturbed_trans [OF _ undisturbed_consume] unfolding d by simp
  qed
qed

subsection \<open>Committing a plan\<close>

lemma insert_lasting:
  assumes ins: "insert_order h db rq jb split (joinStoredConflicts cs vs) = Inr (db', row)" and ok: "orders_ok h body db" and l: "lines_ok rq split cs vs"
    and f: "faithful body rq" and none: "findSerializedKioskWinner h db rq = None"
  shows "lasting h body db db'"
  unfolding lasting_def
proof (intro conjI allI impI)
  note out = insert_outcome [OF ins ok l]
  fix rq' w assume f': "faithful body rq'" and w: "findSerializedKioskWinner h db rq' = Some w"
  have other: "(oq_kioskId rq', oq_seq rq') \<noteq> (oq_kioskId rq, oq_seq rq)"
  proof
    assume "(oq_kioskId rq', oq_seq rq') = (oq_kioskId rq, oq_seq rq)"
    then have k: "oq_kioskId rq' = oq_kioskId rq" "oq_seq rq' = oq_seq rq" by simp_all
    then have "vNext rq' = vNext rq" using faithful_content(3) [OF f] faithful_content(3) [OF f'] by simp
    then have "findSerializedKioskWinner h db rq' = findSerializedKioskWinner h db rq" by (simp add: findSerializedKioskWinner_def k split: option.split)
    then show False using w none by simp
  qed
  show "findSerializedKioskWinner h db' rq' = Some w"
    using w out(2) [OF other] rejection_cong [OF out(4)] by (simp add: findSerializedKioskWinner_def split: option.splits if_splits)
next
  fix k q w assume w: "findOrderOutcome h db k q = Some w"
  then have "(k, q) \<noteq> (oq_kioskId rq, oq_seq rq)" using insert_outcome(3) [OF ins ok l] by auto
  then show "findOrderOutcome h db' k q = Some w" using insert_outcome(2) [OF ins ok l] w by simp
qed

lemma insert_ok:
  assumes t: "tables_ok h lim body db" and f: "faithful body rq" and p: "plan_ok h lim db rq jb (Plan_lines split cs vs)"
    and ins: "insert_order h db rq jb split (joinStoredConflicts cs vs) = Inr (db', row)" and pos: "0 < accepted_bottles_of split"
  shows "tables_ok h lim body db' \<and> lasting h body db db'"
proof -
  have l: "lines_ok rq split cs vs" "findSerializedKioskWinner h db rq = None" "allowance_left lim db rq jb split" using p by simp_all
  have ok: "orders_ok h body db" "within_limits lim db" "policies_ok lim db" "rejections_ok body db" using t by (simp_all add: tables_ok_def)
  note out = insert_outcome [OF ins ok(1) l(1)]
  have "within_limits lim db'"
    unfolding within_limits_def
  proof (intro allI impI)
    fix e n day assume e: "lim e = Some n"
    then have "taken_on db e day \<le> n" using ok(2) by (simp add: within_limits_def)
    then show "taken_on db' e day \<le> n" unfolding insert_taken_on [OF ins ok(1) l(1)] using l(3) e by (auto simp: allowance_left_def)
  qed
  moreover have "orders_ok h body db'" by (rule insert_orders_ok [OF ins ok(1) f l(1) pos])
  moreover have "policies_ok lim db'" using out(5) ok(3) by simp
  moreover have "rejections_ok body db'"
    unfolding rejections_ok_def out(4)
  proof
    fix r assume r: "r \<in> set (pk_rejections db)"
    then have "rejection_ok body db r" using ok(4) by (simp add: rejections_ok_def)
    moreover have "(sr_kioskId r, sr_deviceSeq r) \<noteq> (oq_kioskId rq, oq_seq rq)" if "oc_boxes (body (sr_kioskId r) (sr_deviceSeq r)) \<noteq> None"
      using no_rejection [OF ok(4) f _ l(2)] that r faithful_content(3) [OF f] by (auto simp: list_ex_iff)
    ultimately show "rejection_ok body db' r" unfolding rejection_ok_def out(6,7) by blast
  qed
  ultimately show ?thesis using insert_lasting [OF ins ok(1) l(1) f l(2)] by (simp add: tables_ok_def)
qed

lemma vnext_marker_simps:
  "vNext rq \<Longrightarrow> isKioskRejectionTerminalReason (lit t) \<Longrightarrow> request_marker (vnext_marker rq t) = Some (lit t)"
  "splitStoredConflicts (vnext_marker rq t) = ([], [])"
  by (simp_all add: vnext_marker_def kioskOrderRequestMarker_def)

lemma rejection_row_simps [simp]:
  "sr_kioskId (rejection_row rq jb o' codes) = oq_kioskId rq" "sr_deviceSeq (rejection_row rq jb o' codes) = oq_seq rq" "sr_codes (rejection_row rq jb o' codes) = codes"
  by (simp_all add: rejection_row_def)

lemma commit_rejection:
  assumes t: "tables_ok h lim body db" and f: "faithful body rq" and n: "findSerializedKioskWinner h db rq = None"
    and m: "vNext rq \<Longrightarrow> request_marker codes = Some m"
    and d: "db' = consumeKioskAdmission (recordScanRejection db (rejection_row rq jb None codes)) (oq_kioskId rq) (oq_seq rq)"
  shows "tables_ok h lim body db'" "lasting h body db db'"
    "vNext rq \<Longrightarrow> \<exists>w. findSerializedKioskWinner h db' rq = Some w \<and> ou_rejected w \<and> ou_terminalReason w = Some m
       \<and> (ou_conflicts w, ou_boxConflicts w) = splitStoredConflicts codes"
proof -
  have "tables_ok h lim body (recordScanRejection db (rejection_row rq jb None codes))"
    by (rule record_ok [OF t marked_rejection [OF n _ _ _ f]]) (simp_all add: m)
  then show "tables_ok h lim body db'" by (simp add: d)
  show "lasting h body db db'" unfolding d by (rule lasting_trans [OF lasting_record lasting_consume])
  show "\<exists>w. findSerializedKioskWinner h db' rq = Some w \<and> ou_rejected w \<and> ou_terminalReason w = Some m
       \<and> (ou_conflicts w, ou_boxConflicts w) = splitStoredConflicts codes" if "vNext rq"
    using recorded_verdict [OF _ f that n _ _, of "rejection_row rq jb None codes" m] t m that unfolding d by (simp add: tables_ok_def)
qed

lemma commit_forbidden:
  assumes t: "tables_ok h lim body db" and f: "faithful body rq" and n: "findSerializedKioskWinner h db rq = None"
    and a: "apply_plan h db rq jb Plan_forbidden = Inr (db', outcome)"
  shows "tables_ok h lim body db' \<and> lasting h body db db' \<and> answer_ok h db' rq (finish_order outcome)"
proof -
  define lines where "lines = map (\<lambda>raw. Stored_loose raw (lit ''writeoff_forbidden'')) (oq_items rq)
    @ map (\<lambda>s. Stored_box (box_refusal s None (lit ''writeoff_forbidden''))) (oq_boxes rq)"
  define codes where "codes = lines @ vnext_marker rq ''writeoff_forbidden''"
  have "oq_items rq @ oq_boxes rq \<noteq> []" using faithful_content(4) [OF f] unfolding has_lines_def .
  then have d: "db' = consumeKioskAdmission (recordScanRejection db (rejection_row rq jb None codes)) (oq_kioskId rq) (oq_seq rq)" "ou_writeoffForbidden outcome"
    using a by (auto simp: apply_plan_def Let_def codes_def lines_def)
  have "request_marker codes = Some (lit ''writeoff_forbidden'')" if "vNext rq"
    unfolding codes_def using that vnext_marker_simps(1) [of rq "''writeoff_forbidden''"]
    by (subst marker_after) (auto simp: lines_def list_all_iff)
  note c = commit_rejection [OF t f n this d(1)]
  have "answer_ok h db' rq (Inl writeoff_forbidden)"
    using c(3) throws_reasons(2) unfolding answer_ok.simps throws_def refused_with_def by metis
  then have "answer_ok h db' rq (finish_order outcome)" using d(2) unfolding finish_order_def by simp
  then show ?thesis using c(1,2) by blast
qed

lemma commit_refused:
  assumes t: "tables_ok h lim body db" and f: "faithful body rq" and p: "plan_ok h lim db rq jb (Plan_lines split cs vs)"
    and a: "apply_plan h db rq jb (Plan_lines split cs vs) = Inr (db', outcome)" and zero: "accepted_bottles_of split = 0"
  shows "tables_ok h lim body db' \<and> lasting h body db db' \<and> answer_ok h db' rq (finish_order outcome)"
proof -
  define codes where "codes = joinStoredConflicts cs vs @ vnext_marker rq ''order_rejected''"
  have n: "findSerializedKioskWinner h db rq = None" and l: "lines_ok rq split cs vs" using p by simp_all
  have "oq_items rq @ oq_boxes rq \<noteq> []" using faithful_content(4) [OF f] unfolding has_lines_def .
  then have d: "db' = consumeKioskAdmission (recordScanRejection db (rejection_row rq jb None codes)) (oq_kioskId rq) (oq_seq rq)"
      "\<not> ou_writeoffForbidden outcome" "ou_rejected outcome = vNext rq" "ou_terminalReason outcome = None" "ou_conflicts outcome = cs"
      "ou_boxConflicts outcome = vs" "ou_orderNo outcome = []"
    using a zero by (auto simp: apply_plan_def Let_def codes_def)
  have "request_marker codes = Some (lit ''order_rejected'')" if "vNext rq"
    unfolding codes_def marker_join using that by (rule vnext_marker_simps(1)) simp
  note c = commit_rejection [OF t f n this d(1)]
  have s: "splitStoredConflicts codes = (cs, vs)"
    unfolding codes_def using l vnext_marker_simps(2) by (intro split_join) (simp_all add: lines_ok_def)
  have "answer_ok h db' rq (finish_order outcome)"
  proof (cases "vNext rq")
    case True
    then obtain w where w: "findSerializedKioskWinner h db' rq = Some w" "ou_rejected w" "ou_terminalReason w = Some (lit ''order_rejected'')"
        "ou_conflicts w = cs" "ou_boxConflicts w = vs" using c(3) s by auto
    have "throwPersistedKioskRejection w = orderRejectedResponse cs vs" "throwPersistedKioskRejection outcome = orderRejectedResponse cs vs"
      using w d by (simp_all add: throwPersistedKioskRejection_def lit_def)
    then show ?thesis using w True d by (simp add: finish_order_def kioskResultFromOutcome_def refused_with_def)
  next
    case False
    then show ?thesis using d by (simp add: finish_order_def kioskResultFromOutcome_def)
  qed
  then show ?thesis using c(1,2) by blast
qed

lemma commit_filed:
  assumes t: "tables_ok h lim body db" and f: "faithful body rq" and p: "plan_ok h lim db rq jb (Plan_lines split cs vs)"
    and a: "apply_plan h db rq jb (Plan_lines split cs vs) = Inr (db', outcome)" and pos: "0 < accepted_bottles_of split"
  shows "tables_ok h lim body db' \<and> lasting h body db db' \<and> answer_ok h db' rq (finish_order outcome)"
proof -
  obtain db1 row where ins: "insert_order h db rq jb split (joinStoredConflicts cs vs) = Inr (db1, row)"
    using a pos by (auto simp: apply_plan_def Let_def split: sum.splits)
  define rj where "rj = rejection_row rq jb (Some (po_id row)) (joinStoredConflicts cs vs)"
  define db2 where "db2 = (if joinStoredConflicts cs vs \<noteq> [] then recordScanRejection db1 rj else db1)"
  have d: "db' = consumeKioskAdmission db2 (oq_kioskId rq) (oq_seq rq)" "outcome = new_outcome h row split cs vs"
    using a pos ins by (auto simp: apply_plan_def Let_def db2_def rj_def new_outcome_def)
  have l: "lines_ok rq split cs vs" using p by simp
  have ok: "orders_ok h body db" using t by (simp add: tables_ok_def)
  note out = insert_outcome [OF ins ok l] and i = insert_ok [OF t f p ins pos]
  have "tables_ok h lim body (recordScanRejection db1 rj)"
    by (rule record_ok [OF conjunct1 [OF i]]) (simp add: rj_def rejection_ok_def out(7))
  then have t2: "tables_ok h lim body db2" using i by (simp add: db2_def)
  have la: "lasting h body db1 db'" unfolding d db2_def by (auto intro: lasting_trans [OF lasting_record lasting_consume])
  obtain w where w: "findOrderOutcome h db1 (oq_kioskId rq) (oq_seq rq) = Some w" "filed h (new_outcome h row split cs vs) w" using out(1) by blast
  have "orders_ok h body db1" using i by (simp add: tables_ok_def)
  then have "ou_orderNo w \<noteq> []" using order_outcome_facts [OF w(1)] by blast
  moreover have "finish_order outcome = Inr \<lparr>or_orderNo = ou_orderNo outcome, or_itemCount = int (ou_itemCount outcome), or_conflicts = ou_conflicts outcome,
      or_boxConflicts = Some (ou_boxConflicts outcome), or_acceptedBoxes = Some (ou_acceptedBoxes outcome)\<rparr>"
    unfolding d(2) by (simp add: finish_order_def kioskResultFromOutcome_def new_outcome_def)
  ultimately have "answer_ok h db1 rq (finish_order outcome)" using w unfolding d(2) filed_def by (auto simp: answers_def)
  then show ?thesis using answer_lasts [OF _ la f] lasting_trans [OF conjunct2 [OF i] la] t2 unfolding d(1) by simp
qed

lemma commit_ok:
  assumes t: "tables_ok h lim body db" and f: "faithful body rq" and p: "plan_ok h lim db rq jb plan"
    and a: "apply_plan h db rq jb plan = Inr (db', outcome)"
  shows "tables_ok h lim body db' \<and> lasting h body db db' \<and> answer_ok h db' rq (finish_order outcome)"
proof (cases plan)
  case (Plan_winner w)
  then have d: "db' = consumeKioskAdmission db (oq_kioskId rq) (oq_seq rq)" "outcome = w" using a by (simp_all add: apply_plan_def Let_def)
  have ok: "orders_ok h body db" using t by (simp add: tables_ok_def)
  have "findSerializedKioskWinner h db rq = Some w" using p Plan_winner by simp
  note w = winner_answer [OF this ok]
  then show ?thesis using answer_lasts [OF conjunct1 [OF w] lasting_consume f] t unfolding d by (simp add: finish_order_def)
next
  case Plan_forbidden
  then show ?thesis using commit_forbidden [OF t f] p a by simp
next
  case (Plan_lines split cs vs)
  then show ?thesis using commit_refused [OF t f] commit_filed [OF t f] p a by (cases "accepted_bottles_of split = 0") blast+
qed

subsection \<open>A rejection that is read late\<close>

lemma first_box_join: "vs \<noteq> [] \<Longrightarrow> first_box_reason (joinStoredConflicts cs vs) = Some (bv_reason (hd vs))"
proof (induction cs)
  case Nil
  then show ?case by (cases vs) (simp_all add: joinStoredConflicts_def)
next
  case (Cons c cs)
  then show ?case by (cases c) (simp add: joinStoredConflicts_def)
qed

lemma first_box_none: "first_box_reason (joinStoredConflicts cs []) = None"
  by (induction cs) (auto simp: joinStoredConflicts_def)

lemma box_reason_terminal: "isBoxConflictReason r \<Longrightarrow> legacyBoxTerminalReason (Some r) = Some (lit ''order_rejected'')"
  unfolding isBoxConflictReason_def legacyBoxTerminalReason_def isKioskRejectionTerminalReason_def by (auto simp: lit_inj lit_empty)

lemma late_rejection:
  assumes ok: "orders_ok h body db" and rej: "rejections_ok body db" and f: "faithful body rq" and v: "vNext rq"
    and o: "findOrderOutcome h db (oq_kioskId rq) (oq_seq rq) = Some w" and r: "findRejectionOutcome db (oq_kioskId rq) (oq_seq rq) = Some w'"
  shows "refused_with w (throwPersistedKioskRejection w')"
proof -
  obtain o' where o': "List.find (\<lambda>o'. po_kioskId o' = oq_kioskId rq \<and> po_deviceSeq o' = oq_seq rq) (pk_orders db) = Some o'"
    using o by (auto simp: findOrderOutcome_def)
  obtain row where row: "List.find (\<lambda>r. sr_kioskId r = oq_kioskId rq \<and> sr_deviceSeq r = oq_seq rq) (pk_rejections db) = Some row"
    using r by (auto simp: findRejectionOutcome_def split: bind_splits)
  have m: "o' \<in> set (pk_orders db)" "po_kioskId o' = oq_kioskId rq" "po_deviceSeq o' = oq_seq rq"
      "row \<in> set (pk_rejections db)" "sr_kioskId row = oq_kioskId rq" "sr_deviceSeq row = oq_seq rq"
    using o' row by (auto simp: find_Some_iff)
  have "oc_boxes (body (sr_kioskId row) (sr_deviceSeq row)) \<noteq> None" "(sr_kioskId row, sr_deviceSeq row) \<in> (\<lambda>o'. (po_kioskId o', po_deviceSeq o')) ` set (pk_orders db)"
    using m faithful_content(3) [OF f] v by (auto intro!: image_eqI [of _ _ o'])
  then have "(sr_kioskId row, sr_deviceSeq row, sr_codes row) \<in> filed_conflicts db"
    using rej m(4) unfolding rejections_ok_def rejection_ok_def by blast
  then obtain o2 where o2: "o2 \<in> set (pk_orders db)" "po_kioskId o2 = oq_kioskId rq" "po_deviceSeq o2 = oq_seq rq" "sr_codes row = stored_of o2"
    using m by (auto simp: filed_conflicts_def)
  have "inj_on (\<lambda>o'. (po_kioskId o', po_deviceSeq o')) (set (pk_orders db))" using ok by (simp add: orders_ok_def distinct_map)
  then have "o2 = o'" by (rule inj_onD) (use o2 m in simp_all)
  moreover have "order_ok h body db o'" using ok m(1) by (simp add: orders_ok_def)
  ultimately obtain cs vs where c: "sr_codes row = joinStoredConflicts cs vs" "stored_of o' = joinStoredConflicts cs vs" "loose_reasons cs" "box_reasons vs"
    using o2(4) unfolding order_ok_def by auto
  have s: "splitStoredConflicts (joinStoredConflicts cs vs) = (cs, vs)" using split_join [OF c(3,4), of "[]"] by simp
  have w: "\<not> ou_rejected w" "ou_conflicts w = cs" "ou_boxConflicts w = vs"
    using o o' c(2) s by (auto simp: findOrderOutcome_def Let_def stored_of_def)
  have mk: "request_marker (joinStoredConflicts cs vs) = None" using marker_join [of cs vs "[]"] by simp
  have ne: "vs \<noteq> []" using r row c(1) mk first_box_none [of cs] by (auto simp: findRejectionOutcome_def Let_def legacyBoxTerminalReason_def split: prod.splits)
  have "isBoxConflictReason (bv_reason (hd vs))" using c(4) ne by (cases vs) simp_all
  then have t: "legacyBoxTerminalReason (first_box_reason (joinStoredConflicts cs vs)) = Some (lit ''order_rejected'')"
    unfolding first_box_join [OF ne] by (rule box_reason_terminal)
  have "ou_terminalReason w' = Some (lit ''order_rejected'')" "ou_conflicts w' = cs" "ou_boxConflicts w' = vs"
    using r row c(1) mk t s by (auto simp: findRejectionOutcome_def Let_def)
  then show ?thesis using w ne by (simp add: refused_with_def throwPersistedKioskRejection_def lit_def)
qed

subsection \<open>A step of a request\<close>

fun pc_ok :: "server_host \<Rightarrow> (jstring \<rightharpoonup> nat) \<Rightarrow> pickup_db \<Rightarrow> order_lock \<Rightarrow> nat \<Rightarrow> order_request \<Rightarrow> order_pc \<Rightarrow> bool" where
  "pc_ok h lim db lock i rq (Q_consume w) \<longleftrightarrow> findOrderOutcome h db (oq_kioskId rq) (oq_seq rq) = Some w"
| "pc_ok h lim db lock i rq (Q_early row hasLines e) \<longleftrightarrow> early_ok rq row e \<and> hasLines"
| "pc_ok h lim db lock i rq (Q_wait jb) \<longleftrightarrow> job_ok rq jb"
| "pc_ok h lim db lock i rq (Q_decide jb) \<longleftrightarrow> job_ok rq jb \<and> lock = Some (i, oq_kioskId rq)"
| "pc_ok h lim db lock i rq (Q_commit jb plan) \<longleftrightarrow> job_ok rq jb \<and> plan_ok h lim db rq jb plan \<and> lock = Some (i, oq_kioskId rq)"
| "pc_ok h lim db lock i rq (Q_race jb split) \<longleftrightarrow> job_ok rq jb"
| "pc_ok h lim db lock i rq (Q_done r) \<longleftrightarrow> answer_ok h db rq r"
| "pc_ok h lim db lock i rq _ \<longleftrightarrow> True"

lemma plan_undisturbed:
  "plan_ok h lim db rq jb plan \<Longrightarrow> undisturbed h body lock db db' \<Longrightarrow> faithful body rq \<Longrightarrow> map_option snd lock = Some (oq_kioskId rq)
     \<Longrightarrow> plan_ok h lim db' rq jb plan"
proof (cases plan)
  case (Plan_lines split cs vs)
  assume p: "plan_ok h lim db rq jb plan" and u: "undisturbed h body lock db db'" and f: "faithful body rq" "map_option snd lock = Some (oq_kioskId rq)"
  have "taken_on db' e day \<le> taken_on db e day" for e day using u by (simp add: undisturbed_def)
  then have "allowance_left lim db rq jb split \<Longrightarrow> allowance_left lim db' rq jb split"
    unfolding allowance_left_def by (meson add_le_mono1 order_trans)
  then show ?thesis using p u f Plan_lines unfolding undisturbed_def by simp
qed (auto simp: undisturbed_def lasting_def)

lemma pc_undisturbed:
  assumes "pc_ok h lim db lock i rq pc" "undisturbed h body lock db db'" "faithful body rq"
  shows "pc_ok h lim db' lock i rq pc"
proof -
  have l: "lasting h body db db'" using assms(2) by (simp add: undisturbed_def)
  then have c: "findOrderOutcome h db k q = Some w \<Longrightarrow> findOrderOutcome h db' k q = Some w" for k q w by (simp add: lasting_def)
  show ?thesis using assms(1) c answer_lasts [OF _ l assms(3)] plan_undisturbed [OF _ assms(2,3)] by (cases pc) auto
qed

lemma pc_after_commit:
  assumes "pc_ok h lim db lock i rq pc" "lasting h body db db'" "faithful body rq" "map_option fst lock \<noteq> Some i"
  shows "pc_ok h lim db' lock' i rq pc"
proof -
  have c: "findOrderOutcome h db k q = Some w \<Longrightarrow> findOrderOutcome h db' k q = Some w" for k q w using assms(2) by (simp add: lasting_def)
  show ?thesis using assms(1,4) c answer_lasts [OF _ assms(2,3)] by (cases pc) auto
qed

lemma resolveItems_job:
  assumes "resolveItems db k (oq_items rq) = (cs, rs)"
  shows "job_ok rq \<lparr>jb_employeeId = e, jb_writeoffReasonId = r, jb_when = at, jb_attempt = 0, jb_maxAttempts = n, jb_remaining = rs, jb_conflicts = cs,
    jb_boxes = oq_boxes rq, jb_boxConflicts = []\<rparr>"
  using resolve_lines_spec [OF assms [unfolded resolveItems_def]] by (simp add: job_ok_def)

lemma reason_error_ok:
  assumes "resolveWriteoffReasonId db (oq_dto rq) = Inl e"
  shows "early_ok rq (early_row rq at emp badge (if od_writeoffReasonId (oq_dto rq) = None \<or> od_writeoffReasonId (oq_dto rq) = Some []
     then ''writeoff_reason_required'' else ''unknown_reason'')) e"
proof -
  have "e = (if od_writeoffReasonId (oq_dto rq) = None \<or> od_writeoffReasonId (oq_dto rq) = Some [] then writeoff_reason_required else unknown_reason)"
    using assms by (auto simp: resolveWriteoffReasonId_def split: if_splits option.splits)
  then show ?thesis by (intro early_row_ok) auto
qed

lemma other_errors [simp]:
  "ae_status (internal_error m) = 500" "ae_status subscription_read_only = 403" "ae_status retry_exhausted = 409" "ae_status box_request_too_large = 413"
  by (simp_all add: internal_error_def subscription_read_only_def retry_exhausted_def box_request_too_large_def refusal_def)

lemma policy_error: "policy_of db e = Inl x \<Longrightarrow> ae_status x = 500"
  by (auto simp: policy_of_def split: option.splits)

lemma employee_error: "resolveActiveEmployee db dto = Inl x \<Longrightarrow> ae_status x = 500"
  by (auto simp: resolveActiveEmployee_def policy_error split: option.splits sum.splits)

lemma resolve_boxes_error: "resolve_boxes db cs inputs = Inl x \<Longrightarrow> ae_status x = 500"
proof (induction inputs)
  case (Cons s inputs)
  have "resolve_box db cs s = Inl x \<Longrightarrow> ae_status x = 500"
    by (auto simp: resolve_box_def Let_def split: option.splits registry_change.splits)
  then show ?case using Cons by (auto split: sum.splits)
qed simp

lemma decide_error: "decide h db rq jb = Inl x \<Longrightarrow> ae_status x \<in> {500, 413}"
  by (auto simp: decide_def resolveLivePickupPolicy_def resolveOrderBoxes_def assertOrderBoxMemberBudget_def Let_def policy_error resolve_boxes_error
      split: option.splits sum.splits if_splits)

definition step_ok ::
    "server_host \<Rightarrow> (jstring \<rightharpoonup> nat) \<Rightarrow> (jstring \<Rightarrow> int \<Rightarrow> order_content) \<Rightarrow> nat \<Rightarrow> order_request \<Rightarrow> pickup_db \<Rightarrow> order_lock \<Rightarrow> pickup_db \<times> order_lock \<times> order_pc \<Rightarrow> bool" where
  "step_ok h lim body i rq db lock r \<longleftrightarrow> (case r of (db', lock', pc') \<Rightarrow> tables_ok h lim body db' \<and> pc_ok h lim db' lock' i rq pc'
     \<and> (lock' = lock \<and> undisturbed h body lock db db' \<or> lock = None \<and> db' = db \<or> map_option fst lock = Some i \<and> lasting h body db db'))"

lemma step_stays: "tables_ok h lim body db \<Longrightarrow> pc_ok h lim db lock i rq pc' \<Longrightarrow> step_ok h lim body i rq db lock (db, lock, pc')"
  by (simp add: step_ok_def)

lemma access_step_ok: "pc_ok h lim db lock i rq (access_step h db rq access now)"
  by (auto simp: access_step_def split: recovery_access.split option.split)

lemma race_ok: "job_ok rq jb \<Longrightarrow> pc_ok h lim db lock i rq (race_step db jb split)"
proof -
  assume j: "job_ok rq jb"
  have "(\<exists>jb'. race_step db jb split = Q_wait jb') \<or> (\<exists>e. race_step db jb split = Q_done (Inl e) \<and> ae_status e \<in> {500, 409})"
    unfolding race_step_def Let_def by (auto split: prod.split)
  then show ?thesis using race_step_ok [OF j] by auto
qed

lemma step_employee:
  assumes "tables_ok h lim body db"
  shows "step_ok h lim body i rq db lock (request_step h access now i rq db lock (Q_employee at))"
  using employee_error [of db "oq_dto rq"]
  by (auto intro!: step_stays [OF assms] early_row_ok split: sum.split option.split prod.split)

lemma step_early:
  assumes t: "tables_ok h lim body db" and f: "faithful body rq" and e: "early_ok rq row e"
  shows "step_ok h lim body i rq db lock (request_step h access now i rq db lock (Q_early row True e))"
proof -
  consider (old) "\<not> vNext rq" | (wait) "vNext rq" "map_option snd lock = Some (oq_kioskId rq)" | (free) "vNext rq" "map_option snd lock \<noteq> Some (oq_kioskId rq)" by blast
  then show ?thesis
  proof cases
    case old
    then show ?thesis using legacy_early [OF t f old e, of True lock] by (simp add: step_ok_def)
  next
    case wait
    then show ?thesis using t e by (simp add: step_stays)
  next
    case free
    obtain db' winner where p: "persistSerializedEarlyRejection h db row True = (db', winner)" by force
    show ?thesis using serialized_early [OF t f free(1) e free(2) p] free p by (simp add: step_ok_def)
  qed
qed

lemma step_commit:
  assumes t: "tables_ok h lim body db" and f: "faithful body rq" and j: "job_ok rq jb" and p: "plan_ok h lim db rq jb plan" and l: "lock = Some (i, oq_kioskId rq)"
  shows "step_ok h lim body i rq db lock (request_step h access now i rq db lock (Q_commit jb plan))"
proof (cases "apply_plan h db rq jb plan")
  case (Inl e)
  then show ?thesis using t j l by (cases e; cases plan) (simp_all add: step_ok_def)
next
  case (Inr r)
  obtain db' outcome where r: "r = (db', outcome)" by force
  show ?thesis using commit_ok [OF t f p Inr [unfolded r]] Inr r l by (simp add: step_ok_def)
qed

lemma request_step_ok:
  assumes t: "tables_ok h lim body db" and f: "faithful body rq" and p: "pc_ok h lim db lock i rq pc"
  shows "step_ok h lim body i rq db lock (request_step h access now i rq db lock pc)"
proof (cases pc)
  case (Q_consume w)
  have "orders_ok h body db" using t by (simp add: tables_ok_def)
  then have "answer_ok h db rq (kioskResultFromOutcome w)" using p Q_consume by (intro order_answer) simp_all
  from answer_lasts [OF this lasting_consume f] show ?thesis using t Q_consume by (simp add: step_ok_def)
next
  case Q_rejection
  have ok: "orders_ok h body db" "rejections_ok body db" using t by (simp_all add: tables_ok_def)
  have "answer_ok h db rq (Inl (throwPersistedKioskRejection w))" if r: "findRejectionOutcome db (oq_kioskId rq) (oq_seq rq) = Some w" for w
    using late_rejection [OF ok f _ _ r] rejection_outcome_facts [OF r] r
    by (cases "findOrderOutcome h db (oq_kioskId rq) (oq_seq rq)") (auto simp: findSerializedKioskWinner_def refused_with_def)
  then show ?thesis using Q_rejection by (auto intro!: step_stays [OF t] split: option.split)
next
  case (Q_employee at)
  then show ?thesis using step_employee [OF t] by simp
next
  case (Q_audit at)
  then show ?thesis using faithful_content(4) [OF f] by (auto intro!: step_stays [OF t] early_row_ok)
next
  case (Q_reason at e)
  then show ?thesis
    by (cases "resolveWriteoffReasonId db (oq_dto rq)") (simp_all only: request_step.simps sum.case step_stays [OF t] pc_ok.simps reason_error_ok simp_thms)
next
  case (Q_early row hasLines e)
  then show ?thesis using step_early [OF t f] p by simp
next
  case (Q_items at e r)
  then show ?thesis using resolveItems_job by (auto intro!: step_stays [OF t] split: prod.split)
next
  case (Q_wait jb)
  then show ?thesis using t p by (simp add: step_ok_def)
next
  case (Q_decide jb)
  have "answer_ok h db rq (Inl e)" if "decide h db rq jb = Inl e" for e using decide_error [OF that] by auto
  then show ?thesis using Q_decide t p decide_ok [of h db rq jb _ lim] by (auto simp: step_ok_def tables_ok_def split: sum.split)
next
  case (Q_commit jb plan)
  then show ?thesis using step_commit [OF t f] p by simp
qed (use p in \<open>auto intro!: step_stays [OF t] access_step_ok race_ok split: option.split\<close>)

subsection \<open>Every run\<close>

definition pickup_inv ::
    "server_host \<Rightarrow> (jstring \<rightharpoonup> nat) \<Rightarrow> (jstring \<Rightarrow> int \<Rightarrow> order_content) \<Rightarrow> pickup_db \<Rightarrow> order_lock \<Rightarrow> (order_request \<times> order_pc) list \<Rightarrow> bool" where
  "pickup_inv h lim body db lock ss \<longleftrightarrow> tables_ok h lim body db
     \<and> (\<forall>i<length ss. faithful body (fst (ss ! i)) \<and> pc_ok h lim db lock i (fst (ss ! i)) (snd (ss ! i)))"

lemma inv_undisturbed:
  assumes "pickup_inv h lim body db lock ss" "tables_ok h lim body db'" "undisturbed h body lock db db'"
  shows "pickup_inv h lim body db' lock ss"
  using assms pc_undisturbed [OF _ assms(3)] by (simp add: pickup_inv_def)

lemma settled_inv:
  assumes i: "pickup_inv h lim body db lock ss" and s: "settled db db'"
  shows "pickup_inv h lim body db' lock ss"
proof (rule inv_undisturbed [OF i])
  note f = settled_facts [OF s]
  have t: "tables_ok h lim body db" using i by (simp add: pickup_inv_def)
  have "within_limits lim db'" using t settled_taken_on [OF s] unfolding tables_ok_def within_limits_def by (meson order_trans)
  moreover have "rejections_ok body db'" using t f unfolding tables_ok_def rejections_ok_def rejection_ok_def by simp
  ultimately show "tables_ok h lim body db'" using t settled_orders_ok [OF s] f(3) by (simp add: tables_ok_def)
  show "undisturbed h body lock db db'" by (rule undisturbed_same [OF f(1,2) settled_taken_on [OF s]])
qed

lemma master_inv:
  assumes i: "pickup_inv h lim body db lock ss" and s: "same_orders db db'" "pk_rejections db' = pk_rejections db" "policies_ok lim db'"
  shows "pickup_inv h lim body db' lock ss"
proof (rule inv_undisturbed [OF i])
  note f = same_orders_facts [OF s(1)]
  have o: "pk_orders db' = pk_orders db" using s(1) by (simp add: same_orders_def)
  show "tables_ok h lim body db'"
    using i s f unfolding pickup_inv_def tables_ok_def within_limits_def rejections_ok_def rejection_ok_def filed_conflicts_def o by simp
  show "undisturbed h body lock db db'" by (rule undisturbed_same) (simp_all add: f(2,4) s(2))
qed

lemma attest_same:
  "attestKioskOrder h db k dto now access token = Inr (db', a) \<Longrightarrow> same_orders db db' \<and> pk_rejections db' = pk_rejections db
     \<and> pk_policies db' = pk_policies db \<and> pk_limitsEnabled db' = pk_limitsEnabled db"
  by (auto simp: attestKioskOrder_def same_orders_def Let_def split: option.splits prod.splits if_splits)

lemma progress_inv:
  assumes i: "pickup_inv h lim body db lock ss" and n: "i < length ss" "ss ! i = (rq, pc)"
    and step: "request_step h access now i rq db lock pc = (db', lock', pc')"
  shows "pickup_inv h lim body db' lock' (ss[i := (rq, pc')])"
proof -
  have t: "tables_ok h lim body db" and s: "\<And>j. j < length ss \<Longrightarrow> faithful body (fst (ss ! j)) \<and> pc_ok h lim db lock j (fst (ss ! j)) (snd (ss ! j))"
    using i by (simp_all add: pickup_inv_def)
  have f: "faithful body rq" "pc_ok h lim db lock i rq pc" using s [OF n(1)] n(2) by simp_all
  have ok: "step_ok h lim body i rq db lock (db', lock', pc')" using request_step_ok [OF t f, of access now] step by simp
  have "pc_ok h lim db' lock' j (fst (ss ! j)) (snd (ss ! j))" if j: "j < length ss" "j \<noteq> i" for j
  proof -
    consider (same) "lock' = lock" "undisturbed h body lock db db'" | (free) "lock = None" "db' = db" | (mine) "map_option fst lock = Some i" "lasting h body db db'"
      using ok by (auto simp: step_ok_def)
    then show ?thesis
    proof cases
      case same
      then show ?thesis using pc_undisturbed s [OF j(1)] by blast
    next
      case free
      have "map_option fst lock \<noteq> Some j" using free by simp
      then show ?thesis using pc_after_commit [OF _ lasting_refl] s [OF j(1)] free(2) by blast
    next
      case mine
      have "map_option fst lock \<noteq> Some j" using mine(1) j(2) by auto
      then show ?thesis using pc_after_commit [OF _ mine(2)] s [OF j(1)] by blast
    qed
  qed
  moreover have "tables_ok h lim body db'" "pc_ok h lim db' lock' i rq pc'" using ok by (simp_all add: step_ok_def)
  ultimately show ?thesis using f(1) s n(1) by (simp add: pickup_inv_def nth_list_update)
qed

lemma die_inv:
  assumes i: "pickup_inv h lim body db lock ss" and n: "i < length ss" "ss ! i = (rq, pc)"
  shows "pickup_inv h lim body db (if map_option fst lock = Some i then None else lock) (ss[i := (rq, Q_done (Inl (internal_error m)))])"
proof -
  have s: "\<And>j. j < length ss \<Longrightarrow> faithful body (fst (ss ! j)) \<and> pc_ok h lim db lock j (fst (ss ! j)) (snd (ss ! j))" using i by (simp add: pickup_inv_def)
  have "pc_ok h lim db (if map_option fst lock = Some i then None else lock) j (fst (ss ! j)) (snd (ss ! j))" if j: "j < length ss" "j \<noteq> i" for j
  proof (cases "map_option fst lock = Some i")
    case True
    then have "map_option fst lock \<noteq> Some j" using j(2) by auto
    then have "pc_ok h lim db None j (fst (ss ! j)) (snd (ss ! j))" using pc_after_commit [OF _ lasting_refl] s [OF j(1)] by blast
    then show ?thesis using True by simp
  qed (use s [OF j(1)] in simp)
  then show ?thesis using i s [OF n(1)] n by (auto simp: pickup_inv_def nth_list_update)
qed

lemma pickup_run_inv: "pickup_run h lim body db lock ss \<Longrightarrow> pickup_inv h lim body db lock ss"
proof (induction rule: pickup_run.induct)
  case (start db)
  then have o: "orders_ok h body db" "rejections_ok body db" by (simp_all add: orders_ok_def open_keys_def rejections_ok_def)
  have "taken_on db e day = 0" for e day using start by (simp add: taken_on_alt)
  then show ?case using start o by (simp add: pickup_inv_def tables_ok_def within_limits_def)
next
  case (request db lock ss rq)
  then show ?case by (auto simp: pickup_inv_def nth_append less_Suc_eq)
next
  case (progress db lock ss i rq pc access now db' lock' pc')
  then show ?case by (intro progress_inv)
next
  case (die db lock ss i rq pc)
  then show ?case by (intro die_inv)
next
  case (reserve db lock ss kioskId dto now access token db' a)
  then have "policies_ok lim db'" using attest_same [OF reserve.hyps(2)] by (simp add: pickup_inv_def tables_ok_def policies_ok_def)
  then show ?case using master_inv [OF reserve.IH] attest_same [OF reserve.hyps(2)] by blast
next
  case (resolve db lock ss orderId action userId now db')
  then show ?case using settled_inv resolve_settled by blast
next
  case (cancel db lock ss orderId db')
  then show ?case using settled_inv cancel_settled by blast
next
  case (external db lock ss status orderId now db' r)
  then show ?case using settled_inv external_settled by blast
next
  case (master_data db lock ss db')
  then show ?case using master_inv by blast
qed

section \<open>Properties\<close>

text \<open>A final answer names an order or a refusal the kiosk does not send again.\<close>

fun final_answer :: "api_error + order_result \<Rightarrow> bool" where
  "final_answer (Inr res) \<longleftrightarrow> or_orderNo res \<noteq> []"
| "final_answer (Inl e) \<longleftrightarrow> ae_status e \<in> {400, 422}"

definition same_result :: "order_result \<Rightarrow> order_result \<Rightarrow> bool" where
  "same_result a b \<longleftrightarrow> or_orderNo a = or_orderNo b \<and> or_itemCount a = or_itemCount b \<and> or_conflicts a = or_conflicts b
     \<and> or_boxConflicts a = or_boxConflicts b \<and> map_option mset (or_acceptedBoxes a) = map_option mset (or_acceptedBoxes b)"

text \<open>A refusal that lists the conflicts of an order, one of them a box.\<close>

definition repeats_conflicts :: "api_error \<Rightarrow> order_result \<Rightarrow> bool" where
  "repeats_conflicts e res \<longleftrightarrow> (\<exists>vs. or_boxConflicts res = Some vs \<and> vs \<noteq> [] \<and> e = orderRejectedResponse (or_conflicts res) vs)"

fun agree :: "api_error + order_result \<Rightarrow> api_error + order_result \<Rightarrow> bool" where
  "agree (Inr a) (Inr b) \<longleftrightarrow> same_result a b"
| "agree (Inl e) (Inl f) \<longleftrightarrow> e = f"
| "agree (Inr a) (Inl e) \<longleftrightarrow> repeats_conflicts e a"
| "agree (Inl e) (Inr a) \<longleftrightarrow> repeats_conflicts e a"

lemma run_answer: "pickup_run h lim body db lock ss \<Longrightarrow> (rq, Q_done r) \<in> set ss \<Longrightarrow> answer_ok h db rq r \<and> faithful body rq"
  using pickup_run_inv by (fastforce simp: pickup_inv_def in_set_conv_nth)

lemma answers_refused:
  assumes "answers res w" "\<not> ou_rejected w" "refused_with w e"
  shows "repeats_conflicts e res"
  using assms by (simp add: answers_def refused_with_def repeats_conflicts_def)

lemma refused_unique: "refused_with w e \<Longrightarrow> refused_with w f \<Longrightarrow> e = f"
  by (auto simp: refused_with_def split: if_splits)

text \<open>C4: However requests, retries, crashes, cancellations, resolutions and changes of the master data interleave, the server files
  each kiosk number at most once and each unit in at most one open order, and an order accounts for its body exactly:
  every scanned line is an item of the order or one of its conflicts, every box is one of its boxes or
  one of its conflicts, and the item count is the number of its item rows.\<close>

theorem orders_account_for_bodies:
  assumes "pickup_run h lim body db lock ss"
  shows "distinct (map (\<lambda>o'. (po_kioskId o', po_deviceSeq o')) (pk_orders db)) \<and> distinct (open_keys db)
    \<and> (\<forall>o'\<in>set (pk_orders db). order_ok h body db o')"
  using pickup_run_inv [OF assms] by (simp add: pickup_inv_def tables_ok_def orders_ok_def)

text \<open>C5: The daily allowance of an employee holds across kiosks: as long as the policies in force keep an employee limited to at
  most n a day, the orders filed under any UTC day and not cancelled never hold more than n of the employee's bought units, whichever kiosks they came from and
  however their requests interleave.\<close>

theorem allowance_over_kiosks:
  assumes "pickup_run h lim body db lock ss" "lim e = Some n"
  shows "taken_on db e day \<le> n"
  using pickup_run_inv [OF assms(1)] assms(2) by (simp add: pickup_inv_def tables_ok_def within_limits_def)

text \<open>C3: Any two answers that name an order for one number of a kiosk name the same order, with the same count, the same
  conflicts and the same boxes, however the requests, retries and crashes interleave. For a body of the current format
  (one with a list of boxes) every two final answers agree, refusals with status 400 and 422 included: both name that
  order, or both are the same refusal, or one names an order with a refused box and the other is the refusal
  \<open>order_rejected\<close> with exactly the conflicts of that order. A legacy body has no such promise for refusals: its early
  rejection is not looked up when the body comes again.\<close>

theorem answers_agree:
  assumes run: "pickup_run h lim body db lock ss" and a: "(rq1, Q_done r1) \<in> set ss" "(rq2, Q_done r2) \<in> set ss"
    and same: "oq_kioskId rq1 = oq_kioskId rq2" "oq_seq rq1 = oq_seq rq2" and final: "final_answer r1" "final_answer r2"
  shows "(\<forall>x y. r1 = Inr x \<and> r2 = Inr y \<longrightarrow> same_result x y) \<and> (vNext rq1 \<longrightarrow> agree r1 r2)"
proof (intro conjI allI impI)
  have ok: "answer_ok h db rq1 r1" "answer_ok h db rq2 r2" and f: "faithful body rq1" "faithful body rq2" using run_answer [OF run] a by blast+
  show results: "same_result x y" if "r1 = Inr x \<and> r2 = Inr y" for x y
    using that ok final same by (auto simp: same_result_def answers_def)
  assume v1: "vNext rq1"
  then have v2: "vNext rq2" using faithful_content(3) [OF f(1)] faithful_content(3) [OF f(2)] same by simp
  have winner: "findSerializedKioskWinner h db rq1 = findSerializedKioskWinner h db rq2"
    using same v1 v2 by (simp add: findSerializedKioskWinner_def split: option.split)
  have filed: "\<exists>w. findSerializedKioskWinner h db rq = Some w \<and> \<not> ou_rejected w \<and> answers res w"
    if "answer_ok h db rq (Inr res)" "final_answer (Inr res)" for rq res
    using that order_outcome_facts by (fastforce simp: findSerializedKioskWinner_def)
  have refused: "\<exists>w. findSerializedKioskWinner h db rq = Some w \<and> refused_with w e"
    if "answer_ok h db rq (Inl e)" "final_answer (Inl e)" "vNext rq" for rq e using that by auto
  show "agree r1 r2"
  proof (cases r1; cases r2)
    fix e g assume r: "r1 = Inl e" "r2 = Inl g"
    then show ?thesis using refused [of rq1 e] refused [of rq2 g] ok final v1 v2 winner refused_unique by fastforce
  next
    fix e res assume r: "r1 = Inl e" "r2 = Inr res"
    then show ?thesis using refused [of rq1 e] filed [of rq2 res] ok final v1 winner answers_refused by fastforce
  next
    fix res e assume r: "r1 = Inr res" "r2 = Inl e"
    then show ?thesis using refused [of rq2 e] filed [of rq1 res] ok final v2 winner answers_refused by fastforce
  next
    fix res res' assume r: "r1 = Inr res" "r2 = Inr res'"
    then show ?thesis using results by simp
  qed
qed

subsection \<open>An overlap\<close>

text \<open>A kiosk with one product, an employee with a limit of five, and a body of one unit and one unknown box that is sent twice.\<close>

definition overlap_host :: server_host where
  "overlap_host = \<lparr>sv_parse = (\<lambda>_. None), sv_iso = (\<lambda>_. []), sv_year = (\<lambda>_. 2026), sv_tokenHash = (\<lambda>t. t), sv_digest = (\<lambda>_. []), sv_collate = (\<lambda>_ _. 0)\<rparr>"

definition overlap_box :: jstring where
  "overlap_box = lit ''046070283000000011''"

definition overlap_request :: order_request where
  "overlap_request = \<lparr>oq_kioskId = [1],
     oq_dto = \<lparr>od_deviceSeq = 7, od_badge = Badge_code [9], od_reason = Buy, od_writeoffReasonId = None, od_items = [km_sample], od_boxes = Some [overlap_box],
       od_createdAt = None, od_admissionProof = None, od_admissionNonce = None\<rparr>,
     oq_orderId = (\<lambda>_. [5]), oq_boxRowId = (\<lambda>_ _. [6])\<rparr>"

definition overlap_start :: pickup_db where
  "overlap_start = \<lparr>pk_registry = sample_registry, pk_orders = [], pk_orderBoxes = [], pk_items = [], pk_rejections = [], pk_admissions = [], pk_counter = None,
     pk_activeEmployees = [[2]], pk_badges = [\<lparr>bd_employeeId = [2], bd_badgeCode = [9], bd_badgeHash = None, bd_revokedAt = None\<rparr>],
     pk_policies = [\<lparr>pp_employeeId = [2], pp_limited = True, pp_dayLimit = 5, pp_canWriteoff = False\<rparr>], pk_limitsEnabled = Some True, pk_reasons = [],
     pk_kioskProducts = [([1], sample_uuid)], pk_badgeSalt = None\<rparr>"

definition overlap_item :: resolved_item where
  "overlap_item = \<lparr>li_rawKm = km_sample, li_productId = sample_uuid, li_gtin14 = sample_gtin14, li_serial = lit ''ABC'', li_kmKey = sample_key, li_unitPrice = None\<rparr>"

definition overlap_job :: order_job where
  "overlap_job = \<lparr>jb_employeeId = [2], jb_writeoffReasonId = None, jb_when = 0, jb_attempt = 0, jb_maxAttempts = 3, jb_remaining = [overlap_item],
     jb_conflicts = [], jb_boxes = [overlap_box], jb_boxConflicts = []\<rparr>"

definition overlap_refusal :: box_verdict where
  "overlap_refusal = box_refusal overlap_box None (lit ''unknown_box'')"

definition overlap_split :: limited_lines where
  "overlap_split = \<lparr>ls_acceptedLoose = [overlap_item], ls_looseConflicts = [], ls_acceptedBoxes = [], ls_boxConflicts = []\<rparr>"

definition overlap_row :: pickup_order where
  "overlap_row = order_row overlap_request overlap_job overlap_split [Stored_box overlap_refusal] (formatOrderNo (\<lambda>_. 2026) 1 0)"

definition overlap_db :: pickup_db where
  "overlap_db = overlap_start\<lparr>pk_counter := Some 1, pk_orders := [overlap_row], pk_items := [loose_row [5] 0 overlap_item],
     pk_rejections := [rejection_row overlap_request overlap_job (Some [5]) [Stored_box overlap_refusal]]\<rparr>"

definition overlap_result :: order_result where
  "overlap_result = \<lparr>or_orderNo = formatOrderNo (\<lambda>_. 2026) 1 0, or_itemCount = 1, or_conflicts = [], or_boxConflicts = Some [overlap_refusal],
     or_acceptedBoxes = Some []\<rparr>"

lemma overlap_km: "validatePickupKm km_sample None = PickupOk (km_of (sample_segs sample_tail) km_sample) sample_key"
proof -
  have "list_all (\<lambda>c. c < 128) km_sample" by (simp add: sample_eval)
  then have "classifyScan km_sample = ScanKm (km_of (sample_segs sample_tail) km_sample)"
    using classifyScan_km [OF sample_canonical(1)] by blast
  then show ?thesis by (simp add: validatePickupKm_def sample_segs_def sample_tail_def sample_key_def)
qed

lemma overlap_parts:
  "oq_kioskId overlap_request = [1]" "oq_seq overlap_request = 7" "oq_items overlap_request = [km_sample]" "oq_boxes overlap_request = [overlap_box]" "vNext overlap_request"
  "od_reason (oq_dto overlap_request) = Buy" "od_createdAt (oq_dto overlap_request) = None" "od_badge (oq_dto overlap_request) = Badge_code [9]"
  by (simp_all add: overlap_request_def oq_seq_def oq_items_def oq_boxes_def vNext_def kioskOrderProcessingLines_def)

lemma overlap_faithful: "faithful (\<lambda>_ _. canonicalKioskOrderContent (oq_dto overlap_request)) overlap_request"
proof -
  have "isValidSscc overlap_box" unfolding overlap_box_def by code_simp
  moreover have "km_sample \<noteq> [] \<and> length km_sample \<le> 1024 \<and> length (utf8 km_sample) \<le> 1024" by (simp add: sample_eval)
  ultimately show ?thesis
    by (simp add: faithful_def createOrderSchema_def overlap_request_def MAX_KIOSK_DEVICE_SEQ_def MAX_KIOSK_ORDER_ITEMS_def MAX_KIOSK_ORDER_BOXES_def MAX_KIOSK_RAW_SCAN_BYTES_def)
qed

lemma overlap_items: "resolveItems overlap_start [1] [km_sample] = ([], [overlap_item])"
proof -
  have "km_gtin14 (km_of (sample_segs sample_tail) km_sample) = sample_gtin14" "km_serial (km_of (sample_segs sample_tail) km_sample) = lit ''ABC''"
    by (simp_all add: km_of_def sample_segs_def sample_gtin14_def)
  then show ?thesis
    by (simp add: resolveItems_def overlap_km kioskAllowlist_def overlap_start_def sample_registry_def overlap_item_def)
qed

lemma overlap_decide:
  "decide overlap_host overlap_start overlap_request overlap_job = Inr (Plan_lines overlap_split [] [overlap_refusal])"
proof -
  have w: "findSerializedKioskWinner overlap_host overlap_start overlap_request = None"
    by (simp add: findSerializedKioskWinner_def findOrderOutcome_def findRejectionOutcome_def overlap_start_def)
  have p: "resolveLivePickupPolicy overlap_start [2] = Inr \<lparr>lv_limited = True, lv_dayLimit = 5, lv_canWriteoff = False\<rparr>"
    by (simp add: resolveLivePickupPolicy_def policy_of_def overlap_start_def)
  have ne: "box_sample_sscc \<noteq> overlap_box" by (simp add: box_sample_sscc_def overlap_box_def lit_inj)
  then have "order_candidates sample_registry [overlap_box] = []" by (simp add: order_candidates_def sample_registry_def)
  then have b: "resolveOrderBoxes sample_registry [overlap_box] = Inr ([], [overlap_refusal])"
    by (simp add: resolveOrderBoxes_def assertOrderBoxMemberBudget_def resolve_box_def overlap_refusal_def)
  have e: "open_keys overlap_start = []" "count_taken_today overlap_start e t = 0" "pk_registry overlap_start = sample_registry" for e t
    by (simp_all add: open_keys_def count_taken_today_def counted_items_def overlap_start_def)
  have "decide_lines overlap_start overlap_request overlap_job \<lparr>lv_limited = True, lv_dayLimit = 5, lv_canWriteoff = False\<rparr> [] [overlap_refusal]
      = Plan_lines overlap_split [] [overlap_refusal]"
    by (simp add: decide_lines_def e overlap_job_def applyOrderLineLimit_def overlap_split_def overlap_parts)
  then show ?thesis using w p b e(3) by (simp add: decide_def overlap_job_def overlap_parts)
qed

lemma overlap_commit:
  "apply_plan overlap_host overlap_start overlap_request overlap_job (Plan_lines overlap_split [] [overlap_refusal])
     = Inr (overlap_db, new_outcome overlap_host overlap_row overlap_split [] [overlap_refusal])"
proof -
  have row: "order_row overlap_request overlap_job overlap_split [Stored_box overlap_refusal] (formatOrderNo (sv_year overlap_host) 1 (jb_when overlap_job)) = overlap_row"
    by (simp add: overlap_row_def overlap_host_def overlap_job_def)
  have id: "po_id overlap_row = [5]" "po_kioskId overlap_row = [1]" "po_deviceSeq overlap_row = 7" "po_orderNo overlap_row = formatOrderNo (\<lambda>_. 2026) 1 0"
    unfolding overlap_row_def order_row_simps overlap_parts by (simp_all add: overlap_request_def)
  have j: "joinStoredConflicts [] [overlap_refusal] = [Stored_box overlap_refusal]" by (simp add: joinStoredConflicts_def)
  have n: "nextOrderNo overlap_host overlap_start (jb_when overlap_job) = (overlap_start\<lparr>pk_counter := Some 1\<rparr>, formatOrderNo (sv_year overlap_host) 1 (jb_when overlap_job))"
    by (simp add: nextOrderNo_def overlap_start_def)
  have i: "item_rows [5] f (jb_when overlap_job) overlap_split = [loose_row [5] 0 overlap_item]" for f
    by (simp add: item_rows_def overlap_split_def overlap_job_def)
  have s: "ls_acceptedBoxes overlap_split = []" "accepted_bottles_of overlap_split = 1" by (simp_all add: overlap_split_def accepted_bottles_of_def)
  have e: "pk_orders overlap_start = []" "pk_orderBoxes overlap_start = []" "open_keys overlap_start = []" "pk_items overlap_start = []" "pk_rejections overlap_start = []"
    by (simp_all add: overlap_start_def open_keys_def)
  have ins: "insert_order overlap_host overlap_start overlap_request overlap_job overlap_split [Stored_box overlap_refusal]
      = Inr (overlap_start\<lparr>pk_counter := Some 1, pk_orders := [overlap_row], pk_orderBoxes := [], pk_items := [loose_row [5] 0 overlap_item]\<rparr>, overlap_row)"
    unfolding insert_order_def n prod.case Let_def row id i s e by simp
  have c: "(po_itemCount overlap_row) = 1" "accepted_bottles_of overlap_split \<noteq> 0" by (simp_all add: overlap_row_def s)
  show ?thesis unfolding apply_plan_def Let_def order_plan.case j ins sum.case prod.case using c s e id
    by (simp add: consumeKioskAdmission_def recordScanRejection_def new_outcome_def overlap_parts) (simp add: overlap_db_def overlap_start_def)
qed

lemma overlap_before:
  "request_step overlap_host Write_access 0 i overlap_request overlap_start None Q_start = (overlap_start, None, Q_rejection)"
  "request_step overlap_host Write_access 0 i overlap_request overlap_start None Q_rejection = (overlap_start, None, Q_access)"
  "request_step overlap_host Write_access 0 i overlap_request overlap_start None Q_access = (overlap_start, None, Q_employee 0)"
  "request_step overlap_host Write_access 0 i overlap_request overlap_start None (Q_employee 0) = (overlap_start, None, Q_reason 0 [2])"
  "request_step overlap_host Write_access 0 i overlap_request overlap_start None (Q_reason 0 [2]) = (overlap_start, None, Q_items 0 [2] None)"
  "request_step overlap_host Write_access 0 i overlap_request overlap_start None (Q_items 0 [2] None) = (overlap_start, None, Q_wait overlap_job)"
proof -
  have o: "findOrderOutcome h overlap_start k q = None" "findRejectionOutcome overlap_start k q = None" for h k q
    by (simp_all add: findOrderOutcome_def findRejectionOutcome_def overlap_start_def)
  show "request_step overlap_host Write_access 0 i overlap_request overlap_start None Q_start = (overlap_start, None, Q_rejection)"
    "request_step overlap_host Write_access 0 i overlap_request overlap_start None Q_rejection = (overlap_start, None, Q_access)"
    "request_step overlap_host Write_access 0 i overlap_request overlap_start None Q_access = (overlap_start, None, Q_employee 0)"
    by (simp_all add: o overlap_parts access_step_def resolveScanTime_def)
  have "resolveActiveEmployee overlap_start (oq_dto overlap_request) = Inr (Some ([2], \<lparr>lv_limited = True, lv_dayLimit = 5, lv_canWriteoff = False\<rparr>))"
    unfolding resolveActiveEmployee_def overlap_parts by (simp add: overlap_start_def policy_of_def)
  then show "request_step overlap_host Write_access 0 i overlap_request overlap_start None (Q_employee 0) = (overlap_start, None, Q_reason 0 [2])"
    by (simp add: overlap_parts)
  show "request_step overlap_host Write_access 0 i overlap_request overlap_start None (Q_reason 0 [2]) = (overlap_start, None, Q_items 0 [2] None)"
    by (simp add: resolveWriteoffReasonId_def overlap_parts)
  show "request_step overlap_host Write_access 0 i overlap_request overlap_start None (Q_items 0 [2] None) = (overlap_start, None, Q_wait overlap_job)"
    using overlap_items by (simp add: overlap_parts overlap_job_def)
qed

lemma overlap_late:
  "request_step overlap_host Write_access 0 i overlap_request overlap_db None Q_rejection = (overlap_db, None, Q_done (Inl (orderRejectedResponse [] [overlap_refusal])))"
proof -
  have b: "isBoxConflictReason (bv_reason overlap_refusal)" by (simp add: overlap_refusal_def)
  have "findRejectionOutcome overlap_db [1] 7 = Some \<lparr>ou_orderNo = [], ou_itemCount = 0, ou_conflicts = [], ou_boxConflicts = [overlap_refusal], ou_acceptedBoxes = [],
      ou_rejected = True, ou_terminalReason = Some (lit ''order_rejected''), ou_writeoffForbidden = False\<rparr>"
    using b box_reason_terminal [OF b] by (simp add: findRejectionOutcome_def overlap_db_def overlap_parts)
  then show ?thesis by (simp add: overlap_parts throwPersistedKioskRejection_def lit_inj)
qed

abbreviation overlap_body :: "jstring \<Rightarrow> int \<Rightarrow> order_content" where
  "overlap_body \<equiv> \<lambda>_ _. canonicalKioskOrderContent (oq_dto overlap_request)"

abbreviation overlap_limit :: "jstring \<rightharpoonup> nat" where
  "overlap_limit \<equiv> [[2] \<mapsto> 5]"

lemma overlap_run:
  "pickup_run overlap_host overlap_limit overlap_body overlap_db None
     [(overlap_request, Q_done (Inr overlap_result)), (overlap_request, Q_done (Inl (orderRejectedResponse [] [overlap_refusal])))]"
proof -
  let ?run = "pickup_run overlap_host overlap_limit overlap_body"
  have step: "?run db' lock' (ss[i := (overlap_request, pc')])" if "?run db lock ss" "i < length ss" "ss ! i = (overlap_request, pc)"
      "request_step overlap_host Write_access 0 i overlap_request db lock pc = (db', lock', pc')" for db lock ss i pc db' lock' pc'
    by (rule pickup_run.progress [OF that])
  have "policies_ok overlap_limit overlap_start" by (simp add: policies_ok_def overlap_start_def)
  then have "?run overlap_start None []" by (rule pickup_run.start) (simp_all add: overlap_start_def)
  from pickup_run.request [OF pickup_run.request [OF this overlap_faithful] overlap_faithful]
  have "?run overlap_start None [(overlap_request, Q_start), (overlap_request, Q_start)]" by simp
  from step [OF this _ _ overlap_before(1), of 0] have "?run overlap_start None [(overlap_request, Q_rejection), (overlap_request, Q_start)]" by simp
  from step [OF this _ _ overlap_before(1), of 1] have "?run overlap_start None [(overlap_request, Q_rejection), (overlap_request, Q_rejection)]" by simp
  from step [OF this _ _ overlap_before(2), of 0] have "?run overlap_start None [(overlap_request, Q_access), (overlap_request, Q_rejection)]" by simp
  from step [OF this _ _ overlap_before(3), of 0] have "?run overlap_start None [(overlap_request, Q_employee 0), (overlap_request, Q_rejection)]" by simp
  from step [OF this _ _ overlap_before(4), of 0] have "?run overlap_start None [(overlap_request, Q_reason 0 [2]), (overlap_request, Q_rejection)]" by simp
  from step [OF this _ _ overlap_before(5), of 0] have "?run overlap_start None [(overlap_request, Q_items 0 [2] None), (overlap_request, Q_rejection)]" by simp
  from step [OF this _ _ overlap_before(6), of 0] have "?run overlap_start None [(overlap_request, Q_wait overlap_job), (overlap_request, Q_rejection)]" by simp
  from step [OF this, of 0 "Q_wait overlap_job" overlap_start "Some (0, [1])" "Q_decide overlap_job"]
  have "?run overlap_start (Some (0, [1])) [(overlap_request, Q_decide overlap_job), (overlap_request, Q_rejection)]" by (simp add: overlap_parts)
  from step [OF this, of 0 "Q_decide overlap_job" overlap_start "Some (0, [1])" "Q_commit overlap_job (Plan_lines overlap_split [] [overlap_refusal])"]
  have committing: "?run overlap_start (Some (0, [1])) [(overlap_request, Q_commit overlap_job (Plan_lines overlap_split [] [overlap_refusal])), (overlap_request, Q_rejection)]"
    by (simp add: overlap_decide)
  have answer: "finish_order (new_outcome overlap_host overlap_row overlap_split [] [overlap_refusal]) = Inr overlap_result"
  proof -
    have "po_orderNo overlap_row = formatOrderNo (\<lambda>_. 2026) 1 0" "po_itemCount overlap_row = 1"
      unfolding overlap_row_def order_row_simps by (simp_all add: overlap_split_def accepted_bottles_of_def)
    then show ?thesis by (simp add: finish_order_def kioskResultFromOutcome_def new_outcome_def overlap_result_def by_sscc_def js_sort_def overlap_split_def)
  qed
  from step [OF committing, of 0 "Q_commit overlap_job (Plan_lines overlap_split [] [overlap_refusal])" overlap_db None "Q_done (Inr overlap_result)"]
  have "?run overlap_db None [(overlap_request, Q_done (Inr overlap_result)), (overlap_request, Q_rejection)]" by (simp add: overlap_commit answer)
  from step [OF this _ _ overlap_late, of 1] show ?thesis by simp
qed

lemma overlap_final: "final_answer (Inr overlap_result)" "final_answer (Inl (orderRejectedResponse [] [overlap_refusal]))"
  by (simp_all add: overlap_result_def orderRejectedResponse_def)

theorem orders_account_for_bodies_witness:
  "map po_deviceSeq (pk_orders overlap_db) = [7] \<and> order_ok overlap_host overlap_body overlap_db overlap_row"
  using orders_account_for_bodies [OF overlap_run] by (simp add: overlap_db_def overlap_row_def overlap_parts)

theorem allowance_over_kiosks_witness: "taken_on overlap_db [2] 0 = 1 \<and> taken_on overlap_db [2] 0 \<le> 5"
proof
  show "taken_on overlap_db [2] 0 = 1"
    by (simp add: taken_on_alt overlap_db_def loose_row_def overlap_row_def overlap_parts overlap_job_def utc_day_def) (simp add: overlap_request_def)
  show "taken_on overlap_db [2] 0 \<le> 5" by (rule allowance_over_kiosks [OF overlap_run]) simp
qed

theorem answers_agree_witness: "repeats_conflicts (orderRejectedResponse [] [overlap_refusal]) overlap_result"
  using answers_agree [OF overlap_run, of overlap_request "Inr overlap_result" overlap_request "Inl (orderRejectedResponse [] [overlap_refusal])"]
    overlap_final overlap_parts(5) by simp

text \<open>C35: The overlap exists. The rejection row that is written beside an order with refused boxes is read, without the lock, by a
  retry that looked for the order before it was committed: the server files the order for the first request and
  answers the second, for the same number, with the final refusal \<open>order_rejected\<close>.\<close>

theorem filed_order_refused:
  "\<exists>h lim body db lock ss rq res e. pickup_run h lim body db lock ss \<and> {(rq, Q_done (Inr res)), (rq, Q_done (Inl e))} \<subseteq> set ss
     \<and> final_answer (Inr res) \<and> or_itemCount res = 1 \<and> final_answer (Inl e) \<and> ae_code e = Some (lit ''order_rejected'')"
proof -
  have "or_itemCount overlap_result = 1" "ae_code (orderRejectedResponse [] [overlap_refusal]) = Some (lit ''order_rejected'')"
    by (simp_all add: overlap_result_def orderRejectedResponse_def)
  then show ?thesis using overlap_run overlap_final by (intro exI conjI) (assumption | simp)+
qed

end
