(* ===== verification/Kiosk_Drafts.thy ===== *)
theory Kiosk_Drafts
  imports Kiosk_Delivery
begin

text \<open>
  The drafts of confirmed pickups (\<open>apps/kiosk/src/grants/drafts.ts\<close>, \<open>grants/preparation.ts\<close>): a draft is stored with its
  sequence number before a task grant is asked for, found again when the same badge comes back, and retired when the worker
  cancels or another cart of the worker is prepared. The runs at the end join the drafts with the screens of \<open>Kiosk_Flow\<close>, so
  that a recovered session is one this kiosk confirmed and stored, and show what every order handed to the queue is like.

  The record of a draft lives in an object store under a JSON text; the model's key is the triple the text is made of, and the
  order of the texts, in which \<open>getAll\<close> lists the records, is an argument. Carts are compared as records for their JSON texts.
\<close>

section \<open>Model\<close>

datatype draft_status = Draft_pending | Draft_accepted | Draft_abandoned

record pickup_draft =
  pd_owner :: credential_owner
  pd_employeeId :: jstring
  pd_badgeDigest :: jstring
  pd_body :: create_order
  pd_cart :: cart_state
  pd_nonce :: jstring
  pd_status :: draft_status
  pd_taskReady :: bool

type_synonym draft_key = "jstring \<times> jstring \<times> int"
type_synonym draft_store = "(draft_key \<times> pickup_draft) list"

definition draftKey :: "credential_owner \<Rightarrow> int \<Rightarrow> draft_key" where
  "draftKey owner deviceSeq = (cw_serverUrl owner, cw_kioskId owner, deviceSeq)"

text \<open>What a preparation depends on beside the stores: the order of the keys, whether the grant state is strict and lets new work
  begin, the badges of the stored snapshot (none without a snapshot), a nonce, whether a current task grant is there or the
  server issued one, and the reservations that are stored by then, each with its time and proof.\<close>

record draft_env =
  dv_before :: "draft_key \<Rightarrow> draft_key \<Rightarrow> bool"
  dv_strict :: bool
  dv_newWork :: bool
  dv_badges :: "jstring \<Rightarrow> jstring option"
  dv_nonce :: jstring
  dv_granted :: bool
  dv_reservations :: "draft_key \<Rightarrow> (jstring \<times> jstring) option"

fun put_draft :: "(draft_key \<Rightarrow> draft_key \<Rightarrow> bool) \<Rightarrow> draft_key \<Rightarrow> pickup_draft \<Rightarrow> draft_store \<Rightarrow> draft_store" where
  "put_draft before k d [] = [(k, d)]"
| "put_draft before k d ((k', d') # ds) =
     (if k = k' then (k, d) # ds else if before k k' then (k, d) # (k', d') # ds else (k', d') # put_draft before k d ds)"

definition readPickupDraft :: "credential_owner \<Rightarrow> int \<Rightarrow> draft_store \<Rightarrow> pickup_draft option" where
  "readPickupDraft owner deviceSeq drafts = map_of drafts (draftKey owner deviceSeq)"

definition own_pending :: "credential_owner \<Rightarrow> jstring \<Rightarrow> pickup_draft \<Rightarrow> bool" where
  "own_pending owner employeeId d \<longleftrightarrow> pd_status d = Draft_pending \<and> pd_owner d = owner \<and> pd_employeeId d = employeeId"

definition matchingPickupDraft :: "credential_owner \<Rightarrow> kiosk_session \<Rightarrow> draft_store \<Rightarrow> pickup_draft option" where
  "matchingPickupDraft owner session drafts =
     List.find (\<lambda>d. own_pending owner (ke_id (kn_employee session)) d \<and> pd_badgeDigest d = kn_badgeDigest session
       \<and> pd_cart d = kn_cart session) (map snd drafts)"

text \<open>The loop that retires the drafts a condition selects among those the transaction read.\<close>

definition abandon_drafts ::
    "(draft_key \<Rightarrow> draft_key \<Rightarrow> bool) \<Rightarrow> credential_owner \<Rightarrow> (pickup_draft \<Rightarrow> bool) \<Rightarrow> draft_store \<Rightarrow> draft_store" where
  "abandon_drafts before owner retired drafts =
     foldl (\<lambda>ds d. if retired d then put_draft before (draftKey owner (co_deviceSeq (pd_body d))) (d\<lparr>pd_status := Draft_abandoned\<rparr>) ds else ds)
       drafts (map snd drafts)"

datatype draft_error =
  Draft_wrong_owner | Draft_denied | Draft_sequence_conflict | Draft_key_taken | Draft_missing_grant | Draft_wrong_task

definition preparePickupDraft ::
    "draft_env \<Rightarrow> credential_owner \<Rightarrow> kiosk_session \<Rightarrow> jstring \<Rightarrow> kiosk_store \<Rightarrow> draft_store
       \<Rightarrow> draft_error + kiosk_store \<times> draft_store \<times> pickup_draft" where
  "preparePickupDraft env owner session createdAt store drafts =
     (case kt_config store of
        None \<Rightarrow> Inl Draft_wrong_owner
      | Some cfg \<Rightarrow>
          if context_owner store \<noteq> Some owner then Inl Draft_wrong_owner
          else if dv_badges env (kn_badgeDigest session) \<noteq> Some (ke_id (kn_employee session)) then Inl Draft_wrong_owner
          else case matchingPickupDraft owner session drafts of
            Some saved \<Rightarrow> if \<not> pd_taskReady saved \<and> \<not> dv_newWork env then Inl Draft_denied else Inr (store, drafts, saved)
          | None \<Rightarrow>
              if \<not> dv_newWork env then Inl Draft_denied
              else
                let kept = abandon_drafts (dv_before env) owner (own_pending owner (ke_id (kn_employee session))) drafts;
                    deviceSeq = kc_nextDeviceSeq cfg;
                    d = \<lparr>pd_owner = owner, pd_employeeId = ke_id (kn_employee session), pd_badgeDigest = kn_badgeDigest session,
                         pd_body = createConfirmedOrderBody session deviceSeq createdAt, pd_cart = kn_cart session,
                         pd_nonce = dv_nonce env, pd_status = Draft_pending, pd_taskReady = False\<rparr>
                in if \<not> is_safe_integer (JInt deviceSeq) \<or> deviceSeq < 0 \<or> \<not> is_safe_integer (JInt (deviceSeq + 1))
                   then Inl Draft_sequence_conflict
                   else if readPickupDraft owner deviceSeq kept \<noteq> None then Inl Draft_key_taken
                   else Inr (store\<lparr>kt_config := Some (cfg\<lparr>kc_nextDeviceSeq := deviceSeq + 1\<rparr>)\<rparr>,
                             put_draft (dv_before env) (draftKey owner deviceSeq) d kept, d))"

definition recoverPickupDraft ::
    "draft_env \<Rightarrow> credential_owner \<Rightarrow> jstring \<Rightarrow> jstring \<Rightarrow> kiosk_store \<Rightarrow> draft_store \<Rightarrow> pickup_draft option" where
  "recoverPickupDraft env owner employeeId badgeDigest store drafts =
     (if context_owner store \<noteq> Some owner \<or> dv_badges env badgeDigest \<noteq> Some employeeId then None
      else case sort_key (\<lambda>d. - co_deviceSeq (pd_body d))
                  (filter (\<lambda>d. own_pending owner employeeId d \<and> pd_taskReady d \<and> pd_badgeDigest d = badgeDigest) (map snd drafts)) of
        [] \<Rightarrow> None
      | d # _ \<Rightarrow> Some d)"

definition abandonPickupDrafts ::
    "(draft_key \<Rightarrow> draft_key \<Rightarrow> bool) \<Rightarrow> credential_owner \<Rightarrow> jstring \<Rightarrow> cart_state \<Rightarrow> kiosk_store \<Rightarrow> draft_store \<Rightarrow> draft_store" where
  "abandonPickupDrafts before owner employeeId cart store drafts =
     (if context_owner store \<noteq> Some owner then drafts
      else abandon_drafts before owner (\<lambda>d. own_pending owner employeeId d \<and> pd_cart d = cart) drafts)"

text \<open>The installed task grant marks the pending draft it was read from, and only if the draft is still that one.\<close>

definition mark_ready ::
    "(draft_key \<Rightarrow> draft_key \<Rightarrow> bool) \<Rightarrow> credential_owner \<Rightarrow> int \<Rightarrow> pickup_draft \<Rightarrow> draft_store \<Rightarrow> draft_store" where
  "mark_ready before owner deviceSeq bound drafts =
     (if readPickupDraft owner deviceSeq drafts \<noteq> Some bound then drafts
      else put_draft before (draftKey owner deviceSeq) (bound\<lparr>pd_taskReady := True\<rparr>) drafts)"

text \<open>The queue accepts the order of a draft outside the strict mode; the flag says that the sequence was reserved by the draft.\<close>

definition accept_draft ::
    "(draft_key \<Rightarrow> draft_key \<Rightarrow> bool) \<Rightarrow> credential_owner \<Rightarrow> create_order \<Rightarrow> jstring \<Rightarrow> draft_store \<Rightarrow> draft_error + draft_store \<times> bool" where
  "accept_draft before owner body employeeId drafts =
     (case readPickupDraft owner (co_deviceSeq body) drafts of
        None \<Rightarrow> Inr (drafts, False)
      | Some draft \<Rightarrow>
          if \<not> own_pending owner employeeId draft \<or> orderContent (pd_body draft) \<noteq> orderContent body then Inl Draft_wrong_task
          else Inr (put_draft before (draftKey owner (co_deviceSeq body)) (draft\<lparr>pd_status := Draft_accepted\<rparr>) drafts, True))"

definition with_reservation :: "create_order \<Rightarrow> jstring \<times> jstring \<Rightarrow> create_order" where
  "with_reservation body r = body\<lparr>co_createdAt := Some (fst r), co_admissionProof := Some (snd r)\<rparr>"

definition prepareStrictPickup ::
    "draft_env \<Rightarrow> credential_owner \<Rightarrow> kiosk_session \<Rightarrow> jstring \<Rightarrow> kiosk_store \<Rightarrow> draft_store \<Rightarrow> draft_error + create_order option" where
  "prepareStrictPickup env owner session createdAt store drafts =
     (if \<not> dv_strict env then
        (case matchingPickupDraft owner session drafts of
           None \<Rightarrow> Inr None
         | Some pending \<Rightarrow>
             Inr (Some (case dv_reservations env (draftKey owner (co_deviceSeq (pd_body pending))) of
                          Some r \<Rightarrow> with_reservation (pd_body pending) r
                        | None \<Rightarrow> pd_body pending)))
      else case preparePickupDraft env owner session createdAt store drafts of
        Inl e \<Rightarrow> Inl e
      | Inr (_, _, draft) \<Rightarrow>
          if \<not> dv_granted env then Inl Draft_missing_grant
          else (case dv_reservations env (draftKey owner (co_deviceSeq (pd_body draft))) of
                  None \<Rightarrow> Inl Draft_missing_grant
                | Some r \<Rightarrow> Inr (Some (with_reservation (pd_body draft) r))))"

text \<open>The body \<open>submitCart\<close> hands to the queue, for the snapshot of that moment; \<open>None\<close> is the action \<open>submitFailed\<close>.\<close>

definition submitted_body ::
    "draft_env \<Rightarrow> kiosk_store \<Rightarrow> draft_store \<Rightarrow> kiosk_bootstrap option \<Rightarrow> kiosk_session \<Rightarrow> jstring \<Rightarrow> create_order option" where
  "submitted_body env store drafts bootstrap session createdAt =
     (case kt_config store of
        None \<Rightarrow> None
      | Some cfg \<Rightarrow>
          let policy = Option.bind bootstrap (\<lambda>b. effectivePickupPolicy b (ke_id (kn_employee session)))
          in if ca_reason (kn_cart session) = Writeoff \<and> \<not> (case policy of Some p \<Rightarrow> pp_canWriteoff p | None \<Rightarrow> False) then None
             else case boxRegistryCredentialOwnerOf cfg of
               None \<Rightarrow> None
             | Some owner \<Rightarrow>
                 if \<not> kc_hasToken cfg then None
                 else case prepareStrictPickup env owner session createdAt store drafts of
                   Inl _ \<Rightarrow> None
                 | Inr (Some prepared) \<Rightarrow> Some prepared
                 | Inr None \<Rightarrow> Some (createConfirmedOrderBody session (kc_nextDeviceSeq cfg) createdAt))"

section \<open>Runs\<close>

text \<open>The screens, the stored drafts, the drafts a badge has found and not yet shown, and the sessions whose submission began.
  A found draft is shown, and a confirmed session is prepared, at any later time; the stores beside the drafts are whatever
  they are at that moment. The drafts outlive a restart and change only by the operations above: prepared, marked, accepted,
  abandoned. (The strict completion accepts a draft under the conditions of \<open>accept_draft\<close> and more.)\<close>

inductive draft_run :: "kiosk_flow \<Rightarrow> draft_store \<Rightarrow> pickup_draft set \<Rightarrow> kiosk_session set \<Rightarrow> bool" where
  start: "draft_run initialKioskFlowState [] {} {}"
| restart: "draft_run flow drafts found confirmed \<Longrightarrow> draft_run initialKioskFlowState drafts {} {}"
| act: "draft_run flow drafts found confirmed \<Longrightarrow> (\<And>s. a \<noteq> DraftRecovered s) \<Longrightarrow>
    draft_run (kioskFlowReducer flow a) drafts found confirmed"
| confirm: "draft_run (Confirmation s False) drafts found confirmed \<Longrightarrow>
    draft_run (kioskFlowReducer (Confirmation s False) SubmissionStarted) drafts found (insert s confirmed)"
| prepare: "draft_run flow drafts found confirmed \<Longrightarrow> s \<in> confirmed \<Longrightarrow>
    preparePickupDraft env owner s createdAt store drafts = Inr (store', drafts', d) \<Longrightarrow> draft_run flow drafts' found confirmed"
| ready: "draft_run flow drafts found confirmed \<Longrightarrow> draft_run flow (mark_ready before owner deviceSeq d drafts) found confirmed"
| accepted: "draft_run flow drafts found confirmed \<Longrightarrow> accept_draft before owner body employeeId drafts = Inr (drafts', reserved) \<Longrightarrow>
    draft_run flow drafts' found confirmed"
| abandoned: "draft_run flow drafts found confirmed \<Longrightarrow>
    draft_run flow (abandonPickupDrafts before owner employeeId cart store drafts) found confirmed"
| find: "draft_run flow drafts found confirmed \<Longrightarrow> recoverPickupDraft env owner employeeId badgeDigest store drafts = Some d \<Longrightarrow>
    draft_run flow drafts (insert d found) confirmed"
| recover: "draft_run flow drafts found confirmed \<Longrightarrow> d \<in> found \<Longrightarrow>
    ke_id (kn_employee s) = pd_employeeId d \<Longrightarrow> kn_badgeDigest s = pd_badgeDigest d \<Longrightarrow>
    draft_run (kioskFlowReducer flow (DraftRecovered (with_cart s (pd_cart d)))) drafts found confirmed"

section \<open>Lemmas\<close>

text \<open>A draft holds a cart that may be confirmed and the body of that cart.\<close>

definition draft_ok :: "pickup_draft \<Rightarrow> bool" where
  "draft_ok d \<longleftrightarrow> cart_ok (pd_cart d) \<and> (\<exists>s deviceSeq t. pd_body d = createConfirmedOrderBody s deviceSeq t
     \<and> kn_cart s = pd_cart d \<and> kn_badgeDigest s = pd_badgeDigest d)"

definition drafts_ok :: "draft_store \<Rightarrow> bool" where
  "drafts_ok drafts \<longleftrightarrow> list_all draft_ok (map snd drafts)"

lemma drafts_okD: "drafts_ok drafts \<Longrightarrow> d \<in> snd ` set drafts \<Longrightarrow> draft_ok d"
  by (auto simp: drafts_ok_def list_all_iff)

lemma draft_ok_updates [simp]:
  "draft_ok (d\<lparr>pd_status := st\<rparr>) = draft_ok d" "draft_ok (d\<lparr>pd_taskReady := r\<rparr>) = draft_ok d"
  by (simp_all add: draft_ok_def)

lemma put_draft_ok: "drafts_ok drafts \<Longrightarrow> draft_ok d \<Longrightarrow> drafts_ok (put_draft before k d drafts)"
  by (induction before k d drafts rule: put_draft.induct) (simp_all add: drafts_ok_def)

lemma abandon_ok: "drafts_ok drafts \<Longrightarrow> drafts_ok (abandon_drafts before owner P drafts)"
proof -
  have "drafts_ok ds \<Longrightarrow> list_all draft_ok xs \<Longrightarrow>
      drafts_ok (foldl (\<lambda>ds d. if P d then put_draft before (draftKey owner (co_deviceSeq (pd_body d))) (d\<lparr>pd_status := Draft_abandoned\<rparr>) ds else ds) ds xs)"
    for xs ds by (induction xs arbitrary: ds) (simp_all add: put_draft_ok)
  from this [of drafts "map snd drafts"] show "drafts_ok drafts \<Longrightarrow> ?thesis" by (simp add: abandon_drafts_def drafts_ok_def)
qed

lemma read_in: "readPickupDraft owner n drafts = Some d \<Longrightarrow> d \<in> snd ` set drafts"
  by (force simp: readPickupDraft_def dest: map_of_SomeD)

lemma matching_in:
  assumes "matchingPickupDraft owner s drafts = Some d"
  shows "d \<in> snd ` set drafts" "pd_cart d = kn_cart s" "pd_badgeDigest d = kn_badgeDigest s"
proof -
  obtain i where "i < length drafts" "d = map snd drafts ! i" "pd_badgeDigest d = kn_badgeDigest s" "pd_cart d = kn_cart s"
    using assms by (auto simp: matchingPickupDraft_def find_Some_iff)
  then show "d \<in> snd ` set drafts" "pd_cart d = kn_cart s" "pd_badgeDigest d = kn_badgeDigest s" by simp_all
qed

lemma recovered_in: "recoverPickupDraft env owner e b store drafts = Some d \<Longrightarrow> d \<in> snd ` set drafts"
proof -
  let ?ds = "filter (\<lambda>d. own_pending owner e d \<and> pd_taskReady d \<and> pd_badgeDigest d = b) (map snd drafts)"
  assume "recoverPickupDraft env owner e b store drafts = Some d"
  then have "d \<in> set (sort_key (\<lambda>d. - co_deviceSeq (pd_body d)) ?ds)"
    by (auto simp: recoverPickupDraft_def simp del: set_sort split: if_splits list.splits)
  then show ?thesis by auto
qed

lemma prepare_ok:
  assumes "preparePickupDraft env owner s t store drafts = Inr (store', drafts', d)" "drafts_ok drafts" "cart_ok (kn_cart s)"
  shows "drafts_ok drafts' \<and> draft_ok d \<and> pd_cart d = kn_cart s \<and> pd_badgeDigest d = kn_badgeDigest s"
proof (cases "matchingPickupDraft owner s drafts")
  case (Some saved)
  then have "drafts' = drafts" "d = saved" using assms(1) by (auto simp: preparePickupDraft_def split: option.splits if_splits)
  then show ?thesis using matching_in [OF Some] drafts_okD [OF assms(2)] assms(2) by simp
next
  case None
  then obtain n kept before where d: "drafts' = put_draft before (draftKey owner n) d kept" "drafts_ok kept"
      "pd_cart d = kn_cart s" "pd_badgeDigest d = kn_badgeDigest s" "pd_body d = createConfirmedOrderBody s n t"
    using assms(1) abandon_ok [OF assms(2)] by (auto simp: preparePickupDraft_def Let_def split: option.splits if_splits)
  then have "draft_ok d" using assms(3) by (auto simp: draft_ok_def)
  then show ?thesis using d put_draft_ok by blast
qed

lemma draft_run_inv:
  "draft_run flow drafts found confirmed \<Longrightarrow>
     flow_inv flow \<and> drafts_ok drafts \<and> (\<forall>d\<in>found. draft_ok d) \<and> (\<forall>s\<in>confirmed. cart_ok (kn_cart s))"
proof (induction rule: draft_run.induct)
  case (restart flow drafts found confirmed)
  then show ?case by (simp add: initialKioskFlowState_def)
next
  case (act flow drafts found confirmed a)
  then have "flow_inv (kioskFlowReducer flow a)" by (intro reducer_inv) auto
  then show ?case using act.IH by blast
next
  case (confirm s drafts found confirmed)
  then show ?case by (simp add: kioskFlowReducer_def)
next
  case (prepare flow drafts found confirmed s env owner createdAt store store' drafts' d)
  then show ?case using prepare_ok by blast
next
  case (ready flow drafts found confirmed before owner deviceSeq d)
  then have "drafts_ok (mark_ready before owner deviceSeq d drafts)"
    using drafts_okD [OF _ read_in] by (auto simp: mark_ready_def intro!: put_draft_ok)
  then show ?case using ready.IH by blast
next
  case (accepted flow drafts found confirmed before owner body employeeId drafts' reserved)
  then have "drafts_ok drafts'"
    using drafts_okD [OF _ read_in] by (auto simp: accept_draft_def split: option.splits if_splits intro!: put_draft_ok)
  then show ?case using accepted.IH by blast
next
  case (abandoned flow drafts found confirmed before owner employeeId cart store)
  then show ?case using abandon_ok [of drafts] by (simp add: abandonPickupDrafts_def)
next
  case (find flow drafts found confirmed env owner employeeId badgeDigest store d)
  then have "draft_ok d" by (intro drafts_okD [of drafts]) (auto intro: recovered_in)
  then show ?case using find.IH by blast
next
  case (recover flow drafts found confirmed d s)
  then have "cart_ok (kn_cart (with_cart s (pd_cart d)))" by (auto simp: draft_ok_def)
  then have "flow_inv (kioskFlowReducer flow (DraftRecovered (with_cart s (pd_cart d))))" using recover.IH by (intro reducer_inv) auto
  then show ?case using recover.IH by blast
qed (simp add: initialKioskFlowState_def drafts_ok_def)

text \<open>The body of a cart that may be confirmed, with any number, time and proof.\<close>

definition body_of_cart :: "kiosk_session \<Rightarrow> create_order \<Rightarrow> bool" where
  "body_of_cart s body \<longleftrightarrow> co_items body = Some (map ll_rawKm (looseLines (kn_cart s)))
     \<and> co_boxes body = (if boxLines (kn_cart s) \<noteq> [] then Some (map bl_sscc (boxLines (kn_cart s))) else None)
     \<and> co_badgeDigest body = kn_badgeDigest s \<and> co_reason body = reason_name (ca_reason (kn_cart s))
     \<and> co_writeoffReasonId body = ca_writeoffReasonId (kn_cart s)"

lemma body_of_draft:
  assumes "draft_ok d" "pd_cart d = kn_cart s" "pd_badgeDigest d = kn_badgeDigest s"
  shows "body_of_cart s (pd_body d)" "body_of_cart s (with_reservation (pd_body d) r)"
  using assms by (auto simp: draft_ok_def body_of_cart_def createConfirmedOrderBody_def with_reservation_def)

lemma prepared_body:
  assumes "prepareStrictPickup env owner s t store drafts = Inr (Some body)" "drafts_ok drafts" "cart_ok (kn_cart s)"
  shows "body_of_cart s body"
proof (cases "dv_strict env")
  case True
  then obtain store' drafts' d r where p: "preparePickupDraft env owner s t store drafts = Inr (store', drafts', d)" "body = with_reservation (pd_body d) r"
    using assms(1) by (auto simp: prepareStrictPickup_def split: sum.splits if_splits option.splits)
  then show ?thesis using prepare_ok [OF p(1) assms(2,3)] body_of_draft(2) by blast
next
  case False
  then obtain d where m: "matchingPickupDraft owner s drafts = Some d" and b: "body = pd_body d \<or> (\<exists>r. body = with_reservation (pd_body d) r)"
    using assms(1) by (auto simp: prepareStrictPickup_def split: option.splits)
  have "draft_ok d" using matching_in(1) [OF m] drafts_okD [OF assms(2)] by blast
  then show ?thesis using b body_of_draft matching_in(2,3) [OF m] by blast
qed

lemma submitted_body_cart:
  assumes "submitted_body env store drafts bootstrap s t = Some body" "drafts_ok drafts" "cart_ok (kn_cart s)"
  shows "body_of_cart s body"
    "ca_reason (kn_cart s) = Writeoff \<Longrightarrow> \<exists>b pol. bootstrap = Some b \<and> effectivePickupPolicy b (ke_id (kn_employee s)) = Some pol \<and> pp_canWriteoff pol"
proof -
  consider n where "body = createConfirmedOrderBody s n t" | owner where "prepareStrictPickup env owner s t store drafts = Inr (Some body)"
    using assms(1) by (auto simp: submitted_body_def Let_def split: option.splits if_splits sum.splits)
  then show "body_of_cart s body"
    by cases (simp add: body_of_cart_def createConfirmedOrderBody_def, erule prepared_body [OF _ assms(2,3)])
  assume "ca_reason (kn_cart s) = Writeoff"
  then show "\<exists>b pol. bootstrap = Some b \<and> effectivePickupPolicy b (ke_id (kn_employee s)) = Some pol \<and> pp_canWriteoff pol"
    using assms(1) by (auto simp: submitted_body_def Let_def split: option.splits if_splits bind_splits)
qed

section \<open>Properties\<close>

text \<open>C18: Every order the kiosk hands to its queue is a proper one: in any run of the screens from pairing on, with any interleaving of
  scans, returns, timeouts, restarts, prepared, recovered and cancelled drafts, the body that the submission of a confirmed
  session produces (its own, or the one of the stored draft it continues, with or without a reservation) names at least
  one code or box and exactly the lines of the confirmed cart, carries the badge of the session, and is a purchase
  without a reason, or a write-off with a reason, and that only if the policy of the snapshot at the time of the
  submission lets the employee write off, also when the cart was recovered from a draft of a time when it did.\<close>

theorem kiosk_order_proper:
  assumes "draft_run flow drafts found confirmed" "s \<in> confirmed" "submitted_body env store drafts bootstrap s createdAt = Some body"
  shows "(co_items body \<noteq> Some [] \<or> co_boxes body \<noteq> None)
    \<and> co_items body = Some (map ll_rawKm (looseLines (kn_cart s)))
    \<and> (case co_boxes body of None \<Rightarrow> [] | Some bs \<Rightarrow> bs) = map bl_sscc (boxLines (kn_cart s))
    \<and> co_badgeDigest body = kn_badgeDigest s
    \<and> (co_reason body = lit ''buy'' \<and> co_writeoffReasonId body = None
       \<or> co_reason body = lit ''writeoff'' \<and> co_writeoffReasonId body \<noteq> None
         \<and> (\<exists>b pol. bootstrap = Some b \<and> effectivePickupPolicy b (ke_id (kn_employee s)) = Some pol \<and> pp_canWriteoff pol))"
proof -
  have ok: "drafts_ok drafts" "cart_ok (kn_cart s)" using draft_run_inv [OF assms(1)] assms(2) by blast+
  note body = submitted_body_cart(1) [OF assms(3) ok, unfolded body_of_cart_def]
  have "looseLines (kn_cart s) \<noteq> [] \<or> boxLines (kn_cart s) \<noteq> []" using ok(2) line_split unfolding cart_ok_def by blast
  moreover have "ca_reason (kn_cart s) = Buy \<and> ca_writeoffReasonId (kn_cart s) = None
      \<or> ca_reason (kn_cart s) = Writeoff \<and> ca_writeoffReasonId (kn_cart s) \<noteq> None"
    using ok(2) by (cases "ca_reason (kn_cart s)") (auto simp: cart_ok_def)
  ultimately show ?thesis using body submitted_body_cart(2) [OF assms(3) ok] by auto
qed

section \<open>A recovered write-off\<close>

definition draft_owner :: credential_owner where
  "draft_owner = \<lparr>cw_serverUrl = [104], cw_kioskId = [107], cw_credentialGeneration = lit ''00000000-0000-4000-8000-000000000000''\<rparr>"

definition draft_config :: kiosk_config where
  "draft_config = \<lparr>kc_serverUrl = [104], kc_kioskId = Some [107],
     kc_credentialGeneration = Some (lit ''00000000-0000-4000-8000-000000000000''), kc_hasToken = True, kc_nextDeviceSeq = 0\<rparr>"

definition drafting_store :: kiosk_store where
  "drafting_store = offline_store\<lparr>kt_config := Some draft_config\<rparr>"

definition sample_draft_env :: draft_env where
  "sample_draft_env = \<lparr>dv_before = (\<lambda>_ _. False), dv_strict = True, dv_newWork = True, dv_badges = (\<lambda>_. Some (lit ''e'')),
     dv_nonce = lit ''x'', dv_granted = True, dv_reservations = (\<lambda>_. Some (lit ''c'', lit ''p''))\<rparr>"

definition sample_draft :: pickup_draft where
  "sample_draft = \<lparr>pd_owner = draft_owner, pd_employeeId = lit ''e'', pd_badgeDigest = lit ''d'',
     pd_body = createConfirmedOrderBody sample_confirmed 0 (lit ''t''), pd_cart = kn_cart sample_confirmed, pd_nonce = lit ''x'',
     pd_status = Draft_pending, pd_taskReady = True\<rparr>"

definition sample_drafts :: draft_store where
  "sample_drafts = [(draftKey draft_owner 0, sample_draft)]"

definition writeoff_bootstrap :: kiosk_bootstrap where
  "writeoff_bootstrap = sample_bootstrap\<lparr>kb_employees := Some [\<lparr>be_id = lit ''e'', be_limitMode = Some (lit ''limited''),
     be_dayLimit = Some (JInt 9), be_canWriteoff = Some True, be_takenTodayElsewhere = None\<rparr>]\<rparr>"

lemma draft_owner_of: "boxRegistryCredentialOwnerOf draft_config = Some draft_owner"
proof -
  have "js_trim [104] = [104]" "js_trim [107] = [107]" "strip_slashes [104] = [104]"
    by (simp_all add: js_trim_def strip_def js_ws_def strip_slashes_def)
  moreover have "matches uuid_classes (lit ''00000000-0000-4000-8000-000000000000'')"
      "to_lower (lit ''00000000-0000-4000-8000-000000000000'') = lit ''00000000-0000-4000-8000-000000000000''"
    by (simp_all add: to_lower_def matches_def uuid_classes_def lit_def is_hex_def is_digit_def is_hyphen_def numeral_eq_Suc)
  ultimately show ?thesis
    by (simp add: draft_config_def boxRegistryCredentialOwnerOf_def boxRegistryBindingOf_def credentialGenerationOf_def draft_owner_def Let_def)
qed

lemma drafting_facts [simp]:
  "kt_config drafting_store = Some draft_config" "kc_hasToken draft_config" "kc_nextDeviceSeq draft_config = 0"
  "context_owner drafting_store = Some draft_owner"
  using draft_owner_of by (simp_all add: drafting_store_def context_owner_def draft_config_def)

lemma sample_confirmed_facts [simp]:
  "ke_id (kn_employee sample_confirmed) = lit ''e''" "kn_badgeDigest sample_confirmed = lit ''d''"
  "ke_id (kn_employee sample_session) = lit ''e''" "kn_badgeDigest sample_session = lit ''d''"
  "with_cart sample_session (kn_cart sample_confirmed) = sample_confirmed" "ca_reason (kn_cart sample_confirmed) = Writeoff"
  by (simp_all add: sample_confirmed_def sample_session_def)

lemma sample_prepared:
  "preparePickupDraft sample_draft_env draft_owner sample_confirmed (lit ''t'') drafting_store []
     = Inr (drafting_store\<lparr>kt_config := Some (draft_config\<lparr>kc_nextDeviceSeq := 1\<rparr>)\<rparr>,
         [(draftKey draft_owner 0, sample_draft\<lparr>pd_taskReady := False\<rparr>)], sample_draft\<lparr>pd_taskReady := False\<rparr>)"
  by (simp add: preparePickupDraft_def sample_draft_env_def matchingPickupDraft_def abandon_drafts_def readPickupDraft_def
      sample_draft_def Let_def max_safe_def)

lemma draft_run_acts:
  "draft_run flow drafts found confirmed \<Longrightarrow> list_all (\<lambda>a. \<forall>s. a \<noteq> DraftRecovered s) acts \<Longrightarrow>
     draft_run (foldl kioskFlowReducer flow acts) drafts found confirmed"
  by (induction acts arbitrary: flow) (auto intro: draft_run.act)

text \<open>A write-off is confirmed and its draft stored and granted, the submission fails, and the badge comes back.\<close>

lemma sample_draft_run: "draft_run (Confirmation sample_confirmed True) sample_drafts {sample_draft} {sample_confirmed}"
proof -
  have step: "kioskFlowReducer (Confirmation sample_confirmed False) SubmissionStarted = Confirmation sample_confirmed True"
    by (simp add: kioskFlowReducer_def)
  have "draft_run (Confirmation sample_confirmed False) [] {} {}"
    using draft_run_acts [OF draft_run.start, of sample_run] sample_run_confirms by (simp add: sample_run_def)
  from draft_run.confirm [OF this] have "draft_run (Confirmation sample_confirmed True) [] {} {sample_confirmed}"
    by (simp only: step)
  from draft_run.prepare [OF this _ sample_prepared]
  have "draft_run (Confirmation sample_confirmed True) [(draftKey draft_owner 0, sample_draft\<lparr>pd_taskReady := False\<rparr>)] {} {sample_confirmed}" by simp
  from draft_run.ready [OF this, of "dv_before sample_draft_env" draft_owner 0 "sample_draft\<lparr>pd_taskReady := False\<rparr>"]
  have "draft_run (Confirmation sample_confirmed True) sample_drafts {} {sample_confirmed}"
    by (simp add: mark_ready_def readPickupDraft_def sample_drafts_def) (simp add: sample_draft_def)
  from draft_run_acts [OF this, of "[SubmitFailed, LogoutConfirmed]"] have "draft_run Login sample_drafts {} {sample_confirmed}"
    by (simp add: kioskFlowReducer_def)
  moreover have "recoverPickupDraft sample_draft_env draft_owner (lit ''e'') (lit ''d'') drafting_store sample_drafts = Some sample_draft"
    by (simp add: recoverPickupDraft_def sample_drafts_def own_pending_def sample_draft_env_def) (simp add: sample_draft_def)
  ultimately have found: "draft_run Login sample_drafts {sample_draft} {sample_confirmed}" by (rule draft_run.find)
  have "draft_run (kioskFlowReducer Login (DraftRecovered (with_cart sample_session (pd_cart sample_draft)))) sample_drafts {sample_draft} {sample_confirmed}"
    by (rule draft_run.recover [OF found]) (simp_all add: sample_draft_def)
  then have "draft_run (Confirmation sample_confirmed False) sample_drafts {sample_draft} {sample_confirmed}"
    by (simp add: kioskFlowReducer_def sample_draft_def del: fun_upd_apply)
  from draft_run.confirm [OF this] show ?thesis by (simp add: step)
qed

lemma sample_submitted:
  "submitted_body sample_draft_env drafting_store sample_drafts (Some writeoff_bootstrap) sample_confirmed (lit ''u'')
     = Some (with_reservation (pd_body sample_draft) (lit ''c'', lit ''p''))"
proof -
  have policy: "effectivePickupPolicy writeoff_bootstrap (lit ''e'') = Some \<lparr>pp_limited = True, pp_dayLimit = 9, pp_canWriteoff = True\<rparr>"
    by (simp add: effectivePickupPolicy_def find_employee_def writeoff_bootstrap_def sample_bootstrap_def isCompleteCurrentPickupPolicy_def)
  have "matchingPickupDraft draft_owner sample_confirmed sample_drafts = Some sample_draft"
    by (simp add: matchingPickupDraft_def sample_drafts_def own_pending_def) (simp add: sample_draft_def)
  moreover have "pd_taskReady sample_draft" by (simp add: sample_draft_def)
  ultimately have "preparePickupDraft sample_draft_env draft_owner sample_confirmed (lit ''u'') drafting_store sample_drafts
      = Inr (drafting_store, sample_drafts, sample_draft)"
    by (simp add: preparePickupDraft_def sample_draft_env_def)
  then have "prepareStrictPickup sample_draft_env draft_owner sample_confirmed (lit ''u'') drafting_store sample_drafts
      = Inr (Some (with_reservation (pd_body sample_draft) (lit ''c'', lit ''p'')))"
    by (simp add: prepareStrictPickup_def) (simp add: sample_draft_env_def)
  then show ?thesis by (simp add: submitted_body_def draft_owner_of policy)
qed

theorem kiosk_order_proper_witness:
  "\<exists>body. submitted_body sample_draft_env drafting_store sample_drafts (Some writeoff_bootstrap) sample_confirmed (lit ''u'') = Some body
     \<and> co_reason body = lit ''writeoff'' \<and> co_writeoffReasonId body \<noteq> None \<and> co_badgeDigest body = lit ''d''"
proof -
  note order = kiosk_order_proper [OF sample_draft_run singletonI sample_submitted]
  have "co_reason (with_reservation (pd_body sample_draft) (lit ''c'', lit ''p'')) \<noteq> lit ''buy''"
    by (simp add: with_reservation_def sample_draft_def createConfirmedOrderBody_def lit_def)
  then show ?thesis using order sample_submitted by auto
qed

end
