(* ===== verification/Spec2Isabelle.thy ===== *)
theory Spec2Isabelle
  imports Offline_Grants Product_Labels Warehouse_Reprint Inventory_Repacking Inventory_Scan Shift_Exports
    Inventory_Documents Inventory_Registry Box_Closing Closure_Sync Station_Journal Scan_Queue
    Shift_Close Registry_Sync Pickup_Runs Kiosk_Drafts
begin

text \<open>
  A model of the core of Markiro, a system for the marking, aggregation and inventory of goods with
  Chestny ZNAK codes. The program is a TypeScript monorepo. Its decision logic is the package
  \<open>packages/domain\<close>, pure functions used by the server, the kiosk and the packing station; the
  station keeps its own state in a SQLite database, written by \<open>apps/station/src/lib\<close>.

  \<^bold>\<open>How the parts work together.\<close> A packing station scans marking codes (KM). A scan is classified and
  judged against the shift (\<open>scan/\<close>), recorded in the local journal (\<open>journal.ts\<close>) in the order in which
  the scan queue hands it over (\<open>scan-queue.ts\<close>), and copied to an outbox that a background loop sends to
  the server (\<open>outbox.ts\<close>). Accepted codes fill the open box; closing it burns a serial of the SSCC pool
  (\<open>sscc-pool.ts\<close>), builds the number (\<open>gs1/sscc.ts\<close>), writes it to the row and prints the label
  (\<open>close-box.ts\<close>, \<open>boxes.ts\<close>); boxes go on pallets in the same way (\<open>close-pallet.ts\<close>, \<open>pallets.ts\<close>).
  Closed boxes and pallets are reported until the server acknowledges them (\<open>sync.ts\<close>), and a shift is
  closed on the device, with its counts, before the server knows (\<open>shift-close.ts\<close>). Away from the line,
  employees take goods at a kiosk: scans fill a cart under a daily allowance, the confirmed cart becomes
  an order in a durable queue, and a worker delivers the queue and keeps what the server answered
  (\<open>apps/kiosk/src\<close>); a box is taken as a whole from the kiosk's copy of the server's box registry, and the server judges every line again,
  over all kiosks, before it files the order (\<open>pickup-orders.service.ts\<close>); pickups may be completed against a signed offline grant with a budget (\<open>offline-grants/\<close>),
  labels are printed and verified as streams of events (\<open>product-labels/\<close>, \<open>warehouse-reprint/\<close>), and an
  inventory classifies scans against a snapshot, repacks boxes and renders the documents for the state
  system (\<open>inventory/\<close>, \<open>gismt-*.ts\<close>, \<open>shift-exports.ts\<close>).

  \<^bold>\<open>Theories.\<close> Each opens with the list of files it models; definitions keep the names of the source.
  \<^item> \<open>Markiro_Prelude\<close>: strings as lists of UTF-16 units (\<open>jstring\<close>, literals by \<open>lit\<close>), decimal digits, JS
    numbers with NaN, infinities and the safe-integer bound (\<open>jnum\<close>), trimming, splitting, insertion-ordered
    maps, and the collections of simplification rules the other theories use.
  \<^item> \<open>Gs1_Codes\<close> (\<open>gs1/check-digit.ts\<close>, \<open>gtin.ts\<close>, \<open>sscc.ts\<close>) and \<open>Km_Codes\<close> (\<open>gs1/km.ts\<close>, \<open>product-labels/km.ts\<close>):
    codes, their parsers and printers; round trips, an equivalence of the segment parser with a
    declarative reading, bounds on canonical codes.
  \<^item> \<open>Scan_Rules\<close> (\<open>scan/*.ts\<close>, \<open>barcodes/task-tokens.ts\<close>, \<open>warehouse-reprint/scan.ts\<close>): verdicts on scans.
  \<^item> \<open>Offline_Grants\<close> (\<open>offline-grants/*.ts\<close>, kiosk \<open>grants/clock.ts\<close>, \<open>completion.ts\<close>): schemas, budgets,
    the trusted clock, decisions, and any run of completions against them.
  \<^item> \<open>Event_Projection\<close>: the interface of an event-sourced projection as a locale, interpreted by
    \<open>Product_Labels\<close> and \<open>Warehouse_Reprint\<close> (\<open>state.ts\<close> and \<open>contracts.ts\<close> of both directories).
  \<^item> \<open>Inventory_Repacking\<close> (\<open>inventory/repacking.ts\<close>): the reducer and an abstract box it refines.
  \<^item> \<open>Document_Text\<close>, \<open>Gismt_Documents\<close>, \<open>Shift_Exports\<close>: UTF-8, CSV and XML text, the aggregation and
    disaggregation documents, and shift exports with their splitting into parts.
  \<^item> \<open>Inventory_Scan\<close>, \<open>Inventory_Documents\<close>, \<open>Inventory_Registry\<close>: snapshot and scan classification, the
    selection of final boxes, every document generator, the registry of formats.
  \<^item> \<open>Sscc_Pool\<close> (\<open>sscc-pool.ts\<close>): the rows of the pool and every statement on them.
  \<^item> \<open>Station_Tables\<close> (\<open>outbox.ts\<close>, \<open>box-exceptions-mirror.ts\<close>, the exceptions of \<open>pallets.ts\<close>, the tables and
    triggers of \<open>migrations.ts\<close> they use): the database as a record of row lists, AUTOINCREMENT tables,
    and the queues that are read in batches and acknowledged, as interpretations of one locale.
  \<^item> \<open>Station_Boxes\<close> (\<open>boxes.ts\<close>, \<open>pallets.ts\<close>): every statement on boxes and pallets as an operation on
    the database, collected in a datatype of operations, so that a property holds after any sequence.
  \<^item> \<open>Closure_Sync\<close> (\<open>sync.ts\<close>): reports of closed containers, acknowledgements and set signatures.
  \<^item> \<open>Box_Closing\<close> (\<open>close-box.ts\<close>, \<open>close-pallet.ts\<close>): each closing routine as a program counter whose steps
    are the awaited statements, a relation that interleaves any number of them over one database,
    and the sequential functions the machines refine.
  \<^item> \<open>Station_Journal\<close> (\<open>journal.ts\<close>): recording and undo with the failure of each single write as input.
  \<^item> \<open>Scan_Queue\<close> (\<open>scan-queue.ts\<close>): the queue's closure variables and an explicit schedule of events.
  \<^item> \<open>Shift_Close\<close> (\<open>shift-close.ts\<close> of the station and of the domain): closing a shift as a program counter
    over the outbox of closes, its unique index and triggers; attempts interleave, stop anywhere and are
    made again. The server's acceptance, which deletes the stored close, is an operation of the model
    but not a step of that relation.
  \<^item> \<open>Kiosk_Cart\<close> (\<open>domain-guard/classify.ts\<close>, \<open>session/cart.ts\<close>, \<open>session/day-count.ts\<close>, \<open>box-resolution.ts\<close>,
    \<open>screens/money.ts\<close>), \<open>Kiosk_Flow\<close> (\<open>session/flow.ts\<close>) and \<open>Kiosk_Delivery\<close> (\<open>store/queue.ts\<close>, \<open>journal.ts\<close>,
    \<open>outcomes.ts\<close>, \<open>sync/worker.ts\<close>, \<open>submitCart\<close> of \<open>KioskShell.tsx\<close>): the kiosk from the scan to the server's
    answer. Reducers are functions; a delivery pass takes, for each order, the answers of the server
    and the writes that fail; a session takes whether and when the read of its day count succeeds.
  \<^item> \<open>Kiosk_Drafts\<close> (\<open>grants/drafts.ts\<close>, \<open>grants/preparation.ts\<close>, the body \<open>submitCart\<close> hands to the queue): drafts of
    confirmed pickups, stored before a grant is asked for and found again by the badge. A run joins them with
    the screens, so that a recovered session is one that was confirmed and stored before; what the server
    answers about the grant is an argument.
  \<^item> \<open>Box_Registry\<close> (\<open>kiosk/box-registry.service.ts\<close>, \<open>box-registry.dto.ts\<close> and \<open>boxes/box-registry-version.ts\<close> of
    \<open>apps/api/src/modules\<close>): what the server publishes about closed boxes, page by page, and \<open>Registry_Sync\<close>
    (\<open>store/box-registry.ts\<close> and \<open>refreshBoxRegistry\<close> of the kiosk's worker): the copy a kiosk keeps. A run
    interleaves commits of the servers, statements of \<open>list\<close>, refreshes, lookups and new pairings; that every
    commit stamps the boxes it touches is the contract of \<open>advanceBoxRegistryVersion\<close> with its callers.
  \<^item> \<open>Pickup_Rules\<close> (\<open>box-order-resolver.ts\<close>, \<open>kiosk-admission-proof.ts\<close> and the body schema of
    \<open>apps/api/src/modules/pickup-orders\<close>, \<open>order-number.ts\<close> and \<open>total-price.ts\<close> of \<open>apps/api/src/pickup\<close>): the rules
    the server judges a kiosk's order by; \<open>Pickup_Orders\<close> (\<open>pickup-orders.service.ts\<close>, the tables of
    \<open>packages/db/src/schema/pickup.ts\<close>): a request as a program counter whose steps are the awaited statements,
    the order transaction under the tenant's and the kiosk's lock, persisted rejections, reservations,
    resolving and cancelling; \<open>Pickup_Tables\<close> and \<open>Pickup_Runs\<close>: every interleaving of them, the
    invariants of the tables and of the requests in flight. That a kiosk files one content under one
    number and that the policies in force stay within a bound are hypotheses of the runs.

  \<^bold>\<open>Conventions.\<close> A function that throws returns a sum whose left side is the error; the database is passed
  explicitly and returned; \<open>await\<close> splits a routine into steps where other code may run. Integers the
  source keeps as JS numbers are \<open>int\<close> or \<open>nat\<close> where the code has checked them and \<open>jnum\<close> where it has not.
  SHA-256, UUIDs, the clock, \<open>localeCompare\<close> and the date functions of the host are arguments of the
  definitions that call them. No fuel is used: every recursion is structural or has a measure, and
  the closing machines of boxes, pallets and shifts end after at most ten, four and twelve steps, a
  refresh of the registry after three attempts of the allowed pages.

  \<^bold>\<open>Not modelled.\<close> Routines of the station that spend a signed offline grant, because they hand whole
  batches of statements to native code, and the evidence protocol of the kiosk, so \<open>Kiosk_Delivery\<close>
  describes an installation without a grant and \<open>Kiosk_Drafts\<close> ends where the queue takes an order; the pallet a
  reported box is on, which \<open>Closure_Sync\<close> leaves out of its view of a report; the documents a handheld files, the listings, exports and printed slips of orders; the HTTP and timer loops around the queues; label layout and print forms;
  the other modules of the server and the web front ends; the Kotlin and Rust programs.
\<close>

end
